(* ===== verification/Prelude.thy ===== *)
theory Prelude
  imports Main "HOL-Library.Word" "HOL-Library.Monad_Syntax" "HOL-Library.Signed_Division"
begin

text \<open>
  Prelude of the MS-MPI development: the error values of the library, C arrays with checked
  access, the 32-bit wrap-around of C's \<open>int\<close>, the simp collections of the components
  and the generic lemmas they share.
\<close>

subsection \<open>Fact collections\<close>

named_theorems access_simps \<open>reads and writes of C arrays that are in bounds\<close>
named_theorems frame_simps \<open>fields an operation leaves alone\<close>

subsection \<open>MPI error values\<close>

text \<open>
  The error classes of \<open>mpi.h\<close>. An error code built by
  \<open>MPIU_ERR_CREATE(class, "**key ...")\<close> is the pair of its class and message key; the
  formatted arguments are left out.
\<close>

datatype mpi_class =
    MPI_ERR_BUFFER | MPI_ERR_COUNT | MPI_ERR_TYPE | MPI_ERR_TAG | MPI_ERR_COMM | MPI_ERR_RANK
  | MPI_ERR_ROOT | MPI_ERR_GROUP | MPI_ERR_OP | MPI_ERR_TOPOLOGY | MPI_ERR_DIMS | MPI_ERR_ARG
  | MPI_ERR_UNKNOWN | MPI_ERR_TRUNCATE | MPI_ERR_OTHER | MPI_ERR_INTERN | MPI_ERR_IN_STATUS
  | MPI_ERR_PENDING | MPI_ERR_REQUEST | MPI_ERR_ACCESS | MPI_ERR_AMODE | MPI_ERR_BAD_FILE
  | MPI_ERR_CONVERSION | MPI_ERR_DUP_DATAREP | MPI_ERR_FILE_EXISTS | MPI_ERR_FILE_IN_USE
  | MPI_ERR_FILE | MPI_ERR_INFO | MPI_ERR_INFO_KEY | MPI_ERR_INFO_VALUE | MPI_ERR_INFO_NOKEY
  | MPI_ERR_IO | MPI_ERR_NAME | MPI_ERR_NO_MEM | MPI_ERR_NOT_SAME | MPI_ERR_NO_SPACE
  | MPI_ERR_NO_SUCH_FILE | MPI_ERR_PORT | MPI_ERR_QUOTA | MPI_ERR_READ_ONLY | MPI_ERR_SERVICE
  | MPI_ERR_SPAWN | MPI_ERR_UNSUPPORTED_DATAREP | MPI_ERR_UNSUPPORTED_OPERATION | MPI_ERR_WIN
  | MPI_ERR_BASE | MPI_ERR_LOCKTYPE | MPI_ERR_KEYVAL | MPI_ERR_RMA_CONFLICT | MPI_ERR_RMA_SYNC
  | MPI_ERR_SIZE | MPI_ERR_DISP | MPI_ERR_ASSERT

datatype mpi_error = MPIU_ERR_CREATE (err_class: mpi_class) (err_key: string)

definition MPIU_ERR_NOMEM :: mpi_error where
  "MPIU_ERR_NOMEM = MPIU_ERR_CREATE MPI_ERR_OTHER ''**nomem''"

definition MPI_UNDEFINED :: int where "MPI_UNDEFINED = - 32766"
definition MPI_PROC_NULL :: int where "MPI_PROC_NULL = - 1"

text \<open>
  A piece of code has one of three outcomes: \<open>None\<close> when it reads or writes outside an
  array, divides by zero or does not return (C leaves the program's behaviour undefined),
  \<open>Some (Inl e)\<close> when it reports the MPI error \<open>e\<close>, and \<open>Some (Inr v)\<close> when it
  succeeds.
\<close>

type_synonym 'a outcome = "(mpi_error + 'a) option"

subsection \<open>C arrays\<close>

text \<open>\<open>rd a i\<close> is \<open>a[i]\<close>, \<open>wr a i v\<close> is the array after \<open>a[i] = v\<close>; an index out of
  bounds is \<open>None\<close>.\<close>

definition rd :: "'a list \<Rightarrow> int \<Rightarrow> 'a option" where
  "rd a i = (if 0 \<le> i \<and> i < int (length a) then Some (a ! nat i) else None)"

definition wr :: "'a list \<Rightarrow> int \<Rightarrow> 'a \<Rightarrow> 'a list option" where
  "wr a i v = (if 0 \<le> i \<and> i < int (length a) then Some (a[nat i := v]) else None)"

lemma rd_int [simp, access_simps]: "k < length a \<Longrightarrow> rd a (int k) = Some (a ! k)"
  by (simp add: rd_def)

lemma wr_int [simp, access_simps]: "k < length a \<Longrightarrow> wr a (int k) v = Some (a[k := v])"
  by (simp add: wr_def)

lemma rd_add [simp, access_simps]: "j + k < length a \<Longrightarrow> rd a (int j + int k) = Some (a ! (j + k))"
  using rd_int [of "j + k"] by simp

lemma rd_eq_Some [simp]: "rd a i = Some x \<longleftrightarrow> 0 \<le> i \<and> i < int (length a) \<and> x = a ! nat i"
  by (auto simp: rd_def)

lemma wr_eq_Some [simp]:
  "wr a i v = Some b \<longleftrightarrow> 0 \<le> i \<and> i < int (length a) \<and> b = a[nat i := v]"
  by (auto simp: wr_def)

subsection \<open>32-bit integers\<close>

text \<open>The value of a C \<open>int\<close> expression as the compiled code computes it: two's complement.\<close>

definition i32 :: "int \<Rightarrow> int" where
  "i32 x = (x + 2 ^ 31) mod 2 ^ 32 - 2 ^ 31"

lemma i32_id: "- (2 ^ 31) \<le> x \<Longrightarrow> x < 2 ^ 31 \<Longrightarrow> i32 x = x"
  by (simp add: i32_def)

lemma i32_range: "- (2 ^ 31) \<le> i32 x" "i32 x < 2 ^ 31"
proof -
  have "0 \<le> (x + 2 ^ 31) mod 2 ^ 32" "(x + 2 ^ 31) mod 2 ^ 32 < 2 ^ 32"
    by simp_all
  then show "- (2 ^ 31) \<le> i32 x" "i32 x < 2 ^ 31"
    by (simp_all add: i32_def)
qed

text \<open>
  C's \<open>/\<close> and \<open>%\<close> on \<open>int\<close> truncate towards zero; division by zero and the quotient of the
  smallest \<open>int\<close> by \<open>-1\<close> are undefined (the processor traps).
\<close>

definition c_div :: "int \<Rightarrow> int \<Rightarrow> int option" where
  "c_div a b = (if b = 0 \<or> a = - (2 ^ 31) \<and> b = - 1 then None else Some (a sdiv b))"

definition c_mod :: "int \<Rightarrow> int \<Rightarrow> int option" where
  "c_mod a b = (if b = 0 \<or> a = - (2 ^ 31) \<and> b = - 1 then None else Some (a smod b))"

lemma sdiv_nonneg_pos: "0 \<le> a \<Longrightarrow> 0 < b \<Longrightarrow> a sdiv b = a div (b :: int)"
  by (cases "a = 0") (simp_all add: signed_divide_int_def)

lemma smod_nonneg_pos: "0 \<le> a \<Longrightarrow> 0 < b \<Longrightarrow> a smod b = a mod (b :: int)"
  by (cases "a = 0") (simp_all add: signed_modulo_int_def)

lemma c_div_nonneg [simp]: "0 \<le> a \<Longrightarrow> 0 < b \<Longrightarrow> c_div a b = Some (a div b)"
  by (simp add: c_div_def sdiv_nonneg_pos)

lemma c_mod_nonneg [simp]: "0 \<le> a \<Longrightarrow> 0 < b \<Longrightarrow> c_mod a b = Some (a mod b)"
  by (simp add: c_mod_def smod_nonneg_pos)

subsection \<open>Index ranges\<close>

lemma index_range: "[0..int n - 1] = map int [0..<n]"
proof (induction n)
  case (Suc n)
  have "[0..int (Suc n) - 1] = [0..int n - 1] @ [int n]" by (cases n) (simp_all add: upto_rec2)
  with Suc show ?case by simp
qed simp

lemma range_from: "[int s..int n - 1] = map int [s..<n]"
proof (cases "s \<le> n")
  case True
  then show ?thesis
  proof (induction n rule: dec_induct)
    case (step n)
    have "[int s..int (Suc n) - 1] = [int s..int n - 1] @ [int n]" using step(1) by (simp add: upto_rec2)
    with step show ?case by simp
  qed simp
qed simp

subsection \<open>Bits of words\<close>

lemma nat_bit_below: "x < 2 ^ m \<Longrightarrow> bit x n \<Longrightarrow> n < m" for x :: nat
proof (rule ccontr)
  assume "x < 2 ^ m" "bit x n" "\<not> n < m"
  then have "x < 2 ^ n"
    by (meson less_le_trans one_le_numeral not_less power_increasing)
  with \<open>bit x n\<close> show False
    by (simp add: bit_iff_odd)
qed

lemma bit_below: "unat w < 2 ^ m \<Longrightarrow> bit w n \<Longrightarrow> n < m" for w :: "'a::len word"
  using nat_bit_below [of "unat w" m n] by (simp add: bit_unsigned_iff)

end
