(* ===== verification/Handles.thy ===== *)
theory Handles
  imports Prelude
begin

unbundle bit_operations_syntax

text \<open>
  The layout of MPI handles (\<open>src/mpi/common/mpihandlemem.h\<close>): a 32-bit value holding two bits
  of handle type, four bits of object kind and 26 bits of index; the index of an indirect handle
  is a 10-bit block number and a 16-bit index in the block. The macros are translated one by one;
  the lemmas say that a handle built by the allocators reads back as what it was built from, so
  that distinct objects have distinct handles.
\<close>

type_synonym handle = "32 word"

subsection \<open>Handle types and kinds\<close>

definition HANDLE_TYPE_INVALID :: handle where "HANDLE_TYPE_INVALID = 0"
definition HANDLE_TYPE_BUILTIN :: handle where "HANDLE_TYPE_BUILTIN = 1"
definition HANDLE_TYPE_DIRECT :: handle where "HANDLE_TYPE_DIRECT = 2"
definition HANDLE_TYPE_INDIRECT :: handle where "HANDLE_TYPE_INDIRECT = 3"

lemmas HANDLE_TYPE_defs =
  HANDLE_TYPE_INVALID_def HANDLE_TYPE_BUILTIN_def HANDLE_TYPE_DIRECT_def HANDLE_TYPE_INDIRECT_def

definition HANDLE_GET_TYPE :: "handle \<Rightarrow> handle" where
  "HANDLE_GET_TYPE a = drop_bit 30 (a AND 0xc0000000)"

definition HANDLE_SET_TYPE :: "handle \<Rightarrow> handle \<Rightarrow> handle" where
  "HANDLE_SET_TYPE a kind = a OR push_bit 30 kind"

definition HANDLE_IS_VALID :: "handle \<Rightarrow> bool" where
  "HANDLE_IS_VALID a \<longleftrightarrow> HANDLE_GET_TYPE a \<noteq> HANDLE_TYPE_INVALID"

definition HANDLE_IS_BUILTIN :: "handle \<Rightarrow> bool" where
  "HANDLE_IS_BUILTIN a \<longleftrightarrow> HANDLE_GET_TYPE a = HANDLE_TYPE_BUILTIN"

datatype MPID_Object_kind =
    MPID_COMM | MPID_GROUP | MPID_DATATYPE | MPID_FILE | MPID_ERRHANDLER | MPID_OP | MPID_INFO
  | MPID_WIN | MPID_KEYVAL | MPID_ATTR | MPID_REQUEST | MPID_MESSAGE | MPID_VCONN
  | MPID_GREQ_CLASS

fun kind_code :: "MPID_Object_kind \<Rightarrow> handle" where
  "kind_code MPID_COMM = 0x1"
| "kind_code MPID_GROUP = 0x2"
| "kind_code MPID_DATATYPE = 0x3"
| "kind_code MPID_FILE = 0x4"
| "kind_code MPID_ERRHANDLER = 0x5"
| "kind_code MPID_OP = 0x6"
| "kind_code MPID_INFO = 0x7"
| "kind_code MPID_WIN = 0x8"
| "kind_code MPID_KEYVAL = 0x9"
| "kind_code MPID_ATTR = 0xa"
| "kind_code MPID_REQUEST = 0xb"
| "kind_code MPID_MESSAGE = 0xc"
| "kind_code MPID_VCONN = 0xd"
| "kind_code MPID_GREQ_CLASS = 0xf"

lemma kind_code_bound: "unat (kind_code k) < 2 ^ 4"
  by (cases k) simp_all

lemma kind_code_inj [simp]: "kind_code j = kind_code k \<longleftrightarrow> j = k"
  by (cases j; cases k) simp_all

definition HANDLE_GET_MPI_KIND :: "handle \<Rightarrow> handle" where
  "HANDLE_GET_MPI_KIND a = drop_bit 26 (a AND 0x3c000000)"

definition HANDLE_SET_MPI_KIND :: "handle \<Rightarrow> handle \<Rightarrow> handle" where
  "HANDLE_SET_MPI_KIND a kind = (a AND 0xc3ffffff) OR push_bit 26 kind"

subsection \<open>Index fields\<close>

definition HANDLE_INDIRECT_BLOCK :: "handle \<Rightarrow> nat" where
  "HANDLE_INDIRECT_BLOCK a = unat (drop_bit 16 (a AND 0x03FF0000))"

definition HANDLE_INDIRECT_INDEX :: "handle \<Rightarrow> nat" where
  "HANDLE_INDIRECT_INDEX a = unat (a AND 0x0000FFFF)"

definition HANDLE_DIRECT_INDEX :: "handle \<Rightarrow> nat" where
  "HANDLE_DIRECT_INDEX a = unat (a AND 0x03FFFFFF)"

definition HANDLE_BUILTIN_INDEX :: "handle \<Rightarrow> nat" where
  "HANDLE_BUILTIN_INDEX a = unat (a AND 0x000000FF)"

definition HANDLE_BLOCK_SIZE :: nat where "HANDLE_BLOCK_SIZE = 256"
definition HANDLE_BLOCK_INDEX_SIZE :: nat where "HANDLE_BLOCK_INDEX_SIZE = 1024"

text \<open>
  The handle the allocators store in a fresh entry: type, kind, block and index shifted into
  place and combined with \<open>|\<close> (\<open>MPIU_Handle_direct_init\<close>,
  \<open>MPIU_Handle_indirect_init\<close> and \<open>ObjectPool::InitEntry\<close>; the direct case has block 0).
\<close>

definition make_handle :: "handle \<Rightarrow> handle \<Rightarrow> nat \<Rightarrow> nat \<Rightarrow> handle" where
  "make_handle type kind block index =
     push_bit 30 type OR push_bit 26 kind OR push_bit 16 (of_nat block) OR of_nat index"

subsection \<open>Reading a handle back\<close>

text \<open>The masks keep exactly the bits of their field.\<close>

lemma mask_type: "(0xc0000000 :: handle) = push_bit 30 (mask 2)"
  and mask_kind: "(0x3c000000 :: handle) = push_bit 26 (mask 4)"
  and mask_block: "(0x03FF0000 :: handle) = push_bit 16 (mask 10)"
  and mask_index: "(0x0000FFFF :: handle) = mask 16"
  and mask_direct: "(0x03FFFFFF :: handle) = mask 26"
  by (simp_all add: push_bit_eq_mult mask_eq_exp_minus_1)

lemmas field_masks = mask_type mask_kind mask_block mask_index mask_direct

text \<open>The fields of a handle are within the bounds of the arguments it was built from.\<close>

definition fields_ok :: "handle \<Rightarrow> handle \<Rightarrow> nat \<Rightarrow> nat \<Rightarrow> bool" where
  "fields_ok type kind block index \<longleftrightarrow>
     unat type < 2 ^ 2 \<and> unat kind < 2 ^ 4 \<and> block < 2 ^ 10 \<and> index < 2 ^ 16"

lemma fields_bits:
  assumes "fields_ok t k b i"
  shows "bit t n \<Longrightarrow> n < 2" "bit k n \<Longrightarrow> n < 4" "bit b n \<Longrightarrow> n < 10" "bit i n \<Longrightarrow> n < 16"
  using assms unfolding fields_ok_def by (blast dest: bit_below nat_bit_below)+

lemma of_nat_handle: "n < 2 ^ 32 \<Longrightarrow> unat (of_nat n :: handle) = n"
  by (simp add: unat_of_nat take_bit_nat_eq_self)

lemma make_handle_type:
  "fields_ok t k b i \<Longrightarrow> HANDLE_GET_TYPE (make_handle t k b i) = t"
  unfolding HANDLE_GET_TYPE_def make_handle_def field_masks
  by (rule bit_word_eqI)
    (auto simp: bit_simps dest: fields_bits)

lemma make_handle_kind:
  "fields_ok t k b i \<Longrightarrow> HANDLE_GET_MPI_KIND (make_handle t k b i) = k"
  unfolding HANDLE_GET_MPI_KIND_def make_handle_def field_masks
  by (rule bit_word_eqI)
    (auto simp: bit_simps dest: fields_bits)

lemma make_handle_block:
  assumes "fields_ok t k b i"
  shows "HANDLE_INDIRECT_BLOCK (make_handle t k b i) = b"
proof -
  have "drop_bit 16 (make_handle t k b i AND push_bit 16 (mask 10)) = of_nat b"
    unfolding make_handle_def using assms
    by (intro bit_word_eqI)
      (auto simp: bit_simps dest: fields_bits)
  then show ?thesis
    using assms by (simp add: HANDLE_INDIRECT_BLOCK_def field_masks of_nat_handle fields_ok_def)
qed

lemma make_handle_index:
  assumes "fields_ok t k b i"
  shows "HANDLE_INDIRECT_INDEX (make_handle t k b i) = i"
proof -
  have "make_handle t k b i AND mask 16 = of_nat i"
    unfolding make_handle_def using assms
    by (intro bit_word_eqI)
      (auto simp: bit_simps dest: fields_bits)
  then show ?thesis
    using assms by (simp add: HANDLE_INDIRECT_INDEX_def field_masks of_nat_handle fields_ok_def)
qed

text \<open>Direct handles use all 26 bits for the index.\<close>

definition direct_ok :: "handle \<Rightarrow> handle \<Rightarrow> nat \<Rightarrow> bool" where
  "direct_ok type kind index \<longleftrightarrow> unat type < 2 ^ 2 \<and> unat kind < 2 ^ 4 \<and> index < 2 ^ 26"

lemma direct_bits:
  assumes "direct_ok t k i"
  shows "bit t n \<Longrightarrow> n < 2" "bit k n \<Longrightarrow> n < 4" "bit i n \<Longrightarrow> n < 26"
  using assms unfolding direct_ok_def by (blast dest: bit_below nat_bit_below)+

lemma direct_handle_type:
  "direct_ok t k i \<Longrightarrow> HANDLE_GET_TYPE (make_handle t k 0 i) = t"
  unfolding HANDLE_GET_TYPE_def make_handle_def field_masks
  by (rule bit_word_eqI)
    (auto simp: bit_simps dest: direct_bits)

lemma direct_handle_kind:
  "direct_ok t k i \<Longrightarrow> HANDLE_GET_MPI_KIND (make_handle t k 0 i) = k"
  unfolding HANDLE_GET_MPI_KIND_def make_handle_def field_masks
  by (rule bit_word_eqI)
    (auto simp: bit_simps dest: direct_bits)

lemma direct_handle_index:
  assumes "direct_ok t k i"
  shows "HANDLE_DIRECT_INDEX (make_handle t k 0 i) = i"
proof -
  have "make_handle t k 0 i AND mask 26 = of_nat i"
    unfolding make_handle_def using assms
    by (intro bit_word_eqI)
      (auto simp: bit_simps dest: direct_bits)
  then show ?thesis
    using assms by (simp add: HANDLE_DIRECT_INDEX_def field_masks of_nat_handle direct_ok_def)
qed

text \<open>A handle is determined by its fields.\<close>

lemma handle_from_fields_direct:
  "h = make_handle (HANDLE_GET_TYPE h) (HANDLE_GET_MPI_KIND h) 0 (HANDLE_DIRECT_INDEX h)"
proof (rule bit_word_eqI)
  fix n assume "n < LENGTH(32)"
  then consider "n < 26" | "26 \<le> n" "n < 30" | "n = 30" | "n = 31" by force
  then show "bit h n = bit (make_handle (HANDLE_GET_TYPE h) (HANDLE_GET_MPI_KIND h) 0 (HANDLE_DIRECT_INDEX h)) n"
    unfolding make_handle_def HANDLE_GET_TYPE_def HANDLE_GET_MPI_KIND_def HANDLE_DIRECT_INDEX_def field_masks
    by cases (auto simp: bit_simps)
qed

lemma handle_from_fields_indirect:
  "h = make_handle (HANDLE_GET_TYPE h) (HANDLE_GET_MPI_KIND h) (HANDLE_INDIRECT_BLOCK h)
     (HANDLE_INDIRECT_INDEX h)"
proof (rule bit_word_eqI)
  fix n assume "n < LENGTH(32)"
  then consider "n < 16" | "16 \<le> n" "n < 26" | "26 \<le> n" "n < 30" | "n = 30" | "n = 31" by force
  then show "bit h n = bit (make_handle (HANDLE_GET_TYPE h) (HANDLE_GET_MPI_KIND h)
      (HANDLE_INDIRECT_BLOCK h) (HANDLE_INDIRECT_INDEX h)) n"
    unfolding make_handle_def HANDLE_GET_TYPE_def HANDLE_GET_MPI_KIND_def HANDLE_INDIRECT_BLOCK_def
      HANDLE_INDIRECT_INDEX_def field_masks
    by cases (auto simp: bit_simps)
qed

lemmas handle_readback =
  make_handle_type make_handle_kind make_handle_block make_handle_index
  direct_handle_type direct_handle_kind direct_handle_index

subsection \<open>Setting the fields\<close>

lemma mask_not_kind: "(0xc3ffffff :: handle) = NOT (push_bit 26 (mask 4))"
  by (simp add: push_bit_eq_mult mask_eq_exp_minus_1 not_eq_complement)

lemma HANDLE_SET_MPI_KIND_kind:
  "unat k < 2 ^ 4 \<Longrightarrow> HANDLE_GET_MPI_KIND (HANDLE_SET_MPI_KIND a k) = k"
  unfolding HANDLE_GET_MPI_KIND_def HANDLE_SET_MPI_KIND_def mask_kind mask_not_kind
  by (rule bit_word_eqI) (auto simp: bit_simps dest: bit_below [of k 4, simplified])

lemma HANDLE_SET_MPI_KIND_type:
  "unat k < 2 ^ 4 \<Longrightarrow> HANDLE_GET_TYPE (HANDLE_SET_MPI_KIND a k) = HANDLE_GET_TYPE a"
  unfolding HANDLE_GET_TYPE_def HANDLE_SET_MPI_KIND_def mask_type mask_not_kind
  by (rule bit_word_eqI) (auto simp: bit_simps dest: bit_below [of k 4, simplified])

subsection \<open>Reading the fields back\<close>

text \<open>The macros that take a handle apart give back the type, kind, block and index it was made
of, whenever each fits its bit field.\<close>

theorem handle_fields_roundtrip:
  assumes "fields_ok type kind block index"
  shows "HANDLE_GET_TYPE (make_handle type kind block index) = type \<and>
    HANDLE_GET_MPI_KIND (make_handle type kind block index) = kind \<and>
    HANDLE_INDIRECT_BLOCK (make_handle type kind block index) = block \<and>
    HANDLE_INDIRECT_INDEX (make_handle type kind block index) = index"
  using assms by (simp add: handle_readback)

lemma handle_fields_roundtrip_witness:
  "HANDLE_GET_TYPE (make_handle 3 2 5 17) = 3 \<and> HANDLE_GET_MPI_KIND (make_handle 3 2 5 17) = 2 \<and>
   HANDLE_INDIRECT_BLOCK (make_handle 3 2 5 17) = 5 \<and> HANDLE_INDIRECT_INDEX (make_handle 3 2 5 17) = 17"
  using handle_fields_roundtrip [of 3 2 5 17] by (simp add: fields_ok_def)

end
