(* ===== verification/Pool_Spec.thy ===== *)
theory Pool_Spec
  imports Handles
begin

text \<open>
  What the two handle allocators of the library share, and what their clients rely on. Entries
  live in three kinds of storage (a static array of predefined objects, a preallocated array and
  blocks allocated on demand); a free entry links to the next free one. The locale
  \<open>handle_pool\<close> is the contract of an allocator over a ghost set \<open>L\<close> of live objects; it is
  interpreted in \<open>Handle_Mem\<close> (\<open>util/handlemem.cpp\<close>) and in \<open>Object_Pool\<close>
  (\<open>include/objpool.h\<close>).
\<close>

subsection \<open>Addresses, entries and free lists\<close>

text \<open>A pointer to an object: into the builtin array, the direct array, or an indirect block.\<close>

datatype addr = Builtin nat | Direct nat | Indirect nat nat

text \<open>The head every object starts with (\<open>MPIU_Handle_common\<close>).\<close>

record entry =
  e_handle :: handle
  ref_count :: int
  next_free :: "addr option"

type_synonym store = "addr \<rightharpoonup> entry"

definition set_ref :: "int \<Rightarrow> entry \<Rightarrow> entry" where
  "set_ref n e = e\<lparr>ref_count := n\<rparr>"

definition set_next :: "addr option \<Rightarrow> entry \<Rightarrow> entry" where
  "set_next p e = e\<lparr>next_free := p\<rparr>"

lemma entry_updates [simp]:
  "e_handle (set_ref n e) = e_handle e" "ref_count (set_ref n e) = n"
  "next_free (set_ref n e) = next_free e"
  "e_handle (set_next p e) = e_handle e" "ref_count (set_next p e) = ref_count e"
  "next_free (set_next p e) = p"
  by (simp_all add: set_ref_def set_next_def)

text \<open>\<open>chain m p as\<close>: following the free links from \<open>p\<close> visits exactly \<open>as\<close> and ends in null.\<close>

fun chain :: "store \<Rightarrow> addr option \<Rightarrow> addr list \<Rightarrow> bool" where
  "chain m p [] \<longleftrightarrow> p = None"
| "chain m p (a # as) \<longleftrightarrow> p = Some a \<and> (\<exists>e. m a = Some e \<and> chain m (next_free e) as)"

lemma chain_None [simp]: "chain m None as \<longleftrightarrow> as = []"
  by (cases as) auto

lemma chain_Some:
  "chain m (Some a) as \<longleftrightarrow> (\<exists>bs e. as = a # bs \<and> m a = Some e \<and> chain m (next_free e) bs)"
  by (cases as) auto

lemma chain_dom: "chain m p as \<Longrightarrow> set as \<subseteq> dom m"
  by (induction as arbitrary: p) auto

text \<open>A write to an entry outside the chain, or to a field other than the link, keeps it.\<close>

lemma chain_frame:
  assumes "chain m p as"
    and "\<And>a e. a \<in> set as \<Longrightarrow> m a = Some e \<Longrightarrow> \<exists>e'. m' a = Some e' \<and> next_free e' = next_free e"
  shows "chain m' p as"
  using assms by (induction as arbitrary: p) fastforce+

lemma chain_upd_other [simp]: "a \<notin> set as \<Longrightarrow> chain m p as \<Longrightarrow> chain (m(a \<mapsto> e)) p as"
  by (erule chain_frame) auto

lemma chain_upd_ref:
  "chain m p as \<Longrightarrow> m a = Some e \<Longrightarrow> next_free e' = next_free e \<Longrightarrow> chain (m(a \<mapsto> e')) p as"
  by (erule chain_frame) auto

subsection \<open>A freshly linked slab\<close>

text \<open>
  Both allocators link the entries of a new array to one another in index order, the last to
  null: \<open>slab mk h n\<close> is the contents of such an array, \<open>mk i\<close> the address and \<open>h i\<close> the
  handle of its \<open>i\<close>-th entry.
\<close>

definition slab_entry :: "(nat \<Rightarrow> addr) \<Rightarrow> (nat \<Rightarrow> handle) \<Rightarrow> nat \<Rightarrow> nat \<Rightarrow> entry" where
  "slab_entry mk h n i =
     \<lparr>e_handle = h i, ref_count = 0, next_free = (if Suc i < n then Some (mk (Suc i)) else None)\<rparr>"

fun slab_from :: "(nat \<Rightarrow> addr) \<Rightarrow> (nat \<Rightarrow> handle) \<Rightarrow> nat \<Rightarrow> nat \<Rightarrow> nat \<Rightarrow> store \<Rightarrow> store" where
  "slab_from mk h n i 0 m = m"
| "slab_from mk h n i (Suc k) m = slab_from mk h n (Suc i) k (m(mk i \<mapsto> slab_entry mk h n i))"

lemma slab_from_apply:
  assumes "inj mk"
  shows "slab_from mk h n i k m a =
    (if \<exists>j. i \<le> j \<and> j < i + k \<and> a = mk j
     then Some (slab_entry mk h n (THE j. a = mk j)) else m a)"
proof (induction k arbitrary: i m)
  case (Suc k)
  show ?case
  proof (cases "a = mk i")
    case True
    with Suc assms show ?thesis by (auto simp: inj_eq the_equality)
  next
    case False
    then have "(\<exists>j. i \<le> j \<and> j < i + Suc k \<and> a = mk j)
        \<longleftrightarrow> (\<exists>j. Suc i \<le> j \<and> j < Suc i + k \<and> a = mk j)"
      by (metis add_Suc_right add_Suc_shift Suc_leI Suc_leD le_neq_implies_less)
    with Suc False show ?thesis by auto
  qed
qed auto

lemma slab_from_at:
  assumes "inj mk" "j < n"
  shows "slab_from mk h n 0 n m (mk j) = Some (slab_entry mk h n j)"
  using assms by (auto simp: slab_from_apply inj_eq the_equality)

lemma slab_from_other:
  assumes "inj mk" "\<And>j. j < n \<Longrightarrow> a \<noteq> mk j"
  shows "slab_from mk h n 0 n m a = m a"
  using assms by (auto simp: slab_from_apply)

lemma slab_chain:
  assumes "inj mk" "i < n"
  shows "chain (slab_from mk h n 0 n m) (Some (mk i)) (map mk [i..<n])"
  using assms(2)
proof (induction "n - i" arbitrary: i)
  case (Suc k)
  let ?m = "slab_from mk h n 0 n m"
  have at: "?m (mk i) = Some (slab_entry mk h n i)"
    using Suc.prems assms(1) by (rule slab_from_at [rotated])
  have "chain ?m (next_free (slab_entry mk h n i)) (map mk [Suc i..<n])"
    using Suc by (cases "Suc i < n") (auto simp: slab_entry_def)
  with at Suc.prems show ?case
    by (simp add: upt_conv_Cons)
qed simp

subsection \<open>Free lists of a pool\<close>

text \<open>
  \<open>free_chain m p L A\<close>: of the entries \<open>A\<close> of a pool, exactly those not in \<open>L\<close> are linked, once
  each, from \<open>p\<close>. \<open>entries_ok hnd m A\<close>: every entry holds the handle of its address.
\<close>

definition free_chain :: "store \<Rightarrow> addr option \<Rightarrow> addr set \<Rightarrow> addr set \<Rightarrow> bool" where
  "free_chain m p L A \<longleftrightarrow>
     (\<exists>fl. chain m p fl \<and> distinct fl \<and> set fl \<inter> L = {} \<and> set fl \<union> L = A)"

definition entries_ok :: "(addr \<Rightarrow> handle) \<Rightarrow> store \<Rightarrow> addr set \<Rightarrow> bool" where
  "entries_ok hnd m A \<longleftrightarrow> (\<forall>a\<in>A. \<exists>e. m a = Some e \<and> e_handle e = hnd a)"

lemma free_chain_live: "free_chain m p L A \<Longrightarrow> L \<subseteq> A"
  by (auto simp: free_chain_def)

lemma free_chain_empty: "free_chain m None L A \<longleftrightarrow> L = A"
  by (auto simp: free_chain_def)

lemma free_chain_take:
  assumes "free_chain m (Some a) L A"
  obtains e where "m a = Some e" "a \<notin> L" "a \<in> A"
    "free_chain (m(a \<mapsto> set_ref n e)) (next_free e) (insert a L) A"
proof -
  obtain fl where fl: "chain m (Some a) fl" "distinct fl" "set fl \<inter> L = {}" "set fl \<union> L = A"
    using assms by (auto simp: free_chain_def)
  then obtain e fs where a: "fl = a # fs" "m a = Some e" "chain m (next_free e) fs"
    by (auto simp: chain_Some)
  with fl have "free_chain (m(a \<mapsto> set_ref n e)) (next_free e) (insert a L) A"
    unfolding free_chain_def by (intro exI [of _ fs]) auto
  with a fl show thesis by (intro that) auto
qed

lemma free_chain_put:
  assumes "free_chain m p L A" "a \<in> L"
  shows "free_chain (m(a \<mapsto> set_next p e)) (Some a) (L - {a}) A"
proof -
  obtain fl where "chain m p fl" "distinct fl" "set fl \<inter> L = {}" "set fl \<union> L = A"
    using assms(1) by (auto simp: free_chain_def)
  moreover from this assms(2) have "a \<notin> set fl" by auto
  ultimately show ?thesis
    using assms(2) unfolding free_chain_def by (intro exI [of _ "a # fl"]) auto
qed

lemma free_chain_ref:
  assumes "free_chain m p L A" "m a = Some e"
  shows "free_chain (m(a \<mapsto> set_ref n e)) p L A"
proof -
  have "\<And>fl. chain m p fl \<Longrightarrow> chain (m(a \<mapsto> set_ref n e)) p fl"
    using assms(2) by (auto intro: chain_upd_ref)
  with assms(1) show ?thesis unfolding free_chain_def by blast
qed

lemma free_chain_slab:
  assumes "inj mk" "0 < n" "\<And>i. i < n \<Longrightarrow> mk i \<notin> A"
  shows "free_chain (slab_from mk h n 0 n m) (Some (mk 0)) A (A \<union> mk ` {..<n})"
  unfolding free_chain_def
proof (intro exI conjI)
  show "chain (slab_from mk h n 0 n m) (Some (mk 0)) (map mk [0..<n])"
    using assms(1,2) by (rule slab_chain)
  show "distinct (map mk [0..<n])"
    using assms(1) by (simp add: distinct_map inj_on_subset [OF _ subset_UNIV])
qed (use assms(3) in auto)

lemma entries_ok_at: "entries_ok hnd m A \<Longrightarrow> a \<in> A \<Longrightarrow> \<exists>e. m a = Some e \<and> e_handle e = hnd a"
  by (simp add: entries_ok_def)

lemma entries_ok_upd:
  "entries_ok hnd m A \<Longrightarrow> m a = Some e \<Longrightarrow> e_handle e' = e_handle e \<Longrightarrow> entries_ok hnd (m(a \<mapsto> e')) A"
  by (auto simp: entries_ok_def)

lemma entries_ok_slab:
  assumes "inj mk" "entries_ok hnd m A" "\<And>i. i < n \<Longrightarrow> hnd (mk i) = h i"
  shows "entries_ok hnd (slab_from mk h n 0 n m) (A \<union> mk ` {..<n})"
  unfolding entries_ok_def
proof
  fix a assume "a \<in> A \<union> mk ` {..<n}"
  show "\<exists>e. slab_from mk h n 0 n m a = Some e \<and> e_handle e = hnd a"
  proof (cases "a \<in> mk ` {..<n}")
    case True
    then obtain i where "a = mk i" "i < n" by auto
    with assms(1,3) show ?thesis by (simp add: slab_from_at slab_entry_def)
  next
    case False
    with assms(1) have "slab_from mk h n 0 n m a = m a" by (auto intro: slab_from_other)
    with False \<open>a \<in> A \<union> mk ` {..<n}\<close> assms(2) show ?thesis by (auto simp: entries_ok_def)
  qed
qed

subsection \<open>The contract of a handle allocator\<close>

text \<open>
  \<open>inv s L\<close>: the pool \<open>s\<close> is consistent and \<open>L\<close> are the objects handed out and not yet given
  back. \<open>usable s a\<close>: a lookup may find \<open>a\<close>; \<open>retired s a\<close>: the client may give \<open>a\<close> back.
\<close>

datatype pool_op = PAlloc | PFree addr

locale handle_pool =
  fixes alloc :: "'s \<Rightarrow> addr option \<times> 's"
    and free :: "addr \<Rightarrow> 's \<Rightarrow> 's"
    and handle_of :: "'s \<Rightarrow> addr \<Rightarrow> handle"
    and lookup :: "handle \<Rightarrow> 's \<Rightarrow> addr option"
    and usable :: "'s \<Rightarrow> addr \<Rightarrow> bool"
    and retired :: "'s \<Rightarrow> addr \<Rightarrow> bool"
    and inv :: "'s \<Rightarrow> addr set \<Rightarrow> bool"
  assumes alloc_fresh: "inv s L \<Longrightarrow> alloc s = (Some a, s') \<Longrightarrow> a \<notin> L"
    and alloc_inv: "inv s L \<Longrightarrow> alloc s = (Some a, s') \<Longrightarrow> inv s' (insert a L)"
    and alloc_usable: "inv s L \<Longrightarrow> alloc s = (Some a, s') \<Longrightarrow> usable s' a"
    and alloc_fail: "inv s L \<Longrightarrow> alloc s = (None, s') \<Longrightarrow> inv s' L"
    and alloc_keeps: "inv s L \<Longrightarrow> alloc s = (r, s') \<Longrightarrow> b \<in> L \<Longrightarrow>
      handle_of s' b = handle_of s b \<and> usable s' b = usable s b"
    and free_inv: "inv s L \<Longrightarrow> a \<in> L \<Longrightarrow> retired s a \<Longrightarrow> inv (free a s) (L - {a})"
    and free_keeps: "inv s L \<Longrightarrow> a \<in> L \<Longrightarrow> b \<in> L \<Longrightarrow> b \<noteq> a \<Longrightarrow>
      handle_of (free a s) b = handle_of s b \<and> usable (free a s) b = usable s b"
    and lookup_live: "inv s L \<Longrightarrow> a \<in> L \<Longrightarrow> usable s a \<Longrightarrow> lookup (handle_of s a) s = Some a"
begin

lemma handles_distinct:
  assumes "inv s L" "a \<in> L" "b \<in> L" "usable s a" "usable s b" "handle_of s a = handle_of s b"
  shows "a = b"
  by (metis assms lookup_live option.inject)

text \<open>A sequence of client calls: frees name live, retired objects.\<close>

fun legal :: "'s \<Rightarrow> addr set \<Rightarrow> pool_op list \<Rightarrow> bool" where
  "legal s L [] = True"
| "legal s L (PAlloc # ops) =
     (case alloc s of
        (None, s') \<Rightarrow> legal s' L ops
      | (Some a, s') \<Rightarrow> legal s' (insert a L) ops)"
| "legal s L (PFree a # ops) = (a \<in> L \<and> retired s a \<and> legal (free a s) (L - {a}) ops)"

fun run :: "'s \<Rightarrow> addr set \<Rightarrow> pool_op list \<Rightarrow> 's \<times> addr set" where
  "run s L [] = (s, L)"
| "run s L (PAlloc # ops) =
     (case alloc s of
        (None, s') \<Rightarrow> run s' L ops
      | (Some a, s') \<Rightarrow> run s' (insert a L) ops)"
| "run s L (PFree a # ops) = run (free a s) (L - {a}) ops"

lemma run_inv: "inv s L \<Longrightarrow> legal s L ops \<Longrightarrow> run s L ops = (s', L') \<Longrightarrow> inv s' L'"
proof (induction s L ops rule: legal.induct)
  case (2 s L ops)
  then show ?case
    by (cases "alloc s"; cases "fst (alloc s)") (auto intro: alloc_inv alloc_fail)
qed (auto intro: free_inv)

lemma run_keeps:
  "inv s L \<Longrightarrow> legal s L ops \<Longrightarrow> run s L ops = (s', L') \<Longrightarrow> b \<in> L \<Longrightarrow> PFree b \<notin> set ops \<Longrightarrow>
   b \<in> L' \<and> handle_of s' b = handle_of s b \<and> usable s' b = usable s b"
proof (induction s L ops rule: legal.induct)
  case (2 s L ops)
  obtain r s1 where al: "alloc s = (r, s1)" by (cases "alloc s")
  have keep: "handle_of s1 b = handle_of s b \<and> usable s1 b = usable s b"
    using "2.prems" al by (blast dest: alloc_keeps)
  show ?case
  proof (cases r)
    case None
    then have "inv s1 L" using "2.prems" al by (auto intro: alloc_fail)
    with "2.IH" (1) "2.prems" al None keep show ?thesis by auto
  next
    case (Some a)
    then have "inv s1 (insert a L)" using "2.prems" al by (auto intro: alloc_inv)
    with "2.IH" (2) "2.prems" al Some keep show ?thesis by auto
  qed
next
  case (3 s L a ops)
  then have "b \<noteq> a" "inv (free a s) (L - {a})"
    by (auto intro: free_inv)
  with 3 show ?case
    using free_keeps [of s L a b] by auto
qed auto

text \<open>The handle of an object finds it until the object is freed, whatever else is allocated.\<close>

lemma handle_valid_until_freed:
  assumes "inv s L" "legal s L ops" "run s L ops = (s', L')"
    and "b \<in> L" "usable s b" "PFree b \<notin> set ops"
  shows "lookup (handle_of s b) s' = Some b"
  using run_keeps [OF assms(1-4,6)] run_inv [OF assms(1-3)] assms(5) lookup_live by metis

end

end
