(* ===== verification/Handle_Mem.thy ===== *)
theory Handle_Mem
  imports Pool_Spec
begin

text \<open>
  The C object allocator (\<open>src/mpi/msmpi/util/handlemem.cpp\<close>, \<open>MPIU_Object_alloc_t\<close> of
  \<open>src/mpi/common/mpihandlemem.h\<close>): a preallocated direct array, linked into a free list on
  first use, then indirect blocks of 256 entries. The reader/writer lock is held around each
  whole operation and is not modelled; each operation here is one critical section.
\<close>

subsection \<open>State\<close>

text \<open>
  \<open>indirect\<close> tells whether the table of block pointers has been allocated; \<open>mallocs\<close> are the
  outcomes of the heap allocations still to come (an empty list: they all succeed).
\<close>

record objmem =
  avail :: "addr option"
  initialized :: bool
  indirect :: bool
  indirect_size :: nat
  kind :: MPID_Object_kind
  direct_size :: nat
  store :: store
  mallocs :: "bool list"

definition malloc :: "objmem \<Rightarrow> bool \<times> objmem" where
  "malloc s = (case mallocs s of [] \<Rightarrow> (True, s) | b # bs \<Rightarrow> (b, s\<lparr>mallocs := bs\<rparr>))"

text \<open>The handles written into fresh entries.\<close>

definition direct_handle :: "MPID_Object_kind \<Rightarrow> nat \<Rightarrow> handle" where
  "direct_handle k i = make_handle HANDLE_TYPE_DIRECT (kind_code k) 0 i"

definition indirect_handle :: "MPID_Object_kind \<Rightarrow> nat \<Rightarrow> nat \<Rightarrow> handle" where
  "indirect_handle k b i = make_handle HANDLE_TYPE_INDIRECT (kind_code k) b i"

fun addr_handle :: "MPID_Object_kind \<Rightarrow> addr \<Rightarrow> handle" where
  "addr_handle k (Builtin i) = make_handle HANDLE_TYPE_BUILTIN (kind_code k) 0 i"
| "addr_handle k (Direct i) = direct_handle k i"
| "addr_handle k (Indirect b i) = indirect_handle k b i"

subsection \<open>Operations\<close>

definition MPIU_Handle_direct_init :: "objmem \<Rightarrow> objmem" where
  "MPIU_Handle_direct_init s =
     s\<lparr>store := slab_from Direct (direct_handle (kind s)) (direct_size s) 0 (direct_size s) (store s)\<rparr>"

text \<open>The first part of \<open>MPIU_Handle_indirect_init\<close> allocates the table of blocks.\<close>

definition indirect_table :: "objmem \<Rightarrow> bool \<times> objmem" where
  "indirect_table s =
     (if indirect s then (True, s)
      else case malloc s of
        (False, t) \<Rightarrow> (False, t)
      | (True, t) \<Rightarrow> (True, t\<lparr>indirect := True, indirect_size := 0\<rparr>))"

text \<open>The block that goes into slot \<open>b\<close> of the table: its entries linked, with their handles.\<close>

definition add_block :: "objmem \<Rightarrow> objmem" where
  "add_block s =
     (let b = indirect_size s
      in s\<lparr>store := slab_from (Indirect b) (indirect_handle (kind s) b)
                      HANDLE_BLOCK_SIZE 0 HANDLE_BLOCK_SIZE (store s),
           indirect_size := b + 1\<rparr>)"

definition MPIU_Handle_indirect_init :: "objmem \<Rightarrow> addr option \<times> objmem" where
  "MPIU_Handle_indirect_init s =
     (case indirect_table s of
        (False, s1) \<Rightarrow> (None, s1)
      | (True, s1) \<Rightarrow>
          if indirect_size s1 \<ge> HANDLE_BLOCK_INDEX_SIZE - 1 then (None, s1)
          else case malloc s1 of
            (False, s2) \<Rightarrow> (None, s2)
          | (True, s2) \<Rightarrow> (Some (Indirect (indirect_size s2) 0), add_block s2))"

definition MPIU_Handle_obj_grow :: "objmem \<Rightarrow> addr option \<times> objmem" where
  "MPIU_Handle_obj_grow s =
     (if \<not> initialized s then
        (Some (Direct 0), MPIU_Handle_direct_init (s\<lparr>initialized := True\<rparr>))
      else MPIU_Handle_indirect_init s)"

text \<open>
  Taking the entry \<open>a\<close>: its link becomes the head of the free list and its reference count
  becomes 1. (Every pointer the allocator holds is to an entry that exists; that is part of the
  invariant, and the \<open>None\<close> branches below are never taken.)
\<close>

definition take_entry :: "addr \<Rightarrow> objmem \<Rightarrow> objmem" where
  "take_entry a s =
     (case store s a of
        None \<Rightarrow> s
      | Some e \<Rightarrow> s\<lparr>avail := next_free e, store := (store s)(a \<mapsto> set_ref 1 e)\<rparr>)"

definition MPIU_Handle_obj_alloc :: "objmem \<Rightarrow> addr option \<times> objmem" where
  "MPIU_Handle_obj_alloc s =
     (let (ptr, s1) = (case avail s of None \<Rightarrow> MPIU_Handle_obj_grow s | Some a \<Rightarrow> (Some a, s))
      in case ptr of None \<Rightarrow> (None, s1) | Some a \<Rightarrow> (Some a, take_entry a s1))"

definition MPIU_Handle_obj_free :: "addr \<Rightarrow> objmem \<Rightarrow> objmem" where
  "MPIU_Handle_obj_free a s =
     (case store s a of
        None \<Rightarrow> s
      | Some e \<Rightarrow> s\<lparr>store := (store s)(a \<mapsto> set_next (avail s) e), avail := Some a\<rparr>)"

definition MPIU_Handle_get_ptr_indirect :: "handle \<Rightarrow> objmem \<Rightarrow> addr option" where
  "MPIU_Handle_get_ptr_indirect h s =
     (if HANDLE_GET_MPI_KIND h \<noteq> kind_code (kind s) then None
      else if HANDLE_INDIRECT_BLOCK h \<ge> indirect_size s then None
      else Some (Indirect (HANDLE_INDIRECT_BLOCK h) (HANDLE_INDIRECT_INDEX h)))"

text \<open>\<open>MPID_Getb_ptr\<close>, for kinds with predefined objects: the builtin index is masked by \<open>bmsk\<close>.\<close>

definition MPID_Getb_ptr :: "handle \<Rightarrow> handle \<Rightarrow> objmem \<Rightarrow> addr option" where
  "MPID_Getb_ptr bmsk h s =
     (if HANDLE_GET_TYPE h = HANDLE_TYPE_BUILTIN then Some (Builtin (unat (and h bmsk)))
      else if HANDLE_GET_TYPE h = HANDLE_TYPE_DIRECT then Some (Direct (HANDLE_DIRECT_INDEX h))
      else if HANDLE_GET_TYPE h = HANDLE_TYPE_INDIRECT then MPIU_Handle_get_ptr_indirect h s
      else None)"

text \<open>\<open>MPID_Get_ptr\<close>, for kinds without.\<close>

definition MPID_Get_ptr :: "handle \<Rightarrow> objmem \<Rightarrow> addr option" where
  "MPID_Get_ptr h s =
     (if HANDLE_GET_TYPE h = HANDLE_TYPE_DIRECT then Some (Direct (HANDLE_DIRECT_INDEX h))
      else if HANDLE_GET_TYPE h = HANDLE_TYPE_INDIRECT then MPIU_Handle_get_ptr_indirect h s
      else None)"

text \<open>Reference counts (\<open>MPIU_Object_add_ref\<close>, \<open>MPIU_Object_release_ref\<close>).\<close>

definition MPIU_Object_add_ref :: "addr \<Rightarrow> objmem \<Rightarrow> objmem option" where
  "MPIU_Object_add_ref a s =
     (case store s a of None \<Rightarrow> None
      | Some e \<Rightarrow> Some (s\<lparr>store := (store s)(a \<mapsto> set_ref (ref_count e + 1) e)\<rparr>))"

definition MPIU_Object_release_ref :: "addr \<Rightarrow> objmem \<Rightarrow> (bool \<times> objmem) option" where
  "MPIU_Object_release_ref a s =
     (case store s a of None \<Rightarrow> None
      | Some e \<Rightarrow> Some (ref_count e - 1 \<noteq> 0,
                       s\<lparr>store := (store s)(a \<mapsto> set_ref (ref_count e - 1) e)\<rparr>))"

subsection \<open>Invariant\<close>

definition pool_addrs :: "objmem \<Rightarrow> addr set" where
  "pool_addrs s =
     (if initialized s then Direct ` {..<direct_size s} else {}) \<union>
     {Indirect b i | b i. b < indirect_size s \<and> i < HANDLE_BLOCK_SIZE}"

lemma pool_addrs_frame [simp]:
  "pool_addrs (s\<lparr>store := m\<rparr>) = pool_addrs s" "pool_addrs (s\<lparr>avail := p\<rparr>) = pool_addrs s"
  "pool_addrs (s\<lparr>mallocs := ms\<rparr>) = pool_addrs s"
  by (simp_all add: pool_addrs_def)

definition objmem_inv :: "objmem \<Rightarrow> addr set \<Rightarrow> bool" where
  "objmem_inv s L \<longleftrightarrow>
     entries_ok (addr_handle (kind s)) (store s) (pool_addrs s) \<and>
     free_chain (store s) (avail s) L (pool_addrs s) \<and>
     0 < direct_size s \<and> direct_size s \<le> 2 ^ 26 \<and>
     indirect_size s \<le> HANDLE_BLOCK_INDEX_SIZE - 1 \<and>
     (\<not> initialized s \<longrightarrow> \<not> indirect s) \<and> (\<not> indirect s \<longrightarrow> indirect_size s = 0)"

definition objmem_init :: "MPID_Object_kind \<Rightarrow> nat \<Rightarrow> bool list \<Rightarrow> objmem" where
  "objmem_init k n ms =
     \<lparr>avail = None, initialized = False, indirect = False, indirect_size = 0, kind = k,
      direct_size = n, store = Map.empty, mallocs = ms\<rparr>"

subsection \<open>Handles find their entries\<close>

lemma pool_addrs_cases:
  assumes "a \<in> pool_addrs s"
  obtains i where "a = Direct i" "i < direct_size s" "initialized s"
  | b i where "a = Indirect b i" "b < indirect_size s" "i < HANDLE_BLOCK_SIZE"
  using assms by (auto simp: pool_addrs_def split: if_splits)

lemma direct_fields: "i < 2 ^ 26 \<Longrightarrow> direct_ok HANDLE_TYPE_DIRECT (kind_code k) i"
  by (simp add: direct_ok_def HANDLE_TYPE_defs kind_code_bound [simplified])

lemma indirect_fields:
  "b < HANDLE_BLOCK_INDEX_SIZE \<Longrightarrow> i < HANDLE_BLOCK_SIZE \<Longrightarrow>
   fields_ok HANDLE_TYPE_INDIRECT (kind_code k) b i"
  by (simp add: fields_ok_def HANDLE_TYPE_defs HANDLE_BLOCK_INDEX_SIZE_def HANDLE_BLOCK_SIZE_def
      kind_code_bound [simplified])

lemma get_ptr_direct: "i < 2 ^ 26 \<Longrightarrow> MPID_Get_ptr (direct_handle k i) s = Some (Direct i)"
  using direct_fields [of i k]
  by (simp add: MPID_Get_ptr_def direct_handle_def handle_readback)

lemma get_ptr_indirect:
  assumes "b < indirect_size s" "indirect_size s < HANDLE_BLOCK_INDEX_SIZE" "i < HANDLE_BLOCK_SIZE"
  shows "MPID_Get_ptr (indirect_handle (kind s) b i) s = Some (Indirect b i)"
proof -
  have "fields_ok HANDLE_TYPE_INDIRECT (kind_code (kind s)) b i"
    using assms by (intro indirect_fields) auto
  with assms(1) show ?thesis
    by (simp add: MPID_Get_ptr_def MPIU_Handle_get_ptr_indirect_def indirect_handle_def
        handle_readback HANDLE_TYPE_DIRECT_def HANDLE_TYPE_INDIRECT_def)
qed

lemma get_ptr_addr:
  assumes "objmem_inv s L" "a \<in> pool_addrs s"
  shows "MPID_Get_ptr (addr_handle (kind s) a) s = Some a"
  using assms(2)
proof (cases rule: pool_addrs_cases)
  case (1 i)
  with assms(1) show ?thesis by (simp add: get_ptr_direct objmem_inv_def)
next
  case (2 b i)
  with assms(1) show ?thesis
    by (simp add: get_ptr_indirect objmem_inv_def HANDLE_BLOCK_INDEX_SIZE_def)
qed

subsection \<open>The operations keep the invariant\<close>

lemma malloc_frame [frame_simps]:
  "malloc s = (ok, t) \<Longrightarrow> \<exists>ms. t = s\<lparr>mallocs := ms\<rparr>"
proof -
  assume "malloc s = (ok, t)"
  then have "t = s\<lparr>mallocs := tl (mallocs s)\<rparr>"
    by (cases "mallocs s") (auto simp: malloc_def intro: objmem.equality)
  then show ?thesis by blast
qed

lemma objmem_inv_mallocs [simp]: "objmem_inv (s\<lparr>mallocs := ms\<rparr>) L = objmem_inv s L"
  by (simp add: objmem_inv_def pool_addrs_def)

lemma objmem_inv_init: "0 < n \<Longrightarrow> n \<le> 2 ^ 26 \<Longrightarrow> objmem_inv (objmem_init k n ms) {}"
  by (simp add: objmem_inv_def objmem_init_def free_chain_empty entries_ok_def pool_addrs_def)

lemma exhausted: "objmem_inv s L \<Longrightarrow> avail s = None \<Longrightarrow> L = pool_addrs s"
  by (simp add: objmem_inv_def free_chain_empty)

lemma live_in_pool: "objmem_inv s L \<Longrightarrow> L \<subseteq> pool_addrs s"
  by (auto simp: objmem_inv_def dest: free_chain_live)

lemma live_entry: "objmem_inv s L \<Longrightarrow> a \<in> L \<Longrightarrow> \<exists>e. store s a = Some e \<and> e_handle e = addr_handle (kind s) a"
  using live_in_pool by (auto simp: objmem_inv_def intro: entries_ok_at)

lemma grow_direct:
  assumes "objmem_inv s L" "\<not> initialized s"
  shows "objmem_inv ((MPIU_Handle_direct_init (s\<lparr>initialized := True\<rparr>))\<lparr>avail := Some (Direct 0)\<rparr>) L"
    (is "objmem_inv ?s L")
proof -
  have none: "pool_addrs s = {}" "L = {}" and n: "0 < direct_size s"
    using assms free_chain_live by (fastforce simp: objmem_inv_def pool_addrs_def)+
  have inj: "inj Direct" by (simp add: inj_def)
  have addrs: "pool_addrs ?s = Direct ` {..<direct_size s}"
    using assms by (auto simp: MPIU_Handle_direct_init_def pool_addrs_def objmem_inv_def)
  have "free_chain (store ?s) (avail ?s) L (pool_addrs ?s)"
    using free_chain_slab [OF inj n, of "{}"] none unfolding addrs
    by (simp add: MPIU_Handle_direct_init_def)
  moreover have "entries_ok (addr_handle (kind s)) (store ?s) (pool_addrs ?s)"
    using entries_ok_slab [OF inj, of "addr_handle (kind s)" "store s" "{}"] unfolding addrs
    by (simp add: MPIU_Handle_direct_init_def entries_ok_def)
  ultimately show ?thesis
    using assms unfolding objmem_inv_def by (simp add: MPIU_Handle_direct_init_def)
qed

lemma block_fresh: "Indirect (indirect_size s) i \<notin> pool_addrs s"
  by (auto simp: pool_addrs_def)

lemma grow_block:
  assumes "objmem_inv s L" "initialized s" "indirect s" "avail s = None"
    and "indirect_size s < HANDLE_BLOCK_INDEX_SIZE - 1"
  shows "objmem_inv ((add_block s)\<lparr>avail := Some (Indirect (indirect_size s) 0)\<rparr>) L"
    (is "objmem_inv ?s L")
proof -
  let ?mk = "Indirect (indirect_size s)"
  have L: "L = pool_addrs s" by (rule exhausted [OF assms(1,4)])
  have inj: "inj ?mk" by (simp add: inj_def)
  have addrs: "pool_addrs ?s = pool_addrs s \<union> ?mk ` {..<HANDLE_BLOCK_SIZE}"
    by (auto simp: add_block_def Let_def pool_addrs_def less_Suc_eq)
  have "free_chain (store ?s) (avail ?s) L (pool_addrs ?s)"
    unfolding addrs
    using free_chain_slab [OF inj, of HANDLE_BLOCK_SIZE "pool_addrs s"] block_fresh [of s]
    by (simp add: add_block_def Let_def L HANDLE_BLOCK_SIZE_def)
  moreover have "entries_ok (addr_handle (kind s)) (store ?s) (pool_addrs ?s)"
    unfolding addrs using assms(1)
    by (auto simp: add_block_def Let_def objmem_inv_def intro: entries_ok_slab [OF inj])
  ultimately show ?thesis
    using assms unfolding objmem_inv_def by (simp add: add_block_def Let_def)
qed

lemma indirect_table_inv:
  assumes "objmem_inv s L" "initialized s" "indirect_table s = (ok, s')"
  shows "objmem_inv s' L \<and> initialized s' \<and> avail s' = avail s \<and> (ok \<longrightarrow> indirect s')"
proof (cases "indirect s")
  case False
  then have sz: "indirect_size s = 0"
    using assms(1) by (simp add: objmem_inv_def)
  obtain ok1 t where m: "malloc s = (ok1, t)" by (cases "malloc s")
  then obtain ms where t: "t = s\<lparr>mallocs := ms\<rparr>" using malloc_frame by blast
  have "objmem_inv t L" "initialized t" "indirect_size t = 0"
    using assms(1,2) sz by (simp_all add: t)
  then have "objmem_inv (t\<lparr>indirect := True, indirect_size := 0\<rparr>) L"
    by (simp add: objmem_inv_def pool_addrs_def)
  with False assms m t show ?thesis
    by (auto simp: indirect_table_def split: bool.splits)
qed (use assms in \<open>simp add: indirect_table_def\<close>)

text \<open>What growing the pool leaves: with the new slab as its free list, a consistent pool.\<close>

lemma indirect_init_inv:
  assumes "objmem_inv s L" "initialized s" "avail s = None" "MPIU_Handle_indirect_init s = (r, s')"
  shows "case r of None \<Rightarrow> objmem_inv s' L | Some a \<Rightarrow> objmem_inv (s'\<lparr>avail := Some a\<rparr>) L"
proof -
  obtain ok1 s1 where t: "indirect_table s = (ok1, s1)" by (cases "indirect_table s")
  note s1 = indirect_table_inv [OF assms(1,2) t]
  obtain ok2 s2 where m: "malloc s1 = (ok2, s2)" by (cases "malloc s1")
  then obtain ms where s2: "s2 = s1\<lparr>mallocs := ms\<rparr>" using malloc_frame by blast
  with s1 have inv2: "objmem_inv s2 L" "initialized s2" "avail s2 = None" "ok1 \<Longrightarrow> indirect s2"
    using assms(3) by auto
  have grown: "objmem_inv ((add_block s2)\<lparr>avail := Some (Indirect (indirect_size s2) 0)\<rparr>) L"
    if "ok1" "\<not> HANDLE_BLOCK_INDEX_SIZE - 1 \<le> indirect_size s1"
    using inv2 that s2 by (intro grow_block) auto
  show ?thesis
    using s1 inv2 grown assms(4) t m
    by (simp add: MPIU_Handle_indirect_init_def split: bool.splits if_splits)
      (auto simp: inv2)
qed

lemma obj_grow_inv:
  assumes "objmem_inv s L" "avail s = None" "MPIU_Handle_obj_grow s = (r, s')"
  shows "case r of None \<Rightarrow> objmem_inv s' L | Some a \<Rightarrow> objmem_inv (s'\<lparr>avail := Some a\<rparr>) L"
proof (cases "initialized s")
  case False
  with assms show ?thesis
    using grow_direct [OF assms(1)] by (auto simp: MPIU_Handle_obj_grow_def)
next
  case True
  with assms indirect_init_inv [OF assms(1) True assms(2)] show ?thesis
    by (simp add: MPIU_Handle_obj_grow_def)
qed

lemma take_entry_inv:
  assumes "objmem_inv s L" "avail s = Some a"
  shows "a \<notin> L \<and> objmem_inv (take_entry a s) (insert a L)"
proof -
  have "free_chain (store s) (Some a) L (pool_addrs s)"
    using assms by (simp add: objmem_inv_def)
  then obtain e where e: "store s a = Some e" "a \<notin> L"
    "free_chain ((store s)(a \<mapsto> set_ref 1 e)) (next_free e) (insert a L) (pool_addrs s)"
    by (rule free_chain_take)
  then show ?thesis
    using assms by (simp add: take_entry_def objmem_inv_def entries_ok_upd)
qed

lemma take_entry_set_avail: "store s a = Some e \<Longrightarrow> take_entry a (s\<lparr>avail := p\<rparr>) = take_entry a s"
  by (simp add: take_entry_def)

lemma obj_alloc_inv:
  assumes "objmem_inv s L" "MPIU_Handle_obj_alloc s = (r, s')"
  shows "case r of None \<Rightarrow> objmem_inv s' L | Some a \<Rightarrow> a \<notin> L \<and> objmem_inv s' (insert a L)"
proof -
  obtain r1 s1 where s1: "(case avail s of None \<Rightarrow> MPIU_Handle_obj_grow s | Some a \<Rightarrow> (Some a, s)) = (r1, s1)"
    by fastforce
  have grown: "case r1 of None \<Rightarrow> objmem_inv s1 L | Some a \<Rightarrow> objmem_inv (s1\<lparr>avail := Some a\<rparr>) L"
  proof (cases "avail s")
    case None
    with s1 obj_grow_inv [OF assms(1) None] show ?thesis by simp
  next
    case (Some a)
    then have "s1\<lparr>avail := Some a\<rparr> = s1" "r1 = Some a" "s1 = s"
      using s1 by auto
    with assms(1) show ?thesis by simp
  qed
  show ?thesis
  proof (cases r1)
    case None
    with s1 grown assms(2) show ?thesis
      by (simp add: MPIU_Handle_obj_alloc_def)
  next
    case (Some a)
    with grown have inv: "objmem_inv (s1\<lparr>avail := Some a\<rparr>) L" by simp
    then obtain e where "store s1 a = Some e"
      by (auto simp: objmem_inv_def elim: free_chain_take)
    with take_entry_inv [OF inv] Some s1 assms(2) show ?thesis
      by (auto simp: MPIU_Handle_obj_alloc_def take_entry_set_avail)
  qed
qed

lemma obj_free_inv:
  assumes "objmem_inv s L" "a \<in> L"
  shows "objmem_inv (MPIU_Handle_obj_free a s) (L - {a})"
proof -
  obtain e where "store s a = Some e"
    using live_entry [OF assms] by blast
  with assms show ?thesis
    by (simp add: MPIU_Handle_obj_free_def objmem_inv_def entries_ok_upd free_chain_put)
qed

subsection \<open>The contract holds\<close>

definition handle_at :: "objmem \<Rightarrow> addr \<Rightarrow> handle" where
  "handle_at s a = (case store s a of None \<Rightarrow> 0 | Some e \<Rightarrow> e_handle e)"

lemma handle_at_live: "objmem_inv s L \<Longrightarrow> a \<in> L \<Longrightarrow> handle_at s a = addr_handle (kind s) a"
  using live_entry by (force simp: handle_at_def)

lemma malloc_kind [frame_simps]: "malloc s = (ok, t) \<Longrightarrow> kind t = kind s"
  by (auto dest!: malloc_frame)

lemma indirect_table_kind [frame_simps]: "indirect_table s = (ok, t) \<Longrightarrow> kind t = kind s"
  by (auto simp: indirect_table_def frame_simps split: if_splits prod.splits bool.splits)

lemma indirect_init_kind [frame_simps]: "MPIU_Handle_indirect_init s = (r, t) \<Longrightarrow> kind t = kind s"
  by (auto simp: MPIU_Handle_indirect_init_def add_block_def Let_def frame_simps
      split: if_splits prod.splits bool.splits)

lemma take_entry_kind [frame_simps]: "kind (take_entry a s) = kind s"
  by (simp add: take_entry_def split: option.splits)

lemma obj_alloc_kind [frame_simps]: "MPIU_Handle_obj_alloc s = (r, t) \<Longrightarrow> kind t = kind s"
  by (auto simp: MPIU_Handle_obj_alloc_def MPIU_Handle_obj_grow_def MPIU_Handle_direct_init_def
      frame_simps split: if_splits prod.splits option.splits)

lemma obj_free_kind [frame_simps]: "kind (MPIU_Handle_obj_free a s) = kind s"
  by (simp add: MPIU_Handle_obj_free_def split: option.splits)

lemma obj_free_frame:
  "objmem_inv s L \<Longrightarrow> a \<in> L \<Longrightarrow> b \<in> L \<Longrightarrow> b \<noteq> a \<Longrightarrow>
   handle_at (MPIU_Handle_obj_free a s) b = handle_at s b"
  using handle_at_live [OF obj_free_inv, of s L a b] handle_at_live [of s L b]
  by (simp add: frame_simps)

lemma obj_alloc_frame:
  assumes "objmem_inv s L" "MPIU_Handle_obj_alloc s = (r, s')" "b \<in> L"
  shows "handle_at s' b = handle_at s b"
proof -
  have "kind s' = kind s" using assms(2) by (rule obj_alloc_kind)
  moreover obtain L' where "objmem_inv s' L'" "b \<in> L'"
    using obj_alloc_inv [OF assms(1,2)] assms(3) by (cases r) auto
  ultimately show ?thesis
    using handle_at_live assms(1,3) by metis
qed

interpretation hm: handle_pool MPIU_Handle_obj_alloc MPIU_Handle_obj_free handle_at MPID_Get_ptr
  "\<lambda>_ _. True" "\<lambda>_ _. True" objmem_inv
proof unfold_locales
  fix s :: objmem and L a s'
  assume inv: "objmem_inv s L" and al: "MPIU_Handle_obj_alloc s = (Some a, s')"
  show "a \<notin> L" and "objmem_inv s' (insert a L)"
    using obj_alloc_inv [OF inv al] by auto
next
  fix s :: objmem and L s'
  assume "objmem_inv s L" "MPIU_Handle_obj_alloc s = (None, s')"
  then show "objmem_inv s' L"
    using obj_alloc_inv by fastforce
next
  fix s :: objmem and L a
  assume "objmem_inv s L" "a \<in> L"
  then show "MPID_Get_ptr (handle_at s a) s = Some a"
    by (metis handle_at_live get_ptr_addr live_in_pool subsetD)
qed (simp_all add: obj_alloc_frame obj_free_inv obj_free_frame)

subsection \<open>When allocation fails\<close>

lemma finite_pool: "finite (pool_addrs s)"
proof -
  have "{Indirect b i | b i. b < indirect_size s \<and> i < HANDLE_BLOCK_SIZE} =
      (\<lambda>(b, i). Indirect b i) ` ({..<indirect_size s} \<times> {..<HANDLE_BLOCK_SIZE})"
    by auto
  then show ?thesis by (simp add: pool_addrs_def)
qed

lemma card_pool:
  assumes "initialized s"
  shows "card (pool_addrs s) = direct_size s + indirect_size s * HANDLE_BLOCK_SIZE"
proof -
  let ?D = "Direct ` {..<direct_size s}"
  let ?I = "(\<lambda>(b, i). Indirect b i) ` ({..<indirect_size s} \<times> {..<HANDLE_BLOCK_SIZE})"
  have "pool_addrs s = ?D \<union> ?I"
    using assms by (auto simp: pool_addrs_def)
  moreover have "?D \<inter> ?I = {}" by auto
  moreover have "card ?D = direct_size s"
    by (simp add: card_image inj_on_def)
  moreover have "card ?I = indirect_size s * HANDLE_BLOCK_SIZE"
    by (subst card_image) (auto simp: inj_on_def card_cartesian_product)
  ultimately show ?thesis
    by (simp add: card_Un_disjoint)
qed

lemma malloc_ok: "mallocs s = [] \<Longrightarrow> malloc s = (True, s)"
  by (simp add: malloc_def)

text \<open>What a part of the allocator does when it fails: the objects and the free list stay, and either it took a
failed allocation from the coming ones or the table of blocks is full.\<close>

definition failed_malloc :: "objmem \<Rightarrow> objmem \<Rightarrow> bool" where
  "failed_malloc s s' \<longleftrightarrow> (\<exists>ms. mallocs s = ms @ mallocs s' \<and> False \<in> set ms)"

lemma malloc_fails: "malloc s = (False, t) \<Longrightarrow> failed_malloc s t \<and> store t = store s \<and> avail t = avail s"
  by (cases "mallocs s") (auto simp: malloc_def failed_malloc_def)

lemma malloc_succeeds: "malloc s = (True, t) \<Longrightarrow> failed_malloc t u \<Longrightarrow> failed_malloc s u"
  by (cases "mallocs s") (auto simp: malloc_def failed_malloc_def intro: exI [of _ "True # _"])

lemma indirect_table_fails:
  "indirect_table s = (False, t) \<Longrightarrow> failed_malloc s t \<and> store t = store s \<and> avail t = avail s"
  by (auto simp: indirect_table_def dest: malloc_fails split: if_splits prod.splits bool.splits)

lemma indirect_table_succeeds:
  assumes "indirect_table s = (True, t)"
  shows "store t = store s \<and> avail t = avail s" "failed_malloc t u \<Longrightarrow> failed_malloc s u"
    "indirect s \<Longrightarrow> t = s" "\<not> indirect s \<Longrightarrow> indirect_size t = 0"
proof -
  have m: "store t' = store s \<and> avail t' = avail s" "failed_malloc t' u \<Longrightarrow> failed_malloc s u" if "malloc s = (True, t')" for t'
    using malloc_frame [OF that] malloc_succeeds [OF that] by auto
  have upd: "failed_malloc (t'\<lparr>indirect := b, indirect_size := n\<rparr>) u = failed_malloc t' u" for t' b n
    by (simp add: failed_malloc_def)
  show "store t = store s \<and> avail t = avail s" "failed_malloc t u \<Longrightarrow> failed_malloc s u"
    "indirect s \<Longrightarrow> t = s" "\<not> indirect s \<Longrightarrow> indirect_size t = 0"
    using assms m upd by (auto simp: indirect_table_def split: if_splits prod.splits bool.splits)
qed

lemma indirect_init_fails:
  assumes "objmem_inv s L" "MPIU_Handle_indirect_init s = (None, s')"
  shows "store s' = store s \<and> avail s' = avail s" "failed_malloc s s' \<or> indirect_size s = HANDLE_BLOCK_INDEX_SIZE - 1"
proof -
  obtain ok1 s1 where t: "indirect_table s = (ok1, s1)" by fastforce
  obtain ok2 s2 where m: "malloc s1 = (ok2, s2)" by fastforce
  have bound: "indirect_size s \<le> HANDLE_BLOCK_INDEX_SIZE - 1" using assms(1) by (simp add: objmem_inv_def)
  show "store s' = store s \<and> avail s' = avail s"
    using assms(2) t m malloc_fails [of s1 s2] indirect_table_fails [of s s1] indirect_table_succeeds(1) [of s s1]
    by (auto simp: MPIU_Handle_indirect_init_def split: bool.splits if_splits)
  show "failed_malloc s s' \<or> indirect_size s = HANDLE_BLOCK_INDEX_SIZE - 1"
    using assms(2) t m bound malloc_fails [of s1 s2] indirect_table_fails [of s s1] indirect_table_succeeds(2-4) [of s s1]
    by (cases "indirect s") (auto simp: MPIU_Handle_indirect_init_def HANDLE_BLOCK_INDEX_SIZE_def split: bool.splits if_splits)
qed

lemma obj_alloc_None:
  assumes "objmem_inv s L" "MPIU_Handle_obj_alloc s = (None, s')"
  shows "store s' = store s \<and> avail s' = avail s"
    "failed_malloc s s' \<or> card L = direct_size s + (HANDLE_BLOCK_INDEX_SIZE - 1) * HANDLE_BLOCK_SIZE"
proof -
  have none: "avail s = None" and grow: "MPIU_Handle_obj_grow s = (None, s')"
    using assms(2) by (auto simp: MPIU_Handle_obj_alloc_def split: option.splits prod.splits)
  then have init: "initialized s" and ind: "MPIU_Handle_indirect_init s = (None, s')"
    by (auto simp: MPIU_Handle_obj_grow_def split: if_splits)
  show "store s' = store s \<and> avail s' = avail s" by (rule indirect_init_fails(1) [OF assms(1) ind])
  show "failed_malloc s s' \<or> card L = direct_size s + (HANDLE_BLOCK_INDEX_SIZE - 1) * HANDLE_BLOCK_SIZE"
    using indirect_init_fails(2) [OF assms(1) ind] card_pool [OF init] exhausted [OF assms(1) none] by auto
qed

text \<open>An allocation leaves the live objects as they are.\<close>

lemma grow_other:
  assumes "objmem_inv s L" "avail s = None" "MPIU_Handle_obj_grow s = (r, t)" "b \<in> L"
  shows "store t b = store s b"
proof -
  have b: "b \<in> pool_addrs s" using live_in_pool [OF assms(1)] assms(4) by blast
  show ?thesis
  proof (cases "initialized s")
    case False
    then have "pool_addrs s = {}" using assms(1) by (auto simp: objmem_inv_def pool_addrs_def)
    then show ?thesis using b by simp
  next
    case True
    obtain ok1 s1 where t1: "indirect_table s = (ok1, s1)" by fastforce
    obtain ok2 s2 where m: "malloc s1 = (ok2, s2)" by fastforce
    have s1: "store s1 = store s" using indirect_table_fails [of s s1] indirect_table_succeeds(1) [of s s1] t1 by (cases ok1) simp_all
    have size: "indirect_size s1 = indirect_size s"
    proof -
      have "\<not> indirect s \<Longrightarrow> indirect_size s = 0" using assms(1) by (simp add: objmem_inv_def)
      then show ?thesis
        using t1 by (auto simp: indirect_table_def dest!: malloc_frame split: if_splits prod.splits bool.splits)
    qed
    have s2: "store s2 = store s1" "indirect_size s2 = indirect_size s1" using malloc_frame [OF m] by auto
    have "b \<noteq> Indirect (indirect_size s2) i" for i using b by (auto simp: pool_addrs_def s2 size split: if_splits)
    then have "store (add_block s2) b = store s2 b"
      unfolding add_block_def Let_def by (simp add: slab_from_other inj_def)
    then show ?thesis
      using assms(3) True t1 m s1 s2(1)
      by (auto simp: MPIU_Handle_obj_grow_def MPIU_Handle_indirect_init_def split: bool.splits if_splits)
  qed
qed

lemma obj_alloc_other:
  assumes "objmem_inv s L" "MPIU_Handle_obj_alloc s = (r, s')" "b \<in> L"
  shows "store s' b = store s b"
proof -
  obtain r1 s1 where s1: "(case avail s of None \<Rightarrow> MPIU_Handle_obj_grow s | Some a \<Rightarrow> (Some a, s)) = (r1, s1)"
    by fastforce
  have same: "store s1 b = store s b"
    using s1 grow_other [OF assms(1)] assms(3) by (auto split: option.splits)
  show ?thesis
  proof (cases r1)
    case None
    then show ?thesis using assms(2) s1 same by (simp add: MPIU_Handle_obj_alloc_def)
  next
    case (Some a)
    then have s': "r = Some a" "s' = take_entry a s1" using assms(2) s1 by (simp_all add: MPIU_Handle_obj_alloc_def)
    then have "b \<noteq> a" using obj_alloc_inv [OF assms(1,2)] assms(3) by auto
    then show ?thesis using same s'(2) by (simp add: take_entry_def split: option.splits)
  qed
qed

subsection \<open>Properties\<close>

lemma take_entry_ref: "store s a = Some e \<Longrightarrow> store (take_entry a s) a = Some (set_ref 1 e)"
  by (simp add: take_entry_def)

lemma obj_alloc_ref:
  assumes "objmem_inv s L" "MPIU_Handle_obj_alloc s = (Some a, s')"
  shows "\<exists>e. store s' a = Some e \<and> ref_count e = 1 \<and> e_handle e = addr_handle (kind s) a"
proof -
  have inv: "objmem_inv s' (insert a L)"
    using obj_alloc_inv [OF assms] by simp
  obtain e where e: "store s' a = Some e" "e_handle e = addr_handle (kind s') a"
    using live_entry [OF inv] by blast
  obtain s1 where s': "s' = take_entry a s1"
    using assms(2) by (auto simp: MPIU_Handle_obj_alloc_def split: option.splits prod.splits)
  have "ref_count e = 1"
  proof (cases "store s1 a")
    case None
    then show ?thesis using e(1) s' by (simp add: take_entry_def)
  next
    case (Some e1)
    then show ?thesis using e(1) s' by (auto simp: take_entry_def set_ref_def)
  qed
  then show ?thesis
    using e obj_alloc_kind [OF assms(2)] by auto
qed

text \<open>C24: \<open>MPIU_Handle_obj_alloc\<close> hands out an object that was not live, with reference count 1 and
a handle that \<open>MPID_Get_ptr\<close> leads back to it. It fails only when an allocation of memory that it asked for
failed, or when all \<open>direct_size + 1023 * 256\<close> objects are live, and then neither an object nor the
free list changes. Either way the objects that were live keep their handles, reference counts and links.\<close>

theorem MPIU_Handle_obj_alloc_correct:
  assumes inv: "objmem_inv s L"
  shows "case MPIU_Handle_obj_alloc s of
      (Some a, s') \<Rightarrow> a \<notin> L \<and> objmem_inv s' (insert a L) \<and> MPID_Get_ptr (handle_at s' a) s' = Some a \<and>
        (\<exists>e. store s' a = Some e \<and> ref_count e = 1) \<and> (\<forall>b\<in>L. store s' b = store s b)
    | (None, s') \<Rightarrow> objmem_inv s' L \<and> store s' = store s \<and> avail s' = avail s \<and>
        (failed_malloc s s' \<or> card L = direct_size s + (HANDLE_BLOCK_INDEX_SIZE - 1) * HANDLE_BLOCK_SIZE)"
proof -
  obtain r s' where al: "MPIU_Handle_obj_alloc s = (r, s')" by fastforce
  show ?thesis
  proof (cases r)
    case None
    then show ?thesis
      using al obj_alloc_inv [OF inv al] obj_alloc_None [OF inv] by auto
  next
    case (Some a)
    then have "objmem_inv s' (insert a L)" "a \<notin> L"
      using obj_alloc_inv [OF inv al] by auto
    then show ?thesis
      using al Some hm.lookup_live [of s' "insert a L" a] obj_alloc_ref [OF inv] obj_alloc_other [OF inv al] by auto
  qed
qed

lemma MPIU_Handle_obj_alloc_witness:
  "case MPIU_Handle_obj_alloc (objmem_init MPID_INFO 2 []) of
      (Some a, s') \<Rightarrow> objmem_inv s' {a} \<and> MPID_Get_ptr (handle_at s' a) s' = Some a \<and>
        (\<exists>e. store s' a = Some e \<and> ref_count e = 1)
    | (None, s') \<Rightarrow> objmem_inv s' {}"
  using MPIU_Handle_obj_alloc_correct [OF objmem_inv_init [of 2 MPID_INFO "[]"]]
  by (simp split: prod.splits option.splits)

text \<open>C25: through any sequence of allocations and of frees of live objects, the handle of an object
that is not freed keeps leading to it.\<close>

theorem MPIU_Handle_valid_until_freed:
  assumes "objmem_inv s L" "hm.legal s L ops" "hm.run s L ops = (s', L')" "b \<in> L" "PFree b \<notin> set ops"
  shows "MPID_Get_ptr (handle_at s b) s' = Some b \<and> b \<in> L' \<and> objmem_inv s' L'"
  using hm.handle_valid_until_freed [OF assms(1-4) TrueI assms(5)] hm.run_keeps [OF assms]
    hm.run_inv [OF assms(1-3)] by simp

lemma MPIU_Handle_valid_until_freed_witness:
  "\<exists>s s' L'. MPIU_Handle_obj_alloc (objmem_init MPID_INFO 2 []) = (Some (Direct 0), s) \<and>
    hm.run s {Direct 0} [PAlloc, PFree (Direct 1), PAlloc] = (s', L') \<and>
    MPID_Get_ptr (handle_at s (Direct 0)) s' = Some (Direct 0) \<and> Direct 0 \<in> L' \<and> objmem_inv s' L'"
proof -
  obtain r s where al: "MPIU_Handle_obj_alloc (objmem_init MPID_INFO 2 []) = (r, s)" by fastforce
  have r: "r = Some (Direct 0)" "\<exists>t. MPIU_Handle_obj_alloc s = (Some (Direct 1), t)"
    using al by (auto simp: objmem_init_def MPIU_Handle_obj_alloc_def MPIU_Handle_obj_grow_def
        MPIU_Handle_direct_init_def take_entry_def slab_entry_def numeral_2_eq_2)
  have inv: "objmem_inv s {Direct 0}"
    using obj_alloc_inv [OF objmem_inv_init al] r(1) by simp
  obtain t where t: "MPIU_Handle_obj_alloc s = (Some (Direct 1), t)"
    using r(2) by blast
  obtain u v where u: "MPIU_Handle_obj_alloc (MPIU_Handle_obj_free (Direct 1) t) = (u, v)" by fastforce
  have legal: "hm.legal s {Direct 0} [PAlloc, PFree (Direct 1), PAlloc]"
    using t u by (auto split: option.splits)
  obtain s' L' where run: "hm.run s {Direct 0} [PAlloc, PFree (Direct 1), PAlloc] = (s', L')" by fastforce
  show ?thesis
    using MPIU_Handle_valid_until_freed [OF inv legal run, of "Direct 0"] al r(1) run by auto
qed

end
