(* ===== verification/Object_Pool.thy ===== *)
theory Object_Pool
  imports Handle_Mem
begin

text \<open>
  The C++ object pool (\<open>src/mpi/msmpi/include/objpool.h\<close>, class template \<open>ObjectPool\<close>), used for
  communicators, datatypes and operations. Unlike the C allocator it checks handles: \<open>Lookup\<close>
  bounds every index and refuses objects whose reference count is below 1. Each operation runs
  under the pool's lock and is one step here.
\<close>

subsection \<open>State\<close>

text \<open>The constants of the traits class (\<open>KIND\<close>, \<open>DIRECT\<close>, \<open>BUILTIN\<close>, \<open>BUILTINMASK\<close>).\<close>

record traits =
  KIND :: MPID_Object_kind
  DIRECT :: nat
  BUILTIN :: nat
  BUILTINMASK :: handle

definition DatatypeTraits :: traits where
  "DatatypeTraits = \<lparr>KIND = MPID_DATATYPE, DIRECT = 13, BUILTIN = 62, BUILTINMASK = 0xFF\<rparr>"

record object_pool =
  m_freeList :: "addr option"
  m_indirect :: bool
  m_indirectSize :: nat
  m_initialized :: bool
  m_entries :: store
  m_news :: "bool list"

text \<open>\<open>operator new\<close> returns null when the heap is exhausted; \<open>m_news\<close> are its coming outcomes.\<close>

definition try_new :: "object_pool \<Rightarrow> bool \<times> object_pool" where
  "try_new p = (case m_news p of [] \<Rightarrow> (True, p) | b # bs \<Rightarrow> (b, p\<lparr>m_news := bs\<rparr>))"

subsection \<open>Operations\<close>

definition InitEntry :: "traits \<Rightarrow> handle \<Rightarrow> nat \<Rightarrow> nat \<Rightarrow> addr option \<Rightarrow> entry" where
  "InitEntry T type iIndirect index next =
     \<lparr>e_handle = make_handle type (kind_code (KIND T)) iIndirect index, ref_count = 0,
      next_free = next\<rparr>"

text \<open>\<open>InitSlab\<close>: all but the last entry link to their successor, the last to null.\<close>

fun InitSlab_loop ::
  "traits \<Rightarrow> (nat \<Rightarrow> addr) \<Rightarrow> nat \<Rightarrow> handle \<Rightarrow> nat \<Rightarrow> nat \<Rightarrow> nat \<Rightarrow> store \<Rightarrow> store" where
  "InitSlab_loop T slab nElements type iIndirect i 0 m =
     m(slab i \<mapsto> InitEntry T type iIndirect i None)"
| "InitSlab_loop T slab nElements type iIndirect i (Suc k) m =
     InitSlab_loop T slab nElements type iIndirect (Suc i) k
       (m(slab i \<mapsto> InitEntry T type iIndirect i (Some (slab (Suc i)))))"

definition InitSlab :: "traits \<Rightarrow> (nat \<Rightarrow> addr) \<Rightarrow> nat \<Rightarrow> handle \<Rightarrow> nat \<Rightarrow> store \<Rightarrow> store" where
  "InitSlab T slab nElements type iIndirect m =
     InitSlab_loop T slab nElements type iIndirect 0 (nElements - 1) m"

definition GrowIndirect :: "traits \<Rightarrow> object_pool \<Rightarrow> addr option \<times> object_pool" where
  "GrowIndirect T p =
     (case (if m_indirect p then (True, p)
            else case try_new p of (ok, q) \<Rightarrow> (ok, q\<lparr>m_indirect := ok\<rparr>)) of
        (False, q) \<Rightarrow> (None, q)
      | (True, q) \<Rightarrow>
          if m_indirectSize q = HANDLE_BLOCK_INDEX_SIZE then (None, q)
          else case try_new q of
            (False, r) \<Rightarrow> (None, r)
          | (True, r) \<Rightarrow>
              (Some (Indirect (m_indirectSize r) 0),
               r\<lparr>m_entries := InitSlab T (Indirect (m_indirectSize r)) HANDLE_BLOCK_SIZE
                               HANDLE_TYPE_INDIRECT (m_indirectSize r) (m_entries r),
                 m_indirectSize := m_indirectSize r + 1\<rparr>))"

definition Grow :: "traits \<Rightarrow> object_pool \<Rightarrow> addr option \<times> object_pool" where
  "Grow T p =
     (if \<not> m_initialized p then
        (Some (Direct 0),
         p\<lparr>m_entries := InitSlab T Direct (DIRECT T) HANDLE_TYPE_DIRECT 0 (m_entries p),
           m_initialized := True\<rparr>)
      else GrowIndirect T p)"

definition unlink_head :: "addr \<Rightarrow> object_pool \<Rightarrow> object_pool" where
  "unlink_head t p =
     (case m_entries p t of
        None \<Rightarrow> p
      | Some e \<Rightarrow> p\<lparr>m_freeList := next_free e, m_entries := (m_entries p)(t \<mapsto> set_ref 1 e)\<rparr>)"

definition Alloc :: "traits \<Rightarrow> object_pool \<Rightarrow> addr option \<times> object_pool" where
  "Alloc T p =
     (case m_freeList p of
        Some t \<Rightarrow> (Some t, unlink_head t p)
      | None \<Rightarrow> (case Grow T p of
                   (None, q) \<Rightarrow> (None, q)
                 | (Some t, q) \<Rightarrow> (Some t, unlink_head t q)))"

definition Free :: "addr \<Rightarrow> object_pool \<Rightarrow> object_pool" where
  "Free t p =
     (case m_entries p t of
        None \<Rightarrow> p
      | Some e \<Rightarrow> p\<lparr>m_entries := (m_entries p)(t \<mapsto> set_next (m_freeList p) e), m_freeList := Some t\<rparr>)"

text \<open>
  Reading an entry through a pointer into the pool. \<open>m_builtin\<close> and \<open>m_direct\<close> are arrays of static
  storage: inside their bounds an entry never written reads as zeros. A slab exists for the blocks
  \<open>GrowIndirect\<close> has allocated, and it wrote all their entries. \<open>None\<close> is a read outside of the
  arrays (or of memory nobody wrote), which C++ leaves undefined.
\<close>

definition read_entry :: "traits \<Rightarrow> addr \<Rightarrow> object_pool \<Rightarrow> entry option" where
  "read_entry T t p =
     (let zero = \<lparr>e_handle = 0, ref_count = 0, next_free = None\<rparr>;
          static = (case m_entries p t of None \<Rightarrow> Some zero | Some e \<Rightarrow> Some e) in
      case t of
        Builtin i \<Rightarrow> if i < BUILTIN T then static else None
      | Direct i \<Rightarrow> if i < DIRECT T then static else None
      | Indirect b i \<Rightarrow> if b < m_indirectSize p \<and> i < HANDLE_BLOCK_SIZE then m_entries p t else None)"

text \<open>The pointer \<open>Lookup\<close> computes from a handle, \<open>None\<close> for \<open>nullptr\<close>.\<close>

definition locate :: "traits \<Rightarrow> handle \<Rightarrow> object_pool \<Rightarrow> addr option" where
  "locate T h p =
     (if HANDLE_GET_TYPE h = HANDLE_TYPE_BUILTIN then
        (if unat (and (of_nat (HANDLE_DIRECT_INDEX h)) (BUILTINMASK T)) < BUILTIN T
         then Some (Builtin (unat (and (of_nat (HANDLE_DIRECT_INDEX h)) (BUILTINMASK T)))) else None)
      else if HANDLE_GET_TYPE h = HANDLE_TYPE_DIRECT then
        (if HANDLE_DIRECT_INDEX h < DIRECT T then Some (Direct (HANDLE_DIRECT_INDEX h)) else None)
      else if HANDLE_GET_TYPE h = HANDLE_TYPE_INDIRECT then
        (if HANDLE_INDIRECT_BLOCK h < m_indirectSize p \<and> HANDLE_INDIRECT_INDEX h < HANDLE_BLOCK_SIZE
         then Some (Indirect (HANDLE_INDIRECT_BLOCK h) (HANDLE_INDIRECT_INDEX h)) else None)
      else None)"

text \<open>
  \<open>Lookup\<close>: \<open>Some r\<close> is a return with \<open>r\<close> (\<open>None\<close> for \<open>nullptr\<close>), \<open>None\<close> an undefined read of the
  reference count.
\<close>

definition Lookup :: "traits \<Rightarrow> handle \<Rightarrow> object_pool \<Rightarrow> addr option option" where
  "Lookup T h p =
     (if HANDLE_GET_MPI_KIND h \<noteq> kind_code (KIND T) then Some None
      else case locate T h p of
        None \<Rightarrow> Some None
      | Some t \<Rightarrow> (case read_entry T t p of
                     None \<Rightarrow> None
                   | Some e \<Rightarrow> if ref_count e < 1 then Some None else Some (Some t)))"

text \<open>Reference counting as the clients do it: the last release gives the object back.\<close>

definition pool_add_ref :: "addr \<Rightarrow> object_pool \<Rightarrow> object_pool" where
  "pool_add_ref t p =
     (case m_entries p t of None \<Rightarrow> p
      | Some e \<Rightarrow> p\<lparr>m_entries := (m_entries p)(t \<mapsto> set_ref (ref_count e + 1) e)\<rparr>)"

definition pool_release_ref :: "addr \<Rightarrow> object_pool \<Rightarrow> bool \<times> object_pool" where
  "pool_release_ref t p =
     (case m_entries p t of None \<Rightarrow> (True, p)
      | Some e \<Rightarrow> (ref_count e - 1 \<noteq> 0,
                   p\<lparr>m_entries := (m_entries p)(t \<mapsto> set_ref (ref_count e - 1) e)\<rparr>))"

subsection \<open>Slabs\<close>

text \<open>\<open>InitSlab\<close> is the slab of the shared specification.\<close>

lemma InitSlab_loop_eq:
  "i + k + 1 = n \<Longrightarrow>
   InitSlab_loop T slab n type b i k m =
     slab_from slab (make_handle type (kind_code (KIND T)) b) n i (Suc k) m"
  by (induction k arbitrary: i m) (auto simp: InitEntry_def slab_entry_def)

lemma InitSlab_eq:
  "0 < n \<Longrightarrow> InitSlab T slab n type b m =
     slab_from slab (make_handle type (kind_code (KIND T)) b) n 0 n m"
  using InitSlab_loop_eq [of 0 "n - 1" n] by (simp add: InitSlab_def)

subsection \<open>Invariant\<close>

definition entry_addrs :: "traits \<Rightarrow> object_pool \<Rightarrow> addr set" where
  "entry_addrs T p =
     (if m_initialized p then Direct ` {..<DIRECT T} else {}) \<union>
     {Indirect b i | b i. b < m_indirectSize p \<and> i < HANDLE_BLOCK_SIZE}"

text \<open>
  In addition to what the C allocator guarantees, every free entry has a reference count below 1:
  that is what lets \<open>Lookup\<close> refuse handles of freed objects.
\<close>

definition pool_inv :: "traits \<Rightarrow> object_pool \<Rightarrow> addr set \<Rightarrow> bool" where
  "pool_inv T p L \<longleftrightarrow>
     entries_ok (addr_handle (KIND T)) (m_entries p) (entry_addrs T p) \<and>
     free_chain (m_entries p) (m_freeList p) L (entry_addrs T p) \<and>
     (\<forall>a\<in>entry_addrs T p - L. \<forall>e. m_entries p a = Some e \<longrightarrow> ref_count e < 1) \<and>
     (\<forall>a e. m_entries p a = Some e \<longrightarrow> a \<in> entry_addrs T p \<or> (\<exists>i. a = Builtin i)) \<and>
     0 < DIRECT T \<and> DIRECT T \<le> 2 ^ 26 \<and> m_indirectSize p \<le> HANDLE_BLOCK_INDEX_SIZE \<and>
     (\<not> m_initialized p \<longrightarrow> m_indirectSize p = 0)"

definition pool_init :: "bool list \<Rightarrow> object_pool" where
  "pool_init ns =
     \<lparr>m_freeList = None, m_indirect = False, m_indirectSize = 0, m_initialized = False,
      m_entries = Map.empty, m_news = ns\<rparr>"

lemma entry_addrs_frame [simp]:
  "entry_addrs T (p\<lparr>m_entries := m\<rparr>) = entry_addrs T p"
  "entry_addrs T (p\<lparr>m_freeList := f\<rparr>) = entry_addrs T p"
  "entry_addrs T (p\<lparr>m_news := ns\<rparr>) = entry_addrs T p"
  "entry_addrs T (p\<lparr>m_indirect := b\<rparr>) = entry_addrs T p"
  by (simp_all add: entry_addrs_def)

lemma pool_inv_frame [simp]:
  "pool_inv T (p\<lparr>m_news := ns\<rparr>) L = pool_inv T p L"
  "pool_inv T (p\<lparr>m_indirect := b\<rparr>) L = pool_inv T p L"
  by (simp_all add: pool_inv_def)

lemma pool_inv_init: "0 < DIRECT T \<Longrightarrow> DIRECT T \<le> 2 ^ 26 \<Longrightarrow> pool_inv T (pool_init ns) {}"
  by (simp add: pool_inv_def pool_init_def free_chain_empty entries_ok_def entry_addrs_def)

lemma pool_live_entry:
  "pool_inv T p L \<Longrightarrow> a \<in> L \<Longrightarrow>
   \<exists>e. m_entries p a = Some e \<and> e_handle e = addr_handle (KIND T) a"
  by (meson pool_inv_def entries_ok_at free_chain_live subsetD)

lemma pool_live_addr: "pool_inv T p L \<Longrightarrow> a \<in> L \<Longrightarrow> a \<in> entry_addrs T p"
  by (meson pool_inv_def free_chain_live subsetD)

subsection \<open>Growing the pool\<close>

text \<open>Entries of a fresh slab have reference count 0, the others keep theirs.\<close>

lemma slab_refs:
  assumes "inj mk" "slab_from mk h n 0 n m a = Some e"
  shows "(a \<in> mk ` {..<n} \<and> ref_count e = 0) \<or> (a \<notin> mk ` {..<n} \<and> m a = Some e)"
proof (cases "a \<in> mk ` {..<n}")
  case True
  then obtain i where "a = mk i" "i < n" by auto
  with assms True show ?thesis by (auto simp: slab_from_at slab_entry_def)
next
  case False
  then have "slab_from mk h n 0 n m a = m a"
    using assms(1) by (intro slab_from_other) auto
  with assms(2) False show ?thesis by simp
qed

lemma pool_inv_slab:
  assumes inv: "pool_inv T p L" and head: "m_freeList p = None"
    and inj: "inj mk" and n: "0 < n"
    and fresh: "\<And>i. i < n \<Longrightarrow> mk i \<notin> entry_addrs T p"
    and hnd: "\<And>i. i < n \<Longrightarrow> addr_handle (KIND T) (mk i) = h i"
    and q: "m_entries q = slab_from mk h n 0 n (m_entries p)" "m_freeList q = Some (mk 0)"
      "entry_addrs T q = entry_addrs T p \<union> mk ` {..<n}"
      "m_indirectSize q \<le> HANDLE_BLOCK_INDEX_SIZE" "\<not> m_initialized q \<longrightarrow> m_indirectSize q = 0"
  shows "pool_inv T q L"
proof -
  have L: "L = entry_addrs T p"
    using inv head by (simp add: pool_inv_def free_chain_empty)
  have "free_chain (m_entries q) (m_freeList q) L (entry_addrs T q)"
    unfolding L q by (rule free_chain_slab [OF inj n fresh])
  moreover have "entries_ok (addr_handle (KIND T)) (m_entries q) (entry_addrs T q)"
    unfolding q using inv hnd by (intro entries_ok_slab [OF inj]) (auto simp: pool_inv_def)
  moreover have "\<forall>a\<in>entry_addrs T q - L. \<forall>e. m_entries q a = Some e \<longrightarrow> ref_count e < 1"
    unfolding L q using slab_refs [OF inj] by fastforce
  moreover have "\<forall>a e. m_entries q a = Some e \<longrightarrow> a \<in> entry_addrs T q \<or> (\<exists>i. a = Builtin i)"
    unfolding q using inv slab_refs [OF inj] unfolding pool_inv_def by fast
  ultimately show ?thesis
    using inv q unfolding pool_inv_def by simp
qed

lemma try_new_cases: "try_new p = (ok, q) \<Longrightarrow> \<exists>ns. q = p\<lparr>m_news := ns\<rparr>"
proof -
  assume "try_new p = (ok, q)"
  then have "q = p\<lparr>m_news := tl (m_news p)\<rparr>"
    by (cases "m_news p") (auto simp: try_new_def intro: object_pool.equality)
  then show ?thesis by blast
qed

definition grown :: "traits \<Rightarrow> addr set \<Rightarrow> addr option \<times> object_pool \<Rightarrow> bool" where
  "grown T L res \<longleftrightarrow>
     (case res of (None, q) \<Rightarrow> pool_inv T q L
      | (Some a, q) \<Rightarrow> pool_inv T (q\<lparr>m_freeList := Some a\<rparr>) L)"

lemma GrowIndirect_grown:
  assumes inv: "pool_inv T p L" and head: "m_freeList p = None" and init: "m_initialized p"
  shows "grown T L (GrowIndirect T p)"
proof -
  obtain ok q where q: "(if m_indirect p then (True, p)
      else case try_new p of (ok, q) \<Rightarrow> (ok, q\<lparr>m_indirect := ok\<rparr>)) = (ok, q)" by fastforce
  then have inv_q: "pool_inv T q L" "m_freeList q = None" "m_initialized q"
    using inv head init by (auto dest!: try_new_cases split: if_splits prod.splits)
  obtain ok' r where r: "try_new q = (ok', r)" by (cases "try_new q")
  with inv_q have inv_r: "pool_inv T r L" "m_freeList r = None" "m_initialized r"
    "m_indirectSize r = m_indirectSize q"
    by (auto dest!: try_new_cases)
  let ?b = "m_indirectSize r"
  let ?q = "r\<lparr>m_entries := InitSlab T (Indirect ?b) HANDLE_BLOCK_SIZE HANDLE_TYPE_INDIRECT ?b (m_entries r),
              m_indirectSize := ?b + 1\<rparr>"
  have block: "pool_inv T (?q\<lparr>m_freeList := Some (Indirect ?b 0)\<rparr>) L"
    if "?b \<noteq> HANDLE_BLOCK_INDEX_SIZE"
  proof (rule pool_inv_slab [OF inv_r(1,2), where mk = "Indirect ?b" and n = HANDLE_BLOCK_SIZE])
    show "m_entries (?q\<lparr>m_freeList := Some (Indirect ?b 0)\<rparr>) =
        slab_from (Indirect ?b) (make_handle HANDLE_TYPE_INDIRECT (kind_code (KIND T)) ?b)
          HANDLE_BLOCK_SIZE 0 HANDLE_BLOCK_SIZE (m_entries r)"
      by (simp add: InitSlab_eq HANDLE_BLOCK_SIZE_def)
    show "m_indirectSize (?q\<lparr>m_freeList := Some (Indirect ?b 0)\<rparr>) \<le> HANDLE_BLOCK_INDEX_SIZE"
      using that inv_r(1) by (simp add: pool_inv_def)
  qed (use inv_r in \<open>auto simp: inj_def HANDLE_BLOCK_SIZE_def entry_addrs_def indirect_handle_def less_Suc_eq\<close>)
  show ?thesis
    using q r inv_q inv_r(1) block inv_r(4)
    by (cases ok; cases ok') (auto simp: GrowIndirect_def grown_def)
qed

lemma Grow_grown:
  assumes inv: "pool_inv T p L" and head: "m_freeList p = None"
  shows "grown T L (Grow T p)"
proof (cases "m_initialized p")
  case False
  let ?q = "p\<lparr>m_entries := InitSlab T Direct (DIRECT T) HANDLE_TYPE_DIRECT 0 (m_entries p),
              m_initialized := True\<rparr>"
  have none: "entry_addrs T p = {}" "0 < DIRECT T" "m_indirectSize p = 0"
    using inv False by (auto simp: pool_inv_def entry_addrs_def)
  have "pool_inv T (?q\<lparr>m_freeList := Some (Direct 0)\<rparr>) L"
  proof (rule pool_inv_slab [OF inv head, where mk = Direct and n = "DIRECT T"])
    show "m_entries (?q\<lparr>m_freeList := Some (Direct 0)\<rparr>) =
        slab_from Direct (make_handle HANDLE_TYPE_DIRECT (kind_code (KIND T)) 0)
          (DIRECT T) 0 (DIRECT T) (m_entries p)"
      using none by (simp add: InitSlab_eq)
  qed (use none in \<open>auto simp: inj_def entry_addrs_def direct_handle_def\<close>)
  with False show ?thesis by (simp add: Grow_def grown_def)
next
  case True
  with assms show ?thesis by (simp add: Grow_def GrowIndirect_grown)
qed

subsection \<open>Allocation, release and lookup\<close>

lemma unlink_head_inv:
  assumes "pool_inv T p L" "m_freeList p = Some a"
  shows "a \<notin> L \<and> pool_inv T (unlink_head a p) (insert a L) \<and>
    (\<exists>e. m_entries (unlink_head a p) a = Some e \<and> ref_count e = 1)"
proof -
  have "free_chain (m_entries p) (Some a) L (entry_addrs T p)"
    using assms by (simp add: pool_inv_def)
  then obtain e where e: "m_entries p a = Some e" "a \<notin> L" "a \<in> entry_addrs T p"
    "free_chain ((m_entries p)(a \<mapsto> set_ref 1 e)) (next_free e) (insert a L) (entry_addrs T p)"
    by (rule free_chain_take)
  then have "pool_inv T (p\<lparr>m_freeList := next_free e, m_entries := (m_entries p)(a \<mapsto> set_ref 1 e)\<rparr>)
      (insert a L)"
    using assms(1) unfolding pool_inv_def by (auto simp: entries_ok_upd)
  with e show ?thesis by (simp add: unlink_head_def)
qed

lemma unlink_head_set: "m_entries p a = Some e \<Longrightarrow> unlink_head a (p\<lparr>m_freeList := f\<rparr>) = unlink_head a p"
  by (simp add: unlink_head_def)

lemma Alloc_inv:
  assumes inv: "pool_inv T p L"
  shows "case Alloc T p of (None, q) \<Rightarrow> pool_inv T q L
    | (Some a, q) \<Rightarrow> a \<notin> L \<and> pool_inv T q (insert a L) \<and> (\<exists>e. m_entries q a = Some e \<and> ref_count e = 1)"
proof (cases "m_freeList p")
  case (Some a)
  with unlink_head_inv [OF inv Some] show ?thesis by (simp add: Alloc_def)
next
  case None
  obtain r q where g: "Grow T p = (r, q)" by (cases "Grow T p")
  show ?thesis
  proof (cases r)
    case None
    with Grow_grown [OF inv \<open>m_freeList p = None\<close>] g \<open>m_freeList p = None\<close> show ?thesis
      by (simp add: Alloc_def grown_def)
  next
    case (Some a)
    with Grow_grown [OF inv \<open>m_freeList p = None\<close>] g
    have inv': "pool_inv T (q\<lparr>m_freeList := Some a\<rparr>) L" by (simp add: grown_def)
    then obtain e where "m_entries q a = Some e"
      by (auto simp: pool_inv_def elim: free_chain_take)
    with unlink_head_inv [OF inv'] Some g \<open>m_freeList p = None\<close> show ?thesis
      by (simp add: Alloc_def unlink_head_set)
  qed
qed

definition handle_in :: "object_pool \<Rightarrow> addr \<Rightarrow> handle" where
  "handle_in p a = (case m_entries p a of None \<Rightarrow> 0 | Some e \<Rightarrow> e_handle e)"

definition in_use :: "object_pool \<Rightarrow> addr \<Rightarrow> bool" where
  "in_use p a \<longleftrightarrow> (\<exists>e. m_entries p a = Some e \<and> 1 \<le> ref_count e)"

definition unreferenced :: "object_pool \<Rightarrow> addr \<Rightarrow> bool" where
  "unreferenced p a \<longleftrightarrow> \<not> in_use p a"

lemma handle_in_live: "pool_inv T p L \<Longrightarrow> a \<in> L \<Longrightarrow> handle_in p a = addr_handle (KIND T) a"
  using pool_live_entry by (force simp: handle_in_def)

lemma Free_inv:
  assumes inv: "pool_inv T p L" and a: "a \<in> L" and ref: "unreferenced p a"
  shows "pool_inv T (Free a p) (L - {a})"
proof -
  obtain e where e: "m_entries p a = Some e"
    using pool_live_entry [OF inv a] by blast
  moreover have "ref_count e < 1"
    using ref e by (auto simp: unreferenced_def in_use_def)
  moreover have "a \<in> entry_addrs T p"
    by (rule pool_live_addr [OF inv a])
  ultimately show ?thesis
    using inv free_chain_put [of "m_entries p" "m_freeList p" L "entry_addrs T p" a e] a
    unfolding pool_inv_def by (auto simp: Free_def entries_ok_upd)
qed

text \<open>Other objects are left alone.\<close>

lemma unlink_head_other: "b \<noteq> a \<Longrightarrow> m_entries (unlink_head a p) b = m_entries p b"
  by (simp add: unlink_head_def split: option.splits)

lemma Free_other: "b \<noteq> a \<Longrightarrow> m_entries (Free a p) b = m_entries p b"
  by (simp add: Free_def split: option.splits)

lemma Grow_other:
  assumes "pool_inv T p L" "m_freeList p = None" "Grow T p = (r, q)" "b \<in> L"
  shows "m_entries q b = m_entries p b"
proof -
  have "b \<in> entry_addrs T p" by (rule pool_live_addr [OF assms(1,4)])
  then have "\<forall>i. b \<noteq> Indirect (m_indirectSize p) i" "\<forall>i. \<not> m_initialized p \<longrightarrow> b \<noteq> Direct i"
    using assms(1) by (auto simp: entry_addrs_def pool_inv_def split: if_splits)
  with assms(1,3) show ?thesis
    by (auto simp: Grow_def GrowIndirect_def InitSlab_eq HANDLE_BLOCK_SIZE_def pool_inv_def inj_def
        intro!: slab_from_other dest!: try_new_cases split: if_splits prod.splits bool.splits)
qed

lemma Alloc_other:
  assumes inv: "pool_inv T p L" and al: "Alloc T p = (r, q)" and b: "b \<in> L"
  shows "m_entries q b = m_entries p b"
proof (cases "m_freeList p")
  case (Some a)
  then have "a \<notin> L" using unlink_head_inv [OF inv] by simp
  with Some al b show ?thesis
    by (auto simp: Alloc_def intro!: unlink_head_other)
next
  case None
  obtain r' q' where g: "Grow T p = (r', q')" by (cases "Grow T p")
  have other: "m_entries q' b = m_entries p b" by (rule Grow_other [OF inv None g b])
  show ?thesis
  proof (cases r')
    case (Some a)
    moreover have "a \<notin> L"
      using Grow_grown [OF inv None] unlink_head_inv [of T "q'\<lparr>m_freeList := Some a\<rparr>" L a] g Some
      by (simp add: grown_def)
    ultimately show ?thesis
      using al None g other b unlink_head_other [of b a q'] by (auto simp: Alloc_def)
  qed (use al None g other in \<open>simp add: Alloc_def\<close>)
qed

text \<open>Where a handle of the pool leads.\<close>

lemma locate_addr:
  assumes inv: "pool_inv T p L" and a: "a \<in> entry_addrs T p"
  shows "locate T (addr_handle (KIND T) a) p = Some a"
    and "HANDLE_GET_MPI_KIND (addr_handle (KIND T) a) = kind_code (KIND T)"
proof -
  consider i where "a = Direct i" "i < DIRECT T"
    | b i where "a = Indirect b i" "b < m_indirectSize p" "i < HANDLE_BLOCK_SIZE"
    using a by (auto simp: entry_addrs_def split: if_splits)
  then have "locate T (addr_handle (KIND T) a) p = Some a \<and>
    HANDLE_GET_MPI_KIND (addr_handle (KIND T) a) = kind_code (KIND T)"
  proof cases
    case (1 i)
    with inv have "direct_ok HANDLE_TYPE_DIRECT (kind_code (KIND T)) i"
      by (intro direct_fields) (simp add: pool_inv_def)
    with 1 show ?thesis
      by (simp add: locate_def direct_handle_def handle_readback HANDLE_TYPE_DIRECT_def
          HANDLE_TYPE_BUILTIN_def)
  next
    case (2 b i)
    with inv have "fields_ok HANDLE_TYPE_INDIRECT (kind_code (KIND T)) b i"
      by (intro indirect_fields) (auto simp: pool_inv_def)
    with 2 show ?thesis
      by (simp add: locate_def indirect_handle_def handle_readback HANDLE_TYPE_DIRECT_def
          HANDLE_TYPE_BUILTIN_def HANDLE_TYPE_INDIRECT_def)
  qed
  then show "locate T (addr_handle (KIND T) a) p = Some a"
    and "HANDLE_GET_MPI_KIND (addr_handle (KIND T) a) = kind_code (KIND T)" by auto
qed

text \<open>\<open>Lookup\<close> never reads outside of the pool's arrays: its checks bound every index.\<close>

lemma locate_readable:
  assumes "pool_inv T p L" "locate T h p = Some t"
  obtains e where "read_entry T t p = Some e"
proof -
  have slabs: "m_entries p (Indirect b i) \<noteq> None" if "b < m_indirectSize p" "i < HANDLE_BLOCK_SIZE" for b i
  proof -
    from that have "Indirect b i \<in> entry_addrs T p" by (simp add: entry_addrs_def)
    with assms(1) show ?thesis unfolding pool_inv_def entries_ok_def by fastforce
  qed
  have "read_entry T t p \<noteq> None"
    using assms(2) slabs
    by (fastforce simp: locate_def read_entry_def Let_def split: if_splits option.splits)
  then show thesis using that by blast
qed

text \<open>An address is returned just when the handle has the kind of the pool, leads to it, and its
entry is referenced.\<close>

lemma Lookup_hit:
  assumes "pool_inv T p L"
  shows "Lookup T h p = Some (Some a) \<longleftrightarrow>
    HANDLE_GET_MPI_KIND h = kind_code (KIND T) \<and> locate T h p = Some a \<and> in_use p a"
    and "\<exists>r. Lookup T h p = Some r"
proof -
  have used: "ref_count e < 1 \<longleftrightarrow> \<not> in_use p t" if "read_entry T t p = Some e" for t e
    using that
    by (auto simp: read_entry_def in_use_def Let_def split: addr.splits option.splits if_splits)
  show "Lookup T h p = Some (Some a) \<longleftrightarrow>
    HANDLE_GET_MPI_KIND h = kind_code (KIND T) \<and> locate T h p = Some a \<and> in_use p a"
    using locate_readable [OF assms] used
    by (auto simp: Lookup_def split: option.splits if_splits) fastforce+
  show "\<exists>r. Lookup T h p = Some r"
    using locate_readable [OF assms]
    by (auto simp: Lookup_def split: option.splits) fastforce
qed

text \<open>The only handle that leads to an entry of the pool is the one stored in it.\<close>

lemma locate_exact:
  assumes inv: "pool_inv T p L" and a: "\<forall>i. a \<noteq> Builtin i"
    and h: "locate T h p = Some a" "HANDLE_GET_MPI_KIND h = kind_code (KIND T)"
  shows "h = addr_handle (KIND T) a"
proof (cases a)
  case (Direct i)
  then have "HANDLE_GET_TYPE h = HANDLE_TYPE_DIRECT" "i = HANDLE_DIRECT_INDEX h"
    using h(1) by (auto simp: locate_def split: if_splits)
  with Direct h(2) handle_from_fields_direct [of h] show ?thesis
    by (simp add: direct_handle_def)
next
  case (Indirect b i)
  then have "HANDLE_GET_TYPE h = HANDLE_TYPE_INDIRECT"
      "b = HANDLE_INDIRECT_BLOCK h" "i = HANDLE_INDIRECT_INDEX h"
    using h(1) by (auto simp: locate_def split: if_splits)
  with Indirect h(2) handle_from_fields_indirect [of h] show ?thesis
    by (simp add: indirect_handle_def)
qed (use a in blast)

lemma Lookup_live:
  assumes "pool_inv T p L" "a \<in> L" "in_use p a"
  shows "Lookup T (handle_in p a) p = Some (Some a)"
  using locate_addr [OF assms(1) pool_live_addr [OF assms(1,2)]] assms(3)
  by (simp add: Lookup_hit [OF assms(1)] handle_in_live [OF assms(1,2)])

text \<open>What the pool's clients see of a lookup.\<close>

definition found :: "traits \<Rightarrow> handle \<Rightarrow> object_pool \<Rightarrow> addr option" where
  "found T h p = (case Lookup T h p of None \<Rightarrow> None | Some r \<Rightarrow> r)"

interpretation dp: handle_pool "Alloc DatatypeTraits" Free handle_in "found DatatypeTraits"
  in_use unreferenced "pool_inv DatatypeTraits"
proof unfold_locales
  fix p :: object_pool and L a q
  assume inv: "pool_inv DatatypeTraits p L" and al: "Alloc DatatypeTraits p = (Some a, q)"
  from Alloc_inv [OF inv] al
  show "a \<notin> L" and "pool_inv DatatypeTraits q (insert a L)" and "in_use q a"
    by (auto simp: in_use_def)
next
  fix p :: object_pool and L q
  assume inv: "pool_inv DatatypeTraits p L" and al: "Alloc DatatypeTraits p = (None, q)"
  from Alloc_inv [OF inv] al show "pool_inv DatatypeTraits q L" by simp
next
  fix p :: object_pool and L a
  assume "pool_inv DatatypeTraits p L" "a \<in> L" "in_use p a"
  then show "found DatatypeTraits (handle_in p a) p = Some a" by (simp add: found_def Lookup_live)
qed (simp_all add: Alloc_other Free_other Free_inv handle_in_def in_use_def)

subsection \<open>Properties\<close>

lemma pool_init_inv: "0 < DIRECT T \<Longrightarrow> DIRECT T \<le> 2 ^ 26 \<Longrightarrow> pool_inv T (pool_init ns) {}"
  by (simp add: pool_inv_def pool_init_def entry_addrs_def entries_ok_def free_chain_empty)

text \<open>
  The states a pool reaches. A client reads the entry it was given, counts references with
  \<open>AddRef\<close> and gives an object back with the release of its last reference, as \<open>MPID_Datatype\<close> does;
  initialisation writes the predefined entries.
\<close>

inductive pool_reachable :: "traits \<Rightarrow> object_pool \<Rightarrow> addr set \<Rightarrow> bool" for T where
  start: "0 < DIRECT T \<Longrightarrow> DIRECT T \<le> 2 ^ 26 \<Longrightarrow> pool_reachable T (pool_init ns) {}"
| predefine: "pool_reachable T p L \<Longrightarrow> i < BUILTIN T \<Longrightarrow>
    pool_reachable T (p\<lparr>m_entries := (m_entries p)(Builtin i \<mapsto> e)\<rparr>) L"
| alloc: "pool_reachable T p L \<Longrightarrow> Alloc T p = (Some a, q) \<Longrightarrow> pool_reachable T q (insert a L)"
| alloc_fails: "pool_reachable T p L \<Longrightarrow> Alloc T p = (None, q) \<Longrightarrow> pool_reachable T q L"
| add_ref: "pool_reachable T p L \<Longrightarrow> a \<in> L \<Longrightarrow> pool_reachable T (pool_add_ref a p) L"
| release: "pool_reachable T p L \<Longrightarrow> a \<in> L \<Longrightarrow> pool_release_ref a p = (True, q) \<Longrightarrow>
    pool_reachable T q L"
| release_last: "pool_reachable T p L \<Longrightarrow> a \<in> L \<Longrightarrow> pool_release_ref a p = (False, q) \<Longrightarrow>
    pool_reachable T (Free a q) (L - {a})"

text \<open>Writing the reference count of a live entry, or a predefined entry, keeps the invariant.\<close>

lemma pool_inv_ref:
  assumes inv: "pool_inv T p L" and a: "a \<in> L" and e: "m_entries p a = Some e"
  shows "pool_inv T (p\<lparr>m_entries := (m_entries p)(a \<mapsto> set_ref n e)\<rparr>) L"
  using inv a e pool_live_addr [OF inv a] unfolding pool_inv_def
  by (auto simp: entries_ok_upd free_chain_ref)

lemma pool_inv_predefine:
  assumes "pool_inv T p L"
  shows "pool_inv T (p\<lparr>m_entries := (m_entries p)(Builtin i \<mapsto> e)\<rparr>) L"
proof -
  have out: "Builtin i \<notin> entry_addrs T p" by (auto simp: entry_addrs_def)
  then have "free_chain ((m_entries p)(Builtin i \<mapsto> e)) (m_freeList p) L (entry_addrs T p)"
    using assms unfolding pool_inv_def free_chain_def by (metis UnI1 chain_upd_other)
  with assms out show ?thesis
    unfolding pool_inv_def entries_ok_def by (auto simp: fun_upd_apply)
qed

text \<open>In every reachable state the invariant holds and every live object has a reference.\<close>

lemma reachable_pool:
  "pool_reachable T p L \<Longrightarrow> pool_inv T p L \<and> (\<forall>a\<in>L. in_use p a)"
proof (induction rule: pool_reachable.induct)
  case (start ns)
  then show ?case by (simp add: pool_init_inv)
next
  case (predefine p L i e)
  then have "Builtin i \<notin> L"
    using pool_live_addr [of T p L "Builtin i"]
    by (auto simp: entry_addrs_def split: if_splits)
  with predefine show ?case
    by (auto simp: pool_inv_predefine in_use_def)
next
  case (alloc p L a q)
  then have "pool_inv T q (insert a L) \<and> in_use q a"
    using Alloc_inv [of T p L] by (auto simp: in_use_def)
  moreover have "in_use q b" if "b \<in> L" for b
    using alloc that Alloc_other [of T p L "Some a" q b] by (simp add: in_use_def)
  ultimately show ?case by blast
next
  case (alloc_fails p L q)
  then show ?case
    using Alloc_inv [of T p L] Alloc_other [of T p L None q] by (auto simp: in_use_def)
next
  case (add_ref p L a)
  then obtain e where "m_entries p a = Some e" "1 \<le> ref_count e" by (auto simp: in_use_def)
  with add_ref show ?case
    by (auto simp: pool_add_ref_def pool_inv_ref in_use_def)
next
  case (release p L a q)
  then obtain e where "m_entries p a = Some e" "1 \<le> ref_count e" by (auto simp: in_use_def)
  with release show ?case
    by (auto simp: pool_release_ref_def pool_inv_ref in_use_def)
next
  case (release_last p L a q)
  then obtain e where e: "m_entries p a = Some e" "ref_count e = 1" 
    and q: "q = p\<lparr>m_entries := (m_entries p)(a \<mapsto> set_ref 0 e)\<rparr>"
    by (auto simp: pool_release_ref_def in_use_def split: option.splits)
  then have "pool_inv T q L" "unreferenced q a"
    using release_last by (auto simp: pool_inv_ref unreferenced_def in_use_def)
  then have "pool_inv T (Free a q) (L - {a})"
    using release_last by (intro Free_inv) auto
  moreover have "in_use (Free a q) b" if "b \<in> L - {a}" for b
    using that release_last q Free_other [of b a q] by (auto simp: in_use_def)
  ultimately show ?case by blast
qed

text \<open>
  The object a handle names: a predefined one by the masked index of a handle of builtin type and
  the pool's kind, if that entry is referenced; a live one by the very handle stored in it.
\<close>

definition names :: "traits \<Rightarrow> object_pool \<Rightarrow> addr set \<Rightarrow> handle \<Rightarrow> addr \<Rightarrow> bool" where
  "names T p L h a \<longleftrightarrow>
     (case a of
        Builtin i \<Rightarrow>
          HANDLE_GET_MPI_KIND h = kind_code (KIND T) \<and> HANDLE_GET_TYPE h = HANDLE_TYPE_BUILTIN \<and>
          i = unat (and (of_nat (HANDLE_DIRECT_INDEX h)) (BUILTINMASK T)) \<and> i < BUILTIN T \<and> in_use p a
      | _ \<Rightarrow> a \<in> L \<and> h = handle_in p a)"

lemma Lookup_names:
  assumes inv: "pool_inv T p L" and live: "\<forall>a\<in>L. in_use p a"
  shows "Lookup T h p = Some (Some a) \<longleftrightarrow> names T p L h a"
proof (cases "\<exists>i. a = Builtin i")
  case True
  then show ?thesis
    by (auto simp: Lookup_hit [OF inv] names_def locate_def split: if_splits)
next
  case False
  have "Lookup T h p = Some (Some a) \<longleftrightarrow> a \<in> L \<and> h = handle_in p a"
  proof
    assume "Lookup T h p = Some (Some a)"
    then have hit: "HANDLE_GET_MPI_KIND h = kind_code (KIND T)" "locate T h p = Some a" "in_use p a"
      by (simp_all add: Lookup_hit [OF inv])
    then obtain e where "m_entries p a = Some e" "1 \<le> ref_count e" by (auto simp: in_use_def)
    with inv False have "a \<in> L" unfolding pool_inv_def by (meson linorder_not_le DiffI)
    with hit False show "a \<in> L \<and> h = handle_in p a"
      using locate_exact [OF inv _ hit(2,1)] by (simp add: handle_in_live [OF inv])
  qed (use Lookup_live [OF inv] live in blast)
  with False show ?thesis by (cases a) (auto simp: names_def)
qed

text \<open>C26: in every state a pool reaches, through allocations (failing ones included), reference
counting, releases and the writing of predefined entries, \<open>ObjectPool::Lookup\<close> is exact on every
32-bit handle: it never reads outside of the pool's arrays, it returns a live object exactly for
the handle stored in that object, it returns a predefined object exactly for a handle of the pool's
kind and of builtin type whose masked index is that of a referenced predefined entry, and it
returns null for every other handle: one of a freed object, of another kind or out of bounds.\<close>

theorem Lookup_exact:
  assumes "pool_reachable T p L"
  shows "\<exists>r. Lookup T h p = Some r \<and> (\<forall>a. r = Some a \<longleftrightarrow> names T p L h a)"
  using reachable_pool [OF assms] Lookup_hit(2) [of T p L h] Lookup_names [of T p L h]
  by (metis option.inject)

lemma Lookup_exact_witness:
  "\<exists>p. Alloc DatatypeTraits (pool_init []) = (Some (Direct 0), p) \<and>
    Lookup DatatypeTraits 0x8c000000 p = Some (Some (Direct 0)) \<and>
    Lookup DatatypeTraits 0x8c000001 p = Some None \<and> Lookup DatatypeTraits 0x8800000 p = Some None \<and>
    Lookup DatatypeTraits 0x8c0000ff p = Some None"
proof -
  obtain r p where al: "Alloc DatatypeTraits (pool_init []) = (r, p)" by fastforce
  then have r: "r = Some (Direct 0)"
    by (auto simp: Alloc_def pool_init_def Grow_def split: prod.splits)
  have "pool_reachable DatatypeTraits (pool_init []) {}"
    by (rule pool_reachable.start) (simp_all add: DatatypeTraits_def)
  from pool_reachable.alloc [OF this al [unfolded r]]
  have p: "pool_reachable DatatypeTraits p {Direct 0}" by simp
  then have h: "handle_in p (Direct 0) = 0x8c000000"
    using reachable_pool handle_in_live
    by (fastforce simp: direct_handle_def make_handle_def DatatypeTraits_def HANDLE_TYPE_DIRECT_def)
  have not: "Lookup DatatypeTraits h p = Some None"
    if "HANDLE_GET_TYPE h \<noteq> HANDLE_TYPE_BUILTIN" "h \<noteq> 0x8c000000" for h
  proof -
    have "\<not> names DatatypeTraits p {Direct 0} h a" for a
      using that h by (cases a) (auto simp: names_def)
    with Lookup_exact [OF p, of h] show ?thesis by (metis not_None_eq)
  qed
  have "names DatatypeTraits p {Direct 0} 0x8c000000 (Direct 0)"
    by (simp add: names_def h)
  then have "Lookup DatatypeTraits 0x8c000000 p = Some (Some (Direct 0))"
    using Lookup_exact [OF p, of "0x8c000000"] by metis
  moreover have "Lookup DatatypeTraits h p = Some None" if "h \<in> {0x8c000001, 0x8800000, 0x8c0000ff}" for h
    using that by (intro not) (auto simp: HANDLE_GET_TYPE_def HANDLE_TYPE_BUILTIN_def)
  ultimately show ?thesis using al r by simp
qed

text \<open>A datatype handle keeps finding its object through any sequence of allocations and of frees
of objects with no reference left, until that object is freed.\<close>

theorem Datatype_handle_valid_until_freed:
  assumes "pool_inv DatatypeTraits p L" "dp.legal p L ops" "dp.run p L ops = (p', L')" "b \<in> L"
    "in_use p b" "PFree b \<notin> set ops"
  shows "found DatatypeTraits (handle_in p b) p' = Some b"
  using dp.handle_valid_until_freed [OF assms] .

lemma Datatype_handle_valid_until_freed_witness:
  "\<exists>p p' L'. Alloc DatatypeTraits (pool_init []) = (Some (Direct 0), p) \<and>
    dp.run p {Direct 0} [PAlloc, PAlloc] = (p', L') \<and>
    found DatatypeTraits (handle_in p (Direct 0)) p' = Some (Direct 0)"
proof -
  obtain r p where al: "Alloc DatatypeTraits (pool_init []) = (r, p)" by fastforce
  then have r: "r = Some (Direct 0)"
    by (auto simp: Alloc_def pool_init_def Grow_def split: prod.splits)
  have "pool_inv DatatypeTraits (pool_init []) {}"
    by (rule pool_init_inv) (simp_all add: DatatypeTraits_def)
  then have inv: "pool_inv DatatypeTraits p {Direct 0}" "in_use p (Direct 0)"
    using Alloc_inv [of DatatypeTraits "pool_init []" "{}"] al r by (auto simp: in_use_def)
  obtain p' L' where run: "dp.run p {Direct 0} [PAlloc, PAlloc] = (p', L')" by fastforce
  have legal: "dp.legal p {Direct 0} [PAlloc, PAlloc]"
    by (auto split: prod.splits option.splits)
  show ?thesis
    using Datatype_handle_valid_until_freed [OF inv(1) legal run, of "Direct 0"] inv(2) al r run by auto
qed

end
