(* ===== verification/Info_Objects.thy ===== *)
theory Info_Objects
  imports Handle_Mem
begin

text \<open>
  Info objects: lists of pairs of strings (\<open>src/mpi/msmpi/mpid/info.cpp\<close>, \<open>include/info.h\<close>,
  \<open>api/mpi_info.cpp\<close>). An info object is a linked list of nodes from the allocator of
  \<open>Handle_Mem\<close>; its first node holds no pair and its handle is the handle of the object. Strings are
  lists of characters without the null character. \<open>CompareStringA\<close> of Windows, which decides whether two
  keys are equal, is the argument \<open>same\<close>.
\<close>

subsection \<open>State\<close>

record info_node =
  i_next :: "addr option"
  i_key :: "string option"
  i_value :: "string option"

text \<open>\<open>nodes\<close> holds the fields of the allocated nodes; access to another node is undefined.\<close>

record infos =
  pool :: objmem
  nodes :: "addr \<rightharpoonup> info_node"

definition MPI_INFO_NULL :: handle where "MPI_INFO_NULL = 0x1c000000"
definition MPI_MAX_INFO_KEY :: nat where "MPI_MAX_INFO_KEY = 255"
definition MPI_MAX_INFO_VAL :: nat where "MPI_MAX_INFO_VAL = 1024"
definition MPID_INFO_PREALLOC :: nat where "MPID_INFO_PREALLOC = 8"

definition info_init :: "bool list \<Rightarrow> infos" where
  "info_init ms = \<lparr>pool = objmem_init MPID_INFO MPID_INFO_PREALLOC ms, nodes = Map.empty\<rparr>"

subsection \<open>Strings\<close>

text \<open>\<open>None\<close> is \<open>SIZE_MAX\<close>: no null character within \<open>cchMax\<close> characters.\<close>

definition MPIU_Strlen :: "string \<Rightarrow> nat \<Rightarrow> nat option" where
  "MPIU_Strlen src cchMax = (if length src < cchMax then Some (length src) else None)"

text \<open>What the buffer holds after copying into \<open>n\<close> characters; \<open>old\<close> was there before.\<close>

definition MPIU_Strncpy :: "string \<Rightarrow> string \<Rightarrow> nat \<Rightarrow> string" where
  "MPIU_Strncpy old src n = (if n = 0 then old else take (n - 1) src)"

definition MPIU_Strdup :: "string \<Rightarrow> objmem \<Rightarrow> string option \<times> objmem" where
  "MPIU_Strdup str m = (case malloc m of (False, m) \<Rightarrow> (None, m) | (True, m) \<Rightarrow> (Some str, m))"

text \<open>Duplicate a string unless its pointer is null; the outer \<open>None\<close> is a failed allocation.\<close>

definition dup_unless_null :: "string option \<Rightarrow> objmem \<Rightarrow> string option option \<times> objmem" where
  "dup_unless_null str m = (case str of
     None \<Rightarrow> (Some None, m)
   | Some s \<Rightarrow> (case MPIU_Strdup s m of (None, m) \<Rightarrow> (None, m) | (Some t, m) \<Rightarrow> (Some (Some t), m)))"

subsection \<open>Nodes\<close>

definition MPIU_Info_alloc_node :: "string option \<Rightarrow> string option \<Rightarrow> infos \<Rightarrow> addr option \<times> infos" where
  "MPIU_Info_alloc_node key val s =
     (case MPIU_Handle_obj_alloc (pool s) of
        (None, m) \<Rightarrow> (None, s\<lparr>pool := m\<rparr>)
      | (Some p, m) \<Rightarrow> (case dup_unless_null key m of
          (None, m) \<Rightarrow> (None, s\<lparr>pool := MPIU_Handle_obj_free p m\<rparr>)
        | (Some k, m) \<Rightarrow> (case dup_unless_null val m of
            (None, m) \<Rightarrow> (None, s\<lparr>pool := MPIU_Handle_obj_free p m\<rparr>)
          | (Some v, m) \<Rightarrow> (Some p, \<lparr>pool = m, nodes = (nodes s)(p \<mapsto> \<lparr>i_next = None, i_key = k, i_value = v\<rparr>)\<rparr>))))"

definition MPIU_Info_free_node :: "addr \<Rightarrow> infos \<Rightarrow> infos" where
  "MPIU_Info_free_node p s = \<lparr>pool = MPIU_Handle_obj_free p (pool s), nodes = (nodes s)(p := None)\<rparr>"

partial_function (option) MPIU_Info_free_list :: "addr option \<Rightarrow> infos \<Rightarrow> infos option" where
  "MPIU_Info_free_list p s = (case p of
     None \<Rightarrow> Some s
   | Some a \<Rightarrow> do { n \<leftarrow> nodes s a; MPIU_Info_free_list (i_next n) (MPIU_Info_free_node a s) })"

declare MPIU_Info_free_list.simps [code]

subsection \<open>Arguments\<close>

definition MpiaInfoValidateHandle :: "handle \<Rightarrow> infos \<Rightarrow> mpi_error + addr" where
  "MpiaInfoValidateHandle hInfo s =
     (if HANDLE_GET_MPI_KIND hInfo \<noteq> kind_code MPID_INFO \<or> HANDLE_GET_TYPE hInfo = HANDLE_TYPE_INVALID
      then Inl (MPIU_ERR_CREATE MPI_ERR_INFO ''**info'')
      else case MPID_Get_ptr hInfo (pool s) of
        None \<Rightarrow> Inl (MPIU_ERR_CREATE MPI_ERR_INFO ''**nullptrtype %s'')
      | Some a \<Rightarrow> Inr a)"

definition MpiaInfoValidateKey :: "string option \<Rightarrow> mpi_error + string" where
  "MpiaInfoValidateKey key = (case key of
     None \<Rightarrow> Inl (MPIU_ERR_CREATE MPI_ERR_INFO_KEY ''**infokeynull'')
   | Some k \<Rightarrow> (case MPIU_Strlen k (MPI_MAX_INFO_KEY + 1) of
       None \<Rightarrow> Inl (MPIU_ERR_CREATE MPI_ERR_INFO_KEY ''**infokeylong %s %d %d'')
     | Some n \<Rightarrow> if n = 0 then Inl (MPIU_ERR_CREATE MPI_ERR_INFO_KEY ''**infokeyempty'') else Inr k))"

definition info_null_arg :: mpi_error where
  "info_null_arg = MPIU_ERR_CREATE MPI_ERR_ARG ''**nullptr %s''"

subsection \<open>The list\<close>

text \<open>
  The loop that compares the keys, from \<open>p\<close> on: the node before the one it stops at, and that node.
  A null key is equal to no key.
\<close>

partial_function (option) find_key ::
  "(string \<Rightarrow> string \<Rightarrow> bool) \<Rightarrow> (addr \<rightharpoonup> info_node) \<Rightarrow> string \<Rightarrow> addr \<Rightarrow> addr option \<Rightarrow> (addr \<times> addr option) option" where
  "find_key same N key prev p = (case p of
     None \<Rightarrow> Some (prev, None)
   | Some a \<Rightarrow> do {
       n \<leftarrow> N a;
       if (case i_key n of None \<Rightarrow> False | Some k \<Rightarrow> same k key) then Some (prev, Some a)
       else find_key same N key a (i_next n)
     })"

declare find_key.simps [code]

partial_function (option) count_nodes :: "(addr \<rightharpoonup> info_node) \<Rightarrow> int \<Rightarrow> addr option \<Rightarrow> int option" where
  "count_nodes N n p = (case p of
     None \<Rightarrow> Some n
   | Some a \<Rightarrow> do { x \<leftarrow> N a; count_nodes N (n + 1) (i_next x) })"

declare count_nodes.simps [code]

text \<open>The node with number \<open>n\<close>, if there is one, with the number of nodes before the end of the loop.\<close>

partial_function (option) nth_node :: "(addr \<rightharpoonup> info_node) \<Rightarrow> int \<Rightarrow> int \<Rightarrow> addr option \<Rightarrow> (int \<times> addr option) option" where
  "nth_node N nkeys n p = (case p of
     None \<Rightarrow> Some (nkeys, None)
   | Some a \<Rightarrow> do { x \<leftarrow> N a; if nkeys = n then Some (nkeys, p) else nth_node N (nkeys + 1) n (i_next x) })"

declare nth_node.simps [code]

subsection \<open>The operations\<close>

text \<open>
  A pointer argument is \<open>None\<close> or \<open>False\<close> when it is null. The result is \<open>None\<close> where the code accesses
  a node that is not allocated.
\<close>

definition MPI_Info_create :: "bool \<Rightarrow> infos \<Rightarrow> infos \<times> (mpi_error + handle)" where
  "MPI_Info_create info s =
     (if \<not> info then (s, Inl info_null_arg)
      else case MPIU_Info_alloc_node None None s of
        (None, s) \<Rightarrow> (s, Inl MPIU_ERR_NOMEM)
      | (Some a, s) \<Rightarrow> (s, Inr (handle_at (pool s) a)))"

definition MPI_Info_delete ::
  "(string \<Rightarrow> string \<Rightarrow> bool) \<Rightarrow> handle \<Rightarrow> string option \<Rightarrow> infos \<Rightarrow> (infos \<times> mpi_error option) option" where
  "MPI_Info_delete same info key s =
     (case MpiaInfoValidateHandle info s of
        Inl e \<Rightarrow> Some (s, Some e)
      | Inr a \<Rightarrow> (case MpiaInfoValidateKey key of
          Inl e \<Rightarrow> Some (s, Some e)
        | Inr k \<Rightarrow> do {
            d \<leftarrow> nodes s a;
            (prev, found) \<leftarrow> find_key same (nodes s) k a (i_next d);
            case found of
              None \<Rightarrow> Some (s, Some (MPIU_ERR_CREATE MPI_ERR_INFO_NOKEY ''**infonokey %s''))
            | Some b \<Rightarrow> do {
                n \<leftarrow> nodes s b;
                pn \<leftarrow> nodes s prev;
                Some (MPIU_Info_free_node b (s\<lparr>nodes := (nodes s)(prev \<mapsto> pn\<lparr>i_next := i_next n\<rparr>)\<rparr>), None)
              }
          }))"

text \<open>The copy so far starts at \<open>dup\<close>, its last node is \<open>tail\<close>.\<close>

partial_function (option) dup_loop ::
  "addr option \<Rightarrow> addr option \<Rightarrow> addr option \<Rightarrow> infos \<Rightarrow> (infos \<times> (mpi_error + addr option)) option" where
  "dup_loop p dup tail s = (case p of
     None \<Rightarrow> Some (s, Inr dup)
   | Some a \<Rightarrow> do {
       n \<leftarrow> nodes s a;
       case MPIU_Info_alloc_node (i_key n) (i_value n) s of
         (None, s) \<Rightarrow> do { s \<leftarrow> MPIU_Info_free_list dup s; Some (s, Inl MPIU_ERR_NOMEM) }
       | (Some b, s) \<Rightarrow> (case tail of
           None \<Rightarrow> dup_loop (i_next n) (Some b) (Some b) s
         | Some t \<Rightarrow> do {
             tn \<leftarrow> nodes s t;
             dup_loop (i_next n) dup (Some b) (s\<lparr>nodes := (nodes s)(t \<mapsto> tn\<lparr>i_next := Some b\<rparr>)\<rparr>)
           })
     })"

declare dup_loop.simps [code]

definition MPI_Info_dup :: "handle \<Rightarrow> bool \<Rightarrow> infos \<Rightarrow> (infos \<times> (mpi_error + handle)) option" where
  "MPI_Info_dup info newinfo s =
     (case MpiaInfoValidateHandle info s of
        Inl e \<Rightarrow> Some (s, Inl e)
      | Inr a \<Rightarrow>
          if \<not> newinfo then Some (s, Inl info_null_arg)
          else do {
            (s, r) \<leftarrow> dup_loop (Some a) None None s;
            case r of
              Inl e \<Rightarrow> Some (s, Inl e)
            | Inr dup \<Rightarrow> do { b \<leftarrow> dup; Some (s, Inr (handle_at (pool s) b)) }
          })"

text \<open>With the result goes the handle the argument holds afterwards.\<close>

definition MPI_Info_free :: "handle option \<Rightarrow> infos \<Rightarrow> (infos \<times> handle option \<times> mpi_error option) option" where
  "MPI_Info_free info s = (case info of
     None \<Rightarrow> Some (s, None, Some info_null_arg)
   | Some h \<Rightarrow> (case MpiaInfoValidateHandle h s of
       Inl e \<Rightarrow> Some (s, Some h, Some e)
     | Inr a \<Rightarrow> do { s \<leftarrow> MPIU_Info_free_list (Some a) s; Some (s, Some MPI_INFO_NULL, None) }))"

text \<open>The results: the string in \<open>value\<close> and the flag, or the error.\<close>

definition MPI_Info_get ::
  "(string \<Rightarrow> string \<Rightarrow> bool) \<Rightarrow> handle \<Rightarrow> string option \<Rightarrow> int \<Rightarrow> bool \<Rightarrow> bool \<Rightarrow> infos \<Rightarrow> (string \<times> bool) outcome" where
  "MPI_Info_get same info key valuelen val flag s =
     (case MpiaInfoValidateHandle info s of
        Inl e \<Rightarrow> Some (Inl e)
      | Inr a \<Rightarrow> (case MpiaInfoValidateKey key of
          Inl e \<Rightarrow> Some (Inl e)
        | Inr k \<Rightarrow>
            if valuelen < 0 then Some (Inl (MPIU_ERR_CREATE MPI_ERR_ARG ''**argneg %s %d''))
            else if \<not> val then Some (Inl (MPIU_ERR_CREATE MPI_ERR_INFO_VALUE ''**infovalnull''))
            else if \<not> flag then Some (Inl info_null_arg)
            else do {
              d \<leftarrow> nodes s a;
              (prev, found) \<leftarrow> find_key same (nodes s) k a (i_next d);
              case found of
                None \<Rightarrow> Some (Inr ([], False))
              | Some b \<Rightarrow> do {
                  n \<leftarrow> nodes s b;
                  v \<leftarrow> i_value n;
                  Some (Inr (MPIU_Strncpy [] v (nat valuelen), True))
                }
            }))"

definition MPI_Info_get_nkeys :: "handle \<Rightarrow> bool \<Rightarrow> infos \<Rightarrow> int outcome" where
  "MPI_Info_get_nkeys info nkeys s =
     (case MpiaInfoValidateHandle info s of
        Inl e \<Rightarrow> Some (Inl e)
      | Inr a \<Rightarrow>
          if \<not> nkeys then Some (Inl info_null_arg)
          else do { d \<leftarrow> nodes s a; n \<leftarrow> count_nodes (nodes s) 0 (i_next d); Some (Inr n) })"

definition MPI_Info_get_nthkey :: "handle \<Rightarrow> int \<Rightarrow> bool \<Rightarrow> infos \<Rightarrow> string outcome" where
  "MPI_Info_get_nthkey info n key s =
     (case MpiaInfoValidateHandle info s of
        Inl e \<Rightarrow> Some (Inl e)
      | Inr a \<Rightarrow>
          if n < 0 then Some (Inl (MPIU_ERR_CREATE MPI_ERR_ARG ''**argneg %s %d''))
          else if \<not> key then Some (Inl (MPIU_ERR_CREATE MPI_ERR_INFO_KEY ''**infokeynull''))
          else do {
            d \<leftarrow> nodes s a;
            (nkeys, found) \<leftarrow> nth_node (nodes s) 0 n (i_next d);
            case found of
              None \<Rightarrow> Some (Inl (MPIU_ERR_CREATE MPI_ERR_ARG ''**infonkey %d %d''))
            | Some b \<Rightarrow> do { x \<leftarrow> nodes s b; k \<leftarrow> i_key x; Some (Inr (MPIU_Strncpy [] k MPI_MAX_INFO_KEY)) }
          })"

definition MPI_Info_get_valuelen ::
  "(string \<Rightarrow> string \<Rightarrow> bool) \<Rightarrow> handle \<Rightarrow> string option \<Rightarrow> bool \<Rightarrow> bool \<Rightarrow> infos \<Rightarrow> (int \<times> bool) outcome" where
  "MPI_Info_get_valuelen same info key valuelen flag s =
     (case MpiaInfoValidateHandle info s of
        Inl e \<Rightarrow> Some (Inl e)
      | Inr a \<Rightarrow> (case MpiaInfoValidateKey key of
          Inl e \<Rightarrow> Some (Inl e)
        | Inr k \<Rightarrow>
            if \<not> valuelen \<or> \<not> flag then Some (Inl info_null_arg)
            else do {
              d \<leftarrow> nodes s a;
              (prev, found) \<leftarrow> find_key same (nodes s) k a (i_next d);
              case found of
                None \<Rightarrow> Some (Inr (0, False))
              | Some b \<Rightarrow> do {
                  n \<leftarrow> nodes s b;
                  v \<leftarrow> i_value n;
                  Some (Inr (case MPIU_Strlen v (MPI_MAX_INFO_VAL + 1) of None \<Rightarrow> - 1 | Some l \<Rightarrow> int l, True))
                }
            }))"

definition MPI_Info_set ::
  "(string \<Rightarrow> string \<Rightarrow> bool) \<Rightarrow> handle \<Rightarrow> string option \<Rightarrow> string option \<Rightarrow> infos \<Rightarrow> (infos \<times> mpi_error option) option" where
  "MPI_Info_set same info key val s =
     (case MpiaInfoValidateHandle info s of
        Inl e \<Rightarrow> Some (s, Some e)
      | Inr a \<Rightarrow> (case MpiaInfoValidateKey key of
          Inl e \<Rightarrow> Some (s, Some e)
        | Inr k \<Rightarrow> (case val of
            None \<Rightarrow> Some (s, Some (MPIU_ERR_CREATE MPI_ERR_INFO_VALUE ''**infovalnull''))
          | Some v \<Rightarrow>
              if MPIU_Strlen v (MPI_MAX_INFO_VAL + 1) = None
              then Some (s, Some (MPIU_ERR_CREATE MPI_ERR_INFO_VALUE ''**infovallong %s %d %d''))
              else do {
                d \<leftarrow> nodes s a;
                (last_ptr, found) \<leftarrow> find_key same (nodes s) k a (i_next d);
                case found of
                  Some b \<Rightarrow> (case MPIU_Strdup v (pool s) of
                      (None, m) \<Rightarrow> Some (s\<lparr>pool := m\<rparr>, Some MPIU_ERR_NOMEM)
                    | (Some tmp, m) \<Rightarrow> do {
                        n \<leftarrow> nodes s b;
                        Some (\<lparr>pool = m, nodes = (nodes s)(b \<mapsto> n\<lparr>i_value := Some tmp\<rparr>)\<rparr>, None)
                      })
                | None \<Rightarrow> (case MPIU_Info_alloc_node (Some k) (Some v) s of
                      (None, s) \<Rightarrow> Some (s, Some MPIU_ERR_NOMEM)
                    | (Some b, s) \<Rightarrow> do {
                        ln \<leftarrow> nodes s last_ptr;
                        Some (s\<lparr>nodes := (nodes s)(last_ptr \<mapsto> ln\<lparr>i_next := Some b\<rparr>)\<rparr>, None)
                      })
              })))"

end
