(* ===== verification/Info_Lists.thy ===== *)
theory Info_Lists
  imports Info_Objects
begin

text \<open>
  Info objects as lists of pairs: what the linked nodes of \<open>Info_Objects\<close> stand for, the operations on
  lists that specify the calls, and what the loops of the code do on a list of nodes.
\<close>

subsection \<open>Lists of pairs\<close>

text \<open>The operations use the first pair with an equal key.\<close>

fun put_kv :: "(string \<Rightarrow> string \<Rightarrow> bool) \<Rightarrow> string \<Rightarrow> string \<Rightarrow> (string \<times> string) list \<Rightarrow> (string \<times> string) list" where
  "put_kv same k v [] = [(k, v)]"
| "put_kv same k v ((k', v') # kvs) = (if same k' k then (k', v) # kvs else (k', v') # put_kv same k v kvs)"

fun del_kv :: "(string \<Rightarrow> string \<Rightarrow> bool) \<Rightarrow> string \<Rightarrow> (string \<times> string) list \<Rightarrow> (string \<times> string) list" where
  "del_kv same k [] = []"
| "del_kv same k ((k', v') # kvs) = (if same k' k then kvs else (k', v') # del_kv same k kvs)"

fun get_kv :: "(string \<Rightarrow> string \<Rightarrow> bool) \<Rightarrow> string \<Rightarrow> (string \<times> string) list \<Rightarrow> string option" where
  "get_kv same k [] = None"
| "get_kv same k ((k', v') # kvs) = (if same k' k then Some v' else get_kv same k kvs)"

text \<open>Either no pair has the key, or there is a first one.\<close>

lemma first_match:
  obtains (None) "\<forall>x\<in>set kvs. \<not> same (fst x) k"
  | (Some) xs k' v' ys where "kvs = xs @ (k', v') # ys" "\<forall>x\<in>set xs. \<not> same (fst x) k" "same k' k"
proof (cases "\<exists>x\<in>set kvs. same (fst x) k")
  case True
  then obtain xs x ys where "kvs = xs @ x # ys" "same (fst x) k" "\<forall>y\<in>set xs. \<not> same (fst y) k"
    by (rule split_list_first_propE)
  then show thesis using that(2) [of xs "fst x" "snd x" ys] by simp
next
  case False
  then show thesis using that(1) by blast
qed

lemma no_match:
  assumes "\<forall>x\<in>set kvs. \<not> same (fst x) k"
  shows "put_kv same k v kvs = kvs @ [(k, v)]" "del_kv same k kvs = kvs" "get_kv same k kvs = None"
  using assms by (induction kvs) auto

lemma match_at:
  assumes "\<forall>x\<in>set xs. \<not> same (fst x) k" "same k' k"
  shows "put_kv same k v (xs @ (k', v') # ys) = xs @ (k', v) # ys"
    "del_kv same k (xs @ (k', v') # ys) = xs @ ys" "get_kv same k (xs @ (k', v') # ys) = Some v'"
  using assms by (induction xs) auto

lemma get_put:
  assumes "equivp same"
  shows "get_kv same j (put_kv same k v kvs) = (if same k j then Some v else get_kv same j kvs)"
proof (induction kvs)
  case (Cons x kvs)
  have "same (fst x) k \<Longrightarrow> same (fst x) j = same k j" "same (fst x) j \<Longrightarrow> same k j \<Longrightarrow> same (fst x) k"
    using assms by (meson equivp_symp equivp_transp)+
  then show ?case using Cons by (cases x) auto
qed simp

lemma get_del:
  assumes "equivp same" "sorted_wrt (\<lambda>x y. \<not> same (fst x) (fst y)) kvs"
  shows "get_kv same j (del_kv same k kvs) = (if same k j then None else get_kv same j kvs)"
  using assms(2)
proof (induction kvs)
  case (Cons x kvs)
  have "same (fst x) k \<Longrightarrow> same (fst x) j = same k j" "same (fst x) j \<Longrightarrow> same k j \<Longrightarrow> same (fst x) k"
    using assms(1) by (meson equivp_symp equivp_transp)+
  moreover have "get_kv same j kvs = None" if "same (fst x) j"
  proof -
    have "\<forall>y\<in>set kvs. \<not> same (fst y) j"
      using Cons.prems that assms(1) by (auto dest: equivp_symp equivp_transp)
    then show ?thesis by (rule no_match)
  qed
  ultimately show ?case using Cons by (cases x) auto
qed simp

subsection \<open>Linked nodes\<close>

text \<open>From \<open>p\<close> the links lead over the nodes \<open>as\<close>, with the given keys and values, to \<open>q\<close>.\<close>

fun node_seg ::
  "(addr \<rightharpoonup> info_node) \<Rightarrow> addr option \<Rightarrow> addr list \<Rightarrow> addr option \<Rightarrow> (string option \<times> string option) list \<Rightarrow> bool" where
  "node_seg N p [] q fs \<longleftrightarrow> p = q \<and> fs = []"
| "node_seg N p (a # as) q fs \<longleftrightarrow> p = Some a \<and>
     (\<exists>n gs. N a = Some n \<and> fs = (i_key n, i_value n) # gs \<and> node_seg N (i_next n) as q gs)"

lemma node_seg_append:
  "node_seg N p (as @ bs) q fs \<longleftrightarrow> (\<exists>r gs hs. fs = gs @ hs \<and> node_seg N p as r gs \<and> node_seg N r bs q hs)"
proof (induction as arbitrary: p fs)
  case (Cons a as)
  show ?case
  proof
    assume "node_seg N p ((a # as) @ bs) q fs"
    then obtain n fs' where "p = Some a" "N a = Some n" "fs = (i_key n, i_value n) # fs'"
      "node_seg N (i_next n) (as @ bs) q fs'" by auto
    then show "\<exists>r gs hs. fs = gs @ hs \<and> node_seg N p (a # as) r gs \<and> node_seg N r bs q hs"
      unfolding Cons.IH by (metis append_Cons node_seg.simps(2))
  next
    assume "\<exists>r gs hs. fs = gs @ hs \<and> node_seg N p (a # as) r gs \<and> node_seg N r bs q hs"
    then obtain r gs hs where "fs = gs @ hs" "node_seg N p (a # as) r gs" "node_seg N r bs q hs" by blast
    then obtain n gs' where "p = Some a" "N a = Some n" "fs = (i_key n, i_value n) # gs' @ hs" "node_seg N (i_next n) as r gs'"
      by auto
    then show "node_seg N p ((a # as) @ bs) q fs" using Cons.IH \<open>node_seg N r bs q hs\<close> by auto
  qed
qed auto

lemma node_seg_length: "node_seg N p as q fs \<Longrightarrow> length as = length fs"
  by (induction N p as q fs rule: node_seg.induct) auto

lemma node_seg_dom: "node_seg N p as q fs \<Longrightarrow> set as \<subseteq> dom N"
  by (induction N p as q fs rule: node_seg.induct) auto

lemma node_seg_frame: "node_seg N p as q fs \<Longrightarrow> \<forall>a\<in>set as. N' a = N a \<Longrightarrow> node_seg N' p as q fs"
  by (induction N p as q fs rule: node_seg.induct) auto

text \<open>Linking the last node elsewhere.\<close>

lemma node_seg_relink:
  assumes "node_seg N p (as @ [a]) q fs" "distinct (as @ [a])" "N a = Some n"
  shows "node_seg (N(a \<mapsto> n\<lparr>i_next := r\<rparr>)) p (as @ [a]) r fs"
proof -
  obtain s gs hs where "fs = gs @ hs" "node_seg N p as s gs" "node_seg N s [a] q hs"
    using assms(1) unfolding node_seg_append by blast
  then show ?thesis
    using assms(2,3) node_seg_frame [of N p as s gs "N(a \<mapsto> n\<lparr>i_next := r\<rparr>)"] unfolding node_seg_append
    by (intro exI [of _ s] exI [of _ gs] exI [of _ hs]) auto
qed

abbreviation pairs :: "(string \<times> string) list \<Rightarrow> (string option \<times> string option) list" where
  "pairs kvs \<equiv> map (\<lambda>(k, v). (Some k, Some v)) kvs"

text \<open>The node list of an info object: a node without a pair comes first.\<close>

definition info_list :: "(addr \<rightharpoonup> info_node) \<Rightarrow> addr list \<Rightarrow> (string \<times> string) list \<Rightarrow> bool" where
  "info_list N as kvs \<longleftrightarrow> as \<noteq> [] \<and> distinct as \<and> node_seg N (Some (hd as)) as None ((None, None) # pairs kvs)"

lemma info_listE:
  assumes "info_list N as kvs"
  obtains a bs d where "as = a # bs" "N a = Some d" "i_key d = None" "i_value d = None"
    "node_seg N (i_next d) bs None (pairs kvs)" "distinct (a # bs)"
  using assms unfolding info_list_def by (cases as) auto

lemma info_list_frame: "info_list N as kvs \<Longrightarrow> \<forall>a\<in>set as. N' a = N a \<Longrightarrow> info_list N' as kvs"
  unfolding info_list_def by (auto intro: node_seg_frame)

lemma info_list_dom: "info_list N as kvs \<Longrightarrow> set as \<subseteq> dom N"
  unfolding info_list_def using node_seg_dom by blast

subsection \<open>The loops over the nodes\<close>

lemma find_key_none:
  "node_seg N p as None (pairs kvs) \<Longrightarrow> \<forall>x\<in>set kvs. \<not> same (fst x) k \<Longrightarrow>
   find_key same N k prev p = Some (last (prev # as), None)"
proof (induction as arbitrary: p kvs prev)
  case Nil
  then show ?case by (subst find_key.simps) simp
next
  case (Cons a as)
  then obtain n k' v' xs where "p = Some a" "N a = Some n" "kvs = (k', v') # xs" "i_key n = Some k'"
    "node_seg N (i_next n) as None (pairs xs)" by (cases kvs) auto
  then show ?case using Cons.IH [of "i_next n" xs a] Cons.prems(2) by (subst find_key.simps) simp
qed

lemma find_key_some:
  "node_seg N p (as @ b # bs) None (pairs (xs @ (k', v') # ys)) \<Longrightarrow> length as = length xs \<Longrightarrow>
   \<forall>x\<in>set xs. \<not> same (fst x) k \<Longrightarrow> same k' k \<Longrightarrow> find_key same N k prev p = Some (last (prev # as), Some b)"
proof (induction as arbitrary: p xs prev)
  case Nil
  then obtain n where "p = Some b" "N b = Some n" "i_key n = Some k'" by auto
  then show ?case using Nil by (subst find_key.simps) simp
next
  case (Cons a as)
  obtain x xs' where xs: "xs = x # xs'" using Cons.prems(2) by (cases xs) auto
  obtain n where n: "p = Some a" "N a = Some n" "i_key n = Some (fst x)"
    "node_seg N (i_next n) (as @ b # bs) None (pairs (xs' @ (k', v') # ys))"
    using Cons.prems(1) xs by (cases x) auto
  have "find_key same N k a (i_next n) = Some (last (a # as), Some b)"
    using Cons.IH [OF n(4)] Cons.prems(2-4) xs by simp
  then show ?case using n(1-3) Cons.prems(3) xs by (subst find_key.simps) simp
qed

lemma count_nodes_seg: "node_seg N p as None fs \<Longrightarrow> count_nodes N n p = Some (n + int (length fs))"
proof (induction as arbitrary: p fs n)
  case Nil
  then show ?case by (subst count_nodes.simps) simp
next
  case (Cons a as)
  then obtain x gs where "p = Some a" "N a = Some x" "fs = (i_key x, i_value x) # gs" "node_seg N (i_next x) as None gs"
    by auto
  then show ?case using Cons.IH [of "i_next x" gs "n + 1"] by (subst count_nodes.simps) simp
qed

lemma nth_node_seg:
  "node_seg N p as None fs \<Longrightarrow>
   nth_node N j (j + int m) p = Some (if m < length as then (j + int m, Some (as ! m)) else (j + int (length as), None))"
proof (induction as arbitrary: p fs j m)
  case Nil
  then show ?case by (subst nth_node.simps) simp
next
  case (Cons a as)
  then obtain x gs where x: "p = Some a" "N a = Some x" "node_seg N (i_next x) as None gs" by auto
  show ?case
  proof (cases m)
    case 0
    then show ?thesis using x by (subst nth_node.simps) simp
  next
    case (Suc i)
    have "nth_node N (j + 1) (j + int m) (i_next x) =
        Some (if i < length as then (j + int m, Some (as ! i)) else (j + int (length (a # as)), None))"
      using Cons.IH [OF x(3), of "j + 1" i] Suc by (simp add: algebra_simps)
    then show ?thesis using x Suc by (subst nth_node.simps) simp
  qed
qed

lemma node_seg_nth:
  "node_seg N p as q fs \<Longrightarrow> i < length fs \<Longrightarrow> \<exists>n. N (as ! i) = Some n \<and> (i_key n, i_value n) = fs ! i"
proof (induction as arbitrary: p fs i)
  case (Cons a as)
  then show ?case by (cases i) auto
qed simp

end
