(* ===== verification/Info_Refine.thy ===== *)
theory Info_Refine
  imports Info_Lists
begin

text \<open>
  The calls on info objects refine operations on lists of pairs: the heap of nodes represents a map
  from handles to lists, every call does to the heap what its specification does to the map, and no node is
  allocated that belongs to no object. The proofs rest on the contract of the allocator (\<open>hm\<close>, the
  interpretation of \<open>handle_pool\<close>).
\<close>

subsection \<open>Allocation of nodes\<close>

definition info_heap :: "infos \<Rightarrow> bool" where
  "info_heap s \<longleftrightarrow> objmem_inv (pool s) (dom (nodes s)) \<and> kind (pool s) = MPID_INFO"

lemma dup_unless_null_frame: "dup_unless_null str m = (r, m') \<Longrightarrow> (\<exists>ms. m' = m\<lparr>mallocs := ms\<rparr>) \<and> (r = None \<or> r = Some str)"
  by (auto simp: dup_unless_null_def MPIU_Strdup_def dest!: malloc_frame split: option.splits prod.splits bool.splits
      intro: exI [of _ "mallocs m"])

lemma alloc_node:
  assumes "info_heap s" "MPIU_Info_alloc_node k v s = (r, s')"
  shows "info_heap s' \<and> (case r of None \<Rightarrow> nodes s' = nodes s
    | Some b \<Rightarrow> nodes s b = None \<and> nodes s' = (nodes s)(b \<mapsto> \<lparr>i_next = None, i_key = k, i_value = v\<rparr>))"
proof -
  obtain p m where m: "MPIU_Handle_obj_alloc (pool s) = (p, m)" by (cases "MPIU_Handle_obj_alloc (pool s)")
  have heap: "objmem_inv (pool s) (dom (nodes s))" "kind m = MPID_INFO"
    using assms(1) obj_alloc_kind [OF m] by (simp_all add: info_heap_def)
  show ?thesis
  proof (cases p)
    case None
    then show ?thesis using assms(2) m heap hm.alloc_fail [OF heap(1)]
      by (auto simp: MPIU_Info_alloc_node_def info_heap_def)
  next
    case (Some b)
    have b: "b \<notin> dom (nodes s)" "objmem_inv m (insert b (dom (nodes s)))"
      using hm.alloc_fresh [OF heap(1)] hm.alloc_inv [OF heap(1)] m Some by auto
    have undo: "info_heap (s\<lparr>pool := MPIU_Handle_obj_free b (m\<lparr>mallocs := ms\<rparr>)\<rparr>)" for ms
      using hm.free_inv [of "m\<lparr>mallocs := ms\<rparr>" "insert b (dom (nodes s))" b] b heap(2)
      by (auto simp: info_heap_def frame_simps)
    obtain kr m1 where k1: "dup_unless_null k m = (kr, m1)" by (cases "dup_unless_null k m")
    obtain vr m2 where k2: "dup_unless_null v m1 = (vr, m2)" by (cases "dup_unless_null v m1")
    obtain ms1 where m1: "m1 = m\<lparr>mallocs := ms1\<rparr>" "kr = None \<or> kr = Some k" using dup_unless_null_frame [OF k1] by blast
    obtain ms2 where m2: "m2 = m\<lparr>mallocs := ms2\<rparr>" "vr = None \<or> vr = Some v"
      using dup_unless_null_frame [OF k2] m1(1) by auto
    show ?thesis
    proof (cases "kr = None \<or> vr = None")
      case True
      then have "r = None \<and> (\<exists>ms. s' = s\<lparr>pool := MPIU_Handle_obj_free b (m\<lparr>mallocs := ms\<rparr>)\<rparr>)"
        using assms(2) m Some k1 k2 m1 m2 by (auto simp: MPIU_Info_alloc_node_def)
      then show ?thesis using undo by auto
    next
      case False
      then have "r = Some b \<and> s' = \<lparr>pool = m2, nodes = (nodes s)(b \<mapsto> \<lparr>i_next = None, i_key = k, i_value = v\<rparr>)\<rparr>"
        using assms(2) m Some k1 k2 m1(2) m2(2) by (auto simp: MPIU_Info_alloc_node_def)
      then show ?thesis using b heap(2) m2(1) by (auto simp: info_heap_def)
    qed
  qed
qed

lemma free_node:
  assumes "info_heap s" "b \<in> dom (nodes s)"
  shows "info_heap (MPIU_Info_free_node b s)" "nodes (MPIU_Info_free_node b s) = (nodes s)(b := None)"
  using assms hm.free_inv [of "pool s" "dom (nodes s)" b]
  by (simp_all add: info_heap_def MPIU_Info_free_node_def frame_simps)

lemma free_list:
  "info_heap s \<Longrightarrow> node_seg (nodes s) p as None fs \<Longrightarrow> distinct as \<Longrightarrow>
   \<exists>s'. MPIU_Info_free_list p s = Some s' \<and> info_heap s' \<and> nodes s' = (nodes s) |` (- set as)"
proof (induction as arbitrary: p fs s)
  case Nil
  then show ?case by (subst MPIU_Info_free_list.simps) (simp add: restrict_map_def)
next
  case (Cons a as)
  obtain n gs where n: "p = Some a" "nodes s a = Some n" "node_seg (nodes s) (i_next n) as None gs"
    using Cons.prems(2) by auto
  let ?s = "MPIU_Info_free_node a s"
  have f: "info_heap ?s" "nodes ?s = (nodes s)(a := None)" using free_node [OF Cons.prems(1), of a] n(2) by auto
  have "node_seg (nodes ?s) (i_next n) as None gs"
    by (rule node_seg_frame [OF n(3)]) (use f(2) n(2) Cons.prems(3) in auto)
  from Cons.IH [OF f(1) this] obtain s' where s': "MPIU_Info_free_list (i_next n) ?s = Some s'" "info_heap s'" "nodes s' = nodes ?s |` (- set as)"
    using Cons.prems(3) by auto
  have "nodes s' = nodes s |` (- set (a # as))"
    using s'(3) f(2) n(2) by (auto simp: restrict_map_def fun_eq_iff)
  then show ?case using s'(1,2) n by (subst MPIU_Info_free_list.simps) simp
qed

subsection \<open>The heap of info objects\<close>

text \<open>
  \<open>G\<close> gives, for the first node of every object, its nodes and its pairs. The objects share no node,
  and together they have all nodes that are allocated.
\<close>

type_synonym info_map = "addr \<rightharpoonup> addr list \<times> (string \<times> string) list"

definition info_rep :: "infos \<Rightarrow> info_map \<Rightarrow> bool" where
  "info_rep s G \<longleftrightarrow> info_heap s \<and>
     (\<forall>a as kvs. G a = Some (as, kvs) \<longrightarrow> hd as = a \<and> info_list (nodes s) as kvs) \<and>
     (\<forall>a b x y. G a = Some x \<longrightarrow> G b = Some y \<longrightarrow> a \<noteq> b \<longrightarrow> set (fst x) \<inter> set (fst y) = {}) \<and>
     dom (nodes s) = (\<Union>x\<in>ran G. set (fst x))"

lemma info_rep_parts:
  assumes "info_rep s G"
  shows "info_heap s" "G a = Some (as, kvs) \<Longrightarrow> hd as = a" "G a = Some (as, kvs) \<Longrightarrow> info_list (nodes s) as kvs"
    "G b = Some x \<Longrightarrow> G c = Some y \<Longrightarrow> b \<noteq> c \<Longrightarrow> set (fst x) \<inter> set (fst y) = {}"
    "dom (nodes s) = (\<Union>x\<in>ran G. set (fst x))"
  using assms unfolding info_rep_def by (blast, blast, blast, metis, blast)

lemma info_repI:
  "info_heap s \<Longrightarrow> (\<And>a as kvs. G a = Some (as, kvs) \<Longrightarrow> hd as = a \<and> info_list (nodes s) as kvs) \<Longrightarrow>
   (\<And>b c x y. G b = Some x \<Longrightarrow> G c = Some y \<Longrightarrow> b \<noteq> c \<Longrightarrow> set (fst x) \<inter> set (fst y) = {}) \<Longrightarrow>
   dom (nodes s) = (\<Union>x\<in>ran G. set (fst x)) \<Longrightarrow> info_rep s G"
  unfolding info_rep_def by simp

lemma info_repE:
  assumes "info_rep s G" "G a = Some (as, kvs)"
  obtains bs d where "as = a # bs" "nodes s a = Some d" "i_key d = None" "i_value d = None"
    "node_seg (nodes s) (i_next d) bs None (pairs kvs)" "distinct (a # bs)" "set (a # bs) \<subseteq> dom (nodes s)"
proof -
  have g: "hd as = a" "info_list (nodes s) as kvs" using assms by (auto simp: info_rep_def)
  obtain b bs d where b: "as = b # bs" "nodes s b = Some d" "i_key d = None" "i_value d = None"
    "node_seg (nodes s) (i_next d) bs None (pairs kvs)" "distinct (b # bs)"
    using info_listE [OF g(2)] by blast
  then show thesis using that [of bs d] g(1) info_list_dom [OF g(2)] by auto
qed

text \<open>One object changes, appears or goes; the nodes of the others stay as they are.\<close>

definition nodes_of :: "info_map \<Rightarrow> addr \<Rightarrow> addr set" where
  "nodes_of G a = (case G a of None \<Rightarrow> {} | Some (as, kvs) \<Rightarrow> set as)"

lemma other_nodes:
  assumes "info_rep s G" "G b = Some y" "b \<noteq> a"
  shows "nodes_of G a \<inter> set (fst y) = {}"
proof (cases "G a")
  case (Some x)
  have "set (fst x) \<inter> set (fst y) = {}" using info_rep_parts(4) [OF assms(1) Some assms(2)] assms(3) by simp
  then show ?thesis using Some by (cases x) (simp add: nodes_of_def)
qed (simp add: nodes_of_def)

lemma map_nodes: "(\<Union>x\<in>ran G. set (fst x)) = nodes_of G a \<union> (\<Union>x\<in>ran (G(a := None)). set (fst x))"
proof (cases "G a")
  case None
  then have "G(a := None) = G" by auto
  then show ?thesis using None by (simp add: nodes_of_def)
next
  case (Some y)
  have "ran G = insert y (ran (G(a := None)))"
  proof (intro subset_antisym subsetI)
    fix x assume "x \<in> ran G"
    then obtain b where "G b = Some x" by (auto simp: ran_def)
    then show "x \<in> insert y (ran (G(a := None)))" using Some by (cases "b = a") (auto simp: ran_def)
  qed (use Some in \<open>auto simp: ran_def split: if_splits\<close>)
  then show ?thesis using Some by (simp add: nodes_of_def split: prod.splits)
qed

lemma all_nodes: "info_rep s G \<Longrightarrow> dom (nodes s) = nodes_of G a \<union> (\<Union>x\<in>ran (G(a := None)). set (fst x))"
  using map_nodes [of G a] by (simp add: info_rep_def)

lemma info_rep_update:
  assumes rep: "info_rep s G" and heap: "info_heap s'"
    and new: "hd as = a" "info_list (nodes s') as kvs" "set as \<inter> dom (nodes s) \<subseteq> nodes_of G a"
    and same: "\<forall>x. x \<notin> nodes_of G a \<union> set as \<longrightarrow> nodes s' x = nodes s x"
    and gone: "\<forall>x \<in> nodes_of G a - set as. nodes s' x = None"
  shows "info_rep s' (G(a \<mapsto> (as, kvs)))"
proof -
  have others: "set (fst y) \<subseteq> dom (nodes s)" "set as \<inter> set (fst y) = {}" "\<forall>x\<in>set (fst y). nodes s' x = nodes s x"
    if "G b = Some y" "b \<noteq> a" for b y
  proof -
    have dis: "nodes_of G a \<inter> set (fst y) = {}" by (rule other_nodes [OF rep that])
    show sub: "set (fst y) \<subseteq> dom (nodes s)" using rep that(1) unfolding info_rep_def by (auto simp: ran_def)
    show int: "set as \<inter> set (fst y) = {}" using sub dis new(3) by blast
    show "\<forall>x\<in>set (fst y). nodes s' x = nodes s x" using dis int same by blast
  qed
  have "dom (nodes s') = set as \<union> (\<Union>x\<in>ran (G(a := None)). set (fst x))"
  proof (intro subset_antisym subsetI)
    fix x assume x: "x \<in> dom (nodes s')"
    show "x \<in> set as \<union> (\<Union>x\<in>ran (G(a := None)). set (fst x))"
    proof (cases "x \<in> nodes_of G a \<union> set as")
      case True
      then show ?thesis using gone x by auto
    next
      case False
      then have "x \<in> dom (nodes s)" using same x by auto
      then show ?thesis using all_nodes [OF rep, of a] False by auto
    qed
  next
    fix x assume "x \<in> set as \<union> (\<Union>x\<in>ran (G(a := None)). set (fst x))"
    then consider "x \<in> set as" | b y where "G b = Some y" "b \<noteq> a" "x \<in> set (fst y)" by (auto simp: ran_def split: if_splits)
    then show "x \<in> dom (nodes s')"
    proof cases
      case 1
      then show ?thesis using info_list_dom [OF new(2)] by auto
    next
      case (2 b y)
      then have "x \<in> dom (nodes s)" "nodes s' x = nodes s x" using others [OF 2(1,2)] by auto
      then show ?thesis by auto
    qed
  qed
  then have "dom (nodes s') = (\<Union>x\<in>ran (G(a \<mapsto> (as, kvs))). set (fst x))"
    by (auto simp: ran_def split: if_splits)
  moreover have "hd bs = b \<and> info_list (nodes s') bs ys" if "(G(a \<mapsto> (as, kvs))) b = Some (bs, ys)" for b bs ys
  proof (cases "b = a")
    case True
    then show ?thesis using that new by auto
  next
    case False
    then have b: "G b = Some (bs, ys)" using that by simp
    then have "hd bs = b" "info_list (nodes s) bs ys" using rep unfolding info_rep_def by blast+
    then show ?thesis using info_list_frame others(3) [OF b False] by simp
  qed
  moreover have "set (fst x) \<inter> set (fst y) = {}"
    if "(G(a \<mapsto> (as, kvs))) b = Some x" "(G(a \<mapsto> (as, kvs))) c = Some y" "b \<noteq> c" for b c x y
  proof (cases "b = a")
    case True
    then show ?thesis using that others(2) [of c y] by auto
  next
    case b: False
    show ?thesis
    proof (cases "c = a")
      case True
      then show ?thesis using that b others(2) [of b x] by auto
    next
      case False
      then show ?thesis using that b info_rep_parts(4) [OF rep, of b x c y] by simp
    qed
  qed
  ultimately show ?thesis using heap by (intro info_repI)
qed

lemma info_rep_remove:
  assumes rep: "info_rep s G" and heap: "info_heap s'" and gone: "nodes s' = nodes s |` (- nodes_of G a)"
  shows "info_rep s' (G(a := None))"
proof -
  have others: "set (fst y) \<inter> nodes_of G a = {}" if "G b = Some y" "b \<noteq> a" for b y
    using other_nodes [OF rep that] by blast
  have "dom (nodes s') = (\<Union>x\<in>ran (G(a := None)). set (fst x))"
  proof -
    have d: "dom (nodes s') = dom (nodes s) - nodes_of G a"
      unfolding gone dom_restrict by (simp add: Diff_eq)
    have x: "set (fst x) \<inter> nodes_of G a = {}" if x: "x \<in> ran (G(a := None))" for x
    proof -
      obtain b where "(G(a := None)) b = Some x" using x unfolding ran_def by blast
      then show ?thesis using others [of b x] by (simp split: if_splits)
    qed
    show ?thesis unfolding d all_nodes [OF rep, of a] using x by blast
  qed
  moreover have "hd bs = b \<and> info_list (nodes s') bs ys" if "(G(a := None)) b = Some (bs, ys)" for b bs ys
  proof -
    have b: "G b = Some (bs, ys)" "b \<noteq> a" using that by (simp_all split: if_splits)
    note parts = info_rep_parts(2,3) [OF rep b(1)]
    have "info_list (nodes s') bs ys"
      by (rule info_list_frame [OF parts(2)]) (use others [OF b] gone in \<open>auto simp: restrict_map_def\<close>)
    then show ?thesis using parts(1) by simp
  qed
  moreover have "set (fst x) \<inter> set (fst y) = {}" if "(G(a := None)) b = Some x" "(G(a := None)) c = Some y" "b \<noteq> c" for b c x y
    using that info_rep_parts(4) [OF rep, of b x c y] by (simp split: if_splits)
  ultimately show ?thesis using heap by (intro info_repI)
qed

end
