(* ===== verification/Info_Calls.thy ===== *)
theory Info_Calls
  imports Info_Refine
begin

text \<open>
  The calls on info objects against their specification: a map from handles to lists of pairs.
\<close>

subsection \<open>Handles\<close>

lemma live_handle:
  assumes "info_heap s" "a \<in> dom (nodes s)"
  shows "handle_at (pool s) a = addr_handle MPID_INFO a" "MpiaInfoValidateHandle (addr_handle MPID_INFO a) s = Inr a"
proof -
  have inv: "objmem_inv (pool s) (dom (nodes s))" "kind (pool s) = MPID_INFO" using assms(1) by (simp_all add: info_heap_def)
  show "handle_at (pool s) a = addr_handle MPID_INFO a" using handle_at_live [OF inv(1) assms(2)] inv(2) by simp
  have a: "a \<in> pool_addrs (pool s)" using live_in_pool [OF inv(1)] assms(2) by blast
  have "HANDLE_GET_MPI_KIND (addr_handle MPID_INFO a) = kind_code MPID_INFO \<and>
      HANDLE_GET_TYPE (addr_handle MPID_INFO a) \<noteq> HANDLE_TYPE_INVALID"
    using a
  proof (cases rule: pool_addrs_cases)
    case (1 i)
    then have "i < 2 ^ 26" using inv(1) by (simp add: objmem_inv_def)
    note f = direct_fields [OF this, of MPID_INFO]
    show ?thesis using 1 direct_handle_kind [OF f] direct_handle_type [OF f]
      by (simp add: direct_handle_def HANDLE_TYPE_DIRECT_def HANDLE_TYPE_INVALID_def)
  next
    case (2 b i)
    then have "b < HANDLE_BLOCK_INDEX_SIZE - 1" "i < HANDLE_BLOCK_SIZE" using inv(1) by (auto simp: objmem_inv_def)
    then have f: "fields_ok HANDLE_TYPE_INDIRECT (kind_code MPID_INFO) b i"
      by (intro indirect_fields) (simp_all add: HANDLE_BLOCK_INDEX_SIZE_def)
    show ?thesis using 2 make_handle_kind [OF f] make_handle_type [OF f]
      by (simp add: indirect_handle_def HANDLE_TYPE_INDIRECT_def HANDLE_TYPE_INVALID_def)
  qed
  moreover have "MPID_Get_ptr (addr_handle MPID_INFO a) (pool s) = Some a"
    using get_ptr_addr [OF inv(1) a] inv(2) by simp
  ultimately show "MpiaInfoValidateHandle (addr_handle MPID_INFO a) s = Inr a"
    by (simp add: MpiaInfoValidateHandle_def)
qed

lemma live_handle_inj:
  assumes "info_heap s" "a \<in> dom (nodes s)" "b \<in> dom (nodes s)" "addr_handle MPID_INFO a = addr_handle MPID_INFO b"
  shows "a = b"
proof -
  have "Inr a = (Inr b :: mpi_error + addr)"
    using live_handle(2) [OF assms(1,2)] unfolding assms(4) live_handle(2) [OF assms(1,3)] by (rule sym)
  then show ?thesis by simp
qed

text \<open>The map from handles to lists that a heap represents.\<close>

type_synonym info_lists = "handle \<rightharpoonup> (string \<times> string) list"

definition handle_lists :: "info_map \<Rightarrow> info_lists \<Rightarrow> bool" where
  "handle_lists G I \<longleftrightarrow> (\<forall>h kvs. I h = Some kvs \<longleftrightarrow> (\<exists>a as. G a = Some (as, kvs) \<and> h = addr_handle MPID_INFO a))"

definition represents :: "infos \<Rightarrow> info_lists \<Rightarrow> bool" where
  "represents s I \<longleftrightarrow> (\<exists>G. info_rep s G \<and> handle_lists G I)"

lemma head_live:
  assumes "info_rep s G" "G a = Some x"
  shows "a \<in> dom (nodes s)"
proof -
  obtain as kvs where x: "G a = Some (as, kvs)" using assms(2) by (cases x) simp
  note parts = info_rep_parts(2,3) [OF assms(1) x]
  then have "a \<in> set as" by (cases as) (auto simp: info_list_def)
  then show ?thesis using info_list_dom [OF parts(2)] by blast
qed

lemma represents_update:
  assumes "info_rep s G" "handle_lists G I" "info_rep s' (G(a \<mapsto> (as, kvs)))"
  shows "represents s' (I(addr_handle MPID_INFO a \<mapsto> kvs))"
proof -
  have heap: "info_heap s'" using assms(3) by (rule info_rep_parts)
  have inj: "b = a" if "addr_handle MPID_INFO b = addr_handle MPID_INFO a" "G b = Some x" for b x
    using live_handle_inj [OF heap] head_live [OF assms(3)] that by (metis domIff fun_upd_apply option.distinct(1))
  have "handle_lists (G(a \<mapsto> (as, kvs))) (I(addr_handle MPID_INFO a \<mapsto> kvs))"
    using assms(2) inj unfolding handle_lists_def fun_upd_apply by (auto split: if_splits) metis
  then show ?thesis using assms(3) unfolding represents_def by blast
qed

lemma represents_remove:
  assumes "info_rep s G" "handle_lists G I" "info_rep s' (G(a := None))" "G a = Some x"
  shows "represents s' (I(addr_handle MPID_INFO a := None))"
proof -
  have heap: "info_heap s" using assms(1) by (rule info_rep_parts)
  have inj: "b = a" if "addr_handle MPID_INFO b = addr_handle MPID_INFO a" "G b = Some y" for b y
    using live_handle_inj [OF heap] head_live [OF assms(1)] that assms(4) by metis
  have "handle_lists (G(a := None)) (I(addr_handle MPID_INFO a := None))"
    using assms(2) inj unfolding handle_lists_def fun_upd_apply by (auto split: if_splits) metis
  then show ?thesis using assms(3) unfolding represents_def by blast
qed

lemma representsE:
  assumes "represents s I" "I h = Some kvs"
  obtains G a bs d where "info_rep s G" "handle_lists G I" "info_heap s" "h = addr_handle MPID_INFO a" "G a = Some (a # bs, kvs)"
    "MpiaInfoValidateHandle h s = Inr a" "nodes s a = Some d" "i_key d = None" "i_value d = None"
    "node_seg (nodes s) (i_next d) bs None (pairs kvs)" "distinct (a # bs)" "nodes_of G a = set (a # bs)"
proof -
  obtain G where G: "info_rep s G" "handle_lists G I" using assms(1) unfolding represents_def by blast
  obtain a as where a: "G a = Some (as, kvs)" "h = addr_handle MPID_INFO a" using assms(2) G(2) unfolding handle_lists_def by blast
  obtain bs d where bs: "as = a # bs" "nodes s a = Some d" "i_key d = None" "i_value d = None"
    "node_seg (nodes s) (i_next d) bs None (pairs kvs)" "distinct (a # bs)"
    using info_repE [OF G(1) a(1)] by blast
  show thesis
    by (rule that [OF G info_rep_parts(1) [OF G(1)] a(2), of bs d])
      (use a bs live_handle(2) [OF info_rep_parts(1) [OF G(1)] head_live [OF G(1) a(1)]] in \<open>simp_all add: nodes_of_def\<close>)
qed

lemma represents_frame: "represents s I \<Longrightarrow> info_heap s' \<Longrightarrow> nodes s' = nodes s \<Longrightarrow> represents s' I"
  unfolding represents_def info_rep_def by auto

lemma info_heap_upd: "info_heap s \<Longrightarrow> a \<in> dom (nodes s) \<Longrightarrow> info_heap (s\<lparr>nodes := (nodes s)(a \<mapsto> n)\<rparr>)"
  by (auto simp: info_heap_def insert_absorb)

subsection \<open>Changing a list of nodes\<close>

lemma node_seg_split:
  "node_seg N p (as @ bs) q (gs @ hs) \<Longrightarrow> length as = length gs \<Longrightarrow> \<exists>r. node_seg N p as r gs \<and> node_seg N r bs q hs"
  using node_seg_length unfolding node_seg_append by (metis append_eq_append_conv)

lemma node_seg_join: "node_seg N p as r gs \<Longrightarrow> node_seg N r bs q hs \<Longrightarrow> node_seg N p (as @ bs) q (gs @ hs)"
  unfolding node_seg_append by blast

text \<open>A new node after the last.\<close>

lemma info_list_append:
  assumes "info_list N as kvs" "b \<notin> set as" "N (last as) = Some n"
    "N' = N(b \<mapsto> \<lparr>i_next = None, i_key = Some k, i_value = Some v\<rparr>, last as \<mapsto> n\<lparr>i_next := Some b\<rparr>)"
  shows "info_list N' (as @ [b]) (kvs @ [(k, v)])"
proof -
  let ?N = "N(b \<mapsto> \<lparr>i_next = None, i_key = Some k, i_value = Some v\<rparr>)"
  have as: "as = butlast as @ [last as]" "distinct as" "b \<noteq> last as"
    using assms(1,2) by (auto simp: info_list_def)
  have "node_seg ?N (Some (hd as)) as None ((None, None) # pairs kvs)"
    by (rule node_seg_frame [of N]) (use assms(1,2) in \<open>auto simp: info_list_def\<close>)
  then have "node_seg N' (Some (hd as)) as (Some b) ((None, None) # pairs kvs)"
    using node_seg_relink [of ?N _ "butlast as" "last as"] as assms(3,4) by simp
  moreover have "node_seg N' (Some b) [b] None (pairs [(k, v)])" using as(3) assms(4) by simp
  ultimately have "node_seg N' (Some (hd as)) (as @ [b]) None (((None, None) # pairs kvs) @ pairs [(k, v)])"
    by (rule node_seg_join)
  then show ?thesis using assms(1,2) by (auto simp: info_list_def)
qed

text \<open>A new value in the node of a pair, and the node of a pair taken out.\<close>

lemma info_list_at:
  assumes "info_list N (a # as @ b # bs) (xs @ (k, v) # ys)" "length as = length xs"
  obtains n where "N b = Some n" "i_key n = Some k" "i_value n = Some v"
    "node_seg N (Some a) (a # as) (Some b) ((None, None) # pairs xs)" "node_seg N (i_next n) bs None (pairs ys)"
proof -
  have "node_seg N (Some a) ((a # as) @ b # bs) None (((None, None) # pairs xs) @ pairs ((k, v) # ys))"
    using assms(1) by (simp add: info_list_def)
  then obtain r where r: "node_seg N (Some a) (a # as) r ((None, None) # pairs xs)"
    "node_seg N r (b # bs) None (pairs ((k, v) # ys))"
    using node_seg_split [of N "Some a" "a # as" "b # bs" None "(None, None) # pairs xs"] assms(2) by auto
  then show thesis using that by auto
qed

lemma info_list_replace:
  assumes "info_list N (a # as @ b # bs) (xs @ (k, v) # ys)" "length as = length xs" "N b = Some n"
  shows "info_list (N(b \<mapsto> n\<lparr>i_value := Some w\<rparr>)) (a # as @ b # bs) (xs @ (k, w) # ys)"
proof -
  let ?N = "N(b \<mapsto> n\<lparr>i_value := Some w\<rparr>)"
  have d: "distinct (a # as @ b # bs)" using assms(1) by (simp add: info_list_def)
  obtain n' where n': "N b = Some n'" "i_key n' = Some k"
    "node_seg N (Some a) (a # as) (Some b) ((None, None) # pairs xs)" "node_seg N (i_next n') bs None (pairs ys)"
    using info_list_at [OF assms(1,2)] by blast
  have "node_seg ?N (Some a) (a # as) (Some b) ((None, None) # pairs xs)"
    by (rule node_seg_frame [OF n'(3)]) (use d in auto)
  moreover have "node_seg ?N (i_next n) bs None (pairs ys)"
    by (rule node_seg_frame [of N]) (use d n' assms(3) in auto)
  then have "node_seg ?N (Some b) (b # bs) None (pairs ((k, w) # ys))" using n' assms(3) by simp
  ultimately have "node_seg ?N (Some a) ((a # as) @ b # bs) None (((None, None) # pairs xs) @ pairs ((k, w) # ys))"
    by (rule node_seg_join)
  then show ?thesis using d by (simp add: info_list_def)
qed

lemma info_list_delete:
  assumes "info_list N (a # as @ b # bs) (xs @ (k, v) # ys)" "length as = length xs" "N b = Some n" "N (last (a # as)) = Some m"
  shows "info_list (N(last (a # as) \<mapsto> m\<lparr>i_next := i_next n\<rparr>, b := None)) (a # as @ bs) (xs @ ys)"
proof -
  let ?N1 = "N(last (a # as) \<mapsto> m\<lparr>i_next := i_next n\<rparr>)"
  have d: "distinct (a # as @ b # bs)" using assms(1) by (simp add: info_list_def)
  have l: "a # as = butlast (a # as) @ [last (a # as)]" by simp
  have nb: "b \<noteq> last (a # as)" "last (a # as) \<notin> set bs" using d last_in_set [of "a # as"] by auto
  obtain n' where n': "N b = Some n'" "i_key n' = Some k"
    "node_seg N (Some a) (a # as) (Some b) ((None, None) # pairs xs)" "node_seg N (i_next n') bs None (pairs ys)"
    using info_list_at [OF assms(1,2)] by blast
  have "distinct (a # as)" using d by auto
  then have "node_seg ?N1 (Some a) (a # as) (i_next n) ((None, None) # pairs xs)"
    using node_seg_relink [of N "Some a" "butlast (a # as)" "last (a # as)" "Some b" "(None, None) # pairs xs" m "i_next n"]
      n'(3) assms(4) by (simp only: l [symmetric])
  then have "node_seg (?N1(b := None)) (Some a) (a # as) (i_next n) ((None, None) # pairs xs)"
    by (rule node_seg_frame) (use d in auto)
  moreover have "node_seg (?N1(b := None)) (i_next n) bs None (pairs ys)"
    by (rule node_seg_frame [of N]) (use n' assms(3) d nb in auto)
  ultimately have "node_seg (?N1(b := None)) (Some a) ((a # as) @ bs) None (((None, None) # pairs xs) @ pairs ys)"
    by (rule node_seg_join)
  then show ?thesis using d by (simp add: info_list_def)
qed

end
