(* ===== verification/Info_Spec.thy ===== *)
theory Info_Spec
  imports Info_Calls
begin

text \<open>
  The calls on info objects refine their specification, one after the other and in the order in which a
  program makes them; and what a program may expect of looking up a key.
\<close>

subsection \<open>The calls that change an object\<close>

lemma update_object:
  assumes rep: "info_rep s G" "handle_lists G I" and heap: "info_heap s'" and G: "nodes_of G a = old"
    and new: "hd as = a" "info_list (nodes s') as kvs" "set as \<inter> dom (nodes s) \<subseteq> old"
    and same: "\<forall>x. x \<notin> old \<union> set as \<longrightarrow> nodes s' x = nodes s x" and gone: "\<forall>x \<in> old - set as. nodes s' x = None"
  shows "represents s' (I(addr_handle MPID_INFO a \<mapsto> kvs))"
  by (rule represents_update [OF rep], rule info_rep_update [OF rep(1) heap new(1,2)]) (use assms in auto)

text \<open>The list of an object, and the place of a key in it.\<close>

lemma found_at:
  assumes "node_seg N p bs None (pairs (xs @ (k, v) # ys))"
  obtains as b cs where "bs = as @ b # cs" "length as = length xs"
proof -
  have l: "length bs = length xs + Suc (length ys)" using node_seg_length [OF assms] by simp
  then have "length xs < length bs" by simp
  then have "bs = take (length xs) bs @ bs ! length xs # drop (Suc (length xs)) bs" by (rule id_take_nth_drop)
  then show thesis using that l by (metis length_take min.absorb2 le_add1)
qed

lemma MPI_Info_set_live:
  assumes rep: "represents s I" "I h = Some kvs" and key: "MpiaInfoValidateKey key = Inr k" and len: "length v \<le> MPI_MAX_INFO_VAL"
  shows "\<exists>s' e. MPI_Info_set same h key (Some v) s = Some (s', e) \<and>
    (e = None \<and> represents s' (I(h \<mapsto> put_kv same k v kvs)) \<or> e = Some MPIU_ERR_NOMEM \<and> represents s' I)"
  using rep
proof (cases rule: representsE)
  case (1 G a bs d)
  have v: "MPIU_Strlen v (Suc MPI_MAX_INFO_VAL) = Some (length v)" using len by (simp add: MPIU_Strlen_def)
  have whole: "info_list (nodes s) (a # bs) kvs" by (rule info_rep_parts(3) [OF 1(1,5)])
  have sub: "set (a # bs) \<subseteq> dom (nodes s)" by (rule info_list_dom [OF whole])
  show ?thesis
  proof (cases rule: first_match [of kvs same k])
    case None
    have l: "last (a # bs) \<in> dom (nodes s)" using sub last_in_set [of "a # bs"] by blast
    obtain r s1 where al: "MPIU_Info_alloc_node (Some k) (Some v) s = (r, s1)" by (cases "MPIU_Info_alloc_node (Some k) (Some v) s")
    note alloc = alloc_node [OF 1(3) al]
    show ?thesis
    proof (cases r)
      case None': None
      then have "MPI_Info_set same h key (Some v) s = Some (s1, Some MPIU_ERR_NOMEM)"
        using 1 key v al find_key_none [where same = same and k = k, OF 1(10) None] by (simp add: MPI_Info_set_def)
      then show ?thesis using represents_frame [OF rep(1)] alloc None' by auto
    next
      case (Some b)
      have b: "nodes s b = None" "nodes s1 = (nodes s)(b \<mapsto> \<lparr>i_next = None, i_key = Some k, i_value = Some v\<rparr>)" "info_heap s1"
        using alloc Some by auto
      have nb: "b \<notin> set (a # bs)" using b(1) sub by auto
      obtain n where n: "nodes s (last (a # bs)) = Some n" using l by blast
      then have n1: "nodes s1 (last (a # bs)) = Some n" using b by auto
      let ?s = "s1\<lparr>nodes := (nodes s1)(last (a # bs) \<mapsto> n\<lparr>i_next := Some b\<rparr>)\<rparr>"
      have run: "MPI_Info_set same h key (Some v) s = Some (?s, None)"
        using 1 key v al Some n1 find_key_none [where same = same and k = k, OF 1(10) None] by (simp add: MPI_Info_set_def del: last.simps)
      have "represents ?s (I(addr_handle MPID_INFO a \<mapsto> kvs @ [(k, v)]))"
      proof (rule update_object [OF 1(1,2) _ 1(12), where as = "(a # bs) @ [b]"])
        show "info_heap ?s" using b(3) n1 by (auto intro: info_heap_upd)
        show "info_list (nodes ?s) ((a # bs) @ [b]) (kvs @ [(k, v)])"
          by (rule info_list_append [OF whole nb n]) (simp add: b(2))
      qed (use b in \<open>auto split: if_splits\<close>)
      then show ?thesis using run 1(4) no_match(1) [where same = same and k = k, OF None] by simp
    qed
  next
    case (Some xs k' v' ys)
    obtain as b cs where bs: "bs = as @ b # cs" "length as = length xs" using found_at 1(10) Some(1) by blast
    have found: "find_key same (nodes s) k a (i_next d) = Some (last (a # as), Some b)"
      using find_key_some [of "nodes s" "i_next d" as b cs xs] 1(10) Some bs by simp
    obtain n where n: "nodes s b = Some n" using sub bs by auto
    obtain t m where m: "MPIU_Strdup v (pool s) = (t, m)" by (cases "MPIU_Strdup v (pool s)")
    obtain ms where ms: "m = (pool s)\<lparr>mallocs := ms\<rparr>" "t = None \<or> t = Some v"
      using dup_unless_null_frame [of "Some v" "pool s"] m by (cases t) (auto simp: dup_unless_null_def)
    have heap: "info_heap (s\<lparr>pool := m\<rparr>)" using 1(3) ms by (simp add: info_heap_def)
    show ?thesis
    proof (cases t)
      case None
      then have "MPI_Info_set same h key (Some v) s = Some (s\<lparr>pool := m\<rparr>, Some MPIU_ERR_NOMEM)"
        using 1 key v m found by (simp add: MPI_Info_set_def)
      then show ?thesis using represents_frame [OF rep(1) heap] by auto
    next
      case t: Some
      let ?s = "\<lparr>pool = m, nodes = (nodes s)(b \<mapsto> n\<lparr>i_value := Some v\<rparr>)\<rparr>"
      have run: "MPI_Info_set same h key (Some v) s = Some (?s, None)"
        using 1 key v m found t n ms(2) by (simp add: MPI_Info_set_def)
      have "represents ?s (I(addr_handle MPID_INFO a \<mapsto> xs @ (k', v) # ys))"
      proof (rule update_object [OF 1(1,2) _ 1(12), where as = "a # bs"])
        show "info_heap ?s" using heap insert_absorb [OF domI [of "nodes s" b, OF n]] by (simp add: info_heap_def)
        show "info_list (nodes ?s) (a # bs) (xs @ (k', v) # ys)"
          using info_list_replace [of "nodes s" a as b cs xs k' v' ys n v] whole bs n Some(1) by simp
      qed (use bs in auto)
      then show ?thesis using run 1(4) match_at(1) [where same = same, OF Some(2,3)] Some(1) by simp
    qed
  qed
qed

lemma MPI_Info_delete_live:
  assumes rep: "represents s I" "I h = Some kvs" and key: "MpiaInfoValidateKey key = Inr k"
  shows "\<exists>s'. MPI_Info_delete same h key s =
      Some (s', if get_kv same k kvs = None then Some (MPIU_ERR_CREATE MPI_ERR_INFO_NOKEY ''**infonokey %s'') else None) \<and>
    represents s' (I(h \<mapsto> del_kv same k kvs))"
  using rep
proof (cases rule: representsE)
  case (1 G a bs d)
  have whole: "info_list (nodes s) (a # bs) kvs" by (rule info_rep_parts(3) [OF 1(1,5)])
  have sub: "set (a # bs) \<subseteq> dom (nodes s)" by (rule info_list_dom [OF whole])
  show ?thesis
  proof (cases rule: first_match [of kvs same k])
    case None
    then have "MPI_Info_delete same h key s = Some (s, Some (MPIU_ERR_CREATE MPI_ERR_INFO_NOKEY ''**infonokey %s''))"
      using 1 key find_key_none [where same = same and k = k, OF 1(10) None] by (simp add: MPI_Info_delete_def)
    moreover have "I(h \<mapsto> kvs) = I" using rep(2) by auto
    ultimately show ?thesis using rep(1) no_match(2,3) [where same = same and k = k, OF None] by simp
  next
    case (Some xs k' v' ys)
    obtain as b cs where bs: "bs = as @ b # cs" "length as = length xs" using found_at 1(10) Some(1) by blast
    have found: "find_key same (nodes s) k a (i_next d) = Some (last (a # as), Some b)"
      using find_key_some [of "nodes s" "i_next d" as b cs xs] 1(10) Some bs by simp
    obtain n where n: "nodes s b = Some n" using sub bs by auto
    have l: "last (a # as) \<in> set (a # as)" by (rule last_in_set) simp
    then obtain m where m: "nodes s (last (a # as)) = Some m" using sub bs by fastforce
    have nb: "last (a # as) \<noteq> b" using l 1(11) bs by auto
    let ?t = "s\<lparr>nodes := (nodes s)(last (a # as) \<mapsto> m\<lparr>i_next := i_next n\<rparr>)\<rparr>"
    have t: "info_heap ?t" "b \<in> dom (nodes ?t)" using m n by (auto intro!: info_heap_upd [OF 1(3)] simp del: last.simps)
    let ?s = "MPIU_Info_free_node b ?t"
    have run: "MPI_Info_delete same h key s = Some (?s, None)"
      using 1 key found n m by (simp add: MPI_Info_delete_def del: last.simps)
    have nodes: "nodes ?s = (nodes s)(last (a # as) \<mapsto> m\<lparr>i_next := i_next n\<rparr>, b := None)" using free_node(2) [OF t] by simp
    have "represents ?s (I(addr_handle MPID_INFO a \<mapsto> xs @ ys))"
    proof (rule update_object [OF 1(1,2) free_node(1) [OF t] 1(12), where as = "a # as @ cs"])
      show "info_list (nodes ?s) (a # as @ cs) (xs @ ys)"
        unfolding nodes using info_list_delete [of "nodes s" a as b cs xs k' v' ys n m] whole bs n m Some(1) by simp
      show "\<forall>x. x \<notin> set (a # bs) \<union> set (a # as @ cs) \<longrightarrow> nodes ?s x = nodes s x"
        unfolding nodes using l bs by auto
      show "\<forall>x\<in>set (a # bs) - set (a # as @ cs). nodes ?s x = None"
        unfolding nodes using bs 1(11) by auto
    qed (use bs in auto)
    then show ?thesis using run 1(4) match_at(2,3) [where same = same, OF Some(2,3)] Some(1) by simp
  qed
qed

lemma MPI_Info_free_live:
  assumes rep: "represents s I" "I h = Some kvs"
  shows "\<exists>s'. MPI_Info_free (Some h) s = Some (s', Some MPI_INFO_NULL, None) \<and> represents s' (I(h := None))"
  using rep
proof (cases rule: representsE)
  case (1 G a bs d)
  have whole: "info_list (nodes s) (a # bs) kvs" by (rule info_rep_parts(3) [OF 1(1,5)])
  obtain s' where s': "MPIU_Info_free_list (Some a) s = Some s'" "info_heap s'" "nodes s' = nodes s |` (- set (a # bs))"
    using free_list [OF 1(3), of "Some a" "a # bs"] whole by (auto simp: info_list_def)
  have "represents s' (I(addr_handle MPID_INFO a := None))"
    by (rule represents_remove [OF 1(1,2) info_rep_remove [OF 1(1) s'(2)] 1(5)]) (use s'(3) 1(12) in simp)
  then show ?thesis using s'(1) 1(4,6) by (simp add: MPI_Info_free_def)
qed

subsection \<open>The calls that make an object\<close>

lemma MPI_Info_create_represents:
  assumes "represents s I"
  shows "\<exists>s' r. MPI_Info_create True s = (s', r) \<and>
    (r = Inl MPIU_ERR_NOMEM \<and> represents s' I \<or> (\<exists>h. r = Inr h \<and> I h = None \<and> represents s' (I(h \<mapsto> []))))"
proof -
  obtain G where G: "info_rep s G" "handle_lists G I" using assms unfolding represents_def by blast
  note heap = info_rep_parts(1) [OF G(1)]
  obtain r s1 where al: "MPIU_Info_alloc_node None None s = (r, s1)" by (cases "MPIU_Info_alloc_node None None s")
  note alloc = alloc_node [OF heap al]
  show ?thesis
  proof (cases r)
    case None
    then show ?thesis using al represents_frame [OF assms] alloc by (simp add: MPI_Info_create_def)
  next
    case (Some a)
    have a: "nodes s a = None" "nodes s1 = (nodes s)(a \<mapsto> \<lparr>i_next = None, i_key = None, i_value = None\<rparr>)" "info_heap s1"
      using alloc Some by auto
    have h: "handle_at (pool s1) a = addr_handle MPID_INFO a" by (rule live_handle(1) [OF a(3)]) (simp add: a(2))
    have Ga: "G a = None" using head_live [OF G(1), of a] a(1) by (cases "G a") auto
    have new: "represents s1 (I(addr_handle MPID_INFO a \<mapsto> []))"
      by (rule update_object [OF G a(3), where as = "[a]" and old = "{}"])
        (use a Ga in \<open>auto simp: nodes_of_def info_list_def\<close>)
    have "I (addr_handle MPID_INFO a) = None"
    proof (rule ccontr)
      assume "I (addr_handle MPID_INFO a) \<noteq> None"
      then obtain b as kvs where b: "G b = Some (as, kvs)" "addr_handle MPID_INFO a = addr_handle MPID_INFO b"
        using G(2) unfolding handle_lists_def by blast
      have "b \<in> dom (nodes s)" by (rule head_live [OF G(1) b(1)])
      then have "a = b" using live_handle_inj [OF a(3) _ _ b(2)] a(2) by auto
      then show False using Ga b(1) by simp
    qed
    then show ?thesis using al Some h new by (simp add: MPI_Info_create_def)
  qed
qed

text \<open>The copy of a list: the nodes made so far, then those still to be copied.\<close>

definition grown :: "infos \<Rightarrow> infos \<Rightarrow> addr list \<Rightarrow> bool" where
  "grown s s' bs \<longleftrightarrow> info_heap s' \<and> set bs \<inter> dom (nodes s) = {} \<and> dom (nodes s') = dom (nodes s) \<union> set bs \<and>
     (\<forall>x\<in>dom (nodes s). nodes s' x = nodes s x)"

lemma grownD:
  assumes "grown s s1 bs"
  shows "x \<in> set bs \<Longrightarrow> \<exists>n. nodes s1 x = Some n" "nodes s x = Some n \<Longrightarrow> nodes s1 x = Some n"
    "x \<notin> set bs \<Longrightarrow> nodes s1 x = nodes s x" "x \<in> set bs \<Longrightarrow> nodes s x = None"
proof -
  have g: "dom (nodes s1) = dom (nodes s) \<union> set bs" "\<forall>x\<in>dom (nodes s). nodes s1 x = nodes s x"
    "set bs \<inter> dom (nodes s) = {}"
    using assms by (simp_all add: grown_def)
  show "\<exists>n. nodes s1 x = Some n" if "x \<in> set bs" using g(1) that by blast
  show "nodes s1 x = Some n" if "nodes s x = Some n" using g(2) that by (metis domI)
  show "nodes s1 x = nodes s x" if "x \<notin> set bs"
  proof (cases "x \<in> dom (nodes s)")
    case False
    then have "x \<notin> dom (nodes s1)" using g(1) that by blast
    then show ?thesis using False by (simp add: domIff)
  qed (use g(2) in blast)
  show "nodes s x = None" if "x \<in> set bs" using g(3) that by blast
qed

lemma dup_step:
  assumes g: "grown s s1 bs" "distinct bs" "bs \<noteq> [] \<Longrightarrow> node_seg (nodes s1) (Some (hd bs)) bs None gs" "bs = [] \<Longrightarrow> gs = []"
    and al: "MPIU_Info_alloc_node k v s1 = (Some b, s2)"
  shows "\<exists>s3. (if bs = [] then s3 = s2 else \<exists>n. nodes s2 (last bs) = Some n \<and> s3 = s2\<lparr>nodes := (nodes s2)(last bs \<mapsto> n\<lparr>i_next := Some b\<rparr>)\<rparr>) \<and>
    grown s s3 (bs @ [b]) \<and> distinct (bs @ [b]) \<and> node_seg (nodes s3) (Some (hd (bs @ [b]))) (bs @ [b]) None (gs @ [(k, v)])"
proof -
  have b: "nodes s1 b = None" "nodes s2 = (nodes s1)(b \<mapsto> \<lparr>i_next = None, i_key = k, i_value = v\<rparr>)" "info_heap s2"
    using alloc_node [OF _ al] g(1) by (auto simp: grown_def)
  have d: "b \<notin> set bs" "b \<notin> dom (nodes s)" using b(1) g(1) by (auto simp: grown_def)
  show ?thesis
  proof (cases "bs = []")
    case True
    then show ?thesis using b d g by (auto simp: grown_def)
  next
    case False
    have l: "bs = butlast bs @ [last bs]" "last bs \<in> set bs" "last bs \<noteq> b" using False d(1) by auto
    obtain n where n: "nodes s1 (last bs) = Some n" using grownD(1) [OF g(1) l(2)] by blast
    let ?s = "s2\<lparr>nodes := (nodes s2)(last bs \<mapsto> n\<lparr>i_next := Some b\<rparr>)\<rparr>"
    have n2: "nodes s2 (last bs) = Some n" using n b(2) l(3) by simp
    have "node_seg (nodes s2) (Some (hd bs)) bs None gs"
      by (rule node_seg_frame [OF g(3) [OF False]]) (use b(2) d(1) in auto)
    then have "node_seg (nodes ?s) (Some (hd bs)) bs (Some b) gs"
      using node_seg_relink [of "nodes s2" "Some (hd bs)" "butlast bs" "last bs" None gs n "Some b"] n2 g(2) l(1) by simp
    moreover have "node_seg (nodes ?s) (Some b) [b] None [(k, v)]" using b(2) l(3) by simp
    ultimately have "node_seg (nodes ?s) (Some (hd bs)) (bs @ [b]) None (gs @ [(k, v)])" by (rule node_seg_join)
    moreover have "grown s ?s (bs @ [b])"
      using g(1) b d l(2) n2 info_heap_upd [OF b(3), of "last bs"] unfolding grown_def by auto
    ultimately show ?thesis using False n2 g(2) d(1) by (intro exI [of _ ?s]) simp
  qed
qed

lemma dup_loop:
  "node_seg (nodes s) p as None fs \<Longrightarrow> grown s s1 bs \<Longrightarrow> distinct bs \<Longrightarrow>
   (bs \<noteq> [] \<Longrightarrow> node_seg (nodes s1) (Some (hd bs)) bs None gs) \<Longrightarrow> (bs = [] \<Longrightarrow> gs = []) \<Longrightarrow>
   \<exists>s' r. dup_loop p (if bs = [] then None else Some (hd bs)) (if bs = [] then None else Some (last bs)) s1 = Some (s', r) \<and>
     (r = Inl MPIU_ERR_NOMEM \<and> info_heap s' \<and> nodes s' = nodes s \<or>
      (\<exists>cs. r = Inr (if cs = [] then None else Some (hd cs)) \<and> grown s s' cs \<and> distinct cs \<and>
        length cs = length bs + length as \<and> (cs \<noteq> [] \<longrightarrow> node_seg (nodes s') (Some (hd cs)) cs None (gs @ fs))))"
proof (induction as arbitrary: p fs s1 bs gs)
  case Nil
  then show ?case by (subst dup_loop.simps) auto
next
  case (Cons a as)
  obtain n fs' where n: "p = Some a" "nodes s a = Some n" "fs = (i_key n, i_value n) # fs'" "node_seg (nodes s) (i_next n) as None fs'"
    using Cons.prems(1) by auto
  have n1: "nodes s1 a = Some n" by (rule grownD(2) [OF Cons.prems(2) n(2)])
  have heap: "info_heap s1" using Cons.prems(2) by (simp add: grown_def)
  let ?hd = "if bs = [] then None else Some (hd bs)" and ?tl = "if bs = [] then None else Some (last bs)"
  obtain r s2 where al: "MPIU_Info_alloc_node (i_key n) (i_value n) s1 = (r, s2)"
    by (cases "MPIU_Info_alloc_node (i_key n) (i_value n) s1")
  show ?case
  proof (cases r)
    case None
    have s2: "info_heap s2" "nodes s2 = nodes s1" using alloc_node [OF heap al] None by auto
    have "node_seg (nodes s2) ?hd bs None gs" using Cons.prems(4,5) s2(2) by auto
    from free_list [OF s2(1) this Cons.prems(3)]
    obtain s3 where s3: "MPIU_Info_free_list ?hd s2 = Some s3" "info_heap s3" "nodes s3 = nodes s2 |` (- set bs)" by blast
    have "nodes s3 = nodes s"
    proof
      fix x
      show "nodes s3 x = nodes s x"
        using grownD(3,4) [OF Cons.prems(2), of x] s2(2) s3(3) by (cases "x \<in> set bs") simp_all
    qed
    moreover have "dup_loop p ?hd ?tl s1 = Some (s3, Inl MPIU_ERR_NOMEM)"
      using n(1) n1 al None s3(1) by (subst dup_loop.simps) simp
    ultimately show ?thesis using s3(2) by blast
  next
    case (Some b)
    obtain s3 where s3: "if bs = [] then s3 = s2 else \<exists>n. nodes s2 (last bs) = Some n \<and> s3 = s2\<lparr>nodes := (nodes s2)(last bs \<mapsto> n\<lparr>i_next := Some b\<rparr>)\<rparr>"
      "grown s s3 (bs @ [b])" "distinct (bs @ [b])"
      "node_seg (nodes s3) (Some (hd (bs @ [b]))) (bs @ [b]) None (gs @ [(i_key n, i_value n)])"
      using dup_step [OF Cons.prems(2-5), of "i_key n" "i_value n" b s2] al Some by blast
    have step: "dup_loop p ?hd ?tl s1 = dup_loop (i_next n) (Some (hd (bs @ [b]))) (Some (last (bs @ [b]))) s3"
      using n(1) n1 al Some s3(1) by (subst dup_loop.simps) (auto split: if_splits)
    show ?thesis
      unfolding step using Cons.IH [OF n(4) s3(2,3), of "gs @ [(i_key n, i_value n)]"] s3(4) n(3) by simp
  qed
qed

end
