(* ===== verification/Info_Properties.thy ===== *)
theory Info_Properties
  imports Info_Spec
begin

text \<open>
  The properties of info objects: every call refines its specification on lists, and what a program may
  expect when it looks up a key.
\<close>

lemma MPI_Info_dup_represents:
  assumes rep: "represents s I" "I h = Some kvs"
  shows "\<exists>s' r. MPI_Info_dup h True s = Some (s', r) \<and>
    (r = Inl MPIU_ERR_NOMEM \<and> represents s' I \<or> (\<exists>g. r = Inr g \<and> I g = None \<and> represents s' (I(g \<mapsto> kvs))))"
  using rep
proof (cases rule: representsE)
  case (1 G a bs d)
  have whole: "info_list (nodes s) (a # bs) kvs" by (rule info_rep_parts(3) [OF 1(1,5)])
  have seg: "node_seg (nodes s) (Some a) (a # bs) None ((None, None) # pairs kvs)" using whole by (simp add: info_list_def)
  have g0: "grown s s []" using 1(3) by (simp add: grown_def)
  obtain s' r where run: "dup_loop (Some a) None None s = Some (s', r)" and
    r: "r = Inl MPIU_ERR_NOMEM \<and> info_heap s' \<and> nodes s' = nodes s \<or>
      (\<exists>cs. r = Inr (if cs = [] then None else Some (hd cs)) \<and> grown s s' cs \<and> distinct cs \<and>
        length cs = length (a # bs) \<and> (cs \<noteq> [] \<longrightarrow> node_seg (nodes s') (Some (hd cs)) cs None ((None, None) # pairs kvs)))"
    using dup_loop [OF seg g0, of "[]"] by auto
  show ?thesis
    using r
  proof (elim disjE exE conjE)
    assume "r = Inl MPIU_ERR_NOMEM" "info_heap s'" "nodes s' = nodes s"
    then show ?thesis using run 1(6) represents_frame [OF rep(1)] by (simp add: MPI_Info_dup_def)
  next
    fix cs assume c: "r = Inr (if cs = [] then None else Some (hd cs))" "grown s s' cs" "distinct cs" "length cs = length (a # bs)"
      "cs \<noteq> [] \<longrightarrow> node_seg (nodes s') (Some (hd cs)) cs None ((None, None) # pairs kvs)"
    have ne: "cs \<noteq> []" using c(4) by auto
    let ?b = "hd cs"
    have heap: "info_heap s'" and fresh: "set cs \<inter> dom (nodes s) = {}" using c(2) by (simp_all add: grown_def)
    have b: "?b \<in> set cs" "?b \<in> dom (nodes s')" using ne grownD(1) [OF c(2), of ?b] by auto
    have Gb: "G ?b = None" using head_live [OF 1(1), of ?b] b(1) fresh by (cases "G ?b") auto
    have "represents s' (I(addr_handle MPID_INFO ?b \<mapsto> kvs))"
    proof (rule update_object [OF 1(1,2) heap, where as = cs and old = "{}"])
      show "info_list (nodes s') cs kvs" using c(3,5) ne by (simp add: info_list_def)
    qed (use Gb fresh grownD(3) [OF c(2)] in \<open>auto simp: nodes_of_def\<close>)
    moreover have "I (addr_handle MPID_INFO ?b) = None"
    proof (rule ccontr)
      assume "I (addr_handle MPID_INFO ?b) \<noteq> None"
      then obtain x as ys where x: "G x = Some (as, ys)" "addr_handle MPID_INFO ?b = addr_handle MPID_INFO x"
        using 1(2) unfolding handle_lists_def by blast
      have xs: "x \<in> dom (nodes s)" by (rule head_live [OF 1(1) x(1)])
      then have "x \<in> dom (nodes s')" using grownD(2) [OF c(2)] by blast
      then have "?b = x" by (rule live_handle_inj [OF heap b(2) _ x(2)])
      then show False using xs b(1) fresh by auto
    qed
    moreover have "MPI_Info_dup h True s = Some (s', Inr (addr_handle MPID_INFO ?b))"
      using run 1(6) c(1) ne live_handle(1) [OF heap b(2)] by (simp add: MPI_Info_dup_def)
    ultimately show ?thesis by blast
  qed
qed

subsection \<open>The calls that read an object\<close>

definition info_lookup :: "(string \<Rightarrow> string \<Rightarrow> bool) \<Rightarrow> handle \<Rightarrow> string \<Rightarrow> infos \<Rightarrow> string option option" where
  "info_lookup same h k s = (case MpiaInfoValidateHandle h s of
     Inl _ \<Rightarrow> None
   | Inr a \<Rightarrow> do {
       d \<leftarrow> nodes s a;
       (prev, found) \<leftarrow> find_key same (nodes s) k a (i_next d);
       case found of None \<Rightarrow> Some None | Some b \<Rightarrow> do { n \<leftarrow> nodes s b; v \<leftarrow> i_value n; Some (Some v) }
     })"

lemma info_lookup_live:
  assumes "represents s I" "I h = Some kvs"
  shows "info_lookup same h k s = Some (get_kv same k kvs)"
  using assms
proof (cases rule: representsE)
  case (1 G a bs d)
  show ?thesis
  proof (cases rule: first_match [of kvs same k])
    case None
    show ?thesis using 1 find_key_none [where same = same and k = k, OF 1(10) None] no_match(3) [where same = same and k = k, OF None]
      by (simp add: info_lookup_def)
  next
    case (Some xs k' v' ys)
    obtain as b cs where bs: "bs = as @ b # cs" "length as = length xs" using found_at 1(10) Some(1) by blast
    have found: "find_key same (nodes s) k a (i_next d) = Some (last (a # as), Some b)"
      using find_key_some [of "nodes s" "i_next d" as b cs xs] 1(10) Some bs by simp
    have "info_list (nodes s) (a # as @ b # cs) (xs @ (k', v') # ys)" using info_rep_parts(3) [OF 1(1,5)] bs Some(1) by simp
    then obtain n where "nodes s b = Some n" "i_value n = Some v'" using info_list_at bs(2) by metis
    then show ?thesis using 1 found match_at(3) [where same = same, OF Some(2,3)] Some(1) by (simp add: info_lookup_def)
  qed
qed

lemma lookup_calls:
  assumes "MpiaInfoValidateHandle h s = Inr a" "info_lookup same h k s = Some w" "MpiaInfoValidateKey key = Inr k"
  shows "0 \<le> valuelen \<Longrightarrow> MPI_Info_get same h key valuelen True True s =
      Some (Inr (case w of None \<Rightarrow> ([], False) | Some v \<Rightarrow> (MPIU_Strncpy [] v (nat valuelen), True)))"
    "MPI_Info_get_valuelen same h key True True s =
      Some (Inr (case w of None \<Rightarrow> (0, False)
        | Some v \<Rightarrow> (case MPIU_Strlen v (MPI_MAX_INFO_VAL + 1) of None \<Rightarrow> - 1 | Some l \<Rightarrow> int l, True)))"
proof -
  obtain d prev found where 1: "nodes s a = Some d" "find_key same (nodes s) k a (i_next d) = Some (prev, found)"
    using assms(1,2) by (auto simp: info_lookup_def bind_eq_Some_conv)
  have 2: "case found of None \<Rightarrow> w = None | Some b \<Rightarrow> (\<exists>n v. nodes s b = Some n \<and> i_value n = Some v \<and> w = Some v)"
    using assms(1,2) 1 by (auto simp: info_lookup_def bind_eq_Some_conv split: option.splits)
  show "0 \<le> valuelen \<Longrightarrow> MPI_Info_get same h key valuelen True True s =
      Some (Inr (case w of None \<Rightarrow> ([], False) | Some v \<Rightarrow> (MPIU_Strncpy [] v (nat valuelen), True)))"
    using assms(1,3) 1 2 by (cases found) (auto simp: MPI_Info_get_def)
  show "MPI_Info_get_valuelen same h key True True s =
      Some (Inr (case w of None \<Rightarrow> (0, False)
        | Some v \<Rightarrow> (case MPIU_Strlen v (MPI_MAX_INFO_VAL + 1) of None \<Rightarrow> - 1 | Some l \<Rightarrow> int l, True)))"
    using assms(1,3) 1 2 by (cases found) (auto simp: MPI_Info_get_valuelen_def)
qed

lemma keys_live:
  assumes "represents s I" "I h = Some kvs"
  shows "MPI_Info_get_nkeys h True s = Some (Inr (int (length kvs)))"
    "0 \<le> n \<Longrightarrow> MPI_Info_get_nthkey h n True s = Some (if n < int (length kvs)
       then Inr (take (MPI_MAX_INFO_KEY - 1) (fst (kvs ! nat n))) else Inl (MPIU_ERR_CREATE MPI_ERR_ARG ''**infonkey %d %d''))"
proof -
  obtain G a bs d where 1: "MpiaInfoValidateHandle h s = Inr a" "nodes s a = Some d" "node_seg (nodes s) (i_next d) bs None (pairs kvs)"
    using assms by (rule representsE)
  have l: "length bs = length kvs" using node_seg_length [OF 1(3)] by simp
  show "MPI_Info_get_nkeys h True s = Some (Inr (int (length kvs)))"
    using 1 count_nodes_seg [OF 1(3), of 0] by (simp add: MPI_Info_get_nkeys_def)
  assume n: "0 \<le> n"
  then obtain m where m: "n = int m" using nonneg_int_cases by blast
  note nth = nth_node_seg [OF 1(3), of 0 m]
  show "MPI_Info_get_nthkey h n True s = Some (if n < int (length kvs)
       then Inr (take (MPI_MAX_INFO_KEY - 1) (fst (kvs ! nat n))) else Inl (MPIU_ERR_CREATE MPI_ERR_ARG ''**infonkey %d %d''))"
  proof (cases "m < length kvs")
    case True
    then obtain x where x: "nodes s (bs ! m) = Some x" "i_key x = Some (fst (kvs ! m))"
      using node_seg_nth [OF 1(3), of m] by (auto split: prod.splits)
    then show ?thesis using True 1 nth m l
      by (simp add: MPI_Info_get_nthkey_def MPIU_Strncpy_def MPI_MAX_INFO_KEY_def)
  next
    case False
    then show ?thesis using 1 nth m l by (simp add: MPI_Info_get_nthkey_def)
  qed
qed

subsection \<open>The specification\<close>

datatype info_call =
    InfoCreate | InfoSet handle "string option" "string option" | InfoDelete handle "string option"
  | InfoDup handle | InfoFree handle | InfoGet handle "string option" int | InfoNkeys handle
  | InfoNthkey handle int | InfoValuelen handle "string option"

datatype info_result =
    NoResult "mpi_error option" | NewInfo "mpi_error + handle" | GotValue "mpi_error + (string \<times> bool)"
  | GotInt "mpi_error + int" | GotKey "mpi_error + string" | GotLength "mpi_error + (int \<times> bool)"

fun info_call_of :: "(string \<Rightarrow> string \<Rightarrow> bool) \<Rightarrow> info_call \<Rightarrow> infos \<Rightarrow> (infos \<times> info_result) option" where
  "info_call_of same InfoCreate s = (let (s, r) = MPI_Info_create True s in Some (s, NewInfo r))"
| "info_call_of same (InfoSet h key v) s = do { (s, e) \<leftarrow> MPI_Info_set same h key v s; Some (s, NoResult e) }"
| "info_call_of same (InfoDelete h key) s = do { (s, e) \<leftarrow> MPI_Info_delete same h key s; Some (s, NoResult e) }"
| "info_call_of same (InfoDup h) s = do { (s, r) \<leftarrow> MPI_Info_dup h True s; Some (s, NewInfo r) }"
| "info_call_of same (InfoFree h) s = do { (s, g, e) \<leftarrow> MPI_Info_free (Some h) s; Some (s, NoResult e) }"
| "info_call_of same (InfoGet h key n) s = do { r \<leftarrow> MPI_Info_get same h key n True True s; Some (s, GotValue r) }"
| "info_call_of same (InfoNkeys h) s = do { r \<leftarrow> MPI_Info_get_nkeys h True s; Some (s, GotInt r) }"
| "info_call_of same (InfoNthkey h n) s = do { r \<leftarrow> MPI_Info_get_nthkey h n True s; Some (s, GotKey r) }"
| "info_call_of same (InfoValuelen h key) s = do { r \<leftarrow> MPI_Info_get_valuelen same h key True True s; Some (s, GotLength r) }"

text \<open>The object a call is on.\<close>

fun call_object :: "info_call \<Rightarrow> handle option" where
  "call_object InfoCreate = None"
| "call_object (InfoSet h _ _) = Some h" | "call_object (InfoDelete h _) = Some h" | "call_object (InfoDup h) = Some h"
| "call_object (InfoFree h) = Some h" | "call_object (InfoGet h _ _) = Some h" | "call_object (InfoNkeys h) = Some h"
| "call_object (InfoNthkey h _) = Some h" | "call_object (InfoValuelen h _) = Some h"

text \<open>An answer that a key makes impossible, or the one for the key.\<close>

definition with_key :: "string option \<Rightarrow> (mpi_error \<Rightarrow> bool) \<Rightarrow> (string \<Rightarrow> bool) \<Rightarrow> bool" where
  "with_key key bad P = (case MpiaInfoValidateKey key of Inl e \<Rightarrow> bad e | Inr k \<Rightarrow> P k)"

text \<open>
  What a call on a live object answers and what the objects are afterwards. A call that allocates may
  fail, and then changes nothing.
\<close>

fun info_spec :: "(string \<Rightarrow> string \<Rightarrow> bool) \<Rightarrow> info_lists \<Rightarrow> info_call \<Rightarrow> info_result \<Rightarrow> info_lists \<Rightarrow> bool" where
  "info_spec same I InfoCreate r I' \<longleftrightarrow>
     r = NewInfo (Inl MPIU_ERR_NOMEM) \<and> I' = I \<or> (\<exists>h. r = NewInfo (Inr h) \<and> I h = None \<and> I' = I(h \<mapsto> []))"
| "info_spec same I (InfoSet h key val) r I' \<longleftrightarrow> with_key key (\<lambda>e. r = NoResult (Some e) \<and> I' = I) (\<lambda>k. case val of
       None \<Rightarrow> r = NoResult (Some (MPIU_ERR_CREATE MPI_ERR_INFO_VALUE ''**infovalnull'')) \<and> I' = I
     | Some v \<Rightarrow>
         if MPI_MAX_INFO_VAL < length v
         then r = NoResult (Some (MPIU_ERR_CREATE MPI_ERR_INFO_VALUE ''**infovallong %s %d %d'')) \<and> I' = I
         else r = NoResult None \<and> I' = I(h \<mapsto> put_kv same k v (the (I h))) \<or> r = NoResult (Some MPIU_ERR_NOMEM) \<and> I' = I)"
| "info_spec same I (InfoDelete h key) r I' \<longleftrightarrow> with_key key (\<lambda>e. r = NoResult (Some e) \<and> I' = I) (\<lambda>k.
     I' = I(h \<mapsto> del_kv same k (the (I h))) \<and>
     r = NoResult (if get_kv same k (the (I h)) = None then Some (MPIU_ERR_CREATE MPI_ERR_INFO_NOKEY ''**infonokey %s'') else None))"
| "info_spec same I (InfoDup h) r I' \<longleftrightarrow>
     r = NewInfo (Inl MPIU_ERR_NOMEM) \<and> I' = I \<or> (\<exists>g. r = NewInfo (Inr g) \<and> I g = None \<and> I' = I(g \<mapsto> the (I h)))"
| "info_spec same I (InfoFree h) r I' \<longleftrightarrow> r = NoResult None \<and> I' = I(h := None)"
| "info_spec same I (InfoGet h key n) r I' \<longleftrightarrow> I' = I \<and> with_key key (\<lambda>e. r = GotValue (Inl e)) (\<lambda>k. r = GotValue
     (if n < 0 then Inl (MPIU_ERR_CREATE MPI_ERR_ARG ''**argneg %s %d'')
      else Inr (case get_kv same k (the (I h)) of None \<Rightarrow> ([], False) | Some v \<Rightarrow> (take (nat n - 1) v, True))))"
| "info_spec same I (InfoNkeys h) r I' \<longleftrightarrow> I' = I \<and> r = GotInt (Inr (int (length (the (I h)))))"
| "info_spec same I (InfoNthkey h n) r I' \<longleftrightarrow> I' = I \<and> r = GotKey
     (if n < 0 then Inl (MPIU_ERR_CREATE MPI_ERR_ARG ''**argneg %s %d'')
      else if n < int (length (the (I h))) then Inr (take (MPI_MAX_INFO_KEY - 1) (fst (the (I h) ! nat n)))
      else Inl (MPIU_ERR_CREATE MPI_ERR_ARG ''**infonkey %d %d''))"
| "info_spec same I (InfoValuelen h key) r I' \<longleftrightarrow> I' = I \<and> with_key key (\<lambda>e. r = GotLength (Inl e)) (\<lambda>k. r = GotLength
     (Inr (case get_kv same k (the (I h)) of None \<Rightarrow> (0, False) | Some v \<Rightarrow> (int (length v), True))))"

text \<open>Values are never longer than \<open>MPI_MAX_INFO_VAL\<close>; the calls keep it so.\<close>

definition short_values :: "info_lists \<Rightarrow> bool" where
  "short_values I \<longleftrightarrow> (\<forall>kvs\<in>ran I. \<forall>x\<in>set kvs. length (snd x) \<le> MPI_MAX_INFO_VAL)"

lemma get_kv_in: "get_kv same k kvs = Some v \<Longrightarrow> \<exists>k'. (k', v) \<in> set kvs"
  by (induction kvs) (auto split: if_splits)

lemma put_kv_in: "x \<in> set (put_kv same k v kvs) \<Longrightarrow> x \<in> set kvs \<or> snd x = v"
  by (induction kvs) (auto split: if_splits)

lemma del_kv_in: "x \<in> set (del_kv same k kvs) \<Longrightarrow> x \<in> set kvs"
  by (induction kvs) (auto split: if_splits)

lemma short_update: "short_values I \<Longrightarrow> (\<And>x. x \<in> set kvs \<Longrightarrow> length (snd x) \<le> MPI_MAX_INFO_VAL) \<Longrightarrow> short_values (I(h \<mapsto> kvs))"
  unfolding short_values_def ran_def by (auto split: if_splits)

lemma short_live: "short_values I \<Longrightarrow> I h = Some kvs \<Longrightarrow> x \<in> set kvs \<Longrightarrow> length (snd x) \<le> MPI_MAX_INFO_VAL"
  unfolding short_values_def ran_def by blast

lemma info_spec_short:
  assumes "short_values I" "info_spec same I c r I'" "\<forall>h. call_object c = Some h \<longrightarrow> h \<in> dom I"
  shows "short_values I'"
proof (cases c)
  case (InfoSet h key val)
  then obtain kvs where kvs: "I h = Some kvs" using assms(3) by auto
  show ?thesis using assms(1,2) InfoSet kvs short_live [OF assms(1) kvs]
    by (auto simp: with_key_def split: sum.splits option.splits if_splits intro!: short_update dest!: put_kv_in)
next
  case (InfoDelete h key)
  then obtain kvs where kvs: "I h = Some kvs" using assms(3) by auto
  show ?thesis using assms(1,2) InfoDelete kvs short_live [OF assms(1) kvs]
    by (auto simp: with_key_def split: sum.splits intro!: short_update dest: del_kv_in)
next
  case (InfoDup h)
  then obtain kvs where kvs: "I h = Some kvs" using assms(3) by auto
  show ?thesis using assms(1,2) InfoDup kvs short_live [OF assms(1) kvs] by (auto intro!: short_update)
next
  case (InfoFree h)
  then show ?thesis using assms(1,2) by (auto simp: short_values_def ran_def split: if_splits)
qed (use assms(1,2) in \<open>auto intro: short_update\<close>)

lemma represents_init: "represents (info_init ms) Map.empty"
proof -
  have "info_rep (info_init ms) Map.empty"
    using objmem_inv_init [of MPID_INFO_PREALLOC MPID_INFO ms]
    by (intro info_repI) (simp_all add: info_heap_def info_init_def MPID_INFO_PREALLOC_def objmem_init_def)
  then show ?thesis unfolding represents_def handle_lists_def by (intro exI [of _ Map.empty]) simp
qed

lemma no_leak:
  assumes "represents s Map.empty"
  shows "nodes s = Map.empty"
proof -
  obtain G where G: "info_rep s G" "handle_lists G Map.empty" using assms unfolding represents_def by blast
  have "G a = None" for a using G(2) unfolding handle_lists_def by (cases "G a") auto
  then have "ran G = {}" by (simp add: ran_def)
  then show ?thesis using info_rep_parts(5) [OF G(1)] by simp
qed

text \<open>The object of a live handle passes the check of the handle; a bad key ends each call that takes one.\<close>

lemma bad_key:
  assumes "represents s I" "h \<in> dom I" "MpiaInfoValidateKey key = Inl e"
  shows "MPI_Info_set same h key val s = Some (s, Some e)" "MPI_Info_delete same h key s = Some (s, Some e)"
    "MPI_Info_get same h key n True True s = Some (Inl e)" "MPI_Info_get_valuelen same h key True True s = Some (Inl e)"
proof -
  obtain kvs where "I h = Some kvs" using assms(2) by blast
  with assms(1) obtain a where "MpiaInfoValidateHandle h s = Inr a" by (rule representsE)
  then show "MPI_Info_set same h key val s = Some (s, Some e)" "MPI_Info_delete same h key s = Some (s, Some e)"
    "MPI_Info_get same h key n True True s = Some (Inl e)" "MPI_Info_get_valuelen same h key True True s = Some (Inl e)"
    using assms(3) by (simp_all add: MPI_Info_set_def MPI_Info_delete_def MPI_Info_get_def MPI_Info_get_valuelen_def)
qed

lemma bad_argument:
  assumes "represents s I" "h \<in> dom I"
  shows "n < 0 \<Longrightarrow> MpiaInfoValidateKey key = Inr k \<Longrightarrow> MPI_Info_get same h key n True True s = Some (Inl (MPIU_ERR_CREATE MPI_ERR_ARG ''**argneg %s %d''))"
    "n < 0 \<Longrightarrow> MPI_Info_get_nthkey h n True s = Some (Inl (MPIU_ERR_CREATE MPI_ERR_ARG ''**argneg %s %d''))"
    "MpiaInfoValidateKey key = Inr k \<Longrightarrow> MPI_Info_set same h key None s = Some (s, Some (MPIU_ERR_CREATE MPI_ERR_INFO_VALUE ''**infovalnull''))"
    "MpiaInfoValidateKey key = Inr k \<Longrightarrow> MPI_MAX_INFO_VAL < length v \<Longrightarrow>
      MPI_Info_set same h key (Some v) s = Some (s, Some (MPIU_ERR_CREATE MPI_ERR_INFO_VALUE ''**infovallong %s %d %d''))"
proof -
  obtain kvs where "I h = Some kvs" using assms(2) by blast
  with assms(1) obtain a where a: "MpiaInfoValidateHandle h s = Inr a" by (rule representsE)
  show "n < 0 \<Longrightarrow> MpiaInfoValidateKey key = Inr k \<Longrightarrow> MPI_Info_get same h key n True True s = Some (Inl (MPIU_ERR_CREATE MPI_ERR_ARG ''**argneg %s %d''))"
    "n < 0 \<Longrightarrow> MPI_Info_get_nthkey h n True s = Some (Inl (MPIU_ERR_CREATE MPI_ERR_ARG ''**argneg %s %d''))"
    "MpiaInfoValidateKey key = Inr k \<Longrightarrow> MPI_Info_set same h key None s = Some (s, Some (MPIU_ERR_CREATE MPI_ERR_INFO_VALUE ''**infovalnull''))"
    "MpiaInfoValidateKey key = Inr k \<Longrightarrow> MPI_MAX_INFO_VAL < length v \<Longrightarrow>
      MPI_Info_set same h key (Some v) s = Some (s, Some (MPIU_ERR_CREATE MPI_ERR_INFO_VALUE ''**infovallong %s %d %d''))"
    using a by (simp_all add: MPI_Info_set_def MPI_Info_get_def MPI_Info_get_nthkey_def MPIU_Strlen_def)
qed

lemma get_live:
  assumes "represents s I" "I h = Some kvs" "MpiaInfoValidateKey key = Inr k"
  shows "0 \<le> n \<Longrightarrow> MPI_Info_get same h key n True True s =
      Some (Inr (case get_kv same k kvs of None \<Rightarrow> ([], False) | Some v \<Rightarrow> (take (nat n - 1) v, True)))"
    "short_values I \<Longrightarrow> MPI_Info_get_valuelen same h key True True s =
      Some (Inr (case get_kv same k kvs of None \<Rightarrow> (0, False) | Some v \<Rightarrow> (int (length v), True)))"
proof -
  obtain a where a: "MpiaInfoValidateHandle h s = Inr a" using assms(1,2) by (rule representsE)
  note l = lookup_calls [OF a info_lookup_live [OF assms(1,2)] assms(3)]
  show "0 \<le> n \<Longrightarrow> MPI_Info_get same h key n True True s =
      Some (Inr (case get_kv same k kvs of None \<Rightarrow> ([], False) | Some v \<Rightarrow> (take (nat n - 1) v, True)))"
    using l(1) by (auto simp: MPIU_Strncpy_def split: option.splits)
  assume short: "short_values I"
  have "length v \<le> MPI_MAX_INFO_VAL" if "get_kv same k kvs = Some v" for v
    using get_kv_in [OF that] short_live [OF short assms(2)] by fastforce
  then show "MPI_Info_get_valuelen same h key True True s =
      Some (Inr (case get_kv same k kvs of None \<Rightarrow> (0, False) | Some v \<Rightarrow> (int (length v), True)))"
    using l(2) by (auto simp: MPIU_Strlen_def split: option.splits)
qed

subsection \<open>Refinement\<close>

text \<open>C6: every call on info objects, on handles of objects that are not freed, does what its specification says:
the heap of nodes goes on representing the map from handles to lists of pairs, changed as specified, and the
answer is the specified one (a bad key or argument is reported and changes nothing; a failed allocation changes
nothing). When all objects are freed no node is left. The heap at start represents the empty map.\<close>

theorem MPI_Info_refines_lists:
  assumes rep: "represents s I" "short_values I" and live: "\<forall>h. call_object c = Some h \<longrightarrow> h \<in> dom I"
  shows "represents (info_init ms) Map.empty \<and>
    (\<exists>s' r I'. info_call_of same c s = Some (s', r) \<and> info_spec same I c r I' \<and> represents s' I' \<and> short_values I' \<and>
      (I' = Map.empty \<longrightarrow> nodes s' = Map.empty))"
proof -
  have "\<exists>s' r I'. info_call_of same c s = Some (s', r) \<and> info_spec same I c r I' \<and> represents s' I'"
  proof (cases c)
    case InfoCreate
    then show ?thesis using MPI_Info_create_represents [OF rep(1)] by fastforce
  next
    case (InfoSet h key val)
    then obtain kvs where kvs: "I h = Some kvs" using live by auto
    have h: "h \<in> dom I" using kvs by blast
    show ?thesis
    proof (cases "MpiaInfoValidateKey key")
      case (Inl e)
      then show ?thesis using InfoSet bad_key(1) [OF rep(1) h Inl] rep(1) by (auto simp: with_key_def)
    next
      case (Inr k)
      show ?thesis
      proof (cases "\<exists>v. val = Some v \<and> length v \<le> MPI_MAX_INFO_VAL")
        case True
        then obtain v where v: "val = Some v" "length v \<le> MPI_MAX_INFO_VAL" by blast
        then show ?thesis using InfoSet Inr kvs MPI_Info_set_live [OF rep(1) kvs Inr v(2), of same]
          by (fastforce simp: with_key_def)
      next
        case False
        then show ?thesis using InfoSet Inr bad_argument(3,4) [OF rep(1) h Inr] rep(1)
          by (cases val) (auto simp: with_key_def)
      qed
    qed
  next
    case (InfoDelete h key)
    then obtain kvs where kvs: "I h = Some kvs" using live by auto
    show ?thesis
    proof (cases "MpiaInfoValidateKey key")
      case (Inl e)
      then show ?thesis using InfoDelete bad_key(2) [OF rep(1) domI [of I, OF kvs] Inl] rep(1) by (auto simp: with_key_def)
    next
      case (Inr k)
      then show ?thesis using InfoDelete kvs MPI_Info_delete_live [OF rep(1) kvs Inr, of same] by (auto simp: with_key_def)
    qed
  next
    case (InfoDup h)
    then obtain kvs where kvs: "I h = Some kvs" using live by auto
    then show ?thesis using InfoDup MPI_Info_dup_represents [OF rep(1) kvs] by fastforce
  next
    case (InfoFree h)
    then obtain kvs where kvs: "I h = Some kvs" using live by auto
    then show ?thesis using InfoFree MPI_Info_free_live [OF rep(1) kvs] by auto
  next
    case (InfoGet h key n)
    then obtain kvs where kvs: "I h = Some kvs" using live by auto
    show ?thesis
    proof (cases "MpiaInfoValidateKey key")
      case (Inl e)
      then show ?thesis using InfoGet bad_key(3) [OF rep(1) domI [of I, OF kvs] Inl] rep(1) by (auto simp: with_key_def)
    next
      case (Inr k)
      then show ?thesis using InfoGet kvs get_live(1) [OF rep(1) kvs Inr] bad_argument(1) [OF rep(1) domI [of I, OF kvs]] rep(1)
        by (cases "n < 0") (auto simp: with_key_def)
    qed
  next
    case (InfoNkeys h)
    then obtain kvs where kvs: "I h = Some kvs" using live by auto
    then show ?thesis using InfoNkeys keys_live(1) [OF rep(1) kvs] rep(1) by auto
  next
    case (InfoNthkey h n)
    then obtain kvs where kvs: "I h = Some kvs" using live by auto
    then show ?thesis using InfoNthkey keys_live(2) [OF rep(1) kvs] bad_argument(2) [OF rep(1) domI [of I, OF kvs]] rep(1)
      by (cases "n < 0") auto
  next
    case (InfoValuelen h key)
    then obtain kvs where kvs: "I h = Some kvs" using live by auto
    show ?thesis
    proof (cases "MpiaInfoValidateKey key")
      case (Inl e)
      then show ?thesis using InfoValuelen bad_key(4) [OF rep(1) domI [of I, OF kvs] Inl] rep(1) by (auto simp: with_key_def)
    next
      case (Inr k)
      then show ?thesis using InfoValuelen kvs get_live(2) [OF rep(1) kvs Inr rep(2)] rep(1) by (auto simp: with_key_def)
    qed
  qed
  then show ?thesis using represents_init info_spec_short [OF rep(2) _ live] no_leak by blast
qed

lemma MPI_Info_refines_lists_witness:
  "\<exists>s' r I'. info_call_of (=) InfoCreate (info_init []) = Some (s', r) \<and> info_spec (=) Map.empty InfoCreate r I' \<and> represents s' I'"
  using MPI_Info_refines_lists [OF represents_init [of "[]"], of InfoCreate "[]" "(=)"] by (auto simp: short_values_def)

text \<open>C40: after \<open>MPI_Info_set\<close> has stored a value, \<open>MPI_Info_get\<close> of every key that is equal to the key
gives that value, cut to the length of the buffer, and of every other key what it gave before; so for any equality
of keys that is an equivalence.\<close>

theorem MPI_Info_set_get:
  assumes rep: "represents s I" "h \<in> dom I" and eq: "equivp same"
    and keys: "MpiaInfoValidateKey (Some k) = Inr k" "MpiaInfoValidateKey (Some j) = Inr j" and n: "0 \<le> n"
    and set: "MPI_Info_set same h (Some k) (Some v) s = Some (s', None)"
  shows "MPI_Info_get same h (Some j) n True True s' =
    (if same k j then Some (Inr (take (nat n - 1) v, True)) else MPI_Info_get same h (Some j) n True True s)"
proof -
  obtain kvs where kvs: "I h = Some kvs" using rep(2) by blast
  have "length v \<le> MPI_MAX_INFO_VAL"
    using bad_argument(4) [OF rep keys(1), of v same] set by (cases "MPI_MAX_INFO_VAL < length v") auto
  then have "represents s' (I(h \<mapsto> put_kv same k v kvs))"
    using MPI_Info_set_live [OF rep(1) kvs keys(1), of v same] set by (auto simp: MPIU_ERR_NOMEM_def)
  then show ?thesis
    using get_live(1) [OF _ _ keys(2) n, where same = same] kvs rep(1) by (simp add: get_put [OF eq])
qed

text \<open>The first info object of a process.\<close>

definition demo_infos :: infos where
  "demo_infos = fst (MPI_Info_create True (info_init []))"

definition demo_info :: handle where
  "demo_info = addr_handle MPID_INFO (Direct 0)"

lemma demo_info_represents: "\<exists>I. represents demo_infos I \<and> demo_info \<in> dom I"
proof -
  have "snd (MPI_Info_create True (info_init [])) = Inr demo_info" by code_simp
  then show ?thesis using MPI_Info_create_represents [OF represents_init [of "[]"]] 
    by (cases "MPI_Info_create True (info_init [])") (auto simp: demo_infos_def)
qed

lemma MPI_Info_set_get_witness:
  "\<exists>s'. MPI_Info_set (=) demo_info (Some ''host'') (Some ''node7'') demo_infos = Some (s', None) \<and>
    MPI_Info_get (=) demo_info (Some ''host'') 5 True True s' = Some (Inr (''node'', True))"
proof -
  obtain I where I: "represents demo_infos I" "demo_info \<in> dom I" using demo_info_represents by blast
  have "map_option snd (MPI_Info_set (=) demo_info (Some ''host'') (Some ''node7'') demo_infos) = Some None" by code_simp
  then obtain s' where s': "MPI_Info_set (=) demo_info (Some ''host'') (Some ''node7'') demo_infos = Some (s', None)" by auto
  have key: "MpiaInfoValidateKey (Some ''host'') = Inr ''host''" by code_simp
  show ?thesis using MPI_Info_set_get [OF I identity_equivp key key _ s', of 5] s' by simp
qed

text \<open>A key of 255 characters, which \<open>MPI_Info_set\<close> takes, is one character shorter in the answer of
\<open>MPI_Info_get_nthkey\<close>.\<close>

lemma nthkey_cuts_longest_key:
  assumes "represents s I" "I h = Some [(replicate 255 c, v)]"
  shows "MpiaInfoValidateKey (Some (replicate 255 c)) = Inr (replicate 255 c)"
    "MPI_Info_get_nthkey h 0 True s = Some (Inr (replicate 254 c))"
  using keys_live(2) [OF assms, of 0]
  by (simp_all add: MpiaInfoValidateKey_def MPIU_Strlen_def MPI_MAX_INFO_KEY_def)

end
