(* ===== verification/Lpid_Sort.thy ===== *)
theory Lpid_Sort
  imports Prelude "HOL-Library.Multiset"
begin

text \<open>
  The process map of a group and the merge sort that threads it in order of local process ids
  (\<open>src/mpi/msmpi/mpid/group.cpp\<close>, \<open>MPIR_Mergesort_lpidarray\<close>). The array is not moved: sorting
  sets the \<open>next_lpid\<close> index of every entry, and the links of the upper half are relative to the
  middle of the array until the two halves are merged. The loops are partial functions (\<open>None\<close>:
  an access out of bounds, or no return); the main lemma says they always succeed and that the
  links spell out the stable sort of the indices by lpid.
\<close>

subsection \<open>Data\<close>

record MPID_Group_pmap_t =
  lrank :: int
  lpid :: int
  next_lpid :: int
  flag :: int

type_synonym pmap_array = "MPID_Group_pmap_t list"

definition set_next_lpid :: "pmap_array \<Rightarrow> int \<Rightarrow> int \<Rightarrow> pmap_array option" where
  "set_next_lpid a i v = do { e \<leftarrow> rd a i; wr a i (e\<lparr>next_lpid := v\<rparr>) }"

subsection \<open>The sort\<close>

text \<open>
  \<open>while (idx1 >= 0 && idx2 >= 0)\<close>: append the smaller head to the merged list, whose last
  element is \<open>cur_idx\<close>. \<open>idx1\<close> and \<open>idx2\<close> are absolute, the stored links of the second list are
  relative to \<open>idx2_offset\<close>.
\<close>

partial_function (option) merge_loop ::
  "int \<Rightarrow> pmap_array \<Rightarrow> int \<Rightarrow> int \<Rightarrow> int \<Rightarrow> (pmap_array \<times> int \<times> int \<times> int) option" where
  "merge_loop idx2_offset a cur_idx idx1 idx2 =
     (if 0 \<le> idx1 \<and> 0 \<le> idx2 then do {
        e1 \<leftarrow> rd a idx1;
        e2 \<leftarrow> rd a idx2;
        if lpid e1 > lpid e2 then do {
          a' \<leftarrow> set_next_lpid a cur_idx idx2;
          merge_loop idx2_offset a' idx2 idx1
            (if 0 \<le> next_lpid e2 then next_lpid e2 + idx2_offset else next_lpid e2)
        } else do {
          a' \<leftarrow> set_next_lpid a cur_idx idx1;
          merge_loop idx2_offset a' idx1 (next_lpid e1) idx2
        }
      } else Some (a, cur_idx, idx1, idx2))"

text \<open>The rest of the second list: make its links absolute.\<close>

partial_function (option) rebase_loop :: "int \<Rightarrow> pmap_array \<Rightarrow> int \<Rightarrow> pmap_array option" where
  "rebase_loop idx2_offset a idx2 =
     (if 0 \<le> idx2 then do {
        e \<leftarrow> rd a idx2;
        if 0 \<le> next_lpid e then do {
          a' \<leftarrow> set_next_lpid a idx2 (next_lpid e + idx2_offset);
          rebase_loop idx2_offset a' (next_lpid e + idx2_offset)
        } else rebase_loop idx2_offset a (next_lpid e)
      } else Some a)"

text \<open>Merging: the loop, then "Add whichever list remains".\<close>

definition merge_lists :: "int \<Rightarrow> pmap_array \<Rightarrow> int \<Rightarrow> int \<Rightarrow> int \<Rightarrow> pmap_array option" where
  "merge_lists idx2_offset a cur_idx idx1 idx2 = do {
     (b, cur, i1, i2) \<leftarrow> merge_loop idx2_offset a cur_idx idx1 idx2;
     if 0 \<le> i1 then set_next_lpid b cur i1
     else do { b' \<leftarrow> set_next_lpid b cur i2; rebase_loop idx2_offset b' i2 }
   }"

function MPIR_Mergesort_lpidarray :: "pmap_array \<Rightarrow> (int \<times> pmap_array) option" where
  "MPIR_Mergesort_lpidarray a =
     (if length a = 2 then
        (if lpid (a ! 0) > lpid (a ! 1)
         then Some (1, [(a ! 0)\<lparr>next_lpid := - 1\<rparr>, (a ! 1)\<lparr>next_lpid := 0\<rparr>])
         else Some (0, [(a ! 0)\<lparr>next_lpid := 1\<rparr>, (a ! 1)\<lparr>next_lpid := - 1\<rparr>]))
      else if length a = 1 then Some (0, [(a ! 0)\<lparr>next_lpid := - 1\<rparr>])
      else if length a = 0 then Some (- 1, a)
      else do {
        let off = length a div 2;
        (idx1, lower) \<leftarrow> MPIR_Mergesort_lpidarray (take off a);
        (rel2, upper) \<leftarrow> MPIR_Mergesort_lpidarray (drop off a);
        let b = lower @ upper;
        let idx2 = rel2 + int off;
        e1 \<leftarrow> rd b idx1;
        e2 \<leftarrow> rd b idx2;
        if lpid e1 > lpid e2 then do {
          c \<leftarrow> merge_lists (int off) b idx2 idx1 (next_lpid e2 + int off);
          Some (idx2, c)
        } else do {
          c \<leftarrow> merge_lists (int off) b idx1 (next_lpid e1) idx2;
          Some (idx1, c)
        }
      })"
  by pat_completeness auto
termination
proof (relation "measure length")
  fix a :: pmap_array and off :: nat
  assume "length a \<noteq> 2" "length a \<noteq> 1" "length a \<noteq> 0" "off = length a div 2"
  then have "off < length a" "0 < off" by arith+
  then show "(take off a, a) \<in> measure length" "(drop off a, a) \<in> measure length"
    by simp_all
qed simp

declare MPIR_Mergesort_lpidarray.simps [simp del]

subsection \<open>Merging sorted index lists\<close>

text \<open>The merge the loop performs on the lists of indices; ties go to the first list.\<close>

fun imerge :: "(nat \<Rightarrow> int) \<Rightarrow> nat list \<Rightarrow> nat list \<Rightarrow> nat list" where
  "imerge f [] ys = ys"
| "imerge f xs [] = xs"
| "imerge f (x # xs) (y # ys) =
     (if f x > f y then y # imerge f (x # xs) ys else x # imerge f xs (y # ys))"

lemma imerge_Nil2 [simp]: "imerge f xs [] = xs"
  by (cases xs) auto

lemma mset_imerge [simp]: "mset (imerge f xs ys) = mset xs + mset ys"
  by (induction f xs ys rule: imerge.induct) auto

lemma set_imerge [simp]: "set (imerge f xs ys) = set xs \<union> set ys"
  by (metis mset_imerge set_mset_mset set_mset_union)

lemma sorted_imerge:
  "sorted (map f xs) \<Longrightarrow> sorted (map f ys) \<Longrightarrow> sorted (map f (imerge f xs ys))"
  by (induction f xs ys rule: imerge.induct) (auto simp: le_less_trans less_imp_le)

lemma filter_imerge:
  assumes "sorted (map f xs)" "sorted (map f ys)"
  shows "filter (\<lambda>z. v = f z) (imerge f xs ys) = filter (\<lambda>z. v = f z) xs @ filter (\<lambda>z. v = f z) ys"
  using assms
proof (induction f xs ys rule: imerge.induct)
  case (3 f x xs y ys)
  have none: "filter (\<lambda>z. v = f z) (x # xs) = []" if "f y < f x" "v = f y"
    using "3.prems"(1) that by (fastforce simp: filter_empty_conv)
  show ?case
  proof (cases "f y < f x")
    case True
    then show ?thesis
      using 3 none by (cases "v = f y") auto
  qed (use 3 in auto)
qed auto

lemma filter_sort_key: "filter (\<lambda>z. v = f z) (sort_key f xs) = filter (\<lambda>z. v = f z) xs"
  using sort_key_stable [of f v xs] by (simp add: eq_commute)

lemma imerge_sort_key:
  "imerge f (sort_key f xs) (sort_key f ys) = sort_key f (xs @ ys)"
  by (rule properties_for_sort_key [symmetric]) (auto simp: filter_imerge filter_sort_key sorted_imerge)

lemma sort_key_shift:
  "map ((+) d) (sort_key (\<lambda>k. f (d + k)) xs) = sort_key f (map ((+) d) xs)"
  by (rule properties_for_sort_key [symmetric])
    (simp_all add: filter_map filter_sort_key comp_def)

subsection \<open>Lists threaded through the array\<close>

text \<open>
  \<open>linked a off p ks\<close>: starting at the stored index \<open>p\<close> and following \<open>next_lpid\<close>, with every
  stored index relative to \<open>off\<close>, one visits the relative indices \<open>ks\<close> and meets \<open>-1\<close>.
\<close>

fun head_ptr :: "nat list \<Rightarrow> int" where
  "head_ptr [] = - 1"
| "head_ptr (k # ks) = int k"

fun threaded :: "pmap_array \<Rightarrow> nat \<Rightarrow> nat list \<Rightarrow> bool" where
  "threaded a off [] = True"
| "threaded a off (k # ks) \<longleftrightarrow>
     off + k < length a \<and> next_lpid (a ! (off + k)) = head_ptr ks \<and> threaded a off ks"

definition linked :: "pmap_array \<Rightarrow> nat \<Rightarrow> int \<Rightarrow> nat list \<Rightarrow> bool" where
  "linked a off p ks \<longleftrightarrow> p = head_ptr ks \<and> threaded a off ks"

lemma head_ptr_nonneg [simp]: "0 \<le> head_ptr ks \<longleftrightarrow> ks \<noteq> []"
  by (cases ks) auto

lemma threaded_bound: "threaded a off ks \<Longrightarrow> k \<in> set ks \<Longrightarrow> off + k < length a"
  by (induction ks) auto

lemma threaded_upd_other [simp]:
  "\<forall>k\<in>set ks. off + k \<noteq> j \<Longrightarrow> threaded a off ks \<Longrightarrow> threaded (a[j := e]) off ks"
  by (induction ks) auto

lemma threaded_same_next:
  "threaded a off ks \<Longrightarrow> length b = length a \<Longrightarrow>
   (\<And>k. k \<in> set ks \<Longrightarrow> next_lpid (b ! (off + k)) = next_lpid (a ! (off + k))) \<Longrightarrow> threaded b off ks"
  by (induction ks) auto

lemma threaded_append1: "threaded a 0 ks \<Longrightarrow> threaded (a @ b) 0 ks"
  by (induction ks) (auto simp: nth_append)

lemma threaded_append2: "threaded b 0 ks \<Longrightarrow> threaded (a @ b) (length a) ks"
  by (induction ks) auto

text \<open>Everything but the links: what sorting leaves alone.\<close>

definition forget_links :: "pmap_array \<Rightarrow> pmap_array" where
  "forget_links a = map (\<lambda>e. e\<lparr>next_lpid := 0\<rparr>) a"

lemma forget_links_upd [simp]:
  "forget_links (a[k := (a ! k)\<lparr>next_lpid := v\<rparr>]) = forget_links a"
proof (cases "k < length a")
  case True
  then have "(map (\<lambda>e. e\<lparr>next_lpid := 0\<rparr>) a)[k := (a ! k)\<lparr>next_lpid := 0\<rparr>] =
      map (\<lambda>e. e\<lparr>next_lpid := 0\<rparr>) a"
    by (metis list_update_id map_update)
  then show ?thesis by (simp add: forget_links_def map_update)
qed (simp add: not_less list_update_beyond)

lemma forget_links_append [simp]: "forget_links (a @ b) = forget_links a @ forget_links b"
  by (simp add: forget_links_def)

lemma length_forget_links: "length (forget_links a) = length a"
  by (simp add: forget_links_def)

lemma forget_links_length: "forget_links a = forget_links b \<Longrightarrow> length a = length b"
  using length_forget_links [of a] length_forget_links [of b] by simp

lemma nth_forget_links: "k < length a \<Longrightarrow> forget_links a ! k = (a ! k)\<lparr>next_lpid := 0\<rparr>"
  by (simp add: forget_links_def)

lemma forget_links_nth:
  assumes "forget_links a = forget_links b" "k < length a"
  shows "lpid (a ! k) = lpid (b ! k)" "lrank (a ! k) = lrank (b ! k)" "flag (a ! k) = flag (b ! k)"
proof -
  have "k < length b"
    using assms(2) forget_links_length [OF assms(1)] by simp
  then have eq: "(a ! k)\<lparr>next_lpid := 0\<rparr> = (b ! k)\<lparr>next_lpid := 0\<rparr>"
    using nth_forget_links [OF assms(2)] nth_forget_links [of k b] assms(1) by simp
  show "lpid (a ! k) = lpid (b ! k)"
    using arg_cong [OF eq, of lpid] by simp
  show "lrank (a ! k) = lrank (b ! k)"
    using arg_cong [OF eq, of lrank] by simp
  show "flag (a ! k) = flag (b ! k)"
    using arg_cong [OF eq, of flag] by simp
qed

lemma set_next_lpid_int [simp]:
  "k < length a \<Longrightarrow> set_next_lpid a (int k) v = Some (a[k := (a ! k)\<lparr>next_lpid := v\<rparr>])"
  by (simp add: set_next_lpid_def)

lemma set_next_lpid_add [simp]:
  "j + k < length a \<Longrightarrow>
   set_next_lpid a (int j + int k) v = Some (a[j + k := (a ! (j + k))\<lparr>next_lpid := v\<rparr>])"
  using set_next_lpid_int [of "j + k"] by simp

subsection \<open>The loops terminate and do what they should\<close>

text \<open>The relative list \<open>ys\<close> of the upper half, as absolute indices.\<close>

abbreviation shift :: "nat \<Rightarrow> nat list \<Rightarrow> nat list" where
  "shift off ys \<equiv> map ((+) off) ys"

lemma rebase_loop_correct:
  assumes "threaded a off ys" "distinct ys"
  shows "\<exists>b. rebase_loop (int off) a (head_ptr (shift off ys)) = Some b \<and>
    threaded b 0 (shift off ys) \<and> forget_links b = forget_links a \<and>
    (\<forall>j. j \<notin> set (shift off ys) \<longrightarrow> b ! j = a ! j)"
  using assms
proof (induction ys arbitrary: a)
  case Nil
  then show ?case by (simp add: rebase_loop.simps)
next
  case (Cons y ys)
  then have y: "off + y < length a" "next_lpid (a ! (off + y)) = head_ptr ys" "threaded a off ys"
    by auto
  show ?case
  proof (cases ys)
    case Nil
    with y show ?thesis by (simp add: rebase_loop.simps)
  next
    case (Cons z zs)
    let ?a = "a[off + y := (a ! (off + y))\<lparr>next_lpid := int (off + z)\<rparr>]"
    have "\<forall>k\<in>set ys. off + k \<noteq> off + y"
      using Cons.prems by auto
    then have "threaded ?a off ys"
      using y(3) by (rule threaded_upd_other)
    then obtain b where b: "rebase_loop (int off) ?a (head_ptr (shift off ys)) = Some b"
      "threaded b 0 (shift off ys)" "forget_links b = forget_links ?a"
      "\<forall>j. j \<notin> set (shift off ys) \<longrightarrow> b ! j = ?a ! j"
      using Cons.IH [of ?a] Cons.prems by auto
    have "rebase_loop (int off) a (head_ptr (shift off (y # ys))) = Some b"
      using b(1) y Cons by (subst rebase_loop.simps) (simp add: add.commute)
    moreover have "off + y \<notin> set (shift off ys)"
      using Cons.prems by auto
    then have "b ! (off + y) = (a ! (off + y))\<lparr>next_lpid := int off + int z\<rparr>"
      using b(4) y(1) by simp
    ultimately show ?thesis
      using b y Cons forget_links_length [OF b(3)] by auto
  qed
qed

text \<open>One round of the merge loop, with both lists not yet exhausted.\<close>

lemma merge_lists_take2:
  assumes "0 \<le> idx1" "0 \<le> idx2" "rd a idx1 = Some e1" "rd a idx2 = Some e2" "lpid e1 > lpid e2"
    "set_next_lpid a cur idx2 = Some a'"
  shows "merge_lists off a cur idx1 idx2 = merge_lists off a' idx2 idx1
    (if 0 \<le> next_lpid e2 then next_lpid e2 + off else next_lpid e2)"
  using assms by (simp add: merge_lists_def merge_loop.simps [of off a cur idx1 idx2] del: rd_eq_Some)

lemma merge_lists_take1:
  assumes "0 \<le> idx1" "0 \<le> idx2" "rd a idx1 = Some e1" "rd a idx2 = Some e2" "\<not> lpid e1 > lpid e2"
    "set_next_lpid a cur idx1 = Some a'"
  shows "merge_lists off a cur idx1 idx2 = merge_lists off a' idx1 (next_lpid e1) idx2"
  using assms by (simp add: merge_lists_def merge_loop.simps [of off a cur idx1 idx2] del: rd_eq_Some)

lemma head_ptr_shift:
  "(if 0 \<le> head_ptr ys then head_ptr ys + int off else head_ptr ys) = head_ptr (shift off ys)"
  by (cases ys) auto

definition merged :: "pmap_array \<Rightarrow> nat \<Rightarrow> nat list \<Rightarrow> nat set \<Rightarrow> pmap_array \<Rightarrow> bool" where
  "merged a cur ks S b \<longleftrightarrow>
     forget_links b = forget_links a \<and> threaded b 0 ks \<and> next_lpid (b ! cur) = head_ptr ks \<and>
     (\<forall>j. j \<notin> S \<and> j \<noteq> cur \<longrightarrow> b ! j = a ! j)"

lemma merged_step:
  assumes b: "merged (a[cur := (a ! cur)\<lparr>next_lpid := int k\<rparr>]) k ks S b"
    and "cur < length a" "k < length a" "cur \<notin> S" "cur \<noteq> k" "insert k S = S'"
  shows "merged a cur (k # ks) S' b"
  using assms forget_links_length [of b a] by (auto simp: merged_def)

lemma merge_lists_correct:
  assumes "threaded a 0 xs" "threaded a off ys" "distinct xs" "distinct ys"
    and "set xs \<inter> set (shift off ys) = {}" "cur < length a"
    and "cur \<notin> set xs" "cur \<notin> set (shift off ys)"
    and "\<forall>k\<in>set xs \<union> set (shift off ys). lpid (a ! k) = f k"
  shows "\<exists>b. merge_lists (int off) a (int cur) (head_ptr xs) (head_ptr (shift off ys)) = Some b \<and>
    merged a cur (imerge f xs (shift off ys)) (set xs \<union> set (shift off ys)) b"
  using assms
proof (induction "length xs + length ys" arbitrary: xs ys a cur rule: less_induct)
  case less
  note prems = less.prems
  show ?case
  proof (cases xs)
    case Nil
    let ?a = "a[cur := (a ! cur)\<lparr>next_lpid := head_ptr (shift off ys)\<rparr>]"
    have "\<forall>k\<in>set ys. off + k \<noteq> cur"
      using prems(8) by auto
    then have "threaded ?a off ys"
      using prems(2) by (rule threaded_upd_other)
    then obtain b where b: "rebase_loop (int off) ?a (head_ptr (shift off ys)) = Some b"
      "threaded b 0 (shift off ys)" "forget_links b = forget_links ?a"
      "\<forall>j. j \<notin> set (shift off ys) \<longrightarrow> b ! j = ?a ! j"
      using rebase_loop_correct prems(4) by blast
    then have "merged a cur (imerge f xs (shift off ys)) (set xs \<union> set (shift off ys)) b"
      using prems(6,8) Nil by (auto simp: merged_def)
    moreover have "merge_lists (int off) a (int cur) (head_ptr xs) (head_ptr (shift off ys)) = Some b"
      using b(1) prems(6) Nil by (simp add: merge_lists_def merge_loop.simps)
    ultimately show ?thesis by blast
  next
    case x: (Cons x xs')
    show ?thesis
    proof (cases ys)
      case Nil
      let ?b = "a[cur := (a ! cur)\<lparr>next_lpid := head_ptr xs\<rparr>]"
      have "threaded ?b 0 xs"
        using prems(1,7) by (intro threaded_upd_other) auto
      then have "merged a cur (imerge f xs (shift off ys)) (set xs \<union> set (shift off ys)) ?b"
        using prems(6) Nil by (auto simp: merged_def)
      moreover have "merge_lists (int off) a (int cur) (head_ptr xs) (head_ptr (shift off ys)) = Some ?b"
        using prems(6) Nil x by (simp add: merge_lists_def merge_loop.simps)
      ultimately show ?thesis by blast
    next
      case y: (Cons y ys')
      have bounds: "x < length a" "off + y < length a" "cur \<noteq> x" "cur \<noteq> off + y" "x \<noteq> off + y"
        and nx: "next_lpid (a ! x) = head_ptr xs'" "next_lpid (a ! (off + y)) = head_ptr ys'"
        and keys: "lpid (a ! x) = f x" "lpid (a ! (off + y)) = f (off + y)"
        using prems x y by auto
      show ?thesis
      proof (cases "f x > f (off + y)")
        case True
        let ?a = "a[cur := (a ! cur)\<lparr>next_lpid := int (off + y)\<rparr>]"
        have fresh: "off + y \<notin> set xs" "off + y \<notin> set (shift off ys')"
          using prems(4,5) y by auto
        have "threaded ?a 0 xs" "threaded ?a off ys'"
          using prems x y by (intro threaded_upd_other; auto)+
        moreover have "\<forall>k\<in>set xs \<union> set (shift off ys'). lpid (?a ! k) = f k"
          using prems y by (auto simp: nth_list_update)
        ultimately obtain b where b:
          "merge_lists (int off) ?a (int (off + y)) (head_ptr xs) (head_ptr (shift off ys')) = Some b"
          "merged ?a (off + y) (imerge f xs (shift off ys')) (set xs \<union> set (shift off ys')) b"
          using less.hyps [of xs ys' ?a "off + y"] prems(3,4,5) fresh bounds y by auto
        have "merge_lists (int off) a (int cur) (head_ptr xs) (head_ptr (shift off ys)) = Some b"
          using b(1) merge_lists_take2 [of "int x" "int (off + y)" a "a ! x" "a ! (off + y)" "int cur" ?a "int off"]
            x y bounds prems(6) True keys nx by (cases ys') (simp_all add: add.commute)
        moreover have "merged a cur (imerge f xs (shift off ys)) (set xs \<union> set (shift off ys)) b"
          using merged_step [OF b(2) prems(6)] bounds prems x y True by auto
        ultimately show ?thesis by blast
      next
        case False
        let ?a = "a[cur := (a ! cur)\<lparr>next_lpid := int x\<rparr>]"
        have "threaded ?a 0 xs'" "threaded ?a off ys"
          using prems x y by (intro threaded_upd_other; auto)+
        moreover have "\<forall>k\<in>set xs' \<union> set (shift off ys). lpid (?a ! k) = f k"
          using prems x by (auto simp: nth_list_update)
        ultimately obtain b where b:
          "merge_lists (int off) ?a (int x) (head_ptr xs') (head_ptr (shift off ys)) = Some b"
          "merged ?a x (imerge f xs' (shift off ys)) (set xs' \<union> set (shift off ys)) b"
          using less.hyps [of xs' ys ?a x] prems bounds x by auto
        have "merge_lists (int off) a (int cur) (head_ptr xs) (head_ptr (shift off ys)) = Some b"
          using b(1) merge_lists_take1 [of "int x" "int (off + y)" a "a ! x" "a ! (off + y)" "int cur" ?a "int off"]
            x y bounds prems(6) False keys nx by simp
        moreover have "merged a cur (imerge f xs (shift off ys)) (set xs \<union> set (shift off ys)) b"
          using merged_step [OF b(2) prems(6)] bounds prems x y False by (auto simp: insert_commute)
        ultimately show ?thesis by blast
      qed
    qed
  qed
qed

subsection \<open>The sort is correct\<close>

lemma head_of_imerge:
  "xs \<noteq> [] \<Longrightarrow> ys \<noteq> [] \<Longrightarrow>
   imerge f xs ys = (if f (hd xs) > f (hd ys) then hd ys # imerge f xs (tl ys)
                     else hd xs # imerge f (tl xs) ys)"
  by (cases xs; cases ys) auto

lemma merge_threaded:
  assumes "threaded b 0 xs" "threaded b off ys" "distinct xs" "distinct ys"
    and "xs \<noteq> []" "2 \<le> length ys" "set xs \<inter> set (shift off ys) = {}"
  shows "\<exists>i c. do {
        e1 \<leftarrow> rd b (head_ptr xs);
        e2 \<leftarrow> rd b (head_ptr ys + int off);
        if lpid e1 > lpid e2 then do {
          c \<leftarrow> merge_lists (int off) b (head_ptr ys + int off) (head_ptr xs) (next_lpid e2 + int off);
          Some (head_ptr ys + int off, c)
        } else do {
          c \<leftarrow> merge_lists (int off) b (head_ptr xs) (next_lpid e1) (head_ptr ys + int off);
          Some (head_ptr xs, c)
        } } = Some (i, c) \<and>
      forget_links c = forget_links b \<and>
      linked c 0 i (imerge (\<lambda>k. lpid (b ! k)) xs (shift off ys))"
proof -
  let ?f = "\<lambda>k. lpid (b ! k)"
  obtain x xs' where x: "xs = x # xs'"
    using assms(5) by (cases xs) auto
  obtain y z zs where y: "ys = y # z # zs"
    using assms(6) by (cases ys rule: remdups_adj.cases) auto
  have b: "x < length b" "off + y < length b" "next_lpid (b ! x) = head_ptr xs'"
    "next_lpid (b ! (off + y)) = int z" "threaded b 0 xs'" "threaded b off (z # zs)"
    using assms(1,2) x y by auto
  have fresh: "x \<notin> set xs'" "x \<notin> set (shift off ys)" "off + y \<notin> set xs"
      "off + y \<notin> set (shift off (z # zs))"
      "set xs' \<inter> set (shift off ys) = {}" "set xs \<inter> set (shift off (z # zs)) = {}"
    using assms(3,4,7) x y by auto
  show ?thesis
  proof (cases "?f x > ?f (off + y)")
    case True
    obtain c where c: "merge_lists (int off) b (int (off + y)) (head_ptr xs) (head_ptr (shift off (z # zs))) = Some c"
      "merged b (off + y) (imerge ?f xs (shift off (z # zs))) (set xs \<union> set (shift off (z # zs))) c"
      using merge_lists_correct [of b xs off "z # zs" "off + y" ?f] assms(1,3,4) b fresh y by auto
    have "linked c 0 (int (off + y)) (imerge ?f xs (shift off ys))"
      using c(2) True x y b(2) forget_links_length [of c b] by (auto simp: linked_def merged_def)
    then show ?thesis
      using c True x y b by (auto simp: merged_def add.commute)
  next
    case False
    obtain c where c: "merge_lists (int off) b (int x) (head_ptr xs') (head_ptr (shift off ys)) = Some c"
      "merged b x (imerge ?f xs' (shift off ys)) (set xs' \<union> set (shift off ys)) c"
      using merge_lists_correct [of b xs' off ys x ?f] assms(2,3,4) b fresh x by auto
    have "linked c 0 (int x) (imerge ?f xs (shift off ys))"
      using c(2) False x y b(1) forget_links_length [of c b] by (auto simp: linked_def merged_def)
    then show ?thesis
      using c False x y b by (auto simp: merged_def add.commute)
  qed
qed

lemma sort_key_cong_on:
  assumes "\<And>k. k \<in> set xs \<Longrightarrow> f k = g k"
  shows "sort_key f xs = sort_key g xs"
proof (rule properties_for_sort_key)
  fix k
  assume k: "k \<in> set (sort_key g xs)"
  have eq: "filter (\<lambda>z. f k = f z) zs = filter (\<lambda>z. g k = g z) zs" if "set zs = set xs" for zs
    using k that assms by (intro filter_cong) auto
  show "filter (\<lambda>z. f k = f z) (sort_key g xs) = filter (\<lambda>z. f k = f z) xs"
    by (simp add: eq filter_sort_key)
next
  have "map f (sort_key g xs) = map g (sort_key g xs)"
    using assms by simp
  moreover have "sorted (map g (sort_key g xs))"
    by simp
  ultimately show "sorted (map f (sort_key g xs))"
    by metis
qed simp

lemma upt_halves: "[0..<off + n] = [0..<off] @ map ((+) off) [0..<n]"
proof -
  have "(+) off = (\<lambda>i. i + off)"
    by auto
  then show ?thesis
    using map_add_upt [of off n] upt_add_eq_append [of 0 off n] by (simp add: add.commute)
qed

definition index_order :: "pmap_array \<Rightarrow> nat list" where
  "index_order a = sort_key (\<lambda>k. lpid (a ! k)) [0..<length a]"

lemma index_order_props [simp]:
  "set (index_order a) = {0..<length a}" "distinct (index_order a)"
  "length (index_order a) = length a"
  "sorted (map (\<lambda>k. lpid (a ! k)) (index_order a))"
  by (simp_all add: index_order_def)

lemma index_order_forget_links:
  "forget_links a = forget_links b \<Longrightarrow> index_order a = index_order b"
  using forget_links_nth(1) [of a b] forget_links_length [of a b]
  by (auto simp: index_order_def intro: sort_key_cong_on)

lemma index_order_append:
  "index_order (a @ b) =
    imerge (\<lambda>k. lpid ((a @ b) ! k)) (index_order a) (shift (length a) (index_order b))"
proof -
  let ?f = "\<lambda>k. lpid ((a @ b) ! k)"
  have "index_order a = sort_key ?f [0..<length a]"
    unfolding index_order_def by (rule sort_key_cong_on) (simp add: nth_append)
  moreover have "index_order b = sort_key (\<lambda>k. ?f (length a + k)) [0..<length b]"
    by (simp add: index_order_def)
  ultimately show ?thesis
    using sort_key_shift [of "length a" ?f "[0..<length b]"]
    by (simp add: imerge_sort_key upt_halves index_order_def del: upt_Suc nth_append_length_plus)
qed

lemma mergesort_correct:
  "\<exists>i b. MPIR_Mergesort_lpidarray a = Some (i, b) \<and> forget_links b = forget_links a \<and>
     linked b 0 i (index_order a)"
proof (induction a rule: MPIR_Mergesort_lpidarray.induct)
  case (1 a)
  consider "length a = 2" | "length a = 1" | "length a = 0" | "3 \<le> length a"
    by linarith
  then show ?case
  proof cases
    case 1
    then obtain e d where "a = [e, d]"
      by (auto simp: numeral_2_eq_2 length_Suc_conv)
    then show ?thesis
      by (cases "lpid e > lpid d") (simp_all add: MPIR_Mergesort_lpidarray.simps [of "[e, d]"]
          forget_links_def linked_def index_order_def upt_rec)
  next
    case 2
    then obtain e where "a = [e]"
      by (auto simp: length_Suc_conv)
    then show ?thesis
      by (simp add: MPIR_Mergesort_lpidarray.simps [of "[e]"] forget_links_def linked_def index_order_def)
  next
    case 3
    then show ?thesis
      by (simp add: MPIR_Mergesort_lpidarray.simps [of "[]"] linked_def index_order_def)
  next
    case 4
    define off where "off = length a div 2"
    have len3: "length a \<noteq> 2" "length a \<noteq> 1" "length a \<noteq> 0"
      using 4 by auto
    have off: "0 < off" "off + 2 \<le> length a"
      using 4 by (auto simp: off_def)
    obtain i lo where lo: "MPIR_Mergesort_lpidarray (take off a) = Some (i, lo)"
      "forget_links lo = forget_links (take off a)" "linked lo 0 i (index_order (take off a))"
      using "1.IH"(1) [OF len3 off_def] by blast
    obtain j up where up: "MPIR_Mergesort_lpidarray (drop off a) = Some (j, up)"
      "forget_links up = forget_links (drop off a)" "linked up 0 j (index_order (drop off a))"
      using "1.IH"(2) [OF len3 off_def lo(1) refl] by blast
    let ?b = "lo @ up" and ?xs = "index_order lo" and ?ys = "index_order up"
    have len: "length lo = off" "length up = length a - off"
      using forget_links_length [OF lo(2)] forget_links_length [OF up(2)] off by auto
    have same: "forget_links ?b = forget_links a"
      using lo(2) up(2) by (metis append_take_drop_id forget_links_append)
    have "?xs = index_order (take off a)" "?ys = index_order (drop off a)"
      using lo(2) up(2) by (auto intro: index_order_forget_links)
    then have th: "i = head_ptr ?xs" "threaded ?b 0 ?xs" "j = head_ptr ?ys" "threaded ?b off ?ys"
      using lo(3) up(3) len(1) threaded_append1 [of lo ?xs up] threaded_append2 [of up ?ys lo]
      by (auto simp: linked_def)
    have "?xs \<noteq> []" "2 \<le> length ?ys" "set ?xs \<inter> set (shift off ?ys) = {}"
      using len off by (auto simp flip: length_0_conv)
    from merge_threaded [OF th(2,4) _ _ this] obtain k c where
      c: "do {
        e1 \<leftarrow> rd ?b i;
        e2 \<leftarrow> rd ?b (j + int off);
        if lpid e1 > lpid e2 then do {
          c \<leftarrow> merge_lists (int off) ?b (j + int off) i (next_lpid e2 + int off);
          Some (j + int off, c)
        } else do {
          c \<leftarrow> merge_lists (int off) ?b i (next_lpid e1) (j + int off);
          Some (i, c)
        } } = Some (k, c)"
      "forget_links c = forget_links ?b"
      "linked c 0 k (index_order ?b)"
      unfolding th(1,3) index_order_append [of lo up] len(1) by auto
    have "MPIR_Mergesort_lpidarray a = Some (k, c)"
      using c(1) lo(1) up(1) len3
      by (simp add: MPIR_Mergesort_lpidarray.simps [of a] Let_def off_def [symmetric]
          del: rd_eq_Some)
    then show ?thesis
      using c(2,3) same index_order_forget_links [OF same] by auto
  qed
qed

text \<open>C23: \<open>MPIR_Mergesort_lpidarray\<close> returns for every array, never reads or writes outside it,
changes only the \<open>next_lpid\<close> links, and the links visit every entry once, in order of lpid and
among equal lpids in order of index.\<close>

theorem MPIR_Mergesort_lpidarray_sorts:
  "\<exists>first b ks. MPIR_Mergesort_lpidarray a = Some (first, b) \<and> forget_links b = forget_links a \<and>
     linked b 0 first ks \<and> distinct ks \<and> set ks = {0..<length a} \<and>
     sorted (map (\<lambda>k. lpid (b ! k)) ks) \<and>
     (\<forall>v. filter (\<lambda>k. lpid (a ! k) = v) ks = filter (\<lambda>k. lpid (a ! k) = v) [0..<length a])"
proof -
  obtain i b where b: "MPIR_Mergesort_lpidarray a = Some (i, b)" "forget_links b = forget_links a"
    "linked b 0 i (index_order a)"
    using mergesort_correct by blast
  have same: "map (\<lambda>k. lpid (b ! k)) (index_order a) = map (\<lambda>k. lpid (a ! k)) (index_order a)"
    using forget_links_nth(1) [OF b(2)] forget_links_length [OF b(2)] by simp
  have "sorted (map (\<lambda>k. lpid (b ! k)) (index_order a))"
    unfolding same by simp
  moreover have "filter (\<lambda>k. lpid (a ! k) = v) (index_order a) = filter (\<lambda>k. lpid (a ! k) = v) [0..<length a]" for v
  proof -
    have "(\<lambda>k. lpid (a ! k) = v) = (\<lambda>k. v = lpid (a ! k))"
      by auto
    then show ?thesis
      using filter_sort_key [of v "\<lambda>k. lpid (a ! k)" "[0..<length a]"] by (simp add: index_order_def)
  qed
  ultimately show ?thesis
    using b by (intro exI [of _ i] exI [of _ b] exI [of _ "index_order a"]) simp
qed

end
