(* ===== verification/Group_Objects.thy ===== *)
theory Group_Objects
  imports Handle_Mem Lpid_Sort
begin

text \<open>
  Group objects (\<open>src/mpi/msmpi/mpid/group.cpp\<close>, \<open>group.h\<close>): the group pool with the process
  map of every group, creation and release, the lazily built list of processes in lpid order,
  and the argument checks of the group constructors. Groups are reached through pointers
  (addresses of the pool), so that two arguments may be the same object.
\<close>

subsection \<open>State\<close>

text \<open>The fields \<open>handle\<close> and \<open>ref_count\<close> of \<open>MPID_Group\<close> are in the pool's entry.\<close>

record MPID_Group =
  g_size :: int
  g_rank :: int
  idx_of_first_lpid :: int
  lrank_to_lpid :: pmap_array

text \<open>
  \<open>gobj\<close> holds the groups whose process map is allocated; \<open>garbage\<close> is what a fresh map contains.
\<close>

record gstate =
  gmem :: objmem
  gobj :: "addr \<rightharpoonup> MPID_Group"
  garbage :: "nat \<Rightarrow> MPID_Group_pmap_t"

definition MPID_GROUP_PREALLOC :: nat where "MPID_GROUP_PREALLOC = 8"

definition MPI_GROUP_NULL :: handle where "MPI_GROUP_NULL = 0x08000000"
definition MPI_GROUP_EMPTY :: handle where "MPI_GROUP_EMPTY = 0x48000000"

definition empty_group :: MPID_Group where
  "empty_group = \<lparr>g_size = 0, g_rank = MPI_UNDEFINED, idx_of_first_lpid = - 1, lrank_to_lpid = []\<rparr>"

definition gstate_init :: "(nat \<Rightarrow> MPID_Group_pmap_t) \<Rightarrow> bool list \<Rightarrow> gstate" where
  "gstate_init junk ms =
     \<lparr>gmem = objmem_init MPID_GROUP MPID_GROUP_PREALLOC ms,
      gobj = [Builtin 0 \<mapsto> empty_group], garbage = junk\<rparr>"

definition put_group :: "addr \<Rightarrow> MPID_Group \<Rightarrow> gstate \<Rightarrow> gstate" where
  "put_group p g s = s\<lparr>gobj := (gobj s)(p \<mapsto> g)\<rparr>"

text \<open>\<open>p->lrank_to_lpid[i]\<close>, read and updated.\<close>

definition pmap_at :: "gstate \<Rightarrow> addr \<Rightarrow> int \<Rightarrow> MPID_Group_pmap_t option" where
  "pmap_at s p i = do { g \<leftarrow> gobj s p; rd (lrank_to_lpid g) i }"

definition upd_pmap ::
  "(MPID_Group_pmap_t \<Rightarrow> MPID_Group_pmap_t) \<Rightarrow> gstate \<Rightarrow> addr \<Rightarrow> int \<Rightarrow> gstate option" where
  "upd_pmap f s p i = do {
     g \<leftarrow> gobj s p;
     e \<leftarrow> rd (lrank_to_lpid g) i;
     a \<leftarrow> wr (lrank_to_lpid g) i (f e);
     Some (put_group p (g\<lparr>lrank_to_lpid := a\<rparr>) s)
   }"

definition set_flag :: "int \<Rightarrow> gstate \<Rightarrow> addr \<Rightarrow> int \<Rightarrow> gstate option" where
  "set_flag v = upd_pmap (\<lambda>e. e\<lparr>flag := v\<rparr>)"

subsection \<open>Creation and release\<close>

definition MPIR_Group_create :: "int \<Rightarrow> gstate \<Rightarrow> (mpi_error + addr) \<times> gstate" where
  "MPIR_Group_create nproc s =
     (case MPIU_Handle_obj_alloc (gmem s) of
        (None, m) \<Rightarrow> (Inl MPIU_ERR_NOMEM, s\<lparr>gmem := m\<rparr>)
      | (Some p, m) \<Rightarrow>
          (case malloc m of
             (False, m') \<Rightarrow> (Inl MPIU_ERR_NOMEM, s\<lparr>gmem := MPIU_Handle_obj_free p m'\<rparr>)
           | (True, m') \<Rightarrow>
               (Inr p, put_group p
                  \<lparr>g_size = nproc, g_rank = 0, idx_of_first_lpid = - 1,
                   lrank_to_lpid = map (garbage s) [0..<nat nproc]\<rparr> (s\<lparr>gmem := m'\<rparr>))))"

definition MPIR_Group_release :: "addr \<Rightarrow> gstate \<Rightarrow> gstate option" where
  "MPIR_Group_release p s = do {
     (inuse, m) \<leftarrow> MPIU_Object_release_ref p (gmem s);
     Some (if inuse then s\<lparr>gmem := m\<rparr>
           else s\<lparr>gmem := MPIU_Handle_obj_free p m, gobj := (gobj s)(p := None)\<rparr>)
   }"

subsection \<open>The list in lpid order\<close>

definition MPIR_Group_setup_lpid_list :: "addr \<Rightarrow> gstate \<Rightarrow> gstate option" where
  "MPIR_Group_setup_lpid_list p s = do {
     g \<leftarrow> gobj s p;
     if idx_of_first_lpid g = - 1 then do {
       (i, a) \<leftarrow> MPIR_Mergesort_lpidarray (take (nat (g_size g)) (lrank_to_lpid g));
       Some (put_group p (g\<lparr>idx_of_first_lpid := i,
                            lrank_to_lpid := a @ drop (nat (g_size g)) (lrank_to_lpid g)\<rparr>) s)
     } else Some s
   }"

definition setup_if_unset :: "addr \<Rightarrow> gstate \<Rightarrow> gstate option" where
  "setup_if_unset p s = do {
     g \<leftarrow> gobj s p;
     if idx_of_first_lpid g < 0 then MPIR_Group_setup_lpid_list p s else Some s
   }"

definition MPIR_Group_setup_lpid_pairs :: "addr \<Rightarrow> addr \<Rightarrow> gstate \<Rightarrow> gstate option" where
  "MPIR_Group_setup_lpid_pairs p1 p2 s = do { s1 \<leftarrow> setup_if_unset p1 s; setup_if_unset p2 s1 }"

subsection \<open>Argument checks\<close>

text \<open>\<open>for (i=0; i<size; i++) p->lrank_to_lpid[i].flag = 0\<close>.\<close>

fun flag_all :: "int \<Rightarrow> addr \<Rightarrow> int list \<Rightarrow> gstate \<Rightarrow> gstate option" where
  "flag_all v p [] s = Some s"
| "flag_all v p (i # is) s = do { s' \<leftarrow> set_flag v s p i; flag_all v p is s' }"

definition clear_flags :: "addr \<Rightarrow> int \<Rightarrow> gstate \<Rightarrow> gstate option" where
  "clear_flags p n = flag_all 0 p [0..n - 1]"

fun check_ranks_loop ::
  "addr \<Rightarrow> int list \<Rightarrow> int list \<Rightarrow> gstate \<Rightarrow> ((mpi_error + unit) \<times> gstate) option" where
  "check_ranks_loop p ranks [] s = Some (Inr (), s)"
| "check_ranks_loop p ranks (i # is) s = do {
     g \<leftarrow> gobj s p;
     r \<leftarrow> rd ranks i;
     if r < 0 \<or> r \<ge> g_size g
     then Some (Inl (MPIU_ERR_CREATE MPI_ERR_RANK ''**rankarray''), s)
     else do {
       e \<leftarrow> pmap_at s p r;
       if flag e \<noteq> 0
       then Some (Inl (MPIU_ERR_CREATE MPI_ERR_RANK ''**rankdup''), s)
       else do { s' \<leftarrow> set_flag (i + 1) s p r; check_ranks_loop p ranks is s' }
     }
   }"

definition MPIR_Group_check_valid_ranks ::
  "addr \<Rightarrow> int list \<Rightarrow> int \<Rightarrow> gstate \<Rightarrow> ((mpi_error + unit) \<times> gstate) option" where
  "MPIR_Group_check_valid_ranks p ranks n s = do {
     g \<leftarrow> gobj s p;
     if n < 0 \<or> n > g_size g
     then Some (Inl (MPIU_ERR_CREATE MPI_ERR_ARG ''**rankarraysize''), s)
     else do {
       s1 \<leftarrow> clear_flags p (g_size g) s;
       check_ranks_loop p ranks [0..n - 1] s1
     }
   }"

type_synonym range = "int \<times> int \<times> int"

text \<open>
  \<open>for (j=first; j<=last; j+=stride)\<close>, and \<open>j>=last\<close> for a negative stride: test the flag, set
  it to \<open>v\<close>. \<open>j += stride\<close> wraps at 32 bits.
\<close>

partial_function (option) mark_range ::
  "addr \<Rightarrow> int \<Rightarrow> int \<Rightarrow> int \<Rightarrow> int \<Rightarrow> gstate \<Rightarrow> ((mpi_error + unit) \<times> gstate) option" where
  "mark_range p v lst stride j s =
     (if (if stride > 0 then j \<le> lst else j \<ge> lst) then do {
        e \<leftarrow> pmap_at s p j;
        if flag e \<noteq> 0
        then Some (Inl (MPIU_ERR_CREATE MPI_ERR_ARG ''**rangedup''), s)
        else do { s' \<leftarrow> set_flag v s p j; mark_range p v lst stride (i32 (j + stride)) s' }
      } else Some (Inr (), s))"

text \<open>One range: the tests, then the flags (1 for a positive stride, \<open>i + 1\<close> for a negative).\<close>

definition check_range ::
  "addr \<Rightarrow> int \<Rightarrow> int \<Rightarrow> range \<Rightarrow> gstate \<Rightarrow> ((mpi_error + unit) \<times> gstate) option" where
  "check_range p gsize i r s =
     (case r of (fir, lst, stride) \<Rightarrow>
        if fir < 0 \<or> fir \<ge> gsize
        then Some (Inl (MPIU_ERR_CREATE MPI_ERR_ARG ''**rangestartinvalid''), s)
        else if stride = 0
        then Some (Inl (MPIU_ERR_CREATE MPI_ERR_ARG ''**stridezero''), s)
        else do {
          q \<leftarrow> c_div (i32 (lst - fir)) stride;
          let act_last = i32 (fir + i32 (stride * q));
          if lst < 0 \<or> act_last \<ge> gsize
          then Some (Inl (MPIU_ERR_CREATE MPI_ERR_ARG ''**rangeendinvalid''), s)
          else if stride > 0 \<and> fir > lst \<or> stride < 0 \<and> fir < lst
          then Some (Inl (MPIU_ERR_CREATE MPI_ERR_ARG ''**stride''), s)
          else mark_range p (if stride > 0 then 1 else i + 1) lst stride fir s
        })"

fun check_ranges_loop ::
  "addr \<Rightarrow> int \<Rightarrow> range list \<Rightarrow> int list \<Rightarrow> gstate \<Rightarrow> ((mpi_error + unit) \<times> gstate) option" where
  "check_ranges_loop p gsize ranges [] s = Some (Inr (), s)"
| "check_ranges_loop p gsize ranges (i # is) s = do {
     r \<leftarrow> rd ranges i;
     (res, s') \<leftarrow> check_range p gsize i r s;
     case res of Inl e \<Rightarrow> Some (Inl e, s') | Inr _ \<Rightarrow> check_ranges_loop p gsize ranges is s'
   }"

definition MPIR_Group_check_valid_ranges ::
  "addr \<Rightarrow> range list \<Rightarrow> int \<Rightarrow> gstate \<Rightarrow> ((mpi_error + unit) \<times> gstate) option" where
  "MPIR_Group_check_valid_ranges p ranges n s = do {
     g \<leftarrow> gobj s p;
     if n < 0 \<or> n > g_size g
     then Some (Inl (MPIU_ERR_CREATE MPI_ERR_ARG ''**rangessize''), s)
     else do {
       s1 \<leftarrow> clear_flags p (g_size g) s;
       check_ranges_loop p (g_size g) ranges [0..n - 1] s1
     }
   }"

text \<open>
  \<open>MPIR_GroupCheckVCRSubset\<close>: \<open>vcr\<close> is given by its lpids (\<open>MPID_VCR_Get_lpid(vcr[i])\<close>).
\<close>

partial_function (option) subset_loop ::
  "gstate \<Rightarrow> addr \<Rightarrow> pmap_array \<Rightarrow> int \<Rightarrow> int \<Rightarrow> int option" where
  "subset_loop s p vmap g1_idx g2_idx =
     (if 0 \<le> g1_idx \<and> 0 \<le> g2_idx then do {
        e1 \<leftarrow> pmap_at s p g1_idx;
        e2 \<leftarrow> rd vmap g2_idx;
        if lpid e1 < lpid e2 then Some g1_idx
        else if lpid e1 > lpid e2 then subset_loop s p vmap g1_idx (next_lpid e2)
        else subset_loop s p vmap (next_lpid e1) (next_lpid e2)
      } else Some g1_idx)"

definition vcr_map :: "int list \<Rightarrow> pmap_array" where
  "vcr_map vcr = map (\<lambda>i. \<lparr>lrank = int i, lpid = vcr ! i, next_lpid = 0, flag = 0\<rparr>) [0..<length vcr]"

definition MPIR_GroupCheckVCRSubset ::
  "addr \<Rightarrow> int list \<Rightarrow> gstate \<Rightarrow> ((mpi_error + unit) \<times> gstate) option" where
  "MPIR_GroupCheckVCRSubset p vcr s =
     (case malloc (gmem s) of
        (False, m) \<Rightarrow> Some (Inl MPIU_ERR_NOMEM, s\<lparr>gmem := m\<rparr>)
      | (True, m) \<Rightarrow> do {
          s1 \<leftarrow> MPIR_Group_setup_lpid_list p (s\<lparr>gmem := m\<rparr>);
          g \<leftarrow> gobj s1 p;
          (g2_idx, vmap) \<leftarrow> MPIR_Mergesort_lpidarray (vcr_map vcr);
          i \<leftarrow> subset_loop s1 p vmap (idx_of_first_lpid g) g2_idx;
          Some (if 0 \<le> i then Inl (MPIU_ERR_CREATE MPI_ERR_GROUP ''**groupnotincomm'') else Inr (), s1)
        })"

subsection \<open>Marking members\<close>

text \<open>What a sequence of flag writes leaves: every flag in \<open>K\<close> is \<open>v\<close>.\<close>

definition mark_flags :: "nat set \<Rightarrow> int \<Rightarrow> pmap_array \<Rightarrow> pmap_array" where
  "mark_flags K v a = map (\<lambda>k. if k \<in> K then (a ! k)\<lparr>flag := v\<rparr> else a ! k) [0..<length a]"

definition mark :: "addr \<Rightarrow> nat set \<Rightarrow> int \<Rightarrow> gstate \<Rightarrow> gstate" where
  "mark p K v s =
     s\<lparr>gobj := (gobj s)(p := map_option (\<lambda>g. g\<lparr>lrank_to_lpid := mark_flags K v (lrank_to_lpid g)\<rparr>) (gobj s p))\<rparr>"

definition lpids :: "gstate \<Rightarrow> addr \<Rightarrow> int list" where
  "lpids s p = (case gobj s p of None \<Rightarrow> [] | Some g \<Rightarrow> map lpid (lrank_to_lpid g))"

definition on_list :: "gstate \<Rightarrow> addr \<Rightarrow> nat list \<Rightarrow> bool" where
  "on_list s p ks \<longleftrightarrow> (\<exists>g. gobj s p = Some g \<and> threaded (lrank_to_lpid g) 0 ks)"

definition flag_of :: "gstate \<Rightarrow> addr \<Rightarrow> nat \<Rightarrow> int" where
  "flag_of s p k = (case gobj s p of None \<Rightarrow> 0 | Some g \<Rightarrow> flag (lrank_to_lpid g ! k))"

definition lrank_of :: "gstate \<Rightarrow> addr \<Rightarrow> nat \<Rightarrow> int" where
  "lrank_of s p k = (case gobj s p of None \<Rightarrow> 0 | Some g \<Rightarrow> lrank (lrank_to_lpid g ! k))"

lemma length_mark_flags [simp]: "length (mark_flags K v a) = length a"
  by (simp add: mark_flags_def)

lemma nth_mark_flags [simp]:
  "k < length a \<Longrightarrow> mark_flags K v a ! k = (if k \<in> K then (a ! k)\<lparr>flag := v\<rparr> else a ! k)"
  by (simp add: mark_flags_def)

lemma map_mark_flags [simp]:
  "map lpid (mark_flags K v a) = map lpid a" "map lrank (mark_flags K v a) = map lrank a"
  by (auto intro: nth_equalityI)

lemma threaded_mark_flags [simp]: "threaded (mark_flags K v a) off ks = threaded a off ks"
  by (induction ks) (auto split: if_splits)

lemma index_order_cong:
  assumes "map lpid a = map lpid b"
  shows "index_order a = index_order b"
proof -
  have "length a = length b"
    using assms map_eq_imp_length_eq by blast
  moreover have "lpid (a ! k) = lpid (b ! k)" if "k < length a" for k
    using arg_cong [OF assms, of "\<lambda>l. l ! k"] that calculation by simp
  ultimately show ?thesis
    by (auto simp: index_order_def intro!: sort_key_cong_on)
qed

lemma index_order_mark_flags [simp]: "index_order (mark_flags K v a) = index_order a"
  by (rule index_order_cong) simp

lemma mark_flags_twice [simp]: "mark_flags J v (mark_flags K v a) = mark_flags (J \<union> K) v a"
  by (auto intro!: nth_equalityI)

lemma mark_flags_empty [simp]: "mark_flags {} v a = a"
  by (auto intro!: nth_equalityI)

lemma mark_flags_one: "k < length a \<Longrightarrow> a[k := (a ! k)\<lparr>flag := v\<rparr>] = mark_flags {k} v a"
  by (auto intro!: nth_equalityI simp: nth_list_update)

lemma gobj_mark:
  "gobj (mark p K v s) q =
     (if q = p then map_option (\<lambda>g. g\<lparr>lrank_to_lpid := mark_flags K v (lrank_to_lpid g)\<rparr>) (gobj s p)
      else gobj s q)"
  by (simp add: mark_def)

lemma mark_frame [simp]:
  "gmem (mark p K v s) = gmem s" "garbage (mark p K v s) = garbage s"
  "lpids (mark p K v s) q = lpids s q" "on_list (mark p K v s) q = on_list s q"
  "gobj (mark p K v s) q = None \<longleftrightarrow> gobj s q = None" "dom (gobj (mark p K v s)) = dom (gobj s)"
  by (auto simp: mark_def lpids_def on_list_def fun_eq_iff split: option.splits if_splits)

lemma mark_twice [simp]: "mark p J v (mark p K v s) = mark p (J \<union> K) v s"
  by (cases "gobj s p") (auto simp: mark_def)

lemma mark_empty [simp]: "mark p {} v s = s"
  by (cases "gobj s p") (auto simp: mark_def fun_upd_idem)

lemma flag_of_mark [simp]:
  "k < length (lpids s q) \<Longrightarrow> flag_of (mark p K v s) q k = (if p = q \<and> k \<in> K then v else flag_of s q k)"
  by (auto simp: flag_of_def mark_def lpids_def split: option.splits)

lemma set_flag_int [simp]:
  "k < length (lpids s p) \<Longrightarrow> set_flag v s p (int k) = Some (mark p {k} v s)"
  by (auto simp: set_flag_def upd_pmap_def lpids_def put_group_def mark_def mark_flags_one
      split: option.splits)

lemma pmap_at_int:
  assumes "k < length (lpids s p)"
  obtains e where "pmap_at s p (int k) = Some e" "lpid e = lpids s p ! k" "flag e = flag_of s p k"
    "lrank e = lrank_of s p k"
  using assms by (auto simp: pmap_at_def lpids_def flag_of_def lrank_of_def split: option.splits)

lemma on_list_Cons:
  assumes "on_list s p (k # ks)"
  obtains e where "pmap_at s p (int k) = Some e" "lpid e = lpids s p ! k"
    "next_lpid e = head_ptr ks" "on_list s p ks" "k < length (lpids s p)" "lrank e = lrank_of s p k"
  using assms by (auto simp: on_list_def pmap_at_def lpids_def lrank_of_def)

lemma flag_all_mark:
  "\<forall>k\<in>set ks. k < length (lpids s p) \<Longrightarrow> flag_all v p (map int ks) s = Some (mark p (set ks) v s)"
  by (induction ks arbitrary: s) (auto simp: Un_commute insert_commute intro: arg_cong2)

subsection \<open>The invariant\<close>

text \<open>The rank of the process \<open>me\<close> in a group with members \<open>ls\<close>.\<close>

fun rank_from :: "nat \<Rightarrow> int \<Rightarrow> int list \<Rightarrow> int" where
  "rank_from k me [] = MPI_UNDEFINED"
| "rank_from k me (l # ls) = (if l = me then int k else rank_from (Suc k) me ls)"

abbreviation rank_of :: "int \<Rightarrow> int list \<Rightarrow> int" where "rank_of \<equiv> rank_from 0"

definition lpid_order :: "int list \<Rightarrow> nat list" where
  "lpid_order ls = sort_key (\<lambda>k. ls ! k) [0..<length ls]"

definition group_ok :: "int \<Rightarrow> MPID_Group \<Rightarrow> bool" where
  "group_ok me g \<longleftrightarrow>
     g_size g = int (length (lrank_to_lpid g)) \<and>
     distinct (map lpid (lrank_to_lpid g)) \<and> (\<forall>l\<in>set (map lpid (lrank_to_lpid g)). 0 \<le> l) \<and>
     map lrank (lrank_to_lpid g) = map int [0..<length (lrank_to_lpid g)] \<and>
     g_rank g = rank_of me (map lpid (lrank_to_lpid g)) \<and>
     (idx_of_first_lpid g = - 1 \<or>
      linked (lrank_to_lpid g) 0 (idx_of_first_lpid g) (index_order (lrank_to_lpid g)))"

definition gstate_ok :: "int \<Rightarrow> gstate \<Rightarrow> addr set \<Rightarrow> bool" where
  "gstate_ok me s L \<longleftrightarrow>
     objmem_inv (gmem s) L \<and> kind (gmem s) = MPID_GROUP \<and>
     dom (gobj s) = insert (Builtin 0) L \<and> lpids s (Builtin 0) = [] \<and>
     (\<forall>p g. gobj s p = Some g \<longrightarrow> group_ok me g)"

text \<open>The list of \<open>p\<close> is built; \<open>same\<close>: nothing changed but links and flags.\<close>

definition ready :: "gstate \<Rightarrow> addr \<Rightarrow> bool" where
  "ready s p \<longleftrightarrow>
     (\<exists>g. gobj s p = Some g \<and>
          linked (lrank_to_lpid g) 0 (idx_of_first_lpid g) (index_order (lrank_to_lpid g)))"

definition same :: "gstate \<Rightarrow> gstate \<Rightarrow> bool" where
  "same s s' \<longleftrightarrow>
     gmem s' = gmem s \<and> garbage s' = garbage s \<and> dom (gobj s') = dom (gobj s) \<and> lpids s' = lpids s"

definition keeps :: "gstate \<Rightarrow> gstate \<Rightarrow> bool" where
  "keeps s s' \<longleftrightarrow> (\<forall>p\<in>dom (gobj s). p \<in> dom (gobj s') \<and> lpids s' p = lpids s p)"

lemma index_order_lpids: "index_order a = lpid_order (map lpid a)"
  unfolding index_order_def lpid_order_def by (auto intro!: sort_key_cong_on)

lemma lpid_order_props [simp]:
  "set (lpid_order ls) = {0..<length ls}" "distinct (lpid_order ls)" "length (lpid_order ls) = length ls"
  "sorted (map (\<lambda>k. ls ! k) (lpid_order ls))"
  by (simp_all add: lpid_order_def)

lemma lpid_order_strict:
  "distinct ls \<Longrightarrow> sorted_wrt (<) (map (\<lambda>k. ls ! k) (lpid_order ls))"
  by (simp add: strict_sorted_iff distinct_map inj_on_nth)

lemma map_lpid_order: "(\<lambda>k. ls ! k) ` set (lpid_order ls) = set ls"
  by (simp only: lpid_order_props) (auto simp: set_conv_nth)

lemma group_ok_mark [simp]:
  "group_ok me (g\<lparr>lrank_to_lpid := mark_flags K v (lrank_to_lpid g)\<rparr>) = group_ok me g"
  by (simp add: group_ok_def linked_def)

lemma gstate_ok_mark [simp]: "gstate_ok me (mark p K v s) L = gstate_ok me s L"
proof -
  have "(\<forall>q g. gobj (mark p K v s) q = Some g \<longrightarrow> group_ok me g) \<longleftrightarrow>
      (\<forall>q g. gobj s q = Some g \<longrightarrow> group_ok me g)"
    by (auto simp: gobj_mark split: if_splits)
  then show ?thesis
    by (simp add: gstate_ok_def)
qed

lemma ready_mark [simp]: "ready (mark p K v s) q = ready s q"
  by (auto simp: ready_def gobj_mark linked_def)

lemma same_refl [simp]: "same s s"
  by (simp add: same_def)

lemma same_trans: "same s t \<Longrightarrow> same t u \<Longrightarrow> same s u"
  by (simp add: same_def)

lemma same_mark [simp]: "same s (mark p K v t) = same s t"
  by (auto simp: same_def fun_eq_iff)

lemma same_keeps: "same s s' \<Longrightarrow> keeps s s'"
  by (auto simp: same_def keeps_def)

lemma keeps_trans: "keeps s t \<Longrightarrow> keeps t u \<Longrightarrow> keeps s u"
  by (simp add: keeps_def)

lemma same_lpids: "same s s' \<Longrightarrow> lpids s' p = lpids s p"
  by (simp add: same_def)

lemma readyD:
  assumes "ready s p"
  obtains g where "gobj s p = Some g" "idx_of_first_lpid g = head_ptr (lpid_order (lpids s p))"
    "on_list s p (lpid_order (lpids s p))"
  using assms by (auto simp: ready_def linked_def on_list_def lpids_def index_order_lpids)

lemma gstate_okD:
  assumes "gstate_ok me s L" "p \<in> dom (gobj s)"
  obtains g where "gobj s p = Some g" "group_ok me g" "g_size g = int (length (lpids s p))"
    "lpids s p = map lpid (lrank_to_lpid g)" "distinct (lpids s p)" "\<forall>l\<in>set (lpids s p). 0 \<le> l"
    "g_rank g = rank_of me (lpids s p)" "\<forall>k<length (lpids s p). lrank_of s p k = int k"
proof -
  obtain g where "gobj s p = Some g"
    using assms(2) by blast
  then have g: "gobj s p = Some g" "group_ok me g"
    using assms(1) by (auto simp: gstate_ok_def)
  moreover have "lrank (lrank_to_lpid g ! k) = int k" if "k < length (lrank_to_lpid g)" for k
  proof -
    have "map lrank (lrank_to_lpid g) ! k = map int [0..<length (lrank_to_lpid g)] ! k"
      using g(2) by (simp only: group_ok_def)
    with that show ?thesis by simp
  qed
  ultimately show thesis
    using that by (auto simp: group_ok_def lpids_def lrank_of_def)
qed

lemma gstate_ok_at:
  assumes "gstate_ok me s L" "gobj s p = Some g"
  shows "group_ok me g" "g_size g = int (length (lpids s p))"
    "lpids s p = map lpid (lrank_to_lpid g)" "length (lrank_to_lpid g) = length (lpids s p)"
    "distinct (lpids s p)" "\<forall>l\<in>set (lpids s p). 0 \<le> l" "g_rank g = rank_of me (lpids s p)"
    "\<forall>k<length (lpids s p). lrank_of s p k = int k"
  using assms by (auto elim!: gstate_okD [of me s L p])

lemma lpids_put_group [simp]:
  "lpids (put_group p g s) q = (if q = p then map lpid (lrank_to_lpid g) else lpids s q)"
  by (simp add: lpids_def put_group_def)

lemma put_group_frame [simp]:
  "gmem (put_group p g s) = gmem s" "garbage (put_group p g s) = garbage s"
  "gobj (put_group p g s) = (gobj s)(p \<mapsto> g)"
  by (simp_all add: put_group_def)

lemma gstate_ok_put_group:
  assumes "gstate_ok me s L" "p \<in> dom (gobj s)" "group_ok me g" "map lpid (lrank_to_lpid g) = lpids s p"
  shows "gstate_ok me (put_group p g s) L"
  using assms by (auto simp: gstate_ok_def lpids_put_group)

subsection \<open>Building the list\<close>

lemma forget_links_map_eq:
  assumes "forget_links b = forget_links a"
  shows "map lpid b = map lpid a" "map lrank b = map lrank a"
  using forget_links_nth [OF assms] forget_links_length [OF assms]
  by (auto intro!: nth_equalityI)

lemma setup_lpid_list:
  assumes ok: "gstate_ok me s L" and p: "p \<in> dom (gobj s)"
  shows "\<exists>s'. MPIR_Group_setup_lpid_list p s = Some s' \<and> gstate_ok me s' L \<and> same s s' \<and>
    ready s' p \<and> (\<forall>q. ready s q \<longrightarrow> ready s' q)"
proof -
  obtain g where g: "gobj s p = Some g" "group_ok me g" "lpids s p = map lpid (lrank_to_lpid g)"
    "g_size g = int (length (lpids s p))"
    using ok p by (rule gstate_okD)
  show ?thesis
  proof (cases "idx_of_first_lpid g = - 1")
    case False
    with g show ?thesis
      by (auto simp: MPIR_Group_setup_lpid_list_def ready_def group_ok_def ok)
  next
    case True
    obtain i b where b: "MPIR_Mergesort_lpidarray (lrank_to_lpid g) = Some (i, b)"
      "forget_links b = forget_links (lrank_to_lpid g)" "linked b 0 i (index_order (lrank_to_lpid g))"
      using mergesort_correct by blast
    let ?g = "g\<lparr>idx_of_first_lpid := i, lrank_to_lpid := b\<rparr>"
    have eq: "MPIR_Group_setup_lpid_list p s = Some (put_group p ?g s)"
      using g b(1) True by (simp add: MPIR_Group_setup_lpid_list_def)
    note same_maps = forget_links_map_eq [OF b(2)] forget_links_length [OF b(2)]
      index_order_forget_links [OF b(2)]
    have "group_ok me ?g"
      using g(2) b(3) same_maps by (simp add: group_ok_def)
    then have "gstate_ok me (put_group p ?g s) L"
      using ok p g(3) same_maps by (intro gstate_ok_put_group) auto
    moreover have "same s (put_group p ?g s)"
      using p g(3) same_maps by (auto simp: same_def fun_eq_iff)
    moreover have "ready (put_group p ?g s) p"
      using b(3) same_maps by (simp add: ready_def)
    moreover from this have "\<forall>q. ready s q \<longrightarrow> ready (put_group p ?g s) q"
      by (auto simp: ready_def)
    ultimately show ?thesis
      using eq by blast
  qed
qed

lemma setup_if_unset:
  assumes ok: "gstate_ok me s L" and p: "p \<in> dom (gobj s)"
  shows "\<exists>s'. setup_if_unset p s = Some s' \<and> gstate_ok me s' L \<and> same s s' \<and>
    ready s' p \<and> (\<forall>q. ready s q \<longrightarrow> ready s' q)"
proof -
  obtain g where g: "gobj s p = Some g" "group_ok me g"
    using ok p by (rule gstate_okD)
  show ?thesis
  proof (cases "idx_of_first_lpid g < 0")
    case True
    with g setup_lpid_list [OF ok p] show ?thesis
      by (simp add: setup_if_unset_def)
  next
    case False
    with g ok show ?thesis
      by (auto simp: setup_if_unset_def ready_def group_ok_def)
  qed
qed

lemma setup_lpid_pairs:
  assumes ok: "gstate_ok me s L" and p: "p1 \<in> dom (gobj s)" "p2 \<in> dom (gobj s)"
  shows "\<exists>s'. MPIR_Group_setup_lpid_pairs p1 p2 s = Some s' \<and> gstate_ok me s' L \<and> same s s' \<and>
    ready s' p1 \<and> ready s' p2"
proof -
  obtain s1 where s1: "setup_if_unset p1 s = Some s1" "gstate_ok me s1 L" "same s s1" "ready s1 p1"
    using setup_if_unset [OF ok p(1)] by blast
  moreover have "p2 \<in> dom (gobj s1)"
    using p(2) s1(3) by (simp add: same_def)
  ultimately obtain s2 where "setup_if_unset p2 s1 = Some s2" "gstate_ok me s2 L" "same s1 s2"
    "ready s2 p2" "ready s2 p1"
    using setup_if_unset by blast
  with s1 show ?thesis
    by (auto simp: MPIR_Group_setup_lpid_pairs_def intro: same_trans)
qed

end
