(* ===== verification/Group_Build.thy ===== *)
theory Group_Build
  imports Group_Objects
begin

text \<open>
  Building a new group (the tail of every constructor of \<open>src/mpi/msmpi/api/mpi_group.cpp\<close>):
  allocation, copying members from an existing group by rank, and why the result is well formed.
\<close>

subsection \<open>Copying members\<close>

definition set_rank :: "int \<Rightarrow> addr \<Rightarrow> gstate \<Rightarrow> gstate option" where
  "set_rank r p s = do { g \<leftarrow> gobj s p; Some (put_group p (g\<lparr>g_rank := r\<rparr>) s) }"

text \<open>\<open>new->lrank_to_lpid[k].lrank = k; new->lrank_to_lpid[k].lpid = old->lrank_to_lpid[i].lpid\<close>.\<close>

definition put_entry :: "addr \<Rightarrow> addr \<Rightarrow> int \<Rightarrow> int \<Rightarrow> gstate \<Rightarrow> gstate option" where
  "put_entry src dst k i s = do {
     s1 \<leftarrow> upd_pmap (\<lambda>e. e\<lparr>lrank := k\<rparr>) s dst k;
     m \<leftarrow> pmap_at s1 src i;
     upd_pmap (\<lambda>e. e\<lparr>lpid := lpid m\<rparr>) s1 dst k
   }"

text \<open>And \<open>if (i == old->rank) new->rank = k\<close>.\<close>

definition add_member :: "addr \<Rightarrow> addr \<Rightarrow> int \<Rightarrow> int \<Rightarrow> gstate \<Rightarrow> gstate option" where
  "add_member src dst k i s = do {
     s1 \<leftarrow> put_entry src dst k i s;
     g \<leftarrow> gobj s1 src;
     if i = g_rank g then set_rank k dst s1 else Some s1
   }"

text \<open>
  \<open>for (i=0; i<size; i++) if (flag == want) { add; k++; }\<close>, the loop of difference,
  intersection, excl and range_excl.
\<close>

fun pick_loop :: "bool \<Rightarrow> addr \<Rightarrow> addr \<Rightarrow> int list \<Rightarrow> int \<Rightarrow> gstate \<Rightarrow> gstate option" where
  "pick_loop want src dst [] k s = Some s"
| "pick_loop want src dst (i # is) k s = do {
     e \<leftarrow> pmap_at s src i;
     if (flag e \<noteq> 0) = want
     then do { s' \<leftarrow> add_member src dst k i s; pick_loop want src dst is (k + 1) s' }
     else pick_loop want src dst is k s
   }"

subsection \<open>What they compute\<close>

definition entry_upd :: "MPID_Group \<Rightarrow> nat \<Rightarrow> nat \<Rightarrow> MPID_Group \<Rightarrow> MPID_Group" where
  "entry_upd g k j d = d\<lparr>lrank_to_lpid :=
     (lrank_to_lpid d)[k := (lrank_to_lpid d ! k)\<lparr>lrank := int k, lpid := lpid (lrank_to_lpid g ! j)\<rparr>]\<rparr>"

definition member_upd :: "MPID_Group \<Rightarrow> nat \<Rightarrow> nat \<Rightarrow> MPID_Group \<Rightarrow> MPID_Group" where
  "member_upd g k j d =
     (entry_upd g k j d)\<lparr>g_rank := if int j = g_rank g then int k else g_rank d\<rparr>"

fun fill :: "MPID_Group \<Rightarrow> nat \<Rightarrow> nat list \<Rightarrow> MPID_Group \<Rightarrow> MPID_Group" where
  "fill g k [] d = d"
| "fill g k (j # js) d = fill g (Suc k) js (member_upd g k j d)"

lemma put_group_twice [simp]: "put_group p g (put_group p h s) = put_group p g s"
  by (simp add: put_group_def)

lemma put_group_same: "gobj s p = Some g \<Longrightarrow> put_group p g s = s"
  by (simp add: put_group_def fun_upd_idem)

lemma put_entry_int:
  assumes "src \<noteq> dst" "gobj s src = Some g" "gobj s dst = Some d"
    "j < length (lrank_to_lpid g)" "k < length (lrank_to_lpid d)"
  shows "put_entry src dst (int k) (int j) s = Some (put_group dst (entry_upd g k j d) s)"
  using assms by (simp add: put_entry_def upd_pmap_def pmap_at_def entry_upd_def)

lemma entry_upd_frame [simp]:
  "length (lrank_to_lpid (entry_upd g k j d)) = length (lrank_to_lpid d)"
  "g_size (entry_upd g k j d) = g_size d" "g_rank (entry_upd g k j d) = g_rank d"
  "idx_of_first_lpid (entry_upd g k j d) = idx_of_first_lpid d"
  "map lpid (lrank_to_lpid (entry_upd g k j d)) =
     (map lpid (lrank_to_lpid d))[k := lpid (lrank_to_lpid g ! j)]"
  "map lrank (lrank_to_lpid (entry_upd g k j d)) = (map lrank (lrank_to_lpid d))[k := int k]"
  by (simp_all add: entry_upd_def map_update)

lemma member_upd_frame [simp]:
  "lrank_to_lpid (member_upd g k j d) = lrank_to_lpid (entry_upd g k j d)"
  "g_size (member_upd g k j d) = g_size d"
  "g_rank (member_upd g k j d) = (if int j = g_rank g then int k else g_rank d)"
  "idx_of_first_lpid (member_upd g k j d) = idx_of_first_lpid d"
  by (simp_all add: member_upd_def)

lemma add_member_int:
  assumes "src \<noteq> dst" "gobj s src = Some g" "gobj s dst = Some d"
    "j < length (lrank_to_lpid g)" "k < length (lrank_to_lpid d)"
  shows "add_member src dst (int k) (int j) s = Some (put_group dst (member_upd g k j d) s)"
proof -
  have eq: "(entry_upd g k j d)\<lparr>g_rank := g_rank d\<rparr> = entry_upd g k j d"
    by (simp add: entry_upd_def)
  show ?thesis
    using assms by (simp add: add_member_def put_entry_int [OF assms] set_rank_def member_upd_def eq)
qed

lemma pick_loop_fill:
  assumes "src \<noteq> dst" "gobj s src = Some g" "gobj s dst = Some d"
    "\<forall>i\<in>set is. i < length (lrank_to_lpid g)"
    "k + length (filter (\<lambda>i. (flag (lrank_to_lpid g ! i) \<noteq> 0) = want) is) \<le> length (lrank_to_lpid d)"
  shows "pick_loop want src dst (map int is) (int k) s =
    Some (put_group dst (fill g k (filter (\<lambda>i. (flag (lrank_to_lpid g ! i) \<noteq> 0) = want) is) d) s)"
  using assms
proof (induction "is" arbitrary: k s d)
  case Nil
  then show ?case by (simp add: put_group_same)
next
  case (Cons i "is")
  have at: "pmap_at s src (int i) = Some (lrank_to_lpid g ! i)"
    using Cons.prems by (simp add: pmap_at_def)
  show ?case
  proof (cases "(flag (lrank_to_lpid g ! i) \<noteq> 0) = want")
    case True
    then have add: "add_member src dst (int k) (int i) s = Some (put_group dst (member_upd g k i d) s)"
      using Cons.prems by (intro add_member_int) auto
    show ?thesis
      using True at add Cons.prems
        Cons.IH [of "put_group dst (member_upd g k i d) s" "member_upd g k i d" "Suc k"]
      by (simp add: add.commute)
  next
    case False
    then show ?thesis
      using at Cons.prems Cons.IH [of s d k] by simp
  qed
qed

lemma fill_frame [simp]:
  "length (lrank_to_lpid (fill g k js d)) = length (lrank_to_lpid d)"
  "g_size (fill g k js d) = g_size d" "idx_of_first_lpid (fill g k js d) = idx_of_first_lpid d"
  by (induction js arbitrary: k d) simp_all

lemma fill_maps:
  assumes "k + length js = length (lrank_to_lpid d)"
  shows "map lpid (lrank_to_lpid (fill g k js d)) =
      take k (map lpid (lrank_to_lpid d)) @ map (\<lambda>j. lpid (lrank_to_lpid g ! j)) js"
    and "map lrank (lrank_to_lpid (fill g k js d)) =
      take k (map lrank (lrank_to_lpid d)) @ map int [k..<k + length js]"
  using assms
proof (induction js arbitrary: k d)
  case (Cons j js)
  { case 1 then show ?case
      using Cons.IH(1) [of "Suc k" "member_upd g k j d"] by (simp add: take_Suc_conv_app_nth)
  next
    case 2 then show ?case
      using Cons.IH(2) [of "Suc k" "member_upd g k j d"]
      by (simp add: take_Suc_conv_app_nth upt_conv_Cons del: upt_Suc) }
qed simp_all

lemma rank_from_notin: "me \<notin> set ls \<Longrightarrow> rank_from k me ls = MPI_UNDEFINED"
  by (induction ls arbitrary: k) auto

lemma rank_from_eq:
  "distinct ls \<Longrightarrow> j < length ls \<Longrightarrow> int (k + j) = rank_from k me ls \<longleftrightarrow> ls ! j = me"
proof (induction ls arbitrary: k j)
  case (Cons l ls)
  have undef: "int n \<noteq> rank_from m me xs" if "me \<notin> set xs" for n m xs
    using that by (simp add: rank_from_notin MPI_UNDEFINED_def)
  have later: "rank_from (Suc m) me xs \<noteq> int m" for m xs
  proof -
    have "rank_from n me xs = MPI_UNDEFINED \<or> int n \<le> rank_from n me xs" for n
      by (induction xs arbitrary: n) (auto, meson lessI less_imp_le of_nat_le_iff order.trans)
    from this [of "Suc m"] show ?thesis by (auto simp: MPI_UNDEFINED_def)
  qed
  show ?case
  proof (cases j)
    case 0
    then show ?thesis using later [of k ls] by auto
  next
    case (Suc i)
    with Cons show ?thesis
      using Cons.IH [of i "Suc k"] by auto
  qed
qed simp

lemma fill_rank:
  assumes "distinct (map lpid (lrank_to_lpid g))" "g_rank g = rank_of me (map lpid (lrank_to_lpid g))"
    "\<forall>j\<in>set js. j < length (lrank_to_lpid g)" "distinct js"
  shows "g_rank (fill g k js d) =
    (let ls = map (\<lambda>j. lpid (lrank_to_lpid g ! j)) js
     in if me \<in> set ls then rank_from k me ls else g_rank d)"
  using assms
proof (induction js arbitrary: k d)
  case (Cons j js)
  have here: "int j = g_rank g \<longleftrightarrow> lpid (lrank_to_lpid g ! j) = me"
    using rank_from_eq [of "map lpid (lrank_to_lpid g)" j 0 me] Cons.prems by simp
  have "i = j" if "lpid (lrank_to_lpid g ! j) = me" "lpid (lrank_to_lpid g ! i) = me" "i \<in> set js" for i
    using that Cons.prems nth_eq_iff_index_eq [OF assms(1), of i j] by simp
  with Cons.prems have "me \<notin> (\<lambda>j. lpid (lrank_to_lpid g ! j)) ` set js"
    if "lpid (lrank_to_lpid g ! j) = me"
    using that by auto
  then show ?case
    using Cons here by (auto simp: Let_def)
qed simp

lemma fill_group_ok:
  assumes g: "group_ok me g" and js: "\<forall>j\<in>set js. j < length (lrank_to_lpid g)" "distinct js"
    and d: "length (lrank_to_lpid d) = length js" "g_size d = int (length js)"
      "g_rank d = MPI_UNDEFINED" "idx_of_first_lpid d = - 1"
  shows "group_ok me (fill g 0 js d)"
    and "map lpid (lrank_to_lpid (fill g 0 js d)) = map (\<lambda>j. map lpid (lrank_to_lpid g) ! j) js"
proof -
  let ?ls = "map (\<lambda>j. lpid (lrank_to_lpid g ! j)) js"
  have maps: "map lpid (lrank_to_lpid (fill g 0 js d)) = ?ls"
    "map lrank (lrank_to_lpid (fill g 0 js d)) = map int [0..<length js]"
    using fill_maps [of 0 js d g] d(1) by simp_all
  have "distinct ?ls"
    using g js nth_eq_iff_index_eq [of "map lpid (lrank_to_lpid g)"]
    by (auto simp: distinct_map inj_on_def group_ok_def)
  moreover have "\<forall>l\<in>set ?ls. 0 \<le> l"
    using g js(1) by (auto simp: group_ok_def)
  moreover have "g_rank (fill g 0 js d) = rank_of me ?ls"
    using fill_rank [of g me js 0 d] g js d(3) by (auto simp: group_ok_def Let_def rank_from_notin)
  ultimately show "group_ok me (fill g 0 js d)"
    unfolding group_ok_def maps using d by simp
  show "map lpid (lrank_to_lpid (fill g 0 js d)) = map (\<lambda>j. map lpid (lrank_to_lpid g) ! j) js"
    using maps(1) js(1) by simp
qed

subsection \<open>Group handles\<close>

definition MPID_Group_get_ptr :: "handle \<Rightarrow> gstate \<Rightarrow> addr option" where
  "MPID_Group_get_ptr h s = MPID_Getb_ptr 0x03ffffff h (gmem s)"

definition MpiaGroupValidateHandle :: "handle \<Rightarrow> gstate \<Rightarrow> mpi_error + addr" where
  "MpiaGroupValidateHandle h s =
     (if HANDLE_GET_MPI_KIND h \<noteq> kind_code MPID_GROUP \<or> HANDLE_GET_TYPE h = HANDLE_TYPE_INVALID
      then Inl (MPIU_ERR_CREATE MPI_ERR_GROUP ''**group'')
      else case MPID_Group_get_ptr h s of
        None \<Rightarrow> Inl (MPIU_ERR_CREATE MPI_ERR_GROUP ''**nullptrtype'')
      | Some p \<Rightarrow> Inr p)"

text \<open>\<open>new_group_ptr->handle\<close>.\<close>

definition group_handle :: "gstate \<Rightarrow> addr \<Rightarrow> handle" where
  "group_handle s p = (if p = Builtin 0 then MPI_GROUP_EMPTY else handle_at (gmem s) p)"

text \<open>
  The tail every constructor shares: create, fill in the members (\<open>body\<close>), return the handle.
\<close>

definition make_group ::
  "int \<Rightarrow> (addr \<Rightarrow> gstate \<Rightarrow> gstate option) \<Rightarrow> gstate \<Rightarrow> ((mpi_error + handle) \<times> gstate) option" where
  "make_group n body s =
     (case MPIR_Group_create n s of
        (Inl e, s1) \<Rightarrow> Some (Inl e, s1)
      | (Inr q, s1) \<Rightarrow> do { s2 \<leftarrow> body q s1; Some (Inr (group_handle s2 q), s2) })"

text \<open>The abstract value of a group handle: the lpids of its members in rank order.\<close>

definition group_members :: "handle \<Rightarrow> gstate \<Rightarrow> int list option" where
  "group_members h s =
     (case MpiaGroupValidateHandle h s of
        Inl _ \<Rightarrow> None
      | Inr p \<Rightarrow> map_option (\<lambda>g. map lpid (lrank_to_lpid g)) (gobj s p))"

definition group_pool_full :: "gstate \<Rightarrow> addr set \<Rightarrow> bool" where
  "group_pool_full s L \<longleftrightarrow>
     card L = direct_size (gmem s) + (HANDLE_BLOCK_INDEX_SIZE - 1) * HANDLE_BLOCK_SIZE"

text \<open>
  What a constructor promises: a group with members \<open>ls\<close>, or \<open>MPI_ERR_OTHER\<close> when memory is
  exhausted; every handle that was valid stays valid, with the same members.
\<close>

definition produces ::
  "int \<Rightarrow> gstate \<Rightarrow> addr set \<Rightarrow> int list \<Rightarrow> ((mpi_error + handle) \<times> gstate) option \<Rightarrow> bool" where
  "produces me s L ls out \<longleftrightarrow>
     (\<exists>r s' L'. out = Some (r, s') \<and> gstate_ok me s' L' \<and> L \<subseteq> L' \<and>
        (\<forall>h l. group_members h s = Some l \<longrightarrow> group_members h s' = Some l) \<and>
        (case r of
           Inl e \<Rightarrow> e = MPIU_ERR_NOMEM \<and> (mallocs (gmem s) \<noteq> [] \<or> group_pool_full s L)
         | Inr h \<Rightarrow> group_members h s' = Some ls))"

lemma get_ptr_empty: "MPID_Group_get_ptr MPI_GROUP_EMPTY s = Some (Builtin 0)"
  by (simp add: MPID_Group_get_ptr_def MPI_GROUP_EMPTY_def MPID_Getb_ptr_def HANDLE_GET_TYPE_def
      HANDLE_TYPE_defs)

lemma validate_empty: "MpiaGroupValidateHandle MPI_GROUP_EMPTY s = Inr (Builtin 0)"
  using get_ptr_empty [of s]
  by (simp add: MpiaGroupValidateHandle_def)
     (simp add: MPI_GROUP_EMPTY_def HANDLE_GET_TYPE_def HANDLE_GET_MPI_KIND_def HANDLE_TYPE_defs)

subsection \<open>The allocator grows\<close>

definition grows :: "objmem \<Rightarrow> objmem \<Rightarrow> bool" where
  "grows m m' \<longleftrightarrow> kind m' = kind m \<and> indirect_size m \<le> indirect_size m'"

lemma grows_refl [simp]: "grows m m"
  by (simp add: grows_def)

lemma grows_trans: "grows m n \<Longrightarrow> grows n o' \<Longrightarrow> grows m o'"
  by (simp add: grows_def)

lemma take_entry_frame [simp]:
  "indirect_size (take_entry a s) = indirect_size s" "mallocs (take_entry a s) = mallocs s"
  by (simp_all add: take_entry_def split: option.splits)

lemma obj_free_frame_sizes [simp]:
  "indirect_size (MPIU_Handle_obj_free a s) = indirect_size s"
  by (simp add: MPIU_Handle_obj_free_def split: option.splits)

lemma indirect_init_grows:
  assumes "objmem_inv s L" "MPIU_Handle_indirect_init s = (r, t)"
  shows "indirect_size s \<le> indirect_size t" "mallocs s = [] \<Longrightarrow> mallocs t = []"
proof -
  have "\<not> indirect s \<Longrightarrow> indirect_size s = 0"
    using assms(1) by (simp add: objmem_inv_def)
  then show "indirect_size s \<le> indirect_size t"
    using assms(2)
    by (auto simp: MPIU_Handle_indirect_init_def indirect_table_def add_block_def Let_def
        dest!: malloc_frame split: if_splits prod.splits bool.splits)
  show "mallocs t = []" if "mallocs s = []"
    using assms(2) that
    by (auto simp: MPIU_Handle_indirect_init_def indirect_table_def add_block_def Let_def malloc_def
        split: if_splits prod.splits bool.splits)
qed

lemma obj_alloc_grows:
  assumes "objmem_inv s L" "MPIU_Handle_obj_alloc s = (r, t)"
  shows "grows s t" "mallocs s = [] \<Longrightarrow> mallocs t = []"
proof -
  have *: "indirect_size s \<le> indirect_size t \<and> (mallocs s = [] \<longrightarrow> mallocs t = [])"
    using assms(2) indirect_init_grows [OF assms(1)]
    by (auto simp: MPIU_Handle_obj_alloc_def MPIU_Handle_obj_grow_def MPIU_Handle_direct_init_def
        split: option.splits prod.splits if_splits)
  then show "grows s t"
    using obj_alloc_kind [OF assms(2)] by (simp add: grows_def)
  show "mallocs s = [] \<Longrightarrow> mallocs t = []"
    using * by blast
qed

lemma malloc_grows: "malloc s = (b, t) \<Longrightarrow> grows s t"
  by (auto simp: grows_def dest!: malloc_frame)

subsection \<open>Creation\<close>

definition fresh_group :: "int \<Rightarrow> gstate \<Rightarrow> MPID_Group" where
  "fresh_group n s = \<lparr>g_size = n, g_rank = 0, idx_of_first_lpid = - 1,
     lrank_to_lpid = map (garbage s) [0..<nat n]\<rparr>"

lemma gstate_ok_gmem:
  "gstate_ok me s L \<Longrightarrow> objmem_inv m L \<Longrightarrow> kind m = MPID_GROUP \<Longrightarrow> gstate_ok me (s\<lparr>gmem := m\<rparr>) L"
  by (simp add: gstate_ok_def lpids_def)

lemma group_create_cases:
  assumes ok: "gstate_ok me s L" and create: "MPIR_Group_create n s = (r, s')"
  shows "(\<exists>m. r = Inl MPIU_ERR_NOMEM \<and> s' = s\<lparr>gmem := m\<rparr> \<and> gstate_ok me s' L \<and> grows (gmem s) m \<and>
      (mallocs (gmem s) \<noteq> [] \<or> group_pool_full s L)) \<or>
    (\<exists>m p. r = Inr p \<and> s' = put_group p (fresh_group n s) (s\<lparr>gmem := m\<rparr>) \<and> grows (gmem s) m \<and>
      p \<notin> L \<and> p \<noteq> Builtin 0 \<and> objmem_inv m (insert p L) \<and> kind m = MPID_GROUP)"
proof -
  have inv: "objmem_inv (gmem s) L" and kind: "kind (gmem s) = MPID_GROUP"
    using ok by (auto simp: gstate_ok_def)
  obtain q m where al: "MPIU_Handle_obj_alloc (gmem s) = (q, m)" by fastforce
  have m: "grows (gmem s) m" "kind m = MPID_GROUP" "mallocs (gmem s) = [] \<Longrightarrow> mallocs m = []"
    using obj_alloc_grows [OF inv al] obj_alloc_kind [OF al] kind by auto
  show ?thesis
  proof (cases q)
    case None
    have "objmem_inv m L"
      using obj_alloc_inv [OF inv al] None by simp
    moreover have "mallocs (gmem s) \<noteq> [] \<or> group_pool_full s L"
      using obj_alloc_None(2) [OF inv] al None by (auto simp: group_pool_full_def failed_malloc_def)
    ultimately show ?thesis
      using create al None m ok by (auto simp: MPIR_Group_create_def intro: gstate_ok_gmem)
  next
    case (Some p)
    have p: "p \<notin> L" "objmem_inv m (insert p L)"
      using obj_alloc_inv [OF inv al] Some by auto
    moreover from p(2) have builtin: "p \<noteq> Builtin 0"
      using live_in_pool [of m "insert p L"] by (auto simp: pool_addrs_def split: if_splits)
    moreover obtain ok' m' where ml: "malloc m = (ok', m')" by fastforce
    moreover obtain ms where m': "m' = m\<lparr>mallocs := ms\<rparr>"
      using malloc_frame [OF ml] by blast
    ultimately have inv': "objmem_inv m' (insert p L)" "objmem_inv (MPIU_Handle_obj_free p m') L"
      using obj_free_inv [of m' "insert p L" p] by auto
    have grow: "grows (gmem s) m'" "grows (gmem s) (MPIU_Handle_obj_free p m')"
        "kind m' = MPID_GROUP" "kind (MPIU_Handle_obj_free p m') = MPID_GROUP"
      using m(1,2) m' by (auto simp: grows_def frame_simps)
    show ?thesis
    proof (cases ok')
      case True
      then have "r = Inr p" "s' = put_group p (fresh_group n s) (s\<lparr>gmem := m'\<rparr>)"
        using create al Some ml by (auto simp: MPIR_Group_create_def fresh_group_def)
      with p builtin inv' grow show ?thesis by blast
    next
      case False
      then have "mallocs (gmem s) \<noteq> []"
        using ml m(3) by (auto simp: malloc_def)
      moreover have "r = Inl MPIU_ERR_NOMEM" "s' = s\<lparr>gmem := MPIU_Handle_obj_free p m'\<rparr>"
        using create al Some ml False by (auto simp: MPIR_Group_create_def)
      ultimately show ?thesis
        using gstate_ok_gmem [OF ok inv'(2) grow(4)] grow by blast
    qed
  qed
qed

subsection \<open>A constructor keeps its promise\<close>

lemma getb_ptr_grows: "MPID_Getb_ptr b h m = Some p \<Longrightarrow> grows m m' \<Longrightarrow> MPID_Getb_ptr b h m' = Some p"
  by (auto simp: MPID_Getb_ptr_def MPIU_Handle_get_ptr_indirect_def grows_def split: if_splits)

lemma validate_grows:
  "MpiaGroupValidateHandle h s = Inr p \<Longrightarrow> grows (gmem s) (gmem s') \<Longrightarrow>
   MpiaGroupValidateHandle h s' = Inr p"
  by (auto simp: MpiaGroupValidateHandle_def MPID_Group_get_ptr_def
      split: if_splits option.splits dest: getb_ptr_grows)

lemma validate_same: "gmem s' = gmem s \<Longrightarrow> MpiaGroupValidateHandle h s' = MpiaGroupValidateHandle h s"
  by (simp add: MpiaGroupValidateHandle_def MPID_Group_get_ptr_def)

lemma group_members_eq:
  "group_members h s = Some l \<longleftrightarrow>
   (\<exists>p. MpiaGroupValidateHandle h s = Inr p \<and> p \<in> dom (gobj s) \<and> lpids s p = l)"
  by (auto simp: group_members_def lpids_def split: sum.splits option.splits)

lemma members_kept:
  assumes "keeps s s'" "grows (gmem s) (gmem s')" "group_members h s = Some l"
  shows "group_members h s' = Some l"
  using assms validate_grows [of h s _ s'] unfolding group_members_eq keeps_def by metis

lemma addr_handle_type_kind:
  assumes "p \<in> pool_addrs m" "objmem_inv m L"
  shows "HANDLE_GET_TYPE (addr_handle (kind m) p) \<in> {HANDLE_TYPE_DIRECT, HANDLE_TYPE_INDIRECT}"
    and "HANDLE_GET_MPI_KIND (addr_handle (kind m) p) = kind_code (kind m)"
proof -
  have *: "HANDLE_GET_TYPE (addr_handle (kind m) p) \<in> {HANDLE_TYPE_DIRECT, HANDLE_TYPE_INDIRECT} \<and>
      HANDLE_GET_MPI_KIND (addr_handle (kind m) p) = kind_code (kind m)"
    using assms(1)
  proof (cases rule: pool_addrs_cases)
    case (1 i)
    with assms(2) show ?thesis
      using direct_fields [of i "kind m"] by (simp add: direct_handle_def handle_readback objmem_inv_def)
  next
    case (2 b i)
    with assms(2) have "b < HANDLE_BLOCK_INDEX_SIZE"
      by (simp add: objmem_inv_def HANDLE_BLOCK_INDEX_SIZE_def)
    with 2 show ?thesis
      using indirect_fields [of b i "kind m"] by (simp add: indirect_handle_def handle_readback)
  qed
  then show "HANDLE_GET_TYPE (addr_handle (kind m) p) \<in> {HANDLE_TYPE_DIRECT, HANDLE_TYPE_INDIRECT}"
    and "HANDLE_GET_MPI_KIND (addr_handle (kind m) p) = kind_code (kind m)"
    by auto
qed

lemma validate_live:
  assumes "gstate_ok me s L" "p \<in> L"
  shows "MpiaGroupValidateHandle (handle_at (gmem s) p) s = Inr p"
proof -
  have inv: "objmem_inv (gmem s) L" "kind (gmem s) = MPID_GROUP"
    using assms(1) by (auto simp: gstate_ok_def)
  have p: "p \<in> pool_addrs (gmem s)"
    using live_in_pool [OF inv(1)] assms(2) by blast
  note h = addr_handle_type_kind [OF p inv(1)] get_ptr_addr [OF inv(1) p]
    handle_at_live [OF inv(1) assms(2)]
  have "MPID_Getb_ptr 0x03ffffff (handle_at (gmem s) p) (gmem s) = Some p"
    using h by (auto simp: MPID_Getb_ptr_def MPID_Get_ptr_def HANDLE_TYPE_defs split: if_splits)
  then show ?thesis
    using h inv(2) by (auto simp: MpiaGroupValidateHandle_def MPID_Group_get_ptr_def HANDLE_TYPE_defs)
qed

lemma group_members_empty: "gstate_ok me s L \<Longrightarrow> group_members MPI_GROUP_EMPTY s = Some []"
  by (auto simp: group_members_eq validate_empty gstate_ok_def)

lemma gstate_ok_insert:
  assumes "gstate_ok me s L" "p \<notin> L" "p \<noteq> Builtin 0" "group_ok me g"
    "objmem_inv m (insert p L)" "kind m = MPID_GROUP"
  shows "gstate_ok me (put_group p g (s\<lparr>gmem := m\<rparr>)) (insert p L)"
  using assms by (auto simp: gstate_ok_def lpids_def split: if_splits)

lemma gstate_ok_shift:
  "gstate_ok me s L \<Longrightarrow> same s u \<Longrightarrow> gstate_ok me u L \<Longrightarrow> p \<notin> L \<Longrightarrow> p \<noteq> Builtin 0 \<Longrightarrow>
   keeps s (put_group p g (u\<lparr>gmem := m\<rparr>))"
  by (auto simp: keeps_def gstate_ok_def lpids_def same_def fun_eq_iff split: option.splits)

lemma make_group_body:
  assumes ok: "gstate_ok me s L"
    and body: "\<And>q m. q \<notin> L \<Longrightarrow> q \<noteq> Builtin 0 \<Longrightarrow>
      \<exists>g u. body q (put_group q (fresh_group n s) (s\<lparr>gmem := m\<rparr>)) = Some (put_group q g (u\<lparr>gmem := m\<rparr>)) \<and>
          same s u \<and> gstate_ok me u L \<and> group_ok me g \<and> map lpid (lrank_to_lpid g) = ls"
  shows "produces me s L ls (make_group n body s)"
proof -
  obtain r s1 where create: "MPIR_Group_create n s = (r, s1)" by fastforce
  then consider
    (fail) m where "r = Inl MPIU_ERR_NOMEM" "s1 = s\<lparr>gmem := m\<rparr>" "gstate_ok me s1 L" "grows (gmem s) m"
      "mallocs (gmem s) \<noteq> [] \<or> group_pool_full s L"
  | (new) m p where "r = Inr p" "s1 = put_group p (fresh_group n s) (s\<lparr>gmem := m\<rparr>)" "grows (gmem s) m"
      "p \<notin> L" "p \<noteq> Builtin 0" "objmem_inv m (insert p L)" "kind m = MPID_GROUP"
    using group_create_cases [OF ok create] by blast
  then show ?thesis
  proof cases
    case *: fail
    have "keeps s s1"
      using *(2) by (simp add: keeps_def lpids_def)
    with * create show ?thesis
      by (auto simp: make_group_def produces_def intro!: exI [of _ L] members_kept [of s])
  next
    case *: new
    obtain g u where g: "body p s1 = Some (put_group p g (u\<lparr>gmem := m\<rparr>))" "same s u" "gstate_ok me u L"
      "group_ok me g" "map lpid (lrank_to_lpid g) = ls"
      using body [OF *(4,5)] *(2) by blast
    let ?s2 = "put_group p g (u\<lparr>gmem := m\<rparr>)"
    have ok2: "gstate_ok me ?s2 (insert p L)"
      using g(3) *(4,5) g(4) *(6,7) by (rule gstate_ok_insert)
    have "group_members (group_handle ?s2 p) ?s2 = Some ls"
      using validate_live [OF ok2, of p] g(5) *(5) by (auto simp: group_members_eq group_handle_def)
    moreover have "\<forall>h l. group_members h s = Some l \<longrightarrow> group_members h ?s2 = Some l"
      using gstate_ok_shift [OF ok g(2,3) *(4,5)] *(3) by (auto intro!: members_kept [of s])
    moreover have "make_group n body s = Some (Inr (group_handle ?s2 p), ?s2)"
      using create *(1) g(1) by (simp add: make_group_def)
    ultimately show ?thesis
      using ok2 unfolding produces_def by (auto intro!: exI [of _ "insert p L"])
  qed
qed

lemma make_group_produces:
  assumes ok: "gstate_ok me s L"
    and body: "\<And>q m. q \<notin> L \<Longrightarrow> q \<noteq> Builtin 0 \<Longrightarrow>
      \<exists>g. body q (put_group q (fresh_group n s) (s\<lparr>gmem := m\<rparr>)) = Some (put_group q g (s\<lparr>gmem := m\<rparr>)) \<and>
          group_ok me g \<and> map lpid (lrank_to_lpid g) = ls"
  shows "produces me s L ls (make_group n body s)"
  using make_group_body [OF ok, of body n ls] body ok same_refl by blast

text \<open>A constructor may first rebuild lists and flags.\<close>

lemma produces_same:
  assumes "same s t" "produces me t L ls out"
  shows "produces me s L ls out"
proof -
  have mem: "gmem t = gmem s"
    using assms(1) by (simp add: same_def)
  have "group_members h t = Some l" if "group_members h s = Some l" for h l
    using members_kept [OF same_keeps [OF assms(1)] _ that] mem by simp
  moreover obtain r s' L' where out: "out = Some (r, s')" "gstate_ok me s' L'" "L \<subseteq> L'"
    "\<forall>h l. group_members h t = Some l \<longrightarrow> group_members h s' = Some l"
    "case r of Inl e \<Rightarrow> e = MPIU_ERR_NOMEM \<and> (mallocs (gmem t) \<noteq> [] \<or> group_pool_full t L)
     | Inr h \<Rightarrow> group_members h s' = Some ls"
    using assms(2) by (auto simp: produces_def)
  ultimately show ?thesis
    unfolding produces_def using mem
    by (intro exI [of _ r] exI [of _ s'] exI [of _ L']) (simp add: group_pool_full_def split: sum.splits)
qed

lemma produces_empty:
  assumes "gstate_ok me s L"
  shows "produces me s L [] (Some (Inr MPI_GROUP_EMPTY, s))"
  using assms group_members_empty [OF assms] by (auto simp: produces_def)

subsection \<open>Constructors that pick members by their flags\<close>

lemma upto_upt: "[0..int n - 1] = map int [0..<n]"
proof (induction n)
  case (Suc n)
  then show ?case
    using upto_rec2 [of 0 "int n"] by simp
qed simp

lemma clear_flags_mark:
  "n = length (lpids s p) \<Longrightarrow> clear_flags p (int n) s = Some (mark p {0..<n} 0 s)"
  using flag_all_mark [of "[0..<n]" s p 0] by (simp add: clear_flags_def upto_upt)

lemma filter_members:
  "map (\<lambda>j. ls ! j) (filter (\<lambda>k. P (ls ! k)) [0..<length ls]) = filter P ls"
proof -
  have "filter P (map (\<lambda>j. ls ! j) [0..<length ls]) = filter P ls"
    by (simp only: map_nth)
  then show ?thesis
    by (simp add: filter_map comp_def)
qed

lemma other_than_fresh: "gstate_ok me s L \<Longrightarrow> gobj s p = Some g \<Longrightarrow> q \<notin> L \<Longrightarrow> q \<noteq> Builtin 0 \<Longrightarrow> p \<noteq> q"
  by (auto simp: gstate_ok_def)

lemma put_group_gmem: "put_group p g (s\<lparr>gmem := m\<rparr>) = (put_group p g s)\<lparr>gmem := m\<rparr>"
  by (simp add: put_group_def)

lemma pick_group:
  assumes ok: "gstate_ok me t L" and g: "gobj t p = Some g" and q: "q \<notin> L" "q \<noteq> Builtin 0"
    and flags: "\<forall>k<length (lpids t p). (flag_of t p k \<noteq> 0) = want \<longleftrightarrow> Q k"
    and n: "n = int (length (filter Q [0..<length (lpids t p)]))"
  shows "\<exists>d. pick_loop want p q [0..g_size g - 1] 0
      (put_group q ((fresh_group n t)\<lparr>g_rank := MPI_UNDEFINED\<rparr>) (t\<lparr>gmem := m\<rparr>)) =
      Some (put_group q d (t\<lparr>gmem := m\<rparr>)) \<and> group_ok me d \<and>
      map lpid (lrank_to_lpid d) = map (\<lambda>k. lpids t p ! k) (filter Q [0..<length (lpids t p)]) \<and>
      g_size d = n \<and> idx_of_first_lpid d = - 1"
proof -
  let ?l = "lpids t p" and ?u = "t\<lparr>gmem := m\<rparr>"
  let ?d = "(fresh_group n t)\<lparr>g_rank := MPI_UNDEFINED\<rparr>"
  let ?js = "filter (\<lambda>i. (flag (lrank_to_lpid g ! i) \<noteq> 0) = want) [0..<length ?l]"
  note at = gstate_ok_at [OF ok g]
  have js: "?js = filter Q [0..<length ?l]"
    using flags g by (intro filter_cong) (auto simp: flag_of_def)
  have d: "length (lrank_to_lpid ?d) = length ?js" "g_size ?d = int (length ?js)"
    unfolding js using n by (simp_all add: fresh_group_def)
  have qp: "p \<noteq> q"
    using ok g q by (rule other_than_fresh)
  let ?g = "fill g 0 ?js ?d"
  have "pick_loop want p q (map int [0..<length ?l]) (int 0) (put_group q ?d ?u) =
      Some (put_group q ?g (put_group q ?d ?u))"
    by (rule pick_loop_fill) (use qp g d(1) at(4) in simp_all)
  then have "pick_loop want p q [0..g_size g - 1] 0 (put_group q ?d ?u) = Some (put_group q ?g ?u)"
    using at(2) by (simp add: upto_upt)
  moreover have jl: "\<forall>j\<in>set ?js. j < length (lrank_to_lpid g)" "distinct ?js"
    using at(4) by simp_all
  have "g_rank ?d = MPI_UNDEFINED" "idx_of_first_lpid ?d = - 1"
    by (simp_all add: fresh_group_def)
  note filled = fill_group_ok [OF at(1) jl d this]
  moreover have "g_size ?g = n" "idx_of_first_lpid ?g = - 1"
    by (simp_all add: fresh_group_def)
  ultimately show ?thesis
    using filled js at(3) by auto
qed

lemma pick_produces:
  fixes want :: bool and t :: gstate
  assumes ok: "gstate_ok me t L" and g: "gobj t p = Some g"
    and flags: "\<forall>k<length (lpids t p). (flag_of t p k \<noteq> 0) = want \<longleftrightarrow> Q (lpids t p ! k)"
    and n: "n = int (length (filter Q (lpids t p)))"
    and fin: "\<And>q u. q \<noteq> p \<Longrightarrow> body q u = do {
        u' \<leftarrow> set_rank MPI_UNDEFINED q u; pick_loop want p q [0..g_size g - 1] 0 u' }"
  shows "produces me t L (filter Q (lpids t p)) (make_group n body t)"
proof (rule make_group_produces [OF ok])
  fix q m
  assume q: "q \<notin> L" "q \<noteq> Builtin 0"
  let ?l = "lpids t p" and ?u = "t\<lparr>gmem := m\<rparr>"
  let ?ks = "filter (\<lambda>k. Q (?l ! k)) [0..<length ?l]"
  have picked: "map (\<lambda>k. ?l ! k) ?ks = filter Q ?l"
    by (rule filter_members)
  have "n = int (length ?ks)"
    using n arg_cong [OF picked, of length] by (simp only: length_map)
  from pick_group [OF ok g q flags this] obtain d where d:
    "pick_loop want p q [0..g_size g - 1] 0
       (put_group q ((fresh_group n t)\<lparr>g_rank := MPI_UNDEFINED\<rparr>) ?u) = Some (put_group q d ?u)"
    "group_ok me d" "map lpid (lrank_to_lpid d) = filter Q ?l"
    unfolding picked by blast
  moreover have "p \<noteq> q"
    using ok g q by (rule other_than_fresh)
  ultimately show "\<exists>g. body q (put_group q (fresh_group n t) ?u) = Some (put_group q g ?u) \<and>
      group_ok me g \<and> map lpid (lrank_to_lpid g) = filter Q ?l"
    by (auto simp: fin set_rank_def)
qed

end
