(* ===== verification/Group_Demo.thy ===== *)
theory Group_Demo
  imports Group_Build
begin

text \<open>
  A small concrete world of groups, on which the witnesses of the group properties evaluate.
\<close>

text \<open>Process 3 sees group A with processes 5, 3, 9 and group B with 9, 4, 3.\<close>

definition demo_group :: "int list \<Rightarrow> MPID_Group" where
  "demo_group ls = \<lparr>g_size = int (length ls), g_rank = rank_of 3 ls, idx_of_first_lpid = - 1,
     lrank_to_lpid = map (\<lambda>i. \<lparr>lrank = int i, lpid = ls ! i, next_lpid = 0, flag = 0\<rparr>) [0..<length ls]\<rparr>"

definition demo_junk :: "nat \<Rightarrow> MPID_Group_pmap_t" where
  "demo_junk i = \<lparr>lrank = 77, lpid = - 7, next_lpid = 77, flag = 77\<rparr>"

definition demo_mem :: "nat \<Rightarrow> objmem" where
  "demo_mem n = ((snd \<circ> MPIU_Handle_obj_alloc) ^^ n) (objmem_init MPID_GROUP MPID_GROUP_PREALLOC [])"

definition demo :: gstate where
  "demo = put_group (Direct 1) (demo_group [9, 4, 3]) (put_group (Direct 0) (demo_group [5, 3, 9])
     (gstate_init demo_junk [] \<lparr>gmem := demo_mem 2\<rparr>))"

definition handle_A :: handle where "handle_A = 0x88000000"
definition handle_B :: handle where "handle_B = 0x88000001"

lemma demo_group_ok:
  "distinct ls \<Longrightarrow> \<forall>l\<in>set ls. 0 \<le> l \<Longrightarrow> group_ok 3 (demo_group ls)"
  unfolding group_ok_def demo_group_def by (simp add: comp_def map_nth)

lemma gstate_ok_init: "gstate_ok me (gstate_init junk ms) {}"
  by (auto simp: gstate_ok_def gstate_init_def lpids_def empty_group_def group_ok_def linked_def
      MPID_GROUP_PREALLOC_def objmem_init_def
      intro!: objmem_inv_init [of 8 MPID_GROUP ms, unfolded objmem_init_def] split: if_splits)

lemma demo_mem_alloc:
  "fst (MPIU_Handle_obj_alloc (demo_mem 0)) = Some (Direct 0)"
  "fst (MPIU_Handle_obj_alloc (demo_mem 1)) = Some (Direct 1)"
  "demo_mem 1 = snd (MPIU_Handle_obj_alloc (demo_mem 0))"
  "demo_mem 2 = snd (MPIU_Handle_obj_alloc (demo_mem 1))"
  by (simp_all add: demo_mem_def objmem_init_def MPIU_Handle_obj_alloc_def MPIU_Handle_obj_grow_def
      MPIU_Handle_direct_init_def take_entry_def slab_entry_def MPID_GROUP_PREALLOC_def
      numeral_2_eq_2 eval_nat_numeral)

lemma demo_mem_inv: "objmem_inv (demo_mem 2) {Direct 0, Direct 1}" "kind (demo_mem 2) = MPID_GROUP"
proof -
  have "objmem_inv (demo_mem 0) {}"
    by (simp add: demo_mem_def MPID_GROUP_PREALLOC_def objmem_inv_init)
  then have "objmem_inv (demo_mem 1) {Direct 0}"
    using obj_alloc_inv [of "demo_mem 0" "{}" "Some (Direct 0)" "demo_mem 1"] demo_mem_alloc
    by (simp add: prod_eq_iff)
  then show "objmem_inv (demo_mem 2) {Direct 0, Direct 1}"
    using obj_alloc_inv [of "demo_mem 1" "{Direct 0}" "Some (Direct 1)" "demo_mem 2"] demo_mem_alloc
    by (simp add: prod_eq_iff insert_commute)
  have "kind (demo_mem 2) = kind (demo_mem 0)"
    using obj_alloc_kind [of "demo_mem 0" "Some (Direct 0)" "demo_mem 1"]
      obj_alloc_kind [of "demo_mem 1" "Some (Direct 1)" "demo_mem 2"] demo_mem_alloc
    by (simp add: prod_eq_iff)
  then show "kind (demo_mem 2) = MPID_GROUP"
    by (simp add: demo_mem_def objmem_init_def)
qed

lemma demo_group_lpids [simp]: "map lpid (lrank_to_lpid (demo_group ls)) = ls"
  by (simp add: demo_group_def comp_def map_nth)

lemma demo_gobj:
  "gobj demo = [Builtin 0 \<mapsto> empty_group, Direct 0 \<mapsto> demo_group [5, 3, 9], Direct 1 \<mapsto> demo_group [9, 4, 3]]"
  "gmem demo = demo_mem 2"
  by (simp_all add: demo_def gstate_init_def)

lemma demo_ok: "gstate_ok 3 demo {Direct 0, Direct 1}"
proof -
  have "group_ok 3 (demo_group [9, 4, 3])" "group_ok 3 (demo_group [5, 3, 9])"
    by (rule demo_group_ok; simp)+
  moreover have "group_ok 3 empty_group"
    by (simp add: empty_group_def group_ok_def linked_def)
  moreover have "lpids demo (Builtin 0) = []"
    by (simp add: lpids_def demo_gobj empty_group_def)
  moreover have "dom (gobj demo) = insert (Builtin 0) {Direct 0, Direct 1}"
    by (auto simp: demo_gobj)
  ultimately show ?thesis
    using demo_mem_inv unfolding gstate_ok_def by (simp add: demo_gobj)
qed

lemma demo_handles:
  "MpiaGroupValidateHandle handle_A demo = Inr (Direct 0)"
  "MpiaGroupValidateHandle handle_B demo = Inr (Direct 1)"
  by (simp_all add: MpiaGroupValidateHandle_def MPID_Group_get_ptr_def MPID_Getb_ptr_def handle_A_def
      handle_B_def HANDLE_GET_TYPE_def HANDLE_GET_MPI_KIND_def HANDLE_TYPE_defs HANDLE_DIRECT_INDEX_def)

lemma demo_members:
  "group_members handle_A demo = Some [5, 3, 9]" "group_members handle_B demo = Some [9, 4, 3]"
  by (simp_all add: group_members_def demo_handles demo_gobj)

lemma demo_mallocs: "mallocs (gmem demo) = []"
proof -
  have "objmem_inv (demo_mem 0) {}"
    by (simp add: demo_mem_def MPID_GROUP_PREALLOC_def objmem_inv_init)
  moreover have "objmem_inv (demo_mem 1) {Direct 0}"
    using obj_alloc_inv [OF calculation, of "Some (Direct 0)" "demo_mem 1"] demo_mem_alloc
    by (simp add: prod_eq_iff)
  moreover have "mallocs (demo_mem 0) = []"
    by (simp add: demo_mem_def objmem_init_def)
  ultimately show ?thesis
    using obj_alloc_grows(2) [of "demo_mem 0" "{}" "Some (Direct 0)" "demo_mem 1"]
      obj_alloc_grows(2) [of "demo_mem 1" "{Direct 0}" "Some (Direct 1)" "demo_mem 2"] demo_mem_alloc
    by (simp add: prod_eq_iff demo_gobj)
qed

end
