(* ===== verification/Group_Sets.thy ===== *)
theory Group_Sets
  imports Group_Demo
begin

text \<open>
  The set operations of \<open>src/mpi/msmpi/api/mpi_group.cpp\<close>: \<open>MPI_Group_compare\<close>,
  \<open>MPI_Group_difference\<close>, \<open>MPI_Group_intersection\<close>, \<open>MPI_Group_union\<close>, \<open>MPI_Group_rank\<close>,
  \<open>MPI_Group_size\<close>, \<open>MPI_Group_translate_ranks\<close> and \<open>MPI_Group_free\<close>. They walk the two
  groups in lpid order; the specification is about the lists of members in rank order.
  A boolean argument says whether the caller's output pointer is not null. An error is the code
  handed to the error handler (\<open>MPIR_Err_return_comm\<close>).
\<close>

definition MPI_IDENT :: int where "MPI_IDENT = 0"
definition MPI_SIMILAR :: int where "MPI_SIMILAR = 2"
definition MPI_UNEQUAL :: int where "MPI_UNEQUAL = 3"

type_synonym 'a group_call = "((mpi_error + 'a) \<times> gstate) option"

definition api_fail :: "mpi_class \<Rightarrow> string \<Rightarrow> gstate \<Rightarrow> 'a group_call" where
  "api_fail c key s = Some (Inl (MPIU_ERR_CREATE c key), s)"

definition with_group :: "handle \<Rightarrow> gstate \<Rightarrow> (addr \<Rightarrow> 'a group_call) \<Rightarrow> 'a group_call" where
  "with_group h s f = (case MpiaGroupValidateHandle h s of Inl e \<Rightarrow> Some (Inl e, s) | Inr p \<Rightarrow> f p)"

subsection \<open>Queries\<close>

definition MPI_Group_size :: "handle \<Rightarrow> bool \<Rightarrow> gstate \<Rightarrow> int group_call" where
  "MPI_Group_size h psize s =
     with_group h s (\<lambda>p.
       if \<not> psize then api_fail MPI_ERR_ARG ''**nullptr'' s
       else do { g \<leftarrow> gobj s p; Some (Inr (g_size g), s) })"

definition MPI_Group_rank :: "handle \<Rightarrow> bool \<Rightarrow> gstate \<Rightarrow> int group_call" where
  "MPI_Group_rank h prank s =
     with_group h s (\<lambda>p.
       if \<not> prank then api_fail MPI_ERR_ARG ''**nullptr'' s
       else do { g \<leftarrow> gobj s p; Some (Inr (g_rank g), s) })"

text \<open>The two walks of \<open>MPI_Group_compare\<close>: in lpid order, then in rank order.\<close>

partial_function (option) compare_loop :: "gstate \<Rightarrow> addr \<Rightarrow> addr \<Rightarrow> int \<Rightarrow> int \<Rightarrow> bool option" where
  "compare_loop s p1 p2 g1_idx g2_idx =
     (if 0 \<le> g1_idx \<and> 0 \<le> g2_idx then do {
        e1 \<leftarrow> pmap_at s p1 g1_idx;
        e2 \<leftarrow> pmap_at s p2 g2_idx;
        if lpid e1 \<noteq> lpid e2 then Some False
        else compare_loop s p1 p2 (next_lpid e1) (next_lpid e2)
      } else Some True)"

fun same_ranks :: "gstate \<Rightarrow> addr \<Rightarrow> addr \<Rightarrow> int list \<Rightarrow> bool option" where
  "same_ranks s p1 p2 [] = Some True"
| "same_ranks s p1 p2 (i # is) = do {
     e1 \<leftarrow> pmap_at s p1 i;
     e2 \<leftarrow> pmap_at s p2 i;
     if lpid e1 \<noteq> lpid e2 then Some False else same_ranks s p1 p2 is
   }"

definition MPI_Group_compare :: "handle \<Rightarrow> handle \<Rightarrow> bool \<Rightarrow> gstate \<Rightarrow> int group_call" where
  "MPI_Group_compare h1 h2 result s =
     with_group h1 s (\<lambda>p1. with_group h2 s (\<lambda>p2.
       if \<not> result then api_fail MPI_ERR_ARG ''**nullptr'' s
       else do {
         g1 \<leftarrow> gobj s p1;
         g2 \<leftarrow> gobj s p2;
         if g_size g1 \<noteq> g_size g2 then Some (Inr MPI_UNEQUAL, s)
         else do {
           s1 \<leftarrow> setup_if_unset p1 s;
           s2 \<leftarrow> setup_if_unset p2 s1;
           g1 \<leftarrow> gobj s2 p1;
           g2 \<leftarrow> gobj s2 p2;
           eq \<leftarrow> compare_loop s2 p1 p2 (idx_of_first_lpid g1) (idx_of_first_lpid g2);
           if \<not> eq then Some (Inr MPI_UNEQUAL, s2)
           else do {
             ident \<leftarrow> same_ranks s2 p1 p2 [0..g_size g1 - 1];
             Some (Inr (if ident then MPI_IDENT else MPI_SIMILAR), s2)
           }
         }
       }))"

subsection \<open>Difference and intersection\<close>

text \<open>
  The walk that flags the members of \<open>p1\<close> found in \<open>p2\<close>; \<open>nnew\<close> goes down by one at each in
  \<open>MPI_Group_difference\<close> (\<open>delta = -1\<close>) and up by one in \<open>MPI_Group_intersection\<close> (\<open>delta = 1\<close>).
\<close>

partial_function (option) match_loop ::
  "int \<Rightarrow> addr \<Rightarrow> addr \<Rightarrow> gstate \<Rightarrow> int \<Rightarrow> int \<Rightarrow> int \<Rightarrow> (gstate \<times> int) option" where
  "match_loop delta p1 p2 s g1_idx g2_idx nnew =
     (if 0 \<le> g1_idx \<and> 0 \<le> g2_idx then do {
        e1 \<leftarrow> pmap_at s p1 g1_idx;
        e2 \<leftarrow> pmap_at s p2 g2_idx;
        if lpid e1 < lpid e2 then match_loop delta p1 p2 s (next_lpid e1) g2_idx nnew
        else if lpid e1 > lpid e2 then match_loop delta p1 p2 s g1_idx (next_lpid e2) nnew
        else do {
          s' \<leftarrow> set_flag 1 s p1 g1_idx;
          e1' \<leftarrow> pmap_at s' p1 g1_idx;
          e2' \<leftarrow> pmap_at s' p2 g2_idx;
          match_loop delta p1 p2 s' (next_lpid e1') (next_lpid e2') (nnew + delta)
        }
      } else Some (s, nnew))"

definition MPI_Group_difference :: "handle \<Rightarrow> handle \<Rightarrow> bool \<Rightarrow> gstate \<Rightarrow> handle group_call" where
  "MPI_Group_difference h1 h2 newgroup s =
     with_group h1 s (\<lambda>p1. with_group h2 s (\<lambda>p2.
       if \<not> newgroup then api_fail MPI_ERR_ARG ''**nullptr'' s
       else do {
         s1 \<leftarrow> MPIR_Group_setup_lpid_pairs p1 p2 s;
         g1 \<leftarrow> gobj s1 p1;
         g2 \<leftarrow> gobj s1 p2;
         s2 \<leftarrow> clear_flags p1 (g_size g1) s1;
         (s3, nnew) \<leftarrow> match_loop (- 1) p1 p2 s2 (idx_of_first_lpid g1) (idx_of_first_lpid g2) (g_size g1);
         if nnew = 0 then Some (Inr MPI_GROUP_EMPTY, s3)
         else make_group nnew (\<lambda>q t. do {
                t' \<leftarrow> set_rank MPI_UNDEFINED q t;
                pick_loop False p1 q [0..g_size g1 - 1] 0 t'
              }) s3
       }))"

definition MPI_Group_intersection :: "handle \<Rightarrow> handle \<Rightarrow> bool \<Rightarrow> gstate \<Rightarrow> handle group_call" where
  "MPI_Group_intersection h1 h2 newgroup s =
     with_group h1 s (\<lambda>p1. with_group h2 s (\<lambda>p2.
       if \<not> newgroup then api_fail MPI_ERR_ARG ''**nullptr'' s
       else do {
         s1 \<leftarrow> MPIR_Group_setup_lpid_pairs p1 p2 s;
         g1 \<leftarrow> gobj s1 p1;
         g2 \<leftarrow> gobj s1 p2;
         s2 \<leftarrow> clear_flags p1 (g_size g1) s1;
         (s3, nnew) \<leftarrow> match_loop 1 p1 p2 s2 (idx_of_first_lpid g1) (idx_of_first_lpid g2) 0;
         if nnew = 0 then Some (Inr MPI_GROUP_EMPTY, s3)
         else make_group nnew (\<lambda>q t. do {
                t' \<leftarrow> set_rank MPI_UNDEFINED q t;
                pick_loop True p1 q [0..g_size g1 - 1] 0 t'
              }) s3
       }))"

subsection \<open>Union\<close>

partial_function (option) union_loop ::
  "addr \<Rightarrow> addr \<Rightarrow> gstate \<Rightarrow> int \<Rightarrow> int \<Rightarrow> int \<Rightarrow> (gstate \<times> int \<times> int) option" where
  "union_loop p1 p2 s g1_idx g2_idx nnew =
     (if 0 \<le> g1_idx \<and> 0 \<le> g2_idx then do {
        e1 \<leftarrow> pmap_at s p1 g1_idx;
        e2 \<leftarrow> pmap_at s p2 g2_idx;
        if lpid e1 > lpid e2 then do {
          s' \<leftarrow> set_flag 1 s p2 g2_idx;
          e2' \<leftarrow> pmap_at s' p2 g2_idx;
          union_loop p1 p2 s' g1_idx (next_lpid e2') (nnew + 1)
        }
        else if lpid e1 = lpid e2 then union_loop p1 p2 s (next_lpid e1) (next_lpid e2) nnew
        else union_loop p1 p2 s (next_lpid e1) g2_idx nnew
      } else Some (s, g2_idx, nnew))"

text \<open>"If we hit the end of group1, add the remaining members of group 2".\<close>

partial_function (option) union_rest :: "addr \<Rightarrow> gstate \<Rightarrow> int \<Rightarrow> int \<Rightarrow> (gstate \<times> int) option" where
  "union_rest p2 s g2_idx nnew =
     (if 0 \<le> g2_idx then do {
        s' \<leftarrow> set_flag 1 s p2 g2_idx;
        e \<leftarrow> pmap_at s' p2 g2_idx;
        union_rest p2 s' (next_lpid e) (nnew + 1)
      } else Some (s, nnew))"

fun copy_loop :: "addr \<Rightarrow> addr \<Rightarrow> int list \<Rightarrow> gstate \<Rightarrow> gstate option" where
  "copy_loop src dst [] s = Some s"
| "copy_loop src dst (i # is) s = do { s' \<leftarrow> put_entry src dst i i s; copy_loop src dst is s' }"

fun union_add ::
  "addr \<Rightarrow> addr \<Rightarrow> int \<Rightarrow> int list \<Rightarrow> int \<Rightarrow> gstate \<Rightarrow> gstate option" where
  "union_add p2 q mylpid [] k s = Some s"
| "union_add p2 q mylpid (i # is) k s = do {
     e \<leftarrow> pmap_at s p2 i;
     if flag e \<noteq> 0 then do {
       s1 \<leftarrow> put_entry p2 q k i s;
       g \<leftarrow> gobj s1 q;
       e' \<leftarrow> pmap_at s1 p2 i;
       s2 \<leftarrow> (if g_rank g = MPI_UNDEFINED \<and> lpid e' = mylpid then set_rank k q s1 else Some s1);
       union_add p2 q mylpid is (k + 1) s2
     } else union_add p2 q mylpid is k s
   }"

definition union_fill :: "addr \<Rightarrow> addr \<Rightarrow> addr \<Rightarrow> gstate \<Rightarrow> gstate option" where
  "union_fill p1 p2 q t = do {
     g1 \<leftarrow> gobj t p1;
     g2 \<leftarrow> gobj t p2;
     t1 \<leftarrow> set_rank (g_rank g1) q t;
     t2 \<leftarrow> copy_loop p1 q [0..g_size g1 - 1] t1;
     mylpid \<leftarrow> (if g_rank g1 = MPI_UNDEFINED \<and> 0 \<le> g_rank g2
                then map_option lpid (pmap_at t2 p2 (g_rank g2)) else Some (- 2));
     union_add p2 q mylpid [0..g_size g2 - 1] (g_size g1) t2
   }"

definition MPI_Group_union :: "handle \<Rightarrow> handle \<Rightarrow> bool \<Rightarrow> gstate \<Rightarrow> handle group_call" where
  "MPI_Group_union h1 h2 newgroup s =
     with_group h1 s (\<lambda>p1. with_group h2 s (\<lambda>p2.
       if \<not> newgroup then api_fail MPI_ERR_ARG ''**nullptr'' s
       else do {
         s1 \<leftarrow> setup_if_unset p1 s;
         s2 \<leftarrow> setup_if_unset p2 s1;
         g1 \<leftarrow> gobj s2 p1;
         g2 \<leftarrow> gobj s2 p2;
         s3 \<leftarrow> clear_flags p2 (g_size g2) s2;
         (s4, i2, n1) \<leftarrow> union_loop p1 p2 s3 (idx_of_first_lpid g1) (idx_of_first_lpid g2) (g_size g1);
         (s5, nnew) \<leftarrow> union_rest p2 s4 i2 n1;
         make_group nnew (union_fill p1 p2) s5
       }))"

subsection \<open>Translating ranks\<close>

text \<open>\<open>while (g2_idx >= 0 && l1_pid > l2_pid)\<close>: the new \<open>g2_idx\<close> and \<open>l2_pid\<close>.\<close>

partial_function (option) search_loop ::
  "gstate \<Rightarrow> addr \<Rightarrow> int \<Rightarrow> int \<Rightarrow> int \<Rightarrow> (int \<times> int) option" where
  "search_loop s p2 l1_pid g2_idx l2_pid =
     (if 0 \<le> g2_idx \<and> l1_pid > l2_pid then do {
        e \<leftarrow> pmap_at s p2 g2_idx;
        if 0 \<le> next_lpid e then do {
          e' \<leftarrow> pmap_at s p2 (next_lpid e);
          search_loop s p2 l1_pid (next_lpid e) (lpid e')
        } else search_loop s p2 l1_pid (next_lpid e) (- 1)
      } else Some (g2_idx, l2_pid))"

fun translate_loop ::
  "gstate \<Rightarrow> addr \<Rightarrow> addr \<Rightarrow> int list \<Rightarrow> int list \<Rightarrow> int \<Rightarrow> int \<Rightarrow> int list \<Rightarrow> int list option" where
  "translate_loop s p1 p2 ranks1 [] g2_idx l2_pid ranks2 = Some ranks2"
| "translate_loop s p1 p2 ranks1 (i # is) g2_idx l2_pid ranks2 = do {
     r \<leftarrow> rd ranks1 i;
     if r = MPI_PROC_NULL then do {
       ranks2' \<leftarrow> wr ranks2 i MPI_PROC_NULL;
       translate_loop s p1 p2 ranks1 is g2_idx l2_pid ranks2'
     } else do {
       e1 \<leftarrow> pmap_at s p1 r;
       (i2, l2) \<leftarrow> (if lpid e1 < l2_pid \<or> g2_idx < 0 then do {
                     g2 \<leftarrow> gobj s p2;
                     e \<leftarrow> pmap_at s p2 (idx_of_first_lpid g2);
                     Some (idx_of_first_lpid g2, lpid e)
                   } else Some (g2_idx, l2_pid));
       (i2', l2') \<leftarrow> search_loop s p2 (lpid e1) i2 l2;
       if lpid e1 = l2' then do {
         e2 \<leftarrow> pmap_at s p2 i2';
         ranks2' \<leftarrow> wr ranks2 i (lrank e2);
         translate_loop s p1 p2 ranks1 is i2' l2' ranks2'
       } else translate_loop s p1 p2 ranks1 is i2' l2' ranks2
     }
   }"

definition MPI_Group_translate_ranks ::
  "handle \<Rightarrow> int \<Rightarrow> int list option \<Rightarrow> handle \<Rightarrow> bool \<Rightarrow> gstate \<Rightarrow> int list group_call" where
  "MPI_Group_translate_ranks h1 n ranks1 h2 ranks2 s =
     with_group h1 s (\<lambda>p1. with_group h2 s (\<lambda>p2.
       if n < 0 then api_fail MPI_ERR_ARG ''**argneg'' s
       else if n = 0 then Some (Inr [], s)
       else case ranks1 of
         None \<Rightarrow> api_fail MPI_ERR_ARG ''**nullptr'' s
       | Some rs \<Rightarrow>
         if \<not> ranks2 then api_fail MPI_ERR_ARG ''**nullptr'' s
         else do {
           g1 \<leftarrow> gobj s p1;
           rs' \<leftarrow> (if n \<le> int (length rs) then Some (take (nat n) rs) else None);
           if \<exists>r\<in>set rs'. r < 0 \<and> r \<noteq> MPI_PROC_NULL \<or> r \<ge> g_size g1
           then api_fail MPI_ERR_RANK ''**rank'' s
           else do {
             s1 \<leftarrow> setup_if_unset p2 s;
             g2 \<leftarrow> gobj s1 p2;
             if 0 \<le> idx_of_first_lpid g2 then do {
               e \<leftarrow> pmap_at s1 p2 (idx_of_first_lpid g2);
               out \<leftarrow> translate_loop s1 p1 p2 rs [0..n - 1] (idx_of_first_lpid g2) (lpid e)
                 (replicate (nat n) MPI_UNDEFINED);
               Some (Inr out, s1)
             } else Some (Inr (replicate (nat n) MPI_UNDEFINED), s1)
           }
         }))"

subsection \<open>Freeing\<close>

text \<open>\<open>pgroup\<close> is the handle the caller's pointer refers to; the result is what is stored there.\<close>

definition MPI_Group_free :: "handle option \<Rightarrow> gstate \<Rightarrow> handle group_call" where
  "MPI_Group_free pgroup s =
     (case pgroup of
        None \<Rightarrow> api_fail MPI_ERR_ARG ''**nullptr'' s
      | Some h \<Rightarrow> with_group h s (\<lambda>p.
          if h \<noteq> MPI_GROUP_EMPTY
          then do { s' \<leftarrow> MPIR_Group_release p s; Some (Inr MPI_GROUP_NULL, s') }
          else Some (Inr MPI_GROUP_NULL, s)))"

subsection \<open>The walks\<close>

abbreviation at :: "gstate \<Rightarrow> addr \<Rightarrow> nat \<Rightarrow> int" where
  "at s p k \<equiv> lpids s p ! k"

abbreviation ascending :: "gstate \<Rightarrow> addr \<Rightarrow> nat list \<Rightarrow> bool" where
  "ascending s p ks \<equiv> sorted_wrt (<) (map (at s p) ks)"

lemma on_list_bound: "on_list s p ks \<Longrightarrow> k \<in> set ks \<Longrightarrow> k < length (lpids s p)"
  by (induction ks) (auto elim: on_list_Cons)

lemma match_loop_mark:
  assumes "on_list s p1 xs" "on_list s p2 ys" "ascending s p1 xs" "ascending s p2 ys"
  shows "match_loop d p1 p2 s (head_ptr xs) (head_ptr ys) n =
    (let K = {k \<in> set xs. at s p1 k \<in> at s p2 ` set ys}
     in Some (mark p1 K 1 s, n + d * int (card K)))"
  using assms
proof (induction "length xs + length ys" arbitrary: xs ys s n rule: less_induct)
  case less
  consider "xs = [] \<or> ys = []" | x xs' y ys' where "xs = x # xs'" "ys = y # ys'"
    by (cases xs; cases ys) auto
  then show ?case
  proof cases
    case 1
    then show ?thesis
      by (elim disjE) (simp_all add: match_loop.simps [of d p1 p2 s])
  next
    case 2
    obtain e1 where e1: "pmap_at s p1 (int x) = Some e1" "lpid e1 = at s p1 x"
      "next_lpid e1 = head_ptr xs'" "on_list s p1 xs'" "x < length (lpids s p1)"
      using less.prems(1) 2 by (auto elim: on_list_Cons)
    obtain e2 where e2: "pmap_at s p2 (int y) = Some e2" "lpid e2 = at s p2 y"
      "next_lpid e2 = head_ptr ys'" "on_list s p2 ys'"
      using less.prems(2) 2 by (auto elim: on_list_Cons)
    note step = match_loop.simps [of d p1 p2 s "head_ptr xs" "head_ptr ys" n]
    consider "at s p1 x < at s p2 y" | "at s p1 x > at s p2 y" | "at s p1 x = at s p2 y"
      by linarith
    then show ?thesis
    proof cases
      case lt: 1
      have "{k \<in> set xs'. at s p1 k \<in> at s p2 ` set ys} = {k \<in> set xs. at s p1 k \<in> at s p2 ` set ys}"
        using lt less.prems(4) 2 by fastforce
      then show ?thesis
        using step 2 e1 e2 lt less.hyps [of xs' ys s n] less.prems by (simp add: Let_def)
    next
      case gt: 2
      have "{k \<in> set xs. at s p1 k \<in> at s p2 ` set ys'} = {k \<in> set xs. at s p1 k \<in> at s p2 ` set ys}"
        using gt less.prems(3) 2 by fastforce
      then show ?thesis
        using step 2 e1 e2 gt less.hyps [of xs ys' s n] less.prems by (simp add: Let_def)
    next
      case eq: 3
      let ?s = "mark p1 {x} 1 s"
      obtain e1' where e1': "pmap_at ?s p1 (int x) = Some e1'" "next_lpid e1' = head_ptr xs'"
        using less.prems(1) 2 on_list_Cons [of ?s p1 x xs'] by auto
      obtain e2' where e2': "pmap_at ?s p2 (int y) = Some e2'" "next_lpid e2' = head_ptr ys'"
        using less.prems(2) 2 on_list_Cons [of ?s p2 y ys'] by auto
      let ?K = "{k \<in> set xs'. at s p1 k \<in> at s p2 ` set ys'}"
      have K: "{k \<in> set xs. at s p1 k \<in> at s p2 ` set ys} = insert x ?K" "x \<notin> ?K"
        using eq less.prems(3,4) 2 by fastforce+
      have "match_loop d p1 p2 s (head_ptr xs) (head_ptr ys) n =
          match_loop d p1 p2 ?s (head_ptr xs') (head_ptr ys') (n + d)"
        using step 2 e1 e2 eq e1' e2' by simp
      also have "\<dots> = Some (mark p1 ?K 1 ?s, n + d + d * int (card ?K))"
        using less.hyps [of xs' ys' ?s "n + d"] less.prems 2 by (simp add: Let_def e1(4) e2(4))
      finally show ?thesis
        using K by (simp add: Let_def algebra_simps)
    qed
  qed
qed

text \<open>After clearing the flags of \<open>p1\<close> and the walk, exactly the common members are flagged.\<close>

definition common :: "int list \<Rightarrow> int list \<Rightarrow> nat set" where
  "common l1 l2 = {k. k < length l1 \<and> l1 ! k \<in> set l2}"

lemma card_common: "card (common l1 l2) = length (filter (\<lambda>l. l \<in> set l2) l1)"
  by (simp add: common_def length_filter_conv_card)

lemma ready_at:
  assumes "ready s p" "gobj s p = Some g"
  shows "idx_of_first_lpid g = head_ptr (lpid_order (lpids s p))" "on_list s p (lpid_order (lpids s p))"
  using assms by (auto elim!: readyD)

lemma walk_flags:
  assumes ok: "gstate_ok me s L" and ready: "ready s p1" "ready s p2"
    and g: "gobj s p1 = Some g1" "gobj s p2 = Some g2"
  shows "match_loop d p1 p2 s (idx_of_first_lpid g1) (idx_of_first_lpid g2) n =
    Some (mark p1 (common (lpids s p1) (lpids s p2)) 1 s,
          n + d * int (length (filter (\<lambda>l. l \<in> set (lpids s p2)) (lpids s p1))))"
proof -
  let ?l1 = "lpids s p1" and ?l2 = "lpids s p2"
  have "{k \<in> set (lpid_order ?l1). ?l1 ! k \<in> (\<lambda>k. ?l2 ! k) ` set (lpid_order ?l2)} = common ?l1 ?l2"
    unfolding map_lpid_order by (auto simp: common_def)
  moreover have "ascending s p1 (lpid_order ?l1)" "ascending s p2 (lpid_order ?l2)"
    using gstate_ok_at(5) [OF ok g(1)] gstate_ok_at(5) [OF ok g(2)] by (simp_all only: lpid_order_strict)
  ultimately show ?thesis
    using match_loop_mark [OF ready_at(2) [OF ready(1) g(1)] ready_at(2) [OF ready(2) g(2)], of d n]
    by (simp only: Let_def ready_at(1) [OF ready(1) g(1)] ready_at(1) [OF ready(2) g(2)] card_common)
qed


lemma group_members_ptr:
  assumes "group_members h s = Some l"
  obtains p where "MpiaGroupValidateHandle h s = Inr p" "p \<in> dom (gobj s)" "lpids s p = l"
  using assms by (auto simp: group_members_eq)

lemma with_group_Inr: "MpiaGroupValidateHandle h s = Inr p \<Longrightarrow> with_group h s f = f p"
  by (simp add: with_group_def)

lemma match_pick:
  assumes ok: "gstate_ok me s L" and p: "p1 \<in> dom (gobj s)" "p2 \<in> dom (gobj s)"
  obtains s1 g1 g2 s3 where "MPIR_Group_setup_lpid_pairs p1 p2 s = Some s1"
    "gobj s1 p1 = Some g1" "gobj s1 p2 = Some g2" "g_size g1 = int (length (lpids s p1))"
    "clear_flags p1 (g_size g1) s1 = Some (mark p1 {0..<length (lpids s p1)} 0 s1)"
    "\<And>d n. match_loop d p1 p2 (mark p1 {0..<length (lpids s p1)} 0 s1)
        (idx_of_first_lpid g1) (idx_of_first_lpid g2) n =
      Some (s3, n + d * int (length (filter (\<lambda>l. l \<in> set (lpids s p2)) (lpids s p1))))"
    "gstate_ok me s3 L" "same s s3"
    "\<forall>k<length (lpids s3 p1). flag_of s3 p1 k \<noteq> 0 \<longleftrightarrow> lpids s3 p1 ! k \<in> set (lpids s p2)"
proof -
  obtain s1 where s1: "MPIR_Group_setup_lpid_pairs p1 p2 s = Some s1" "gstate_ok me s1 L" "same s s1"
    "ready s1 p1" "ready s1 p2"
    using setup_lpid_pairs [OF ok p] by blast
  have eq: "lpids s1 = lpids s" "dom (gobj s1) = dom (gobj s)"
    using s1(3) by (auto simp: same_def)
  obtain g1 g2 where g: "gobj s1 p1 = Some g1" "gobj s1 p2 = Some g2"
    using p eq(2) by blast
  let ?l1 = "lpids s p1" and ?l2 = "lpids s p2"
  let ?s2 = "mark p1 {0..<length ?l1} 0 s1"
  let ?s3 = "mark p1 (common ?l1 ?l2) 1 ?s2"
  have sz: "g_size g1 = int (length ?l1)"
    using gstate_ok_at(2) [OF s1(2) g(1)] eq by simp
  have idx: "idx_of_first_lpid h2 = idx_of_first_lpid h1"
    if "gobj s1 q = Some h1" "gobj ?s2 q = Some h2" for q h1 h2
    using that by (auto simp: gobj_mark split: if_splits)
  have "p1 \<in> dom (gobj ?s2)" "p2 \<in> dom (gobj ?s2)"
    using p eq(2) by simp_all
  then obtain h1 h2 where h: "gobj ?s2 p1 = Some h1" "gobj ?s2 p2 = Some h2"
    by blast
  have "match_loop d p1 p2 ?s2 (idx_of_first_lpid g1) (idx_of_first_lpid g2) n =
      Some (?s3, n + d * int (length (filter (\<lambda>l. l \<in> set ?l2) ?l1)))" for d n
    using walk_flags [of me ?s2 L p1 p2 h1 h2 d n] s1 h idx [OF g(1) h(1)] idx [OF g(2) h(2)] eq(1)
    by simp
  moreover have "\<forall>k<length (lpids ?s3 p1). flag_of ?s3 p1 k \<noteq> 0 \<longleftrightarrow> lpids ?s3 p1 ! k \<in> set ?l2"
    by (auto simp: eq common_def)
  ultimately show thesis
    using that [of s1 g1 g2 ?s3] s1 g sz clear_flags_mark [of "length ?l1" s1 p1] eq by simp
qed

subsection \<open>The set operations\<close>

lemma match_pick_produces:
  assumes ok: "gstate_ok me s L" and p: "p1 \<in> dom (gobj s)" "p2 \<in> dom (gobj s)"
    and l: "lpids s p1 = l1" "lpids s p2 = l2"
    and n0: "n0 (int (length l1)) + d * int (length (filter (\<lambda>l. l \<in> set l2) l1)) =
      int (length (filter (\<lambda>l. (l \<in> set l2) = want) l1))"
  shows "produces me s L (filter (\<lambda>l. (l \<in> set l2) = want) l1) (do {
         s1 \<leftarrow> MPIR_Group_setup_lpid_pairs p1 p2 s;
         g1 \<leftarrow> gobj s1 p1;
         g2 \<leftarrow> gobj s1 p2;
         s2 \<leftarrow> clear_flags p1 (g_size g1) s1;
         (s3, nnew) \<leftarrow> match_loop d p1 p2 s2 (idx_of_first_lpid g1) (idx_of_first_lpid g2) (n0 (g_size g1));
         if nnew = 0 then Some (Inr MPI_GROUP_EMPTY, s3)
         else make_group nnew (\<lambda>q t. do {
                t' \<leftarrow> set_rank MPI_UNDEFINED q t;
                pick_loop want p1 q [0..g_size g1 - 1] 0 t'
              }) s3 })"
proof -
  let ?P = "\<lambda>l. (l \<in> set l2) = want"
  obtain s1 g1 g2 s3 where w: "MPIR_Group_setup_lpid_pairs p1 p2 s = Some s1"
    "gobj s1 p1 = Some g1" "gobj s1 p2 = Some g2" "g_size g1 = int (length l1)"
    "clear_flags p1 (g_size g1) s1 = Some (mark p1 {0..<length l1} 0 s1)"
    "\<And>d n. match_loop d p1 p2 (mark p1 {0..<length l1} 0 s1)
        (idx_of_first_lpid g1) (idx_of_first_lpid g2) n =
      Some (s3, n + d * int (length (filter (\<lambda>l. l \<in> set l2) l1)))"
    "gstate_ok me s3 L" "same s s3"
    "\<forall>k<length (lpids s3 p1). flag_of s3 p1 k \<noteq> 0 \<longleftrightarrow> lpids s3 p1 ! k \<in> set l2"
    using match_pick [OF ok p] unfolding l by blast
  let ?body = "\<lambda>q t. do { t' \<leftarrow> set_rank MPI_UNDEFINED q t; pick_loop want p1 q [0..g_size g1 - 1] 0 t' }"
  have l3: "lpids s3 p1 = l1"
    using w(8) l(1) by (simp add: same_def)
  have "produces me s3 L (filter ?P l1)
     (if int (length (filter ?P l1)) = 0 then Some (Inr MPI_GROUP_EMPTY, s3)
      else make_group (int (length (filter ?P l1))) ?body s3)"
  proof (cases "filter ?P l1 = []")
    case True
    then show ?thesis
      using produces_empty [OF w(7)] by (simp del: filter_empty_conv)
  next
    case False
    have "p1 \<in> dom (gobj s3)"
      using p(1) w(8) by (simp add: same_def)
    then obtain g3 where g3: "gobj s3 p1 = Some g3" by blast
    have "g_size g3 = g_size g1"
      using gstate_ok_at(2) [OF w(7) g3] l3 w(4) by simp
    then have "produces me s3 L (filter ?P (lpids s3 p1)) (make_group (int (length (filter ?P l1))) ?body s3)"
      by (intro pick_produces [OF w(7) g3, where want = want]) (use w(9) l3 in auto)
    with False l3 show ?thesis by (simp del: filter_empty_conv)
  qed
  then show ?thesis
    using w(1-6) n0 by (intro produces_same [OF w(8)]) simp
qed

text \<open>C13: \<open>MPI_Group_intersection\<close> makes the group of the members of the first group that are in the
second, in the order of the first (or fails for lack of memory only), for any two valid handles,
equal or not; all other groups keep their members and the result is well formed.\<close>

theorem MPI_Group_intersection_correct:
  assumes ok: "gstate_ok me s L" and m: "group_members h1 s = Some l1" "group_members h2 s = Some l2"
  shows "produces me s L (filter (\<lambda>l. l \<in> set l2) l1) (MPI_Group_intersection h1 h2 True s)"
proof -
  obtain p1 where p1: "MpiaGroupValidateHandle h1 s = Inr p1" "p1 \<in> dom (gobj s)" "lpids s p1 = l1"
    using m(1) by (rule group_members_ptr)
  obtain p2 where p2: "MpiaGroupValidateHandle h2 s = Inr p2" "p2 \<in> dom (gobj s)" "lpids s p2 = l2"
    using m(2) by (rule group_members_ptr)
  show ?thesis
    using match_pick_produces [OF ok p1(2) p2(2) p1(3) p2(3), of "\<lambda>_. 0" 1 True] p1(1) p2(1)
    by (simp add: MPI_Group_intersection_def with_group_Inr)
qed

lemma MPI_Group_intersection_witness:
  "produces 3 demo {Direct 0, Direct 1} [3, 9] (MPI_Group_intersection handle_A handle_B True demo)"
  using MPI_Group_intersection_correct [OF demo_ok demo_members(1,2)] by simp

text \<open>C14: \<open>MPI_Group_difference\<close> makes the group of the members of the first group that are not in the
second, in the order of the first.\<close>

theorem MPI_Group_difference_correct:
  assumes ok: "gstate_ok me s L" and m: "group_members h1 s = Some l1" "group_members h2 s = Some l2"
  shows "produces me s L (filter (\<lambda>l. l \<notin> set l2) l1) (MPI_Group_difference h1 h2 True s)"
proof -
  obtain p1 where p1: "MpiaGroupValidateHandle h1 s = Inr p1" "p1 \<in> dom (gobj s)" "lpids s p1 = l1"
    using m(1) by (rule group_members_ptr)
  obtain p2 where p2: "MpiaGroupValidateHandle h2 s = Inr p2" "p2 \<in> dom (gobj s)" "lpids s p2 = l2"
    using m(2) by (rule group_members_ptr)
  have "int (length l1) + - 1 * int (length (filter (\<lambda>l. l \<in> set l2) l1)) =
      int (length (filter (\<lambda>l. (l \<in> set l2) = False) l1))"
    using sum_length_filter_compl [of "\<lambda>l. l \<in> set l2" l1] by simp
  then show ?thesis
    using match_pick_produces [OF ok p1(2) p2(2) p1(3) p2(3), of "\<lambda>n. n" "- 1" False] p1(1) p2(1)
    by (simp add: MPI_Group_difference_def with_group_Inr)
qed

lemma MPI_Group_difference_witness:
  "produces 3 demo {Direct 0, Direct 1} [5] (MPI_Group_difference handle_A handle_B True demo)"
  using MPI_Group_difference_correct [OF demo_ok demo_members(1,2)] by simp

subsection \<open>Union: the walk\<close>

lemma union_rest_mark:
  assumes "on_list s p ys" "distinct ys"
  shows "union_rest p s (head_ptr ys) n = Some (mark p (set ys) 1 s, n + int (length ys))"
  using assms
proof (induction ys arbitrary: s n)
  case Nil
  then show ?case by (simp add: union_rest.simps [of p s])
next
  case (Cons y ys)
  let ?s = "mark p {y} 1 s"
  obtain e where e: "y < length (lpids s p)" "on_list s p ys"
    using Cons.prems(1) by (rule on_list_Cons)
  obtain e' where e': "pmap_at ?s p (int y) = Some e'" "next_lpid e' = head_ptr ys"
    using Cons.prems(1) on_list_Cons [of ?s p y ys] by auto
  have "union_rest p s (head_ptr (y # ys)) n = union_rest p ?s (head_ptr ys) (n + 1)"
    using e e' by (simp add: union_rest.simps [of p s])
  then show ?case
    using Cons.IH [of ?s "n + 1"] Cons.prems e by simp
qed

definition union_walk :: "addr \<Rightarrow> addr \<Rightarrow> gstate \<Rightarrow> int \<Rightarrow> int \<Rightarrow> int \<Rightarrow> (gstate \<times> int) option" where
  "union_walk p1 p2 s i1 i2 n =
     do { (s', i, n') \<leftarrow> union_loop p1 p2 s i1 i2 n; union_rest p2 s' i n' }"

lemma union_walk_mark:
  assumes "on_list s p1 xs" "on_list s p2 ys" "ascending s p1 xs" "ascending s p2 ys"
  shows "union_walk p1 p2 s (head_ptr xs) (head_ptr ys) n =
    (let K = {k \<in> set ys. at s p2 k \<notin> at s p1 ` set xs}
     in Some (mark p2 K 1 s, n + int (card K)))"
  using assms
proof (induction "length xs + length ys" arbitrary: xs ys s n rule: less_induct)
  case less
  consider "xs = []" | "xs \<noteq> []" "ys = []" | x xs' y ys' where "xs = x # xs'" "ys = y # ys'"
    by (cases xs; cases ys) auto
  then show ?case
  proof cases
    case 1
    have "distinct ys"
      using less.prems(4) by (simp add: strict_sorted_iff distinct_map)
    then show ?thesis
      using 1 union_rest_mark [OF less.prems(2), of n]
      by (simp add: union_walk_def union_loop.simps [of p1 p2 s] distinct_card)
  next
    case 2
    then show ?thesis
      by (simp add: union_walk_def union_loop.simps [of p1 p2 s] union_rest.simps [of p2 s])
  next
    case 3
    obtain e1 where e1: "pmap_at s p1 (int x) = Some e1" "lpid e1 = at s p1 x"
      "next_lpid e1 = head_ptr xs'" "on_list s p1 xs'"
      using less.prems(1) 3 by (auto elim: on_list_Cons)
    obtain e2 where e2: "pmap_at s p2 (int y) = Some e2" "lpid e2 = at s p2 y"
      "next_lpid e2 = head_ptr ys'" "on_list s p2 ys'" "y < length (lpids s p2)"
      using less.prems(2) 3 by (auto elim: on_list_Cons)
    have step: "union_walk p1 p2 s (head_ptr xs) (head_ptr ys) n =
       (if at s p1 x > at s p2 y then do {
          s' \<leftarrow> set_flag 1 s p2 (int y);
          e2' \<leftarrow> pmap_at s' p2 (int y);
          union_walk p1 p2 s' (head_ptr xs) (next_lpid e2') (n + 1)
        }
        else if at s p1 x = at s p2 y then union_walk p1 p2 s (head_ptr xs') (head_ptr ys') n
        else union_walk p1 p2 s (head_ptr xs') (head_ptr ys) n)"
      using 3 e1 e2 by (simp add: union_walk_def union_loop.simps [of p1 p2 s "int x" "int y" n])
    consider "at s p1 x < at s p2 y" | "at s p1 x > at s p2 y" | "at s p1 x = at s p2 y"
      by linarith
    then show ?thesis
    proof cases
      case lt: 1
      have "{k \<in> set ys. at s p2 k \<notin> at s p1 ` set xs'} = {k \<in> set ys. at s p2 k \<notin> at s p1 ` set xs}"
        using lt less.prems(4) 3 by fastforce
      then show ?thesis
        using step 3 e1 lt less.hyps [of xs' ys s n] less.prems by (simp add: Let_def)
    next
      case eq: 3
      have "{k \<in> set ys'. at s p2 k \<notin> at s p1 ` set xs'} = {k \<in> set ys. at s p2 k \<notin> at s p1 ` set xs}"
        using eq less.prems(4) 3 by fastforce
      then show ?thesis
        using step 3 e1 e2 eq less.hyps [of xs' ys' s n] less.prems by (simp add: Let_def)
    next
      case gt: 2
      let ?s = "mark p2 {y} 1 s" and ?K = "{k \<in> set ys'. at s p2 k \<notin> at s p1 ` set xs}"
      obtain e2' where e2': "pmap_at ?s p2 (int y) = Some e2'" "next_lpid e2' = head_ptr ys'"
        using less.prems(2) 3 on_list_Cons [of ?s p2 y ys'] by auto
      have K: "{k \<in> set ys. at s p2 k \<notin> at s p1 ` set xs} = insert y ?K" "y \<notin> ?K"
        using gt less.prems(3,4) 3 by fastforce+
      have "union_walk p1 p2 s (head_ptr xs) (head_ptr ys) n =
          union_walk p1 p2 ?s (head_ptr xs) (head_ptr ys') (n + 1)"
        using step gt e2(5) e2' by simp
      also have "\<dots> = Some (mark p2 ?K 1 ?s, n + 1 + int (card ?K))"
        using less.hyps [of xs ys' ?s "n + 1"] less.prems 3 by (simp add: Let_def e2(4))
      finally show ?thesis
        using K by (simp add: Let_def algebra_simps)
    qed
  qed
qed

subsection \<open>Union: the new group\<close>

text \<open>The first members of \<open>d\<close> are \<open>ls\<close>, with their ranks.\<close>

definition built :: "MPID_Group \<Rightarrow> int list \<Rightarrow> bool" where
  "built d ls \<longleftrightarrow>
     take (length ls) (map lpid (lrank_to_lpid d)) = ls \<and>
     take (length ls) (map lrank (lrank_to_lpid d)) = map int [0..<length ls]"

definition same_shape :: "MPID_Group \<Rightarrow> MPID_Group \<Rightarrow> bool" where
  "same_shape d d' \<longleftrightarrow> length (lrank_to_lpid d') = length (lrank_to_lpid d) \<and>
     g_size d' = g_size d \<and> idx_of_first_lpid d' = idx_of_first_lpid d"

lemma same_shape_simps [simp]:
  "same_shape d d" "same_shape d (entry_upd g k j d)" "same_shape d (d\<lparr>g_rank := r\<rparr>)"
  by (simp_all add: same_shape_def)

lemma same_shape_trans: "same_shape d e \<Longrightarrow> same_shape e f \<Longrightarrow> same_shape d f"
  by (simp add: same_shape_def)

lemma built_Nil [simp]: "built d []"
  by (simp add: built_def)

lemma built_rank [simp]: "built (d\<lparr>g_rank := r\<rparr>) ls = built d ls"
  by (simp add: built_def)

lemma built_entry:
  assumes "built d ls" "length ls < length (lrank_to_lpid d)"
  shows "built (entry_upd g (length ls) j d) (ls @ [lpid (lrank_to_lpid g ! j)])"
  using assms by (simp add: built_def take_Suc_conv_app_nth)

lemma copy_loop_built:
  assumes "src \<noteq> dst" "gobj s src = Some g" "gobj s dst = Some d"
    "a + n \<le> length (lrank_to_lpid g)" "a + n \<le> length (lrank_to_lpid d)"
    "built d (take a (map lpid (lrank_to_lpid g)))"
  shows "\<exists>d'. copy_loop src dst (map int [a..<a + n]) s = Some (put_group dst d' s) \<and>
    same_shape d d' \<and> g_rank d' = g_rank d \<and> built d' (take (a + n) (map lpid (lrank_to_lpid g)))"
  using assms
proof (induction n arbitrary: a s d)
  case 0
  then show ?case
    by (intro exI [of _ d]) (simp add: put_group_same)
next
  case (Suc n)
  let ?d = "entry_upd g a a d"
  have "put_entry src dst (int a) (int a) s = Some (put_group dst ?d s)"
    using Suc.prems by (intro put_entry_int) auto
  moreover have "built ?d (take (Suc a) (map lpid (lrank_to_lpid g)))"
    using built_entry [OF Suc.prems(6), of g a] Suc.prems(4,5)
    by (simp add: take_Suc_conv_app_nth min_def)
  moreover obtain d' where "copy_loop src dst (map int [Suc a..<Suc a + n]) (put_group dst ?d s) =
      Some (put_group dst d' (put_group dst ?d s))" "same_shape ?d d'" "g_rank d' = g_rank ?d"
      "built d' (take (Suc a + n) (map lpid (lrank_to_lpid g)))"
    using Suc.IH [of "put_group dst ?d s" ?d "Suc a"] Suc.prems \<open>built ?d _\<close> by auto
  moreover have "[a..<a + Suc n] = a # [Suc a..<Suc a + n]"
    by (simp add: upt_conv_Cons del: upt_Suc)
  moreover have "same_shape d d'"
    using same_shape_simps(2) calculation(4) by (rule same_shape_trans)
  ultimately show ?case
    by (intro exI [of _ d']) simp
qed

lemma union_add_built:
  assumes "src \<noteq> dst" "gobj s src = Some g" "gobj s dst = Some d"
    "\<forall>i\<in>set is. i < length (lrank_to_lpid g)"
    "length ls + length (filter (\<lambda>i. flag (lrank_to_lpid g ! i) \<noteq> 0) is) \<le> length (lrank_to_lpid d)"
    "built d ls"
  shows "\<exists>d'. union_add src dst my (map int is) (int (length ls)) s = Some (put_group dst d' s) \<and>
    same_shape d d' \<and>
    (let picks = map (\<lambda>i. lpid (lrank_to_lpid g ! i)) (filter (\<lambda>i. flag (lrank_to_lpid g ! i) \<noteq> 0) is)
     in built d' (ls @ picks) \<and>
        g_rank d' = (if g_rank d = MPI_UNDEFINED then rank_from (length ls) my picks else g_rank d))"
  using assms
proof (induction "is" arbitrary: ls s d)
  case Nil
  then show ?case
    by (intro exI [of _ d]) (simp add: put_group_same Let_def)
next
  case (Cons i "is")
  have rd: "pmap_at s src (int i) = Some (lrank_to_lpid g ! i)"
    using Cons.prems by (simp add: pmap_at_def)
  show ?case
  proof (cases "flag (lrank_to_lpid g ! i) = 0")
    case True
    then show ?thesis
      using Cons.IH [of s d ls] Cons.prems rd by simp
  next
    case False
    let ?l = "lpid (lrank_to_lpid g ! i)" and ?d1 = "entry_upd g (length ls) i d"
    let ?d2 = "if g_rank d = MPI_UNDEFINED \<and> ?l = my then ?d1\<lparr>g_rank := int (length ls)\<rparr> else ?d1"
    have "length ls < length (lrank_to_lpid d)"
      using Cons.prems(5) False by simp
    then have put: "put_entry src dst (int (length ls)) (int i) s = Some (put_group dst ?d1 s)"
      and built: "built ?d2 (ls @ [?l])"
      using Cons.prems built_entry [OF Cons.prems(6), of g i] by (auto intro: put_entry_int)
    have rd': "pmap_at (put_group dst ?d1 s) src (int i) = Some (lrank_to_lpid g ! i)"
      using Cons.prems by (simp add: pmap_at_def)
    have step: "union_add src dst my (map int (i # is)) (int (length ls)) s =
        union_add src dst my (map int is) (int (length (ls @ [?l]))) (put_group dst ?d2 s)"
      using False rd put rd' by (simp add: set_rank_def add.commute)
    have shape: "same_shape d ?d2"
      by (simp add: same_shape_def)
    then have "length (ls @ [?l]) + length (filter (\<lambda>i. flag (lrank_to_lpid g ! i) \<noteq> 0) is)
        \<le> length (lrank_to_lpid ?d2)"
      using Cons.prems(5) False by (simp add: same_shape_def)
    with Cons.IH [of "put_group dst ?d2 s" ?d2 "ls @ [?l]"] Cons.prems(1,2,4) built obtain d' where
      d': "union_add src dst my (map int is) (int (length (ls @ [?l]))) (put_group dst ?d2 s) =
        Some (put_group dst d' s)" "same_shape ?d2 d'"
      "let picks = map (\<lambda>i. lpid (lrank_to_lpid g ! i)) (filter (\<lambda>i. flag (lrank_to_lpid g ! i) \<noteq> 0) is)
       in built d' ((ls @ [?l]) @ picks) \<and>
          g_rank d' = (if g_rank ?d2 = MPI_UNDEFINED then rank_from (length (ls @ [?l])) my picks
                       else g_rank ?d2)"
      by auto
    have "int (length ls) \<noteq> MPI_UNDEFINED"
      by (simp add: MPI_UNDEFINED_def)
    then show ?thesis
      using step d'(1,3) same_shape_trans [OF shape d'(2)] False by (auto simp: Let_def)
  qed
qed

lemma rank_from_append:
  "rank_from k me (xs @ ys) = (if me \<in> set xs then rank_from k me xs else rank_from (k + length xs) me ys)"
  by (induction xs arbitrary: k) auto

lemma rank_from_nonneg: "0 \<le> rank_from k me ls \<longleftrightarrow> me \<in> set ls"
  by (induction ls arbitrary: k) (auto simp: MPI_UNDEFINED_def)

lemma rank_from_undefined: "rank_from k me ls = MPI_UNDEFINED \<longleftrightarrow> me \<notin> set ls"
  using rank_from_nonneg [of k me ls] rank_from_notin [of me ls k] by (auto simp: MPI_UNDEFINED_def)

lemma built_full:
  assumes "built d ls" "length (lrank_to_lpid d) = length ls"
  shows "map lpid (lrank_to_lpid d) = ls" "map lrank (lrank_to_lpid d) = map int [0..<length ls]"
  using assms by (simp_all add: built_def)

lemma union_fill_group:
  assumes ok: "gstate_ok me t L" and g: "gobj t p1 = Some g1" "gobj t p2 = Some g2"
    and flags: "\<forall>k<length (lpids t p2). flag_of t p2 k \<noteq> 0 \<longleftrightarrow> lpids t p2 ! k \<notin> set (lpids t p1)"
    and q: "q \<notin> L" "q \<noteq> Builtin 0"
    and n: "n = int (length (lpids t p1 @ filter (\<lambda>l. l \<notin> set (lpids t p1)) (lpids t p2)))"
  shows "\<exists>d. union_fill p1 p2 q (put_group q (fresh_group n t) (t\<lparr>gmem := m\<rparr>)) =
      Some (put_group q d (t\<lparr>gmem := m\<rparr>)) \<and> group_ok me d \<and>
      map lpid (lrank_to_lpid d) = lpids t p1 @ filter (\<lambda>l. l \<notin> set (lpids t p1)) (lpids t p2)"
proof -
  let ?l1 = "lpids t p1" and ?l2 = "lpids t p2" and ?u = "t\<lparr>gmem := m\<rparr>"
  let ?ps = "filter (\<lambda>l. l \<notin> set ?l1) ?l2"
  let ?is = "filter (\<lambda>i. flag (lrank_to_lpid g2 ! i) \<noteq> 0) [0..<length ?l2]"
  let ?d = "(fresh_group n t)\<lparr>g_rank := g_rank g1\<rparr>"
  let ?my = "if g_rank g1 = MPI_UNDEFINED \<and> 0 \<le> g_rank g2 then me else - 2"
  note at1 = gstate_ok_at [OF ok g(1)] and at2 = gstate_ok_at [OF ok g(2)]
  have qp: "p1 \<noteq> q" "p2 \<noteq> q"
    using other_than_fresh [OF ok g(1) q] other_than_fresh [OF ok g(2) q] by auto
  have isq: "?is = filter (\<lambda>k. ?l2 ! k \<notin> set ?l1) [0..<length ?l2]"
    using flags g(2) by (intro filter_cong) (auto simp: flag_of_def)
  have "map (\<lambda>i. lpid (lrank_to_lpid g2 ! i)) ?is = map (\<lambda>i. ?l2 ! i) ?is"
    using at2(3,4) by simp
  also have "\<dots> = ?ps"
    unfolding isq by (rule filter_members)
  finally have picks: "map (\<lambda>i. lpid (lrank_to_lpid g2 ! i)) ?is = ?ps" .
  have len_is: "length ?is = length ?ps"
    using arg_cong [OF picks, of length] by (simp only: length_map)
  have "nat n = length ?l1 + length ?is"
    unfolding n len_is by (simp only: nat_int length_append)
  then have room: "length (lrank_to_lpid ?d) = length ?l1 + length ?is" "g_size ?d = n"
    by (simp_all add: fresh_group_def)
  obtain d1 where d1: "copy_loop p1 q (map int [0..<length ?l1]) (put_group q ?d ?u) =
      Some (put_group q d1 ?u)" "same_shape ?d d1" "g_rank d1 = g_rank ?d" "built d1 ?l1"
    using copy_loop_built [of p1 q "put_group q ?d ?u" g1 ?d 0 "length ?l1"] qp(1) g(1) room(1) at1(4)
      at1(3) [symmetric] by auto
  have len1: "length (lrank_to_lpid d1) = length ?l1 + length ?is"
    using d1(2) room(1) by (simp add: same_shape_def)
  obtain d2 where d2: "union_add p2 q ?my (map int [0..<length ?l2]) (int (length ?l1)) (put_group q d1 ?u) =
      Some (put_group q d2 ?u)" "same_shape d1 d2" "built d2 (?l1 @ ?ps)"
      "g_rank d2 = (if g_rank d1 = MPI_UNDEFINED then rank_from (length ?l1) ?my ?ps else g_rank d1)"
    using union_add_built [of p2 q "put_group q d1 ?u" g2 d1 "[0..<length ?l2]" ?l1 ?my]
      qp(2) g(2) at2(4) len1 d1(4) unfolding picks Let_def by auto
  have my: "(if g_rank g1 = MPI_UNDEFINED \<and> 0 \<le> g_rank g2
      then map_option lpid (pmap_at (put_group q d1 ?u) p2 (g_rank g2)) else Some (- 2)) = Some ?my"
  proof (cases "g_rank g1 = MPI_UNDEFINED \<and> 0 \<le> g_rank g2")
    case True
    then have "me \<in> set ?l2"
      using at2(7) by (simp add: rank_from_nonneg)
    then obtain k where k: "k < length ?l2" "?l2 ! k = me"
      by (auto simp: in_set_conv_nth)
    then have "g_rank g2 = int k"
      using rank_from_eq [OF at2(5) k(1), of 0 me] at2(7) by simp
    moreover have "lpid (lrank_to_lpid g2 ! k) = me"
      using k at2(4) at2(3) [symmetric] nth_map [of k "lrank_to_lpid g2" lpid] by simp
    ultimately show ?thesis
      using True k(1) g(2) qp(2) at2(4) by (simp add: pmap_at_def)
  qed auto
  have "union_fill p1 p2 q (put_group q (fresh_group n t) ?u) = Some (put_group q d2 ?u)"
    using g qp d1(1) d2(1) my at1(2) at2(2)
    by (simp add: union_fill_def set_rank_def upto_upt cong: if_cong)
  moreover have len2: "length (lrank_to_lpid d2) = length (?l1 @ ?ps)" "g_size d2 = n"
      "idx_of_first_lpid d2 = - 1"
    using d1(2) d2(2) room len_is by (simp_all add: same_shape_def fresh_group_def)
  moreover note maps = built_full [OF d2(3) len2(1)]
  moreover have "g_rank d2 = rank_of me (?l1 @ ?ps)"
  proof (cases "me \<in> set ?l1")
    case True
    then show ?thesis
      using d2(4) d1(3) at1(7) rank_from_undefined [of 0 me ?l1] by (simp add: rank_from_append)
  next
    case False
    then have "g_rank g1 = MPI_UNDEFINED"
      using at1(7) by (simp add: rank_from_notin)
    moreover have "- 2 \<notin> set ?ps"
      using at2(6) by auto
    ultimately show ?thesis
      using False d2(4) d1(3) at2(7) by (auto simp: rank_from_append rank_from_notin rank_from_nonneg)
  qed
  moreover have "distinct (?l1 @ ?ps)" "\<forall>l\<in>set (?l1 @ ?ps). 0 \<le> l"
    using at1(5,6) at2(5,6) by auto
  ultimately show ?thesis
    using n by (intro exI [of _ d2]) (simp only: group_ok_def, simp)
qed

text \<open>C15: \<open>MPI_Group_union\<close> makes the group of the members of the first group followed by the members
of the second that are not in the first, each in its order.\<close>

theorem MPI_Group_union_correct:
  assumes ok: "gstate_ok me s L" and m: "group_members h1 s = Some l1" "group_members h2 s = Some l2"
  shows "produces me s L (l1 @ filter (\<lambda>l. l \<notin> set l1) l2) (MPI_Group_union h1 h2 True s)"
proof -
  obtain p1 where p1: "MpiaGroupValidateHandle h1 s = Inr p1" "p1 \<in> dom (gobj s)" "lpids s p1 = l1"
    using m(1) by (rule group_members_ptr)
  obtain p2 where p2: "MpiaGroupValidateHandle h2 s = Inr p2" "p2 \<in> dom (gobj s)" "lpids s p2 = l2"
    using m(2) by (rule group_members_ptr)
  obtain s2 where s2: "MPIR_Group_setup_lpid_pairs p1 p2 s = Some s2" "gstate_ok me s2 L" "same s s2"
    "ready s2 p1" "ready s2 p2"
    using setup_lpid_pairs [OF ok p1(2) p2(2)] by blast
  have l: "lpids s2 p1 = l1" "lpids s2 p2 = l2"
    using s2(3) p1(3) p2(3) by (simp_all add: same_def)
  have doms: "p1 \<in> dom (gobj s2)" "p2 \<in> dom (gobj s2)"
    using s2(3) p1(2) p2(2) by (simp_all add: same_def)
  then obtain g1 g2 where g: "gobj s2 p1 = Some g1" "gobj s2 p2 = Some g2"
    by blast
  note at1 = gstate_ok_at [OF s2(2) g(1), unfolded l] and at2 = gstate_ok_at [OF s2(2) g(2), unfolded l]
  let ?s3 = "mark p2 {0..<length l2} 0 s2"
  let ?K = "{k \<in> set (lpid_order l2). l2 ! k \<notin> (\<lambda>k. l1 ! k) ` set (lpid_order l1)}"
  let ?s4 = "mark p2 ?K 1 ?s3"
  let ?ps = "filter (\<lambda>l. l \<notin> set l1) l2"
  have K: "?K = {k. k < length l2 \<and> l2 ! k \<notin> set l1}"
    unfolding map_lpid_order by auto
  then have card: "card ?K = length ?ps"
    by (simp add: length_filter_conv_card)
  have ok4: "gstate_ok me ?s4 L" "same s ?s4"
    using s2 by simp_all
  have "union_walk p1 p2 ?s3 (idx_of_first_lpid g1) (idx_of_first_lpid g2) (g_size g1) =
      Some (?s4, int (length (l1 @ ?ps)))"
    using union_walk_mark [of ?s3 p1 "lpid_order l1" p2 "lpid_order l2" "g_size g1"]
      ready_at [OF s2(4) g(1)] ready_at [OF s2(5) g(2)] lpid_order_strict [OF at1(5)]
      lpid_order_strict [OF at2(5)] at1(2) card
    by (simp add: Let_def l del: lpid_order_props)
  then have "MPI_Group_union h1 h2 True s = make_group (int (length (l1 @ ?ps))) (union_fill p1 p2) ?s4"
    using p1(1) p2(1) s2(1) g at2(2) clear_flags_mark [of "length l2" s2 p2] l
    by (auto simp: MPI_Group_union_def with_group_Inr MPIR_Group_setup_lpid_pairs_def union_walk_def
        bind_eq_Some_conv split: prod.splits)
  moreover have "p1 \<in> dom (gobj ?s4)" "p2 \<in> dom (gobj ?s4)"
    using doms by simp_all
  then obtain k1 k2 where k: "gobj ?s4 p1 = Some k1" "gobj ?s4 p2 = Some k2"
    by blast
  have "produces me ?s4 L (l1 @ ?ps) (make_group (int (length (l1 @ ?ps))) (union_fill p1 p2) ?s4)"
  proof (rule make_group_produces [OF ok4(1)])
    fix q m assume q: "q \<notin> L" "q \<noteq> Builtin 0"
    have "\<forall>k<length (lpids ?s4 p2). flag_of ?s4 p2 k \<noteq> 0 \<longleftrightarrow> lpids ?s4 p2 ! k \<notin> set (lpids ?s4 p1)"
      unfolding K by (simp add: l)
    from union_fill_group [OF ok4(1) k this q] show "\<exists>g. union_fill p1 p2 q
          (put_group q (fresh_group (int (length (l1 @ ?ps))) ?s4) (?s4\<lparr>gmem := m\<rparr>)) =
        Some (put_group q g (?s4\<lparr>gmem := m\<rparr>)) \<and> group_ok me g \<and> map lpid (lrank_to_lpid g) = l1 @ ?ps"
      by (simp only: mark_frame l)
  qed
  ultimately show ?thesis
    using produces_same [OF ok4(2)] by simp
qed

lemma MPI_Group_union_witness:
  "produces 3 demo {Direct 0, Direct 1} [5, 3, 9, 4] (MPI_Group_union handle_A handle_B True demo)"
  using MPI_Group_union_correct [OF demo_ok demo_members(1,2)] by simp

subsection \<open>Comparing\<close>

lemma compare_loop_maps:
  assumes "on_list s p1 xs" "on_list s p2 ys" "length xs = length ys"
  shows "compare_loop s p1 p2 (head_ptr xs) (head_ptr ys) = Some (map (at s p1) xs = map (at s p2) ys)"
  using assms(3,1,2)
proof (induction xs ys rule: list_induct2)
  case Nil
  then show ?case by (simp add: compare_loop.simps)
next
  case (Cons x xs y ys)
  obtain e1 where "pmap_at s p1 (int x) = Some e1" "lpid e1 = at s p1 x"
    "next_lpid e1 = head_ptr xs" "on_list s p1 xs"
    using Cons.prems(1) by (auto elim: on_list_Cons)
  moreover obtain e2 where "pmap_at s p2 (int y) = Some e2" "lpid e2 = at s p2 y"
    "next_lpid e2 = head_ptr ys" "on_list s p2 ys"
    using Cons.prems(2) by (auto elim: on_list_Cons)
  ultimately show ?case
    using Cons.IH by (simp add: compare_loop.simps [of s p1 p2 "int x"])
qed

lemma same_ranks_eq:
  "\<forall>k\<in>set ks. k < length (lpids s p1) \<and> k < length (lpids s p2) \<Longrightarrow>
   same_ranks s p1 p2 (map int ks) = Some (\<forall>k\<in>set ks. at s p1 k = at s p2 k)"
proof (induction ks)
  case (Cons k ks)
  obtain e1 where "pmap_at s p1 (int k) = Some e1" "lpid e1 = at s p1 k"
    using Cons.prems pmap_at_int [of k s p1] by auto
  moreover obtain e2 where "pmap_at s p2 (int k) = Some e2" "lpid e2 = at s p2 k"
    using Cons.prems pmap_at_int [of k s p2] by auto
  ultimately show ?case
    using Cons by auto
qed simp

lemma ordered_members_eq:
  assumes "distinct l1" "distinct l2"
  shows "map (\<lambda>k. l1 ! k) (lpid_order l1) = map (\<lambda>k. l2 ! k) (lpid_order l2) \<longleftrightarrow> set l1 = set l2"
proof
  assume "map (\<lambda>k. l1 ! k) (lpid_order l1) = map (\<lambda>k. l2 ! k) (lpid_order l2)"
  then have "(\<lambda>k. l1 ! k) ` set (lpid_order l1) = (\<lambda>k. l2 ! k) ` set (lpid_order l2)"
    by (metis list.set_map)
  then show "set l1 = set l2"
    by (simp only: map_lpid_order)
next
  assume "set l1 = set l2"
  then have "set (map (\<lambda>k. l1 ! k) (lpid_order l1)) = set (map (\<lambda>k. l2 ! k) (lpid_order l2))"
    by (simp only: list.set_map map_lpid_order)
  moreover have "sorted (map (\<lambda>k. l ! k) (lpid_order l))" "distinct l \<Longrightarrow> distinct (map (\<lambda>k. l ! k) (lpid_order l))" for l :: "int list"
    by (simp_all add: distinct_map inj_on_nth)
  ultimately show "map (\<lambda>k. l1 ! k) (lpid_order l1) = map (\<lambda>k. l2 ! k) (lpid_order l2)"
    using assms by (intro sorted_distinct_set_unique) blast+
qed

text \<open>C16: \<open>MPI_Group_compare\<close> answers \<open>MPI_IDENT\<close> exactly for equal member lists, \<open>MPI_SIMILAR\<close> for the
same members in another order and \<open>MPI_UNEQUAL\<close> otherwise, and changes no group.\<close>

theorem MPI_Group_compare_correct:
  assumes ok: "gstate_ok me s L" and m: "group_members h1 s = Some l1" "group_members h2 s = Some l2"
  shows "\<exists>s'. MPI_Group_compare h1 h2 True s =
      Some (Inr (if l1 = l2 then MPI_IDENT else if set l1 = set l2 then MPI_SIMILAR else MPI_UNEQUAL), s')
    \<and> gstate_ok me s' L \<and> same s s'"
proof -
  obtain p1 where p1: "MpiaGroupValidateHandle h1 s = Inr p1" "p1 \<in> dom (gobj s)" "lpids s p1 = l1"
    using m(1) by (rule group_members_ptr)
  obtain p2 where p2: "MpiaGroupValidateHandle h2 s = Inr p2" "p2 \<in> dom (gobj s)" "lpids s p2 = l2"
    using m(2) by (rule group_members_ptr)
  obtain k1 k2 where k: "gobj s p1 = Some k1" "gobj s p2 = Some k2"
    using p1(2) p2(2) by blast
  note kt1 = gstate_ok_at [OF ok k(1), unfolded p1(3)] and kt2 = gstate_ok_at [OF ok k(2), unfolded p2(3)]
  show ?thesis
  proof (cases "length l1 = length l2")
    case False
    moreover from this have "set l1 \<noteq> set l2"
      using kt1(5) kt2(5) distinct_card by metis
    ultimately show ?thesis
      using p1(1) p2(1) k kt1(2) kt2(2) ok
      by (intro exI [of _ s]) (auto simp: MPI_Group_compare_def with_group_Inr)
  next
    case len: True
    obtain s2 where s2: "MPIR_Group_setup_lpid_pairs p1 p2 s = Some s2" "gstate_ok me s2 L" "same s s2"
      "ready s2 p1" "ready s2 p2"
      using setup_lpid_pairs [OF ok p1(2) p2(2)] by blast
    then obtain s1 where s1: "setup_if_unset p1 s = Some s1" "setup_if_unset p2 s1 = Some s2"
      by (auto simp: MPIR_Group_setup_lpid_pairs_def bind_eq_Some_conv)
    have l: "lpids s2 p1 = l1" "lpids s2 p2 = l2"
      using s2(3) p1(3) p2(3) by (simp_all add: same_def)
    have "p1 \<in> dom (gobj s2)" "p2 \<in> dom (gobj s2)"
      using s2(3) p1(2) p2(2) by (simp_all add: same_def)
    then obtain g1 g2 where g: "gobj s2 p1 = Some g1" "gobj s2 p2 = Some g2"
      by blast
    have size: "g_size g1 = int (length l1)"
      using gstate_ok_at(2) [OF s2(2) g(1)] l by simp
    have walk: "compare_loop s2 p1 p2 (idx_of_first_lpid g1) (idx_of_first_lpid g2) = Some (set l1 = set l2)"
      using compare_loop_maps [OF ready_at(2) [OF s2(4) g(1)] ready_at(2) [OF s2(5) g(2)]]
        ready_at(1) [OF s2(4) g(1)] ready_at(1) [OF s2(5) g(2)]
        ordered_members_eq [OF kt1(5) kt2(5)] len by (simp add: l)
    have ranks: "same_ranks s2 p1 p2 [0..g_size g1 - 1] = Some (l1 = l2)"
      using same_ranks_eq [of "[0..<length l1]" s2 p1 p2] len
      by (simp add: size upto_upt l list_eq_iff_nth_eq [of l1 l2] Ball_def)
    have "MPI_Group_compare h1 h2 True s =
        Some (Inr (if l1 = l2 then MPI_IDENT else if set l1 = set l2 then MPI_SIMILAR else MPI_UNEQUAL), s2)"
      using p1(1) p2(1) k kt1(2) kt2(2) len s1 g walk ranks
      by (auto simp: MPI_Group_compare_def with_group_Inr)
    then show ?thesis
      using s2 by blast
  qed
qed

lemma MPI_Group_compare_witness:
  "\<exists>s'. MPI_Group_compare handle_A handle_B True demo = Some (Inr MPI_UNEQUAL, s') \<and>
    gstate_ok 3 s' {Direct 0, Direct 1} \<and> same demo s'"
  using MPI_Group_compare_correct [OF demo_ok demo_members(1,2)] by (simp add: set_eq_subset)

subsection \<open>Translation finds the rank\<close>

definition hd_pid :: "gstate \<Rightarrow> addr \<Rightarrow> nat list \<Rightarrow> int" where
  "hd_pid s p zs = (if zs = [] then - 1 else at s p (hd zs))"

lemma search_loop_drop:
  assumes "on_list s p zs"
  shows "search_loop s p l (head_ptr zs) (hd_pid s p zs) =
    (let zs' = dropWhile (\<lambda>k. at s p k < l) zs in Some (head_ptr zs', hd_pid s p zs'))"
  using assms
proof (induction zs)
  case Nil
  then show ?case by (simp add: search_loop.simps)
next
  case (Cons z zs)
  obtain e where e: "pmap_at s p (int z) = Some e" "next_lpid e = head_ptr zs" "on_list s p zs"
    using Cons.prems by (auto elim: on_list_Cons)
  show ?case
  proof (cases "at s p z < l")
    case False
    then show ?thesis
      by (simp add: search_loop.simps [of s p l "int z"] hd_pid_def)
  next
    case True
    have "search_loop s p l (head_ptr (z # zs)) (hd_pid s p (z # zs)) =
        search_loop s p l (head_ptr zs) (hd_pid s p zs)"
    proof (cases zs)
      case Nil
      with True e show ?thesis
        by (simp add: search_loop.simps [of s p l "int z"] hd_pid_def)
    next
      case c: (Cons y ys)
      obtain e' where "pmap_at s p (int y) = Some e'" "lpid e' = at s p y"
        using e(3) c by (auto elim: on_list_Cons)
      with True e c show ?thesis
        by (simp add: search_loop.simps [of s p l "int z"] hd_pid_def)
    qed
    with True show ?thesis
      using Cons.IH [OF e(3)] by simp
  qed
qed

text \<open>Searching an ascending list from anywhere at or below the target finds it or its place.\<close>

lemma dropWhile_found:
  assumes "sorted_wrt (<) (map f (ws @ zs))" "\<forall>k\<in>set ws. f k < (l :: int)" "0 \<le> l"
  defines "zs' \<equiv> dropWhile (\<lambda>k. f k < l) zs"
  shows "l = (if zs' = [] then - 1 else f (hd zs')) \<longleftrightarrow> l \<in> f ` set (ws @ zs)"
    and "l = (if zs' = [] then - 1 else f (hd zs')) \<Longrightarrow> zs' \<noteq> []"
    and "\<exists>us. ws @ zs = us @ zs'"
proof -
  have tw: "\<forall>k\<in>set (takeWhile (\<lambda>k. f k < l) zs). f k < l"
    by (auto dest: set_takeWhileD)
  have split: "ws @ zs = (ws @ takeWhile (\<lambda>k. f k < l) zs) @ zs'"
    by (simp add: zs'_def)
  then show "\<exists>us. ws @ zs = us @ zs'"
    by blast
  show "l = (if zs' = [] then - 1 else f (hd zs')) \<longleftrightarrow> l \<in> f ` set (ws @ zs)"
  proof (cases zs')
    case Nil
    have "l \<notin> f ` set (ws @ zs)"
      unfolding split Nil using tw assms(2) by auto
    with Nil assms(3) show ?thesis by simp
  next
    case (Cons z r)
    have "\<not> f z < l"
      using Cons unfolding zs'_def by (metis dropWhile_eq_Cons_conv)
    moreover have "\<forall>k\<in>set r. f z < f k"
      using assms(1) unfolding split Cons by (simp add: sorted_wrt_append)
    ultimately show ?thesis
      unfolding split Cons using tw assms(2) by fastforce
  qed
  show "l = (if zs' = [] then - 1 else f (hd zs')) \<Longrightarrow> zs' \<noteq> []"
    using assms(3) by (auto split: if_splits)
qed

definition translated :: "int list \<Rightarrow> int list \<Rightarrow> int \<Rightarrow> int" where
  "translated l1 l2 r = (if r = MPI_PROC_NULL then MPI_PROC_NULL else rank_of (l1 ! nat r) l2)"

lemma update_next: "length xs = a \<Longrightarrow> (xs @ replicate (Suc n) u)[a := v] = (xs @ [v]) @ replicate n u"
  by (simp add: list_update_append)

lemma wr_next:
  "length xs = a \<Longrightarrow> wr (xs @ replicate (Suc n) u) (int a) v = Some ((xs @ [v]) @ replicate n u)"
  by (simp only: wr_int length_append length_replicate update_next less_add_same_cancel1 zero_less_Suc)

lemma head_ptr_neg: "head_ptr ks < 0 \<longleftrightarrow> ks = []"
  by (cases ks) auto

lemma translate_loop_correct:
  assumes ok: "gstate_ok me s L" and ready: "ready s p2" and g: "gobj s p1 = Some g1" "gobj s p2 = Some g2"
    and l: "lpids s p1 = l1" "lpids s p2 = l2" "l2 \<noteq> []"
    and rs: "\<forall>r\<in>set rs. r = MPI_PROC_NULL \<or> 0 \<le> r \<and> r < int (length l1)"
    and suffix: "\<exists>ws. lpid_order l2 = ws @ zs"
    and n: "a + n \<le> length rs"
  shows "translate_loop s p1 p2 rs (map int [a..<a + n]) (head_ptr zs) (hd_pid s p2 zs)
      (map (translated l1 l2) (take a rs) @ replicate n MPI_UNDEFINED) =
    Some (map (translated l1 l2) (take (a + n) rs))"
  using suffix n
proof (induction n arbitrary: a zs)
  case 0
  then show ?case by simp
next
  case (Suc n)
  note at1 = gstate_ok_at [OF ok g(1), unfolded l] and at2 = gstate_ok_at [OF ok g(2), unfolded l]
  let ?out = "map (translated l1 l2) (take a rs)"
  have idx: "[a..<a + Suc n] = a # [Suc a..<Suc a + n]"
    by (simp add: upt_conv_Cons del: upt_Suc)
  have a: "a < length rs" "rd rs (int a) = Some (rs ! a)" "length ?out = a"
    using Suc.prems(2) by simp_all
  have next_out: "map (translated l1 l2) (take (Suc a) rs) = ?out @ [translated l1 l2 (rs ! a)]"
    using a(1) by (simp add: take_Suc_conv_app_nth)
  show ?case
  proof (cases "rs ! a = MPI_PROC_NULL")
    case True
    then have "translated l1 l2 (rs ! a) = MPI_PROC_NULL"
      by (simp add: translated_def)
    then show ?thesis
      using Suc.IH [OF Suc.prems(1), of "Suc a"] Suc.prems(2) True a(2) wr_next [OF a(3), of n MPI_UNDEFINED MPI_PROC_NULL]
      unfolding idx next_out by (simp del: replicate_Suc wr_eq_Some)
  next
    case False
    define k where "k = nat (rs ! a)"
    have "rs ! a \<in> set rs"
      using a(1) by simp
    then have k: "k < length l1" "rs ! a = int k"
      using rs False by (auto simp: k_def)
    obtain e1 where e1: "pmap_at s p1 (int k) = Some e1" "lpid e1 = l1 ! k"
      using pmap_at_int [of k s p1] k(1) l(1) by auto
    let ?l = "l1 ! k" and ?f = "at s p2"
    have pos: "0 \<le> ?l"
      using at1(6) k(1) by simp
    have order: "sorted_wrt (<) (map ?f (lpid_order l2))" "lpid_order l2 \<noteq> []"
      using lpid_order_strict [OF at2(5)] l(2,3) by (simp_all flip: length_greater_0_conv)
    define ys where "ys = (if ?l < hd_pid s p2 zs \<or> zs = [] then lpid_order l2 else zs)"
    obtain ws where ws: "lpid_order l2 = ws @ ys" "\<forall>j\<in>set ws. ?f j < ?l"
    proof (cases "?l < hd_pid s p2 zs \<or> zs = []")
      case True
      then show thesis
        using that [of "[]"] by (simp add: ys_def)
    next
      case no: False
      then obtain us z zs' where us: "lpid_order l2 = us @ zs" "zs = z # zs'" "\<not> ?l < ?f z"
        using Suc.prems(1) by (cases zs) (auto simp: hd_pid_def)
      have "\<forall>j\<in>set us. ?f j < ?f z"
        using order(1) unfolding us by (simp add: sorted_wrt_append)
      with us(3) have "\<forall>j\<in>set us. ?f j < ?l"
        by fastforce
      moreover have "ys = zs"
        using no by (simp add: ys_def)
      ultimately show thesis
        using that [of us] us(1) by simp
    qed
    have ls: "on_list s p2 (lpid_order l2)" "idx_of_first_lpid g2 = head_ptr (lpid_order l2)"
      using ready_at [OF ready g(2)] l(2) by simp_all
    have on: "on_list s p2 us" if "lpid_order l2 = vs @ us" for vs us
      using ls(1) unfolding that on_list_def by (induction vs) auto
    obtain o1 o2 where o: "lpid_order l2 = o1 # o2"
      using order(2) by (cases "lpid_order l2") auto
    obtain eo where eo: "pmap_at s p2 (int o1) = Some eo" "lpid eo = ?f o1"
      using ls(1) unfolding o by (auto elim: on_list_Cons)
    define zs' where "zs' = dropWhile (\<lambda>j. ?f j < ?l) ys"
    have restart: "(if lpid e1 < hd_pid s p2 zs \<or> head_ptr zs < 0 then do {
          g2 \<leftarrow> gobj s p2; e \<leftarrow> pmap_at s p2 (idx_of_first_lpid g2); Some (idx_of_first_lpid g2, lpid e)
        } else Some (head_ptr zs, hd_pid s p2 zs)) = Some (head_ptr ys, hd_pid s p2 ys)"
      using g(2) ls(2) eo o e1(2) by (simp add: ys_def hd_pid_def head_ptr_neg)
    have found: "search_loop s p2 (lpid e1) (head_ptr ys) (hd_pid s p2 ys) =
        Some (head_ptr zs', hd_pid s p2 zs')"
      using search_loop_drop [OF on [OF ws(1)], of ?l] e1(2) by (simp add: Let_def zs'_def)
    note dw = dropWhile_found [OF order(1) [unfolded ws(1)] ws(2) pos, folded zs'_def hd_pid_def]
    have mem: "?l = hd_pid s p2 zs' \<longleftrightarrow> ?l \<in> set l2"
      using dw(1) map_lpid_order [of l2] by (simp only: ws(1) [symmetric] l(2))
    obtain us where us: "lpid_order l2 = us @ zs'"
      using dw(3) ws(1) by metis
    have tr: "translated l1 l2 (rs ! a) = rank_of ?l l2"
      using k False by (simp add: translated_def)
    have IH: "translate_loop s p1 p2 rs (map int [Suc a..<Suc a + n]) (head_ptr zs') (hd_pid s p2 zs')
        ((?out @ [translated l1 l2 (rs ! a)]) @ replicate n MPI_UNDEFINED) =
      Some (map (translated l1 l2) (take (Suc a + n) rs))"
      using Suc.IH [of zs' "Suc a"] us Suc.prems(2) unfolding next_out by auto
    have step: "translate_loop s p1 p2 rs (map int [a..<a + Suc n]) (head_ptr zs) (hd_pid s p2 zs)
        (?out @ replicate (Suc n) MPI_UNDEFINED) =
      (if ?l = hd_pid s p2 zs' then do {
         e2 \<leftarrow> pmap_at s p2 (head_ptr zs');
         ranks2' \<leftarrow> wr (?out @ replicate (Suc n) MPI_UNDEFINED) (int a) (lrank e2);
         translate_loop s p1 p2 rs (map int [Suc a..<Suc a + n]) (head_ptr zs') (hd_pid s p2 zs') ranks2'
       } else translate_loop s p1 p2 rs (map int [Suc a..<Suc a + n]) (head_ptr zs') (hd_pid s p2 zs')
           (?out @ replicate (Suc n) MPI_UNDEFINED))"
      unfolding idx list.map translate_loop.simps a(2) using False k(2) e1 restart found
      by (simp del: replicate_Suc wr_eq_Some head_ptr_nonneg)
    show ?thesis
    proof (cases "?l \<in> set l2")
      case False
      then have "translated l1 l2 (rs ! a) = MPI_UNDEFINED"
        using tr by (simp add: rank_from_notin)
      then show ?thesis
        using step IH False mem by (simp add: replicate_app_Cons_same)
    next
      case True
      then obtain z zr where z: "zs' = z # zr" "?f z = ?l"
        using dw(2) mem by (cases zs') (auto simp: hd_pid_def)
      have "on_list s p2 zs'"
        using us by (rule on)
      then obtain e2 where e2: "pmap_at s p2 (int z) = Some e2" "lrank e2 = lrank_of s p2 z" "z < length l2"
        using z(1) l(2) by (auto elim: on_list_Cons)
      then have "lrank e2 = rank_of ?l l2"
        using at2(8) rank_from_eq [OF at2(5), of z 0 ?l] z(2) l(2) by simp
      then show ?thesis
        using step IH True mem e2(1) z(1) wr_next [OF a(3), of n MPI_UNDEFINED "rank_of ?l l2"] tr
        by (simp del: replicate_Suc wr_eq_Some)
    qed
  qed
qed

text \<open>C17: \<open>MPI_Group_translate_ranks\<close>, on valid ranks, gives for every rank the rank of the same process
in the second group, or \<open>MPI_UNDEFINED\<close>; \<open>MPI_PROC_NULL\<close> is kept, except when the second group is
empty, where every answer is \<open>MPI_UNDEFINED\<close>.\<close>

theorem MPI_Group_translate_ranks_correct:
  assumes ok: "gstate_ok me s L" and m: "group_members h1 s = Some l1" "group_members h2 s = Some l2"
    and rs: "rs \<noteq> []" "\<forall>r\<in>set rs. r = MPI_PROC_NULL \<or> 0 \<le> r \<and> r < int (length l1)"
  shows "\<exists>s'. MPI_Group_translate_ranks h1 (int (length rs)) (Some rs) h2 True s =
      Some (Inr (if l2 = [] then replicate (length rs) MPI_UNDEFINED else map (translated l1 l2) rs), s')
    \<and> gstate_ok me s' L \<and> same s s'"
proof -
  obtain p1 where p1: "MpiaGroupValidateHandle h1 s = Inr p1" "p1 \<in> dom (gobj s)" "lpids s p1 = l1"
    using m(1) by (rule group_members_ptr)
  obtain p2 where p2: "MpiaGroupValidateHandle h2 s = Inr p2" "p2 \<in> dom (gobj s)" "lpids s p2 = l2"
    using m(2) by (rule group_members_ptr)
  obtain k1 where k1: "gobj s p1 = Some k1" "g_size k1 = int (length l1)"
    using p1(2,3) gstate_ok_at(2) [OF ok] by fastforce
  obtain s1 where s1: "setup_if_unset p2 s = Some s1" "gstate_ok me s1 L" "same s s1" "ready s1 p2"
    using setup_if_unset [OF ok p2(2)] by blast
  have l: "lpids s1 p1 = l1" "lpids s1 p2 = l2"
    using s1(3) p1(3) p2(3) by (simp_all add: same_def)
  have "p1 \<in> dom (gobj s1)" "p2 \<in> dom (gobj s1)"
    using s1(3) p1(2) p2(2) by (simp_all add: same_def)
  then obtain g1 g2 where g: "gobj s1 p1 = Some g1" "gobj s1 p2 = Some g2"
    by blast
  note list = ready_at [OF s1(4) g(2), unfolded l]
  have valid: "(\<exists>r\<in>set rs. r < 0 \<and> r \<noteq> MPI_PROC_NULL \<or> r \<ge> g_size k1) = False"
    using rs(2) k1(2) by (force simp: MPI_PROC_NULL_def)
  have n: "int (length rs) \<noteq> 0"
    using rs(1) by simp
  show ?thesis
  proof (cases "l2 = []")
    case True
    then have "idx_of_first_lpid g2 = - 1"
      using list(1) by (simp add: lpid_order_def)
    then show ?thesis
      using p1(1) p2(1) k1(1) s1 g n True
      by (intro exI [of _ s1])
        (simp add: MPI_Group_translate_ranks_def with_group_Inr valid del: bex_simps ball_simps)
  next
    case False
    then obtain o1 o2 where o: "lpid_order l2 = o1 # o2"
      by (cases "lpid_order l2") (auto simp flip: length_0_conv [of "lpid_order l2"])
    obtain e where e: "pmap_at s1 p2 (int o1) = Some e" "lpid e = l2 ! o1"
      using list(2) l(2) unfolding o by (auto elim: on_list_Cons)
    have "translate_loop s1 p1 p2 rs [0..int (length rs) - 1] (idx_of_first_lpid g2) (lpid e)
        (replicate (length rs) MPI_UNDEFINED) = Some (map (translated l1 l2) rs)"
      using translate_loop_correct [OF s1(2,4) g l False rs(2), of "lpid_order l2" 0 "length rs"]
        list(1) e(2) o l(2) by (simp add: hd_pid_def upto_upt)
    then show ?thesis
      using p1(1) p2(1) k1(1) s1 g n False list(1) o e(1)
      by (intro exI [of _ s1])
        (simp add: MPI_Group_translate_ranks_def with_group_Inr valid del: bex_simps ball_simps)
  qed
qed

lemma MPI_Group_translate_ranks_witness:
  "\<exists>s'. MPI_Group_translate_ranks handle_A 3 (Some [0, - 1, 2]) handle_B True demo =
      Some (Inr [MPI_UNDEFINED, MPI_PROC_NULL, 0], s') \<and>
    gstate_ok 3 s' {Direct 0, Direct 1} \<and> same demo s'"
  using MPI_Group_translate_ranks_correct [OF demo_ok demo_members(1,2), of "[0, - 1, 2]"]
  by (simp add: translated_def MPI_PROC_NULL_def)

subsection \<open>Size, rank and release\<close>

text \<open>\<open>MPI_Group_size\<close> and \<open>MPI_Group_rank\<close> of a valid handle: the number of members, and the
position of the calling process among them (\<open>MPI_UNDEFINED\<close> when it is not a member).\<close>

theorem MPI_Group_size_rank_correct:
  assumes ok: "gstate_ok me s L" and m: "group_members h s = Some l"
  shows "MPI_Group_size h True s = Some (Inr (int (length l)), s) \<and>
    MPI_Group_rank h True s = Some (Inr (rank_of me l), s)"
proof -
  obtain p where p: "MpiaGroupValidateHandle h s = Inr p" "p \<in> dom (gobj s)" "lpids s p = l"
    using m by (rule group_members_ptr)
  then obtain g where "gobj s p = Some g" "g_size g = int (length l)" "g_rank g = rank_of me l"
    using gstate_ok_at(2,7) [OF ok] by fastforce
  with p show ?thesis
    by (simp_all add: MPI_Group_size_def MPI_Group_rank_def with_group_Inr)
qed

lemma MPI_Group_size_rank_witness:
  "MPI_Group_size handle_A True demo = Some (Inr 3, demo) \<and>
   MPI_Group_rank handle_A True demo = Some (Inr 1, demo)"
  using MPI_Group_size_rank_correct [OF demo_ok demo_members(1)] by simp

lemma empty_handle_unique:
  assumes "MpiaGroupValidateHandle h s = Inr (Builtin 0)"
  shows "h = MPI_GROUP_EMPTY"
proof -
  have "HANDLE_GET_TYPE h = 1" "HANDLE_GET_MPI_KIND h = 2" "HANDLE_DIRECT_INDEX h = 0"
    using assms
    by (auto simp: MpiaGroupValidateHandle_def MPID_Group_get_ptr_def MPID_Getb_ptr_def
        MPIU_Handle_get_ptr_indirect_def HANDLE_TYPE_BUILTIN_def HANDLE_DIRECT_INDEX_def
        split: if_splits option.splits)
  then show ?thesis
    using handle_from_fields_direct [of h] by (simp add: make_handle_def MPI_GROUP_EMPTY_def)
qed

definition group_refs :: "gstate \<Rightarrow> addr \<Rightarrow> int option" where
  "group_refs s p = map_option ref_count (store (gmem s) p)"

lemma release_result:
  assumes ok: "gstate_ok me s L" and p: "p \<in> L"
  obtains s' n where "MPIR_Group_release p s = Some s'" "group_refs s p = Some n"
    "gstate_ok me s' (if n = 1 then L - {p} else L)"
    "\<forall>q\<in>dom (gobj s) - {p}. q \<in> dom (gobj s') \<and> lpids s' q = lpids s q"
    "grows (gmem s) (gmem s')" "n = 1 \<longrightarrow> gobj s' p = None" "n \<noteq> 1 \<longrightarrow> gobj s' = gobj s"
    "n \<noteq> 1 \<longrightarrow> group_refs s' p = Some (n - 1)" "\<forall>q. q \<noteq> p \<longrightarrow> group_refs s' q = group_refs s q"
proof -
  have inv: "objmem_inv (gmem s) L" "kind (gmem s) = MPID_GROUP"
    using ok by (auto simp: gstate_ok_def)
  obtain e where e: "store (gmem s) p = Some e"
    using live_entry [OF inv(1) p] by blast
  let ?m = "(gmem s)\<lparr>store := (store (gmem s))(p \<mapsto> set_ref (ref_count e - 1) e)\<rparr>"
  have m: "objmem_inv ?m L"
    using inv(1) e by (auto simp: objmem_inv_def intro: entries_ok_upd free_chain_ref)
  show thesis
  proof (cases "ref_count e = 1")
    case True
    let ?s = "s\<lparr>gmem := MPIU_Handle_obj_free p ?m, gobj := (gobj s)(p := None)\<rparr>"
    have "p \<noteq> Builtin 0"
      using live_in_pool [OF inv(1)] p by (auto simp: pool_addrs_def split: if_splits)
    then have "gstate_ok me ?s (L - {p})"
      using ok obj_free_inv [OF m p] by (auto simp: gstate_ok_def frame_simps lpids_def split: if_splits)
    moreover have "MPIR_Group_release p s = Some ?s"
      using e True by (simp add: MPIR_Group_release_def MPIU_Object_release_ref_def)
    ultimately show thesis
      using that [of ?s 1] e True inv by (auto simp: group_refs_def lpids_def grows_def frame_simps MPIU_Handle_obj_free_def)
  next
    case False
    let ?s = "s\<lparr>gmem := ?m\<rparr>"
    have "gstate_ok me ?s L"
      using ok m by (auto simp: gstate_ok_def lpids_def)
    moreover have "MPIR_Group_release p s = Some ?s"
      using e False by (simp add: MPIR_Group_release_def MPIU_Object_release_ref_def)
    ultimately show thesis
      using that [of ?s "ref_count e"] e False by (auto simp: group_refs_def lpids_def grows_def set_ref_def)
  qed
qed

text \<open>C18: \<open>MPI_Group_free\<close> of a handle of a live group other than \<open>MPI_GROUP_EMPTY\<close> succeeds and stores
\<open>MPI_GROUP_NULL\<close>. When there are other references the group stays, with one reference less and the same members; with
the last reference it is no longer live and its handle leads to no group any more. Every handle of another
group keeps its members, and every other live group its references, either way.\<close>

theorem MPI_Group_free_correct:
  assumes ok: "gstate_ok me s L" and m: "group_members h s = Some l" and h: "h \<noteq> MPI_GROUP_EMPTY"
  shows "\<exists>p n s'. MpiaGroupValidateHandle h s = Inr p \<and> p \<in> L \<and> group_refs s p = Some n \<and>
    MPI_Group_free (Some h) s = Some (Inr MPI_GROUP_NULL, s') \<and>
    gstate_ok me s' (if n = 1 then L - {p} else L) \<and>
    group_members h s' = (if n = 1 then None else Some l) \<and>
    (n \<noteq> 1 \<longrightarrow> group_refs s' p = Some (n - 1)) \<and>
    (\<forall>q\<in>L - {p}. group_refs s' q = group_refs s q) \<and>
    (\<forall>h' l'. MpiaGroupValidateHandle h' s \<noteq> Inr p \<longrightarrow> group_members h' s = Some l' \<longrightarrow>
       group_members h' s' = Some l')"
proof -
  obtain p where p: "MpiaGroupValidateHandle h s = Inr p" "p \<in> dom (gobj s)" "lpids s p = l"
    using m by (rule group_members_ptr)
  have "p \<noteq> Builtin 0"
    using p(1) h empty_handle_unique by blast
  then have "p \<in> L"
    using p(2) ok by (auto simp: gstate_ok_def)
  obtain s' n where s': "MPIR_Group_release p s = Some s'" "group_refs s p = Some n"
    "gstate_ok me s' (if n = 1 then L - {p} else L)"
    "\<forall>q\<in>dom (gobj s) - {p}. q \<in> dom (gobj s') \<and> lpids s' q = lpids s q"
    "grows (gmem s) (gmem s')" "n = 1 \<longrightarrow> gobj s' p = None" "n \<noteq> 1 \<longrightarrow> gobj s' = gobj s"
    "n \<noteq> 1 \<longrightarrow> group_refs s' p = Some (n - 1)" "\<forall>q. q \<noteq> p \<longrightarrow> group_refs s' q = group_refs s q"
    using release_result [OF ok \<open>p \<in> L\<close>] by blast
  have valid: "MpiaGroupValidateHandle h s' = Inr p"
    using validate_grows [OF p(1) s'(5)] .
  have "group_members h s' = (if n = 1 then None else Some l)"
    using s'(6,7) p(2,3) valid by (auto simp: group_members_def lpids_def)
  moreover have "group_members h' s' = Some l'"
    if h': "MpiaGroupValidateHandle h' s \<noteq> Inr p" "group_members h' s = Some l'" for h' l'
  proof -
    obtain q where q: "MpiaGroupValidateHandle h' s = Inr q" "q \<in> dom (gobj s)" "lpids s q = l'"
      using h'(2) by (rule group_members_ptr)
    with h'(1) s'(4) validate_grows [OF q(1) s'(5)] show ?thesis
      by (auto simp: group_members_eq)
  qed
  ultimately show ?thesis
    using p(1) \<open>p \<in> L\<close> s' h by (intro exI [of _ p] exI [of _ n] exI [of _ s'])
      (simp add: MPI_Group_free_def with_group_Inr)
qed

lemma MPI_Group_free_witness:
  "\<exists>p n s'. MpiaGroupValidateHandle handle_A demo = Inr p \<and> p \<in> {Direct 0, Direct 1} \<and>
    group_refs demo p = Some n \<and> MPI_Group_free (Some handle_A) demo = Some (Inr MPI_GROUP_NULL, s') \<and>
    gstate_ok 3 s' (if n = 1 then {Direct 0, Direct 1} - {p} else {Direct 0, Direct 1}) \<and>
    group_members handle_A s' = (if n = 1 then None else Some [5, 3, 9]) \<and>
    (n \<noteq> 1 \<longrightarrow> group_refs s' p = Some (n - 1))"
proof -
  have h: "handle_A \<noteq> MPI_GROUP_EMPTY" by (simp add: handle_A_def MPI_GROUP_EMPTY_def)
  show ?thesis using MPI_Group_free_correct [OF demo_ok demo_members(1) h] by blast
qed

end
