(* ===== verification/Group_Select.thy ===== *)
theory Group_Select
  imports Group_Sets
begin

text \<open>
  The selecting constructors of \<open>src/mpi/msmpi/api/mpi_group.cpp\<close>: \<open>MPI_Group_incl\<close>,
  \<open>MPI_Group_excl\<close>, \<open>MPI_Group_range_incl\<close>, \<open>MPI_Group_range_excl\<close>, and the argument checks of
  \<open>src/mpi/msmpi/mpid/group.cpp\<close> they start with. A possibly null array argument is an option.
\<close>

subsection \<open>Operations\<close>

definition finish_group :: "addr \<Rightarrow> int \<Rightarrow> gstate \<Rightarrow> gstate option" where
  "finish_group q n s = do {
     g \<leftarrow> gobj s q;
     Some (put_group q (g\<lparr>g_size := n, idx_of_first_lpid := - 1\<rparr>) s)
   }"

fun incl_loop :: "addr \<Rightarrow> addr \<Rightarrow> int list \<Rightarrow> int list \<Rightarrow> gstate \<Rightarrow> gstate option" where
  "incl_loop p q ranks [] s = Some s"
| "incl_loop p q ranks (i # is) s = do {
     r \<leftarrow> rd ranks i;
     s' \<leftarrow> add_member p q i r s;
     incl_loop p q ranks is s'
   }"

text \<open>A null \<open>ranks\<close> is accepted when \<open>n\<close> is 0.\<close>

definition MPI_Group_incl ::
  "handle \<Rightarrow> int \<Rightarrow> int list option \<Rightarrow> bool \<Rightarrow> gstate \<Rightarrow> handle group_call" where
  "MPI_Group_incl h n pranks newgroup s =
     with_group h s (\<lambda>p.
       if n < 0 then api_fail MPI_ERR_ARG ''**argneg'' s
       else if n > 0 \<and> pranks = None then api_fail MPI_ERR_ARG ''**nullptr'' s
       else if \<not> newgroup then api_fail MPI_ERR_ARG ''**nullptr'' s
       else let ranks = (case pranks of None \<Rightarrow> [] | Some rs \<Rightarrow> rs) in do {
         (chk, s1) \<leftarrow> MPIR_Group_check_valid_ranks p ranks n s;
         case chk of Inl e \<Rightarrow> Some (Inl e, s1)
         | Inr _ \<Rightarrow>
           if n = 0 then Some (Inr MPI_GROUP_EMPTY, s1)
           else make_group n (\<lambda>q t. do {
                  t1 \<leftarrow> set_rank MPI_UNDEFINED q t;
                  t2 \<leftarrow> incl_loop p q ranks [0..n - 1] t1;
                  finish_group q n t2
                }) s1
       })"

text \<open>\<open>for (i=0; i<n; i++) group_ptr->lrank_to_lpid[ranks[i]].flag = 1\<close>.\<close>

fun flag_ranks :: "addr \<Rightarrow> int list \<Rightarrow> int list \<Rightarrow> gstate \<Rightarrow> gstate option" where
  "flag_ranks p ranks [] s = Some s"
| "flag_ranks p ranks (i # is) s = do {
     r \<leftarrow> rd ranks i;
     s' \<leftarrow> set_flag 1 s p r;
     flag_ranks p ranks is s'
   }"

definition MPI_Group_excl ::
  "handle \<Rightarrow> int \<Rightarrow> int list option \<Rightarrow> bool \<Rightarrow> gstate \<Rightarrow> handle group_call" where
  "MPI_Group_excl h n pranks newgroup s =
     with_group h s (\<lambda>p.
       if n < 0 then api_fail MPI_ERR_ARG ''**argneg'' s
       else case pranks of
         None \<Rightarrow> api_fail MPI_ERR_ARG ''**nullptr'' s
       | Some ranks \<Rightarrow>
         if \<not> newgroup then api_fail MPI_ERR_ARG ''**nullptr'' s
         else do {
           (chk, s1) \<leftarrow> MPIR_Group_check_valid_ranks p ranks n s;
           case chk of Inl e \<Rightarrow> Some (Inl e, s1)
           | Inr _ \<Rightarrow> do {
               g \<leftarrow> gobj s1 p;
               if g_size g = n then Some (Inr MPI_GROUP_EMPTY, s1)
               else make_group (g_size g - n) (\<lambda>q t. do {
                      t1 \<leftarrow> set_rank MPI_UNDEFINED q t;
                      t2 \<leftarrow> clear_flags p (g_size g) t1;
                      t3 \<leftarrow> flag_ranks p ranks [0..n - 1] t2;
                      t4 \<leftarrow> pick_loop False p q [0..g_size g - 1] 0 t3;
                      finish_group q (g_size g - n) t4
                    }) s1
             }
         })"

text \<open>\<open>nnew += 1 + (last - first) / stride\<close> over the ranges.\<close>

fun count_ranges :: "range list \<Rightarrow> int list \<Rightarrow> int \<Rightarrow> int option" where
  "count_ranges ranges [] nnew = Some nnew"
| "count_ranges ranges (i # is) nnew = do {
     (fir, lst, stride) \<leftarrow> rd ranges i;
     q \<leftarrow> c_div (i32 (lst - fir)) stride;
     count_ranges ranges is (i32 (nnew + i32 (1 + q)))
   }"

text \<open>The loop over one range, adding members; \<open>k\<close> is the next rank of the new group.\<close>

partial_function (option) add_range ::
  "addr \<Rightarrow> addr \<Rightarrow> int \<Rightarrow> int \<Rightarrow> int \<Rightarrow> int \<Rightarrow> gstate \<Rightarrow> (int \<times> gstate) option" where
  "add_range p q lst stride j k s =
     (if (if stride > 0 then j \<le> lst else j \<ge> lst) then do {
        s' \<leftarrow> add_member p q k j s;
        add_range p q lst stride (i32 (j + stride)) (k + 1) s'
      } else Some (k, s))"

fun add_ranges ::
  "addr \<Rightarrow> addr \<Rightarrow> range list \<Rightarrow> int list \<Rightarrow> int \<Rightarrow> gstate \<Rightarrow> gstate option" where
  "add_ranges p q ranges [] k s = Some s"
| "add_ranges p q ranges (i # is) k s = do {
     (fir, lst, stride) \<leftarrow> rd ranges i;
     (k', s') \<leftarrow> add_range p q lst stride fir k s;
     add_ranges p q ranges is k' s'
   }"

definition MPI_Group_range_incl ::
  "handle \<Rightarrow> int \<Rightarrow> range list option \<Rightarrow> bool \<Rightarrow> gstate \<Rightarrow> handle group_call" where
  "MPI_Group_range_incl h n pranges newgroup s =
     with_group h s (\<lambda>p.
       if n < 0 then api_fail MPI_ERR_ARG ''**argneg'' s
       else case pranges of
         None \<Rightarrow> api_fail MPI_ERR_ARG ''**nullptr'' s
       | Some ranges \<Rightarrow>
         if \<not> newgroup then api_fail MPI_ERR_ARG ''**nullptr'' s
         else do {
           (chk, s1) \<leftarrow> MPIR_Group_check_valid_ranges p ranges n s;
           case chk of Inl e \<Rightarrow> Some (Inl e, s1)
           | Inr _ \<Rightarrow> do {
               nnew \<leftarrow> count_ranges ranges [0..n - 1] 0;
               if nnew = 0 then Some (Inr MPI_GROUP_EMPTY, s1)
               else make_group nnew (\<lambda>q t. do {
                      t1 \<leftarrow> set_rank MPI_UNDEFINED q t;
                      add_ranges p q ranges [0..n - 1] 0 t1
                    }) s1
             }
         })"

partial_function (option) flag_range ::
  "addr \<Rightarrow> int \<Rightarrow> int \<Rightarrow> int \<Rightarrow> gstate \<Rightarrow> gstate option" where
  "flag_range p lst stride j s =
     (if (if stride > 0 then j \<le> lst else j \<ge> lst)
      then do { s' \<leftarrow> set_flag 1 s p j; flag_range p lst stride (i32 (j + stride)) s' }
      else Some s)"

fun flag_ranges :: "addr \<Rightarrow> range list \<Rightarrow> int list \<Rightarrow> gstate \<Rightarrow> gstate option" where
  "flag_ranges p ranges [] s = Some s"
| "flag_ranges p ranges (i # is) s = do {
     (fir, lst, stride) \<leftarrow> rd ranges i;
     s' \<leftarrow> flag_range p lst stride fir s;
     flag_ranges p ranges is s'
   }"

definition MPI_Group_range_excl ::
  "handle \<Rightarrow> int \<Rightarrow> range list option \<Rightarrow> bool \<Rightarrow> gstate \<Rightarrow> handle group_call" where
  "MPI_Group_range_excl h n pranges newgroup s =
     with_group h s (\<lambda>p.
       if n < 0 then api_fail MPI_ERR_ARG ''**argneg'' s
       else case pranges of
         None \<Rightarrow> api_fail MPI_ERR_ARG ''**nullptr'' s
       | Some ranges \<Rightarrow>
         if \<not> newgroup then api_fail MPI_ERR_ARG ''**nullptr'' s
         else do {
           (chk, s1) \<leftarrow> MPIR_Group_check_valid_ranges p ranges n s;
           case chk of Inl e \<Rightarrow> Some (Inl e, s1)
           | Inr _ \<Rightarrow> do {
               g \<leftarrow> gobj s1 p;
               listed \<leftarrow> count_ranges ranges [0..n - 1] 0;
               let nnew = i32 (g_size g - listed);
               if nnew = 0 then Some (Inr MPI_GROUP_EMPTY, s1)
               else make_group nnew (\<lambda>q t. do {
                      t1 \<leftarrow> set_rank MPI_UNDEFINED q t;
                      t2 \<leftarrow> clear_flags p (g_size g) t1;
                      t3 \<leftarrow> flag_ranges p ranges [0..n - 1] t2;
                      pick_loop False p q [0..g_size g - 1] 0 t3
                    }) s1
             }
         })"

subsection \<open>Checking ranks\<close>

text \<open>Which error the scan of a rank list reports first; \<open>seen\<close> are the ranks already accepted.\<close>

fun rank_fault :: "nat \<Rightarrow> int list \<Rightarrow> int list \<Rightarrow> string option" where
  "rank_fault n seen [] = None"
| "rank_fault n seen (r # rs) =
     (if r < 0 \<or> r \<ge> int n then Some ''**rankarray''
      else if r \<in> set seen then Some ''**rankdup''
      else rank_fault n (seen @ [r]) rs)"

lemma rank_fault_None:
  "rank_fault n seen rs = None \<longleftrightarrow>
     (\<forall>r\<in>set rs. 0 \<le> r \<and> r < int n) \<and> distinct rs \<and> set rs \<inter> set seen = {}"
  by (induction n seen rs rule: rank_fault.induct) auto

definition check_outcome :: "mpi_class \<Rightarrow> string option \<Rightarrow> mpi_error + unit" where
  "check_outcome c key = (case key of None \<Rightarrow> Inr () | Some k \<Rightarrow> Inl (MPIU_ERR_CREATE c k))"

lemma check_outcome_simps [simp]:
  "check_outcome c None = Inr ()" "check_outcome c (Some k) = Inl (MPIU_ERR_CREATE c k)"
  "check_outcome c key = Inr () \<longleftrightarrow> key = None"
  by (auto simp: check_outcome_def split: option.splits)

text \<open>A state that differs from \<open>s\<close> in the flags of \<open>p\<close> only, which are exactly \<open>K\<close>.\<close>

definition flagged :: "addr \<Rightarrow> nat set \<Rightarrow> gstate \<Rightarrow> gstate \<Rightarrow> bool" where
  "flagged p K s t \<longleftrightarrow>
     same s t \<and> (\<forall>q. ready t q = ready s q) \<and> (\<forall>me L. gstate_ok me t L = gstate_ok me s L) \<and>
     (\<forall>k<length (lpids s p). flag_of t p k \<noteq> 0 \<longleftrightarrow> k \<in> K)"

lemma flagged_clear: "flagged p {} s (mark p {0..<length (lpids s p)} 0 s)"
  by (simp add: flagged_def)

lemma flagged_mark:
  "flagged p K s t \<Longrightarrow> v \<noteq> 0 \<Longrightarrow> flagged p (J \<union> K) s (mark p J v t)"
  by (auto simp: flagged_def same_lpids split: if_splits)

lemma flaggedD:
  assumes "flagged p K s t"
  shows "same s t" "gstate_ok me s L \<Longrightarrow> gstate_ok me t L" "lpids t q = lpids s q"
    "k < length (lpids s p) \<Longrightarrow> flag_of t p k \<noteq> 0 \<longleftrightarrow> k \<in> K"
  using assms by (auto simp: flagged_def same_lpids)

lemma flagged_gobj:
  assumes "gstate_ok me s L" "flagged p K s t" "p \<in> dom (gobj s)"
  obtains g where "gobj t p = Some g" "g_size g = int (length (lpids s p))"
proof -
  have ok: "gstate_ok me t L" "lpids t p = lpids s p"
    using flaggedD [OF assms(2)] assms(1) by auto
  have "p \<in> dom (gobj t)"
    using flaggedD(1) [OF assms(2)] assms(3) by (simp add: same_def)
  then obtain g where "gobj t p = Some g" by blast
  with gstate_ok_at(2) [OF ok(1) this] ok(2) that show thesis by simp
qed

lemma check_ranks_loop_result:
  assumes ok: "gstate_ok me s L" and p: "p \<in> dom (gobj s)"
    and fl: "flagged p (nat ` set (take a rs)) s t" and "\<forall>r\<in>set (take a rs). 0 \<le> r"
    and n: "a + m \<le> length rs"
  shows "\<exists>t'. check_ranks_loop p rs (map int [a..<a + m]) t =
      Some (check_outcome MPI_ERR_RANK
        (rank_fault (length (lpids s p)) (take a rs) (take m (drop a rs))), t') \<and>
    (\<exists>K. flagged p K s t')"
  using fl assms(4) n
proof (induction m arbitrary: a t)
  case 0
  then show ?case by auto
next
  case (Suc m)
  let ?n = "length (lpids s p)" and ?r = "rs ! a"
  obtain g where g: "gobj t p = Some g" "g_size g = int ?n"
    using flagged_gobj [OF ok Suc.prems(1) p] .
  have idx: "[a..<a + Suc m] = a # [Suc a..<Suc a + m]"
    by (simp add: upt_conv_Cons del: upt_Suc)
  have a: "a < length rs" "rd rs (int a) = Some ?r" "take (Suc m) (drop a rs) = ?r # take m (drop (Suc a) rs)"
    "take (Suc a) rs = take a rs @ [?r]"
    using Suc.prems(3) by (simp_all add: Cons_nth_drop_Suc [symmetric] take_Suc_conv_app_nth)
  show ?case
  proof (cases "?r < 0 \<or> ?r \<ge> int ?n")
    case True
    then show ?thesis
      using g a(2) Suc.prems(1) unfolding idx a(3) by auto
  next
    case False
    define k where "k = nat ?r"
    have k: "?r = int k" "k < ?n"
      using False by (auto simp: k_def)
    have lt: "lpids t p = lpids s p"
      using flaggedD(3) [OF Suc.prems(1)] .
    obtain e where e: "pmap_at t p (int k) = Some e" "flag e = flag_of t p k"
      using pmap_at_int [of k t p] k(2) lt by auto
    have mem: "flag e \<noteq> 0 \<longleftrightarrow> ?r \<in> set (take a rs)"
      using flaggedD(4) [OF Suc.prems(1), of k] k Suc.prems(2) e(2) by (force simp: image_iff)
    show ?thesis
    proof (cases "flag e = 0")
      case dup: False
      then show ?thesis
        using g a(2) e(1) k mem Suc.prems(1) unfolding idx a(3) by auto
    next
      case fresh: True
      have "flagged p (nat ` set (take (Suc a) rs)) s (mark p {k} (int a + 1) t)"
        using flagged_mark [OF Suc.prems(1), of "int a + 1" "{k}"] k(1) unfolding a(4) by simp
      moreover have "\<forall>r\<in>set (take (Suc a) rs). 0 \<le> r"
        using Suc.prems(2) k(1) unfolding a(4) by simp
      ultimately obtain t' where "check_ranks_loop p rs (map int [Suc a..<Suc a + m]) (mark p {k} (int a + 1) t) =
          Some (check_outcome MPI_ERR_RANK (rank_fault ?n (take (Suc a) rs) (take m (drop (Suc a) rs))), t')"
        "\<exists>K. flagged p K s t'"
        using Suc.IH [of "Suc a" "mark p {k} (int a + 1) t"] Suc.prems(3) by auto
      then show ?thesis
        using g a(2) e(1) k mem fresh lt unfolding idx a(3) a(4) by auto
    qed
  qed
qed

lemma check_ranks_result:
  assumes ok: "gstate_ok me s L" and p: "p \<in> dom (gobj s)" and l: "lpids s p = l"
  shows "\<exists>s'. MPIR_Group_check_valid_ranks p rs (int (length rs)) s =
      Some (if length rs > length l then Inl (MPIU_ERR_CREATE MPI_ERR_ARG ''**rankarraysize'')
            else check_outcome MPI_ERR_RANK (rank_fault (length l) [] rs), s') \<and>
    same s s' \<and> gstate_ok me s' L"
proof -
  obtain g where g: "gobj s p = Some g" "g_size g = int (length l)"
    using p l gstate_ok_at(2) [OF ok] by fastforce
  show ?thesis
  proof (cases "length rs > length l")
    case True
    with g ok show ?thesis
      by (auto simp: MPIR_Group_check_valid_ranks_def)
  next
    case False
    let ?t = "mark p {0..<length l} 0 s"
    have clear: "clear_flags p (g_size g) s = Some ?t"
      using clear_flags_mark [of "length l" s p] g(2) l by simp
    have "flagged p (nat ` set (take 0 rs)) s ?t"
      using flagged_clear [of p s] l by simp
    then obtain t' K where "check_ranks_loop p rs (map int [0..<0 + length rs]) ?t =
        Some (check_outcome MPI_ERR_RANK (rank_fault (length l) [] rs), t')" "flagged p K s t'"
      using check_ranks_loop_result [OF ok p, of 0 rs ?t "length rs"] l by auto
    with False g clear flaggedD(1,2) ok show ?thesis
      by (auto simp: MPIR_Group_check_valid_ranks_def upto_upt)
  qed
qed

subsection \<open>Selecting by rank\<close>

lemma mark_put_group: "p \<noteq> q \<Longrightarrow> mark p K v (put_group q g u) = put_group q g (mark p K v u)"
  by (auto simp: mark_def put_group_def fun_eq_iff)

lemma mark_gmem: "mark p K v (u\<lparr>gmem := m\<rparr>) = (mark p K v u)\<lparr>gmem := m\<rparr>"
  by (simp add: mark_def)

lemma lpids_gmem [simp]: "lpids (u\<lparr>gmem := m\<rparr>) = lpids u"
  by (simp add: lpids_def fun_eq_iff)

lemma incl_loop_fill:
  assumes "p \<noteq> q" "gobj s p = Some g" "gobj s q = Some d" "a + m \<le> length (lrank_to_lpid d)"
    "a + m \<le> length rs" "\<forall>r\<in>set rs. 0 \<le> r \<and> r < int (length (lrank_to_lpid g))"
  shows "incl_loop p q rs (map int [a..<a + m]) s =
    Some (put_group q (fill g a (map nat (take m (drop a rs))) d) s)"
  using assms(3,4,5) assms(2)
proof (induction m arbitrary: a s d)
  case 0
  then show ?case by (simp add: put_group_same)
next
  case (Suc m)
  let ?j = "nat (rs ! a)"
  have idx: "[a..<a + Suc m] = a # [Suc a..<Suc a + m]"
    by (simp add: upt_conv_Cons del: upt_Suc)
  have a: "rd rs (int a) = Some (rs ! a)" "take (Suc m) (drop a rs) = rs ! a # take m (drop (Suc a) rs)"
    using Suc.prems(3) by (simp_all add: Cons_nth_drop_Suc [symmetric])
  have "0 \<le> rs ! a \<and> rs ! a < int (length (lrank_to_lpid g))"
    using assms(6) Suc.prems(3) by simp
  then have j: "rs ! a = int ?j" "?j < length (lrank_to_lpid g)"
    by auto
  have "add_member p q (int a) (rs ! a) s = Some (put_group q (member_upd g a ?j d) s)"
    using add_member_int [OF assms(1) Suc.prems(4,1) j(2), of a] Suc.prems(2) j(1) by simp
  then show ?case
    using Suc.IH [of "put_group q (member_upd g a ?j d) s" "member_upd g a ?j d" "Suc a"]
      Suc.prems assms(1) a(1) unfolding idx a(2) by (simp del: wr_eq_Some)
qed

lemma finish_same:
  "gobj t q = Some d \<Longrightarrow> g_size d = n \<Longrightarrow> idx_of_first_lpid d = - 1 \<Longrightarrow> finish_group q n t = Some t"
  by (cases d) (auto simp: finish_group_def put_group_same)

lemma incl_produces:
  assumes ok: "gstate_ok me s L" and m: "group_members h s = Some l"
    and rs: "\<forall>r\<in>set rs. 0 \<le> r \<and> r < int (length l)" "distinct rs"
  shows "produces me s L (map (\<lambda>r. l ! nat r) rs) (MPI_Group_incl h (int (length rs)) (Some rs) True s)"
proof -
  obtain p where p: "MpiaGroupValidateHandle h s = Inr p" "p \<in> dom (gobj s)" "lpids s p = l"
    using m by (rule group_members_ptr)
  have "card (nat ` set rs) = length rs"
    using rs by (auto simp: distinct_card [symmetric] intro!: card_image inj_onI) (metis nat_0_le)
  moreover have "nat ` set rs \<subseteq> {0..<length l}"
    using rs(1) by auto
  ultimately have len: "length rs \<le> length l"
    using card_mono [of "{0..<length l}" "nat ` set rs"] by simp
  obtain s1 where s1: "MPIR_Group_check_valid_ranks p rs (int (length rs)) s = Some (Inr (), s1)"
    "same s s1" "gstate_ok me s1 L"
    using check_ranks_result [OF ok p(2,3), of rs] len rs rank_fault_None [of "length l" "[]" rs] by auto
  have "p \<in> dom (gobj s1)"
    using s1(2) p(2) by (simp add: same_def)
  then obtain g where g: "gobj s1 p = Some g" by blast
  have l1: "lpids s1 p = l"
    using s1(2) p(3) by (simp add: same_def)
  note at = gstate_ok_at [OF s1(3) g, unfolded l1]
  let ?n = "int (length rs)"
  let ?body = "\<lambda>q t. do {
      t1 \<leftarrow> set_rank MPI_UNDEFINED q t;
      t2 \<leftarrow> incl_loop p q rs [0..?n - 1] t1;
      finish_group q ?n t2 }"
  have "produces me s1 L (map (\<lambda>r. l ! nat r) rs)
      (if ?n = 0 then Some (Inr MPI_GROUP_EMPTY, s1) else make_group ?n ?body s1)"
  proof (cases "rs = []")
    case True
    then show ?thesis using produces_empty [OF s1(3)] by simp
  next
    case False
    have "produces me s1 L (map (\<lambda>r. l ! nat r) rs) (make_group ?n ?body s1)"
    proof (rule make_group_produces [OF s1(3)])
      fix q m assume q: "q \<notin> L" "q \<noteq> Builtin 0"
      let ?u = "s1\<lparr>gmem := m\<rparr>" and ?d = "(fresh_group ?n s1)\<lparr>g_rank := MPI_UNDEFINED\<rparr>"
      let ?g = "fill g 0 (map nat rs) ?d"
      have qp: "p \<noteq> q"
        using s1(3) g q by (rule other_than_fresh)
      have d: "length (lrank_to_lpid ?d) = length (map nat rs)" "g_size ?d = int (length (map nat rs))"
        "g_rank ?d = MPI_UNDEFINED" "idx_of_first_lpid ?d = - 1"
        by (simp_all add: fresh_group_def)
      have "incl_loop p q rs (map int [0..<0 + length rs]) (put_group q ?d ?u) =
          Some (put_group q (fill g 0 (map nat (take (length rs) (drop 0 rs))) ?d) (put_group q ?d ?u))"
        by (rule incl_loop_fill) (use qp g rs(1) at(4) d(1) in simp_all)
      then have "?body q (put_group q (fresh_group ?n s1) ?u) = Some (put_group q ?g ?u)"
        using d by (simp add: set_rank_def upto_upt finish_same)
      moreover have "\<forall>j\<in>set (map nat rs). j < length (lrank_to_lpid g)" "distinct (map nat rs)"
        using rs at(4) by (auto simp: distinct_map inj_on_def) (metis nat_0_le)
      note fill_group_ok [OF at(1) this d]
      ultimately show "\<exists>g. ?body q (put_group q (fresh_group ?n s1) ?u) = Some (put_group q g ?u) \<and>
          group_ok me g \<and> map lpid (lrank_to_lpid g) = map (\<lambda>r. l ! nat r) rs"
        using at(3) by (auto simp: comp_def)
    qed
    then show ?thesis using False by simp
  qed
  then have "produces me s L (map (\<lambda>r. l ! nat r) rs)
      (if ?n = 0 then Some (Inr MPI_GROUP_EMPTY, s1) else make_group ?n ?body s1)"
    by (rule produces_same [OF s1(2)])
  then show ?thesis
    using p(1) s1(1) by (simp add: MPI_Group_incl_def with_group_Inr)
qed

subsection \<open>Leaving members out\<close>

lemma drop_flagged:
  assumes ok: "gstate_ok me s L" and g: "gobj s p = Some g" and l: "lpids s p = l"
    and q: "q \<notin> L" "q \<noteq> Builtin 0"
    and F: "\<And>t. lpids t p = l \<Longrightarrow> F t = Some (mark p K 1 t)"
    and n: "n = int (length (filter (\<lambda>k. k \<notin> K) [0..<length l]))"
  shows "\<exists>d u. (do {
      t1 \<leftarrow> set_rank MPI_UNDEFINED q (put_group q (fresh_group n s) (s\<lparr>gmem := m\<rparr>));
      t2 \<leftarrow> clear_flags p (g_size g) t1;
      t3 \<leftarrow> F t2;
      pick_loop False p q [0..g_size g - 1] 0 t3 }) = Some (put_group q d (u\<lparr>gmem := m\<rparr>)) \<and>
    same s u \<and> gstate_ok me u L \<and> group_ok me d \<and> g_size d = n \<and> idx_of_first_lpid d = - 1 \<and>
    map lpid (lrank_to_lpid d) = map (\<lambda>k. l ! k) (filter (\<lambda>k. k \<notin> K) [0..<length l])"
proof -
  let ?d = "(fresh_group n s)\<lparr>g_rank := MPI_UNDEFINED\<rparr>"
  let ?u = "mark p K 1 (mark p {0..<length l} 0 s)"
  have qp: "p \<noteq> q"
    using ok g q by (rule other_than_fresh)
  have u: "gstate_ok me ?u L" "lpids ?u p = l" "same s ?u"
    using ok l by simp_all
  have "p \<in> dom (gobj ?u)"
    using g by auto
  then obtain g' where g': "gobj ?u p = Some g'" by blast
  have size: "g_size g' = g_size g" "g_size g = int (length l)"
    using gstate_ok_at(2) [OF u(1) g'] gstate_ok_at(2) [OF ok g] u(2) l by simp_all
  have "\<forall>k<length (lpids ?u p). (flag_of ?u p k \<noteq> 0) = False \<longleftrightarrow> k \<notin> K"
    using l by simp
  from pick_group [OF u(1) g' q this, of n m] n u(2) obtain d where d:
    "pick_loop False p q [0..g_size g - 1] 0 (put_group q ?d (?u\<lparr>gmem := m\<rparr>)) =
      Some (put_group q d (?u\<lparr>gmem := m\<rparr>))"
    "group_ok me d" "g_size d = n" "idx_of_first_lpid d = - 1"
    "map lpid (lrank_to_lpid d) = map (\<lambda>k. l ! k) (filter (\<lambda>k. k \<notin> K) [0..<length l])"
    by (auto simp: size(1) fresh_group_def)
  have clear: "clear_flags p (g_size g) (put_group q ?d (s\<lparr>gmem := m\<rparr>)) =
      Some (put_group q ?d ((mark p {0..<length l} 0 s)\<lparr>gmem := m\<rparr>))"
    using clear_flags_mark [of "length l" "put_group q ?d (s\<lparr>gmem := m\<rparr>)" p] qp l size(2)
    by (simp add: mark_put_group mark_gmem)
  have "F (put_group q ?d ((mark p {0..<length l} 0 s)\<lparr>gmem := m\<rparr>)) =
      Some (put_group q ?d (?u\<lparr>gmem := m\<rparr>))"
    using F [of "put_group q ?d ((mark p {0..<length l} 0 s)\<lparr>gmem := m\<rparr>)"] qp l
    by (simp add: mark_put_group mark_gmem)
  then show ?thesis
    using d u clear by (intro exI [of _ d] exI [of _ ?u]) (simp add: set_rank_def)
qed

lemma flag_ranks_mark:
  assumes "a + m \<le> length rs" "\<forall>r\<in>set rs. 0 \<le> r \<and> r < int (length (lpids t p))"
  shows "flag_ranks p rs (map int [a..<a + m]) t = Some (mark p (nat ` set (take m (drop a rs))) 1 t)"
  using assms
proof (induction m arbitrary: a t)
  case (Suc m)
  have idx: "[a..<a + Suc m] = a # [Suc a..<Suc a + m]"
    by (simp add: upt_conv_Cons del: upt_Suc)
  have a: "rd rs (int a) = Some (rs ! a)" "take (Suc m) (drop a rs) = rs ! a # take m (drop (Suc a) rs)"
    using Suc.prems(1) by (simp_all add: Cons_nth_drop_Suc [symmetric])
  have "0 \<le> rs ! a \<and> rs ! a < int (length (lpids t p))"
    using Suc.prems by simp
  then have "set_flag 1 t p (rs ! a) = Some (mark p {nat (rs ! a)} 1 t)"
    using set_flag_int [of "nat (rs ! a)" t p 1] by auto
  then show ?case
    using Suc.IH [of "Suc a" "mark p {nat (rs ! a)} 1 t"] Suc.prems a(1) unfolding idx a(2)
    by (simp add: Un_commute)
qed simp

lemma kept_count:
  "J \<subseteq> {0..<n} \<Longrightarrow> length (filter (\<lambda>k. k \<notin> J) [0..<n]) = n - card J"
proof -
  assume J: "J \<subseteq> {0..<n}"
  have "length (filter (\<lambda>k. k \<notin> J) [0..<n]) = card ({0..<n} - J)"
    by (simp add: distinct_length_filter set_diff_eq Int_def conj_commute)
  with J show ?thesis by (simp add: card_Diff_subset finite_subset)
qed

lemma excl_produces:
  assumes ok: "gstate_ok me s L" and m: "group_members h s = Some l"
    and rs: "\<forall>r\<in>set rs. 0 \<le> r \<and> r < int (length l)" "distinct rs"
  shows "produces me s L (map (\<lambda>k. l ! k) (filter (\<lambda>k. int k \<notin> set rs) [0..<length l]))
    (MPI_Group_excl h (int (length rs)) (Some rs) True s)"
proof -
  obtain p where p: "MpiaGroupValidateHandle h s = Inr p" "p \<in> dom (gobj s)" "lpids s p = l"
    using m by (rule group_members_ptr)
  let ?K = "nat ` set rs" and ?n = "int (length rs)"
  let ?ls = "map (\<lambda>k. l ! k) (filter (\<lambda>k. int k \<notin> set rs) [0..<length l])"
  have card: "card ?K = length rs"
    using rs by (auto simp: distinct_card [symmetric] intro!: card_image inj_onI) (metis nat_0_le)
  have sub: "?K \<subseteq> {0..<length l}"
    using rs(1) by auto
  have len: "length rs \<le> length l"
    using card_mono [OF _ sub] card by simp
  have keep: "filter (\<lambda>k. k \<notin> ?K) [0..<length l] = filter (\<lambda>k. int k \<notin> set rs) [0..<length l]"
    using rs(1) by (intro filter_cong) (force simp: image_iff)+
  obtain s1 where s1: "MPIR_Group_check_valid_ranks p rs ?n s = Some (Inr (), s1)"
    "same s s1" "gstate_ok me s1 L"
    using check_ranks_result [OF ok p(2,3), of rs] len rs rank_fault_None [of "length l" "[]" rs] by auto
  have "p \<in> dom (gobj s1)"
    using s1(2) p(2) by (simp add: same_def)
  then obtain g where g: "gobj s1 p = Some g" by blast
  have l1: "lpids s1 p = l"
    using s1(2) p(3) by (simp add: same_def)
  have size: "g_size g = int (length l)"
    using gstate_ok_at(2) [OF s1(3) g] l1 by simp
  let ?body = "\<lambda>q t. do {
      t1 \<leftarrow> set_rank MPI_UNDEFINED q t;
      t2 \<leftarrow> clear_flags p (g_size g) t1;
      t3 \<leftarrow> flag_ranks p rs [0..?n - 1] t2;
      t4 \<leftarrow> pick_loop False p q [0..g_size g - 1] 0 t3;
      finish_group q (g_size g - ?n) t4 }"
  have count: "g_size g - ?n = int (length (filter (\<lambda>k. k \<notin> ?K) [0..<length l]))"
    using kept_count [OF sub] card len size by simp
  have "produces me s1 L ?ls
      (if g_size g = ?n then Some (Inr MPI_GROUP_EMPTY, s1) else make_group (g_size g - ?n) ?body s1)"
  proof (cases "g_size g = ?n")
    case True
    then have "?ls = []"
      using count keep by simp
    with True show ?thesis using produces_empty [OF s1(3)] by simp
  next
    case False
    have "produces me s1 L ?ls (make_group (g_size g - ?n) ?body s1)"
    proof (rule make_group_body [OF s1(3)])
      fix q m assume q: "q \<notin> L" "q \<noteq> Builtin 0"
      have "flag_ranks p rs [0..?n - 1] t = Some (mark p ?K 1 t)" if "lpids t p = l" for t
        using flag_ranks_mark [of 0 "length rs" rs t p] rs(1) that by (simp add: upto_upt)
      from drop_flagged [OF s1(3) g l1 q this count] obtain d u where
        "(do { t1 \<leftarrow> set_rank MPI_UNDEFINED q (put_group q (fresh_group (g_size g - ?n) s1) (s1\<lparr>gmem := m\<rparr>));
            t2 \<leftarrow> clear_flags p (g_size g) t1;
            t3 \<leftarrow> flag_ranks p rs [0..?n - 1] t2;
            pick_loop False p q [0..g_size g - 1] 0 t3 }) = Some (put_group q d (u\<lparr>gmem := m\<rparr>))"
        "same s1 u" "gstate_ok me u L" "group_ok me d" "g_size d = g_size g - ?n" "idx_of_first_lpid d = - 1"
        "map lpid (lrank_to_lpid d) = ?ls"
        unfolding keep by blast
      then show "\<exists>d u. ?body q (put_group q (fresh_group (g_size g - ?n) s1) (s1\<lparr>gmem := m\<rparr>)) =
          Some (put_group q d (u\<lparr>gmem := m\<rparr>)) \<and> same s1 u \<and> gstate_ok me u L \<and> group_ok me d \<and>
          map lpid (lrank_to_lpid d) = ?ls"
        by (intro exI [of _ d] exI [of _ u]) (auto simp: bind_eq_Some_conv finish_same)
    qed
    then show ?thesis using False by simp
  qed
  then have "produces me s L ?ls
      (if g_size g = ?n then Some (Inr MPI_GROUP_EMPTY, s1) else make_group (g_size g - ?n) ?body s1)"
    by (rule produces_same [OF s1(2)])
  then show ?thesis
    using p(1) s1(1) g by (simp add: MPI_Group_excl_def with_group_Inr)
qed

subsection \<open>The two constructors, errors included\<close>

definition ranks_fault :: "nat \<Rightarrow> int list \<Rightarrow> mpi_error option" where
  "ranks_fault n rs =
     (if length rs > n then Some (MPIU_ERR_CREATE MPI_ERR_ARG ''**rankarraysize'')
      else map_option (MPIU_ERR_CREATE MPI_ERR_RANK) (rank_fault n [] rs))"


text \<open>C19: \<open>MPI_Group_incl\<close> makes the group of the listed members in the listed order; if the list is too
long, has a rank outside the group or repeats one, it reports that (the first fault in the list)
and changes no group.\<close>

theorem MPI_Group_incl_correct:
  assumes ok: "gstate_ok me s L" and m: "group_members h s = Some l"
  shows "case ranks_fault (length l) rs of
      None \<Rightarrow> produces me s L (map (\<lambda>r. l ! nat r) rs) (MPI_Group_incl h (int (length rs)) (Some rs) True s)
    | Some e \<Rightarrow> \<exists>s'. MPI_Group_incl h (int (length rs)) (Some rs) True s = Some (Inl e, s') \<and>
        gstate_ok me s' L \<and> same s s'"
proof -
  obtain p where p: "MpiaGroupValidateHandle h s = Inr p" "p \<in> dom (gobj s)" "lpids s p = l"
    using m by (rule group_members_ptr)
  show ?thesis
  proof (cases "ranks_fault (length l) rs")
    case None
    then show ?thesis
      using incl_produces [OF ok m] by (auto simp: ranks_fault_def rank_fault_None split: if_splits option.splits)
  next
    case (Some e)
    then show ?thesis
      using check_ranks_result [OF ok p(2,3), of rs] p(1)
      by (fastforce simp: MPI_Group_incl_def with_group_Inr ranks_fault_def split: if_splits option.splits)
  qed
qed

lemma MPI_Group_incl_witness:
  "produces 3 demo {Direct 0, Direct 1} [9, 5] (MPI_Group_incl handle_A 2 (Some [2, 0]) True demo)"
  using MPI_Group_incl_correct [OF demo_ok demo_members(1), of "[2, 0]"]
  by (simp add: ranks_fault_def)


text \<open>C20: \<open>MPI_Group_excl\<close> makes the group of the members that are not listed, in the order of the group;
it reports the same faults as \<open>MPI_Group_incl\<close>.\<close>

theorem MPI_Group_excl_correct:
  assumes ok: "gstate_ok me s L" and m: "group_members h s = Some l"
  shows "case ranks_fault (length l) rs of
      None \<Rightarrow> produces me s L (map (\<lambda>k. l ! k) (filter (\<lambda>k. int k \<notin> set rs) [0..<length l])) (MPI_Group_excl h (int (length rs)) (Some rs) True s)
    | Some e \<Rightarrow> \<exists>s'. MPI_Group_excl h (int (length rs)) (Some rs) True s = Some (Inl e, s') \<and>
        gstate_ok me s' L \<and> same s s'"
proof -
  obtain p where p: "MpiaGroupValidateHandle h s = Inr p" "p \<in> dom (gobj s)" "lpids s p = l"
    using m by (rule group_members_ptr)
  show ?thesis
  proof (cases "ranks_fault (length l) rs")
    case None
    then show ?thesis
      using excl_produces [OF ok m] by (auto simp: ranks_fault_def rank_fault_None split: if_splits option.splits)
  next
    case (Some e)
    then show ?thesis
      using check_ranks_result [OF ok p(2,3), of rs] p(1)
      by (fastforce simp: MPI_Group_excl_def with_group_Inr ranks_fault_def split: if_splits option.splits)
  qed
qed

lemma MPI_Group_excl_witness:
  "produces 3 demo {Direct 0, Direct 1} [3] (MPI_Group_excl handle_A 2 (Some [2, 0]) True demo)"
  using MPI_Group_excl_correct [OF demo_ok demo_members(1), of "[2, 0]"]
  by (simp add: ranks_fault_def upt_rec)

end
