(* ===== verification/Group_Ranges.thy ===== *)
theory Group_Ranges
  imports Group_Select
begin

text \<open>
  The ranges of \<open>MPI_Group_range_incl\<close> and \<open>MPI_Group_range_excl\<close>: which ranks a triplet
  (first, last, stride) stands for, what \<open>MPIR_Group_check_valid_ranges\<close> accepts, and that the
  loops over a range visit exactly its ranks as long as \<open>j += stride\<close> does not leave \<open>int\<close>.
\<close>

subsection \<open>Truncating division\<close>

lemma sdiv_times:
  fixes a b :: int
  shows "b * (a sdiv b) = sgn a * (\<bar>b\<bar> * (\<bar>a\<bar> div \<bar>b\<bar>))"
  by (simp add: signed_divide_int_def abs_sgn algebra_simps sgn_mult)

lemma sdiv_times_bounds:
  fixes a b :: int
  shows "0 \<le> a \<Longrightarrow> 0 \<le> b * (a sdiv b) \<and> b * (a sdiv b) \<le> a"
    and "a \<le> 0 \<Longrightarrow> a \<le> b * (a sdiv b) \<and> b * (a sdiv b) \<le> 0"
proof -
  have "0 \<le> \<bar>a\<bar> mod \<bar>b\<bar>"
    by (cases "b = 0") simp_all
  moreover have "\<bar>b\<bar> * (\<bar>a\<bar> div \<bar>b\<bar>) = \<bar>a\<bar> - \<bar>a\<bar> mod \<bar>b\<bar>"
    by (simp add: minus_mod_eq_mult_div)
  moreover have "0 \<le> \<bar>b\<bar> * (\<bar>a\<bar> div \<bar>b\<bar>)"
    by (cases "b = 0") (simp_all add: pos_imp_zdiv_nonneg_iff)
  ultimately have "0 \<le> \<bar>b\<bar> * (\<bar>a\<bar> div \<bar>b\<bar>)" "\<bar>b\<bar> * (\<bar>a\<bar> div \<bar>b\<bar>) \<le> \<bar>a\<bar>"
    by linarith+
  then show "0 \<le> a \<Longrightarrow> 0 \<le> b * (a sdiv b) \<and> b * (a sdiv b) \<le> a"
    and "a \<le> 0 \<Longrightarrow> a \<le> b * (a sdiv b) \<and> b * (a sdiv b) \<le> 0"
    unfolding sdiv_times by (auto simp: sgn_if)
qed

lemma le_div_iff_mult_le: "0 < b \<Longrightarrow> i \<le> a div b \<longleftrightarrow> i * b \<le> a" for a b i :: int
proof
  assume "0 < b" "i \<le> a div b"
  then have "i * b \<le> a div b * b"
    by simp
  also have "\<dots> \<le> a"
    using \<open>0 < b\<close> by (simp flip: minus_mod_eq_div_mult)
  finally show "i * b \<le> a" .
next
  assume "0 < b" "i * b \<le> a"
  then show "i \<le> a div b"
    using zdiv_mono1 [of "i * b" a b] by simp
qed

subsection \<open>The ranks of a range\<close>

definition range_steps :: "range \<Rightarrow> int" where
  "range_steps r = (case r of (fir, lst, stride) \<Rightarrow> (lst - fir) sdiv stride)"

definition range_ranks :: "range \<Rightarrow> nat list" where
  "range_ranks r = (case r of (fir, lst, stride) \<Rightarrow>
     map (\<lambda>i. nat (fir + int i * stride)) [0..<Suc (nat (range_steps r))])"

text \<open>The arithmetic of the range stays within 32 bits for a group of \<open>n\<close> processes.\<close>

definition range_small :: "nat \<Rightarrow> range \<Rightarrow> bool" where
  "range_small n r = (case r of (fir, lst, stride) \<Rightarrow>
     - (2 ^ 31) \<le> fir \<and> fir < 2 ^ 31 \<and> - (2 ^ 31) \<le> lst \<and> lst < 2 ^ 31 \<and>
     - (2 ^ 31) < lst - fir \<and> lst - fir < 2 ^ 31 \<and>
     - (2 ^ 31) \<le> stride \<and> int n + stride \<le> 2 ^ 31 \<and> int n < 2 ^ 31)"

text \<open>The first complaint about a range on its own, in the order of the tests.\<close>

definition range_shape_fault :: "nat \<Rightarrow> range \<Rightarrow> string option" where
  "range_shape_fault n r = (case r of (fir, lst, stride) \<Rightarrow>
     if fir < 0 \<or> fir \<ge> int n then Some ''**rangestartinvalid''
     else if stride = 0 then Some ''**stridezero''
     else if lst < 0 \<or> fir + stride * range_steps r \<ge> int n then Some ''**rangeendinvalid''
     else if stride > 0 \<and> fir > lst \<or> stride < 0 \<and> fir < lst then Some ''**stride''
     else None)"

fun range_fault :: "nat \<Rightarrow> nat set \<Rightarrow> range list \<Rightarrow> string option" where
  "range_fault n seen [] = None"
| "range_fault n seen (r # rs) =
     (case range_shape_fault n r of
        Some k \<Rightarrow> Some k
      | None \<Rightarrow> if set (range_ranks r) \<inter> seen \<noteq> {} then Some ''**rangedup''
                else range_fault n (seen \<union> set (range_ranks r)) rs)"

lemma range_steps_div:
  assumes "range_shape_fault n (fir, lst, stride) = None"
  shows "range_steps (fir, lst, stride) = (lst - fir) div stride"
    and "0 \<le> range_steps (fir, lst, stride)"
proof -
  have s: "stride > 0 \<and> fir \<le> lst \<or> stride < 0 \<and> lst \<le> fir"
    using assms by (auto simp: range_shape_fault_def split: if_splits)
  then show "range_steps (fir, lst, stride) = (lst - fir) div stride"
    using div_minus_minus [of "lst - fir" stride]
    by (cases "lst = fir") (auto simp: range_steps_def signed_divide_int_def)
  then show "0 \<le> range_steps (fir, lst, stride)"
    using s by (auto simp: pos_imp_zdiv_nonneg_iff neg_imp_zdiv_nonneg_iff)
qed

lemma range_continues:
  assumes "range_shape_fault n (fir, lst, stride) = None"
  shows "(if stride > 0 then fir + int i * stride \<le> lst else fir + int i * stride \<ge> lst) \<longleftrightarrow>
    i \<le> nat (range_steps (fir, lst, stride))"
proof -
  have "stride \<noteq> 0"
    using assms by (auto simp: range_shape_fault_def split: if_splits)
  moreover have "int i \<le> (lst - fir) div stride \<longleftrightarrow> int i * stride \<le> lst - fir" if "0 < stride"
    using that by (rule le_div_iff_mult_le)
  moreover have "int i \<le> (lst - fir) div stride \<longleftrightarrow> int i * - stride \<le> fir - lst" if "stride < 0"
    using le_div_iff_mult_le [of "- stride" "int i" "fir - lst"] that
      div_minus_minus [of "lst - fir" stride] by simp
  ultimately show ?thesis
    using range_steps_div [OF assms] by (auto simp: le_nat_iff algebra_simps)
qed

lemma range_rank_bound:
  assumes f: "range_shape_fault n (fir, lst, stride) = None" and "range_small n (fir, lst, stride)"
    and i: "i \<le> nat (range_steps (fir, lst, stride))"
  shows "0 \<le> fir + int i * stride" "fir + int i * stride < int n"
    "i32 (fir + int i * stride + stride) = fir + int (Suc i) * stride"
proof -
  have b: "0 \<le> fir" "fir < int n" "0 \<le> lst" "fir + stride * range_steps (fir, lst, stride) < int n"
    and s: "stride > 0 \<and> fir \<le> lst \<or> stride < 0 \<and> lst \<le> fir"
    using f by (auto simp: range_shape_fault_def split: if_splits)
  have small: "- (2 ^ 31) \<le> stride" "int n + stride \<le> 2 ^ 31" "int n < 2 ^ 31"
    using assms(2) by (auto simp: range_small_def)
  have "int i \<le> range_steps (fir, lst, stride)"
    using i range_steps_div(2) [OF f] by simp
  then have up: "stride > 0 \<Longrightarrow> int i * stride \<le> stride * range_steps (fir, lst, stride)"
    by (simp add: mult.commute)
  have cont: "if stride > 0 then fir + int i * stride \<le> lst else fir + int i * stride \<ge> lst"
    using range_continues [OF f] i by blast
  have pos: "stride > 0 \<Longrightarrow> 0 \<le> int i * stride" and neg: "stride < 0 \<Longrightarrow> int i * stride \<le> 0"
    by (simp_all add: mult_nonneg_nonpos)
  show lo: "0 \<le> fir + int i * stride"
    using s b cont pos by (auto split: if_splits)
  show hi: "fir + int i * stride < int n"
  proof (cases "stride > 0")
    case True
    from up [OF True] b(4) show ?thesis by linarith
  next
    case False
    with s have "int i * stride \<le> 0" using neg by blast
    with b(2) show ?thesis by linarith
  qed
  show "i32 (fir + int i * stride + stride) = fir + int (Suc i) * stride"
    using lo hi small by (subst i32_id) (auto simp: algebra_simps)
qed

subsection \<open>The loops over a range\<close>

abbreviation rrank :: "int \<Rightarrow> int \<Rightarrow> nat \<Rightarrow> nat" where
  "rrank fir stride i \<equiv> nat (fir + int i * stride)"

lemma rrank_inj:
  assumes "range_shape_fault n (fir, lst, stride) = None" "range_small n (fir, lst, stride)"
    "i \<le> nat (range_steps (fir, lst, stride))" "j \<le> nat (range_steps (fir, lst, stride))"
    "rrank fir stride i = rrank fir stride j"
  shows "i = j"
proof -
  have "stride \<noteq> 0"
    using assms(1) by (auto simp: range_shape_fault_def split: if_splits)
  moreover have "fir + int i * stride = fir + int j * stride"
    using assms(5) range_rank_bound(1) [OF assms(1,2,3)] range_rank_bound(1) [OF assms(1,2,4)]
    by (simp add: eq_nat_nat_iff)
  ultimately show ?thesis by simp
qed

lemma range_ranks_props:
  assumes "range_shape_fault n r = None" "range_small n r"
  shows "distinct (range_ranks r)" "\<forall>k\<in>set (range_ranks r). k < n"
    "length (range_ranks r) = Suc (nat (range_steps r))"
proof -
  obtain fir lst stride where r: "r = (fir, lst, stride)" by (cases r)
  note f = assms [unfolded r]
  show "distinct (range_ranks r)"
    using rrank_inj [OF f] by (auto simp: r range_ranks_def distinct_map inj_on_def less_Suc_eq_le simp del: upt_Suc)
  show "\<forall>k\<in>set (range_ranks r). k < n"
  proof
    fix k assume "k \<in> set (range_ranks r)"
    then obtain i where "i \<le> nat (range_steps (fir, lst, stride))" "k = rrank fir stride i"
      by (auto simp: r range_ranks_def less_Suc_eq_le simp del: upt_Suc)
    then show "k < n"
      using range_rank_bound(1,2) [OF f, of i] by (simp add: nat_less_iff)
  qed
  show "length (range_ranks r) = Suc (nat (range_steps r))"
    by (simp add: r range_ranks_def)
qed

lemma fill_append: "fill g k (xs @ ys) d = fill g (k + length xs) ys (fill g k xs d)"
  by (induction xs arbitrary: k d) auto

lemma add_range_fill:
  assumes f: "range_shape_fault n (fir, lst, stride) = None" "range_small n (fir, lst, stride)"
    and pq: "p \<noteq> q" and g: "n = length (lrank_to_lpid g)"
    and m: "i + m = Suc (nat (range_steps (fir, lst, stride)))"
    and "gobj s p = Some g" "gobj s q = Some d" "k + m \<le> length (lrank_to_lpid d)"
  shows "add_range p q lst stride (fir + int i * stride) (int k) s =
    Some (int (k + m), put_group q (fill g k (map (rrank fir stride) [i..<i + m]) d) s)"
  using assms(5-)
proof (induction m arbitrary: i k s d)
  case 0
  then have "\<not> (if stride > 0 then fir + int i * stride \<le> lst else fir + int i * stride \<ge> lst)"
    using range_continues [OF f(1), of i] by simp
  then show ?case
    using 0 by (subst add_range.simps) (simp add: put_group_same)
next
  case (Suc m)
  have idx: "[i..<i + Suc m] = i # [Suc i..<Suc i + m]"
    by (simp add: upt_conv_Cons del: upt_Suc)
  have i: "i \<le> nat (range_steps (fir, lst, stride))"
    using Suc.prems(1) by simp
  note b = range_rank_bound [OF f i]
  let ?j = "rrank fir stride i"
  have j: "fir + int i * stride = int ?j" "?j < length (lrank_to_lpid g)"
    using b(1,2) g by auto
  let ?d = "member_upd g k ?j d"
  have add: "add_member p q (int k) (fir + int i * stride) s = Some (put_group q ?d s)"
    using add_member_int [OF pq Suc.prems(2,3) j(2), of k] Suc.prems(4) j(1) by simp
  have "add_range p q lst stride (fir + int i * stride) (int k) s =
      add_range p q lst stride (fir + int (Suc i) * stride) (int (Suc k)) (put_group q ?d s)"
    using range_continues [OF f(1), of i] i add b(3)
    by (subst add_range.simps) (simp add: add.commute)
  then show ?case
    using Suc.IH [of "Suc i" "put_group q ?d s" ?d "Suc k"] Suc.prems pq unfolding idx by simp
qed

lemma flag_range_mark:
  assumes f: "range_shape_fault n (fir, lst, stride) = None" "range_small n (fir, lst, stride)"
    and m: "i + m = Suc (nat (range_steps (fir, lst, stride)))" and "n = length (lpids t p)"
  shows "flag_range p lst stride (fir + int i * stride) t = Some (mark p (rrank fir stride ` {i..<i + m}) 1 t)"
  using assms(3-)
proof (induction m arbitrary: i t)
  case 0
  then have "\<not> (if stride > 0 then fir + int i * stride \<le> lst else fir + int i * stride \<ge> lst)"
    using range_continues [OF f(1), of i] by simp
  then show ?case
    using 0 by (subst flag_range.simps) simp
next
  case (Suc m)
  have i: "i \<le> nat (range_steps (fir, lst, stride))"
    using Suc.prems(1) by simp
  note b = range_rank_bound [OF f i]
  let ?j = "rrank fir stride i"
  have "fir + int i * stride = int ?j" "?j < length (lpids t p)"
    using b(1,2) Suc.prems(2) by auto
  then have "set_flag 1 t p (fir + int i * stride) = Some (mark p {?j} 1 t)"
    by (metis set_flag_int)
  then have "flag_range p lst stride (fir + int i * stride) t =
      flag_range p lst stride (fir + int (Suc i) * stride) (mark p {?j} 1 t)"
    using range_continues [OF f(1), of i] i b(3) by (subst flag_range.simps) simp
  moreover have "{i..<i + Suc m} = insert i {Suc i..<Suc i + m}"
    by auto
  ultimately show ?case
    using Suc.IH [of "Suc i" "mark p {?j} 1 t"] Suc.prems by (simp add: Un_commute)
qed

lemma image_segment:
  "f ` {i..<i + Suc m} = insert (f i) (f ` {Suc i..<Suc i + m})"
  "f ` {0..<Suc i} = insert (f i) (f ` {0..<i})" for f :: "nat \<Rightarrow> nat"
proof -
  have "{i..<i + Suc m} = insert i {Suc i..<Suc i + m}" "{0..<Suc i} = insert i {0..<i}"
    by auto
  then show "f ` {i..<i + Suc m} = insert (f i) (f ` {Suc i..<Suc i + m})"
    "f ` {0..<Suc i} = insert (f i) (f ` {0..<i})"
    by (simp_all only: image_insert)
qed

text \<open>Marking stops at the first rank that is already flagged.\<close>

lemma mark_range_result:
  assumes ok: "gstate_ok me s L" and f: "range_shape_fault n (fir, lst, stride) = None"
    "range_small n (fir, lst, stride)" and n: "n = length (lpids s p)" and v: "v \<noteq> 0"
    and "i + m = Suc (nat (range_steps (fir, lst, stride)))"
    and "flagged p (K \<union> rrank fir stride ` {0..<i}) s t"
    and "K \<inter> rrank fir stride ` {0..<i} = {}"
  shows "\<exists>t'. if K \<inter> rrank fir stride ` {i..<i + m} = {}
     then mark_range p v lst stride (fir + int i * stride) t = Some (Inr (), t') \<and>
          flagged p (K \<union> rrank fir stride ` {0..<i + m}) s t'
     else mark_range p v lst stride (fir + int i * stride) t =
            Some (Inl (MPIU_ERR_CREATE MPI_ERR_ARG ''**rangedup''), t') \<and> (\<exists>J. flagged p J s t')"
  using assms(6-)
proof (induction m arbitrary: i t)
  case 0
  then have "\<not> (if stride > 0 then fir + int i * stride \<le> lst else fir + int i * stride \<ge> lst)"
    using range_continues [OF f(1), of i] by simp
  then have "mark_range p v lst stride (fir + int i * stride) t = Some (Inr (), t)"
    by (subst mark_range.simps) simp
  with 0 show ?case
    by (intro exI [of _ t]) simp
next
  case (Suc m)
  have i: "i \<le> nat (range_steps (fir, lst, stride))"
    using Suc.prems(1) by simp
  note b = range_rank_bound [OF f i]
  let ?j = "rrank fir stride i"
  have j: "fir + int i * stride = int ?j" "?j < length (lpids s p)"
    using b(1,2) n by auto
  have lt: "lpids t p = lpids s p"
    using flaggedD(3) [OF Suc.prems(2)] .
  obtain e where e: "pmap_at t p (int ?j) = Some e" "flag e = flag_of t p ?j"
    using pmap_at_int [of ?j t p] j(2) lt by auto
  have rd_j: "pmap_at t p (fir + int i * stride) = Some e"
    using e(1) j(1) by metis
  have set_j: "set_flag v t p (fir + int i * stride) = Some (mark p {?j} v t)"
    using j lt set_flag_int [of ?j t p v] by metis
  have "\<forall>i'\<in>{0..<i}. ?j \<noteq> rrank fir stride i'"
  proof
    fix i' assume "i' \<in> {0..<i}"
    then show "?j \<noteq> rrank fir stride i'"
      using rrank_inj [OF f i, of i'] i by (metis atLeastLessThan_iff less_imp_le_nat less_irrefl_nat order_trans)
  qed
  then have "?j \<notin> rrank fir stride ` {0..<i}"
    by blast
  then have mem: "flag e \<noteq> 0 \<longleftrightarrow> ?j \<in> K"
    using flaggedD(4) [OF Suc.prems(2) j(2)] e(2) by auto
  have cont: "if stride > 0 then fir + int i * stride \<le> lst else fir + int i * stride \<ge> lst"
    using range_continues [OF f(1), of i] i by blast
  have sets: "rrank fir stride ` {i..<i + Suc m} = insert ?j (rrank fir stride ` {Suc i..<Suc i + m})"
    "rrank fir stride ` {0..<Suc i} = insert ?j (rrank fir stride ` {0..<i})"
    by (rule image_segment)+
  show ?case
  proof (cases "?j \<in> K")
    case True
    then have "mark_range p v lst stride (fir + int i * stride) t =
        Some (Inl (MPIU_ERR_CREATE MPI_ERR_ARG ''**rangedup''), t)"
      using cont rd_j mem by (subst mark_range.simps) simp
    with True Suc.prems(2) show ?thesis
      unfolding sets by (intro exI [of _ t]) auto
  next
    case False
    let ?t = "mark p {?j} v t"
    have step: "mark_range p v lst stride (fir + int i * stride) t =
        mark_range p v lst stride (fir + int (Suc i) * stride) ?t"
      using cont rd_j set_j mem False b(3) by (subst mark_range.simps) simp
    have "flagged p (K \<union> rrank fir stride ` {0..<Suc i}) s ?t"
      using flagged_mark [OF Suc.prems(2) v, of "{?j}"] unfolding sets by simp
    moreover have "Suc i + m = Suc (nat (range_steps (fir, lst, stride)))"
      using Suc.prems(1) by simp
    moreover have "K \<inter> rrank fir stride ` {0..<Suc i} = {}"
      using Suc.prems(3) False unfolding sets by auto
    moreover have "K \<inter> rrank fir stride ` {i..<i + Suc m} = K \<inter> rrank fir stride ` {Suc i..<Suc i + m}"
      using False unfolding sets by auto
    ultimately show ?thesis
      using Suc.IH [of "Suc i" ?t] unfolding step by (simp only: add_Suc add_Suc_right)
  qed
qed

subsection \<open>What the check accepts\<close>

lemma range_arith:
  assumes "range_small n (fir, lst, stride)" "stride \<noteq> 0"
  shows "c_div (i32 (lst - fir)) stride = Some (range_steps (fir, lst, stride))"
    and "i32 (fir + i32 (stride * range_steps (fir, lst, stride))) = fir + stride * range_steps (fir, lst, stride)"
proof -
  have b: "- (2 ^ 31) \<le> fir" "fir < 2 ^ 31" "- (2 ^ 31) \<le> lst" "lst < 2 ^ 31"
      "- (2 ^ 31) < lst - fir" "lst - fir < 2 ^ 31"
    using assms(1) by (simp_all add: range_small_def)
  then have d: "i32 (lst - fir) = lst - fir"
    by (intro i32_id) auto
  then show "c_div (i32 (lst - fir)) stride = Some (range_steps (fir, lst, stride))"
    using b(5) assms(2) by (simp add: c_div_def range_steps_def)
  let ?a = "stride * range_steps (fir, lst, stride)"
  have "0 \<le> lst - fir \<and> 0 \<le> ?a \<and> ?a \<le> lst - fir \<or> lst - fir \<le> 0 \<and> lst - fir \<le> ?a \<and> ?a \<le> 0"
    using sdiv_times_bounds [of "lst - fir" stride]
    by (cases "fir \<le> lst") (simp_all add: range_steps_def)
  then have "- (2 ^ 31) \<le> ?a" "?a < 2 ^ 31" "- (2 ^ 31) \<le> fir + ?a" "fir + ?a < 2 ^ 31"
    using b by linarith+
  then show "i32 (fir + i32 ?a) = fir + ?a"
    by (simp add: i32_id)
qed

lemma range_ranks_image:
  "set (range_ranks (fir, lst, stride)) = rrank fir stride ` {0..<0 + Suc (nat (range_steps (fir, lst, stride)))}"
  by (simp add: range_ranks_def del: upt_Suc)

lemma check_range_result:
  assumes ok: "gstate_ok me s L" and n: "n = length (lpids s p)" and small: "range_small n r"
    and i: "0 \<le> i" and fl: "flagged p K s t"
  shows "\<exists>t'. case range_fault n K [r] of
       Some k \<Rightarrow> check_range p (int n) i r t = Some (Inl (MPIU_ERR_CREATE MPI_ERR_ARG k), t') \<and>
                 (\<exists>J. flagged p J s t')
     | None \<Rightarrow> check_range p (int n) i r t = Some (Inr (), t') \<and>
                flagged p (K \<union> set (range_ranks r)) s t'"
proof -
  obtain fir lst stride where r: "r = (fir, lst, stride)" by (cases r)
  note sm = small [unfolded r]
  have code: "check_range p (int n) i r t =
      (case range_shape_fault n r of
         Some k \<Rightarrow> Some (Inl (MPIU_ERR_CREATE MPI_ERR_ARG k), t)
       | None \<Rightarrow> mark_range p (if stride > 0 then 1 else i + 1) lst stride fir t)"
    using range_arith [OF sm]
    by (auto simp: r check_range_def range_shape_fault_def Let_def)
  show ?thesis
  proof (cases "range_shape_fault n r")
    case (Some k)
    with code fl show ?thesis
      by (intro exI [of _ t]) auto
  next
    case None
    define v where "v = (if stride > 0 then 1 else i + 1)"
    have "v \<noteq> 0"
      using i by (simp add: v_def)
    moreover have "flagged p (K \<union> rrank fir stride ` {0..<0}) s t"
      using fl by simp
    ultimately have "\<exists>t'. if K \<inter> set (range_ranks r) = {}
       then mark_range p v lst stride fir t = Some (Inr (), t') \<and> flagged p (K \<union> set (range_ranks r)) s t'
       else mark_range p v lst stride fir t =
              Some (Inl (MPIU_ERR_CREATE MPI_ERR_ARG ''**rangedup''), t') \<and> (\<exists>J. flagged p J s t')"
      using mark_range_result [OF ok None [unfolded r] sm n, of v 0 "Suc (nat (range_steps (fir, lst, stride)))" K t]
      unfolding r range_ranks_image if_bool_eq_conj by simp
    then obtain t' where "if K \<inter> set (range_ranks r) = {}
       then mark_range p v lst stride fir t = Some (Inr (), t') \<and> flagged p (K \<union> set (range_ranks r)) s t'
       else mark_range p v lst stride fir t =
              Some (Inl (MPIU_ERR_CREATE MPI_ERR_ARG ''**rangedup''), t') \<and> (\<exists>J. flagged p J s t')"
      by blast
    then show ?thesis
      using code None unfolding v_def [symmetric] by (intro exI [of _ t']) (auto simp: Int_commute split: if_splits)
  qed
qed

lemma range_fault_Cons:
  "range_fault n K (r # rs) =
     (case range_fault n K [r] of Some k \<Rightarrow> Some k | None \<Rightarrow> range_fault n (K \<union> set (range_ranks r)) rs)"
  by (auto split: option.splits)

lemma check_ranges_loop_result:
  assumes ok: "gstate_ok me s L" and n: "n = length (lpids s p)" and small: "\<forall>r\<in>set rs. range_small n r"
    and "flagged p K s t" and "a + m \<le> length rs"
  shows "\<exists>t'. check_ranges_loop p (int n) rs (map int [a..<a + m]) t =
      Some (check_outcome MPI_ERR_ARG (range_fault n K (take m (drop a rs))), t') \<and> (\<exists>J. flagged p J s t')"
  using assms(4,5)
proof (induction m arbitrary: a t K)
  case 0
  then show ?case by auto
next
  case (Suc m)
  have idx: "[a..<a + Suc m] = a # [Suc a..<Suc a + m]"
    by (simp add: upt_conv_Cons del: upt_Suc)
  have a: "rd rs (int a) = Some (rs ! a)" "take (Suc m) (drop a rs) = rs ! a # take m (drop (Suc a) rs)"
    "rs ! a \<in> set rs"
    using Suc.prems(2) by (simp_all add: Cons_nth_drop_Suc [symmetric])
  obtain t1 where t1: "case range_fault n K [rs ! a] of
       Some k \<Rightarrow> check_range p (int n) (int a) (rs ! a) t =
                   Some (Inl (MPIU_ERR_CREATE MPI_ERR_ARG k), t1) \<and> (\<exists>J. flagged p J s t1)
     | None \<Rightarrow> check_range p (int n) (int a) (rs ! a) t = Some (Inr (), t1) \<and>
                flagged p (K \<union> set (range_ranks (rs ! a))) s t1"
    using check_range_result [OF ok n _ _ Suc.prems(1), of "rs ! a" "int a"] small a(3) by auto
  show ?case
  proof (cases "range_fault n K [rs ! a]")
    case (Some k)
    then have "check_range p (int n) (int a) (rs ! a) t = Some (Inl (MPIU_ERR_CREATE MPI_ERR_ARG k), t1)"
      "\<exists>J. flagged p J s t1"
      using t1 by simp_all
    moreover have "range_fault n K (take (Suc m) (drop a rs)) = Some k"
      unfolding a(2) by (subst range_fault_Cons) (simp only: Some option.case)
    ultimately show ?thesis
      unfolding idx using a(1) by simp
  next
    case None
    then have c: "check_range p (int n) (int a) (rs ! a) t = Some (Inr (), t1)"
      "flagged p (K \<union> set (range_ranks (rs ! a))) s t1"
      using t1 by simp_all
    have "range_fault n K (take (Suc m) (drop a rs)) =
        range_fault n (K \<union> set (range_ranks (rs ! a))) (take m (drop (Suc a) rs))"
      unfolding a(2) by (subst range_fault_Cons) (simp only: None option.case)
    moreover have "Suc a + m \<le> length rs"
      using Suc.prems(2) by simp
    ultimately show ?thesis
      using Suc.IH [OF c(2), of "Suc a"] c(1) a(1) unfolding idx by (auto simp del: upt_Suc)
  qed
qed

lemma check_ranges_result:
  assumes ok: "gstate_ok me s L" and p: "p \<in> dom (gobj s)" and l: "lpids s p = l"
    and small: "\<forall>r\<in>set rs. range_small (length l) r"
  shows "\<exists>s'. MPIR_Group_check_valid_ranges p rs (int (length rs)) s =
      Some (if length rs > length l then Inl (MPIU_ERR_CREATE MPI_ERR_ARG ''**rangessize'')
            else check_outcome MPI_ERR_ARG (range_fault (length l) {} rs), s') \<and>
    same s s' \<and> gstate_ok me s' L"
proof -
  obtain g where g: "gobj s p = Some g" "g_size g = int (length l)"
    using p l gstate_ok_at(2) [OF ok] by fastforce
  show ?thesis
  proof (cases "length rs > length l")
    case True
    with g ok show ?thesis
      by (auto simp: MPIR_Group_check_valid_ranges_def)
  next
    case False
    let ?t = "mark p {0..<length l} 0 s"
    have clear: "clear_flags p (g_size g) s = Some ?t"
      using clear_flags_mark [of "length l" s p] g(2) l by simp
    have "flagged p {} s ?t"
      using flagged_clear [of p s] l by simp
    then obtain t' J where "check_ranges_loop p (int (length l)) rs (map int [0..<0 + length rs]) ?t =
        Some (check_outcome MPI_ERR_ARG (range_fault (length l) {} rs), t')" "flagged p J s t'"
      using check_ranges_loop_result [OF ok _ _, of "length l" p rs "{}" ?t 0 "length rs"] l small by auto
    with False g clear flaggedD(1,2) ok show ?thesis
      by (auto simp: MPIR_Group_check_valid_ranges_def upto_upt)
  qed
qed

subsection \<open>Accepted ranges\<close>

abbreviation ranks_of_ranges :: "range list \<Rightarrow> nat list" where
  "ranks_of_ranges rs \<equiv> concat (map range_ranks rs)"

lemma range_fault_None:
  assumes "range_fault n seen rs = None" "\<forall>r\<in>set rs. range_small n r"
  shows "(\<forall>r\<in>set rs. range_shape_fault n r = None) \<and> distinct (ranks_of_ranges rs) \<and>
    set (ranks_of_ranges rs) \<inter> seen = {} \<and> set (ranks_of_ranges rs) \<subseteq> {0..<n}"
  using assms
proof (induction n seen rs rule: range_fault.induct)
  case (2 n seen r rs)
  have shape: "range_shape_fault n r = None" and dis: "set (range_ranks r) \<inter> seen = {}"
    and rest: "range_fault n (seen \<union> set (range_ranks r)) rs = None"
    using "2.prems"(1) by (auto split: option.splits if_splits)
  have "range_small n r" "\<forall>r\<in>set rs. range_small n r"
    using "2.prems"(2) by simp_all
  then show ?case
    using "2.IH" [OF shape _ rest] range_ranks_props(1,2) [OF shape] shape dis by fastforce
qed simp

lemma ranges_nonempty: "length rs \<le> length (ranks_of_ranges rs)"
proof (induction rs)
  case (Cons r rs)
  have "0 < length (range_ranks r)"
    by (simp add: range_ranks_def split: prod.splits)
  then have "Suc (length rs) \<le> length (range_ranks r) + length (ranks_of_ranges rs)"
    using Cons.IH by linarith
  then show ?case by simp
qed simp

lemma accepted_count:
  assumes "distinct (ranks_of_ranges rs)" "set (ranks_of_ranges rs) \<subseteq> {0..<n}"
  shows "length (ranks_of_ranges rs) \<le> n"
  using card_mono [OF _ assms(2)] distinct_card [OF assms(1)] by simp

lemma count_ranges_result:
  assumes "\<forall>r\<in>set rs. range_shape_fault n r = None \<and> range_small n r"
    and "a + m \<le> length rs" "int (c + length (ranks_of_ranges (take m (drop a rs)))) < 2 ^ 31"
  shows "count_ranges rs (map int [a..<a + m]) (int c) =
    Some (int (c + length (ranks_of_ranges (take m (drop a rs)))))"
  using assms(2,3)
proof (induction m arbitrary: a c)
  case (Suc m)
  have idx: "[a..<a + Suc m] = a # [Suc a..<Suc a + m]"
    by (simp add: upt_conv_Cons del: upt_Suc)
  have a: "rd rs (int a) = Some (rs ! a)" "take (Suc m) (drop a rs) = rs ! a # take m (drop (Suc a) rs)"
    "rs ! a \<in> set rs"
    using Suc.prems(1) by (simp_all add: Cons_nth_drop_Suc [symmetric])
  obtain fir lst stride where r: "rs ! a = (fir, lst, stride)" by (cases "rs ! a")
  have f: "range_shape_fault n (fir, lst, stride) = None" "range_small n (fir, lst, stride)"
    using assms(1) a(3) r by auto
  let ?len = "length (range_ranks (rs ! a))"
  have "stride \<noteq> 0"
    using f(1) by (auto simp: range_shape_fault_def split: if_splits)
  then have q: "c_div (i32 (lst - fir)) stride = Some (range_steps (fir, lst, stride))"
    using range_arith(1) [OF f(2)] by blast
  have len: "int ?len = 1 + range_steps (fir, lst, stride)"
    using range_ranks_props(3) [OF f] range_steps_div(2) [OF f(1)] r by simp
  have "int c + int ?len < 2 ^ 31" "int ?len < 2 ^ 31"
    using Suc.prems(2) unfolding a(2) by simp_all
  then have "i32 (int c + i32 (1 + range_steps (fir, lst, stride))) = int (c + ?len)"
    unfolding len [symmetric] by (simp add: i32_id)
  then show ?case
    using Suc.IH [of "Suc a" "c + ?len"] Suc.prems a(1) q r unfolding idx a(2) by (simp add: add.assoc)
qed simp

lemma add_ranges_fill:
  assumes rs: "\<forall>r\<in>set rs. range_shape_fault n r = None \<and> range_small n r"
    and pq: "p \<noteq> q" and n: "n = length (lrank_to_lpid g)"
    and "a + m \<le> length rs" "gobj s p = Some g" "gobj s q = Some d"
    and "k + length (ranks_of_ranges (take m (drop a rs))) \<le> length (lrank_to_lpid d)"
  shows "add_ranges p q rs (map int [a..<a + m]) (int k) s =
    Some (put_group q (fill g k (ranks_of_ranges (take m (drop a rs))) d) s)"
  using assms(4-)
proof (induction m arbitrary: a k s d)
  case 0
  then show ?case by (simp add: put_group_same)
next
  case (Suc m)
  have idx: "[a..<a + Suc m] = a # [Suc a..<Suc a + m]"
    by (simp add: upt_conv_Cons del: upt_Suc)
  have a: "rd rs (int a) = Some (rs ! a)" "take (Suc m) (drop a rs) = rs ! a # take m (drop (Suc a) rs)"
    "rs ! a \<in> set rs"
    using Suc.prems(1) by (simp_all add: Cons_nth_drop_Suc [symmetric])
  obtain fir lst stride where r: "rs ! a = (fir, lst, stride)" by (cases "rs ! a")
  have f: "range_shape_fault n (fir, lst, stride) = None" "range_small n (fir, lst, stride)"
    using rs a(3) r by auto
  let ?m = "Suc (nat (range_steps (fir, lst, stride)))"
  let ?d = "fill g k (range_ranks (rs ! a)) d"
  have len: "length (range_ranks (rs ! a)) = ?m"
    using range_ranks_props(3) [OF f] r by simp
  have "k + ?m \<le> length (lrank_to_lpid d)"
    using Suc.prems(4) unfolding a(2) by (simp add: len)
  then have "add_range p q lst stride (fir + int 0 * stride) (int k) s = Some (int (k + ?m), put_group q ?d s)"
    using add_range_fill [OF f pq n, of 0 ?m s d k] Suc.prems(2,3)
    by (simp add: r range_ranks_def del: upt_Suc)
  then have step: "add_range p q lst stride fir (int k) s = Some (int (k + ?m), put_group q ?d s)"
    by simp
  have "add_ranges p q rs (map int [Suc a..<Suc a + m]) (int (k + ?m)) (put_group q ?d s) =
      Some (put_group q (fill g (k + ?m) (ranks_of_ranges (take m (drop (Suc a) rs))) ?d) (put_group q ?d s))"
    by (rule Suc.IH) (use Suc.prems pq len in \<open>simp_all add: a(2)\<close>)
  then show ?case
    using a(1) r step unfolding idx a(2) by (simp add: fill_append len [unfolded r] del: upt_Suc)
qed

lemma flag_ranges_mark:
  assumes rs: "\<forall>r\<in>set rs. range_shape_fault n r = None \<and> range_small n r"
    and "a + m \<le> length rs" "n = length (lpids t p)"
  shows "flag_ranges p rs (map int [a..<a + m]) t =
    Some (mark p (set (ranks_of_ranges (take m (drop a rs)))) 1 t)"
  using assms(2-)
proof (induction m arbitrary: a t)
  case (Suc m)
  have idx: "[a..<a + Suc m] = a # [Suc a..<Suc a + m]"
    by (simp add: upt_conv_Cons del: upt_Suc)
  have a: "rd rs (int a) = Some (rs ! a)" "take (Suc m) (drop a rs) = rs ! a # take m (drop (Suc a) rs)"
    "rs ! a \<in> set rs"
    using Suc.prems(1) by (simp_all add: Cons_nth_drop_Suc [symmetric])
  obtain fir lst stride where r: "rs ! a = (fir, lst, stride)" by (cases "rs ! a")
  have f: "range_shape_fault n (fir, lst, stride) = None" "range_small n (fir, lst, stride)"
    using rs a(3) r by auto
  have "flag_range p lst stride (fir + int 0 * stride) t = Some (mark p (set (range_ranks (rs ! a))) 1 t)"
    using flag_range_mark [OF f, of 0 _ t p] Suc.prems(2) unfolding r range_ranks_image by simp
  then have "flag_range p lst stride fir t = Some (mark p (set (range_ranks (rs ! a))) 1 t)"
    by simp
  then show ?case
    using Suc.IH [of "Suc a" "mark p (set (range_ranks (rs ! a))) 1 t"] Suc.prems a(1) r
    unfolding idx a(2) by (simp add: Un_commute del: upt_Suc)
qed simp

subsection \<open>The two constructors\<close>

lemma range_incl_produces:
  assumes ok: "gstate_ok me s L" and m: "group_members h s = Some l"
    and small: "\<forall>r\<in>set rs. range_small (length l) r" "length l < 2 ^ 31"
    and fault: "range_fault (length l) {} rs = None"
  shows "produces me s L (map (\<lambda>k. l ! k) (ranks_of_ranges rs))
    (MPI_Group_range_incl h (int (length rs)) (Some rs) True s)"
proof -
  obtain p where p: "MpiaGroupValidateHandle h s = Inr p" "p \<in> dom (gobj s)" "lpids s p = l"
    using m by (rule group_members_ptr)
  note acc = range_fault_None [OF fault small(1)]
  let ?ks = "ranks_of_ranges rs" and ?n = "int (length rs)"
  have shapes: "\<forall>r\<in>set rs. range_shape_fault (length l) r = None \<and> range_small (length l) r"
    using acc small(1) by blast
  have count: "length ?ks \<le> length l"
    using acc by (intro accepted_count) auto
  note few = ranges_nonempty [of rs]
  obtain s1 where s1: "MPIR_Group_check_valid_ranges p rs ?n s = Some (Inr (), s1)"
    "same s s1" "gstate_ok me s1 L"
    using check_ranges_result [OF ok p(2,3) small(1)] few count fault by auto
  have "p \<in> dom (gobj s1)"
    using s1(2) p(2) by (simp add: same_def)
  then obtain g where g: "gobj s1 p = Some g" by blast
  have l1: "lpids s1 p = l"
    using s1(2) p(3) by (simp add: same_def)
  note at = gstate_ok_at [OF s1(3) g, unfolded l1]
  have nnew: "count_ranges rs [0..?n - 1] 0 = Some (int (length ?ks))"
    using count_ranges_result [OF shapes, of 0 "length rs" 0] count small(2) by (simp add: upto_upt)
  let ?body = "\<lambda>q t. do {
      t1 \<leftarrow> set_rank MPI_UNDEFINED q t;
      add_ranges p q rs [0..?n - 1] 0 t1 }"
  have "produces me s1 L (map (\<lambda>k. l ! k) ?ks)
      (if int (length ?ks) = 0 then Some (Inr MPI_GROUP_EMPTY, s1)
       else make_group (int (length ?ks)) ?body s1)"
  proof (cases "?ks = []")
    case True
    then show ?thesis using produces_empty [OF s1(3)] by (simp del: concat_eq_Nil_conv)
  next
    case False
    have "produces me s1 L (map (\<lambda>k. l ! k) ?ks) (make_group (int (length ?ks)) ?body s1)"
    proof (rule make_group_produces [OF s1(3)])
      fix q m assume q: "q \<notin> L" "q \<noteq> Builtin 0"
      let ?u = "s1\<lparr>gmem := m\<rparr>" and ?d = "(fresh_group (int (length ?ks)) s1)\<lparr>g_rank := MPI_UNDEFINED\<rparr>"
      let ?g = "fill g 0 ?ks ?d"
      have qp: "p \<noteq> q"
        using s1(3) g q by (rule other_than_fresh)
      have d: "length (lrank_to_lpid ?d) = length ?ks" "g_size ?d = int (length ?ks)"
        "g_rank ?d = MPI_UNDEFINED" "idx_of_first_lpid ?d = - 1"
        by (simp_all add: fresh_group_def del: length_concat)
      have "add_ranges p q rs (map int [0..<0 + length rs]) (int 0) (put_group q ?d ?u) =
          Some (put_group q (fill g 0 (ranks_of_ranges (take (length rs) (drop 0 rs))) ?d) (put_group q ?d ?u))"
        by (rule add_ranges_fill [OF shapes qp at(4) [symmetric]]) (use g qp d(1) in \<open>simp_all del: length_concat\<close>)
      then have "?body q (put_group q (fresh_group (int (length ?ks)) s1) ?u) = Some (put_group q ?g ?u)"
        by (simp add: set_rank_def upto_upt)
      moreover have "\<forall>j\<in>set ?ks. j < length (lrank_to_lpid g)" "distinct ?ks"
        using acc at(4) by auto
      note fill_group_ok [OF at(1) this d]
      ultimately show "\<exists>g. ?body q (put_group q (fresh_group (int (length ?ks)) s1) ?u) = Some (put_group q g ?u) \<and>
          group_ok me g \<and> map lpid (lrank_to_lpid g) = map (\<lambda>k. l ! k) ?ks"
        using at(3) by auto
    qed
    with False show ?thesis by (simp del: concat_eq_Nil_conv length_concat)
  qed
  then show ?thesis
    using p(1) s1(1) nnew
    by (intro produces_same [OF s1(2)]) (simp add: MPI_Group_range_incl_def with_group_Inr del: length_concat)
qed

lemma range_excl_produces:
  assumes ok: "gstate_ok me s L" and m: "group_members h s = Some l"
    and small: "\<forall>r\<in>set rs. range_small (length l) r" "length l < 2 ^ 31"
    and fault: "range_fault (length l) {} rs = None"
  shows "produces me s L (map (\<lambda>k. l ! k) (filter (\<lambda>k. k \<notin> set (ranks_of_ranges rs)) [0..<length l]))
    (MPI_Group_range_excl h (int (length rs)) (Some rs) True s)"
proof -
  obtain p where p: "MpiaGroupValidateHandle h s = Inr p" "p \<in> dom (gobj s)" "lpids s p = l"
    using m by (rule group_members_ptr)
  note acc = range_fault_None [OF fault small(1)]
  let ?K = "set (ranks_of_ranges rs)" and ?n = "int (length rs)"
  let ?ls = "map (\<lambda>k. l ! k) (filter (\<lambda>k. k \<notin> ?K) [0..<length l])"
  have shapes: "\<forall>r\<in>set rs. range_shape_fault (length l) r = None \<and> range_small (length l) r"
    using acc small(1) by blast
  have count: "length (ranks_of_ranges rs) \<le> length l"
    using acc by (intro accepted_count) auto
  note few = ranges_nonempty [of rs]
  obtain s1 where s1: "MPIR_Group_check_valid_ranges p rs ?n s = Some (Inr (), s1)"
    "same s s1" "gstate_ok me s1 L"
    using check_ranges_result [OF ok p(2,3) small(1)] few count fault by auto
  have "p \<in> dom (gobj s1)"
    using s1(2) p(2) by (simp add: same_def)
  then obtain g where g: "gobj s1 p = Some g" by blast
  have l1: "lpids s1 p = l"
    using s1(2) p(3) by (simp add: same_def)
  have size: "g_size g = int (length l)"
    using gstate_ok_at(2) [OF s1(3) g] l1 by simp
  have listed: "count_ranges rs [0..?n - 1] 0 = Some (int (length (ranks_of_ranges rs)))"
    using count_ranges_result [OF shapes, of 0 "length rs" 0] count small(2) by (simp add: upto_upt)
  have card: "card ?K = length (ranks_of_ranges rs)"
    using acc distinct_card by blast
  define N where "N = int (length (filter (\<lambda>k. k \<notin> ?K) [0..<length l]))"
  have left: "i32 (g_size g - int (length (ranks_of_ranges rs))) = N"
    using kept_count [of ?K "length l"] acc card count small(2) size
    by (simp add: N_def i32_id of_nat_diff del: length_concat)
  let ?body = "\<lambda>q t. do {
      t1 \<leftarrow> set_rank MPI_UNDEFINED q t;
      t2 \<leftarrow> clear_flags p (g_size g) t1;
      t3 \<leftarrow> flag_ranges p rs [0..?n - 1] t2;
      pick_loop False p q [0..g_size g - 1] 0 t3 }"
  have "produces me s1 L ?ls
      (if N = 0 then Some (Inr MPI_GROUP_EMPTY, s1) else make_group N ?body s1)"
  proof (cases "N = 0")
    case True
    then have "?ls = []" by (simp add: N_def)
    with True show ?thesis using produces_empty [OF s1(3)] by (simp only: simp_thms if_True)
  next
    case False
    have "produces me s1 L ?ls (make_group N ?body s1)"
    proof (rule make_group_body [OF s1(3)])
      fix q m assume q: "q \<notin> L" "q \<noteq> Builtin 0"
      have "flag_ranges p rs [0..?n - 1] t = Some (mark p ?K 1 t)" if "lpids t p = l" for t
        using flag_ranges_mark [OF shapes, of 0 "length rs" t p] that by (simp add: upto_upt)
      from drop_flagged [OF s1(3) g l1 q this N_def]
      show "\<exists>d u. ?body q (put_group q (fresh_group N s1) (s1\<lparr>gmem := m\<rparr>)) =
          Some (put_group q d (u\<lparr>gmem := m\<rparr>)) \<and> same s1 u \<and> gstate_ok me u L \<and> group_ok me d \<and>
          map lpid (lrank_to_lpid d) = ?ls"
        by blast
    qed
    with False show ?thesis by (simp only: if_False)
  qed
  from produces_same [OF s1(2) this] show ?thesis
    using p(1) s1(1) g listed left
    by (cases "N = 0") (simp_all add: MPI_Group_range_excl_def with_group_Inr Let_def del: length_concat)
qed

subsection \<open>Errors included\<close>

definition ranges_fault :: "nat \<Rightarrow> range list \<Rightarrow> mpi_error option" where
  "ranges_fault n rs =
     (if length rs > n then Some (MPIU_ERR_CREATE MPI_ERR_ARG ''**rangessize'')
      else map_option (MPIU_ERR_CREATE MPI_ERR_ARG) (range_fault n {} rs))"


text \<open>C21: \<open>MPI_Group_range_incl\<close>, as long as the arithmetic of the ranges stays in 32 bits, makes the group
of the members at the ranks of the ranges, in their order; otherwise it reports the first fault of
the range list (bad start, zero stride, bad end, stride of the wrong sign, overlap).\<close>

theorem MPI_Group_range_incl_correct:
  assumes ok: "gstate_ok me s L" and m: "group_members h s = Some l"
    and small: "\<forall>r\<in>set rs. range_small (length l) r" "length l < 2 ^ 31"
  shows "case ranges_fault (length l) rs of
      None \<Rightarrow> produces me s L (map (\<lambda>k. l ! k) (ranks_of_ranges rs))
        (MPI_Group_range_incl h (int (length rs)) (Some rs) True s)
    | Some e \<Rightarrow> \<exists>s'. MPI_Group_range_incl h (int (length rs)) (Some rs) True s = Some (Inl e, s') \<and>
        gstate_ok me s' L \<and> same s s'"
proof -
  obtain p where p: "MpiaGroupValidateHandle h s = Inr p" "p \<in> dom (gobj s)" "lpids s p = l"
    using m by (rule group_members_ptr)
  show ?thesis
  proof (cases "ranges_fault (length l) rs")
    case None
    then have "range_fault (length l) {} rs = None"
      by (simp add: ranges_fault_def split: if_splits)
    from range_incl_produces [OF ok m small this] None show ?thesis by simp
  next
    case (Some e)
    then show ?thesis
      using check_ranges_result [OF ok p(2,3) small(1)] p(1)
      by (fastforce simp: MPI_Group_range_incl_def with_group_Inr ranges_fault_def split: if_splits option.splits)
  qed
qed

lemma MPI_Group_range_incl_witness:
  "produces 3 demo {Direct 0, Direct 1} [9, 5] (MPI_Group_range_incl handle_A 1 (Some [(2, 0, - 2)]) True demo)"
  using MPI_Group_range_incl_correct [OF demo_ok demo_members(1), of "[(2, 0, - 2)]"]
  by (simp add: ranges_fault_def range_small_def range_shape_fault_def range_steps_def range_ranks_def
      signed_divide_int_def upt_rec)


text \<open>C22: \<open>MPI_Group_range_excl\<close> makes the group of the members at no rank of the ranges, in the order of
the group, under the same conditions and with the same faults as \<open>MPI_Group_range_incl\<close>.\<close>

theorem MPI_Group_range_excl_correct:
  assumes ok: "gstate_ok me s L" and m: "group_members h s = Some l"
    and small: "\<forall>r\<in>set rs. range_small (length l) r" "length l < 2 ^ 31"
  shows "case ranges_fault (length l) rs of
      None \<Rightarrow> produces me s L (map (\<lambda>k. l ! k) (filter (\<lambda>k. k \<notin> set (ranks_of_ranges rs)) [0..<length l]))
        (MPI_Group_range_excl h (int (length rs)) (Some rs) True s)
    | Some e \<Rightarrow> \<exists>s'. MPI_Group_range_excl h (int (length rs)) (Some rs) True s = Some (Inl e, s') \<and>
        gstate_ok me s' L \<and> same s s'"
proof -
  obtain p where p: "MpiaGroupValidateHandle h s = Inr p" "p \<in> dom (gobj s)" "lpids s p = l"
    using m by (rule group_members_ptr)
  show ?thesis
  proof (cases "ranges_fault (length l) rs")
    case None
    then have "range_fault (length l) {} rs = None"
      by (simp add: ranges_fault_def split: if_splits)
    from range_excl_produces [OF ok m small this] None show ?thesis by simp
  next
    case (Some e)
    then show ?thesis
      using check_ranges_result [OF ok p(2,3) small(1)] p(1)
      by (fastforce simp: MPI_Group_range_excl_def with_group_Inr ranges_fault_def split: if_splits option.splits)
  qed
qed

lemma MPI_Group_range_excl_witness:
  "produces 3 demo {Direct 0, Direct 1} [3] (MPI_Group_range_excl handle_A 1 (Some [(2, 0, - 2)]) True demo)"
  using MPI_Group_range_excl_correct [OF demo_ok demo_members(1), of "[(2, 0, - 2)]"]
  by (simp add: ranges_fault_def range_small_def range_shape_fault_def range_steps_def range_ranks_def
      signed_divide_int_def upt_rec)

end
