(* ===== verification/Group_Subset.thy ===== *)
theory Group_Subset
  imports Group_Ranges
begin

text \<open>
  \<open>MPIR_GroupCheckVCRSubset\<close> (\<open>src/mpi/msmpi/mpid/group.cpp\<close>): is every member of a group among
  the processes of a connection table? And what \<open>MPIR_Group_check_valid_ranges\<close> does when
  \<open>j += stride\<close> leaves \<open>int\<close>.
\<close>

lemma subset_loop_result:
  assumes "on_list s p xs" "ascending s p xs" "threaded vmap 0 ys" "sorted (map (\<lambda>k. lpid (vmap ! k)) ys)"
  shows "\<exists>r. subset_loop s p vmap (head_ptr xs) (head_ptr ys) = Some r \<and>
    (0 \<le> r \<longleftrightarrow> \<not> at s p ` set xs \<subseteq> (\<lambda>k. lpid (vmap ! k)) ` set ys)"
  using assms
proof (induction "length xs + length ys" arbitrary: xs ys rule: less_induct)
  case less
  let ?f = "\<lambda>k. lpid (vmap ! k)"
  consider "xs = []" | "xs \<noteq> []" "ys = []" | x xs' y ys' where "xs = x # xs'" "ys = y # ys'"
    by (cases xs; cases ys) auto
  then show ?case
  proof cases
    case 1
    then show ?thesis by (simp add: subset_loop.simps [of s p vmap])
  next
    case 2
    then show ?thesis by (simp add: subset_loop.simps [of s p vmap])
  next
    case 3
    obtain e1 where e1: "pmap_at s p (int x) = Some e1" "lpid e1 = at s p x"
      "next_lpid e1 = head_ptr xs'" "on_list s p xs'"
      using less.prems(1) 3 by (auto elim: on_list_Cons)
    have y: "y < length vmap" "next_lpid (vmap ! y) = head_ptr ys'" "threaded vmap 0 ys'"
      using less.prems(3) 3 by auto
    have up: "\<forall>k\<in>set xs'. at s p x < at s p k" "\<forall>k\<in>set ys'. ?f y \<le> ?f k"
      using less.prems(2,4) 3 by auto
    have step: "subset_loop s p vmap (head_ptr xs) (head_ptr ys) =
        (if at s p x < ?f y then Some (int x)
         else if at s p x > ?f y then subset_loop s p vmap (head_ptr xs) (head_ptr ys')
         else subset_loop s p vmap (head_ptr xs') (head_ptr ys'))"
      using 3 e1 y by (simp add: subset_loop.simps [of s p vmap "int x"])
    consider "at s p x < ?f y" | "at s p x > ?f y" | "at s p x = ?f y"
      by linarith
    then show ?thesis
    proof cases
      case lt: 1
      have "\<forall>k\<in>set ys. at s p x \<noteq> ?f k"
        using lt up(2) by (auto simp: 3(2))
      then show ?thesis
        using step lt 3 by auto
    next
      case gt: 2
      have "at s p ` set xs \<subseteq> ?f ` set ys \<longleftrightarrow> at s p ` set xs \<subseteq> ?f ` set ys'"
      proof -
        have "\<forall>k\<in>set xs. at s p k \<noteq> ?f y"
          using gt up(1) by (auto simp: 3(1))
        then show ?thesis by (auto simp: 3(2))
      qed
      then show ?thesis
        using step gt less.hyps [of xs ys'] less.prems 3 y by simp
    next
      case eq: 3
      have "at s p ` set xs \<subseteq> ?f ` set ys \<longleftrightarrow> at s p ` set xs' \<subseteq> ?f ` set ys'"
      proof -
        have "\<forall>k\<in>set xs'. at s p k \<noteq> ?f y"
          using eq up(1) by auto
        then show ?thesis using eq by (auto simp: 3)
      qed
      then show ?thesis
        using step eq less.hyps [of xs' ys'] less.prems 3 y e1(4) by simp
    qed
  qed
qed

lemma lpid_vcr_map [simp]: "map lpid (vcr_map vcr) = vcr"
  by (simp add: vcr_map_def comp_def map_nth)

text \<open>C27: \<open>MPIR_GroupCheckVCRSubset\<close> accepts a group exactly when every member is among the processes of
the connection table (given memory for its scratch map), whatever the order of the table.\<close>

theorem MPIR_GroupCheckVCRSubset_correct:
  assumes ok: "gstate_ok me s L" and p: "p \<in> dom (gobj s)" and ms: "mallocs (gmem s) = []"
  shows "\<exists>s'. MPIR_GroupCheckVCRSubset p vcr s =
      Some (if set (lpids s p) \<subseteq> set vcr then Inr ()
            else Inl (MPIU_ERR_CREATE MPI_ERR_GROUP ''**groupnotincomm''), s') \<and>
    gstate_ok me s' L \<and> same s s'"
proof -
  obtain s1 where s1: "MPIR_Group_setup_lpid_list p s = Some s1" "gstate_ok me s1 L" "same s s1" "ready s1 p"
    using setup_lpid_list [OF ok p] by blast
  have l: "lpids s1 p = lpids s p"
    using s1(3) by (simp add: same_def)
  obtain g where g: "gobj s1 p = Some g"
    using s1(4) by (auto simp: ready_def)
  note list = ready_at [OF s1(4) g, unfolded l]
  obtain i b where b: "MPIR_Mergesort_lpidarray (vcr_map vcr) = Some (i, b)"
    "forget_links b = forget_links (vcr_map vcr)" "linked b 0 i (index_order (vcr_map vcr))"
    using mergesort_correct by blast
  have order: "index_order (vcr_map vcr) = index_order b"
    using b(2) index_order_forget_links by metis
  have bl: "map lpid b = vcr"
    using forget_links_map_eq(1) [OF b(2)] by simp
  have "ascending s1 p (lpid_order (lpids s p))"
    using gstate_ok_at(5) [OF s1(2) g] by (simp only: l lpid_order_strict)
  then obtain r where r: "subset_loop s1 p b (idx_of_first_lpid g) i = Some r"
    "0 \<le> r \<longleftrightarrow> \<not> at s1 p ` set (lpid_order (lpids s p)) \<subseteq> (\<lambda>k. lpid (b ! k)) ` set (index_order b)"
    using subset_loop_result [OF list(2), of b "index_order b"] b(3) list(1)
    unfolding order linked_def by auto
  have "(\<lambda>k. lpid (b ! k)) ` set (index_order b) = set vcr"
    unfolding bl [symmetric] by (simp only: index_order_props) (force simp: set_conv_nth)
  then have iff: "0 \<le> r \<longleftrightarrow> \<not> set (lpids s p) \<subseteq> set vcr"
    using r(2) unfolding l map_lpid_order by simp
  have "malloc (gmem s) = (True, gmem s)" "s\<lparr>gmem := gmem s\<rparr> = s"
    using ms by (simp_all add: malloc_ok)
  then show ?thesis
    using s1 g b(1) r(1) iff by (auto simp: MPIR_GroupCheckVCRSubset_def)
qed

lemma MPIR_GroupCheckVCRSubset_witness:
  "\<exists>s'. MPIR_GroupCheckVCRSubset (Direct 0) [9, 8, 5, 3] demo = Some (Inr (), s') \<and>
    gstate_ok 3 s' {Direct 0, Direct 1} \<and> same demo s'"
proof -
  have "Direct 0 \<in> dom (gobj demo)" "lpids demo (Direct 0) = [5, 3, 9]"
    by (simp_all add: demo_gobj lpids_def)
  then show ?thesis
    using MPIR_GroupCheckVCRSubset_correct [OF demo_ok, of "Direct 0" "[9, 8, 5, 3]"] demo_mallocs by simp
qed

subsection \<open>A stride that leaves int\<close>

text \<open>C28: for a group of at least two processes the legal range (1, 1, INT_MAX) makes
\<open>MPIR_Group_check_valid_ranges\<close> read outside the process map: \<open>j += stride\<close> wraps to a negative
index that is still below \<open>last\<close>.\<close>

theorem MPIR_Group_check_valid_ranges_overflow:
  assumes ok: "gstate_ok me s L" and p: "p \<in> dom (gobj s)" and two: "2 \<le> length (lpids s p)"
  shows "MPIR_Group_check_valid_ranges p [(1, 1, 2147483647)] 1 s = None"
proof -
  let ?n = "length (lpids s p)"
  obtain g where g: "gobj s p = Some g" "g_size g = int ?n"
    using p gstate_ok_at(2) [OF ok] by blast
  let ?t = "mark p {0..<?n} 0 s"
  have clear: "clear_flags p (g_size g) s = Some ?t"
    using clear_flags_mark [of ?n s p] g(2) by simp
  obtain e where e: "pmap_at ?t p (int 1) = Some e" "flag e = flag_of ?t p 1"
    using pmap_at_int [of 1 ?t p] two by auto
  then have e1: "pmap_at ?t p 1 = Some e" "flag e = 0"
    using two by simp_all
  have s1: "set_flag 1 ?t p 1 = Some (mark p {1} 1 ?t)"
    using set_flag_int [of 1 ?t p 1] two by simp
  have "pmap_at (mark p {1} 1 ?t) p (- 2147483648) = None"
    by (simp add: pmap_at_def rd_def bind_eq_None_conv)
  then have "mark_range p 1 1 2147483647 1 ?t = None"
    using e1 s1 by (simp add: mark_range.simps [of p 1 1 2147483647] i32_def)
  then have "check_range p (int ?n) 0 (1, 1, 2147483647) ?t = None"
    using two by (simp add: check_range_def i32_def Let_def)
  then show ?thesis
    using g clear two by (auto simp: MPIR_Group_check_valid_ranges_def rd_def)
qed

lemma MPIR_Group_check_valid_ranges_overflow_witness:
  "MPIR_Group_check_valid_ranges (Direct 0) [(1, 1, 2147483647)] 1 demo = None"
proof -
  have "Direct 0 \<in> dom (gobj demo)" "lpids demo (Direct 0) = [5, 3, 9]"
    by (simp_all add: demo_gobj lpids_def)
  then show ?thesis
    using MPIR_Group_check_valid_ranges_overflow [OF demo_ok, of "Direct 0"] by simp
qed

end
