(* ===== verification/Bit_Scan.thy ===== *)
theory Bit_Scan
  imports Prelude
begin

text \<open>
  The lowest and the highest set bit of an integer (the compiler's \<open>_BitScanForward\<close> and
  \<open>_BitScanReverse\<close>) and the functions of \<open>src/mpi/common/util.h\<close> for powers of two.
\<close>

unbundle bit_operations_syntax

function BitScanForward :: "int \<Rightarrow> nat" where
  "BitScanForward n = (if n \<le> 0 \<or> odd n then 0 else Suc (BitScanForward (n div 2)))"
  by pat_completeness auto
termination by (relation "measure nat") auto

function BitScanReverse :: "int \<Rightarrow> nat" where
  "BitScanReverse n = (if n < 2 then 0 else Suc (BitScanReverse (n div 2)))"
  by pat_completeness auto
termination by (relation "measure nat") auto

declare BitScanForward.simps [simp del] BitScanReverse.simps [simp del]

definition IsPowerOf2 :: "int \<Rightarrow> bool" where
  "IsPowerOf2 v \<longleftrightarrow> v AND (v - 1) = 0"

definition PowerOf2Floor :: "int \<Rightarrow> int" where
  "PowerOf2Floor v = push_bit (BitScanReverse v) 1"

lemma BitScanForward_split:
  "0 < n \<Longrightarrow> n = (n div 2 ^ BitScanForward n) * 2 ^ BitScanForward n \<and> odd (n div 2 ^ BitScanForward n)"
proof (induction n rule: BitScanForward.induct)
  case (1 n)
  show ?case
  proof (cases "odd n")
    case True
    then show ?thesis by (simp add: BitScanForward.simps [of n])
  next
    case False
    then obtain m where m: "n = 2 * m" by (auto elim: evenE)
    have s: "BitScanForward (2 * m) = Suc (BitScanForward m)"
      using 1(2) m by (subst BitScanForward.simps) simp
    have "m = (m div 2 ^ BitScanForward m) * 2 ^ BitScanForward m \<and> odd (m div 2 ^ BitScanForward m)"
      using 1 False m by simp
    then show ?thesis by (simp add: s m)
  qed
qed

lemma BitScanReverse_bound: "n < 2 ^ Suc (BitScanReverse n)"
proof (induction n rule: BitScanReverse.induct)
  case (1 n)
  show ?case
  proof (cases "n < 2")
    case False
    then have "n div 2 < 2 ^ BitScanReverse n"
      using 1 by (simp add: BitScanReverse.simps [of n])
    then show ?thesis by simp
  qed (simp add: BitScanReverse.simps [of n])
qed

lemma BitScanReverse_le: "0 < n \<Longrightarrow> 2 ^ BitScanReverse n \<le> n"
proof (induction n rule: BitScanReverse.induct)
  case (1 n)
  show ?case
  proof (cases "n < 2")
    case False
    then have "2 ^ BitScanReverse (n div 2) \<le> n div 2" using 1 by simp
    then have "2 ^ BitScanReverse n \<le> 2 * (n div 2)" using False by (simp add: BitScanReverse.simps [of n])
    also have "\<dots> \<le> n" by simp
    finally show ?thesis .
  qed (use 1 in \<open>simp add: BitScanReverse.simps [of n]\<close>)
qed

lemma BitScanReverse_unique: "2 ^ k \<le> n \<Longrightarrow> n < 2 ^ Suc k \<Longrightarrow> BitScanReverse n = k"
proof (induction k arbitrary: n)
  case 0
  then show ?case by (simp add: BitScanReverse.simps [of n])
next
  case (Suc k)
  have k: "(2 :: int) ^ Suc k = 2 * 2 ^ k" by simp
  have "2 ^ k \<le> n div 2" "n div 2 < 2 ^ Suc k" using Suc.prems by simp_all
  moreover have "1 \<le> (2 :: int) ^ k" by simp
  then have "\<not> n < 2" using Suc.prems(1) unfolding k by linarith
  ultimately show ?case using Suc.IH by (simp add: BitScanReverse.simps [of n])
qed

lemma PowerOf2Floor_bounds: "0 < n \<Longrightarrow> PowerOf2Floor n \<le> n \<and> n < 2 * PowerOf2Floor n"
  using BitScanReverse_le [of n] BitScanReverse_bound [of n] by (simp add: PowerOf2Floor_def push_bit_eq_mult)

lemma PowerOf2Floor_power: "PowerOf2Floor n = 2 ^ BitScanReverse n"
  by (simp add: PowerOf2Floor_def push_bit_eq_mult)

lemma IsPowerOf2_iff:
  assumes "0 < n"
  shows "IsPowerOf2 n \<longleftrightarrow> n = PowerOf2Floor n"
proof
  let ?k = "BitScanReverse n"
  assume z: "IsPowerOf2 n"
  show "n = PowerOf2Floor n"
  proof (rule ccontr)
    assume "n \<noteq> PowerOf2Floor n"
    then have n: "2 ^ ?k \<le> n - 1" "n < 2 ^ Suc ?k"
      using BitScanReverse_le [OF assms] BitScanReverse_bound [of n] by (simp_all add: PowerOf2Floor_power)
    have bit: "bit m ?k" if "2 ^ ?k \<le> m" "m < 2 ^ Suc ?k" for m :: int
    proof -
      have "m div 2 ^ ?k = 1" by (rule int_div_pos_eq [where r = "m - 2 ^ ?k"]) (use that in auto)
      then show ?thesis by (simp add: bit_iff_odd)
    qed
    have "bit (n AND (n - 1)) ?k" using n by (simp add: bit_and_iff bit)
    then show False using z by (simp add: IsPowerOf2_def)
  qed
next
  assume n: "n = PowerOf2Floor n"
  have "(2 :: int) ^ k AND (2 ^ k - 1) = 0" for k
    by (rule bit_eqI) (auto simp: bit_and_iff bit_exp_iff mask_eq_exp_minus_1 [symmetric] bit_mask_iff)
  then show "IsPowerOf2 n" unfolding IsPowerOf2_def by (subst (1 2) n) (simp only: PowerOf2Floor_power)
qed

end
