(* ===== verification/Dims.thy ===== *)
theory Dims
  imports Bit_Scan "HOL-Library.Multiset"
begin

text \<open>
  \<open>MPI_Dims_create\<close> (\<open>src/mpi/msmpi/api/mpi_topo.cpp\<close>) and what it calls in
  \<open>src/mpi/msmpi/mpid/topo.cpp\<close>: the factorisation by trial division with a table of primes
  (\<open>MPIR_Factor\<close>), the distribution of the factors over the free dimensions
  (\<open>MPIR_ChooseFactors\<close>) and \<open>MPIR_Dims_create\<close>. Products of \<open>int\<close> wrap around as the compiled
  code computes them. A result \<open>None\<close> is a division by zero, an access outside an array or a
  loop that does not end.
\<close>

subsection \<open>Factorisation\<close>

definition MAX_FACTORS :: nat where "MAX_FACTORS = 16"
definition MAX_DIMS :: int where "MAX_DIMS = 20"
definition MAX_PRIMES :: int where "MAX_PRIMES = 997"

record Factors =
  val :: int
  cnt :: int

definition primes :: "int list" where
  "primes =
     [2, 3, 5, 7, 11, 13, 17, 19, 23, 29, 31, 37, 41, 43, 47, 53, 59, 61, 67, 71,
      73, 79, 83, 89, 97, 101, 103, 107, 109, 113, 127, 131, 137, 139, 149, 151, 157, 163, 167, 173,
      179, 181, 191, 193, 197, 199, 211, 223, 227, 229, 233, 239, 241, 251, 257, 263, 269, 271, 277,
      281, 283, 293, 307, 311, 313, 317, 331, 337, 347, 349, 353, 359, 367, 373, 379, 383, 389, 397,
      401, 409, 419, 421, 431, 433, 439, 443, 449, 457, 461, 463, 467, 479, 487, 491, 499, 503, 509,
      521, 523, 541, 547, 557, 563, 569, 571, 577, 587, 593, 599, 601, 607, 613, 617, 619, 631, 641,
      643, 647, 653, 659, 661, 673, 677, 683, 691, 701, 709, 719, 727, 733, 739, 743, 751, 757, 761,
      769, 773, 787, 797, 809, 811, 821, 823, 827, 829, 839, 853, 857, 859, 863, 877, 881, 883, 887,
      907, 911, 919, 929, 937, 941, 947, 953, 967, 971, 977, 983, 991, 997]"

text \<open>An entry is written at \<open>factors[nfactors++]\<close>; the array has \<open>MAX_FACTORS\<close> entries.\<close>

definition push_factor :: "int \<Rightarrow> int \<Rightarrow> Factors list \<Rightarrow> Factors list option" where
  "push_factor v c fs = (if length fs < MAX_FACTORS then Some (fs @ [\<lparr>val = v, cnt = c\<rparr>]) else None)"

text \<open>\<open>do { n /= target; count++; } while ((n % target) == 0)\<close>.\<close>

partial_function (option) divide_out :: "int \<Rightarrow> int \<Rightarrow> int \<Rightarrow> (int \<times> int) option" where
  "divide_out target n ncnt = do {
     q \<leftarrow> c_div n target;
     r \<leftarrow> c_mod q target;
     if r = 0 then divide_out target q (ncnt + 1) else Some (q, ncnt + 1)
   }"

partial_function (option) factor_loop ::
  "int \<Rightarrow> int \<Rightarrow> int \<Rightarrow> int \<Rightarrow> Factors list \<Rightarrow> (Factors list \<times> int) option" where
  "factor_loop ceiling primeIndex n nall fs = do {
     target \<leftarrow> rd primes (primeIndex + 1);
     r \<leftarrow> c_mod n target;
     (n1, nall1, fs1) \<leftarrow>
       (if r = 0 then do {
          (n', ncnt) \<leftarrow> divide_out target n 0;
          fs' \<leftarrow> push_factor target ncnt fs;
          Some (n', nall + ncnt, fs')
        } else Some (n, nall, fs));
     (n2, nall2, fs2) \<leftarrow>
       (if ceiling \<le> target \<and> n1 \<noteq> 1 then do {
          fs' \<leftarrow> push_factor n1 1 fs1;
          Some (1, nall1 + 1, fs')
        } else Some (n1, nall1, fs1));
     if n2 \<noteq> 1 then factor_loop ceiling (primeIndex + 1) n2 nall2 fs2 else Some (fs2, nall2)
   }"

text \<open>The factors found and the number of divisors with their multiplicities.\<close>

definition MPIR_Factor :: "int \<Rightarrow> (Factors list \<times> int) option" where
  "MPIR_Factor n =
     (if n \<le> 1 then Some ([\<lparr>val = n, cnt = 1\<rparr>], 1)
      else let bitscan = BitScanForward n;
               fs = (if bitscan > 0 then [\<lparr>val = 2, cnt = int bitscan\<rparr>] else []);
               m = n div 2 ^ bitscan
           in if bitscan > 0 \<and> m = 1 then Some (fs, int bitscan)
              else factor_loop (min (4 * 2 ^ (BitScanReverse m div 2)) MAX_PRIMES) 0 m (int bitscan) fs)"

subsection \<open>Choosing the dimensions\<close>

text \<open>The index of the smallest entry; the first one among equals.\<close>

fun find_min :: "int list \<Rightarrow> int list \<Rightarrow> int \<Rightarrow> int \<Rightarrow> int option" where
  "find_min chosen [] cMin iMin = Some iMin"
| "find_min chosen (ii # is) cMin iMin = do {
     c \<leftarrow> rd chosen ii;
     if c < cMin then find_min chosen is c ii else find_min chosen is cMin iMin
   }"

text \<open>One turn of \<open>while (cnt--)\<close>: the array and the cursor \<open>i\<close>.\<close>

definition place_factor :: "int \<Rightarrow> int \<Rightarrow> int list \<times> int \<Rightarrow> (int list \<times> int) option" where
  "place_factor needed v st = do {
     let (chosen, i0) = st;
     cMin \<leftarrow> rd chosen 0;
     iMin \<leftarrow> find_min chosen [1..needed - 1] cMin 0;
     ci \<leftarrow> rd chosen i0;
     let i = (if ci > iMin then iMin else i0);
     c \<leftarrow> rd chosen i;
     chosen' \<leftarrow> wr chosen i (i32 (c * v));
     Some (chosen', if i + 1 \<ge> needed then 0 else i + 1)
   }"

partial_function (option) place_copies ::
  "int \<Rightarrow> int \<Rightarrow> int \<Rightarrow> int list \<times> int \<Rightarrow> (int list \<times> int) option" where
  "place_copies needed v c st =
     (if c = 0 then Some st
      else do { st' \<leftarrow> place_factor needed v st; place_copies needed v (c - 1) st' })"

fun place_factors :: "int \<Rightarrow> Factors list \<Rightarrow> int list \<times> int \<Rightarrow> (int list \<times> int) option" where
  "place_factors needed [] st = Some st"
| "place_factors needed (f # fs) st = do {
     st' \<leftarrow> place_copies needed (val f) (cnt f) st;
     place_factors needed fs st'
   }"

text \<open>The bubble sort: for every \<open>i\<close>, for every \<open>j\<close> above it, swap if out of order.\<close>

definition swap_step :: "int \<Rightarrow> int \<Rightarrow> int list \<Rightarrow> int list option" where
  "swap_step i j xs = do {
     b \<leftarrow> rd xs j;
     a \<leftarrow> rd xs i;
     if b > a then do { ys \<leftarrow> wr xs i b; wr ys j a } else Some xs
   }"

fun sort_inner :: "int \<Rightarrow> int list \<Rightarrow> int list \<Rightarrow> int list option" where
  "sort_inner i [] xs = Some xs"
| "sort_inner i (j # js) xs = do { ys \<leftarrow> swap_step i j xs; sort_inner i js ys }"

fun sort_outer :: "int \<Rightarrow> int list \<Rightarrow> int list \<Rightarrow> int list option" where
  "sort_outer needed [] xs = Some xs"
| "sort_outer needed (i # is) xs = do {
     ys \<leftarrow> sort_inner i [i + 1..needed - 1] xs;
     sort_outer needed is ys
   }"

text \<open>The factors are taken from the largest down.\<close>

definition MPIR_ChooseFactors :: "Factors list \<Rightarrow> int \<Rightarrow> int list option" where
  "MPIR_ChooseFactors fs needed = do {
     (chosen, i) \<leftarrow> place_factors needed (rev fs) (replicate (nat needed) 1, 0);
     sort_outer needed [0..needed - 2] chosen
   }"

subsection \<open>Creating the dimensions\<close>

text \<open>The number of zero entries and the product of the others; a negative entry is an error.\<close>

fun scan_dims :: "int list \<Rightarrow> int \<Rightarrow> int \<Rightarrow> mpi_error + int \<times> int" where
  "scan_dims [] needed product = Inr (needed, product)"
| "scan_dims (d # ds) needed product =
     (if d < 0 then Inl (MPIU_ERR_CREATE MPI_ERR_DIMS ''**argarrayneg'')
      else if d = 0 then scan_dims ds (needed + 1) product
      else scan_dims ds needed (i32 (product * d)))"

fun fill_chosen :: "int list \<Rightarrow> int \<Rightarrow> int list \<Rightarrow> int list option" where
  "fill_chosen chosen j [] = Some []"
| "fill_chosen chosen j (d # ds) =
     (if d = 0 then do {
        c \<leftarrow> rd chosen j;
        rest \<leftarrow> fill_chosen chosen (j + 1) ds;
        Some (c # rest)
      } else do { rest \<leftarrow> fill_chosen chosen j ds; Some (d # rest) })"

text \<open>\<open>factor_each = factor; for (i=1; i<k; i++) factor_each *= factor\<close>.\<close>

definition power_loop :: "int \<Rightarrow> int \<Rightarrow> int" where
  "power_loop factor k = foldl (\<lambda>f _. i32 (f * factor)) factor [1..k - 1]"

fun fill_powers :: "int \<Rightarrow> int \<Rightarrow> int \<Rightarrow> int \<Rightarrow> int list \<Rightarrow> int list" where
  "fill_powers factor cnteach each c [] = []"
| "fill_powers factor cnteach each c (d # ds) =
     (if d = 0 then
        if c > cnteach then each # fill_powers factor cnteach each (c - cnteach) ds
        else if c > 0 then
          power_loop factor c # fill_powers factor cnteach (power_loop factor c) 0 ds
        else 1 # fill_powers factor cnteach each c ds
      else d # fill_powers factor cnteach each c ds)"

definition MPIR_Dims_create :: "int \<Rightarrow> int list \<Rightarrow> int list outcome" where
  "MPIR_Dims_create nnodes dims =
     (case scan_dims dims 0 1 of
        Inl e \<Rightarrow> Some (Inl e)
      | Inr (dims_needed, dims_product) \<Rightarrow>
          if dims_needed > MAX_DIMS then Some (Inl (MPIU_ERR_CREATE MPI_ERR_DIMS ''**dimsmany''))
          else do {
            r \<leftarrow> c_mod nnodes dims_product;
            if r \<noteq> 0 then Some (Inl (MPIU_ERR_CREATE MPI_ERR_DIMS ''**dimspartition''))
            else if dims_needed = 0 then Some (Inr dims)
            else do {
              n \<leftarrow> c_div nnodes dims_product;
              (factors, ndivisors) \<leftarrow> MPIR_Factor n;
              if ndivisors \<le> dims_needed \<or> length factors \<noteq> 1 then do {
                chosen \<leftarrow> MPIR_ChooseFactors factors dims_needed;
                ds \<leftarrow> fill_chosen chosen 0 dims;
                Some (Inr ds)
              }
              else do {
                cnteach \<leftarrow> c_div (cnt (hd factors) + dims_needed - 1) dims_needed;
                Some (Inr (fill_powers (val (hd factors)) cnteach
                             (power_loop (val (hd factors)) cnteach) (cnt (hd factors)) dims))
              }
            }
          })"

text \<open>The entry point; \<open>pdims\<close> is \<open>None\<close> for a null pointer. The array has \<open>ndims\<close> entries.\<close>

definition MPI_Dims_create :: "int \<Rightarrow> int \<Rightarrow> int list option \<Rightarrow> int list option outcome" where
  "MPI_Dims_create nnodes ndims pdims =
     (if ndims = 0 then Some (Inr pdims)
      else if nnodes \<le> 0 then Some (Inl (MPIU_ERR_CREATE MPI_ERR_ARG ''**argnonpos''))
      else if ndims < 0 then Some (Inl (MPIU_ERR_CREATE MPI_ERR_ARG ''**argneg''))
      else case pdims of
        None \<Rightarrow> Some (Inl (MPIU_ERR_CREATE MPI_ERR_ARG ''**nullptr''))
      | Some dims \<Rightarrow> map_option (map_sum id Some) (MPIR_Dims_create nnodes dims))"


subsection \<open>The table of primes\<close>

text \<open>The table is ascending, and every number from 2 to 997 is in it or has a divisor up to 31.\<close>

fun sieved :: "int list \<Rightarrow> int \<Rightarrow> nat \<Rightarrow> bool" where
  "sieved ps m 0 = True"
| "sieved ps m (Suc k) =
     (case ps of p # ps' \<Rightarrow>
        if m = p then sieved ps' (m + 1) k
        else list_ex (\<lambda>d. m mod d = 0) [2, 3, 5, 7, 11, 13, 17, 19, 23, 29, 31] \<and> sieved ps (m + 1) k
      | [] \<Rightarrow> False)"

lemma primes_sieved: "sieved primes 2 996"
  by code_simp

lemma primes_sorted: "sorted_wrt (<) primes"
  by code_simp

lemma length_primes: "length primes = 168"
  by (simp add: primes_def)

lemma sieved_divisor:
  "sieved ps m k \<Longrightarrow> m \<le> x \<Longrightarrow> x < m + int k \<Longrightarrow>
   x \<in> set ps \<or> (\<exists>d\<in>{2, 3, 5, 7, 11, 13, 17, 19, 23, 29, 31}. d dvd x)"
proof (induction ps m k rule: sieved.induct)
  case (2 ps m k)
  note IH = "2.IH" and prems = "2.prems"
  obtain p ps' where ps: "ps = p # ps'" using prems(1) by (cases ps) auto
  show ?case
  proof (cases "m = p")
    case True
    show ?thesis
    proof (cases "x = m")
      case False
      with True prems ps IH(1) [OF ps True] show ?thesis by simp
    qed (simp add: True ps)
  next
    case False
    then have *: "\<exists>d\<in>{2, 3, 5, 7, 11, 13, 17, 19, 23, 29, 31}. d dvd m" "sieved ps (m + 1) k"
      using prems(1) ps by (simp_all add: dvd_eq_mod_eq_0)
    show ?thesis
    proof (cases "x = m")
      case True
      with *(1) show ?thesis by (intro disjI2) simp
    next
      case neq: False
      with * prems IH(2) [OF ps False] show ?thesis by simp
    qed
  qed
qed simp

text \<open>So every number from 2 to 997 is divisible by an entry of the table.\<close>

lemma primes_divisor:
  assumes "2 \<le> x" "x \<le> 997"
  obtains i where "i < 168" "primes ! i dvd x" "primes ! i \<le> x"
proof -
  define S where "S = {2, 3, 5, 7, 11, 13, 17, 19, 23, 29, 31 :: int}"
  have "x \<in> set primes \<or> (\<exists>d\<in>S. d dvd x)"
    using sieved_divisor [OF primes_sieved] assms by (simp add: S_def)
  moreover have "S \<subseteq> set primes"
    by (simp add: primes_def S_def)
  ultimately obtain d where d: "d \<in> set primes" "d dvd x"
    by (meson dvd_refl subsetD)
  from d(1) obtain i where "i < 168" "primes ! i = d"
    by (metis in_set_conv_nth length_primes)
  moreover have "d \<le> x"
    using d(2) assms by (simp add: zdvd_imp_le)
  ultimately show thesis
    using d(2) by (auto intro: that)
qed

lemma primes_less: "i < j \<Longrightarrow> j < 168 \<Longrightarrow> primes ! i < primes ! j"
  using primes_sorted by (simp add: sorted_wrt_iff_nth_less length_primes)

lemma primes_le: "i \<le> j \<Longrightarrow> j < 168 \<Longrightarrow> primes ! i \<le> primes ! j"
  using primes_less [of i j] by (cases "i = j") auto

lemma primes_ends: "primes ! 0 = 2" "primes ! 167 = 997"
  by (simp_all add: primes_def)

lemma primes_ge_2: "i < 168 \<Longrightarrow> 2 \<le> primes ! i"
  using primes_le [of 0 i] by (simp add: primes_ends)

lemma primes_small: "i < 168 \<Longrightarrow> j < 168 \<Longrightarrow> primes ! i < primes ! j \<longleftrightarrow> i < j"
  using primes_less [of i j] primes_le [of j i] by (meson not_less)

subsection \<open>What a factorisation is\<close>

definition value_of :: "Factors list \<Rightarrow> int" where
  "value_of fs = prod_list (map (\<lambda>f. val f ^ nat (cnt f)) fs)"

definition divisors_of :: "Factors list \<Rightarrow> int" where
  "divisors_of fs = sum_list (map cnt fs)"

definition is_prime :: "int \<Rightarrow> bool" where
  "is_prime p \<longleftrightarrow> 1 < p \<and> (\<forall>d. 1 < d \<and> d < p \<longrightarrow> \<not> d dvd p)"

definition factors_ok :: "Factors list \<Rightarrow> bool" where
  "factors_ok fs \<longleftrightarrow> sorted_wrt (<) (map val fs) \<and> (\<forall>f\<in>set fs. 2 \<le> val f \<and> 1 \<le> cnt f)"

lemma value_of_simps [simp]:
  "value_of [] = 1" "value_of (fs @ gs) = value_of fs * value_of gs"
  "value_of (f # fs) = val f ^ nat (cnt f) * value_of fs"
  by (simp_all add: value_of_def)

lemma divisors_of_simps [simp]:
  "divisors_of [] = 0" "divisors_of (fs @ gs) = divisors_of fs + divisors_of gs"
  "divisors_of (f # fs) = cnt f + divisors_of fs"
  by (simp_all add: divisors_of_def)

lemma factors_ok_snoc:
  "factors_ok (fs @ [f]) \<longleftrightarrow> factors_ok fs \<and> (\<forall>g\<in>set fs. val g < val f) \<and> 2 \<le> val f \<and> 1 \<le> cnt f"
  by (auto simp: factors_ok_def sorted_wrt_append)

text \<open>Ascending factors from 2 on: their product outgrows the factorial, so 16 places suffice.\<close>

lemma ascending_length:
  assumes "sorted_wrt (<) xs" "\<forall>y\<in>set xs. 2 \<le> y \<and> y < (x :: int)"
  shows "int (length xs) \<le> max 0 (x - 2)"
proof -
  have "distinct xs" using assms(1) by (simp add: strict_sorted_iff)
  then have "length xs = card (set xs)" by (simp add: distinct_card)
  also have "\<dots> \<le> card {2..<x}" by (rule card_mono) (use assms(2) in auto)
  finally show ?thesis by simp
qed

lemma value_ge_fact: "factors_ok fs \<Longrightarrow> fact (Suc (length fs)) \<le> value_of fs"
proof (induction fs rule: rev_induct)
  case (snoc f fs)
  then have ok: "factors_ok fs" "\<forall>g\<in>set fs. val g < val f" "2 \<le> val f" "1 \<le> cnt f"
    by (simp_all add: factors_ok_snoc)
  have "int (length (map val fs)) \<le> max 0 (val f - 2)"
    by (rule ascending_length) (use ok in \<open>auto simp: factors_ok_def\<close>)
  then have len: "int (length fs) + 2 \<le> val f" using ok(3) by simp
  have "val f ^ 1 \<le> val f ^ nat (cnt f)"
    by (rule power_increasing) (use ok in auto)
  then have "fact (Suc (length fs)) * (int (length fs) + 2) \<le> value_of fs * val f ^ nat (cnt f)"
    by (intro mult_mono snoc.IH [OF ok(1)] order_trans [OF fact_ge_zero snoc.IH [OF ok(1)]])
       (use len in auto)
  then show ?case by (simp add: algebra_simps)
qed simp

lemma factors_few:
  assumes "factors_ok fs" "value_of fs < 2 ^ 31"
  shows "length fs < MAX_FACTORS"
proof (rule ccontr)
  assume "\<not> length fs < MAX_FACTORS"
  then have "fact 13 \<le> (fact (Suc (length fs)) :: int)"
    by (intro fact_mono) (simp add: MAX_FACTORS_def)
  also have "\<dots> \<le> value_of fs" by (rule value_ge_fact [OF assms(1)])
  also have "\<dots> < 2 ^ 31" by (rule assms(2))
  finally show False by (simp add: fact_numeral)
qed

subsection \<open>Dividing out a factor\<close>

lemma divide_out_result:
  assumes "2 \<le> t" "0 < n" "t dvd n"
  shows "\<exists>q k. divide_out t n c = Some (q, c + int k) \<and> 0 < k \<and> n = q * t ^ k \<and> \<not> t dvd q \<and> 0 < q"
  using assms
proof (induction "nat n" arbitrary: n c rule: less_induct)
  case less
  define q where "q = n div t"
  have n: "n = q * t" using less.prems by (simp add: q_def)
  have q: "0 < q" "q < n" using less.prems n by (auto simp: zero_less_mult_iff)
  have eq: "divide_out t n c = (if q mod t = 0 then divide_out t q (c + 1) else Some (q, c + 1))"
    using less.prems q by (subst divide_out.simps) (simp add: q_def)
  show ?case
  proof (cases "t dvd q")
    case True
    then obtain r k where "divide_out t q (c + 1) = Some (r, c + 1 + int k)" "0 < k" "q = r * t ^ k"
      "\<not> t dvd r" "0 < r"
      using less.hyps [of q "c + 1"] q less.prems by auto
    with True eq n show ?thesis
      by (intro exI [of _ r] exI [of _ "Suc k"]) (simp add: dvd_eq_mod_eq_0)
  next
    case False
    with eq n q show ?thesis
      by (intro exI [of _ q] exI [of _ 1]) (simp add: dvd_eq_mod_eq_0)
  qed
qed

subsection \<open>The search through the table\<close>

text \<open>
  Before the entry \<open>k + 1\<close> is tried: what is left of \<open>N\<close> is above 1 and no entry up to \<open>k\<close>
  divides it; the factors found are primes of the table up to entry \<open>k\<close>.
\<close>

definition searching :: "int \<Rightarrow> nat \<Rightarrow> int \<Rightarrow> int \<Rightarrow> Factors list \<Rightarrow> bool" where
  "searching N k n nall fs \<longleftrightarrow>
     1 < n \<and> n * value_of fs = N \<and> nall = divisors_of fs \<and> factors_ok fs \<and>
     (\<forall>i\<le>k. \<not> primes ! i dvd n) \<and> (\<forall>f\<in>set fs. val f \<le> primes ! k \<and> is_prime (val f))"

definition factored :: "int \<Rightarrow> Factors list \<Rightarrow> int \<Rightarrow> bool" where
  "factored N fs nall \<longleftrightarrow>
     value_of fs = N \<and> nall = divisors_of fs \<and> factors_ok fs \<and>
     (\<forall>f\<in>set fs. is_prime (val f) \<or> 997\<^sup>2 < val f \<and> cnt f = 1)"

lemma untried_divisor:
  assumes "\<forall>i\<le>k. \<not> primes ! i dvd n" "k < 168" "d dvd n" "2 \<le> d"
  shows "primes ! k < d"
proof (cases "d \<le> 997")
  case True
  then obtain i where i: "i < 168" "primes ! i dvd d" "primes ! i \<le> d"
    using primes_divisor assms(4) by blast
  then have "\<not> i \<le> k" using assms(1,3) by (meson dvd_trans)
  then have "primes ! k < primes ! i" using i by (intro primes_less) auto
  with i show ?thesis by simp
next
  case False
  have "primes ! k \<le> primes ! 167" by (rule primes_le) (use assms in auto)
  with False show ?thesis by (simp add: primes_ends)
qed

lemma next_entry_prime:
  assumes "\<forall>i\<le>k. \<not> primes ! i dvd n" "Suc k < 168" "primes ! Suc k dvd n"
  shows "is_prime (primes ! Suc k)"
  unfolding is_prime_def
proof (intro conjI allI impI notI)
  show "1 < primes ! Suc k" using primes_ge_2 [OF assms(2)] by simp
  fix d assume d: "1 < d \<and> d < primes ! Suc k" "d dvd primes ! Suc k"
  have "primes ! Suc k \<le> 997" using primes_le [of "Suc k" 167] assms(2) by (simp add: primes_ends)
  then obtain i where i: "i < 168" "primes ! i dvd d" "primes ! i \<le> d"
    using primes_divisor [of d] d(1) by (auto intro: order_trans)
  then have "i < Suc k" using d(1) primes_small [of i "Suc k"] assms(2) by linarith
  moreover have "primes ! i dvd n" using i(2) d(2) assms(3) by (meson dvd_trans)
  ultimately show False using assms(1) by simp
qed

text \<open>What is left once the entries up to the ceiling are tried is prime, or beyond \<open>997\<^sup>2\<close>.\<close>

lemma leftover_prime:
  assumes no: "\<forall>i\<le>k. \<not> primes ! i dvd n" and k: "k < 168" and n: "1 < n"
    and c: "C \<le> primes ! k" "C = 997 \<or> n < C\<^sup>2" "0 \<le> C"
  shows "is_prime n \<or> 997\<^sup>2 < n"
proof (rule disjCI)
  assume small: "\<not> 997\<^sup>2 < n"
  show "is_prime n" unfolding is_prime_def
  proof (intro conjI allI impI notI)
    show "1 < n" by (rule n)
    fix d assume d: "1 < d \<and> d < n" "d dvd n"
    then obtain e where e: "n = d * e" by (auto elim: dvdE)
    have e2: "2 \<le> e"
    proof -
      have "0 < e" by (rule zero_less_mult_pos [of d]) (use e n d in auto)
      moreover have "e \<noteq> 1" using e d by auto
      ultimately show ?thesis by simp
    qed
    have de: "primes ! k < d" "primes ! k < e"
      using untried_divisor [OF no k] d e e2 by (simp_all add: e)
    have "C * C < d * e"
      using de c(1,3) by (intro mult_strict_mono) auto
    then show False using c(2) small e by (auto simp: power2_eq_square)
  qed
qed


lemma primes_step_inv:
  assumes inv: "searching N k n nall fs" and k: "Suc k < 168" and N: "N < 2 ^ 31"
  shows "\<exists>n1 nall1 fs1.
    (if n mod (primes ! Suc k) = 0 then do {
       (n', ncnt) \<leftarrow> divide_out (primes ! Suc k) n 0;
       fs' \<leftarrow> push_factor (primes ! Suc k) ncnt fs;
       Some (n', nall + ncnt, fs')
     } else Some (n, nall, fs)) = Some (n1, nall1, fs1) \<and>
    n1 \<le> n \<and> (n1 = 1 \<and> factored N fs1 nall1 \<or> searching N (Suc k) n1 nall1 fs1)"
proof (cases "primes ! Suc k dvd n")
  case True
  let ?t = "primes ! Suc k"
  have t: "2 \<le> ?t" by (rule primes_ge_2 [OF k])
  have n: "1 < n" "n * value_of fs = N" "factors_ok fs" "\<forall>i\<le>k. \<not> primes ! i dvd n"
    and fs: "\<forall>f\<in>set fs. val f \<le> primes ! k \<and> is_prime (val f)" and na: "nall = divisors_of fs"
    using inv by (auto simp: searching_def)
  obtain q m where q: "divide_out ?t n 0 = Some (q, int m)" "0 < m" "n = q * ?t ^ m" "\<not> ?t dvd q" "0 < q"
    using divide_out_result [of ?t n 0] t n True by auto
  define fs1 where "fs1 = fs @ [\<lparr>val = ?t, cnt = int m\<rparr>]"
  have lt: "primes ! k < ?t" by (rule primes_less) (use k in auto)
  have ok: "factors_ok fs1" using n(3) fs lt t q(2) by (fastforce simp: fs1_def factors_ok_snoc)
  have val: "q * value_of fs1 = N" using n(2) q(3) by (simp add: fs1_def algebra_simps)
  have "1 \<le> value_of fs1" by (rule order_trans [OF fact_ge_1 value_ge_fact [OF ok]])
  then have "value_of fs1 \<le> N" using val q(5) mult_right_mono [of 1 q "value_of fs1"] by simp
  then have "length fs1 < MAX_FACTORS" using factors_few [OF ok] N by linarith
  then have push: "push_factor ?t (int m) fs = Some fs1" by (simp add: push_factor_def fs1_def)
  have prime: "is_prime ?t" by (rule next_entry_prime [OF n(4) k True])
  have no: "\<forall>i\<le>Suc k. \<not> primes ! i dvd q"
    using n(4) q(3,4) by (metis dvd_mult2 le_Suc_eq)
  have le: "q \<le> n" using q(3,5) t by (simp add: mult_le_cancel_left1)
  have rest: "q = 1 \<and> factored N fs1 (nall + int m) \<or> searching N (Suc k) q (nall + int m) fs1"
  proof (cases "q = 1")
    case True
    with val ok na fs prime show ?thesis by (auto simp: factored_def fs1_def)
  next
    case False
    with q(5) val ok na fs lt prime no show ?thesis by (fastforce simp: searching_def fs1_def)
  qed
  from True le rest push q(1) show ?thesis by (simp add: dvd_eq_mod_eq_0)
next
  case False
  have "searching N (Suc k) n nall fs"
    using inv False primes_less [of k "Suc k"] k by (fastforce simp: searching_def le_Suc_eq)
  with False show ?thesis by (simp add: dvd_eq_mod_eq_0)
qed

lemma factor_loop_result:
  assumes "searching N k n nall fs" "k < 167" "N < 2 ^ 31" "0 \<le> C" "C \<le> 997" "C = 997 \<or> n < C\<^sup>2"
  shows "\<exists>fs' nall'. factor_loop C (int k) n nall fs = Some (fs', nall') \<and> factored N fs' nall'"
  using assms
proof (induction "167 - k" arbitrary: k n nall fs)
  case (Suc m)
  let ?t = "primes ! Suc k"
  have k: "Suc k < 168" using Suc.prems by simp
  have t: "2 \<le> ?t" by (rule primes_ge_2 [OF k])
  have pos: "0 < n" using Suc.prems(1) by (simp add: searching_def)
  have rd: "rd primes (int k + 1) = Some ?t" using k rd_int [of "Suc k" primes] by (simp add: length_primes add.commute)
  obtain n1 nall1 fs1 where step: "(if n mod ?t = 0 then do {
       (n', ncnt) \<leftarrow> divide_out ?t n 0;
       fs' \<leftarrow> push_factor ?t ncnt fs;
       Some (n', nall + ncnt, fs')
     } else Some (n, nall, fs)) = Some (n1, nall1, fs1)"
    and le: "n1 \<le> n" and inv: "n1 = 1 \<and> factored N fs1 nall1 \<or> searching N (Suc k) n1 nall1 fs1"
    using primes_step_inv [OF Suc.prems(1) k Suc.prems(3)] by blast
  have eq: "factor_loop C (int k) n nall fs = do {
     (n2, nall2, fs2) \<leftarrow>
       (if C \<le> ?t \<and> n1 \<noteq> 1 then do {
          fs' \<leftarrow> push_factor n1 1 fs1;
          Some (1, nall1 + 1, fs')
        } else Some (n1, nall1, fs1));
     if n2 \<noteq> 1 then factor_loop C (int k + 1) n2 nall2 fs2 else Some (fs2, nall2)
   }"
    using t pos by (subst factor_loop.simps) (simp add: rd step del: rd_eq_Some)
  show ?case
  proof (cases "n1 = 1")
    case True
    then have "factored N fs1 nall1" using inv by (auto simp: searching_def)
    with True show ?thesis by (simp add: eq)
  next
    case ne: False
    then have inv: "searching N (Suc k) n1 nall1 fs1" using inv by simp
    have sq: "C = 997 \<or> n1 < C\<^sup>2" using Suc.prems(6) le by auto
    show ?thesis
    proof (cases "C \<le> ?t")
      case True
      let ?fs = "fs1 @ [\<lparr>val = n1, cnt = 1\<rparr>]"
      have i: "1 < n1" "n1 * value_of fs1 = N" "factors_ok fs1" "\<forall>i\<le>Suc k. \<not> primes ! i dvd n1"
        "\<forall>f\<in>set fs1. val f \<le> ?t \<and> is_prime (val f)" "nall1 = divisors_of fs1"
        using inv by (auto simp: searching_def)
      have "?t < n1" using untried_divisor [OF i(4) k] i(1) by simp
      then have ok: "factors_ok ?fs" using i by (auto simp: factors_ok_snoc)
      have "is_prime n1 \<or> 997\<^sup>2 < n1"
        by (rule leftover_prime [OF i(4) k i(1) True sq Suc.prems(4)])
      then have f: "factored N ?fs (nall1 + 1)"
        using ok i by (auto simp: factored_def algebra_simps)
      have "length ?fs < MAX_FACTORS"
        using f Suc.prems(3) by (intro factors_few [OF ok]) (simp add: factored_def)
      then have "push_factor n1 1 fs1 = Some ?fs" by (simp add: push_factor_def)
      with True ne f show ?thesis by (simp add: eq)
    next
      case False
      have "Suc k < 167"
      proof (rule ccontr)
        assume "\<not> Suc k < 167"
        with k have "Suc k = 167" by simp
        with False Suc.prems(5) show False using primes_ends by simp
      qed
      then obtain fs' nall' where "factor_loop C (int (Suc k)) n1 nall1 fs1 = Some (fs', nall')" "factored N fs' nall'"
        using Suc.hyps(1) [OF _ inv _ Suc.prems(3-5) sq] Suc.hyps(2) by fastforce
      with False ne show ?thesis by (simp add: eq add.commute)
    qed
  qed
qed simp


subsection \<open>Bit scans and the ceiling\<close>

text \<open>The ceiling is above the square root.\<close>

lemma ceiling_square: "n < (4 * 2 ^ (BitScanReverse n div 2))\<^sup>2" for n :: int
proof -
  let ?b = "BitScanReverse n"
  have "n < 2 ^ Suc ?b" by (rule BitScanReverse_bound)
  also have "\<dots> \<le> 2 ^ (4 + 2 * (?b div 2))" by (rule power_increasing) simp_all
  also have "\<dots> = (4 * 2 ^ (?b div 2))\<^sup>2" by (simp only: power_add mult_2 power2_eq_square) simp
  finally show ?thesis .
qed

lemma MPIR_Factor_result:
  assumes "2 \<le> n" "n < 2 ^ 31"
  shows "\<exists>fs ndivisors. MPIR_Factor n = Some (fs, ndivisors) \<and> factored n fs ndivisors"
proof -
  define b where "b = BitScanForward n"
  define m where "m = n div 2 ^ b"
  define fs where "fs = (if b > 0 then [\<lparr>val = 2, cnt = int b\<rparr>] else [])"
  have n: "n = m * 2 ^ b" "odd m"
    using BitScanForward_split [of n] assms(1) by (simp_all add: b_def m_def)
  have m: "0 < m" by (rule zero_less_mult_pos2 [of _ "2 ^ b"]) (use n assms(1) in auto)
  have p2: "is_prime 2" by (auto simp: is_prime_def)
  have fs: "value_of fs = 2 ^ b" "divisors_of fs = int b" "factors_ok fs"
    by (auto simp: fs_def factors_ok_def)
  show ?thesis
  proof (cases "b > 0 \<and> m = 1")
    case True
    then have "factored n fs (int b)" using fs n p2 by (auto simp: factored_def fs_def)
    with True assms show ?thesis by (simp add: MPIR_Factor_def Let_def b_def m_def fs_def)
  next
    case False
    let ?C = "min (4 * 2 ^ (BitScanReverse m div 2)) MAX_PRIMES"
    have "m \<noteq> 1" using False n assms by auto
    then have s: "searching n 0 m (int b) fs"
      using m n fs p2 by (auto simp: searching_def fs_def primes_ends)
    have C: "?C = 997 \<or> m < ?C\<^sup>2" "0 \<le> ?C" "?C \<le> 997"
      using ceiling_square [of m] by (auto simp: min_def MAX_PRIMES_def)
    have eq: "MPIR_Factor n = factor_loop ?C 0 m (int b) fs"
      using False assms by (auto simp: MPIR_Factor_def Let_def b_def m_def fs_def)
    show ?thesis
      using factor_loop_result [OF s _ assms(2) C(2,3,1)] by (simp add: eq)
  qed
qed

subsection \<open>Placing the factors\<close>

text \<open>An array of positive numbers with product \<open>p\<close>, and a cursor in it.\<close>

definition spread :: "int \<Rightarrow> int \<Rightarrow> int list \<times> int \<Rightarrow> bool" where
  "spread needed p st \<longleftrightarrow>
     int (length (fst st)) = needed \<and> 0 \<le> snd st \<and> snd st < needed \<and>
     (\<forall>c\<in>set (fst st). 1 \<le> c) \<and> prod_list (fst st) = p"

lemma prod_list_ge_1: "\<forall>c\<in>set xs. 1 \<le> c \<Longrightarrow> (1 :: int) \<le> prod_list xs"
  by (induction xs) (auto intro: order_trans mult_mono [of 1 _ 1, simplified])

lemma le_prod_list: "\<forall>c\<in>set xs. 1 \<le> c \<Longrightarrow> x \<in> set xs \<Longrightarrow> (x :: int) \<le> prod_list xs"
proof (induction xs)
  case (Cons a xs)
  show ?case
  proof (cases "x = a")
    case True
    then show ?thesis using mult_left_mono [OF prod_list_ge_1, of xs a] Cons.prems by simp
  next
    case False
    with Cons have "x \<le> prod_list xs" "1 \<le> a" by auto
    moreover have "1 * prod_list xs \<le> a * prod_list xs"
      using \<open>1 \<le> a\<close> prod_list_ge_1 [of xs] Cons.prems by (intro mult_right_mono) auto
    ultimately show ?thesis by simp
  qed
qed simp

lemma prod_list_update:
  "k < length xs \<Longrightarrow> prod_list (xs[k := xs ! k * v]) = prod_list xs * (v :: int)"
  by (induction xs arbitrary: k) (auto split: nat.split)

lemma find_min_range:
  "0 \<le> iMin \<Longrightarrow> iMin < int (length chosen) \<Longrightarrow> \<forall>i\<in>set is. 0 \<le> i \<and> i < int (length chosen) \<Longrightarrow>
   \<exists>r. find_min chosen is cMin iMin = Some r \<and> 0 \<le> r \<and> r < int (length chosen)"
proof (induction "is" arbitrary: cMin iMin)
  case (Cons i "is")
  then have "rd chosen i = Some (chosen ! nat i)" by simp
  with Cons show ?case by (cases "chosen ! nat i < cMin") (auto simp del: rd_eq_Some)
qed simp

lemma place_factor_spread:
  assumes s: "spread needed p st" and v: "1 \<le> v" "p * v < 2 ^ 31"
  shows "\<exists>st'. place_factor needed v st = Some st' \<and> spread needed (p * v) st'"
proof -
  obtain chosen i0 where st: "st = (chosen, i0)" by (cases st)
  have l: "int (length chosen) = needed" "0 \<le> i0" "i0 < needed" "\<forall>c\<in>set chosen. 1 \<le> c" "prod_list chosen = p"
    using s by (auto simp: spread_def st)
  have rd: "0 \<le> i \<Longrightarrow> i < needed \<Longrightarrow> rd chosen i = Some (chosen ! nat i)" for i
    using l(1) by simp
  obtain m where m: "find_min chosen [1..needed - 1] (chosen ! 0) 0 = Some m" "0 \<le> m" "m < needed"
    using find_min_range [of 0 chosen "[1..needed - 1]"] l by auto
  define i where "i = (if chosen ! nat i0 > m then m else i0)"
  have i: "0 \<le> i" "i < needed" using l m by (auto simp: i_def)
  have "chosen ! nat i \<in> set chosen" using i l(1) by (intro nth_mem) linarith
  then have c: "1 \<le> chosen ! nat i" "chosen ! nat i \<le> p" using l(4,5) le_prod_list by auto
  have "chosen ! nat i * v \<le> p * v" using c v by (intro mult_right_mono) auto
  moreover have "1 \<le> chosen ! nat i * v" using c v mult_mono [of 1 "chosen ! nat i" 1 v] by simp
  ultimately have wrap: "i32 (chosen ! nat i * v) = chosen ! nat i * v"
    using v by (intro i32_id) linarith+
  let ?chosen = "chosen[nat i := chosen ! nat i * v]"
  have wr: "wr chosen i (chosen ! nat i * v) = Some ?chosen" using i l(1) by (simp add: wr_def)
  have eq: "place_factor needed v st = Some (?chosen, if i + 1 \<ge> needed then 0 else i + 1)"
    using rd [of 0] rd [of i0] rd [of i] l(1-3) i m wrap wr
    by (simp add: place_factor_def st i_def del: rd_eq_Some wr_eq_Some)
  have "\<forall>c\<in>set ?chosen. 1 \<le> c"
    using set_update_subset_insert [of chosen "nat i"] l(4) \<open>1 \<le> chosen ! nat i * v\<close> by blast
  moreover have "prod_list ?chosen = p * v" using prod_list_update [of "nat i" chosen v] i l by simp
  ultimately show ?thesis using eq l i by (auto simp: spread_def)
qed

lemma power_step: "v ^ nat c = v * v ^ nat (c - 1)" if "0 < c" for v :: int
  using that by (metis Suc_nat_eq_nat_zadd1 add_0 add_diff_cancel_left' diff_add_cancel le_add_diff_inverse2 nat_0_le power_Suc zle_diff1_eq)

lemma place_copies_spread:
  assumes "spread needed p st" "1 \<le> v" "0 \<le> c" "p * v ^ nat c < 2 ^ 31"
  shows "\<exists>st'. place_copies needed v c st = Some st' \<and> spread needed (p * v ^ nat c) st'"
  using assms
proof (induction "nat c" arbitrary: c p st)
  case 0
  then show ?case by (subst place_copies.simps) simp
next
  case (Suc k)
  then have c: "0 < c" "c \<noteq> 0" by auto
  have pw: "v ^ nat c = v * v ^ nat (c - 1)" by (rule power_step [OF c(1)])
  have "1 \<le> p" using Suc.prems(1) prod_list_ge_1 by (auto simp: spread_def)
  then have "p * v * 1 \<le> p * v * v ^ nat (c - 1)"
    using Suc.prems(2) by (intro mult_left_mono) auto
  then have "p * v < 2 ^ 31" using Suc.prems(4) pw by (simp add: mult.assoc)
  then obtain st1 where st1: "place_factor needed v st = Some st1" "spread needed (p * v) st1"
    using place_factor_spread [OF Suc.prems(1,2)] by blast
  have k: "k = nat (c - 1)" and b: "p * v * v ^ nat (c - 1) < 2 ^ 31"
    using Suc.hyps(2) Suc.prems(4) c pw by (simp_all add: mult.assoc)
  obtain st2 where "place_copies needed v (c - 1) st1 = Some st2" "spread needed (p * v * v ^ nat (c - 1)) st2"
    using Suc.hyps(1) [OF k st1(2) Suc.prems(2) _ b] c by fastforce
  with st1 c pw show ?case by (subst place_copies.simps) (simp add: mult.assoc)
qed

lemma value_of_ge_1: "\<forall>f\<in>set fs. 1 \<le> val f \<Longrightarrow> 1 \<le> value_of fs"
  unfolding value_of_def by (rule prod_list_ge_1) auto

lemma place_factors_spread:
  assumes "spread needed p st" "\<forall>f\<in>set fs. 1 \<le> val f \<and> 0 \<le> cnt f" "p * value_of fs < 2 ^ 31"
  shows "\<exists>st'. place_factors needed fs st = Some st' \<and> spread needed (p * value_of fs) st'"
  using assms
proof (induction fs arbitrary: p st)
  case (Cons f fs)
  let ?q = "p * val f ^ nat (cnt f)"
  have "1 \<le> p" using Cons.prems(1) prod_list_ge_1 by (auto simp: spread_def)
  then have "?q * 1 \<le> ?q * value_of fs"
    using Cons.prems(2) by (intro mult_left_mono value_of_ge_1) auto
  then have "?q < 2 ^ 31" using Cons.prems(3) by (simp add: mult.assoc)
  then obtain st1 where st1: "place_copies needed (val f) (cnt f) st = Some st1" "spread needed ?q st1"
    using place_copies_spread [OF Cons.prems(1), of "val f" "cnt f"] Cons.prems(2) by fastforce
  then show ?case using Cons.IH [of ?q st1] Cons.prems by (auto simp: mult.assoc)
qed simp

lemma value_of_rev: "value_of (rev fs) = value_of fs"
  by (induction fs) simp_all


subsection \<open>The bubble sort\<close>

text \<open>What the sort of the positions from \<open>i\<close> on keeps: the positions before \<open>i\<close>, the multiset.\<close>

definition rearranged :: "nat \<Rightarrow> int list \<Rightarrow> int list \<Rightarrow> bool" where
  "rearranged i xs ys \<longleftrightarrow>
     mset ys = mset xs \<and> length ys = length xs \<and> take i ys = take i xs \<and>
     (\<forall>j. i \<le> j \<and> j < length xs \<longrightarrow> (\<exists>j'. i \<le> j' \<and> j' < length xs \<and> ys ! j = xs ! j'))"

lemma rearranged_refl: "rearranged i xs xs"
  by (auto simp: rearranged_def)

lemma rearranged_trans: "rearranged i xs ys \<Longrightarrow> rearranged i ys zs \<Longrightarrow> rearranged i xs zs"
  unfolding rearranged_def by (metis (no_types, lifting))

lemma rearranged_mono: "rearranged j xs ys \<Longrightarrow> i \<le> j \<Longrightarrow> rearranged i xs ys"
  unfolding rearranged_def
proof (elim conjE, intro conjI allI impI, goal_cases)
  case 3
  then show ?case by (metis min.absorb1 take_take)
next
  case (4 k)
  show ?case
  proof (cases "j \<le> k")
    case False
    then have "ys ! k = take j ys ! k" "xs ! k = take j xs ! k" by simp_all
    with 4 show ?thesis by (metis)
  qed (use 4 in \<open>meson order_trans\<close>)
qed simp_all

lemma swap_step_result:
  assumes "i < j" "j < length xs"
  shows "\<exists>ys. swap_step (int i) (int j) xs = Some ys \<and> rearranged i xs ys \<and>
    ys ! i = max (xs ! i) (xs ! j) \<and> ys ! j \<le> ys ! i \<and>
    (\<forall>k. k \<noteq> i \<and> k \<noteq> j \<longrightarrow> ys ! k = xs ! k)"
proof (cases "xs ! j > xs ! i")
  case True
  let ?ys = "xs[i := xs ! j, j := xs ! i]"
  have "mset ?ys = mset xs" using assms by (intro mset_swap) simp_all
  moreover have "\<exists>j'\<ge>i. j' < length xs \<and> ?ys ! k = xs ! j'" if "i \<le> k" "k < length xs" for k
    using that assms by (cases "k = j"; cases "k = i") (auto intro: exI [of _ i] exI [of _ j] exI [of _ k])
  ultimately have "rearranged i xs ?ys" using assms by (auto simp: rearranged_def)
  moreover have "swap_step (int i) (int j) xs = Some ?ys"
    using True assms by (simp add: swap_step_def del: rd_eq_Some wr_eq_Some)
  ultimately show ?thesis using True assms by auto
next
  case False
  then have "swap_step (int i) (int j) xs = Some xs"
    using assms by (simp add: swap_step_def del: rd_eq_Some wr_eq_Some)
  with False show ?thesis by (auto simp: rearranged_refl)
qed

lemma sort_inner_result:
  assumes "\<forall>j\<in>set js. i < j \<and> j < length xs" "distinct js"
  shows "\<exists>ys. sort_inner (int i) (map int js) xs = Some ys \<and> rearranged i xs ys \<and>
    xs ! i \<le> ys ! i \<and> (\<forall>j\<in>set js. ys ! j \<le> ys ! i) \<and> (\<forall>k. k \<noteq> i \<and> k \<notin> set js \<longrightarrow> ys ! k = xs ! k)"
  using assms
proof (induction js arbitrary: xs)
  case Nil
  then show ?case by (simp add: rearranged_refl)
next
  case (Cons j js)
  obtain ys where ys: "swap_step (int i) (int j) xs = Some ys" "rearranged i xs ys"
    "ys ! i = max (xs ! i) (xs ! j)" "ys ! j \<le> ys ! i" "\<forall>k. k \<noteq> i \<and> k \<noteq> j \<longrightarrow> ys ! k = xs ! k"
    using swap_step_result [of i j xs] Cons.prems by auto
  have len: "length ys = length xs" using ys(2) by (simp add: rearranged_def)
  obtain zs where zs: "sort_inner (int i) (map int js) ys = Some zs" "rearranged i ys zs"
    "ys ! i \<le> zs ! i" "\<forall>j\<in>set js. zs ! j \<le> zs ! i" "\<forall>k. k \<noteq> i \<and> k \<notin> set js \<longrightarrow> zs ! k = ys ! k"
    using Cons.IH [of ys] Cons.prems len by auto
  have "zs ! j = ys ! j" using zs(5) Cons.prems by auto
  with ys zs rearranged_trans [OF ys(2) zs(2)] Cons.prems show ?case
    by (auto intro: order_trans)
qed

lemma upto_map_int: "[int a..int a + int m - 1] = map int [a..<a + m]"
proof (induction m arbitrary: a)
  case (Suc m)
  have "[int a..int a + int (Suc m) - 1] = int a # [int (Suc a)..int (Suc a) + int m - 1]"
    by (subst upto.simps) (simp add: algebra_simps)
  also have "\<dots> = map int (a # [Suc a..<Suc a + m])"
    by (simp only: Suc.IH list.map)
  also have "a # [Suc a..<Suc a + m] = [a..<a + Suc m]"
    by (simp add: upt_conv_Cons del: upt_Suc)
  finally show ?case .
qed simp

lemma upto_interval: "[int a..int b - 1] = map int [a..<b]"
  using upto_map_int [of a "b - a"] by (cases "a \<le> b") simp_all

lemma sort_outer_result:
  assumes "a \<le> length xs" "int (length xs) = needed"
    "\<forall>k<a. \<forall>j. k < j \<and> j < length xs \<longrightarrow> xs ! j \<le> xs ! k"
  shows "\<exists>ys. sort_outer needed (map int [a..<length xs - 1]) xs = Some ys \<and> mset ys = mset xs \<and>
    sorted_wrt (\<ge>) ys"
  using assms
proof (induction "length xs - a" arbitrary: a xs)
  case 0
  then show ?case by (auto simp: sorted_wrt_iff_nth_less)
next
  case (Suc n)
  show ?case
  proof (cases "a < length xs - 1")
    case False
    then have "length xs \<le> Suc a" by simp
    then have "sorted_wrt (\<ge>) xs" using Suc.prems by (auto simp: sorted_wrt_iff_nth_less)
    with False show ?thesis by simp
  next
    case True
    have rng: "[int a + 1..needed - 1] = map int [Suc a..<length xs]"
      using upto_interval [of "Suc a" "length xs"] Suc.prems(2) by (simp add: add.commute)
    obtain ys where ys: "sort_inner (int a) (map int [Suc a..<length xs]) xs = Some ys" "rearranged a xs ys"
      "\<forall>j\<in>set [Suc a..<length xs]. ys ! j \<le> ys ! a"
      using sort_inner_result [of "[Suc a..<length xs]" a xs] by auto
    have len: "length ys = length xs" using ys(2) by (simp add: rearranged_def)
    have pre: "ys ! k = xs ! k" if "k < a" for k
      using ys(2) that by (metis nth_take rearranged_def)
    have sorted: "\<forall>k<Suc a. \<forall>j. k < j \<and> j < length ys \<longrightarrow> ys ! j \<le> ys ! k"
    proof (intro allI impI)
      fix k j assume k: "k < Suc a" and j: "k < j \<and> j < length ys"
      show "ys ! j \<le> ys ! k"
      proof (cases "k = a")
        case True
        with j ys(3) len show ?thesis by simp
      next
        case False
        then have ka: "k < a" using k by simp
        show ?thesis
        proof (cases "j < a")
          case True
          with pre ka j len Suc.prems(3) show ?thesis by auto
        next
          case False
          then obtain j' where "a \<le> j'" "j' < length xs" "ys ! j = xs ! j'"
            using ys(2) j len unfolding rearranged_def by (metis not_less)
          with pre ka Suc.prems(3) show ?thesis by auto
        qed
      qed
    qed
    have "[a..<length xs - 1] = a # [Suc a..<length ys - 1]"
      using True len by (simp add: upt_conv_Cons)
    moreover have "n = length ys - Suc a" "Suc a \<le> length ys" "int (length ys) = needed"
      using Suc.hyps(2) Suc.prems(2) len True by linarith+
    then obtain zs where "sort_outer needed (map int [Suc a..<length ys - 1]) ys = Some zs"
      "mset zs = mset ys" "sorted_wrt (\<ge>) zs"
      using Suc.hyps(1) [OF _ _ _ sorted] by blast
    ultimately show ?thesis using ys rng by (auto simp: rearranged_def)
  qed
qed

lemma MPIR_ChooseFactors_result:
  assumes "1 \<le> needed" "\<forall>f\<in>set fs. 1 \<le> val f \<and> 0 \<le> cnt f" "value_of fs < 2 ^ 31"
  shows "\<exists>chosen. MPIR_ChooseFactors fs needed = Some chosen \<and> int (length chosen) = needed \<and>
    prod_list chosen = value_of fs \<and> (\<forall>c\<in>set chosen. 1 \<le> c) \<and> sorted_wrt (\<ge>) chosen"
proof -
  have "spread needed 1 (replicate (nat needed) 1, 0)"
    using assms(1) by (auto simp: spread_def)
  then obtain xs i where xs: "place_factors needed (rev fs) (replicate (nat needed) 1, 0) = Some (xs, i)"
    "spread needed (value_of fs) (xs, i)"
    using place_factors_spread [of needed 1 _ "rev fs"] assms by (fastforce simp: value_of_rev)
  then have len: "int (length xs) = needed" "xs \<noteq> []" using assms(1) by (auto simp: spread_def)
  have "[0..needed - 2] = map int [0..<length xs - 1]"
      using upto_interval [of 0 "length xs - 1"] len by (simp add: of_nat_diff Suc_le_eq)
  moreover obtain ys where ys: "sort_outer needed (map int [0..<length xs - 1]) xs = Some ys"
    "mset ys = mset xs" "sorted_wrt (\<ge>) ys"
    using sort_outer_result [of 0 xs needed] len by auto
  ultimately have "MPIR_ChooseFactors fs needed = Some ys"
    using xs(1) by (simp add: MPIR_ChooseFactors_def)
  moreover have "prod_list ys = prod_list xs" using ys(2) by (metis prod_mset_prod_list)
  moreover have "set ys = set xs" "length ys = length xs"
    using ys(2) by (metis set_mset_mset, metis size_mset)
  ultimately show ?thesis using xs(2) ys(3) by (auto simp: spread_def)
qed

subsection \<open>Filling in the free dimensions\<close>

text \<open>The entries of \<open>ys\<close> at the positions where \<open>ds\<close> is zero.\<close>

definition filled :: "int list \<Rightarrow> int list \<Rightarrow> int list" where
  "filled ds ys = map snd (filter (\<lambda>(d, y). d = 0) (zip ds ys))"

definition completes :: "int list \<Rightarrow> int list \<Rightarrow> bool" where
  "completes ds ys \<longleftrightarrow> list_all2 (\<lambda>d y. d \<noteq> 0 \<longrightarrow> y = d) ds ys"

definition free_dims :: "int list \<Rightarrow> int" where
  "free_dims ds = int (length (filter (\<lambda>d. d = 0) ds))"

definition fixed_product :: "int list \<Rightarrow> int" where
  "fixed_product ds = prod_list (filter (\<lambda>d. d \<noteq> 0) ds)"

lemma completes_simps [simp]:
  "completes [] ys \<longleftrightarrow> ys = []"
  "completes (d # ds) (y # ys) \<longleftrightarrow> (d \<noteq> 0 \<longrightarrow> y = d) \<and> completes ds ys"
  by (simp_all add: completes_def)

lemma filled_simps [simp]:
  "filled [] ys = []" "filled (d # ds) (y # ys) = (if d = 0 then y # filled ds ys else filled ds ys)"
  by (simp_all add: filled_def)

lemma free_dims_simps [simp]:
  "free_dims [] = 0" "free_dims (d # ds) = (if d = 0 then 1 + free_dims ds else free_dims ds)"
  by (simp_all add: free_dims_def)

lemma fixed_product_simps [simp]:
  "fixed_product [] = 1" "fixed_product (d # ds) = (if d = 0 then fixed_product ds else d * fixed_product ds)"
  by (simp_all add: fixed_product_def)

lemma free_dims_nonneg: "0 \<le> free_dims ds"
  by (simp add: free_dims_def)

lemma completes_product: "completes ds ys \<Longrightarrow> prod_list ys = fixed_product ds * prod_list (filled ds ys)"
  unfolding completes_def by (induction rule: list_all2_induct) auto

lemma completes_full: "free_dims ds = 0 \<Longrightarrow> completes ds ds \<and> filled ds ds = []"
  by (induction ds) (auto simp: free_dims_nonneg add_nonneg_eq_0_iff split: if_splits)

lemma fill_chosen_result:
  "int (length chosen) = int j + free_dims ds \<Longrightarrow>
   \<exists>ys. fill_chosen chosen (int j) ds = Some ys \<and> completes ds ys \<and> filled ds ys = drop j chosen"
proof (induction ds arbitrary: j)
  case (Cons d ds)
  show ?case
  proof (cases "d = 0")
    case True
    then have j: "j < length chosen" using Cons.prems free_dims_nonneg [of ds] by simp
    obtain ys where "fill_chosen chosen (int (Suc j)) ds = Some ys" "completes ds ys" "filled ds ys = drop (Suc j) chosen"
      using Cons.IH [of "Suc j"] Cons.prems True by auto
    with True j show ?thesis by (auto simp: add.commute Cons_nth_drop_Suc simp del: rd_eq_Some)
  next
    case False
    with Cons show ?thesis by fastforce
  qed
qed simp

subsection \<open>Powers of one factor\<close>

lemma power_loop_result:
  assumes "1 \<le> v" "v ^ Suc k < 2 ^ 31"
  shows "power_loop v (int (Suc k)) = v ^ Suc k"
  using assms(2)
proof (induction k)
  case (Suc k)
  have le: "v ^ Suc k \<le> v ^ Suc (Suc k)" by (rule power_increasing) (use assms(1) in auto)
  have range: "[1..int (Suc (Suc k)) - 1] = [1..int (Suc k) - 1] @ [int (Suc k)]"
    using upto_rec2 [of 1 "int (Suc k)"] by simp
  have "power_loop v (int (Suc (Suc k))) = i32 (power_loop v (int (Suc k)) * v)"
    unfolding power_loop_def range by simp
  also have "power_loop v (int (Suc k)) = v ^ Suc k"
    using Suc le by linarith
  also have "i32 (v ^ Suc k * v) = v ^ Suc k * v"
    using Suc.prems assms(1) by (intro i32_id) (auto simp: mult.commute intro: order_trans [OF _ zero_le_mult_iff [THEN iffD2]])
  finally show ?case by (simp add: mult.commute)
qed (simp add: power_loop_def)

lemma fill_ones:
  "0 \<le> n \<Longrightarrow> \<exists>ys. fill_powers v n each 0 ds = ys \<and> completes ds ys \<and> filled ds ys = replicate (nat (free_dims ds)) 1"
proof (induction ds)
  case (Cons d ds)
  then show ?case using free_dims_nonneg [of ds] by (auto simp: nat_add_distrib)
qed simp

lemma ones_after:
  "1 \<le> x \<Longrightarrow> sorted_wrt (\<ge>) (x # replicate k 1)" for x :: int
  by (induction k) auto

lemma fill_powers_result:
  assumes "2 \<le> v" "1 \<le> n" "v ^ n < 2 ^ 31" "v ^ c < 2 ^ 31" "int c \<le> int n * free_dims ds"
  shows "\<exists>ys. fill_powers v (int n) (v ^ n) (int c) ds = ys \<and> completes ds ys \<and>
    prod_list (filled ds ys) = v ^ c \<and> sorted_wrt (\<ge>) (filled ds ys) \<and>
    (\<forall>y\<in>set (filled ds ys). 1 \<le> y \<and> y \<le> v ^ n)"
  using assms(4,5)
proof (induction ds arbitrary: c)
  case (Cons d ds)
  have pos: "(1 :: int) \<le> v ^ m" for m using assms(1) by simp
  consider "d \<noteq> 0" | "d = 0" "c > n" | "d = 0" "0 < c" "c \<le> n" | "d = 0" "c = 0" by linarith
  then show ?case
  proof cases
    case 1
    with Cons show ?thesis by auto
  next
    case 2
    have "v ^ (c - n) \<le> v ^ c" by (rule power_increasing) (use assms(1) in auto)
    then have "v ^ (c - n) < 2 ^ 31" using Cons.prems(1) by linarith
    moreover have "int (c - n) \<le> int n * free_dims ds" using 2 Cons.prems(2) by (simp add: of_nat_diff algebra_simps)
    ultimately obtain ys where ys: "fill_powers v (int n) (v ^ n) (int (c - n)) ds = ys" "completes ds ys"
      "prod_list (filled ds ys) = v ^ (c - n)" "sorted_wrt (\<ge>) (filled ds ys)"
      "\<forall>y\<in>set (filled ds ys). 1 \<le> y \<and> y \<le> v ^ n"
      using Cons.IH by blast
    moreover have "v ^ n * v ^ (c - n) = v ^ c" using 2 by (simp flip: power_add)
    ultimately show ?thesis using 2 pos [of n] by (simp add: of_nat_diff)
  next
    case 3
    obtain k where k: "c = Suc k" using 3 by (cases c) auto
    have pl: "power_loop v (int c) = v ^ c"
      using power_loop_result [of v k] assms(1) Cons.prems(1) k by simp
    have "v ^ c \<le> v ^ n" by (rule power_increasing) (use assms(1) 3 in auto)
    moreover obtain ys where "fill_powers v (int n) (v ^ c) 0 ds = ys" "completes ds ys"
      "filled ds ys = replicate (nat (free_dims ds)) 1"
      using fill_ones [of "int n" v "v ^ c" ds] assms(2) by auto
    ultimately show ?thesis using 3 pl pos [of c] pos [of n]
      ones_after by (auto simp: prod_list_replicate simp del: sorted_wrt.simps)
  next
    case 4
    obtain ys where "fill_powers v (int n) (v ^ n) 0 ds = ys" "completes ds ys"
      "filled ds ys = replicate (nat (free_dims ds)) 1"
      using fill_ones [of "int n" v "v ^ n" ds] assms(2) by auto
    then show ?thesis using 4 pos [of n]
      ones_after by (auto simp: prod_list_replicate simp del: sorted_wrt.simps)
  qed
qed simp

subsection \<open>Scanning the request\<close>

lemma fixed_product_ge_1: "\<forall>d\<in>set ds. 0 \<le> d \<Longrightarrow> 1 \<le> fixed_product ds"
  unfolding fixed_product_def by (rule prod_list_ge_1) auto

lemma scan_dims_result:
  "\<forall>d\<in>set ds. 0 \<le> d \<Longrightarrow> 1 \<le> p \<Longrightarrow> p * fixed_product ds < 2 ^ 31 \<Longrightarrow>
   scan_dims ds m p = Inr (m + free_dims ds, p * fixed_product ds)"
proof (induction ds arbitrary: m p)
  case (Cons d ds)
  show ?case
  proof (cases "d = 0")
    case False
    then have d: "1 \<le> d" "1 \<le> p * d" using Cons.prems mult_mono [of 1 p 1 d] by auto
    then have "p * d * 1 \<le> p * d * fixed_product ds"
      using Cons.prems by (intro mult_left_mono fixed_product_ge_1) auto
    then have "i32 (p * d) = p * d" using d Cons.prems(3) False by (intro i32_id) (auto simp: mult.assoc)
    with Cons False d show ?thesis by (simp add: mult.assoc)
  qed (use Cons in simp)
qed simp


lemma scan_dims_negative:
  "\<exists>d\<in>set ds. d < 0 \<Longrightarrow> scan_dims ds m p = Inl (MPIU_ERR_CREATE MPI_ERR_DIMS ''**argarrayneg'')"
  by (induction ds arbitrary: m p) auto

text \<open>The product wraps around.\<close>

lemma i32_mult: "i32 (i32 x * d) = i32 (x * d)"
proof -
  have cong: "i32 y = i32 z" if "y mod 2 ^ 32 = z mod 2 ^ 32" for y z
    using that by (simp add: i32_def mod_add_cong)
  have "i32 x mod 2 ^ 32 = x mod 2 ^ 32"
    by (simp add: i32_def mod_diff_left_eq)
  then have "i32 x * d mod 2 ^ 32 = x * d mod 2 ^ 32" by (rule mod_mult_cong) simp
  then show ?thesis by (rule cong)
qed

lemma scan_dims_wraps:
  "\<forall>d\<in>set ds. 0 \<le> d \<Longrightarrow> i32 p = p \<Longrightarrow> scan_dims ds m p = Inr (m + free_dims ds, i32 (p * fixed_product ds))"
proof (induction ds arbitrary: m p)
  case (Cons d ds)
  have "i32 (i32 (p * d)) = i32 (p * d)" using i32_mult [of "p * d" 1] by simp
  with Cons show ?case by (auto simp: i32_mult mult.assoc)
qed simp

subsection \<open>The result\<close>

lemma MPIR_Factor_one: "MPIR_Factor 1 = Some ([\<lparr>val = 1, cnt = 1\<rparr>], 1)"
  by (simp add: MPIR_Factor_def)

lemma MPIR_Factor_positive:
  assumes "1 \<le> n" "n < 2 ^ 31"
  obtains fs k where "MPIR_Factor n = Some (fs, k)" "value_of fs = n" "k = divisors_of fs"
    "\<forall>f\<in>set fs. 1 \<le> val f \<and> 1 \<le> cnt f" "n = 1 \<or> (\<forall>f\<in>set fs. 2 \<le> val f)" "fs \<noteq> []"
proof (cases "n = 1")
  case True
  then show thesis by (intro that [of "[\<lparr>val = 1, cnt = 1\<rparr>]" 1]) (simp_all add: MPIR_Factor_one)
next
  case False
  then obtain fs k where "MPIR_Factor n = Some (fs, k)" "factored n fs k"
    using MPIR_Factor_result [of n] assms by auto
  with False show thesis by (intro that [of fs k]) (fastforce simp: factored_def factors_ok_def)+
qed

lemma MPIR_Dims_create_result:
  assumes nn: "0 < nnodes" "nnodes < 2 ^ 31" and nonneg: "\<forall>d\<in>set dims. 0 \<le> d"
    and bound: "fixed_product dims < 2 ^ 31" "free_dims dims \<le> MAX_DIMS"
    and dv: "fixed_product dims dvd nnodes" and free: "0 < free_dims dims"
  shows "\<exists>ys. MPIR_Dims_create nnodes dims = Some (Inr ys) \<and> completes dims ys \<and>
    prod_list ys = nnodes \<and> sorted_wrt (\<ge>) (filled dims ys) \<and> (\<forall>y\<in>set (filled dims ys). 1 \<le> y)"
proof -
  let ?P = "fixed_product dims" and ?z = "free_dims dims"
  define n where "n = nnodes div ?P"
  have P: "1 \<le> ?P" by (rule fixed_product_ge_1 [OF nonneg])
  have n: "nnodes = ?P * n" using dv by (simp add: n_def)
  have "0 < n" by (rule zero_less_mult_pos [of ?P]) (use n nn P in auto)
  then have n1: "1 \<le> n" by simp
  have "1 * n \<le> ?P * n" using P n1 by (intro mult_right_mono) auto
  then have n31: "n < 2 ^ 31" using n nn by simp
  obtain fs k where fs: "MPIR_Factor n = Some (fs, k)" "value_of fs = n" "k = divisors_of fs"
    "\<forall>f\<in>set fs. 1 \<le> val f \<and> 1 \<le> cnt f" "n = 1 \<or> (\<forall>f\<in>set fs. 2 \<le> val f)" "fs \<noteq> []"
    by (rule MPIR_Factor_positive [OF n1 n31])
  have scan: "scan_dims dims 0 1 = Inr (?z, ?P)"
    using scan_dims_result [OF nonneg, of 1 0] bound(1) by simp
  have head: "MPIR_Dims_create nnodes dims =
    (if k \<le> ?z \<or> length fs \<noteq> 1 then do {
       chosen \<leftarrow> MPIR_ChooseFactors fs ?z;
       ds \<leftarrow> fill_chosen chosen 0 dims;
       Some (Inr ds)
     } else do {
       cnteach \<leftarrow> c_div (cnt (hd fs) + ?z - 1) ?z;
       Some (Inr (fill_powers (val (hd fs)) cnteach (power_loop (val (hd fs)) cnteach) (cnt (hd fs)) dims))
     })"
    using scan bound(2) nn P dv free fs(1) by (simp add: MPIR_Dims_create_def n_def)
  show ?thesis
  proof (cases "k \<le> ?z \<or> length fs \<noteq> 1")
    case True
    obtain chosen where ch: "MPIR_ChooseFactors fs ?z = Some chosen" "int (length chosen) = ?z"
      "prod_list chosen = n" "\<forall>c\<in>set chosen. 1 \<le> c" "sorted_wrt (\<ge>) chosen"
      using MPIR_ChooseFactors_result [of ?z fs] free fs n31 by fastforce
    obtain ys where "fill_chosen chosen 0 dims = Some ys" "completes dims ys" "filled dims ys = chosen"
      using fill_chosen_result [of chosen 0 dims] ch(2) by auto
    with True head ch n show ?thesis by (auto simp: completes_product)
  next
    case False
    then obtain f where f: "fs = [f]" by (cases fs) auto
    have c: "?z < cnt f" using False fs(3) f by simp
    have "val f \<noteq> 1"
    proof
      assume "val f = 1"
      then have "n = 1" using fs(2) f by simp
      with fs(1) f c free show False by (auto simp: MPIR_Factor_one)
    qed
    then have v: "2 \<le> val f" using fs(4,5) f by auto
    define q r where "q = (cnt f + ?z - 1) div ?z" and "r = (cnt f + ?z - 1) mod ?z"
    have qr: "cnt f + ?z - 1 = ?z * q + r" "r < ?z"
      using free by (simp_all add: q_def r_def)
    then have cf: "cnt f \<le> q * ?z" by (simp add: mult.commute)
    have "0 \<le> (cnt f - 1) * (?z - 1)" using c free by (intro mult_nonneg_nonneg) auto
    then have "cnt f + ?z - 1 \<le> cnt f * ?z" by (simp add: algebra_simps)
    then have "q \<le> cnt f * ?z div ?z" unfolding q_def using free by (rule zdiv_mono1)
    then have qc: "q \<le> cnt f" using free by simp
    have q1: "1 \<le> q" using c free cf by (smt (verit) mult_nonpos_nonneg)
    define m where "m = nat q"
    have m: "int m = q" "1 \<le> m" "m \<le> nat (cnt f)" using q1 qc by (simp_all add: m_def)
    have div: "c_div (cnt f + ?z - 1) ?z = Some (int m)" using c free by (simp add: m(1) q_def)
    have vn: "val f ^ nat (cnt f) = n" using fs(2) f by simp
    have "val f ^ m \<le> val f ^ nat (cnt f)" by (rule power_increasing [OF m(3)]) (use v in simp)
    then have vm: "val f ^ m < 2 ^ 31" using vn n31 by simp
    have pl: "power_loop (val f) (int m) = val f ^ m"
      using power_loop_result [of "val f" "m - 1"] m(2) v vm by simp
    obtain ys where ys: "fill_powers (val f) (int m) (val f ^ m) (int (nat (cnt f))) dims = ys"
      "completes dims ys" "prod_list (filled dims ys) = val f ^ nat (cnt f)"
      "sorted_wrt (\<ge>) (filled dims ys)" "\<forall>y\<in>set (filled dims ys). 1 \<le> y"
      using fill_powers_result [OF v m(2) vm, of "nat (cnt f)" dims] vn n31 cf c free m(1) by fastforce
    have "MPIR_Dims_create nnodes dims = Some (Inr ys)"
      using False head f div pl ys(1) c free by simp
    with ys vn n show ?thesis by (auto simp: completes_product)
  qed
qed

text \<open>C35: \<open>MPI_Dims_create\<close> for a positive number of nodes that fits an \<open>int\<close> and a non-empty array whose
fixed entries have a product below \<open>2\<^sup>3\<^sup>1\<close> reports \<open>MPI_ERR_DIMS\<close> when an entry is negative, when more than
\<open>MAX_DIMS\<close> (20) entries are free, and when the fixed entries do not divide \<open>nnodes\<close>. Otherwise it keeps the
fixed entries and fills the free ones with positive, non-increasing numbers so that, if there is a free
one, the product of all is \<open>nnodes\<close>.\<close>

theorem MPI_Dims_create_correct:
  assumes "0 < nnodes" "nnodes < 2 ^ 31" "dims \<noteq> []" "fixed_product dims < 2 ^ 31"
  shows "if \<exists>d\<in>set dims. d < 0 then
      MPI_Dims_create nnodes (int (length dims)) (Some dims) = Some (Inl (MPIU_ERR_CREATE MPI_ERR_DIMS ''**argarrayneg''))
    else if MAX_DIMS < free_dims dims then
      MPI_Dims_create nnodes (int (length dims)) (Some dims) = Some (Inl (MPIU_ERR_CREATE MPI_ERR_DIMS ''**dimsmany''))
    else if fixed_product dims dvd nnodes then
      \<exists>ys. MPI_Dims_create nnodes (int (length dims)) (Some dims) = Some (Inr (Some ys)) \<and>
        completes dims ys \<and> (0 \<in> set dims \<longrightarrow> prod_list ys = nnodes) \<and>
        sorted_wrt (\<ge>) (filled dims ys) \<and> (\<forall>y\<in>set (filled dims ys). 1 \<le> y)
    else MPI_Dims_create nnodes (int (length dims)) (Some dims) =
      Some (Inl (MPIU_ERR_CREATE MPI_ERR_DIMS ''**dimspartition''))"
proof -
  have api: "MPI_Dims_create nnodes (int (length dims)) (Some dims) =
    map_option (map_sum id Some) (MPIR_Dims_create nnodes dims)"
    using assms(1,3) by (simp add: MPI_Dims_create_def)
  consider (neg) "\<exists>d\<in>set dims. d < 0" | (many) "\<forall>d\<in>set dims. 0 \<le> d" "MAX_DIMS < free_dims dims"
    | (ok) "\<forall>d\<in>set dims. 0 \<le> d" "free_dims dims \<le> MAX_DIMS" by force
  then show ?thesis
  proof cases
    case neg
    then show ?thesis by (simp add: api MPIR_Dims_create_def scan_dims_negative)
  next
    case many
    then show ?thesis using scan_dims_result [OF many(1), of 1 0] assms(4)
      by (auto simp: api MPIR_Dims_create_def)
  next
    case ok
    have P: "1 \<le> fixed_product dims" by (rule fixed_product_ge_1 [OF ok(1)])
    have scan: "scan_dims dims 0 1 = Inr (free_dims dims, fixed_product dims)"
      using scan_dims_result [OF ok(1), of 1 0] assms(4) by simp
    have zero: "0 \<in> set dims \<longleftrightarrow> free_dims dims \<noteq> 0"
      using free_dims_nonneg by (induction dims) (auto simp: add_nonneg_eq_0_iff)
    have no: "\<not> (\<exists>d\<in>set dims. d < 0)" "\<not> MAX_DIMS < free_dims dims" using ok by auto
    show ?thesis
    proof (cases "fixed_product dims dvd nnodes")
      case False
      then have "MPIR_Dims_create nnodes dims = Some (Inl (MPIU_ERR_CREATE MPI_ERR_DIMS ''**dimspartition''))"
        using scan assms(1) ok(2) P by (simp add: MPIR_Dims_create_def dvd_eq_mod_eq_0)
      with False show ?thesis unfolding if_not_P [OF no(1)] if_not_P [OF no(2)] by (simp add: api)
    next
      case dv: True
      have "\<exists>ys. MPIR_Dims_create nnodes dims = Some (Inr ys) \<and> completes dims ys \<and>
          (0 \<in> set dims \<longrightarrow> prod_list ys = nnodes) \<and> sorted_wrt (\<ge>) (filled dims ys) \<and> (\<forall>y\<in>set (filled dims ys). 1 \<le> y)"
      proof (cases "free_dims dims = 0")
        case True
        then have "MPIR_Dims_create nnodes dims = Some (Inr dims)"
          using scan assms(1) P dv by (simp add: MPIR_Dims_create_def MAX_DIMS_def)
        with True zero completes_full [of dims] show ?thesis by simp
      next
        case False
        then have "0 < free_dims dims" using free_dims_nonneg [of dims] by simp
        from MPIR_Dims_create_result [OF assms(1,2) ok(1) assms(4) ok(2) dv this] show ?thesis by blast
      qed
      then show ?thesis unfolding if_not_P [OF no(1)] if_not_P [OF no(2)] if_P [OF dv] by (auto simp: api)
    qed
  qed
qed

lemma MPI_Dims_create_witness:
  "\<exists>ys. MPI_Dims_create 360 4 (Some [0, 3, 0, 0]) = Some (Inr (Some ys)) \<and>
    completes [0, 3, 0, 0] ys \<and> prod_list ys = 360 \<and> sorted_wrt (\<ge>) (filled [0, 3, 0, 0] ys)"
  using MPI_Dims_create_correct [of 360 "[0, 3, 0, 0]"] by (auto simp: MAX_DIMS_def)

text \<open>C36: \<open>MPIR_Factor\<close> of a number of at least 2 returns, without leaving the table of primes or
the array of 16 factors, its factors in ascending order with their multiplicities; each one is
prime unless it is larger than \<open>997\<^sup>2\<close>.\<close>

theorem MPIR_Factor_correct:
  assumes "2 \<le> n" "n < 2 ^ 31"
  shows "\<exists>fs ndivisors. MPIR_Factor n = Some (fs, ndivisors) \<and>
    n = (\<Prod>f\<leftarrow>fs. val f ^ nat (cnt f)) \<and> ndivisors = (\<Sum>f\<leftarrow>fs. cnt f) \<and> length fs < MAX_FACTORS \<and>
    sorted_wrt (<) (map val fs) \<and>
    (\<forall>f\<in>set fs. 1 \<le> cnt f \<and> (is_prime (val f) \<or> 997\<^sup>2 < val f \<and> cnt f = 1))"
proof -
  obtain fs k where "MPIR_Factor n = Some (fs, k)" "factored n fs k"
    using MPIR_Factor_result [OF assms] by blast
  moreover from this have "length fs < MAX_FACTORS"
    using assms(2) by (intro factors_few) (simp_all add: factored_def)
  ultimately show ?thesis
    by (auto simp: factored_def factors_ok_def value_of_def divisors_of_def)
qed

lemma MPIR_Factor_witness:
  "\<exists>fs ndivisors. MPIR_Factor 2147483647 = Some (fs, ndivisors) \<and>
    (\<Prod>f\<leftarrow>fs. val f ^ nat (cnt f)) = 2147483647 \<and> sorted_wrt (<) (map val fs)"
  using MPIR_Factor_correct [of 2147483647] by fastforce

text \<open>C37: the product of the fixed entries is computed in a 32-bit \<open>int\<close>. For a non-empty array of
non-negative entries, at most \<open>MAX_DIMS\<close> of them free, whose fixed entries have a product divisible by
\<open>2\<^sup>3\<^sup>2\<close>, \<open>MPI_Dims_create\<close> divides by zero for every positive number of nodes instead of reporting an error.\<close>

theorem MPI_Dims_create_overflow:
  assumes "0 < nnodes" "dims \<noteq> []" "\<forall>d\<in>set dims. 0 \<le> d" "free_dims dims \<le> MAX_DIMS" "2 ^ 32 dvd fixed_product dims"
  shows "MPI_Dims_create nnodes (int (length dims)) (Some dims) = None"
proof -
  have "i32 (fixed_product dims) = 0" using assms(5) by (auto simp: i32_def dvd_eq_mod_eq_0 mod_add_left_eq [symmetric])
  then have "scan_dims dims 0 1 = Inr (free_dims dims, 0)"
    using scan_dims_wraps [OF assms(3), of 1 0] by (simp add: i32_def)
  then show ?thesis
    using assms(1,2,4) by (simp add: MPI_Dims_create_def MPIR_Dims_create_def c_mod_def)
qed

lemma MPI_Dims_create_overflow_witness:
  "MPI_Dims_create 8 3 (Some [65536, 65536, 0]) = None \<and> MPI_Dims_create 12 4 (Some [0, 1024, 2048, 6144]) = None"
  using MPI_Dims_create_overflow [of 8 "[65536, 65536, 0]"] MPI_Dims_create_overflow [of 12 "[0, 1024, 2048, 6144]"]
  by (simp add: MAX_DIMS_def)

end
