(* ===== verification/Topology.thy ===== *)
theory Topology
  imports Handles
begin

text \<open>
  Process topologies (\<open>src/mpi/msmpi/api/mpi_topo.cpp\<close>, \<open>src/mpi/msmpi/mpid/topo.cpp\<close>,
  \<open>include/topo.h\<close>): creation of Cartesian and graph topologies, the maps between ranks and
  coordinates, shifts, sub-grids and neighbours, with the argument checks of
  \<open>src/mpi/msmpi/api/mpi_api.h\<close>. Arithmetic on \<open>int\<close> wraps around; \<open>None\<close> is a division by
  zero or an access outside an array.

  A communicator is what one process sees of it: its size, its own rank and the topology put on
  it. The communicators a process holds are a map from handles (the lookup of \<open>CommPool\<close>); what
  the collective calls that make a new communicator return (\<open>MPIR_Comm_copy\<close>, \<open>NMPI_Comm_split\<close>,
  \<open>NMPI_Comm_dup\<close>) is an argument of the creating operations. An array argument that may be null
  is an option, and an output pointer is represented by a boolean saying that it is not null.
\<close>

subsection \<open>Data\<close>

record MPIR_Graph_topology =
  g_nnodes :: int
  g_nedges :: int
  g_index :: "int list"
  g_edges :: "int list"

record MPIR_Cart_topology =
  nnodes :: int
  ndims :: int
  dims :: "int list"
  periodic :: "int list"
  position :: "int list"

record MPIR_Dist_graph_topology =
  indegree :: int
  ins :: "int list"
  in_weights :: "int list"
  outdegree :: int
  outs :: "int list"
  out_weights :: "int list"
  is_weighted :: bool

datatype MPIR_Topology =
    Cart_topo MPIR_Cart_topology
  | Graph_topo MPIR_Graph_topology
  | Dist_graph_topo MPIR_Dist_graph_topology

datatype topo_kind = MPI_GRAPH | MPI_CART | MPI_DIST_GRAPH

fun topology_kind :: "MPIR_Topology \<Rightarrow> topo_kind" where
  "topology_kind (Cart_topo _) = MPI_CART"
| "topology_kind (Graph_topo _) = MPI_GRAPH"
| "topology_kind (Dist_graph_topo _) = MPI_DIST_GRAPH"

record MPID_Comm =
  remote_size :: int
  comm_rank :: int
  inter_comm :: bool
  comm_topo :: "MPIR_Topology option"

type_synonym comm_pool = "handle \<rightharpoonup> MPID_Comm"

subsection \<open>Argument checks\<close>

definition MpiaCommValidateHandle :: "comm_pool \<Rightarrow> handle \<Rightarrow> mpi_error + MPID_Comm" where
  "MpiaCommValidateHandle pool h =
     (case pool h of None \<Rightarrow> Inl (MPIU_ERR_CREATE MPI_ERR_COMM ''**comm'') | Some c \<Rightarrow> Inr c)"

definition MpiaCommValidateIntracomm :: "comm_pool \<Rightarrow> handle \<Rightarrow> mpi_error + MPID_Comm" where
  "MpiaCommValidateIntracomm pool h =
     (case pool h of None \<Rightarrow> Inl (MPIU_ERR_CREATE MPI_ERR_COMM ''**comm'')
      | Some c \<Rightarrow> if inter_comm c then Inl (MPIU_ERR_CREATE MPI_ERR_COMM ''**commnotintra'') else Inr c)"

definition MpiaCommValidateRank :: "MPID_Comm \<Rightarrow> int \<Rightarrow> mpi_error + unit" where
  "MpiaCommValidateRank c r =
     (if r < 0 \<or> r \<ge> remote_size c then Inl (MPIU_ERR_CREATE MPI_ERR_RANK ''**rank'') else Inr ())"

definition MpiaCommValidateTopology :: "MPID_Comm \<Rightarrow> topo_kind \<Rightarrow> mpi_error + MPIR_Topology" where
  "MpiaCommValidateTopology c kind =
     (case comm_topo c of
        None \<Rightarrow> Inl (MPIU_ERR_CREATE MPI_ERR_TOPOLOGY ''**notopology'')
      | Some t \<Rightarrow>
          if topology_kind t \<noteq> kind then
            if kind = MPI_CART then Inl (MPIU_ERR_CREATE MPI_ERR_TOPOLOGY ''**notcarttopo'')
            else Inl (MPIU_ERR_CREATE MPI_ERR_TOPOLOGY ''**notgraphtopo'')
          else Inr t)"

definition fail :: "mpi_class \<Rightarrow> string \<Rightarrow> 'a outcome" where
  "fail c key = Some (Inl (MPIU_ERR_CREATE c key))"

text \<open>The pattern \<open>mpi_errno = ...; if (mpi_errno != MPI_SUCCESS) goto fn_fail\<close>.\<close>

definition check :: "mpi_error + 'a \<Rightarrow> ('a \<Rightarrow> 'b outcome) \<Rightarrow> 'b outcome" where
  "check r k = (case r of Inl e \<Rightarrow> Some (Inl e) | Inr v \<Rightarrow> k v)"

text \<open>A communicator with a Cartesian topology, or the error.\<close>

definition with_cart ::
  "MPID_Comm \<Rightarrow> (MPIR_Cart_topology \<Rightarrow> 'a outcome) \<Rightarrow> 'a outcome" where
  "with_cart c k = check (MpiaCommValidateTopology c MPI_CART)
     (\<lambda>t. case t of Cart_topo cart \<Rightarrow> k cart | _ \<Rightarrow> None)"

definition with_graph ::
  "MPID_Comm \<Rightarrow> (MPIR_Graph_topology \<Rightarrow> 'a outcome) \<Rightarrow> 'a outcome" where
  "with_graph c k = check (MpiaCommValidateTopology c MPI_GRAPH)
     (\<lambda>t. case t of Graph_topo g \<Rightarrow> k g | _ \<Rightarrow> None)"

definition MPI_Topo_test :: "comm_pool \<Rightarrow> handle \<Rightarrow> bool \<Rightarrow> topo_kind option outcome" where
  "MPI_Topo_test pool h status =
     check (MpiaCommValidateHandle pool h) (\<lambda>c.
       if \<not> status then fail MPI_ERR_ARG ''**nullptr''
       else Some (Inr (map_option topology_kind (comm_topo c))))"

subsection \<open>Ranks and coordinates\<close>

text \<open>
  The loop that splits a rank into coordinates, in \<open>MPI_Cart_coords\<close>, \<open>MPIR_Cart_create\<close> and
  \<open>MPI_Cart_sub\<close>: \<open>n = n / dims[i]; out[i] = rank / n; rank = rank % n\<close>.
\<close>

fun coords_loop :: "int list \<Rightarrow> int list \<Rightarrow> int \<Rightarrow> int \<Rightarrow> int list \<Rightarrow> int list option" where
  "coords_loop ds [] n r out = Some out"
| "coords_loop ds (i # is) n r out = do {
     d \<leftarrow> rd ds i;
     n' \<leftarrow> c_div n d;
     q \<leftarrow> c_div r n';
     out' \<leftarrow> wr out i q;
     r' \<leftarrow> c_mod r n';
     coords_loop ds is n' r' out'
   }"

text \<open>The caller's array \<open>coords\<close> has \<open>maxdims\<close> entries.\<close>

definition MPI_Cart_coords ::
  "comm_pool \<Rightarrow> handle \<Rightarrow> int \<Rightarrow> int \<Rightarrow> int list option \<Rightarrow> int list option outcome" where
  "MPI_Cart_coords pool h r maxdims coords =
     check (MpiaCommValidateHandle pool h) (\<lambda>c. with_cart c (\<lambda>cart.
       if ndims cart > maxdims then fail MPI_ERR_ARG ''**dimsmany''
       else if ndims cart \<noteq> 0 \<and> coords = None then fail MPI_ERR_ARG ''**nullptr''
       else check (MpiaCommValidateRank c r) (\<lambda>_.
         case coords of
           None \<Rightarrow> Some (Inr None)
         | Some out \<Rightarrow>
             map_option (\<lambda>out'. Inr (Some out'))
               (coords_loop (dims cart) [0..ndims cart - 1] (nnodes cart) r out))))"

text \<open>"Validate coordinates": the index of the first bad one is not part of the model's error.\<close>

fun check_coords :: "MPIR_Cart_topology \<Rightarrow> int list \<Rightarrow> int list \<Rightarrow> unit outcome" where
  "check_coords cart coords [] = Some (Inr ())"
| "check_coords cart coords (i # is) = do {
     p \<leftarrow> rd (periodic cart) i;
     if p = 0 then do {
       x \<leftarrow> rd coords i;
       d \<leftarrow> rd (dims cart) i;
       if x < 0 \<or> x \<ge> d then fail MPI_ERR_ARG ''**cartcoordinvalid''
       else check_coords cart coords is
     } else check_coords cart coords is
   }"

definition wrap_coord :: "int \<Rightarrow> int \<Rightarrow> int option" where
  "wrap_coord x d =
     (if x \<ge> d then c_mod x d
      else if x < 0 then do {
        m \<leftarrow> c_mod x d;
        Some (if m \<noteq> 0 then i32 (d + m) else m)
      } else Some x)"

fun rank_loop ::
  "MPIR_Cart_topology \<Rightarrow> int list \<Rightarrow> int list \<Rightarrow> int \<Rightarrow> int \<Rightarrow> int option" where
  "rank_loop cart coords [] r multiplier = Some r"
| "rank_loop cart coords (i # is) r multiplier = do {
     x \<leftarrow> rd coords i;
     p \<leftarrow> rd (periodic cart) i;
     d \<leftarrow> rd (dims cart) i;
     x' \<leftarrow> (if p \<noteq> 0 then wrap_coord x d else Some x);
     rank_loop cart coords is (i32 (r + i32 (multiplier * x'))) (i32 (multiplier * d))
   }"

definition MPI_Cart_rank ::
  "comm_pool \<Rightarrow> handle \<Rightarrow> int list option \<Rightarrow> bool \<Rightarrow> int outcome" where
  "MPI_Cart_rank pool h coords pr =
     check (MpiaCommValidateHandle pool h) (\<lambda>c.
       if \<not> pr then fail MPI_ERR_ARG ''**nullptr''
       else with_cart c (\<lambda>cart.
         if ndims cart \<noteq> 0 \<and> coords = None then fail MPI_ERR_ARG ''**nullptr''
         else let cs = (case coords of None \<Rightarrow> [] | Some xs \<Rightarrow> xs) in do {
           ok \<leftarrow> check_coords cart cs [0..ndims cart - 1];
           case ok of Inl e \<Rightarrow> Some (Inl e)
           | Inr _ \<Rightarrow> map_option Inr (rank_loop cart cs (rev [0..ndims cart - 1]) 0 1)
         }))"

text \<open>\<open>MPI_Cart_shift\<close>: \<open>pos\<close> is an array of 16 entries on the stack.\<close>

definition MAX_CART_DIM :: int where "MAX_CART_DIM = 16"

definition shift_one ::
  "comm_pool \<Rightarrow> handle \<Rightarrow> MPIR_Cart_topology \<Rightarrow> int \<Rightarrow> int \<Rightarrow> int option" where
  "shift_one pool h cart direction x = do {
     p \<leftarrow> rd (periodic cart) direction;
     d \<leftarrow> rd (dims cart) direction;
     if p = 0 \<and> (x \<ge> d \<or> x < 0) then Some MPI_PROC_NULL
     else do {
       pos \<leftarrow> wr (take (nat (ndims cart)) (position cart)) direction x;
       r \<leftarrow> MPI_Cart_rank pool h (Some pos) True;
       case r of Inl e \<Rightarrow> None | Inr v \<Rightarrow> Some v
     }
   }"

definition MPI_Cart_shift ::
  "comm_pool \<Rightarrow> handle \<Rightarrow> int \<Rightarrow> int \<Rightarrow> bool \<Rightarrow> bool \<Rightarrow> (int \<times> int) outcome" where
  "MPI_Cart_shift pool h direction disp psource pdest =
     check (MpiaCommValidateHandle pool h) (\<lambda>c.
       if \<not> psource then fail MPI_ERR_ARG ''**nullptr''
       else if \<not> pdest then fail MPI_ERR_ARG ''**nullptr''
       else if direction < 0 then fail MPI_ERR_ARG ''**argneg''
       else with_cart c (\<lambda>cart.
         if ndims cart = 0 then fail MPI_ERR_TOPOLOGY ''**dimszero''
         else if direction \<ge> ndims cart then fail MPI_ERR_ARG ''**dimsmany''
         else if disp = 0 then Some (Inr (comm_rank c, comm_rank c))
         else if ndims cart > MAX_CART_DIM then None
         else do {
           x \<leftarrow> rd (position cart) direction;
           dest \<leftarrow> shift_one pool h cart direction (i32 (x + disp));
           source \<leftarrow> shift_one pool h cart direction (i32 (x - disp));
           Some (Inr (source, dest))
         }))"

definition MPI_Cartdim_get :: "comm_pool \<Rightarrow> handle \<Rightarrow> bool \<Rightarrow> int outcome" where
  "MPI_Cartdim_get pool h pnd =
     check (MpiaCommValidateHandle pool h) (\<lambda>c.
       if \<not> pnd then fail MPI_ERR_ARG ''**nullptr''
       else with_cart c (\<lambda>cart. Some (Inr (ndims cart))))"

text \<open>\<open>CopyMemory(dst, src, n * sizeof(int))\<close>.\<close>

definition copy_ints :: "int list option \<Rightarrow> int list \<Rightarrow> int \<Rightarrow> int list option option" where
  "copy_ints dst src n =
     (if n = 0 then Some dst
      else case dst of
        None \<Rightarrow> None
      | Some a \<Rightarrow> if n \<le> int (length a) \<and> n \<le> int (length src)
                  then Some (Some (take (nat n) src @ drop (nat n) a)) else None)"

definition MPI_Cart_get ::
  "comm_pool \<Rightarrow> handle \<Rightarrow> int \<Rightarrow> int list option \<Rightarrow> int list option \<Rightarrow> int list option \<Rightarrow>
   (int list option \<times> int list option \<times> int list option) outcome" where
  "MPI_Cart_get pool h maxdims pdims periods coords =
     check (MpiaCommValidateHandle pool h) (\<lambda>c. with_cart c (\<lambda>cart.
       if ndims cart > maxdims then fail MPI_ERR_ARG ''**dimsmany''
       else if ndims cart \<noteq> 0 \<and> (pdims = None \<or> periods = None \<or> coords = None)
         then fail MPI_ERR_ARG ''**nullptr''
       else do {
         d \<leftarrow> copy_ints pdims (dims cart) (ndims cart);
         p \<leftarrow> copy_ints periods (periodic cart) (ndims cart);
         x \<leftarrow> copy_ints coords (position cart) (ndims cart);
         Some (Inr (d, p, x))
       }))"

subsection \<open>Creating Cartesian topologies\<close>

text \<open>\<open>for (i=0; i<ndims; i++) p *= dims[i]\<close>.\<close>

fun product_loop :: "int list \<Rightarrow> int list \<Rightarrow> int \<Rightarrow> int option" where
  "product_loop ds [] p = Some p"
| "product_loop ds (i # is) p = do { d \<leftarrow> rd ds i; product_loop ds is (i32 (p * d)) }"

definition MPIR_Cart_map :: "MPID_Comm \<Rightarrow> int \<Rightarrow> int list \<Rightarrow> int outcome" where
  "MPIR_Cart_map c nd ds = do {
     nranks \<leftarrow> (if nd = 0 then Some 1 else do { d0 \<leftarrow> rd ds 0; product_loop ds [1..nd - 1] d0 });
     if remote_size c < nranks then fail MPI_ERR_DIMS ''**topotoolarge''
     else Some (Inr (if comm_rank c < nranks then comm_rank c else MPI_UNDEFINED))
   }"

definition MPI_Cart_map ::
  "comm_pool \<Rightarrow> handle \<Rightarrow> int \<Rightarrow> int list option \<Rightarrow> bool \<Rightarrow> int outcome" where
  "MPI_Cart_map pool h nd pdims newrank =
     check (MpiaCommValidateHandle pool h) (\<lambda>c.
       if \<not> newrank then fail MPI_ERR_ARG ''**nullptr''
       else case pdims of
         None \<Rightarrow> fail MPI_ERR_ARG ''**nullptr''
       | Some ds \<Rightarrow> if nd < 0 then fail MPI_ERR_DIMS ''**dims'' else MPIR_Cart_map c nd ds)"

text \<open>
  What the collective calls answer on this process: \<open>MPIR_Comm_copy comm size\<close> and
  \<open>NMPI_Comm_split comm color key\<close> give an error or the new communicator (\<open>None\<close> for
  \<open>MPI_COMM_NULL\<close>), \<open>NMPI_Comm_dup MPI_COMM_SELF\<close> an error or a communicator; and whether the
  allocation of the topology and \<open>MPIR_Topology_put\<close> succeed.
\<close>

record creation =
  comm_copy :: "int \<Rightarrow> mpi_error + MPID_Comm option"
  comm_split :: "int \<Rightarrow> int \<Rightarrow> mpi_error + MPID_Comm option"
  dup_self :: "mpi_error + MPID_Comm"
  malloc_topo :: bool
  topology_put :: "mpi_error + unit"

text \<open>"Place this topology onto the communicator".\<close>

definition put_topology ::
  "creation \<Rightarrow> MPID_Comm \<Rightarrow> MPIR_Topology \<Rightarrow> MPID_Comm option outcome" where
  "put_topology env nc t =
     check (topology_put env) (\<lambda>_. Some (Inr (Some (nc\<lparr>comm_topo := Some t\<rparr>))))"

definition MPIR_Cart_create ::
  "creation \<Rightarrow> MPID_Comm \<Rightarrow> int \<Rightarrow> int list \<Rightarrow> int list \<Rightarrow> bool \<Rightarrow> MPID_Comm option outcome" where
  "MPIR_Cart_create env c nd ds periods reorder = do {
     newsize \<leftarrow> product_loop ds [0..nd - 1] 1;
     if newsize > remote_size c then fail MPI_ERR_ARG ''**cartdim''
     else if nd = 0 then
       if comm_rank c \<noteq> 0 then Some (Inr None)
       else check (dup_self env) (\<lambda>nc.
         if \<not> malloc_topo env then Some (Inl MPIU_ERR_NOMEM)
         else put_topology env nc (Cart_topo
           \<lparr>nnodes = 1, ndims = 0, dims = [], periodic = [], position = []\<rparr>))
     else do {
       made \<leftarrow> (if reorder then do {
                  m \<leftarrow> MPIR_Cart_map c nd ds;
                  check m (\<lambda>r. check (comm_split env (if r = MPI_UNDEFINED then MPI_UNDEFINED else 1) r)
                    (\<lambda>nc. Some (Inr (r, nc))))
                } else check (comm_copy env newsize) (\<lambda>nc. Some (Inr (comm_rank c, nc))));
       check made (\<lambda>(r, newcomm).
         if r \<ge> newsize \<or> r = MPI_UNDEFINED then Some (Inr None)
         else case newcomm of
           None \<Rightarrow> None
         | Some nc \<Rightarrow>
             if \<not> malloc_topo env then Some (Inl MPIU_ERR_NOMEM)
             else do {
               pos \<leftarrow> coords_loop ds [0..nd - 1] newsize r (replicate (nat nd) 0);
               ps \<leftarrow> (if nd \<le> int (length periods) then Some (take (nat nd) periods) else None);
               put_topology env nc (Cart_topo
                 \<lparr>nnodes = newsize, ndims = nd, dims = take (nat nd) ds, periodic = ps,
                  position = pos\<rparr>)
             })
     }
   }"

definition MPI_Cart_create ::
  "creation \<Rightarrow> comm_pool \<Rightarrow> handle \<Rightarrow> int \<Rightarrow> int list option \<Rightarrow> int list option \<Rightarrow> bool \<Rightarrow> bool \<Rightarrow>
   MPID_Comm option outcome" where
  "MPI_Cart_create env pool h nd pdims pperiods reorder comm_cart =
     check (MpiaCommValidateIntracomm pool h) (\<lambda>c.
       if \<not> comm_cart then fail MPI_ERR_ARG ''**nullptr''
       else if nd < 0 then fail MPI_ERR_ARG ''**argneg''
       else if nd > 0 \<and> (pdims = None \<or> pperiods = None) then fail MPI_ERR_ARG ''**nullptr''
       else MPIR_Cart_create env c nd (case pdims of None \<Rightarrow> [] | Some ds \<Rightarrow> ds)
              (case pperiods of None \<Rightarrow> [] | Some ps \<Rightarrow> ps) reorder)"

subsection \<open>Sub-grids\<close>

fun count_remaining :: "int list \<Rightarrow> int list \<Rightarrow> int list \<Rightarrow> int \<times> int \<Rightarrow> (int \<times> int) option" where
  "count_remaining remain ds [] st = Some st"
| "count_remaining remain ds (i # is) (k, n) = do {
     b \<leftarrow> rd remain i;
     if b \<noteq> 0 then do { d \<leftarrow> rd ds i; count_remaining remain ds is (k + 1, i32 (n * d)) }
     else count_remaining remain ds is (k, n)
   }"

fun color_key :: "MPIR_Cart_topology \<Rightarrow> int list \<Rightarrow> int list \<Rightarrow> int \<times> int \<Rightarrow> (int \<times> int) option" where
  "color_key cart remain [] st = Some st"
| "color_key cart remain (i # is) (color, key) = do {
     b \<leftarrow> rd remain i;
     d \<leftarrow> rd (dims cart) i;
     x \<leftarrow> rd (position cart) i;
     if b \<noteq> 0 then color_key cart remain is (color, i32 (i32 (key * d) + x))
     else color_key cart remain is (i32 (i32 (color * d) + x), key)
   }"

text \<open>The kept dimensions and their periods.\<close>

fun kept_dims :: "MPIR_Cart_topology \<Rightarrow> int list \<Rightarrow> int list \<Rightarrow> (int list \<times> int list) option" where
  "kept_dims cart remain [] = Some ([], [])"
| "kept_dims cart remain (i # is) = do {
     b \<leftarrow> rd remain i;
     if b \<noteq> 0 then do {
       d \<leftarrow> rd (dims cart) i;
       p \<leftarrow> rd (periodic cart) i;
       (ds, ps) \<leftarrow> kept_dims cart remain is;
       Some (d # ds, p # ps)
     } else kept_dims cart remain is
   }"

fun all_false :: "int list \<Rightarrow> int list \<Rightarrow> bool option" where
  "all_false remain [] = Some True"
| "all_false remain (i # is) = do {
     b \<leftarrow> rd remain i;
     if b \<noteq> 0 then Some False else all_false remain is
   }"

definition sub_topology ::
  "MPIR_Cart_topology \<Rightarrow> int list \<Rightarrow> int \<Rightarrow> MPIR_Cart_topology option" where
  "sub_topology cart remain r = do {
     (nsub, nn) \<leftarrow> count_remaining remain (dims cart) [0..ndims cart - 1] (0, 1);
     (ds, ps) \<leftarrow> kept_dims cart remain [0..ndims cart - 1];
     pos \<leftarrow> coords_loop ds [0..nsub - 1] nn r (replicate (nat nsub) 0);
     Some \<lparr>nnodes = nn, ndims = nsub, dims = ds, periodic = ps, position = pos\<rparr>
   }"

text \<open>
  When the split gives no communicator the code goes to \<open>fn_fail\<close> with \<open>MPI_SUCCESS\<close>; \<open>MPIU_ERR_GET\<close>
  there creates an error of class \<open>MPI_ERR_OTHER\<close> on top of any code, and the call returns it.
\<close>

definition MPI_Cart_sub ::
  "creation \<Rightarrow> comm_pool \<Rightarrow> handle \<Rightarrow> int list option \<Rightarrow> bool \<Rightarrow> MPID_Comm option outcome" where
  "MPI_Cart_sub env pool h premain newcomm =
     check (MpiaCommValidateHandle pool h) (\<lambda>c.
       if \<not> newcomm then fail MPI_ERR_ARG ''**nullptr''
       else with_cart c (\<lambda>cart.
         if ndims cart > 0 \<and> premain = None then fail MPI_ERR_ARG ''**nullptr''
         else let remain = (case premain of None \<Rightarrow> [] | Some r \<Rightarrow> r) in do {
           none \<leftarrow> all_false remain [0..ndims cart - 1];
           if none then MPIR_Cart_create env c 0 [] [] False
           else do {
             (color, key) \<leftarrow> color_key cart remain [0..ndims cart - 1] (0, 0);
             check (comm_split env color key) (\<lambda>made. case made of
               None \<Rightarrow> fail MPI_ERR_OTHER ''**mpi_cart_sub''
             | Some nc \<Rightarrow>
                 if \<not> malloc_topo env then Some (Inl MPIU_ERR_NOMEM)
                 else do {
                   t \<leftarrow> sub_topology cart remain (comm_rank nc);
                   put_topology env nc (Cart_topo t)
                 })
           }
         }))"

subsection \<open>Graph topologies\<close>

definition MPIR_Graph_map :: "MPID_Comm \<Rightarrow> int \<Rightarrow> int" where
  "MPIR_Graph_map c nn = (if comm_rank c < nn then comm_rank c else MPI_UNDEFINED)"

definition MPI_Graph_map ::
  "comm_pool \<Rightarrow> handle \<Rightarrow> int \<Rightarrow> int list option \<Rightarrow> int list option \<Rightarrow> bool \<Rightarrow> int outcome" where
  "MPI_Graph_map pool h nn pindex pedges newrank =
     check (MpiaCommValidateIntracomm pool h) (\<lambda>c.
       if \<not> newrank \<or> pindex = None \<or> pedges = None then fail MPI_ERR_ARG ''**nullptr''
       else if nn < 1 then fail MPI_ERR_ARG ''**argnonpos''
       else if remote_size c < nn then fail MPI_ERR_ARG ''**graphnnodes''
       else Some (Inr (MPIR_Graph_map c nn)))"

text \<open>"Check that index is monotone nondecreasing".\<close>

fun check_index :: "int list \<Rightarrow> int \<Rightarrow> int list \<Rightarrow> unit outcome" where
  "check_index index nn [] = Some (Inr ())"
| "check_index index nn (i # is) = do {
     x \<leftarrow> rd index i;
     if x < 0 then fail MPI_ERR_ARG ''**indexneg''
     else if i + 1 < nn then do {
       y \<leftarrow> rd index (i + 1);
       if x > y then fail MPI_ERR_ARG ''**indexnonmonotone'' else check_index index nn is
     } else check_index index nn is
   }"

text \<open>"Check that edge number is in range".\<close>

fun check_edges :: "int list \<Rightarrow> int \<Rightarrow> int list \<Rightarrow> unit outcome" where
  "check_edges edges comm_size [] = Some (Inr ())"
| "check_edges edges comm_size (i # is) = do {
     e \<leftarrow> rd edges i;
     if e > comm_size \<or> e < 0 then fail MPI_ERR_ARG ''**edgeoutrange''
     else check_edges edges comm_size is
   }"

text \<open>\<open>for (i=0; i<n; i++) dst[i] = src[i]\<close> into a fresh array of \<open>n\<close> entries.\<close>

fun copy_array :: "int list \<Rightarrow> int list \<Rightarrow> int list option" where
  "copy_array src [] = Some []"
| "copy_array src (i # is) = do { x \<leftarrow> rd src i; xs \<leftarrow> copy_array src is; Some (x # xs) }"

definition MPIR_Graph_create ::
  "creation \<Rightarrow> MPID_Comm \<Rightarrow> int \<Rightarrow> int list \<Rightarrow> int list \<Rightarrow> bool \<Rightarrow> MPID_Comm option outcome" where
  "MPIR_Graph_create env c nn index edges reorder =
     check (if reorder
            then let r = MPIR_Graph_map c nn
                 in comm_split env (if r = MPI_UNDEFINED then MPI_UNDEFINED else 1) r
            else comm_copy env nn)
       (\<lambda>made. case made of
          None \<Rightarrow> Some (Inr None)
        | Some nc \<Rightarrow> do {
            nedges \<leftarrow> rd index (nn - 1);
            if \<not> malloc_topo env then Some (Inl MPIU_ERR_NOMEM)
            else do {
              ix \<leftarrow> copy_array index [0..nn - 1];
              es \<leftarrow> copy_array edges [0..nedges - 1];
              put_topology env nc (Graph_topo
                \<lparr>g_nnodes = nn, g_nedges = nedges, g_index = ix, g_edges = es\<rparr>)
            }
          })"

definition MPI_Graph_create ::
  "creation \<Rightarrow> comm_pool \<Rightarrow> handle \<Rightarrow> int \<Rightarrow> int list option \<Rightarrow> int list option \<Rightarrow> bool \<Rightarrow> bool \<Rightarrow>
   MPID_Comm option outcome" where
  "MPI_Graph_create env pool h nn pindex pedges reorder comm_graph =
     check (MpiaCommValidateIntracomm pool h) (\<lambda>c.
       if nn < 0 then fail MPI_ERR_ARG ''**argneg''
       else if nn > 0 \<and> (pindex = None \<or> pedges = None) then fail MPI_ERR_ARG ''**nullptr''
       else if \<not> comm_graph then fail MPI_ERR_ARG ''**nullptr''
       else if nn > remote_size c then fail MPI_ERR_ARG ''**topotoolarge''
       else let index = (case pindex of None \<Rightarrow> [] | Some xs \<Rightarrow> xs);
                edges = (case pedges of None \<Rightarrow> [] | Some xs \<Rightarrow> xs) in do {
         ok1 \<leftarrow> check_index index nn [0..nn - 1];
         check ok1 (\<lambda>_. do {
           ok2 \<leftarrow> (if nn > 0 then do {
                     m \<leftarrow> rd index (nn - 1);
                     check_edges edges (remote_size c) [0..m - 1]
                   } else Some (Inr ()));
           check ok2 (\<lambda>_.
             if nn = 0 then Some (Inr None) else MPIR_Graph_create env c nn index edges reorder)
         })
       })"

definition MPI_Graphdims_get ::
  "comm_pool \<Rightarrow> handle \<Rightarrow> bool \<Rightarrow> bool \<Rightarrow> (int \<times> int) outcome" where
  "MPI_Graphdims_get pool h pnodes pedges =
     check (MpiaCommValidateHandle pool h) (\<lambda>c.
       if \<not> pnodes \<or> \<not> pedges then fail MPI_ERR_ARG ''**nullptr''
       else with_graph c (\<lambda>g. Some (Inr (g_nnodes g, g_nedges g))))"

definition MPI_Graph_get ::
  "comm_pool \<Rightarrow> handle \<Rightarrow> int \<Rightarrow> int \<Rightarrow> int list option \<Rightarrow> int list option \<Rightarrow>
   (int list option \<times> int list option) outcome" where
  "MPI_Graph_get pool h maxindex maxedges index edges =
     check (MpiaCommValidateHandle pool h) (\<lambda>c.
       if edges = None \<or> index = None then fail MPI_ERR_ARG ''**nullptr''
       else with_graph c (\<lambda>g.
         if g_nnodes g > maxindex then fail MPI_ERR_ARG ''**argrange''
         else if g_nedges g > maxedges then fail MPI_ERR_ARG ''**argrange''
         else do {
           ix \<leftarrow> copy_ints index (g_index g) (g_nnodes g);
           es \<leftarrow> copy_ints edges (g_edges g) (g_nedges g);
           Some (Inr (ix, es))
         }))"

text \<open>The neighbours written to the caller's array, in order.\<close>

definition MPI_Graph_neighbors ::
  "comm_pool \<Rightarrow> handle \<Rightarrow> int \<Rightarrow> int \<Rightarrow> bool \<Rightarrow> int list outcome" where
  "MPI_Graph_neighbors pool h r maxneighbors neighbors =
     check (MpiaCommValidateHandle pool h) (\<lambda>c.
       if \<not> neighbors then fail MPI_ERR_ARG ''**nullptr''
       else with_graph c (\<lambda>g.
         if r < 0 \<or> r \<ge> g_nnodes g then fail MPI_ERR_RANK ''**rank''
         else do {
           iStart \<leftarrow> (if r = 0 then Some 0 else rd (g_index g) (r - 1));
           iEnd \<leftarrow> rd (g_index g) r;
           if i32 (iEnd - iStart) > maxneighbors then fail MPI_ERR_ARG ''**neighborsmany''
           else map_option Inr (copy_array (g_edges g) [iStart..iEnd - 1])
         }))"

definition MPI_Graph_neighbors_count ::
  "comm_pool \<Rightarrow> handle \<Rightarrow> int \<Rightarrow> bool \<Rightarrow> int outcome" where
  "MPI_Graph_neighbors_count pool h r nneighbors =
     check (MpiaCommValidateHandle pool h) (\<lambda>c.
       if \<not> nneighbors then fail MPI_ERR_ARG ''**nullptr''
       else with_graph c (\<lambda>g.
         if r < 0 \<or> r \<ge> g_nnodes g then fail MPI_ERR_RANK ''**rank''
         else do {
           e \<leftarrow> rd (g_index g) r;
           if r = 0 then Some (Inr e)
           else do { b \<leftarrow> rd (g_index g) (r - 1); Some (Inr (i32 (e - b))) }
         }))"

end
