(* ===== verification/Cart_Grid.thy ===== *)
theory Cart_Grid
  imports Topology
begin

text \<open>
  Cartesian grids: the ranks of a grid are the mixed-radix numbers of its coordinates. The
  reference functions \<open>grid_rank\<close> and \<open>grid_coords\<close> are inverse to each other; the loops of
  \<open>mpi_topo.cpp\<close> compute them.
\<close>

subsection \<open>Ranks and coordinates of a grid\<close>

fun grid_rank :: "int list \<Rightarrow> int list \<Rightarrow> int" where
  "grid_rank (d # ds) (x # xs) = x * prod_list ds + grid_rank ds xs"
| "grid_rank _ _ = 0"

fun grid_coords :: "int list \<Rightarrow> int \<Rightarrow> int list" where
  "grid_coords [] r = []"
| "grid_coords (d # ds) r = (r div prod_list ds) # grid_coords ds (r mod prod_list ds)"

definition in_grid :: "int list \<Rightarrow> int list \<Rightarrow> bool" where
  "in_grid ds xs \<longleftrightarrow> list_all2 (\<lambda>d x. 0 \<le> x \<and> x < d) ds xs"

definition grid_ok :: "int list \<Rightarrow> bool" where
  "grid_ok ds \<longleftrightarrow> (\<forall>d\<in>set ds. 1 \<le> d)"

lemma grid_ok_simps [simp]: "grid_ok []" "grid_ok (d # ds) \<longleftrightarrow> 1 \<le> d \<and> grid_ok ds"
  by (auto simp: grid_ok_def)

lemma grid_ok_drop: "grid_ok ds \<Longrightarrow> grid_ok (drop k ds)"
  by (auto simp: grid_ok_def dest: in_set_dropD)

lemma in_grid_simps [simp]:
  "in_grid [] xs \<longleftrightarrow> xs = []" "in_grid (d # ds) (x # xs) \<longleftrightarrow> 0 \<le> x \<and> x < d \<and> in_grid ds xs"
  by (simp_all add: in_grid_def)

lemma in_grid_Cons: "in_grid (d # ds) ys \<longleftrightarrow> (\<exists>x xs. ys = x # xs \<and> 0 \<le> x \<and> x < d \<and> in_grid ds xs)"
  by (cases ys) (auto simp: in_grid_def)

lemma in_grid_length: "in_grid ds xs \<Longrightarrow> length xs = length ds"
  by (simp add: in_grid_def list_all2_lengthD)

lemma in_grid_nth: "in_grid ds xs \<longleftrightarrow> length xs = length ds \<and> (\<forall>i<length ds. 0 \<le> xs ! i \<and> xs ! i < ds ! i)"
  by (auto simp: in_grid_def list_all2_conv_all_nth)

lemma grid_size_pos: "grid_ok ds \<Longrightarrow> 1 \<le> prod_list ds"
  by (induction ds) (auto intro: order_trans mult_mono [of 1 _ 1, simplified])

lemma grid_rank_range: "in_grid ds xs \<Longrightarrow> 0 \<le> grid_rank ds xs \<and> grid_rank ds xs < prod_list ds"
proof (induction ds arbitrary: xs)
  case (Cons d ds)
  then obtain y ys where xs: "xs = y # ys" "0 \<le> y" "y + 1 \<le> d" and ys: "in_grid ds ys"
    by (auto simp: in_grid_Cons)
  have r: "0 \<le> grid_rank ds ys" "grid_rank ds ys < prod_list ds" using Cons.IH [OF ys] by simp_all
  have "(y + 1) * prod_list ds \<le> d * prod_list ds" using xs(3) r by (intro mult_right_mono) auto
  then have "y * prod_list ds + grid_rank ds ys < d * prod_list ds" using r by (simp add: algebra_simps)
  moreover have "0 \<le> y * prod_list ds" using xs(2) r by (intro mult_nonneg_nonneg) auto
  ultimately show ?case using xs(1) r by simp
qed simp

lemma div_less: "r < d * p \<Longrightarrow> 0 < p \<Longrightarrow> r div p < d" for r :: int
proof (rule ccontr)
  assume a: "r < d * p" "0 < p" "\<not> r div p < d"
  then have "d * p \<le> r div p * p" by (intro mult_right_mono) auto
  moreover have "r div p * p \<le> r" using div_mult_mod_eq [of r p] pos_mod_sign [OF a(2), of r] by linarith
  ultimately show False using a(1) by simp
qed

lemma grid_coords_in_grid:
  "grid_ok ds \<Longrightarrow> 0 \<le> r \<Longrightarrow> r < prod_list ds \<Longrightarrow> in_grid ds (grid_coords ds r)"
proof (induction ds arbitrary: r)
  case (Cons d ds)
  have p: "0 < prod_list ds" using grid_size_pos [of ds] Cons.prems(1) by simp
  with Cons div_less [of r d "prod_list ds"] show ?case by (simp add: pos_imp_zdiv_nonneg_iff)
qed simp

lemma grid_rank_coords:
  "grid_ok ds \<Longrightarrow> 0 \<le> r \<Longrightarrow> r < prod_list ds \<Longrightarrow> grid_rank ds (grid_coords ds r) = r"
proof (induction ds arbitrary: r)
  case (Cons d ds)
  have "0 < prod_list ds" using grid_size_pos [of ds] Cons.prems(1) by simp
  with Cons show ?case by simp
qed simp

lemma grid_coords_rank: "in_grid ds xs \<Longrightarrow> grid_coords ds (grid_rank ds xs) = xs"
proof (induction ds arbitrary: xs)
  case (Cons d ds)
  then obtain y ys where xs: "xs = y # ys" and ys: "in_grid ds ys" by (auto simp: in_grid_Cons)
  have "0 \<le> grid_rank ds ys \<and> grid_rank ds ys < prod_list ds" by (rule grid_rank_range [OF ys])
  with Cons.IH [OF ys] xs show ?case by simp
qed simp

lemma length_grid_coords [simp]: "length (grid_coords ds r) = length ds"
  by (induction ds arbitrary: r) auto

lemma grid_rank_inj: "in_grid ds xs \<Longrightarrow> in_grid ds ys \<Longrightarrow> grid_rank ds xs = grid_rank ds ys \<longleftrightarrow> xs = ys"
  by (metis grid_coords_rank)

subsection \<open>The loops\<close>

lemma coords_loop_from:
  assumes "grid_ok ds" "0 \<le> r" "length ds \<le> length out" "k \<le> length ds" "prod_list (drop k ds) < 2 ^ 31"
  shows "coords_loop ds (map int [k..<length ds]) (prod_list (drop k ds)) r out =
    Some (take k out @ grid_coords (drop k ds) r @ drop (length ds) out)"
  using assms(2-5)
proof (induction "length ds - k" arbitrary: k r out)
  case 0
  then show ?case by simp
next
  case (Suc m)
  then have k: "k < length ds" by simp
  let ?rest = "drop (Suc k) ds" and ?d = "ds ! k"
  have dk: "drop k ds = ?d # ?rest" using k by (rule Cons_nth_drop_Suc [symmetric])
  have d: "1 \<le> ?d" using assms(1) k by (simp add: grid_ok_def)
  have p: "1 \<le> prod_list ?rest" by (rule grid_size_pos [OF grid_ok_drop [OF assms(1)]])
  have "1 * prod_list ?rest \<le> ?d * prod_list ?rest" using d p by (intro mult_right_mono) auto
  then have small: "prod_list ?rest < 2 ^ 31" using Suc.prems(4) dk by simp
  let ?q = "r div prod_list ?rest" and ?r = "r mod prod_list ?rest"
  have step: "coords_loop ds (map int [k..<length ds]) (prod_list (drop k ds)) r out =
    coords_loop ds (map int [Suc k..<length ds]) (prod_list ?rest) ?r (out[k := ?q])"
    using k d p Suc.prems(1,2) dk by (simp add: upt_conv_Cons del: rd_eq_Some wr_eq_Some)
  also have "\<dots> = Some (take (Suc k) (out[k := ?q]) @ grid_coords ?rest ?r @ drop (length ds) (out[k := ?q]))"
    using Suc.hyps(2) Suc.prems k small p by (intro Suc.hyps(1)) auto
  also have "take (Suc k) (out[k := ?q]) = take k out @ [?q]"
    using k Suc.prems(2) by (simp add: take_Suc_conv_app_nth)
  finally show ?case using k dk by simp
qed

lemma coords_loop_result:
  assumes "grid_ok ds" "0 \<le> r" "length ds \<le> length out" "prod_list ds < 2 ^ 31" "nd = int (length ds)"
  shows "coords_loop ds [0..nd - 1] (prod_list ds) r out = Some (grid_coords ds r @ drop (length ds) out)"
  using coords_loop_from [of ds r out 0] assms by (simp add: index_range)

subsection \<open>Wrapping periodic coordinates\<close>

definition norm_coord :: "int \<Rightarrow> int \<Rightarrow> int \<Rightarrow> int" where
  "norm_coord d p x = (if p \<noteq> 0 then x mod d else x)"

definition norm_coords :: "int list \<Rightarrow> int list \<Rightarrow> int list \<Rightarrow> int list" where
  "norm_coords ds ps xs = map (\<lambda>(d, p, x). norm_coord d p x) (zip ds (zip ps xs))"

lemma smod_neg: "x < 0 \<Longrightarrow> 0 < d \<Longrightarrow> x smod d = (if x mod d = 0 then 0 else x mod d - d)" for x d :: int
proof -
  assume a: "x < 0" "0 < d"
  have "x smod d = - (- x mod d)" using a by (simp add: signed_modulo_int_def)
  also have "- x mod d = (if x mod d = 0 then 0 else d - x mod d)"
    by (simp add: zmod_zminus1_eq_if)
  finally show ?thesis by simp
qed

lemma wrap_coord_result:
  assumes "1 \<le> d" "d < 2 ^ 31" "- (2 ^ 31) \<le> x" "x < 2 ^ 31"
  shows "wrap_coord x d = Some (x mod d)"
proof -
  consider "x \<ge> d" | "0 \<le> x" "x < d" | "x < 0" by linarith
  then show ?thesis
  proof cases
    case 1
    then show ?thesis using assms(1) by (simp add: wrap_coord_def)
  next
    case 2
    then show ?thesis by (simp add: wrap_coord_def)
  next
    case 3
    have m: "0 \<le> x mod d" "x mod d < d" using assms(1) by auto
    have "c_mod x d = Some (x smod d)" using assms(1) by (simp add: c_mod_def)
    moreover have "i32 (x mod d) = x mod d" using m assms(2) by (intro i32_id) auto
    ultimately show ?thesis using 3 assms(1) m
      by (simp add: wrap_coord_def smod_neg)
  qed
qed

subsection \<open>The queries on a communicator\<close>

lemma norm_coords_nth:
  "length ps = length ds \<Longrightarrow> length xs = length ds \<Longrightarrow> i < length ds \<Longrightarrow>
   norm_coords ds ps xs ! i = norm_coord (ds ! i) (ps ! i) (xs ! i)"
  by (simp add: norm_coords_def)

lemma length_norm_coords:
  "length ps = length ds \<Longrightarrow> length xs = length ds \<Longrightarrow> length (norm_coords ds ps xs) = length ds"
  by (simp add: norm_coords_def)

definition legal_coords :: "int list \<Rightarrow> int list \<Rightarrow> int list \<Rightarrow> bool" where
  "legal_coords ds ps xs \<longleftrightarrow>
     length xs = length ds \<and> (\<forall>i<length ds. ps ! i = 0 \<longrightarrow> 0 \<le> xs ! i \<and> xs ! i < ds ! i)"

lemma norm_in_grid:
  "grid_ok ds \<Longrightarrow> length ps = length ds \<Longrightarrow> legal_coords ds ps xs \<Longrightarrow> in_grid ds (norm_coords ds ps xs)"
  by (auto simp: in_grid_nth norm_coords_nth length_norm_coords norm_coord_def legal_coords_def grid_ok_def
      intro!: pos_mod_sign pos_mod_bound dest!: nth_mem)

lemma norm_in_grid_id: "in_grid ds xs \<Longrightarrow> length ps = length ds \<Longrightarrow> norm_coords ds ps xs = xs"
  by (auto simp: in_grid_nth norm_coords_nth length_norm_coords norm_coord_def intro!: nth_equalityI)

lemma in_grid_legal: "in_grid ds xs \<Longrightarrow> legal_coords ds ps xs"
  by (auto simp: in_grid_nth legal_coords_def)

text \<open>A Cartesian topology as \<open>MPIR_Cart_create\<close> makes it.\<close>

definition cart_ok :: "MPIR_Cart_topology \<Rightarrow> bool" where
  "cart_ok cart \<longleftrightarrow>
     ndims cart = int (length (dims cart)) \<and> length (periodic cart) = length (dims cart) \<and>
     grid_ok (dims cart) \<and> nnodes cart = prod_list (dims cart) \<and> prod_list (dims cart) < 2 ^ 31 \<and>
     in_grid (dims cart) (position cart)"

definition ints :: "int list \<Rightarrow> bool" where
  "ints xs \<longleftrightarrow> (\<forall>x\<in>set xs. - (2 ^ 31) \<le> x \<and> x < 2 ^ 31)"

lemma dim_le_size: "grid_ok ds \<Longrightarrow> i < length ds \<Longrightarrow> ds ! i \<le> prod_list ds"
proof (induction ds arbitrary: i)
  case (Cons d ds)
  then have p: "1 \<le> d" "1 \<le> prod_list ds" using grid_size_pos [of ds] by simp_all
  show ?case
  proof (cases i)
    case 0
    with p show ?thesis using mult_left_mono [of 1 "prod_list ds" d] by simp
  next
    case (Suc j)
    with Cons have "ds ! j \<le> prod_list ds" by simp
    also have "\<dots> \<le> d * prod_list ds" using p mult_right_mono [of 1 d "prod_list ds"] by simp
    finally show ?thesis using Suc by simp
  qed
qed simp

lemma tail_size_le: "grid_ok ds \<Longrightarrow> prod_list (drop k ds) \<le> prod_list ds"
proof (induction ds arbitrary: k)
  case (Cons d ds)
  then have p: "1 \<le> d" "1 \<le> prod_list ds" using grid_size_pos [of ds] by simp_all
  show ?case
  proof (cases k)
    case (Suc j)
    with Cons have "prod_list (drop j ds) \<le> prod_list ds" by simp
    also have "\<dots> \<le> d * prod_list ds" using p mult_right_mono [of 1 d "prod_list ds"] by simp
    finally show ?thesis using Suc by simp
  qed simp
qed simp

lemma check_coords_result:
  assumes "cart_ok cart" "length xs = length (dims cart)" "set is \<subseteq> {..<length (dims cart)}"
  shows "check_coords cart xs (map int is) =
    (if \<forall>i\<in>set is. periodic cart ! i = 0 \<longrightarrow> 0 \<le> xs ! i \<and> xs ! i < dims cart ! i
     then Some (Inr ()) else fail MPI_ERR_ARG ''**cartcoordinvalid'')"
  using assms(3)
proof (induction "is")
  case (Cons i "is")
  then have i: "rd (periodic cart) (int i) = Some (periodic cart ! i)" "rd xs (int i) = Some (xs ! i)"
    "rd (dims cart) (int i) = Some (dims cart ! i)"
    using assms(1,2) by (simp_all add: cart_ok_def)
  show ?case
  proof (cases "periodic cart ! i = 0 \<and> (xs ! i < 0 \<or> dims cart ! i \<le> xs ! i)")
    case True
    with i show ?thesis by (simp del: rd_eq_Some) (auto simp: not_less)
  next
    case False
    with i Cons show ?thesis by (auto simp del: rd_eq_Some simp: not_less not_le)
  qed
qed simp

lemma rank_loop_from:
  assumes ok: "cart_ok cart" and xs: "ints xs" "legal_coords (dims cart) (periodic cart) xs"
    and ns: "ns = norm_coords (dims cart) (periodic cart) xs" and k: "k \<le> length (dims cart)"
  shows "rank_loop cart xs (rev (map int [0..<k])) (grid_rank (drop k (dims cart)) (drop k ns))
      (prod_list (drop k (dims cart))) = Some (grid_rank (dims cart) ns)"
  using k
proof (induction k)
  case (Suc k)
  let ?ds = "dims cart" and ?ps = "periodic cart"
  let ?d = "?ds ! k" and ?p = "?ps ! k" and ?rest = "drop (Suc k) ?ds"
  have len: "length ?ps = length ?ds" "length xs = length ?ds" "grid_ok ?ds" "prod_list ?ds < 2 ^ 31"
    using ok xs(2) by (simp_all add: cart_ok_def legal_coords_def)
  have k: "k < length ?ds" using Suc.prems by simp
  have grid: "in_grid ?ds ns" unfolding ns by (rule norm_in_grid) (use len xs in auto)
  have ds: "drop k ?ds = ?d # ?rest" using k by (rule Cons_nth_drop_Suc [symmetric])
  have nsd: "drop k ns = ns ! k # drop (Suc k) ns"
    using k in_grid_length [OF grid] by (intro Cons_nth_drop_Suc [symmetric]) simp
  have nsk: "0 \<le> ns ! k" "ns ! k < ?d" using grid k by (simp_all add: in_grid_nth)
  have d: "1 \<le> ?d" "?d < 2 ^ 31" using dim_le_size [OF len(3) k] len k by (auto simp: grid_ok_def)
  have xk: "xs ! k \<in> set xs" using k len by simp
  have x': "(if ?p \<noteq> 0 then wrap_coord (xs ! k) ?d else Some (xs ! k)) = Some (ns ! k)"
    using wrap_coord_result [OF d, of "xs ! k"] xs(1) xk k len
    by (simp add: ns norm_coords_nth norm_coord_def ints_def)
  have p: "1 \<le> prod_list ?rest" by (rule grid_size_pos [OF grid_ok_drop [OF len(3)]])
  have pd: "prod_list (drop k ?ds) < 2 ^ 31" using tail_size_le [OF len(3), of k] len(4) by simp
  have tail: "in_grid ?rest (drop (Suc k) ns)" "in_grid (drop k ?ds) (drop k ns)"
    using grid by (auto simp: in_grid_def list_all2_conv_all_nth)
  let ?r = "grid_rank ?rest (drop (Suc k) ns)"
  have r: "0 \<le> ?r" using grid_rank_range [OF tail(1)] by simp
  have "grid_rank (drop k ?ds) (drop k ns) < prod_list (drop k ?ds)"
    using grid_rank_range [OF tail(2)] by simp
  then have sum: "ns ! k * prod_list ?rest + ?r < 2 ^ 31" using ds nsd pd by simp
  have m: "0 \<le> prod_list ?rest * ns ! k" "prod_list ?rest * ns ! k < 2 ^ 31"
    using nsk p sum r by (simp_all add: mult.commute)
  have "0 \<le> ?d * prod_list ?rest" using d p by (intro mult_nonneg_nonneg) auto
  then have "i32 (?d * prod_list ?rest) = ?d * prod_list ?rest"
    using pd ds by (intro i32_id) auto
  then have wraps: "i32 (prod_list ?rest * ns ! k) = prod_list ?rest * ns ! k"
    "i32 (?r + prod_list ?rest * ns ! k) = ns ! k * prod_list ?rest + ?r"
    "i32 (prod_list ?rest * ?d) = ?d * prod_list ?rest"
    using m sum r pd ds d p by (simp_all add: i32_id mult.commute)
  have "rank_loop cart xs (rev (map int [0..<Suc k])) ?r (prod_list ?rest) =
    rank_loop cart xs (rev (map int [0..<k])) (grid_rank (drop k ?ds) (drop k ns)) (prod_list (drop k ?ds))"
    using k len x' wraps ds nsd by (simp del: rd_eq_Some)
  with Suc show ?case by simp
qed simp

lemma MPI_Cart_rank_result:
  assumes "pool h = Some c" "comm_topo c = Some (Cart_topo cart)" "cart_ok cart"
    "length xs = length (dims cart)" "ints xs"
  shows "MPI_Cart_rank pool h (Some xs) True =
    (if legal_coords (dims cart) (periodic cart) xs
     then Some (Inr (grid_rank (dims cart) (norm_coords (dims cart) (periodic cart) xs)))
     else fail MPI_ERR_ARG ''**cartcoordinvalid'')"
proof -
  let ?n = "length (dims cart)"
  have nd: "ndims cart = int ?n" using assms(3) by (simp add: cart_ok_def)
  have chk: "check_coords cart xs (map int [0..<?n]) =
    (if legal_coords (dims cart) (periodic cart) xs then Some (Inr ()) else fail MPI_ERR_ARG ''**cartcoordinvalid'')"
    using check_coords_result [OF assms(3,4) eq_refl, of "[0..<?n]"] assms(4)
    by (auto simp: legal_coords_def lessThan_atLeast0)
  show ?thesis
    using assms(1,2) chk rank_loop_from [OF assms(3,5) _ refl, of ?n]
    by (simp add: MPI_Cart_rank_def MpiaCommValidateHandle_def with_cart_def check_def fail_def
        MpiaCommValidateTopology_def nd index_range)
qed

lemma MPI_Cart_coords_result:
  assumes "pool h = Some c" "comm_topo c = Some (Cart_topo cart)" "cart_ok cart"
    "0 \<le> r" "r < remote_size c" "length out = length (dims cart)"
  shows "MPI_Cart_coords pool h r (ndims cart) (Some out) = Some (Inr (Some (grid_coords (dims cart) r)))"
proof -
  have nd: "ndims cart = int (length (dims cart))" "nnodes cart = prod_list (dims cart)"
    "grid_ok (dims cart)" "prod_list (dims cart) < 2 ^ 31"
    using assms(3) by (simp_all add: cart_ok_def)
  have "coords_loop (dims cart) [0..ndims cart - 1] (nnodes cart) r out = Some (grid_coords (dims cart) r)"
    using coords_loop_result [OF nd(3) assms(4) _ nd(4,1), of out] nd(2) assms(6) by simp
  with assms(1,2,4,5) show ?thesis
    by (simp add: MPI_Cart_coords_def MpiaCommValidateHandle_def with_cart_def check_def
        MpiaCommValidateTopology_def MpiaCommValidateRank_def)
qed

end
