(* ===== verification/Cart_Comms.thy ===== *)
theory Cart_Comms
  imports Cart_Grid
begin

text \<open>
  Cartesian communicators: shifts, creation and sub-grids compute the reference functions of
  \<open>Cart_Grid\<close>, and the properties of the topology functions an MPI program relies on.
\<close>

subsection \<open>Shifts\<close>

text \<open>The rank at coordinate \<open>x\<close> in direction \<open>k\<close>, from the position of the calling process.\<close>

definition neighbour :: "MPIR_Cart_topology \<Rightarrow> nat \<Rightarrow> int \<Rightarrow> int" where
  "neighbour cart k x =
     (if periodic cart ! k = 0 \<and> (x < 0 \<or> dims cart ! k \<le> x) then MPI_PROC_NULL
      else grid_rank (dims cart)
        ((position cart)[k := norm_coord (dims cart ! k) (periodic cart ! k) x]))"

lemma in_grid_ints: "in_grid ds xs \<Longrightarrow> grid_ok ds \<Longrightarrow> prod_list ds < 2 ^ 31 \<Longrightarrow> ints xs"
  unfolding ints_def
proof
  fix x assume a: "in_grid ds xs" "grid_ok ds" "prod_list ds < 2 ^ 31" "x \<in> set xs"
  then obtain i where "i < length ds" "x = xs ! i" by (auto simp: in_set_conv_nth in_grid_nth)
  with a(1-3) dim_le_size [OF a(2), of i] show "- (2 ^ 31) \<le> x \<and> x < 2 ^ 31"
    by (auto simp: in_grid_nth)
qed

lemma norm_update:
  assumes "in_grid ds xs" "length ps = length ds" "k < length ds"
  shows "norm_coords ds ps (xs[k := x]) = xs[k := norm_coord (ds ! k) (ps ! k) x]"
  using assms norm_in_grid_id [OF assms(1,2)] in_grid_length [OF assms(1)]
  by (intro nth_equalityI) (auto simp: length_norm_coords norm_coords_nth nth_list_update norm_coord_def in_grid_nth)

lemma shift_one_result:
  assumes "pool h = Some c" "comm_topo c = Some (Cart_topo cart)" "cart_ok cart" "k < length (dims cart)"
    "- (2 ^ 31) \<le> x" "x < 2 ^ 31"
  shows "shift_one pool h cart (int k) x = Some (neighbour cart k x)"
proof -
  let ?ds = "dims cart" and ?ps = "periodic cart" and ?pos = "position cart"
  have ok: "length ?ps = length ?ds" "length ?pos = length ?ds" "in_grid ?ds ?pos" "grid_ok ?ds"
    "prod_list ?ds < 2 ^ 31" "ndims cart = int (length ?ds)"
    using assms(3) by (auto simp: cart_ok_def dest: in_grid_length)
  show ?thesis
  proof (cases "?ps ! k = 0 \<and> (x < 0 \<or> ?ds ! k \<le> x)")
    case True
    with assms(4) ok show ?thesis by (auto simp: shift_one_def neighbour_def simp del: rd_eq_Some)
  next
    case False
    let ?new = "?pos[k := x]"
    have "ints ?new"
      using in_grid_ints [OF ok(3-5)] assms(5,6) set_update_subset_insert [of ?pos k x]
      by (auto simp: ints_def)
    moreover have "legal_coords ?ds ?ps ?new"
      using False ok(2,3) assms(4) by (auto simp: legal_coords_def in_grid_nth nth_list_update)
    ultimately have "MPI_Cart_rank pool h (Some ?new) True =
      Some (Inr (grid_rank ?ds (norm_coords ?ds ?ps ?new)))"
      using MPI_Cart_rank_result [where pool = pool and h = h and xs = ?new, OF assms(1-3)] ok(2) by simp
    then show ?thesis
      using False assms(4) ok norm_update [OF ok(3,1) assms(4)]
      by (auto simp: shift_one_def neighbour_def simp del: rd_eq_Some wr_eq_Some)
  qed
qed

lemma neighbour_self:
  "cart_ok cart \<Longrightarrow> k < length (dims cart) \<Longrightarrow>
   neighbour cart k (position cart ! k) = grid_rank (dims cart) (position cart)"
  by (auto simp: neighbour_def cart_ok_def in_grid_nth norm_coord_def)

lemma MPI_Cart_shift_result:
  assumes "pool h = Some c" "comm_topo c = Some (Cart_topo cart)" "cart_ok cart"
    "k < length (dims cart)" "length (dims cart) \<le> 16" "comm_rank c = grid_rank (dims cart) (position cart)"
    "dims cart ! k \<le> 2 ^ 30" "\<bar>disp\<bar> < 2 ^ 30"
  shows "MPI_Cart_shift pool h (int k) disp True True =
    Some (Inr (neighbour cart k (position cart ! k - disp), neighbour cart k (position cart ! k + disp)))"
proof -
  let ?x = "position cart ! k"
  have ok: "length (position cart) = length (dims cart)" "ndims cart = int (length (dims cart))"
    "0 \<le> ?x" "?x < dims cart ! k"
    using assms(3,4) by (auto simp: cart_ok_def in_grid_nth)
  have rng: "- (2 ^ 31) \<le> ?x + disp" "?x + disp < 2 ^ 31" "- (2 ^ 31) \<le> ?x - disp" "?x - disp < 2 ^ 31"
    using ok assms(7,8) by auto
  have "shift_one pool h cart (int k) (?x + disp) = Some (neighbour cart k (?x + disp))"
    "shift_one pool h cart (int k) (?x - disp) = Some (neighbour cart k (?x - disp))"
    using shift_one_result [where pool = pool and h = h, OF assms(1-4)] rng by simp_all
  moreover have "dims cart \<noteq> []" using assms(4) by auto
  ultimately show ?thesis
    using assms(1,2,4-6) ok rng neighbour_self [OF assms(3,4)]
    by (simp add: MPI_Cart_shift_def MpiaCommValidateHandle_def check_def with_cart_def
        MpiaCommValidateTopology_def MAX_CART_DIM_def i32_id del: rd_eq_Some)
qed

lemma neighbour_back:
  assumes ok: "cart_ok cart" and k: "k < length (dims cart)"
    and dest: "neighbour cart k (position cart ! k + disp) \<noteq> MPI_PROC_NULL"
    and cart': "cart' = cart\<lparr>position := grid_coords (dims cart) (neighbour cart k (position cart ! k + disp))\<rparr>"
  shows "cart_ok cart'" "neighbour cart' k (position cart' ! k - disp) = grid_rank (dims cart) (position cart)"
    "grid_rank (dims cart) (position cart') = neighbour cart k (position cart ! k + disp)"
proof -
  let ?ds = "dims cart" and ?x = "position cart ! k" and ?p = "periodic cart ! k"
  let ?y = "norm_coord (?ds ! k) ?p (?x + disp)" and ?d = "?ds ! k"
  have c: "in_grid ?ds (position cart)" "grid_ok ?ds" "length (position cart) = length ?ds"
    using ok by (auto simp: cart_ok_def in_grid_nth)
  have x: "0 \<le> ?x" "?x < ?d" using c(1) k by (auto simp: in_grid_nth)
  have d: "1 \<le> ?d" using c(2) k by (auto simp: grid_ok_def)
  have n: "neighbour cart k (?x + disp) = grid_rank ?ds ((position cart)[k := ?y])"
    and free: "\<not> (?p = 0 \<and> (?x + disp < 0 \<or> ?d \<le> ?x + disp))"
    using dest by (auto simp: neighbour_def split: if_splits)
  have y: "0 \<le> ?y" "?y < ?d" using free d by (auto simp: norm_coord_def)
  have grid: "in_grid ?ds ((position cart)[k := ?y])" using c y k by (auto simp: in_grid_nth nth_list_update)
  have pos: "position cart' = (position cart)[k := ?y]"
    using grid_coords_rank [OF grid] n by (simp add: cart')
  show "cart_ok cart'" using ok grid pos by (simp add: cart_ok_def cart')
  have undo: "norm_coord ?d ?p (?y - disp) = ?x"
    using x by (auto simp: norm_coord_def mod_diff_left_eq)
  have "\<not> (?p = 0 \<and> (?y - disp < 0 \<or> ?d \<le> ?y - disp))"
    using x by (auto simp: norm_coord_def)
  then show "neighbour cart' k (position cart' ! k - disp) = grid_rank ?ds (position cart)"
    using undo pos k c(3) by (auto simp: neighbour_def cart')
  show "grid_rank ?ds (position cart') = neighbour cart k (?x + disp)"
    using pos n by simp
qed

subsection \<open>Creation\<close>

lemma product_loop_from:
  assumes "grid_ok ds" "k \<le> length ds" "prod_list ds < 2 ^ 31"
  shows "product_loop ds (map int [k..<length ds]) (prod_list (take k ds)) = Some (prod_list ds)"
  using assms(2)
proof (induction "length ds - k" arbitrary: k)
  case (Suc m)
  then have k: "k < length ds" by simp
  have t: "prod_list (take k ds) * ds ! k = prod_list (take (Suc k) ds)"
    using k by (simp add: take_Suc_conv_app_nth)
  have g: "grid_ok (take (Suc k) ds)" "grid_ok (drop (Suc k) ds)"
    using assms(1) by (auto simp: grid_ok_def dest: in_set_takeD in_set_dropD)
  have "prod_list (take (Suc k) ds) * 1 \<le> prod_list (take (Suc k) ds) * prod_list (drop (Suc k) ds)"
    using grid_size_pos [OF g(1)] grid_size_pos [OF g(2)] by (intro mult_left_mono) auto
  also have "\<dots> = prod_list ds" by (metis append_take_drop_id prod_list.append)
  finally have "i32 (prod_list (take k ds) * ds ! k) = prod_list (take (Suc k) ds)"
    unfolding t using grid_size_pos [OF g(1)] assms(3) by (intro i32_id) auto
  then show ?case
    using Suc k by (simp add: upt_conv_Cons del: rd_eq_Some)
qed simp

lemma product_loop_result:
  "grid_ok ds \<Longrightarrow> prod_list ds < 2 ^ 31 \<Longrightarrow> nd = int (length ds) \<Longrightarrow>
   product_loop ds [0..nd - 1] 1 = Some (prod_list ds)"
  using product_loop_from [of ds 0] by (simp add: index_range)

lemma MPIR_Cart_create_result:
  assumes "ds \<noteq> []" "grid_ok ds" "prod_list ds < 2 ^ 31" "length periods = length ds" "0 \<le> comm_rank c"
    "comm_copy env (prod_list ds) = Inr (if comm_rank c < prod_list ds then Some nc else None)"
    "malloc_topo env" "topology_put env = Inr ()"
  shows "MPIR_Cart_create env c (int (length ds)) ds periods False =
    (if prod_list ds > remote_size c then fail MPI_ERR_ARG ''**cartdim''
     else if comm_rank c \<ge> prod_list ds then Some (Inr None)
     else Some (Inr (Some (nc\<lparr>comm_topo := Some (Cart_topo
       \<lparr>nnodes = prod_list ds, ndims = int (length ds), dims = ds, periodic = periods,
        position = grid_coords ds (comm_rank c)\<rparr>)\<rparr>))))"
  using assms product_loop_result [OF assms(2,3) refl]
    coords_loop_result [OF assms(2,5) _ assms(3) refl, of "replicate (length ds) 0"]
  by (simp add: MPIR_Cart_create_def check_def put_topology_def MPI_UNDEFINED_def)

subsection \<open>Sub-grids\<close>

definition kept :: "int list \<Rightarrow> int list \<Rightarrow> int list" where
  "kept remain xs = map snd (filter (\<lambda>(b, x). b \<noteq> 0) (zip remain xs))"

definition dropped :: "int list \<Rightarrow> int list \<Rightarrow> int list" where
  "dropped remain xs = map snd (filter (\<lambda>(b, x). b = 0) (zip remain xs))"

lemma kept_Nil [simp]: "kept [] xs = []" "dropped [] xs = []"
  by (simp_all add: kept_def dropped_def)

lemma kept_Cons [simp]:
  "kept (b # bs) (x # xs) = (if b \<noteq> 0 then x # kept bs xs else kept bs xs)"
  "dropped (b # bs) (x # xs) = (if b = 0 then x # dropped bs xs else dropped bs xs)"
  by (simp_all add: kept_def dropped_def)

lemma kept_snoc:
  "length xs = length bs \<Longrightarrow> kept (bs @ [b]) (xs @ [x]) = kept bs xs @ (if b \<noteq> 0 then [x] else [])"
  "length xs = length bs \<Longrightarrow> dropped (bs @ [b]) (xs @ [x]) = dropped bs xs @ (if b = 0 then [x] else [])"
  by (simp_all add: kept_def dropped_def)

lemma kept_length:
  "length xs = length bs \<Longrightarrow> length ys = length bs \<Longrightarrow>
   length (kept bs xs) = length (kept bs ys) \<and> length (dropped bs xs) = length (dropped bs ys)"
proof (induction bs arbitrary: xs ys)
  case (Cons b bs)
  obtain x xs' y ys' where "xs = x # xs'" "ys = y # ys'"
    using Cons.prems by (cases xs; cases ys) auto
  with Cons.IH [of xs' ys'] Cons.prems show ?case by simp
qed simp

lemma kept_in_grid: "length bs = length ds \<Longrightarrow> in_grid ds xs \<Longrightarrow> in_grid (kept bs ds) (kept bs xs) \<and> in_grid (dropped bs ds) (dropped bs xs)"
proof (induction bs arbitrary: ds xs)
  case (Cons b bs)
  then show ?case by (cases ds) (auto simp: in_grid_Cons)
qed simp

lemma kept_grid_ok: "grid_ok ds \<Longrightarrow> grid_ok (kept bs ds) \<and> grid_ok (dropped bs ds)"
  by (auto simp: grid_ok_def kept_def dropped_def dest: set_zip_rightD)

lemma kept_product: "length bs = length ds \<Longrightarrow> prod_list (kept bs ds) * prod_list (dropped bs ds) = prod_list ds"
proof (induction bs arbitrary: ds)
  case (Cons b bs)
  then obtain d ds' where "ds = d # ds'" by (cases ds) auto
  with Cons show ?case by (auto simp: algebra_simps)
qed simp

lemma kept_size_le:
  assumes "grid_ok ds" "length bs = length ds"
  shows "prod_list (kept bs ds) \<le> prod_list ds" "prod_list (dropped bs ds) \<le> prod_list ds"
proof -
  let ?k = "prod_list (kept bs ds)" and ?d = "prod_list (dropped bs ds)"
  have p: "1 \<le> ?k" "1 \<le> ?d" using kept_grid_ok [OF assms(1)] by (simp_all add: grid_size_pos)
  have eq: "?k * ?d = prod_list ds" by (rule kept_product [OF assms(2)])
  show "?k \<le> prod_list ds" "?d \<le> prod_list ds"
    using p mult_left_mono [of 1 ?d ?k] mult_right_mono [of 1 ?k ?d] by (simp_all flip: eq)
qed

lemma grid_rank_snoc: "length xs = length ds \<Longrightarrow> grid_rank (ds @ [d]) (xs @ [x]) = grid_rank ds xs * d + x"
proof (induction ds arbitrary: xs)
  case (Cons e ds)
  then obtain y ys where "xs = y # ys" by (cases xs) auto
  with Cons show ?case by (simp add: algebra_simps)
qed simp

lemma head_size_le: "prod_list (take k ds) \<le> prod_list ds" if "grid_ok ds" for ds :: "int list"
proof -
  have g: "grid_ok (take k ds)" "grid_ok (drop k ds)" using that by (auto simp: grid_ok_def dest: in_set_takeD in_set_dropD)
  have "prod_list (take k ds) * 1 \<le> prod_list (take k ds) * prod_list (drop k ds)"
    using grid_size_pos [OF g(1)] grid_size_pos [OF g(2)] by (intro mult_left_mono) auto
  also have "\<dots> = prod_list ds" by (metis append_take_drop_id prod_list.append)
  finally show ?thesis by simp
qed

lemma color_key_append:
  "color_key cart remain (is @ js) st = color_key cart remain is st \<bind> color_key cart remain js"
proof (induction "is" arbitrary: st)
  case (Cons i "is")
  show ?case
    by (cases st; cases "rd remain i"; cases "rd (dims cart) i"; cases "rd (position cart) i")
       (simp_all add: Cons del: rd_eq_Some)
qed simp

text \<open>The colour is the number of the dropped coordinates, the key that of the kept ones.\<close>

lemma color_key_from:
  assumes ok: "cart_ok cart" and len: "length remain = length (dims cart)" and k: "k \<le> length (dims cart)"
  shows "color_key cart remain (map int [0..<k]) (0, 0) =
    Some (grid_rank (dropped (take k remain) (take k (dims cart))) (dropped (take k remain) (take k (position cart))),
          grid_rank (kept (take k remain) (take k (dims cart))) (kept (take k remain) (take k (position cart))))"
  using k
proof (induction k)
  case (Suc k)
  let ?ds = "dims cart" and ?ps = "position cart"
  let ?D = "dropped (take k remain) (take k ?ds)" and ?K = "kept (take k remain) (take k ?ds)"
  let ?X = "dropped (take k remain) (take k ?ps)" and ?Y = "kept (take k remain) (take k ?ps)"
  have c: "in_grid ?ds ?ps" "grid_ok ?ds" "prod_list ?ds < 2 ^ 31" "length ?ps = length ?ds"
    using ok by (auto simp: cart_ok_def in_grid_nth)
  have k: "k < length ?ds" "k < length remain" "k < length ?ps" using Suc.prems len c by auto
  have taken: "take (Suc k) xs = take k xs @ [xs ! k]" if "k < length xs" for xs :: "int list"
    using that by (rule take_Suc_conv_app_nth)
  have lens: "length (take k ?ds) = length (take k remain)" "length (take k ?ps) = length (take k remain)"
    using len c by simp_all
  have sub: "in_grid (take (Suc k) ?ds) (take (Suc k) ?ps)" "grid_ok (take (Suc k) ?ds)"
    using c by (auto simp: in_grid_nth grid_ok_def dest: in_set_takeD)
  have le: "prod_list (take (Suc k) ?ds) < 2 ^ 31" using head_size_le [OF c(2), of "Suc k"] c(3) by simp
  have lt: "length (take (Suc k) remain) = length (take (Suc k) ?ds)" using len by simp
  let ?ds' = "take (Suc k) ?ds" and ?ps' = "take (Suc k) ?ps" and ?bs' = "take (Suc k) remain"
  have rng: "0 \<le> grid_rank (kept ?bs' ?ds') (kept ?bs' ?ps')" "grid_rank (kept ?bs' ?ds') (kept ?bs' ?ps') < 2 ^ 31"
    "0 \<le> grid_rank (dropped ?bs' ?ds') (dropped ?bs' ?ps')" "grid_rank (dropped ?bs' ?ds') (dropped ?bs' ?ps') < 2 ^ 31"
    using grid_rank_range [of "kept ?bs' ?ds'" "kept ?bs' ?ps'"] grid_rank_range [of "dropped ?bs' ?ds'" "dropped ?bs' ?ps'"]
      kept_in_grid [OF lt sub(1)] kept_size_le [OF sub(2) lt] le by linarith+
  have d0: "0 \<le> ?ds ! k" using c k by (auto simp: in_grid_nth intro: order_trans less_imp_le)
  have x0: "0 \<le> ?ps ! k" using c k by (auto simp: in_grid_nth)
  have ln: "length ?Y = length ?K \<and> length ?X = length ?D" by (rule kept_length [OF lens(2,1)])
  show ?case
  proof (cases "remain ! k \<noteq> 0")
    case True
    then have e: "grid_rank (kept ?bs' ?ds') (kept ?bs' ?ps') = grid_rank ?K ?Y * ?ds ! k + ?ps ! k"
      "dropped ?bs' ?ds' = ?D" "dropped ?bs' ?ps' = ?X"
      using taken k lens ln by (simp_all add: kept_snoc grid_rank_snoc)
    have "in_grid ?K ?Y" using kept_in_grid [of "take k remain" "take k ?ds" "take k ?ps"] c lens
      by (auto simp: in_grid_nth)
    then have "0 \<le> grid_rank ?K ?Y * ?ds ! k" using grid_rank_range d0 by (auto intro!: mult_nonneg_nonneg)
    then have "i32 (grid_rank ?K ?Y * ?ds ! k) = grid_rank ?K ?Y * ?ds ! k"
      "i32 (grid_rank ?K ?Y * ?ds ! k + ?ps ! k) = grid_rank ?K ?Y * ?ds ! k + ?ps ! k"
      using rng(1,2) x0 unfolding e by (auto intro!: i32_id)
    with True Suc k e show ?thesis by (simp add: color_key_append del: rd_eq_Some)
  next
    case False
    then have e: "grid_rank (dropped ?bs' ?ds') (dropped ?bs' ?ps') = grid_rank ?D ?X * ?ds ! k + ?ps ! k"
      "kept ?bs' ?ds' = ?K" "kept ?bs' ?ps' = ?Y"
      using taken k lens ln by (simp_all add: kept_snoc grid_rank_snoc)
    have "in_grid ?D ?X" using kept_in_grid [of "take k remain" "take k ?ds" "take k ?ps"] c lens
      by (auto simp: in_grid_nth)
    then have "0 \<le> grid_rank ?D ?X * ?ds ! k" using grid_rank_range d0 by (auto intro!: mult_nonneg_nonneg)
    then have "i32 (grid_rank ?D ?X * ?ds ! k) = grid_rank ?D ?X * ?ds ! k"
      "i32 (grid_rank ?D ?X * ?ds ! k + ?ps ! k) = grid_rank ?D ?X * ?ds ! k + ?ps ! k"
      using rng(3,4) x0 unfolding e by (auto intro!: i32_id)
    with False Suc k e show ?thesis by (simp add: color_key_append del: rd_eq_Some)
  qed
qed simp


lemma color_key_result:
  assumes "cart_ok cart" "length remain = length (dims cart)"
  shows "color_key cart remain [0..ndims cart - 1] (0, 0) =
    Some (grid_rank (dropped remain (dims cart)) (dropped remain (position cart)),
          grid_rank (kept remain (dims cart)) (kept remain (position cart)))"
proof -
  have "ndims cart = int (length (dims cart))" "length (position cart) = length (dims cart)"
    using assms(1) by (auto simp: cart_ok_def in_grid_nth)
  then show ?thesis using color_key_from [OF assms order_refl] assms(2) by (simp add: index_range)
qed

lemma all_false_result:
  "set is \<subseteq> {..<length remain} \<Longrightarrow> all_false remain (map int is) = Some (\<forall>i\<in>set is. remain ! i = 0)"
  by (induction "is") (auto simp del: rd_eq_Some)

lemma count_remaining_from:
  assumes ok: "grid_ok ds" "prod_list ds < 2 ^ 31" and len: "length remain = length ds" and k: "k \<le> length ds"
  shows "count_remaining remain ds (map int [k..<length ds])
      (int (length (kept (take k remain) (take k ds))), prod_list (kept (take k remain) (take k ds))) =
    Some (int (length (kept remain ds)), prod_list (kept remain ds))"
  using k
proof (induction "length ds - k" arbitrary: k)
  case 0
  then show ?case using len by simp
next
  case (Suc m)
  then have k: "k < length ds" "k < length remain" using len by auto
  have snoc: "kept (take (Suc k) remain) (take (Suc k) ds) =
    kept (take k remain) (take k ds) @ (if remain ! k \<noteq> 0 then [ds ! k] else [])"
    using k len by (simp add: take_Suc_conv_app_nth kept_snoc)
  have g: "grid_ok (take (Suc k) ds)" "length (take (Suc k) remain) = length (take (Suc k) ds)"
    using ok(1) len by (auto simp: grid_ok_def dest: in_set_takeD)
  have "prod_list (kept (take (Suc k) remain) (take (Suc k) ds)) < 2 ^ 31"
    using kept_size_le(1) [OF g] head_size_le [OF ok(1), of "Suc k"] ok(2) by linarith
  moreover have "1 \<le> prod_list (kept (take (Suc k) remain) (take (Suc k) ds))"
    using kept_grid_ok [OF g(1)] by (simp add: grid_size_pos)
  ultimately have "i32 (prod_list (kept (take (Suc k) remain) (take (Suc k) ds))) =
    prod_list (kept (take (Suc k) remain) (take (Suc k) ds))"
    by (intro i32_id) auto
  moreover have "count_remaining remain ds (map int [Suc k..<length ds])
      (int (length (kept (take (Suc k) remain) (take (Suc k) ds))),
       prod_list (kept (take (Suc k) remain) (take (Suc k) ds))) =
    Some (int (length (kept remain ds)), prod_list (kept remain ds))"
    by (rule Suc.hyps(1)) (use Suc.hyps(2) k in auto)
  ultimately show ?case
    using k by (simp add: upt_conv_Cons snoc add.commute split: if_splits del: rd_eq_Some)
qed

lemma kept_dims_from:
  assumes "length remain = length (dims cart)" "length (periodic cart) = length (dims cart)"
    "k \<le> length (dims cart)"
  shows "kept_dims cart remain (map int [k..<length (dims cart)]) =
    Some (kept (drop k remain) (drop k (dims cart)), kept (drop k remain) (drop k (periodic cart)))"
  using assms(3)
proof (induction "length (dims cart) - k" arbitrary: k)
  case (Suc m)
  then have k: "k < length (dims cart)" by simp
  then have "drop k remain = remain ! k # drop (Suc k) remain" "drop k (dims cart) = dims cart ! k # drop (Suc k) (dims cart)"
    "drop k (periodic cart) = periodic cart ! k # drop (Suc k) (periodic cart)"
    using assms by (simp_all add: Cons_nth_drop_Suc)
  with Suc k assms show ?case by (simp add: upt_conv_Cons del: rd_eq_Some)
qed (use assms in simp)

lemma sub_topology_result:
  assumes ok: "cart_ok cart" and len: "length remain = length (dims cart)" and r: "0 \<le> r"
  shows "sub_topology cart remain r = Some
    \<lparr>nnodes = prod_list (kept remain (dims cart)), ndims = int (length (kept remain (dims cart))),
     dims = kept remain (dims cart), periodic = kept remain (periodic cart),
     position = grid_coords (kept remain (dims cart)) r\<rparr>"
proof -
  let ?ds = "dims cart"
  have c: "ndims cart = int (length ?ds)" "grid_ok ?ds" "prod_list ?ds < 2 ^ 31" "length (periodic cart) = length ?ds"
    using ok by (auto simp: cart_ok_def)
  have small: "prod_list (kept remain ?ds) < 2 ^ 31" using kept_size_le(1) [OF c(2) len] c(3) by simp
  have "grid_ok (kept remain ?ds)" using kept_grid_ok [OF c(2)] by simp
  then have "coords_loop (kept remain ?ds) [0..int (length (kept remain ?ds)) - 1] (prod_list (kept remain ?ds)) r
      (replicate (length (kept remain ?ds)) 0) = Some (grid_coords (kept remain ?ds) r)"
    using coords_loop_result [OF _ r _ small refl, of "replicate (length (kept remain ?ds)) 0"] by simp
  then show ?thesis
    using count_remaining_from [OF c(2,3) len, of 0] kept_dims_from [OF len c(4), of 0]
    by (simp add: sub_topology_def c(1) index_range)
qed

text \<open>
  Among the processes of the grid with the same colour, a process with key \<open>j\<close> has exactly \<open>j\<close>
  processes of smaller key: the order of keys is the order of the new ranks.
\<close>

definition color_of :: "int list \<Rightarrow> int list \<Rightarrow> int \<Rightarrow> int" where
  "color_of remain ds r = grid_rank (dropped remain ds) (dropped remain (grid_coords ds r))"

definition key_of :: "int list \<Rightarrow> int list \<Rightarrow> int \<Rightarrow> int" where
  "key_of remain ds r = grid_rank (kept remain ds) (kept remain (grid_coords ds r))"

fun merge_coords :: "int list \<Rightarrow> int list \<Rightarrow> int list \<Rightarrow> int list" where
  "merge_coords [] ys zs = []"
| "merge_coords (b # bs) ys zs =
     (if b \<noteq> 0 then hd ys # merge_coords bs (tl ys) zs else hd zs # merge_coords bs ys (tl zs))"

lemma merge_coords_grid:
  "length bs = length ds \<Longrightarrow> in_grid (kept bs ds) ys \<Longrightarrow> in_grid (dropped bs ds) zs \<Longrightarrow>
   in_grid ds (merge_coords bs ys zs) \<and> kept bs (merge_coords bs ys zs) = ys \<and>
   dropped bs (merge_coords bs ys zs) = zs"
proof (induction bs arbitrary: ds ys zs)
  case (Cons b bs)
  then show ?case by (cases ds) (auto simp: in_grid_Cons)
qed simp

lemma merge_kept_dropped:
  "length xs = length bs \<Longrightarrow> merge_coords bs (kept bs xs) (dropped bs xs) = xs"
proof (induction bs arbitrary: xs)
  case (Cons b bs)
  then show ?case by (cases xs) auto
qed simp

lemma color_key_bij:
  assumes ok: "grid_ok ds" and len: "length remain = length ds" and r: "0 \<le> r" "r < prod_list ds"
  shows "bij_betw (key_of remain ds)
    {q. 0 \<le> q \<and> q < prod_list ds \<and> color_of remain ds q = color_of remain ds r}
    {0..<prod_list (kept remain ds)}"
proof -
  let ?K = "kept remain ds" and ?D = "dropped remain ds"
  let ?S = "{q. 0 \<le> q \<and> q < prod_list ds \<and> color_of remain ds q = color_of remain ds r}"
  have coords: "in_grid ds (grid_coords ds q)" "in_grid ?K (kept remain (grid_coords ds q))"
    "in_grid ?D (dropped remain (grid_coords ds q))" if "0 \<le> q" "q < prod_list ds" for q
    using grid_coords_in_grid [OF ok that] kept_in_grid [OF len] by auto
  show ?thesis
  proof (rule bij_betw_byWitness [where f' = "\<lambda>j. grid_rank ds (merge_coords remain (grid_coords ?K j) (dropped remain (grid_coords ds r)))"])
    show "\<forall>q\<in>?S. grid_rank ds (merge_coords remain (grid_coords ?K (key_of remain ds q)) (dropped remain (grid_coords ds r))) = q"
    proof
      fix q assume "q \<in> ?S"
      then have q: "0 \<le> q" "q < prod_list ds" "color_of remain ds q = color_of remain ds r" by auto
      have "dropped remain (grid_coords ds q) = dropped remain (grid_coords ds r)"
        using q(3) grid_rank_inj [OF coords(3) [OF q(1,2)] coords(3) [OF r]] by (simp add: color_of_def)
      moreover have "grid_coords ?K (key_of remain ds q) = kept remain (grid_coords ds q)"
        unfolding key_of_def by (rule grid_coords_rank [OF coords(2) [OF q(1,2)]])
      ultimately show "grid_rank ds (merge_coords remain (grid_coords ?K (key_of remain ds q)) (dropped remain (grid_coords ds r))) = q"
        using merge_kept_dropped [of "grid_coords ds q" remain] len grid_rank_coords [OF ok q(1,2)] by simp
    qed
    have undo: "0 \<le> grid_rank ds (merge_coords remain (grid_coords ?K j) (dropped remain (grid_coords ds r))) \<and>
      grid_rank ds (merge_coords remain (grid_coords ?K j) (dropped remain (grid_coords ds r))) < prod_list ds \<and>
      key_of remain ds (grid_rank ds (merge_coords remain (grid_coords ?K j) (dropped remain (grid_coords ds r)))) = j \<and>
      color_of remain ds (grid_rank ds (merge_coords remain (grid_coords ?K j) (dropped remain (grid_coords ds r)))) = color_of remain ds r"
      if "0 \<le> j" "j < prod_list ?K" for j
    proof -
      let ?m = "merge_coords remain (grid_coords ?K j) (dropped remain (grid_coords ds r))"
      have gK: "grid_ok ?K" using kept_grid_ok [OF ok] by simp
      have m: "in_grid ds ?m" "kept remain ?m = grid_coords ?K j" "dropped remain ?m = dropped remain (grid_coords ds r)"
        using merge_coords_grid [OF len grid_coords_in_grid [OF gK that] coords(3) [OF r]] by auto
      show ?thesis using grid_rank_range [OF m(1)] m grid_rank_coords [OF gK that]
        by (simp add: key_of_def color_of_def grid_coords_rank)
    qed
    then show "\<forall>j\<in>{0..<prod_list ?K}. key_of remain ds (grid_rank ds (merge_coords remain (grid_coords ?K j) (dropped remain (grid_coords ds r)))) = j"
      "(\<lambda>j. grid_rank ds (merge_coords remain (grid_coords ?K j) (dropped remain (grid_coords ds r)))) ` {0..<prod_list ?K} \<subseteq> ?S"
      by auto
    show "key_of remain ds ` ?S \<subseteq> {0..<prod_list ?K}"
      using grid_rank_range [OF coords(2)] by (auto simp: key_of_def)
  qed
qed

lemma key_counts:
  assumes ok: "grid_ok ds" and len: "length remain = length ds" and r: "0 \<le> r" "r < prod_list ds"
  shows "int (card {q. 0 \<le> q \<and> q < prod_list ds \<and> color_of remain ds q = color_of remain ds r \<and>
    key_of remain ds q < key_of remain ds r}) = key_of remain ds r"
proof -
  let ?S = "{q. 0 \<le> q \<and> q < prod_list ds \<and> color_of remain ds q = color_of remain ds r}"
  have bij: "bij_betw (key_of remain ds) ?S {0..<prod_list (kept remain ds)}"
    by (rule color_key_bij [OF assms])
  have k: "0 \<le> key_of remain ds r" "key_of remain ds r < prod_list (kept remain ds)"
    using bij_betwE [OF bij] r by auto
  have img: "key_of remain ds ` {q \<in> ?S. key_of remain ds q < key_of remain ds r} = {0..<key_of remain ds r}"
  proof (intro subset_antisym subsetI)
    fix j assume j: "j \<in> {0..<key_of remain ds r}"
    then have "j \<in> key_of remain ds ` ?S" using bij_betw_imp_surj_on [OF bij] k by auto
    then obtain q where "q \<in> ?S" "j = key_of remain ds q" by blast
    then show "j \<in> key_of remain ds ` {q \<in> ?S. key_of remain ds q < key_of remain ds r}" using j by simp
  next
    fix j assume "j \<in> key_of remain ds ` {q \<in> ?S. key_of remain ds q < key_of remain ds r}"
    then obtain q where "q \<in> ?S" "j = key_of remain ds q" "j < key_of remain ds r" by blast
    then show "j \<in> {0..<key_of remain ds r}" using bij_betwE [OF bij] by simp
  qed
  have "inj_on (key_of remain ds) {q \<in> ?S. key_of remain ds q < key_of remain ds r}"
    by (rule inj_on_subset [OF bij_betw_imp_inj_on [OF bij]]) blast
  then have "card {q \<in> ?S. key_of remain ds q < key_of remain ds r} = card {0..<key_of remain ds r}"
    unfolding img [symmetric] by (rule card_image [symmetric])
  then show ?thesis using k by (simp add: conj_assoc)
qed

subsection \<open>Properties\<close>

text \<open>C29: on a communicator with a Cartesian topology, \<open>MPI_Cart_coords\<close> of every rank gives
coordinates inside the grid, and \<open>MPI_Cart_rank\<close> of them gives the rank back.\<close>

theorem MPI_Cart_coords_rank_roundtrip:
  assumes "pool h = Some c" "comm_topo c = Some (Cart_topo cart)" "cart_ok cart"
    "remote_size c = nnodes cart" "0 \<le> r" "r < nnodes cart" "length out = length (dims cart)"
  shows "\<exists>xs. MPI_Cart_coords pool h r (ndims cart) (Some out) = Some (Inr (Some xs)) \<and>
    in_grid (dims cart) xs \<and> MPI_Cart_rank pool h (Some xs) True = Some (Inr r)"
proof -
  let ?xs = "grid_coords (dims cart) r"
  have c: "grid_ok (dims cart)" "nnodes cart = prod_list (dims cart)" "prod_list (dims cart) < 2 ^ 31"
    "length (periodic cart) = length (dims cart)"
    using assms(3) by (simp_all add: cart_ok_def)
  have xs: "in_grid (dims cart) ?xs" using grid_coords_in_grid [OF c(1)] assms(5,6) c(2) by simp
  have "MPI_Cart_rank pool h (Some ?xs) True = Some (Inr (grid_rank (dims cart) ?xs))"
    using MPI_Cart_rank_result [where pool = pool and h = h and xs = ?xs, OF assms(1-3)]
      in_grid_ints [OF xs c(1,3)] in_grid_legal [OF xs] norm_in_grid_id [OF xs c(4)] by simp
  moreover have "grid_rank (dims cart) ?xs = r" using grid_rank_coords [OF c(1) assms(5)] assms(6) c(2) by simp
  moreover have "MPI_Cart_coords pool h r (ndims cart) (Some out) = Some (Inr (Some ?xs))"
    using MPI_Cart_coords_result [where pool = pool and h = h, OF assms(1-3,5) _ assms(7)] assms(4,6) by simp
  ultimately show ?thesis using xs by auto
qed

text \<open>A 3 by 4 grid, periodic in the second direction, seen by the process at (2, 1).\<close>

definition demo_cart :: MPIR_Cart_topology where
  "demo_cart = \<lparr>nnodes = 12, ndims = 2, dims = [3, 4], periodic = [0, 1], position = [2, 1]\<rparr>"

definition demo_comm :: MPID_Comm where
  "demo_comm = \<lparr>remote_size = 12, comm_rank = 9, inter_comm = False, comm_topo = Some (Cart_topo demo_cart)\<rparr>"

definition demo_pool :: comm_pool where
  "demo_pool = [0x84000001 \<mapsto> demo_comm]"

lemma demo_cart_ok: "cart_ok demo_cart"
  by (simp add: cart_ok_def demo_cart_def)

lemma demo_pool_at: "demo_pool 0x84000001 = Some demo_comm" "comm_topo demo_comm = Some (Cart_topo demo_cart)"
  by (simp_all add: demo_pool_def demo_comm_def)

lemma MPI_Cart_coords_rank_witness:
  "\<exists>xs. MPI_Cart_coords demo_pool 0x84000001 7 2 (Some [0, 0]) = Some (Inr (Some xs)) \<and>
    in_grid [3, 4] xs \<and> MPI_Cart_rank demo_pool 0x84000001 (Some xs) True = Some (Inr 7)"
  using MPI_Cart_coords_rank_roundtrip [where pool = demo_pool and r = 7 and out = "[0, 0]",
      OF demo_pool_at demo_cart_ok]
  by (simp add: demo_cart_def demo_comm_def)

text \<open>C30: \<open>MPI_Cart_rank\<close> of coordinates that are in range in every non-periodic direction is the
rank of the process whose coordinates they are once the periodic ones are taken modulo the
dimension, and an error for any other coordinates.\<close>

theorem MPI_Cart_rank_correct:
  assumes "pool h = Some c" "comm_topo c = Some (Cart_topo cart)" "cart_ok cart"
    "remote_size c = nnodes cart" "length xs = length (dims cart)" "ints xs"
  shows "if legal_coords (dims cart) (periodic cart) xs
    then \<exists>r. MPI_Cart_rank pool h (Some xs) True = Some (Inr r) \<and> 0 \<le> r \<and> r < nnodes cart \<and>
      MPI_Cart_coords pool h r (ndims cart) (Some xs) =
        Some (Inr (Some (norm_coords (dims cart) (periodic cart) xs)))
    else MPI_Cart_rank pool h (Some xs) True = Some (Inl (MPIU_ERR_CREATE MPI_ERR_ARG ''**cartcoordinvalid''))"
proof -
  let ?ns = "norm_coords (dims cart) (periodic cart) xs"
  have c: "grid_ok (dims cart)" "nnodes cart = prod_list (dims cart)" "length (periodic cart) = length (dims cart)"
    using assms(3) by (simp_all add: cart_ok_def)
  show ?thesis
  proof (cases "legal_coords (dims cart) (periodic cart) xs")
    case True
    then have ns: "in_grid (dims cart) ?ns" by (rule norm_in_grid [OF c(1,3)])
    note r = grid_rank_range [OF ns]
    have "MPI_Cart_coords pool h (grid_rank (dims cart) ?ns) (ndims cart) (Some xs) = Some (Inr (Some ?ns))"
      using MPI_Cart_coords_result [where pool = pool and h = h, OF assms(1-3) _ _ assms(5)] r assms(4) c(2)
        grid_coords_rank [OF ns] by simp
    with True r c(2) MPI_Cart_rank_result [where pool = pool and h = h, OF assms(1-3,5,6)] show ?thesis by simp
  next
    case False
    with MPI_Cart_rank_result [where pool = pool and h = h, OF assms(1-3,5,6)] show ?thesis
      by (simp add: fail_def)
  qed
qed

lemma MPI_Cart_rank_witness:
  "(\<exists>r. MPI_Cart_rank demo_pool 0x84000001 (Some [1, -3]) True = Some (Inr r) \<and> 0 \<le> r \<and> r < 12 \<and>
     MPI_Cart_coords demo_pool 0x84000001 r 2 (Some [1, -3]) = Some (Inr (Some [1, 1]))) \<and>
   MPI_Cart_rank demo_pool 0x84000001 (Some [3, 0]) True =
     Some (Inl (MPIU_ERR_CREATE MPI_ERR_ARG ''**cartcoordinvalid''))"
  using MPI_Cart_rank_correct [where pool = demo_pool and xs = "[1, -3]", OF demo_pool_at demo_cart_ok]
    MPI_Cart_rank_correct [where pool = demo_pool and xs = "[3, 0]", OF demo_pool_at demo_cart_ok]
  by (simp add: demo_cart_def demo_comm_def ints_def legal_coords_def norm_coords_def norm_coord_def
      nth_Cons less_Suc_eq split: nat.splits)

text \<open>C31: on a communicator with a well-formed Cartesian topology of at most 16 dimensions,
\<open>MPI_Cart_shift\<close> along a direction whose size is at most \<open>2\<^sup>3\<^sup>0\<close>, by a displacement between \<open>-2\<^sup>3\<^sup>0\<close>
and \<open>2\<^sup>3\<^sup>0\<close> exclusively, gives as destination the process whose coordinate in that direction is larger by
the displacement and as source the one where it is smaller, wrapped around in a periodic direction and
\<open>MPI_PROC_NULL\<close> over the edge of a non-periodic one. The bounds are those of the code: it has an
array of 16 coordinates and computes the sum of a coordinate and the displacement as an \<open>int\<close>.\<close>

theorem MPI_Cart_shift_correct:
  assumes "pool h = Some c" "comm_topo c = Some (Cart_topo cart)" "cart_ok cart"
    "k < length (dims cart)" "length (dims cart) \<le> 16" "comm_rank c = grid_rank (dims cart) (position cart)"
    "dims cart ! k \<le> 2 ^ 30" "\<bar>disp\<bar> < 2 ^ 30"
  shows "MPI_Cart_shift pool h (int k) disp True True =
    Some (Inr (neighbour cart k (position cart ! k - disp), neighbour cart k (position cart ! k + disp)))"
  by (rule MPI_Cart_shift_result [where pool = pool and h = h, OF assms])

lemma MPI_Cart_shift_witness:
  "MPI_Cart_shift demo_pool 0x84000001 1 2 True True = Some (Inr (11, 11)) \<and>
   MPI_Cart_shift demo_pool 0x84000001 0 1 True True = Some (Inr (5, MPI_PROC_NULL))"
  using MPI_Cart_shift_correct [where pool = demo_pool and k = 1 and disp = 2, OF demo_pool_at demo_cart_ok]
    MPI_Cart_shift_correct [where pool = demo_pool and k = 0 and disp = 1, OF demo_pool_at demo_cart_ok]
  by (simp add: demo_cart_def demo_comm_def neighbour_def norm_coord_def)

text \<open>C32: shifts match up across the processes of a grid of at most 16 dimensions, along a direction whose
size is at most \<open>2\<^sup>3\<^sup>0\<close> and by a displacement between \<open>-2\<^sup>3\<^sup>0\<close> and \<open>2\<^sup>3\<^sup>0\<close> exclusively (beyond which the
sum of coordinate and displacement may wrap around): if the destination of a process is another process,
then that process, doing the same shift, gets the first one as its source.\<close>

theorem MPI_Cart_shift_matches:
  assumes here: "pool h = Some c" "comm_topo c = Some (Cart_topo cart)" "cart_ok cart"
    "comm_rank c = grid_rank (dims cart) (position cart)"
    and dir: "k < length (dims cart)" "length (dims cart) \<le> 16" "dims cart ! k \<le> 2 ^ 30" "\<bar>disp\<bar> < 2 ^ 30"
    and shift: "MPI_Cart_shift pool h (int k) disp True True = Some (Inr (source, dest))" "dest \<noteq> MPI_PROC_NULL"
    and there: "pool' h' = Some c'" "comm_rank c' = dest"
      "comm_topo c' = Some (Cart_topo (cart\<lparr>position := grid_coords (dims cart) dest\<rparr>))"
  shows "\<exists>dest'. MPI_Cart_shift pool' h' (int k) disp True True = Some (Inr (comm_rank c, dest'))"
proof -
  let ?cart' = "cart\<lparr>position := grid_coords (dims cart) dest\<rparr>"
  have d: "dest = neighbour cart k (position cart ! k + disp)"
    using shift(1) MPI_Cart_shift_result [where pool = pool and h = h, OF here(1-3) dir(1,2) here(4) dir(3,4)] by simp
  note nb = neighbour_back [OF here(3) dir(1), of disp ?cart', folded d, OF shift(2) refl]
  have "MPI_Cart_shift pool' h' (int k) disp True True =
    Some (Inr (neighbour ?cart' k (position ?cart' ! k - disp), neighbour ?cart' k (position ?cart' ! k + disp)))"
    using MPI_Cart_shift_result [where pool = pool' and h = h' and k = k and disp = disp, OF there(1,3) nb(1)]
      dir nb(3) there(2) by simp
  then show ?thesis using nb(2) here(4) by simp
qed

lemma MPI_Cart_shift_matches_witness:
  "\<exists>dest'. MPI_Cart_shift
      [0x84000002 \<mapsto> demo_comm\<lparr>comm_rank := 8, comm_topo := Some (Cart_topo (demo_cart\<lparr>position := [2, 0]\<rparr>))\<rparr>]
      0x84000002 1 3 True True = Some (Inr (9, dest'))"
proof -
  have "MPI_Cart_shift demo_pool 0x84000001 (int 1) 3 True True = Some (Inr (10, 8))"
    by (subst MPI_Cart_shift_result [where pool = demo_pool and h = "0x84000001", OF demo_pool_at demo_cart_ok])
       (simp_all add: demo_cart_def demo_comm_def neighbour_def norm_coord_def)
  from MPI_Cart_shift_matches [where pool = demo_pool and k = 1 and disp = 3
      and pool' = "[0x84000002 \<mapsto> demo_comm\<lparr>comm_rank := 8, comm_topo := Some (Cart_topo (demo_cart\<lparr>position := [2, 0]\<rparr>))\<rparr>]"
      and h' = "0x84000002", OF demo_pool_at demo_cart_ok _ _ _ _ _ this]
  show ?thesis by (simp add: demo_cart_def demo_comm_def MPI_PROC_NULL_def)
qed

text \<open>C33: \<open>MPI_Cart_create\<close> without reordering, for dimensions of at least 1 whose product fits an
\<open>int\<close>: an error if the grid is larger than the communicator, the null communicator on processes
beyond the grid, and on the others a communicator with a well-formed topology in which the process
sits at the coordinates of its rank.\<close>

theorem MPI_Cart_create_correct:
  assumes "pool h = Some c" "\<not> inter_comm c" "ds \<noteq> []" "grid_ok ds" "prod_list ds < 2 ^ 31"
    "length periods = length ds" "0 \<le> comm_rank c"
    "comm_copy env (prod_list ds) = Inr (if comm_rank c < prod_list ds then Some nc else None)"
    "malloc_topo env" "topology_put env = Inr ()"
  shows "\<exists>res. MPI_Cart_create env pool h (int (length ds)) (Some ds) (Some periods) False True = Some res \<and>
    (if prod_list ds > remote_size c then res = Inl (MPIU_ERR_CREATE MPI_ERR_ARG ''**cartdim'')
     else if comm_rank c \<ge> prod_list ds then res = Inr None
     else \<exists>cart. res = Inr (Some (nc\<lparr>comm_topo := Some (Cart_topo cart)\<rparr>)) \<and> cart_ok cart \<and>
       dims cart = ds \<and> periodic cart = periods \<and> grid_rank ds (position cart) = comm_rank c)"
proof -
  have eq: "MPI_Cart_create env pool h (int (length ds)) (Some ds) (Some periods) False True =
    MPIR_Cart_create env c (int (length ds)) ds periods False"
    using assms(1,2) by (simp add: MPI_Cart_create_def MpiaCommValidateIntracomm_def check_def)
  have grid: "comm_rank c < prod_list ds \<Longrightarrow> in_grid ds (grid_coords ds (comm_rank c)) \<and>
    grid_rank ds (grid_coords ds (comm_rank c)) = comm_rank c"
    using grid_coords_in_grid [OF assms(4,7)] grid_rank_coords [OF assms(4,7)] by simp
  show ?thesis
    unfolding eq MPIR_Cart_create_result [OF assms(3-10)]
    using assms(4-6) grid by (auto simp: fail_def cart_ok_def)
qed

definition demo_creation :: creation where
  "demo_creation = \<lparr>comm_copy = (\<lambda>n. Inr (if 9 < n then Some demo_comm else None)),
     comm_split = (\<lambda>color key. Inr (Some (demo_comm\<lparr>remote_size := 3, comm_rank := key\<rparr>))),
     dup_self = Inr demo_comm, malloc_topo = True, topology_put = Inr ()\<rparr>"

lemma MPI_Cart_create_witness:
  "\<exists>cart. MPI_Cart_create demo_creation demo_pool 0x84000001 3 (Some [2, 3, 2]) (Some [1, 0, 0]) False True =
    Some (Inr (Some (demo_comm\<lparr>comm_topo := Some (Cart_topo cart)\<rparr>))) \<and> cart_ok cart \<and>
    grid_rank [2, 3, 2] (position cart) = 9"
  using MPI_Cart_create_correct [where pool = demo_pool and env = demo_creation and ds = "[2, 3, 2]"
      and periods = "[1, 0, 0]" and nc = demo_comm, OF demo_pool_at(1)]
  by (auto simp: demo_comm_def demo_creation_def)



end
