(* ===== verification/Graph_Topology.thy ===== *)
theory Graph_Topology
  imports Cart_Grid
begin

text \<open>
  Graph topologies: what \<open>MPI_Graph_create\<close> accepts, and that the neighbour queries hand out the
  edge list of the caller slice by slice.
\<close>

definition neighbours_of :: "int list \<Rightarrow> int list \<Rightarrow> nat \<Rightarrow> int list" where
  "neighbours_of index edges r =
     (let s = (if r = 0 then 0 else nat (index ! (r - 1)))
      in take (nat (index ! r) - s) (drop s edges))"

text \<open>What the code lets through: an index array that rises and edges that are no larger than the
size of the communicator (so the size itself, which is no rank, is accepted).\<close>

definition graph_valid :: "int list \<Rightarrow> int list \<Rightarrow> int \<Rightarrow> bool" where
  "graph_valid index edges csize \<longleftrightarrow>
     (\<forall>x\<in>set index. 0 \<le> x) \<and> sorted index \<and> (\<forall>e\<in>set (take (nat (last index)) edges). 0 \<le> e \<and> e \<le> csize)"

lemma check_index_from:
  assumes "s \<le> length index"
  shows "if (\<forall>x\<in>set (drop s index). 0 \<le> x) \<and> sorted (drop s index)
    then check_index index (int (length index)) (map int [s..<length index]) = Some (Inr ())
    else \<exists>k. check_index index (int (length index)) (map int [s..<length index]) = fail MPI_ERR_ARG k"
  using assms
proof (induction "length index - s" arbitrary: s)
  case (Suc m)
  then have s: "s < length index" by simp
  have IH: "if (\<forall>x\<in>set (drop (Suc s) index). 0 \<le> x) \<and> sorted (drop (Suc s) index)
    then check_index index (int (length index)) (map int [Suc s..<length index]) = Some (Inr ())
    else \<exists>k. check_index index (int (length index)) (map int [Suc s..<length index]) = fail MPI_ERR_ARG k"
    by (rule Suc.hyps(1)) (use Suc.hyps(2) s in auto)
  have list: "[s..<length index] = s # [Suc s..<length index]" using s by (simp add: upt_conv_Cons)
  have here: "drop s index = index ! s # drop (Suc s) index" using s by (simp add: Cons_nth_drop_Suc)
  show ?case
  proof (cases "Suc s < length index")
    case False
    then have [simp]: "drop (Suc s) index = []" by simp
    from False s have "[Suc s..<length index] = []" by simp
    then show ?thesis using s False unfolding list here by (simp add: not_less) (auto simp: not_le)
  next
    case True
    have next_one: "rd index (1 + int s) = Some (index ! Suc s)" using rd_int [OF True] by simp
    from True have "drop (Suc s) index = index ! Suc s # drop (Suc (Suc s)) index"
      by (simp add: Cons_nth_drop_Suc)
    then have sorted: "sorted (drop s index) \<longleftrightarrow> index ! s \<le> index ! Suc s \<and> sorted (drop (Suc s) index)"
      unfolding here by auto
    have set: "(\<forall>x\<in>set (drop s index). 0 \<le> x) \<longleftrightarrow> 0 \<le> index ! s \<and> (\<forall>x\<in>set (drop (Suc s) index). 0 \<le> x)"
      unfolding here by simp
    consider "index ! s < 0" | "0 \<le> index ! s" "index ! Suc s < index ! s" | "0 \<le> index ! s" "index ! s \<le> index ! Suc s"
      by linarith
    then show ?thesis
    proof cases
      case 3
      then show ?thesis using IH s True next_one unfolding sorted set list by (simp add: add.commute del: rd_eq_Some)
    qed (use s True next_one in \<open>auto simp: sorted set list add.commute simp del: rd_eq_Some\<close>)
  qed
qed simp

lemma check_index_result:
  "if (\<forall>x\<in>set index. 0 \<le> x) \<and> sorted index
   then check_index index (int (length index)) [0..int (length index) - 1] = Some (Inr ())
   else \<exists>k. check_index index (int (length index)) [0..int (length index) - 1] = fail MPI_ERR_ARG k"
  using check_index_from [of 0 index] by (simp add: index_range)

lemma check_edges_result:
  "\<forall>i\<in>set is. i < length edges \<Longrightarrow>
   check_edges edges csize (map int is) =
    (if \<forall>i\<in>set is. 0 \<le> edges ! i \<and> edges ! i \<le> csize then Some (Inr ())
     else fail MPI_ERR_ARG ''**edgeoutrange'')"
  by (induction "is") auto

lemma copy_array_range:
  "e \<le> length src \<Longrightarrow> copy_array src (map int [s..<e]) = Some (take (e - s) (drop s src))"
proof (induction "e - s" arbitrary: s)
  case (Suc m)
  then have s: "s < e" "s < length src" by simp_all
  have "copy_array src (map int [Suc s..<e]) = Some (take (e - Suc s) (drop (Suc s) src))"
    by (rule Suc.hyps(1)) (use Suc in auto)
  moreover have "[s..<e] = s # [Suc s..<e]" using s by (simp add: upt_conv_Cons)
  moreover have "take (e - s) (drop s src) = src ! s # take (e - Suc s) (drop (Suc s) src)"
    using s by (simp add: Cons_nth_drop_Suc [symmetric] Suc_diff_Suc [symmetric] del: Suc_diff_Suc)
  ultimately show ?case using s by simp
qed simp

lemma copy_array_all: "n \<le> length src \<Longrightarrow> copy_array src [0..int n - 1] = Some (take n src)"
  using copy_array_range [of n src 0] by (simp add: index_range)

text \<open>The slices tile the edge list.\<close>

lemma slices_tile:
  assumes "sorted index" "\<forall>x\<in>set index. 0 \<le> x" "k \<le> length index"
  shows "concat (map (neighbours_of index edges) [0..<k]) =
    take (if k = 0 then 0 else nat (index ! (k - 1))) edges"
  using assms(3)
proof (induction k)
  case (Suc k)
  let ?s = "if k = 0 then 0 else nat (index ! (k - 1))"
  have le: "?s \<le> nat (index ! k)"
    using assms(1) Suc.prems by (auto intro!: nat_mono sorted_nth_mono)
  have "concat (map (neighbours_of index edges) [0..<Suc k]) = take ?s edges @ neighbours_of index edges k"
    using Suc by simp
  also have "\<dots> = take ?s edges @ take (nat (index ! k) - ?s) (drop ?s edges)"
    by (simp add: neighbours_of_def Let_def)
  also have "\<dots> = take (?s + (nat (index ! k) - ?s)) edges" by (rule take_add [symmetric])
  finally show ?case using le by simp
qed simp

lemma slice_of_prefix:
  assumes "sorted index" "\<forall>x\<in>set index. 0 \<le> x" "r < length index"
  shows "neighbours_of index (take (nat (last index)) edges) r = neighbours_of index edges r"
proof -
  have "index \<noteq> []" using assms(3) by auto
  then have "index ! r \<le> last index" using assms(1,3) by (auto simp: last_conv_nth intro: sorted_nth_mono)
  then show ?thesis by (simp add: neighbours_of_def Let_def drop_take min_def)
qed

lemma last_nat: "index \<noteq> [] \<Longrightarrow> index ! nat (int (length index) - 1) = last index"
  by (cases index rule: rev_cases) simp_all

text \<open>The communicator the topology is put on: by a split with the mapped rank, or of the first
processes.\<close>

definition graph_comm :: "creation \<Rightarrow> MPID_Comm \<Rightarrow> nat \<Rightarrow> bool \<Rightarrow> mpi_error + MPID_Comm option" where
  "graph_comm env c n reorder =
     (if \<not> reorder then comm_copy env (int n)
      else if comm_rank c < int n then comm_split env 1 (comm_rank c)
      else comm_split env MPI_UNDEFINED MPI_UNDEFINED)"

lemma MPI_Graph_create_result:
  assumes "pool h = Some c" "\<not> inter_comm c" "index \<noteq> []" "int (length index) \<le> remote_size c"
    "nat (last index) \<le> length edges" "graph_valid index edges (remote_size c)" "0 \<le> comm_rank c"
  shows "MPI_Graph_create env pool h (int (length index)) (Some index) (Some edges) reorder True =
    check (graph_comm env c (length index) reorder) (\<lambda>made. case made of
      None \<Rightarrow> Some (Inr None)
    | Some nc \<Rightarrow>
        if \<not> malloc_topo env then Some (Inl MPIU_ERR_NOMEM)
        else put_topology env nc (Graph_topo \<lparr>g_nnodes = int (length index), g_nedges = last index,
          g_index = index, g_edges = take (nat (last index)) edges\<rparr>))"
proof -
  have v: "\<forall>x\<in>set index. 0 \<le> x" "sorted index" "\<forall>e\<in>set (take (nat (last index)) edges). 0 \<le> e \<and> e \<le> remote_size c"
    using assms(6) by (simp_all add: graph_valid_def)
  have idx: "check_index index (int (length index)) [0..int (length index) - 1] = Some (Inr ())"
    using check_index_result [of index] v by simp
  have last: "rd index (int (length index) - 1) = Some (last index)"
    using assms(3) by (simp add: last_nat)
  have l0: "last index = int (nat (last index))" using v(1) assms(3) by simp
  have edg: "check_edges edges (remote_size c) [0..last index - 1] = Some (Inr ())"
    using v(3) assms(5) by (subst l0, subst index_range, subst check_edges_result) (auto simp: set_conv_nth)
  have es: "copy_array edges [0..last index - 1] = Some (take (nat (last index)) edges)"
    by (subst l0) (rule copy_array_all [OF assms(5)])
  have made: "(if reorder then let r = MPIR_Graph_map c (int (length index))
        in comm_split env (if r = MPI_UNDEFINED then MPI_UNDEFINED else 1) r
      else comm_copy env (int (length index))) = graph_comm env c (length index) reorder"
    using assms(7) by (simp add: graph_comm_def MPIR_Graph_map_def MPI_UNDEFINED_def)
  have "MPI_Graph_create env pool h (int (length index)) (Some index) (Some edges) reorder True =
      MPIR_Graph_create env c (int (length index)) index edges reorder"
    using assms(1-4) idx last edg
    by (simp add: MPI_Graph_create_def MpiaCommValidateIntracomm_def check_def del: rd_eq_Some)
  also have "\<dots> = check (graph_comm env c (length index) reorder) (\<lambda>made. case made of
      None \<Rightarrow> Some (Inr None)
    | Some nc \<Rightarrow>
        if \<not> malloc_topo env then Some (Inl MPIU_ERR_NOMEM)
        else put_topology env nc (Graph_topo \<lparr>g_nnodes = int (length index), g_nedges = last index,
          g_index = index, g_edges = take (nat (last index)) edges\<rparr>))"
    unfolding MPIR_Graph_create_def made
    using last es copy_array_all [of "length index" index]
    by (simp add: check_def del: rd_eq_Some split: sum.split option.split)
  finally show ?thesis .
qed

lemma MPI_Graph_create_invalid:
  assumes "pool h = Some c" "\<not> inter_comm c" "index \<noteq> []"
    "nat (last index) \<le> length edges" "\<not> (int (length index) \<le> remote_size c \<and> graph_valid index edges (remote_size c))"
  shows "\<exists>k. MPI_Graph_create env pool h (int (length index)) (Some index) (Some edges) reorder True =
    fail MPI_ERR_ARG k"
proof (cases "int (length index) \<le> remote_size c")
  case False
  then show ?thesis
    using assms(1-3) by (simp add: MPI_Graph_create_def MpiaCommValidateIntracomm_def check_def fail_def)
next
  case small: True
  show ?thesis
  proof (cases "(\<forall>x\<in>set index. 0 \<le> x) \<and> sorted index")
    case False
    then obtain k where k: "check_index index (int (length index)) [0..int (length index) - 1] = fail MPI_ERR_ARG k"
      using check_index_result [of index] by (simp split: if_splits) blast
    show ?thesis
      using assms k small by (simp add: MPI_Graph_create_def MpiaCommValidateIntracomm_def check_def fail_def)
  next
    case True
    have idx: "check_index index (int (length index)) [0..int (length index) - 1] = Some (Inr ())"
      using check_index_result [of index] True by simp
    have last: "rd index (int (length index) - 1) = Some (last index)"
      using assms(3) by (simp add: last_nat)
    have l0: "last index = int (nat (last index))" using True assms(3) by simp
    have "\<not> (\<forall>i\<in>set [0..<nat (last index)]. 0 \<le> edges ! i \<and> edges ! i \<le> remote_size c)"
      using assms(4,5) True small by (auto simp: graph_valid_def set_conv_nth)
    then have edg: "check_edges edges (remote_size c) [0..last index - 1] = fail MPI_ERR_ARG ''**edgeoutrange''"
      using assms(4) by (subst l0, subst index_range, subst check_edges_result) auto
    show ?thesis
      using assms idx last edg small
      by (simp add: MPI_Graph_create_def MpiaCommValidateIntracomm_def check_def fail_def del: rd_eq_Some)
  qed
qed

lemma MPI_Graph_neighbors_result:
  assumes "pool h = Some c" "comm_topo c = Some (Graph_topo g)" "g_nnodes g = int (length (g_index g))"
    "r < length (g_index g)" "sorted (g_index g)" "\<forall>x\<in>set (g_index g). 0 \<le> x"
    "last (g_index g) < 2 ^ 31" "last (g_index g) \<le> int (length (g_edges g))"
  shows "MPI_Graph_neighbors_count pool h (int r) True =
      Some (Inr (int (length (neighbours_of (g_index g) (g_edges g) r))))"
    and "MPI_Graph_neighbors pool h (int r) (int (length (neighbours_of (g_index g) (g_edges g) r))) True =
      Some (Inr (neighbours_of (g_index g) (g_edges g) r))"
proof -
  let ?ix = "g_index g"
  let ?s = "if r = 0 then 0 else nat (?ix ! (r - 1))"
  have "?ix \<noteq> []" using assms(4) by auto
  then have last: "?ix ! r \<le> last ?ix"
    using assms(4,5) by (auto simp: last_conv_nth intro: sorted_nth_mono)
  have ord: "0 \<le> ?ix ! r" "int ?s \<le> ?ix ! r"
    using assms(4-6) by (auto intro!: sorted_nth_mono)
  have len: "int (length (neighbours_of ?ix (g_edges g) r)) = ?ix ! r - int ?s"
    using ord last assms(8) by (simp add: neighbours_of_def Let_def)
  have diff: "i32 (?ix ! r - int ?s) = ?ix ! r - int ?s"
    by (rule i32_id) (use ord last assms(7) in auto)
  have start: "(if int r = 0 then Some 0 else rd ?ix (int r - 1)) = Some (int ?s)"
    using assms(4,6) by (cases r) (simp_all del: rd_eq_Some)
  have copy: "copy_array (g_edges g) [int ?s..?ix ! r - 1] = Some (neighbours_of ?ix (g_edges g) r)"
    using range_from [of ?s "nat (?ix ! r)"] ord copy_array_range [of "nat (?ix ! r)" "g_edges g" ?s] last assms(8)
    by (simp add: neighbours_of_def Let_def)
  show "MPI_Graph_neighbors_count pool h (int r) True =
      Some (Inr (int (length (neighbours_of (g_index g) (g_edges g) r))))"
    using assms(1-4) start diff unfolding len
    by (simp add: MPI_Graph_neighbors_count_def MpiaCommValidateHandle_def with_graph_def check_def
        MpiaCommValidateTopology_def del: rd_eq_Some split: if_splits)
  show "MPI_Graph_neighbors pool h (int r) (int (length (neighbours_of (g_index g) (g_edges g) r))) True =
      Some (Inr (neighbours_of (g_index g) (g_edges g) r))"
    using assms(1-4) diff copy start rd_int [OF assms(4)] unfolding len
    by (cases "r = 0") (simp_all add: MPI_Graph_neighbors_def MpiaCommValidateHandle_def with_graph_def check_def
        MpiaCommValidateTopology_def del: rd_eq_Some)
qed

subsection \<open>Properties\<close>

text \<open>C38: \<open>MPI_Graph_create\<close> on an intracommunicator, for at least one node and an array of edges that has
the entries the index array announces (fewer than \<open>2\<^sup>3\<^sup>1\<close>), reports an argument error unless there are no
more nodes than processes, the index array rises from a non-negative value, and the edges are
non-negative and at most the size of the communicator (so the size itself, which is no rank, is
accepted). Otherwise the new communicator is made of the first processes, or with reordering by a split;
an error of that is returned, a process outside of it gets the null communicator, and a failed
allocation or attribute put is reported. A process inside gets the communicator with a topology that
answers, for every node, the slice of the caller's edges that its index entries delimit and the length of
that slice, and the slices of all nodes in order are the edges.\<close>

theorem MPI_Graph_create_neighbours:
  assumes "pool h = Some c" "\<not> inter_comm c" "0 \<le> comm_rank c" "index \<noteq> []"
    "nat (last index) \<le> length edges" "last index < 2 ^ 31"
  shows "if int (length index) \<le> remote_size c \<and> graph_valid index edges (remote_size c)
    then case graph_comm env c (length index) reorder of
      Inl e \<Rightarrow> MPI_Graph_create env pool h (int (length index)) (Some index) (Some edges) reorder True = Some (Inl e)
    | Inr None \<Rightarrow> MPI_Graph_create env pool h (int (length index)) (Some index) (Some edges) reorder True = Some (Inr None)
    | Inr (Some nc) \<Rightarrow>
        \<exists>g. MPI_Graph_create env pool h (int (length index)) (Some index) (Some edges) reorder True =
          (if \<not> malloc_topo env then Some (Inl MPIU_ERR_NOMEM)
           else case topology_put env of Inl e \<Rightarrow> Some (Inl e) | Inr _ \<Rightarrow> Some (Inr (Some (nc\<lparr>comm_topo := Some g\<rparr>)))) \<and>
        (\<forall>r<length index. MPI_Graph_neighbors_count [h' \<mapsto> nc\<lparr>comm_topo := Some g\<rparr>] h' (int r) True =
            Some (Inr (int (length (neighbours_of index edges r)))) \<and>
          MPI_Graph_neighbors [h' \<mapsto> nc\<lparr>comm_topo := Some g\<rparr>] h' (int r)
            (int (length (neighbours_of index edges r))) True = Some (Inr (neighbours_of index edges r))) \<and>
        concat (map (neighbours_of index edges) [0..<length index]) = take (nat (last index)) edges
    else \<exists>k. MPI_Graph_create env pool h (int (length index)) (Some index) (Some edges) reorder True =
        Some (Inl (MPIU_ERR_CREATE MPI_ERR_ARG k))"
proof (cases "int (length index) \<le> remote_size c \<and> graph_valid index edges (remote_size c)")
  case False
  then show ?thesis
    unfolding if_not_P [OF False]
    using MPI_Graph_create_invalid [where pool = pool and h = h, OF assms(1,2,4,5)] by (simp add: fail_def)
next
  case True
  let ?es = "take (nat (last index)) edges"
  let ?g = "Graph_topo \<lparr>g_nnodes = int (length index), g_nedges = last index, g_index = index, g_edges = ?es\<rparr>"
  have v: "sorted index" "\<forall>x\<in>set index. 0 \<le> x" using True by (simp_all add: graph_valid_def)
  have l0: "0 \<le> last index" using v(2) assms(4) by simp
  have slice: "neighbours_of index ?es r = neighbours_of index edges r" if "r < length index" for r
    using slice_of_prefix [OF v that] by simp
  have queries: "MPI_Graph_neighbors_count [h' \<mapsto> nc\<lparr>comm_topo := Some ?g\<rparr>] h' (int r) True =
          Some (Inr (int (length (neighbours_of index edges r)))) \<and>
        MPI_Graph_neighbors [h' \<mapsto> nc\<lparr>comm_topo := Some ?g\<rparr>] h' (int r)
          (int (length (neighbours_of index edges r))) True = Some (Inr (neighbours_of index edges r))"
    if r: "r < length index" for r nc
    using MPI_Graph_neighbors_result [where pool = "[h' \<mapsto> nc\<lparr>comm_topo := Some ?g\<rparr>]" and h = h' and
        c = "nc\<lparr>comm_topo := Some ?g\<rparr>" and r = r] r v assms(5,6) l0 slice [OF r] by simp
  have tile: "concat (map (neighbours_of index edges) [0..<length index]) = ?es"
    using slices_tile [OF v order.refl, of edges] assms(4) by (simp add: last_conv_nth)
  note run = MPI_Graph_create_result [where pool = pool and h = h and env = env and reorder = reorder,
      OF assms(1,2,4) _ assms(5) _ assms(3)]
  show ?thesis
    unfolding if_P [OF True]
    using True run queries tile
    by (auto simp: check_def put_topology_def split: sum.split option.split intro!: exI [of _ ?g])
qed

text \<open>The ring of three nodes with an extra edge from the last to itself.\<close>

definition ring_comm :: MPID_Comm where
  "ring_comm = \<lparr>remote_size = 3, comm_rank = 0, inter_comm = False, comm_topo = None\<rparr>"

definition ring_creation :: creation where
  "ring_creation = \<lparr>comm_copy = (\<lambda>n. Inr (Some ring_comm)), comm_split = (\<lambda>color key. Inr (Some ring_comm)),
     dup_self = Inr ring_comm, malloc_topo = True, topology_put = Inr ()\<rparr>"

lemma MPI_Graph_create_neighbours_witness:
  "(\<exists>g. MPI_Graph_create ring_creation [0x44000000 \<mapsto> ring_comm] 0x44000000 3 (Some [1, 2, 4])
      (Some [1, 2, 0, 2]) False True = Some (Inr (Some (ring_comm\<lparr>comm_topo := Some g\<rparr>))) \<and>
    MPI_Graph_neighbors [0x84000001 \<mapsto> ring_comm\<lparr>comm_topo := Some g\<rparr>] 0x84000001 2 2 True =
      Some (Inr [0, 2])) \<and>
   (\<exists>k. MPI_Graph_create ring_creation [0x44000000 \<mapsto> ring_comm] 0x44000000 3 (Some [2, 1, 4])
      (Some [1, 2, 0, 2]) False True = Some (Inl (MPIU_ERR_CREATE MPI_ERR_ARG k)))"
proof -
  have good: "graph_valid [1, 2, 4] [1, 2, 0, 2] (remote_size ring_comm)"
    by (simp add: graph_valid_def ring_comm_def eval_nat_numeral)
  have bad: "\<not> graph_valid [2, 1, 4] [1, 2, 0, 2] (remote_size ring_comm)"
    by (simp add: graph_valid_def)
  have two: "neighbours_of [1, 2, 4] [1, 2, 0, 2] 2 = [0, 2]" "(2 :: nat) < length [1, 2, 4 :: int]"
    by (simp_all add: neighbours_of_def eval_nat_numeral)
  note props = MPI_Graph_create_neighbours [where pool = "[0x44000000 \<mapsto> ring_comm]" and h = "0x44000000"
      and c = ring_comm and env = ring_creation and reorder = False and h' = "0x84000001"]
  have made: "graph_comm ring_creation ring_comm 3 False = Inr (Some ring_comm)"
    and env: "malloc_topo ring_creation" "topology_put ring_creation = Inr ()"
    by (simp_all add: graph_comm_def ring_creation_def)
  obtain g where g: "MPI_Graph_create ring_creation [0x44000000 \<mapsto> ring_comm] 0x44000000 3 (Some [1, 2, 4])
      (Some [1, 2, 0, 2]) False True = Some (Inr (Some (ring_comm\<lparr>comm_topo := Some g\<rparr>)))"
    and nb: "\<forall>r<3. MPI_Graph_neighbors [0x84000001 \<mapsto> ring_comm\<lparr>comm_topo := Some g\<rparr>] 0x84000001 (int r)
      (int (length (neighbours_of [1, 2, 4] [1, 2, 0, 2] r))) True = Some (Inr (neighbours_of [1, 2, 4] [1, 2, 0, 2] r))"
    using props [where index = "[1, 2, 4]" and edges = "[1, 2, 0, 2]"] good made env
    by (auto simp: ring_comm_def eval_nat_numeral)
  have "\<exists>k. MPI_Graph_create ring_creation [0x44000000 \<mapsto> ring_comm] 0x44000000 3 (Some [2, 1, 4])
      (Some [1, 2, 0, 2]) False True = Some (Inl (MPIU_ERR_CREATE MPI_ERR_ARG k))"
    using props [where index = "[2, 1, 4]" and edges = "[1, 2, 0, 2]"] bad
    by (auto simp: ring_comm_def ring_creation_def)
  then show ?thesis using g nb [rule_format, of 2] two by auto
qed

text \<open>An edge equal to the size of the communicator, which is not a rank, passes the checks of
\<open>MPI_Graph_create\<close> and is handed out as a neighbour.\<close>

theorem MPI_Graph_create_accepts_size:
  assumes "pool h = Some c" "\<not> inter_comm c" "1 \<le> remote_size c" "0 \<le> comm_rank c"
    "comm_copy env 1 = Inr (Some nc)" "remote_size nc \<le> remote_size c" "malloc_topo env" "topology_put env = Inr ()"
  shows "\<exists>g. MPI_Graph_create env pool h 1 (Some [1]) (Some [remote_size c]) False True =
        Some (Inr (Some (nc\<lparr>comm_topo := Some g\<rparr>))) \<and>
      MPI_Graph_neighbors [h' \<mapsto> nc\<lparr>comm_topo := Some g\<rparr>] h' 0 1 True = Some (Inr [remote_size c]) \<and>
      MpiaCommValidateRank c (remote_size c) = Inl (MPIU_ERR_CREATE MPI_ERR_RANK ''**rank'')"
proof -
  let ?g = "\<lparr>g_nnodes = 1, g_nedges = 1, g_index = [1], g_edges = [remote_size c]\<rparr>"
  let ?c = "nc\<lparr>comm_topo := Some (Graph_topo ?g)\<rparr>"
  have v: "graph_valid [1] [remote_size c] (remote_size c)" using assms(3) by (simp add: graph_valid_def)
  have "MPI_Graph_create env pool h 1 (Some [1]) (Some [remote_size c]) False True = Some (Inr (Some ?c))"
    using MPI_Graph_create_result [where pool = pool and h = h and index = "[1]" and edges = "[remote_size c]",
        OF assms(1,2) _ _ _ v assms(4)] assms by (simp add: graph_comm_def check_def put_topology_def)
  moreover have "MPI_Graph_neighbors [h' \<mapsto> ?c] h' 0 1 True = Some (Inr [remote_size c])"
    using MPI_Graph_neighbors_result(2) [where pool = "[h' \<mapsto> ?c]" and h = h' and c = ?c and g = ?g and r = 0]
    by (simp add: neighbours_of_def)
  ultimately show ?thesis
    by (intro exI [of _ "Graph_topo ?g"]) (simp add: MpiaCommValidateRank_def)
qed

lemma MPI_Graph_create_accepts_size_witness:
  "\<exists>g. MPI_Graph_create ring_creation [0x44000000 \<mapsto> ring_comm] 0x44000000 1 (Some [1]) (Some [3]) False True =
        Some (Inr (Some (ring_comm\<lparr>comm_topo := Some g\<rparr>))) \<and>
      MPI_Graph_neighbors [0x84000001 \<mapsto> ring_comm\<lparr>comm_topo := Some g\<rparr>] 0x84000001 0 1 True = Some (Inr [3])"
  using MPI_Graph_create_accepts_size [where pool = "[0x44000000 \<mapsto> ring_comm]" and h = "0x44000000"
      and c = ring_comm and nc = ring_comm and env = ring_creation and h' = "0x84000001"]
  by (auto simp: ring_comm_def ring_creation_def)

end
