(* ===== verification/Message_Passing.thy ===== *)
theory Message_Passing
  imports Prelude
begin

text \<open>
  Processes that exchange messages: the setting of the collective operations. The code of a
  process is the list of the point-to-point operations it performs; every operation but the
  posting of a receive may fail, and since the collectives return at the first error, a failure
  ends the process. A step relation interleaves the processes. It leaves open, message by
  message, whether the device delivers eagerly (the sender's wait returns at once) or by
  rendezvous (it returns when the receiver has posted the receive).

  The locale \<open>contract\<close> is the proof rule for what collectives compute: a weakest precondition
  over the operations of one process, with an invariant for the messages of every channel. The
  locale \<open>schedule\<close> is the one for deadlock freedom: a level for every operation that grows along
  each process and from the operation another process waits for to the wait.
\<close>

subsection \<open>Operations\<close>

text \<open>
  A message is matched by the context id, the tag with the kind of the communicator in its high
  bits, and the connection it arrives on. One collective call uses one context id and one tag, so a
  channel is the kind of the (sub-)communicator, the sending and the receiving process.
\<close>

datatype comm_kind = INTRACOMM_PARENT | INTRACOMM_NODE | INTRACOMM_NODE_ROOT

datatype channel = Channel (chan_kind: comm_kind) (chan_src: int) (chan_dst: int)

datatype ('m, 'd) action =
    Isend channel "'d \<Rightarrow> 'm"
  | Irecv channel
  | WaitSend channel
  | WaitRecv channel "'m \<Rightarrow> 'd \<Rightarrow> 'd"

record ('p, 'm, 'd) net =
  started :: "'p set"
  pos :: "'p \<Rightarrow> nat"
  dat :: "'p \<Rightarrow> 'd"
  err :: "'p \<Rightarrow> mpi_error option"
  chan :: "channel \<Rightarrow> 'm list"
  posted :: "channel \<Rightarrow> nat"

definition net_init :: "('p \<Rightarrow> 'd) \<Rightarrow> ('p, 'm, 'd) net" where
  "net_init d = \<lparr>started = {}, pos = (\<lambda>_. 0), dat = d, err = (\<lambda>_. None), chan = (\<lambda>_. []), posted = (\<lambda>_. 0)\<rparr>"

text \<open>The operation a running process is at.\<close>

definition at_op :: "('p \<Rightarrow> ('m, 'd) action list) \<Rightarrow> ('p, 'm, 'd) net \<Rightarrow> 'p \<Rightarrow> ('m, 'd) action \<Rightarrow> bool" where
  "at_op P s p a \<longleftrightarrow> p \<in> started s \<and> err s p = None \<and> pos s p < length (P p) \<and> P p ! pos s p = a"

definition returned :: "('p \<Rightarrow> ('m, 'd) action list) \<Rightarrow> ('p, 'm, 'd) net \<Rightarrow> 'p \<Rightarrow> bool" where
  "returned P s p \<longleftrightarrow> p \<in> started s \<and> err s p = None \<and> pos s p = length (P p)"

abbreviation next_pos :: "('p, 'm, 'd) net \<Rightarrow> 'p \<Rightarrow> 'p \<Rightarrow> nat" where
  "next_pos s p \<equiv> (pos s)(p := Suc (pos s p))"

inductive net_step ::
  "'p set \<Rightarrow> ('p \<Rightarrow> ('m, 'd) action list) \<Rightarrow> (channel \<Rightarrow> bool) \<Rightarrow> ('p, 'm, 'd) net \<Rightarrow> ('p, 'm, 'd) net \<Rightarrow> bool"
  for procs P eager where
  enter: "p \<in> procs \<Longrightarrow> p \<notin> started s \<Longrightarrow>
     net_step procs P eager s (s\<lparr>started := insert p (started s)\<rparr>)"
| isend: "at_op P s p (Isend c f) \<Longrightarrow>
     net_step procs P eager s (s\<lparr>chan := (chan s)(c := chan s c @ [f (dat s p)]), pos := next_pos s p\<rparr>)"
| irecv: "at_op P s p (Irecv c) \<Longrightarrow>
     net_step procs P eager s (s\<lparr>posted := (posted s)(c := Suc (posted s c)), pos := next_pos s p\<rparr>)"
| wait_send: "at_op P s p (WaitSend c) \<Longrightarrow> eager c \<or> length (chan s c) \<le> posted s c \<Longrightarrow>
     net_step procs P eager s (s\<lparr>pos := next_pos s p\<rparr>)"
| wait_recv: "at_op P s p (WaitRecv c g) \<Longrightarrow> chan s c = m # ms \<Longrightarrow> 0 < posted s c \<Longrightarrow>
     net_step procs P eager s (s\<lparr>chan := (chan s)(c := ms), posted := (posted s)(c := posted s c - 1),
       dat := (dat s)(p := g m (dat s p)), pos := next_pos s p\<rparr>)"
| failure: "at_op P s p a \<Longrightarrow> net_step procs P eager s (s\<lparr>err := (err s)(p \<mapsto> e)\<rparr>)"

abbreviation reachable ::
  "'p set \<Rightarrow> ('p \<Rightarrow> ('m, 'd) action list) \<Rightarrow> (channel \<Rightarrow> bool) \<Rightarrow> ('p \<Rightarrow> 'd) \<Rightarrow> ('p, 'm, 'd) net \<Rightarrow> bool" where
  "reachable procs P eager d0 s \<equiv> (net_step procs P eager)\<^sup>*\<^sup>* (net_init d0) s"

subsection \<open>Weakest preconditions\<close>

type_synonym ('p, 'm) message_inv = "channel \<Rightarrow> 'm \<Rightarrow> 'p set \<Rightarrow> bool"

fun wp :: "('p, 'm) message_inv \<Rightarrow> ('m, 'd) action list \<Rightarrow> ('d \<Rightarrow> 'p set \<Rightarrow> bool) \<Rightarrow> 'd \<Rightarrow> 'p set \<Rightarrow> bool" where
  "wp M [] Q d E = Q d E"
| "wp M (Isend c f # as) Q d E = (M c (f d) E \<and> wp M as Q d E)"
| "wp M (Irecv c # as) Q d E = wp M as Q d E"
| "wp M (WaitSend c # as) Q d E = wp M as Q d E"
| "wp M (WaitRecv c g # as) Q d E = (\<forall>m E'. E \<subseteq> E' \<longrightarrow> M c m E' \<longrightarrow> wp M as Q (g m d) E')"

lemma wp_append: "wp M (as @ bs) Q d E = wp M as (wp M bs Q) d E"
  by (induction M as Q d E rule: wp.induct) auto

lemma wp_mono:
  "wp M as Q d E \<Longrightarrow> (\<And>d E'. E \<subseteq> E' \<Longrightarrow> Q d E' \<Longrightarrow> R d E') \<Longrightarrow> wp M as R d E"
proof (induction M as Q d E rule: wp.induct)
  case (5 M c g as Q d E)
  show ?case
    unfolding wp.simps
  proof (intro allI impI)
    fix m E' assume E: "E \<subseteq> E'" "M c m E'"
    show "wp M as R (g m d) E'"
      by (rule "5.IH" [OF E]) (use "5.prems" E in auto)
  qed
qed auto

definition monotone_in :: "('a \<Rightarrow> 'p set \<Rightarrow> bool) \<Rightarrow> bool" where
  "monotone_in Q \<longleftrightarrow> (\<forall>x E E'. E \<subseteq> E' \<longrightarrow> Q x E \<longrightarrow> Q x E')"

lemma monotone_inD: "monotone_in Q \<Longrightarrow> Q x E \<Longrightarrow> E \<subseteq> E' \<Longrightarrow> Q x E'"
  unfolding monotone_in_def by blast

lemma wp_grow:
  assumes "\<And>c. monotone_in (M c)" "monotone_in Q" "E \<subseteq> E'"
  shows "wp M as Q d E \<Longrightarrow> wp M as Q d E'"
proof (induction as arbitrary: d)
  case Nil
  then show ?case using assms(2,3) by (auto dest: monotone_inD)
next
  case (Cons a as)
  show ?case
  proof (cases a)
    case (Isend c f)
    then show ?thesis using Cons assms(1,3) by (auto dest: monotone_inD)
  next
    case (WaitRecv c g)
    show ?thesis
      unfolding WaitRecv wp.simps
    proof (intro allI impI)
      fix m F assume F: "E' \<subseteq> F" "M c m F"
      have "E \<subseteq> F" using assms(3) F(1) by (rule order_trans)
      then show "wp M as Q (g m d) F" using Cons.prems F(2) unfolding WaitRecv wp.simps by blast
    qed
  qed (use Cons in auto)
qed

text \<open>
  What the collectives of a family guarantee. The family is indexed (by the size of the
  communicator, say); \<open>ok\<close> says which indices are meant. If the code of every process meets its
  postcondition under the message invariant, every process that has returned without an error
  has its postcondition, in every interleaving and under every protocol.
\<close>

locale contract =
  fixes ok :: "'i \<Rightarrow> bool"
    and procs :: "'i \<Rightarrow> 'p set"
    and P :: "'i \<Rightarrow> 'p \<Rightarrow> ('m, 'd) action list"
    and M :: "'i \<Rightarrow> ('p, 'm) message_inv"
    and Q :: "'i \<Rightarrow> 'p \<Rightarrow> 'd \<Rightarrow> 'p set \<Rightarrow> bool"
    and d0 :: "'i \<Rightarrow> 'p \<Rightarrow> 'd"
  assumes M_mono: "ok i \<Longrightarrow> monotone_in (M i c)"
    and Q_mono: "ok i \<Longrightarrow> p \<in> procs i \<Longrightarrow> monotone_in (Q i p)"
    and code: "ok i \<Longrightarrow> p \<in> procs i \<Longrightarrow> p \<in> E \<Longrightarrow> wp (M i) (P i p) (Q i p) (d0 i p) E"
begin

definition inv :: "'i \<Rightarrow> ('p, 'm, 'd) net \<Rightarrow> bool" where
  "inv i s \<longleftrightarrow> started s \<subseteq> procs i \<and>
     (\<forall>p. p \<in> started s \<longrightarrow> wp (M i) (drop (pos s p) (P i p)) (Q i p) (dat s p) (started s)) \<and>
     (\<forall>p. p \<notin> started s \<longrightarrow> pos s p = 0 \<and> dat s p = d0 i p) \<and>
     (\<forall>c. \<forall>m\<in>set (chan s c). M i c m (started s))"

lemma at_op_drop: "at_op P' s p a \<Longrightarrow> drop (pos s p) (P' p) = a # drop (Suc (pos s p)) (P' p)"
  unfolding at_op_def by (auto simp: Cons_nth_drop_Suc)

lemma inv_step:
  assumes ok: "ok i" and inv: "inv i s" and step: "net_step (procs i) (P i) eager s t"
  shows "inv i t"
  using step
proof (cases rule: net_step.cases)
  case (enter p)
  have mono: "started s \<subseteq> insert p (started s)" by auto
  have "wp (M i) (drop (pos s q) (P i q)) (Q i q) (dat s q) (insert p (started s))"
    if "q \<in> insert p (started s)" for q
  proof (cases "q = p")
    case True
    then show ?thesis using inv enter(2,3) code [OF ok enter(2)] by (simp add: inv_def)
  next
    case False
    then have "q \<in> started s" using that by simp
    with inv have "q \<in> procs i" "wp (M i) (drop (pos s q) (P i q)) (Q i q) (dat s q) (started s)"
      unfolding inv_def by auto
    then show ?thesis using wp_grow [of "M i", OF M_mono [OF ok] Q_mono [OF ok] mono] by blast
  qed
  moreover have "M i c m (insert p (started s))" if "m \<in> set (chan s c)" for c m
    using inv that M_mono [OF ok, of c] mono unfolding inv_def by (meson monotone_inD)
  ultimately show ?thesis using inv enter unfolding inv_def by auto
next
  case (isend p c f)
  have p: "p \<in> started s" "wp (M i) (drop (pos s p) (P i p)) (Q i p) (dat s p) (started s)"
    using isend(2) inv unfolding at_op_def inv_def by auto
  then have "M i c (f (dat s p)) (started s)"
    "wp (M i) (drop (Suc (pos s p)) (P i p)) (Q i p) (dat s p) (started s)"
    using at_op_drop [OF isend(2)] by simp_all
  then show ?thesis using inv p(1) unfolding isend(1) inv_def by auto
next
  case (irecv p c)
  have p: "p \<in> started s" "wp (M i) (drop (pos s p) (P i p)) (Q i p) (dat s p) (started s)"
    using irecv(2) inv unfolding at_op_def inv_def by auto
  then have "wp (M i) (drop (Suc (pos s p)) (P i p)) (Q i p) (dat s p) (started s)"
    using at_op_drop [OF irecv(2)] by simp
  then show ?thesis using inv p(1) unfolding irecv(1) inv_def by auto
next
  case (wait_send p c)
  have p: "p \<in> started s" "wp (M i) (drop (pos s p) (P i p)) (Q i p) (dat s p) (started s)"
    using wait_send(2) inv unfolding at_op_def inv_def by auto
  then have "wp (M i) (drop (Suc (pos s p)) (P i p)) (Q i p) (dat s p) (started s)"
    using at_op_drop [OF wait_send(2)] by simp
  then show ?thesis using inv p(1) unfolding wait_send(1) inv_def by auto
next
  case (wait_recv p c g m ms)
  have p: "p \<in> started s" "wp (M i) (drop (pos s p) (P i p)) (Q i p) (dat s p) (started s)"
    using wait_recv(2) inv unfolding at_op_def inv_def by auto
  moreover have m: "M i c m (started s)" "\<forall>m'\<in>set ms. M i c m' (started s)"
    using inv wait_recv(3) unfolding inv_def by (metis list.set_intros)+
  ultimately have "wp (M i) (drop (Suc (pos s p)) (P i p)) (Q i p) (g m (dat s p)) (started s)"
    using at_op_drop [OF wait_recv(2)] by simp
  then show ?thesis using inv p(1) m(2) unfolding wait_recv(1) inv_def by auto
next
  case (failure p a e)
  then show ?thesis using inv unfolding inv_def by simp
qed

lemma inv_reachable: "reachable (procs i) (P i) eager (d0 i) s \<Longrightarrow> ok i \<Longrightarrow> inv i s"
proof (induction rule: rtranclp_induct)
  case base
  then show ?case by (simp add: inv_def net_init_def)
next
  case (step s t)
  then show ?case using inv_step by blast
qed

lemma returned_post:
  assumes "ok i" "reachable (procs i) (P i) eager (d0 i) s" "returned (P i) s p"
  shows "Q i p (dat s p) (started s)"
proof -
  have "inv i s" by (rule inv_reachable [OF assms(2,1)])
  then have "wp (M i) (drop (pos s p) (P i p)) (Q i p) (dat s p) (started s)"
    using assms(3) unfolding inv_def returned_def by blast
  then show ?thesis using assms(3) by (simp add: returned_def)
qed

end

subsection \<open>Deadlock freedom\<close>

fun is_send :: "channel \<Rightarrow> ('m, 'd) action \<Rightarrow> bool" where
  "is_send c (Isend c' f) = (c' = c)" | "is_send c _ = False"

fun is_post :: "channel \<Rightarrow> ('m, 'd) action \<Rightarrow> bool" where
  "is_post c (Irecv c') = (c' = c)" | "is_post c _ = False"

fun is_recv :: "channel \<Rightarrow> ('m, 'd) action \<Rightarrow> bool" where
  "is_recv c (WaitRecv c' g) = (c' = c)" | "is_recv c _ = False"

text \<open>How many of the first \<open>k\<close> operations satisfy a test.\<close>

definition performed :: "('a \<Rightarrow> bool) \<Rightarrow> 'a list \<Rightarrow> nat \<Rightarrow> nat" where
  "performed test as k = length (filter test (take k as))"

lemma performed_0 [simp]: "performed test as 0 = 0"
  by (simp add: performed_def)

lemma performed_Suc: "k < length as \<Longrightarrow> performed test as (Suc k) = performed test as k + (if test (as ! k) then 1 else 0)"
  by (simp add: performed_def take_Suc_conv_app_nth)

lemma performed_mono: "j \<le> k \<Longrightarrow> performed test as j \<le> performed test as k"
  by (metis performed_def filter_append le_add1 length_append take_add le_Suc_ex)

definition quiet_step ::
  "'p set \<Rightarrow> ('p \<Rightarrow> ('m, 'd) action list) \<Rightarrow> (channel \<Rightarrow> bool) \<Rightarrow> ('p, 'm, 'd) net \<Rightarrow> ('p, 'm, 'd) net \<Rightarrow> bool" where
  "quiet_step procs P eager s t \<longleftrightarrow> net_step procs P eager s t \<and> err t = err s"

definition finished :: "'p set \<Rightarrow> ('p \<Rightarrow> ('m, 'd) action list) \<Rightarrow> ('p, 'm, 'd) net \<Rightarrow> bool" where
  "finished procs P s \<longleftrightarrow> (\<forall>p\<in>procs. returned P s p) \<and> (\<forall>c. chan s c = [] \<and> posted s c = 0)"

lemma quiet_reachable:
  "(quiet_step procs P eager ^^ k) (net_init d0) s \<Longrightarrow> reachable procs P eager d0 s"
proof (induction k arbitrary: s)
  case (Suc k)
  then show ?case by (auto simp: quiet_step_def intro: rtranclp.rtrancl_into_rtrancl)
qed simp

text \<open>
  A family of programs with a schedule. Every channel has one sender and one receiver; a receive
  is posted before it is waited for, and the operation that a wait needs from the other process
  has a lower level. Then a run without failures never gets stuck before every process has
  returned and every message has been received, and it is not longer than the programs.
\<close>

locale schedule =
  fixes ok :: "'i \<Rightarrow> bool"
    and procs :: "'i \<Rightarrow> int set"
    and P :: "'i \<Rightarrow> int \<Rightarrow> ('m, 'd) action list"
    and lvl :: "'i \<Rightarrow> int \<Rightarrow> nat \<Rightarrow> nat"
  assumes finite_procs: "ok i \<Longrightarrow> finite (procs i)"
    and own_send: "ok i \<Longrightarrow> p \<in> procs i \<Longrightarrow> Isend c f \<in> set (P i p) \<Longrightarrow> p = chan_src c"
    and own_post: "ok i \<Longrightarrow> p \<in> procs i \<Longrightarrow> Irecv c \<in> set (P i p) \<Longrightarrow> p = chan_dst c"
    and own_recv: "ok i \<Longrightarrow> p \<in> procs i \<Longrightarrow> WaitRecv c g \<in> set (P i p) \<Longrightarrow> p = chan_dst c"
    and lvl_mono: "ok i \<Longrightarrow> p \<in> procs i \<Longrightarrow> Suc k < length (P i p) \<Longrightarrow> lvl i p k < lvl i p (Suc k)"
    and recv_posted: "ok i \<Longrightarrow> p \<in> procs i \<Longrightarrow> k < length (P i p) \<Longrightarrow> P i p ! k = WaitRecv c g \<Longrightarrow>
      performed (is_recv c) (P i p) k < performed (is_post c) (P i p) k"
    and recv_sent: "ok i \<Longrightarrow> p \<in> procs i \<Longrightarrow> k < length (P i p) \<Longrightarrow> P i p ! k = WaitRecv c g \<Longrightarrow>
      \<exists>j<length (P i (chan_src c)). chan_src c \<in> procs i \<and>
        performed (is_recv c) (P i p) k < performed (is_send c) (P i (chan_src c)) (Suc j) \<and> lvl i (chan_src c) j < lvl i p k"
    and send_posted: "ok i \<Longrightarrow> p \<in> procs i \<Longrightarrow> k < length (P i p) \<Longrightarrow> P i p ! k = WaitSend c \<Longrightarrow>
      chan_src c = p \<and> (\<exists>j<length (P i (chan_dst c)). chan_dst c \<in> procs i \<and>
        performed (is_send c) (P i p) k \<le> performed (is_post c) (P i (chan_dst c)) (Suc j) \<and> lvl i (chan_dst c) j < lvl i p k)"
    and balanced: "ok i \<Longrightarrow> performed (is_send c) (P i (chan_src c)) (length (P i (chan_src c))) =
        performed (is_recv c) (P i (chan_dst c)) (length (P i (chan_dst c)))"
      "ok i \<Longrightarrow> performed (is_post c) (P i (chan_dst c)) (length (P i (chan_dst c))) =
        performed (is_recv c) (P i (chan_dst c)) (length (P i (chan_dst c)))"
    and idle: "ok i \<Longrightarrow> p \<notin> procs i \<Longrightarrow> P i p = []"
begin

definition counts :: "'i \<Rightarrow> (int, 'm, 'd) net \<Rightarrow> bool" where
  "counts i s \<longleftrightarrow> started s \<subseteq> procs i \<and> (\<forall>p. p \<notin> started s \<longrightarrow> pos s p = 0) \<and>
     (\<forall>p. pos s p \<le> length (P i p)) \<and>
     (\<forall>c. length (chan s c) + performed (is_recv c) (P i (chan_dst c)) (pos s (chan_dst c)) =
        performed (is_send c) (P i (chan_src c)) (pos s (chan_src c)) \<and>
      posted s c + performed (is_recv c) (P i (chan_dst c)) (pos s (chan_dst c)) =
        performed (is_post c) (P i (chan_dst c)) (pos s (chan_dst c)))"

lemma performed_other:
  assumes "p \<noteq> q"
  shows "performed test (P i q) (next_pos s p q) = performed test (P i q) (pos s q)"
  using assms by simp

lemma counts_advance:
  assumes ok: "ok i" and counts: "counts i s" and at: "at_op (P i) s p a"
    and len: "\<And>c. length (chan t c) + (if is_recv c a then 1 else 0) = length (chan s c) + (if is_send c a then 1 else 0)"
    and post: "\<And>c. posted t c + (if is_recv c a then 1 else 0) = posted s c + (if is_post c a then 1 else 0)"
    and same: "started t = started s" "pos t = next_pos s p"
  shows "counts i t"
proof -
  have p: "p \<in> procs i" "pos s p < length (P i p)" "P i p ! pos s p = a" "a \<in> set (P i p)" "p \<in> started s"
    using counts at unfolding counts_def at_op_def by auto
  have moved: "performed test (P i q) (pos t q) = performed test (P i q) (pos s q) + (if q = p \<and> test a then 1 else 0)"
    for test and q
    using p same(2) by (cases "q = p") (auto simp: performed_Suc)
  have snd: "(p = chan_src c \<and> is_send c a) = is_send c a" for c
    using own_send [OF ok p(1)] p(4) by (cases a) auto
  have rcv: "(p = chan_dst c \<and> is_recv c a) = is_recv c a" "(p = chan_dst c \<and> is_post c a) = is_post c a" for c
    using own_recv [OF ok p(1)] own_post [OF ok p(1)] p(4) by (cases a; auto)+
  have "length (chan t c) + performed (is_recv c) (P i (chan_dst c)) (pos t (chan_dst c)) =
        performed (is_send c) (P i (chan_src c)) (pos t (chan_src c)) \<and>
      posted t c + performed (is_recv c) (P i (chan_dst c)) (pos t (chan_dst c)) =
        performed (is_post c) (P i (chan_dst c)) (pos t (chan_dst c))" for c
  proof -
    have "length (chan s c) + performed (is_recv c) (P i (chan_dst c)) (pos s (chan_dst c)) =
        performed (is_send c) (P i (chan_src c)) (pos s (chan_src c))"
      "posted s c + performed (is_recv c) (P i (chan_dst c)) (pos s (chan_dst c)) =
        performed (is_post c) (P i (chan_dst c)) (pos s (chan_dst c))"
      using counts unfolding counts_def by blast+
    then show ?thesis
      using len [of c] post [of c] snd [of c] rcv [of c] unfolding moved by (auto simp: eq_commute [of _ p])
  qed
  moreover have "pos t q \<le> length (P i q)" for q
    using counts p(2) same(2) unfolding counts_def by (cases "q = p") auto
  moreover have "q \<notin> started t \<longrightarrow> pos t q = 0" for q
    using counts p(5) same unfolding counts_def by auto
  ultimately show ?thesis using counts same(1) unfolding counts_def by auto
qed

lemma counts_step:
  assumes ok: "ok i" and counts: "counts i s" and step: "net_step (procs i) (P i) eager s t"
  shows "counts i t"
  using step
proof (cases rule: net_step.cases)
  case (isend p c f)
  then show ?thesis by (intro counts_advance [OF ok counts isend(2)]) auto
next
  case (irecv p c)
  then show ?thesis by (intro counts_advance [OF ok counts irecv(2)]) auto
next
  case (wait_send p c)
  then show ?thesis by (intro counts_advance [OF ok counts wait_send(2)]) auto
next
  case (wait_recv p c g m ms)
  then show ?thesis by (intro counts_advance [OF ok counts wait_recv(2)]) auto
qed (use counts in \<open>auto simp: counts_def\<close>)

lemma counts_reachable: "reachable (procs i) (P i) eager d0 s \<Longrightarrow> ok i \<Longrightarrow> counts i s"
proof (induction rule: rtranclp_induct)
  case base
  then show ?case by (simp add: counts_def net_init_def)
next
  case (step s t)
  then show ?case using counts_step by blast
qed

lemma lvl_less: "ok i \<Longrightarrow> p \<in> procs i \<Longrightarrow> j < k \<Longrightarrow> k < length (P i p) \<Longrightarrow> lvl i p j < lvl i p k"
proof (induction k)
  case (Suc k)
  then show ?case using lvl_mono [OF Suc.prems(1,2), of k] by (cases "j = k") force+
qed simp

text \<open>The process whose next operation has the least level can move.\<close>

lemma least_moves:
  assumes ok: "ok i" and counts: "counts i s" and all: "started s = procs i" "err s = (\<lambda>_. None)"
    and p: "p \<in> procs i" "pos s p < length (P i p)"
    and least: "\<And>q. q \<in> procs i \<Longrightarrow> pos s q < length (P i q) \<Longrightarrow> lvl i p (pos s p) \<le> lvl i q (pos s q)"
  shows "\<exists>t. quiet_step (procs i) (P i) eager s t"
proof -
  have at: "at_op (P i) s p (P i p ! pos s p)" using all p by (simp add: at_op_def)
  have passed: "j < pos s q" if "q \<in> procs i" "j < length (P i q)" "lvl i q j < lvl i p (pos s p)" for q j
  proof (rule ccontr)
    assume "\<not> j < pos s q"
    then have le: "pos s q \<le> j" by simp
    then have "lvl i q (pos s q) \<le> lvl i q j"
      using lvl_less [OF ok that(1), of "pos s q" j] that(2) by (cases "pos s q = j") auto
    then show False using least [OF that(1)] le that(2,3) by simp
  qed
  have sums: "length (chan s c) + performed (is_recv c) (P i (chan_dst c)) (pos s (chan_dst c)) =
        performed (is_send c) (P i (chan_src c)) (pos s (chan_src c))"
      "posted s c + performed (is_recv c) (P i (chan_dst c)) (pos s (chan_dst c)) =
        performed (is_post c) (P i (chan_dst c)) (pos s (chan_dst c))" for c
    using counts unfolding counts_def by blast+
  show ?thesis
  proof (cases "P i p ! pos s p")
    case (Isend c f)
    then show ?thesis using net_step.isend at unfolding quiet_step_def by fastforce
  next
    case (Irecv c)
    then show ?thesis using net_step.irecv at unfolding quiet_step_def by fastforce
  next
    case (WaitSend c)
    obtain j where j: "chan_src c = p" "chan_dst c \<in> procs i" "j < length (P i (chan_dst c))"
      "performed (is_send c) (P i p) (pos s p) \<le> performed (is_post c) (P i (chan_dst c)) (Suc j)"
      "lvl i (chan_dst c) j < lvl i p (pos s p)"
      using send_posted [OF ok p WaitSend] by auto
    have "performed (is_post c) (P i (chan_dst c)) (Suc j) \<le>
        performed (is_post c) (P i (chan_dst c)) (pos s (chan_dst c))"
      using passed [OF j(2,3,5)] by (intro performed_mono) simp
    then have "length (chan s c) \<le> posted s c" using sums [of c] j(1,4) by simp
    then show ?thesis using net_step.wait_send [of "P i" s p c] at WaitSend unfolding quiet_step_def by fastforce
  next
    case (WaitRecv c g)
    have rcv: "chan_dst c = p" using own_recv [OF ok p(1), of c g] nth_mem [OF p(2)] WaitRecv by simp
    obtain j where j: "chan_src c \<in> procs i" "j < length (P i (chan_src c))"
      "performed (is_recv c) (P i p) (pos s p) < performed (is_send c) (P i (chan_src c)) (Suc j)"
      "lvl i (chan_src c) j < lvl i p (pos s p)"
      using recv_sent [OF ok p WaitRecv] by auto
    have "performed (is_send c) (P i (chan_src c)) (Suc j) \<le>
        performed (is_send c) (P i (chan_src c)) (pos s (chan_src c))"
      using passed [OF j(1,2,4)] by (intro performed_mono) simp
    then have "0 < length (chan s c)" using sums(1) [of c] j(3) unfolding rcv by linarith
    then obtain m ms where ms: "chan s c = m # ms" by (cases "chan s c") auto
    have "0 < posted s c" using sums [of c] recv_posted [OF ok p WaitRecv] rcv by simp
    then show ?thesis
      using net_step.wait_recv [of "P i" s p c g m ms] at WaitRecv ms unfolding quiet_step_def by fastforce
  qed
qed

lemma all_passed_finished:
  assumes ok: "ok i" and counts: "counts i s" and all: "started s = procs i" "err s = (\<lambda>_. None)"
    and passed: "\<And>p. p \<in> procs i \<Longrightarrow> length (P i p) \<le> pos s p"
  shows "finished (procs i) (P i) s"
proof -
  have pos: "pos s p = length (P i p)" for p
    using counts passed [of p] idle [OF ok, of p] unfolding counts_def by (cases "p \<in> procs i") (auto intro: le_antisym)
  have "length (chan s c) + performed (is_recv c) (P i (chan_dst c)) (pos s (chan_dst c)) =
        performed (is_send c) (P i (chan_src c)) (pos s (chan_src c))"
      "posted s c + performed (is_recv c) (P i (chan_dst c)) (pos s (chan_dst c)) =
        performed (is_post c) (P i (chan_dst c)) (pos s (chan_dst c))" for c
    using counts unfolding counts_def by blast+
  then have "chan s c = [] \<and> posted s c = 0" for c
    using balanced [OF ok, of c] unfolding pos by (metis add_cancel_right_left length_0_conv)
  then show ?thesis using all pos by (simp add: finished_def returned_def)
qed

lemma not_stuck:
  assumes ok: "ok i" and run: "reachable (procs i) (P i) eager d0 s" and fine: "err s = (\<lambda>_. None)"
    and open_end: "\<not> finished (procs i) (P i) s"
  shows "\<exists>t. quiet_step (procs i) (P i) eager s t"
proof -
  have counts: "counts i s" by (rule counts_reachable [OF run ok])
  show ?thesis
  proof (cases "started s = procs i")
    case False
    then obtain p where "p \<in> procs i" "p \<notin> started s" using counts unfolding counts_def by auto
    then show ?thesis using net_step.enter unfolding quiet_step_def by fastforce
  next
    case True
    let ?A = "\<lambda>p. p \<in> procs i \<and> pos s p < length (P i p)"
    obtain p0 where "?A p0"
      using all_passed_finished [OF ok counts True fine] open_end by (meson not_le)
    then obtain p where "?A p" "\<And>q. ?A q \<Longrightarrow> lvl i p (pos s p) \<le> lvl i q (pos s q)"
      using ex_has_least_nat [of ?A p0 "\<lambda>p. lvl i p (pos s p)"] by blast
    then show ?thesis by (intro least_moves [OF ok counts True fine]) auto
  qed
qed

text \<open>Every fault-free step is one of finitely many.\<close>

lemma quiet_step_count:
  assumes ok: "ok i" and counts: "counts i s" and step: "quiet_step (procs i) (P i) eager s t"
    and fine: "err s = (\<lambda>_. None)"
  shows "card (started t) + (\<Sum>p\<in>procs i. pos t p) = Suc (card (started s) + (\<Sum>p\<in>procs i. pos s p))"
proof -
  have fin: "finite (procs i)" "finite (started s)"
    using finite_procs [OF ok] counts finite_subset unfolding counts_def by blast+
  have one: "(\<Sum>q\<in>procs i. next_pos s p q) = Suc (\<Sum>q\<in>procs i. pos s q)" if "p \<in> procs i" for p
    using that fin(1) by (simp add: sum.remove [OF fin(1) that])
  have moves: "p \<in> procs i" if "at_op (P i) s p a" for p a
    using counts that unfolding counts_def at_op_def by auto
  have net: "net_step (procs i) (P i) eager s t" "err t = err s" using step unfolding quiet_step_def by auto
  show ?thesis
    using net(1)
  proof (cases rule: net_step.cases)
    case (enter p)
    then show ?thesis using fin by simp
  next
    case (isend p c f)
    then show ?thesis using one [OF moves [OF isend(2)]] by simp
  next
    case (irecv p c)
    then show ?thesis using one [OF moves [OF irecv(2)]] by simp
  next
    case (wait_send p c)
    then show ?thesis using one [OF moves [OF wait_send(2)]] by simp
  next
    case (wait_recv p c g m ms)
    then show ?thesis using one [OF moves [OF wait_recv(2)]] by simp
  next
    case (failure p a e)
    have "err t p = err s p" using net(2) by simp
    then show ?thesis using fine failure(1) by simp
  qed
qed

lemma quiet_run:
  "(quiet_step (procs i) (P i) eager ^^ n) (net_init d0) s \<Longrightarrow> ok i \<Longrightarrow>
   reachable (procs i) (P i) eager d0 s \<and> err s = (\<lambda>_. None) \<and>
   n = card (started s) + (\<Sum>p\<in>procs i. pos s p)"
proof (induction n arbitrary: s)
  case 0
  then show ?case by (auto simp: net_init_def)
next
  case (Suc n)
  then obtain r where r: "(quiet_step (procs i) (P i) eager ^^ n) (net_init d0) r"
    "quiet_step (procs i) (P i) eager r s" by auto
  note IH = Suc.IH [OF r(1) Suc.prems(2)]
  have counts: "counts i r" using IH counts_reachable [OF _ Suc.prems(2)] by blast
  have "net_step (procs i) (P i) eager r s" "err s = err r" using r(2) unfolding quiet_step_def by auto
  then have "reachable (procs i) (P i) eager d0 s" "err s = (\<lambda>_. None)" using IH by auto
  moreover have "Suc n = card (started s) + (\<Sum>p\<in>procs i. pos s p)"
    using IH quiet_step_count [OF Suc.prems(2) counts r(2)] by simp
  ultimately show ?case by simp
qed

lemma run_bounded:
  assumes "ok i" "(quiet_step (procs i) (P i) eager ^^ n) (net_init d0) s"
  shows "n \<le> card (procs i) + (\<Sum>p\<in>procs i. length (P i p))"
proof -
  have n: "reachable (procs i) (P i) eager d0 s" "n = card (started s) + (\<Sum>p\<in>procs i. pos s p)"
    using quiet_run [OF assms(2,1)] by auto
  have counts: "counts i s" by (rule counts_reachable [OF n(1) assms(1)])
  then have "card (started s) \<le> card (procs i)"
    using finite_procs [OF assms(1)] unfolding counts_def by (auto intro: card_mono)
  moreover have "(\<Sum>p\<in>procs i. pos s p) \<le> (\<Sum>p\<in>procs i. length (P i p))"
    using counts unfolding counts_def by (auto intro: sum_mono)
  ultimately show ?thesis using n(2) by simp
qed

lemma completes:
  assumes "ok i" "(quiet_step (procs i) (P i) eager ^^ n) (net_init d0) s"
    "\<nexists>t. quiet_step (procs i) (P i) eager s t"
  shows "finished (procs i) (P i) s"
  using not_stuck [OF assms(1)] quiet_run [OF assms(2,1)] assms(3) by blast

lemma full_run:
  assumes "ok i"
  shows "\<exists>n s. (quiet_step (procs i) (P i) eager ^^ n) (net_init d0) s \<and> finished (procs i) (P i) s"
proof -
  let ?run = "\<lambda>n s. (quiet_step (procs i) (P i) eager ^^ n) (net_init d0) s"
  let ?B = "card (procs i) + (\<Sum>p\<in>procs i. length (P i p))"
  have "\<forall>m. (\<exists>s. ?run m s) \<longrightarrow> id m < Suc ?B"
  proof (intro allI impI)
    fix m assume "\<exists>s. ?run m s"
    then obtain s where "?run m s" by blast
    then show "id m < Suc ?B" using run_bounded [OF assms] by (simp add: less_Suc_eq_le)
  qed
  moreover have "\<exists>s. ?run 0 s" by simp
  ultimately have "\<exists>n. (\<exists>s. ?run n s) \<and> (\<forall>m. (\<exists>s. ?run m s) \<longrightarrow> id m \<le> id n)"
    by (intro ex_has_greatest_nat)
  then obtain n where n: "\<exists>s. ?run n s" "\<And>m. \<exists>s. ?run m s \<Longrightarrow> m \<le> n" by auto
  obtain s where s: "?run n s" using n(1) by blast
  have "\<nexists>t. quiet_step (procs i) (P i) eager s t"
  proof
    assume "\<exists>t. quiet_step (procs i) (P i) eager s t"
    then obtain t where "?run (Suc n) t" using s by auto
    then show False using n(2) [of "Suc n"] by auto
  qed
  then show ?thesis using completes [OF assms s] s by blast
qed

end

text \<open>
  A schedule by stages: a number for every channel, growing along each process, where the
  operations on one channel are posting, sending, waiting for the send, waiting for the receive.
  Each process does each of them at most once per channel.
\<close>

fun action_level :: "(channel \<Rightarrow> nat) \<Rightarrow> ('m, 'd) action \<Rightarrow> nat" where
  "action_level stage (Irecv c) = 4 * stage c"
| "action_level stage (Isend c f) = 4 * stage c + 1"
| "action_level stage (WaitSend c) = 4 * stage c + 2"
| "action_level stage (WaitRecv c g) = 4 * stage c + 3"

definition sends :: "('m, 'd) action list \<Rightarrow> channel set" where
  "sends as = {c. \<exists>f. Isend c f \<in> set as}"

definition waits_send :: "('m, 'd) action list \<Rightarrow> channel set" where
  "waits_send as = {c. WaitSend c \<in> set as}"

definition posts :: "('m, 'd) action list \<Rightarrow> channel set" where
  "posts as = {c. Irecv c \<in> set as}"

definition receives :: "('m, 'd) action list \<Rightarrow> channel set" where
  "receives as = {c. \<exists>g. WaitRecv c g \<in> set as}"

lemma uses_append [simp]:
  "sends (as @ bs) = sends as \<union> sends bs" "waits_send (as @ bs) = waits_send as \<union> waits_send bs"
  "posts (as @ bs) = posts as \<union> posts bs" "receives (as @ bs) = receives as \<union> receives bs"
  by (auto simp: sends_def waits_send_def posts_def receives_def)

lemma uses_concat [simp]:
  "sends (concat (map F xs)) = (\<Union>x\<in>set xs. sends (F x))"
  "waits_send (concat (map F xs)) = (\<Union>x\<in>set xs. waits_send (F x))"
  "posts (concat (map F xs)) = (\<Union>x\<in>set xs. posts (F x))"
  "receives (concat (map F xs)) = (\<Union>x\<in>set xs. receives (F x))"
  by (auto simp: sends_def waits_send_def posts_def receives_def)

lemma uses_Nil [simp]: "sends [] = {}" "waits_send [] = {}" "posts [] = {}" "receives [] = {}"
  by (auto simp: sends_def waits_send_def posts_def receives_def)

lemma uses_Cons [simp]:
  "sends (Isend c f # as) = insert c (sends as)" "sends (Irecv c # as) = sends as"
  "sends (WaitSend c # as) = sends as" "sends (WaitRecv c g # as) = sends as"
  "waits_send (Isend c f # as) = waits_send as" "waits_send (Irecv c # as) = waits_send as"
  "waits_send (WaitSend c # as) = insert c (waits_send as)" "waits_send (WaitRecv c g # as) = waits_send as"
  "posts (Isend c f # as) = posts as" "posts (Irecv c # as) = insert c (posts as)"
  "posts (WaitSend c # as) = posts as" "posts (WaitRecv c g # as) = posts as"
  "receives (Isend c f # as) = receives as" "receives (Irecv c # as) = receives as"
  "receives (WaitSend c # as) = receives as" "receives (WaitRecv c g # as) = insert c (receives as)"
  by (auto simp: sends_def waits_send_def posts_def receives_def)

lemma performed_pos: "j < k \<Longrightarrow> j < length as \<Longrightarrow> test (as ! j) \<Longrightarrow> 0 < performed test as k"
proof -
  assume a: "j < k" "j < length as" "test (as ! j)"
  then have "0 < performed test as (Suc j)" by (simp add: performed_Suc)
  also have "\<dots> \<le> performed test as k" using a(1) by (intro performed_mono) simp
  finally show ?thesis .
qed

lemma performed_none: "\<forall>j<length as. j < k \<longrightarrow> \<not> test (as ! j) \<Longrightarrow> performed test as k = 0"
  by (auto simp: performed_def filter_empty_conv in_set_conv_nth)

lemma performed_once:
  assumes "\<And>j j'. j < length as \<Longrightarrow> j' < length as \<Longrightarrow> test (as ! j) \<Longrightarrow> test (as ! j') \<Longrightarrow> j = j'"
  shows "performed test as k \<le> 1"
proof (induction k)
  case (Suc k)
  show ?case
  proof (cases "k < length as \<and> test (as ! k)")
    case True
    then have "performed test as k = 0"
      using assms [of k] by (intro performed_none) (metis less_not_refl)
    then show ?thesis using True by (simp add: performed_Suc)
  next
    case False
    show ?thesis
    proof (cases "k < length as")
      case True
      then show ?thesis using False Suc by (simp add: performed_Suc)
    next
      case False
      then show ?thesis using Suc by (simp add: performed_def)
    qed
  qed
qed simp

locale staged =
  fixes ok :: "'i \<Rightarrow> bool"
    and procs :: "'i \<Rightarrow> int set"
    and P :: "'i \<Rightarrow> int \<Rightarrow> ('m, 'd) action list"
    and stage :: "'i \<Rightarrow> channel \<Rightarrow> nat"
  assumes some_procs: "ok i \<Longrightarrow> finite (procs i)"
    and sorted: "ok i \<Longrightarrow> p \<in> procs i \<Longrightarrow> sorted_wrt (<) (map (action_level (stage i)) (P i p))"
    and send: "ok i \<Longrightarrow> p \<in> procs i \<Longrightarrow> c \<in> sends (P i p) \<Longrightarrow>
      p = chan_src c \<and> chan_dst c \<in> procs i \<and> c \<in> receives (P i (chan_dst c))"
    and wait_send: "ok i \<Longrightarrow> p \<in> procs i \<Longrightarrow> c \<in> waits_send (P i p) \<Longrightarrow> c \<in> sends (P i p)"
    and recv: "ok i \<Longrightarrow> p \<in> procs i \<Longrightarrow> c \<in> receives (P i p) \<Longrightarrow>
      p = chan_dst c \<and> chan_src c \<in> procs i \<and> c \<in> sends (P i (chan_src c))"
    and post: "ok i \<Longrightarrow> p \<in> procs i \<Longrightarrow> posts (P i p) = receives (P i p)"
    and rest: "ok i \<Longrightarrow> p \<notin> procs i \<Longrightarrow> P i p = []"
begin

abbreviation level :: "'i \<Rightarrow> int \<Rightarrow> nat \<Rightarrow> nat" where
  "level i p k \<equiv> action_level (stage i) (P i p ! k)"

lemma level_less: "ok i \<Longrightarrow> p \<in> procs i \<Longrightarrow> j < k \<Longrightarrow> k < length (P i p) \<Longrightarrow> level i p j < level i p k"
  using sorted [of i p] by (auto simp: sorted_wrt_iff_nth_less)

lemma level_inj:
  "ok i \<Longrightarrow> p \<in> procs i \<Longrightarrow> j < length (P i p) \<Longrightarrow> k < length (P i p) \<Longrightarrow> level i p j = level i p k \<Longrightarrow> j = k"
  using level_less [of i p] by (metis less_irrefl linorder_neqE_nat)

lemma level_before:
  "ok i \<Longrightarrow> p \<in> procs i \<Longrightarrow> j < length (P i p) \<Longrightarrow> k < length (P i p) \<Longrightarrow> level i p j < level i p k \<Longrightarrow> j < k"
  using level_less [of i p k j] by (metis less_asym less_irrefl linorder_neqE_nat)

lemma is_kind:
  "is_send c a \<longleftrightarrow> (\<exists>f. a = Isend c f)" "is_post c a \<longleftrightarrow> a = Irecv c" "is_recv c a \<longleftrightarrow> (\<exists>g. a = WaitRecv c g)"
  by (cases a; auto)+

lemma once:
  assumes "ok i" "p \<in> procs i"
  shows "performed (is_send c) (P i p) k \<le> 1" "performed (is_post c) (P i p) k \<le> 1"
    "performed (is_recv c) (P i p) k \<le> 1"
  by (rule performed_once; rule level_inj [OF assms]; auto simp: is_kind)+

lemma performed_all:
  assumes "ok i" "p \<in> procs i"
  shows "performed (is_send c) (P i p) (length (P i p)) = (if c \<in> sends (P i p) then 1 else 0)"
    "performed (is_post c) (P i p) (length (P i p)) = (if c \<in> posts (P i p) then 1 else 0)"
    "performed (is_recv c) (P i p) (length (P i p)) = (if c \<in> receives (P i p) then 1 else 0)"
proof -
  have all: "performed test (P i p) (length (P i p)) = (if \<exists>a\<in>set (P i p). test a then 1 else 0)"
    if "performed test (P i p) (length (P i p)) \<le> 1" for test
    using that by (auto simp: performed_def le_Suc_eq filter_empty_conv)
  show "performed (is_send c) (P i p) (length (P i p)) = (if c \<in> sends (P i p) then 1 else 0)"
    "performed (is_post c) (P i p) (length (P i p)) = (if c \<in> posts (P i p) then 1 else 0)"
    "performed (is_recv c) (P i p) (length (P i p)) = (if c \<in> receives (P i p) then 1 else 0)"
    using all [OF once(1) [OF assms, of c]] all [OF once(2) [OF assms, of c]] all [OF once(3) [OF assms, of c]]
    by (auto simp: is_kind sends_def posts_def receives_def split: if_splits)
qed

end

sublocale staged \<subseteq> schedule ok procs P "\<lambda>i p k. action_level (stage i) (P i p ! k)"
proof unfold_locales
  fix i p k c g
  assume ok: "ok i" and p: "p \<in> procs i" and k: "k < length (P i p)" and at: "P i p ! k = WaitRecv c g"
  have c: "c \<in> receives (P i p)" using nth_mem [OF k] at by (auto simp: receives_def)
  have none: "performed (is_recv c) (P i p) k = 0"
  proof (rule performed_none, intro allI impI notI)
    fix j assume j: "j < length (P i p)" "j < k" "is_recv c (P i p ! j)"
    then have "level i p j = level i p k" using at by (auto simp: is_kind)
    then show False using level_less [OF ok p j(2) k] by simp
  qed
  obtain j where j: "j < length (P i p)" "P i p ! j = Irecv c"
    using c post [OF ok p] by (auto simp: posts_def in_set_conv_nth)
  then have "j < k" using level_before [OF ok p j(1) k] at by simp
  then show "performed (is_recv c) (P i p) k < performed (is_post c) (P i p) k"
    using none performed_pos [of j k "P i p" "is_post c"] j by simp
  obtain l f where l: "l < length (P i (chan_src c))" "P i (chan_src c) ! l = Isend c f"
    using recv [OF ok p c] by (auto simp: sends_def in_set_conv_nth)
  then show "\<exists>j<length (P i (chan_src c)). chan_src c \<in> procs i \<and>
      performed (is_recv c) (P i p) k < performed (is_send c) (P i (chan_src c)) (Suc j) \<and>
      level i (chan_src c) j < level i p k"
    using none performed_pos [of l "Suc l" "P i (chan_src c)" "is_send c"] at recv [OF ok p c]
    by (intro exI [of _ l]) simp
next
  fix i p k c
  assume ok: "ok i" and p: "p \<in> procs i" and k: "k < length (P i p)" and at: "P i p ! k = WaitSend c"
  have "c \<in> waits_send (P i p)" using nth_mem [OF k] at by (auto simp: waits_send_def)
  then have c: "c \<in> sends (P i p)" by (rule wait_send [OF ok p])
  note s = send [OF ok p c]
  have "c \<in> posts (P i (chan_dst c))" using post [OF ok] s by auto
  then obtain l where l: "l < length (P i (chan_dst c))" "P i (chan_dst c) ! l = Irecv c"
    by (auto simp: posts_def in_set_conv_nth)
  then have "0 < performed (is_post c) (P i (chan_dst c)) (Suc l)" by (intro performed_pos [of l]) auto
  then show "chan_src c = p \<and> (\<exists>j<length (P i (chan_dst c)). chan_dst c \<in> procs i \<and>
      performed (is_send c) (P i p) k \<le> performed (is_post c) (P i (chan_dst c)) (Suc j) \<and>
      level i (chan_dst c) j < level i p k)"
    using s l once(1) [OF ok p, of c k] at by (intro conjI exI [of _ l]) auto
next
  fix i c assume ok: "ok i"
  have src: "chan_src c \<in> procs i \<or> P i (chan_src c) = []" and dst: "chan_dst c \<in> procs i \<or> P i (chan_dst c) = []"
    using rest [OF ok] by auto
  have "c \<in> sends (P i (chan_src c)) \<longleftrightarrow> c \<in> receives (P i (chan_dst c))"
  proof
    assume "c \<in> sends (P i (chan_src c))"
    then show "c \<in> receives (P i (chan_dst c))" using src send [OF ok, of "chan_src c" c] by auto
  next
    assume "c \<in> receives (P i (chan_dst c))"
    then show "c \<in> sends (P i (chan_src c))" using dst recv [OF ok, of "chan_dst c" c] by auto
  qed
  then show "performed (is_send c) (P i (chan_src c)) (length (P i (chan_src c))) =
      performed (is_recv c) (P i (chan_dst c)) (length (P i (chan_dst c)))"
    using performed_all(1) [OF ok, of "chan_src c" c] performed_all(3) [OF ok, of "chan_dst c" c] src dst
    by (auto simp: performed_def)
  show "performed (is_post c) (P i (chan_dst c)) (length (P i (chan_dst c))) =
      performed (is_recv c) (P i (chan_dst c)) (length (P i (chan_dst c)))"
    using performed_all(2,3) [OF ok, of "chan_dst c" c] post [OF ok, of "chan_dst c"] dst
    by (auto simp: performed_def)
next
  fix i p c f assume "ok i" "p \<in> procs i" "Isend c f \<in> set (P i p)"
  then show "p = chan_src c" using send [of i p c] by (auto simp: sends_def)
next
  fix i p c assume a: "ok i" "p \<in> procs i" "Irecv c \<in> set (P i p)"
  then have "c \<in> receives (P i p)" using post [OF a(1,2)] by (auto simp: posts_def)
  then show "p = chan_dst c" using recv [OF a(1,2)] by auto
next
  fix i p c g assume "ok i" "p \<in> procs i" "WaitRecv c g \<in> set (P i p)"
  then show "p = chan_dst c" using recv [of i p c] by (auto simp: receives_def)
qed (use some_procs rest level_less in auto)

end
