(* ===== verification/Coll_Comm.thy ===== *)
theory Coll_Comm
  imports Message_Passing Bit_Scan
begin

text \<open>
  The communicators the collective operations run on, as far as their code looks at them: kind,
  own rank, size and the process behind every rank (\<open>vcr\<close>), with the sub-communicators of the
  node-aware collectives; and the blocking point-to-point calls of \<open>src/mpi/msmpi/mpid/pt2pt.cpp\<close>
  they make. A piece of code is the list of operations of the calling process; \<open>None\<close> is a rank
  outside the communicator or a loop that does not end.
\<close>

subsection \<open>Communicators and point-to-point calls\<close>

record coll_comm =
  c_kind :: comm_kind
  c_rank :: int
  c_size :: int
  vcr :: "int list"

record intra_comm = coll_comm +
  local_subcomm :: "coll_comm option"
  leaders_subcomm :: "coll_comm option"

definition to_rank :: "('a) coll_comm_scheme \<Rightarrow> int \<Rightarrow> channel option" where
  "to_rank c t = do { me \<leftarrow> rd (vcr c) (c_rank c); p \<leftarrow> rd (vcr c) t; Some (Channel (c_kind c) me p) }"

definition from_rank :: "('a) coll_comm_scheme \<Rightarrow> int \<Rightarrow> channel option" where
  "from_rank c t = do { me \<leftarrow> rd (vcr c) (c_rank c); p \<leftarrow> rd (vcr c) t; Some (Channel (c_kind c) p me) }"

text \<open>Send and wait; receive and wait; receive, send and wait for both (\<open>pt2pt.cpp\<close>).\<close>

definition MPIC_Send ::
  "('d \<Rightarrow> 'm) \<Rightarrow> int \<Rightarrow> ('a) coll_comm_scheme \<Rightarrow> ('m, 'd) action list option" where
  "MPIC_Send buf dest c = do { ch \<leftarrow> to_rank c dest; Some [Isend ch buf, WaitSend ch] }"

definition MPIC_Recv ::
  "('m \<Rightarrow> 'd \<Rightarrow> 'd) \<Rightarrow> int \<Rightarrow> ('a) coll_comm_scheme \<Rightarrow> ('m, 'd) action list option" where
  "MPIC_Recv buf source c = do { ch \<leftarrow> from_rank c source; Some [Irecv ch, WaitRecv ch buf] }"

definition MPIC_Sendrecv ::
  "('d \<Rightarrow> 'm) \<Rightarrow> int \<Rightarrow> ('m \<Rightarrow> 'd \<Rightarrow> 'd) \<Rightarrow> int \<Rightarrow> ('a) coll_comm_scheme \<Rightarrow> ('m, 'd) action list option" where
  "MPIC_Sendrecv sendbuf dest recvbuf source c = do {
     r \<leftarrow> from_rank c source;
     s \<leftarrow> to_rank c dest;
     Some [Irecv r, Isend s sendbuf, WaitSend s, WaitRecv r recvbuf]
   }"

end
