(* ===== verification/Barrier.thy ===== *)
theory Barrier
  imports Coll_Comm
begin

text \<open>
  The blocking barrier of \<open>src/mpi/msmpi/mpid/barrier.cpp\<close>: dissemination on a flat communicator
  and, on a node-aware one, a binomial tree to the leader of each node, dissemination among the
  leaders and a binomial tree back.
\<close>

text \<open>Empty messages.\<close>

type_synonym barrier_code = "(unit, unit) action list option"

definition send_nothing :: "unit \<Rightarrow> unit" where "send_nothing d = ()"
definition recv_nothing :: "unit \<Rightarrow> unit \<Rightarrow> unit" where "recv_nothing m d = d"

subsection \<open>The flat barrier\<close>

partial_function (option) barrier_rounds :: "('a) coll_comm_scheme \<Rightarrow> int \<Rightarrow> barrier_code" where
  "barrier_rounds c m =
     (if m < c_size c then do {
        let dst = i32 (c_rank c + m);
        let dst = (if dst \<ge> c_size c then i32 (dst - c_size c) else dst);
        let src = i32 (c_rank c - m);
        let src = (if src < 0 then i32 (src + c_size c) else src);
        round \<leftarrow> MPIC_Sendrecv send_nothing dst recv_nothing src c;
        rest \<leftarrow> barrier_rounds c (i32 (m * 2));
        Some (round @ rest)
      } else Some [])"

definition MPIR_Barrier_intra_flat :: "('a) coll_comm_scheme \<Rightarrow> barrier_code" where
  "MPIR_Barrier_intra_flat c = barrier_rounds c 1"

subsection \<open>The barrier on nodes\<close>

text \<open>The loop over the midpoints; with the code goes the last midpoint.\<close>

partial_function (option) collect_loop ::
  "('a) coll_comm_scheme \<Rightarrow> int \<Rightarrow> ((unit, unit) action list \<times> int) option" where
  "collect_loop c sz =
     (if c_rank c < sz then do {
        r \<leftarrow> MPIC_Recv recv_nothing (i32 (c_rank c + sz)) c;
        (rest, last) \<leftarrow> collect_loop c (drop_bit 1 sz);
        Some (r @ rest, last)
      } else Some ([], sz))"

text \<open>From the midpoint loop on, with the size of the binomial tree.\<close>

definition collect_and_report :: "('a) coll_comm_scheme \<Rightarrow> int \<Rightarrow> barrier_code" where
  "collect_and_report c tree = do {
     (xs, last) \<leftarrow> collect_loop c (drop_bit 1 tree);
     ys \<leftarrow> (if c_rank c \<noteq> 0 then MPIC_Send send_nothing (i32 (c_rank c - last)) c else Some []);
     Some (xs @ ys)
   }"

definition DeclareBarrierEntryToRank0 :: "('a) coll_comm_scheme \<Rightarrow> barrier_code" where
  "DeclareBarrierEntryToRank0 c =
     (if \<not> IsPowerOf2 (c_size c) then
        let pof2Floor = PowerOf2Floor (c_size c) in
        if i32 (c_rank c - pof2Floor) \<ge> 0
        then MPIC_Send send_nothing (i32 (c_rank c - pof2Floor)) c
        else do {
          xs \<leftarrow> (if i32 (c_rank c + pof2Floor) < c_size c
                 then MPIC_Recv recv_nothing (i32 (c_rank c + pof2Floor)) c else Some []);
          ys \<leftarrow> collect_and_report c pof2Floor;
          Some (xs @ ys)
        }
      else collect_and_report c (c_size c))"

partial_function (option) release_loop :: "('a) coll_comm_scheme \<Rightarrow> int \<Rightarrow> barrier_code" where
  "release_loop c pof2 =
     (if i32 (c_rank c + pof2) < c_size c then do {
        s \<leftarrow> MPIC_Send send_nothing (i32 (c_rank c + pof2)) c;
        rest \<leftarrow> release_loop c (i32 (pof2 * 2));
        Some (s @ rest)
      } else Some [])"

definition ReleaseAllFromBarrier :: "('a) coll_comm_scheme \<Rightarrow> barrier_code" where
  "ReleaseAllFromBarrier c =
     (if c_rank c \<noteq> 0 then do {
        let pof2 = PowerOf2Floor (c_rank c);
        r \<leftarrow> MPIC_Recv recv_nothing (i32 (c_rank c - pof2)) c;
        rest \<leftarrow> release_loop c (i32 (pof2 * 2));
        Some (r @ rest)
      } else release_loop c 1)"

definition on_subcomm ::
  "coll_comm option \<Rightarrow> (coll_comm \<Rightarrow> barrier_code) \<Rightarrow> barrier_code" where
  "on_subcomm sub f = (case sub of None \<Rightarrow> Some [] | Some c \<Rightarrow> f c)"

definition MPIR_Barrier_intra_HA :: "intra_comm \<Rightarrow> barrier_code" where
  "MPIR_Barrier_intra_HA c = do {
     xs \<leftarrow> on_subcomm (local_subcomm c) DeclareBarrierEntryToRank0;
     ys \<leftarrow> on_subcomm (leaders_subcomm c) MPIR_Barrier_intra_flat;
     zs \<leftarrow> on_subcomm (local_subcomm c) ReleaseAllFromBarrier;
     Some (xs @ ys @ zs)
   }"

definition IsNodeAware :: "intra_comm \<Rightarrow> bool" where
  "IsNodeAware c \<longleftrightarrow>
     (case local_subcomm c of None \<Rightarrow> False | Some l \<Rightarrow> c_kind l = INTRACOMM_NODE) \<or>
     (case leaders_subcomm c of None \<Rightarrow> False | Some l \<Rightarrow> c_kind l = INTRACOMM_NODE_ROOT)"

definition MPIR_Barrier_intra :: "bool \<Rightarrow> intra_comm \<Rightarrow> barrier_code" where
  "MPIR_Barrier_intra SmpBarrierEnabled c =
     (if SmpBarrierEnabled \<and> IsNodeAware c then MPIR_Barrier_intra_HA c else MPIR_Barrier_intra_flat c)"

subsection \<open>The code of the barriers in closed form\<close>

text \<open>The number of bits of \<open>r\<close>.\<close>

definition bits :: "int \<Rightarrow> nat" where
  "bits r = (if r \<le> 0 then 0 else Suc (BitScanReverse r))"

text \<open>The number of rounds, and the distances (as exponents) of the children of a rank.\<close>

abbreviation depth :: "int \<Rightarrow> nat" where "depth n \<equiv> bits (n - 1)"

definition kids :: "int \<Rightarrow> int \<Rightarrow> nat list" where
  "kids r n = filter (\<lambda>j. r + 2 ^ j < n) [bits r..<depth n]"

definition parent :: "int \<Rightarrow> int" where
  "parent r = r - 2 ^ (bits r - 1)"

lemma bits_le: "0 \<le> r \<Longrightarrow> bits r \<le> j \<longleftrightarrow> r < 2 ^ j"
proof (cases "r = 0")
  case False
  assume "0 \<le> r"
  with False have r: "0 < r" by simp
  have low: "2 ^ BitScanReverse r \<le> r" and high: "r < 2 ^ Suc (BitScanReverse r)"
    using BitScanReverse_le [OF r] BitScanReverse_bound [of r] .
  show ?thesis
  proof
    assume "bits r \<le> j"
    then have "(2 :: int) ^ Suc (BitScanReverse r) \<le> 2 ^ j"
      using r by (intro power_increasing) (simp_all add: bits_def)
    with high show "r < 2 ^ j" by linarith
  next
    assume "r < 2 ^ j"
    with low have "(2 :: int) ^ BitScanReverse r < 2 ^ j" by linarith
    then have "BitScanReverse r < j" by (simp add: power_strict_increasing_iff)
    then show "bits r \<le> j" using r by (simp add: bits_def)
  qed
qed (simp add: bits_def)

lemma less_depth: "1 \<le> n \<Longrightarrow> k < depth n \<longleftrightarrow> 2 ^ k < n"
  using bits_le [of "n - 1" k] by auto

lemma bits_power: "0 < r \<Longrightarrow> 2 ^ (bits r - 1) = PowerOf2Floor r"
  by (simp add: bits_def PowerOf2Floor_power)

lemma bits_pos: "0 < r \<longleftrightarrow> 0 < bits r"
  by (simp add: bits_def)

definition comm_ok :: "('a) coll_comm_scheme \<Rightarrow> bool" where
  "comm_ok c \<longleftrightarrow> 0 \<le> c_rank c \<and> c_rank c < c_size c \<and> c_size c = int (length (vcr c)) \<and> c_size c \<le> 2 ^ 30"

abbreviation proc_at :: "('a) coll_comm_scheme \<Rightarrow> int \<Rightarrow> int" where
  "proc_at c r \<equiv> vcr c ! nat r"

definition send_block :: "('a) coll_comm_scheme \<Rightarrow> int \<Rightarrow> (unit, unit) action list" where
  "send_block c t = (let ch = Channel (c_kind c) (proc_at c (c_rank c)) (proc_at c t)
     in [Isend ch send_nothing, WaitSend ch])"

definition recv_block :: "('a) coll_comm_scheme \<Rightarrow> int \<Rightarrow> (unit, unit) action list" where
  "recv_block c t = (let ch = Channel (c_kind c) (proc_at c t) (proc_at c (c_rank c))
     in [Irecv ch, WaitRecv ch recv_nothing])"

definition exchange_block :: "('a) coll_comm_scheme \<Rightarrow> int \<Rightarrow> int \<Rightarrow> (unit, unit) action list" where
  "exchange_block c to from =
     (let r = Channel (c_kind c) (proc_at c from) (proc_at c (c_rank c));
          s = Channel (c_kind c) (proc_at c (c_rank c)) (proc_at c to)
      in [Irecv r, Isend s send_nothing, WaitSend s, WaitRecv r recv_nothing])"

lemma rd_in: "0 \<le> i \<Longrightarrow> i < int (length a) \<Longrightarrow> rd a i = Some (a ! nat i)"
  by (simp add: rd_def)

lemma MPIC_Send_block:
  "comm_ok c \<Longrightarrow> 0 \<le> t \<Longrightarrow> t < c_size c \<Longrightarrow> MPIC_Send send_nothing t c = Some (send_block c t)"
  by (simp add: MPIC_Send_def to_rank_def comm_ok_def send_block_def Let_def rd_in del: rd_eq_Some)

lemma MPIC_Recv_block:
  "comm_ok c \<Longrightarrow> 0 \<le> t \<Longrightarrow> t < c_size c \<Longrightarrow> MPIC_Recv recv_nothing t c = Some (recv_block c t)"
  by (simp add: MPIC_Recv_def from_rank_def comm_ok_def recv_block_def Let_def rd_in del: rd_eq_Some)

lemma MPIC_Sendrecv_block:
  "comm_ok c \<Longrightarrow> 0 \<le> t \<Longrightarrow> t < c_size c \<Longrightarrow> 0 \<le> u \<Longrightarrow> u < c_size c \<Longrightarrow>
   MPIC_Sendrecv send_nothing t recv_nothing u c = Some (exchange_block c t u)"
  by (simp add: MPIC_Sendrecv_def to_rank_def from_rank_def comm_ok_def exchange_block_def Let_def rd_in del: rd_eq_Some)

lemma i32_small: "- 2147483648 \<le> x \<Longrightarrow> x < 2147483648 \<Longrightarrow> i32 x = x"
  by (simp add: i32_id)

lemma power_small: "2 ^ k < n \<Longrightarrow> n \<le> 2 ^ 30 \<Longrightarrow> (2 :: int) ^ Suc k \<le> 2 ^ 30" for n :: int
proof -
  assume "2 ^ k < n" "n \<le> 2 ^ 30"
  then have "(2 :: int) ^ k < 2 ^ 30" by linarith
  then have "k < 30" by (rule power_less_imp_less_exp [rotated]) simp
  then show ?thesis by (intro power_increasing) simp_all
qed

lemma barrier_rounds_block:
  assumes "comm_ok c"
  shows "barrier_rounds c (2 ^ k) = Some (concat (map (\<lambda>k. exchange_block c
      ((c_rank c + 2 ^ k) mod c_size c) ((c_rank c - 2 ^ k) mod c_size c)) [k..<depth (c_size c)]))"
proof (induction "depth (c_size c) - k" arbitrary: k)
  case 0
  then have "\<not> 2 ^ k < c_size c" using less_depth [of "c_size c" k] assms by (simp add: comm_ok_def)
  then show ?case using 0 by (subst barrier_rounds.simps) simp
next
  case (Suc m)
  let ?r = "c_rank c" and ?n = "c_size c"
  have c: "0 \<le> ?r" "?r < ?n" "?n \<le> 2 ^ 30" using assms by (simp_all add: comm_ok_def)
  have k: "k < depth ?n" using Suc.hyps(2) by simp
  then have lt: "2 ^ k < ?n" using less_depth c by simp
  define p where "p = (2 :: int) ^ k"
  have p: "1 \<le> p" "p < ?n" using lt by (simp_all add: p_def)
  have small: "2 ^ k * 2 \<le> (2 :: int) ^ 30" using power_small [OF lt c(3)] by simp
  have "i32 (?r + p) = ?r + p" "i32 (?r + p - ?n) = ?r + p - ?n" "i32 (?r - p) = ?r - p"
    "i32 (?r - p + ?n) = ?r - p + ?n"
    by (rule i32_small; use c p in simp)+
  moreover have "(?r + p) mod ?n = (if ?r + p \<ge> ?n then ?r + p - ?n else ?r + p)"
    using c p by (auto simp: mod_pos_pos_trivial intro!: int_mod_pos_eq [where q = 1])
  moreover have "(?r - p) mod ?n = (if ?r - p < 0 then ?r - p + ?n else ?r - p)"
    using c p by (auto simp: mod_pos_pos_trivial intro!: int_mod_pos_eq [where q = "- 1"])
  ultimately have peers:
    "(if ?n \<le> i32 (?r + p) then i32 (i32 (?r + p) - ?n) else i32 (?r + p)) = (?r + p) mod ?n"
    "(if i32 (?r - p) < 0 then i32 (i32 (?r - p) + ?n) else i32 (?r - p)) = (?r - p) mod ?n"
    by auto
  have double: "i32 (2 ^ k * 2) = 2 ^ Suc k" using small by (subst i32_id) (auto intro: order_trans [of _ 0])
  have round: "MPIC_Sendrecv send_nothing ((?r + p) mod ?n) recv_nothing ((?r - p) mod ?n) c =
      Some (exchange_block c ((?r + p) mod ?n) ((?r - p) mod ?n))"
    using c by (intro MPIC_Sendrecv_block [OF assms]) simp_all
  have rest: "barrier_rounds c (2 ^ Suc k) = Some (concat (map (\<lambda>k. exchange_block c
      ((?r + 2 ^ k) mod ?n) ((?r - 2 ^ k) mod ?n)) [Suc k..<depth ?n]))"
    by (rule Suc.hyps(1)) (use Suc.hyps(2) in simp)
  have "barrier_rounds c (2 ^ k) = do {
      rest \<leftarrow> barrier_rounds c (2 ^ Suc k);
      Some (exchange_block c ((?r + p) mod ?n) ((?r - p) mod ?n) @ rest)
    }"
    by (subst barrier_rounds.simps) (use lt round in \<open>simp add: p_def [symmetric] Let_def peers double [unfolded p_def [symmetric]]\<close>)
  then show ?case unfolding rest upt_conv_Cons [OF k] by (simp add: p_def)
qed

lemma MPIR_Barrier_intra_flat_block:
  "comm_ok c \<Longrightarrow> MPIR_Barrier_intra_flat c = Some (concat (map (\<lambda>k. exchange_block c
      ((c_rank c + 2 ^ k) mod c_size c) ((c_rank c - 2 ^ k) mod c_size c)) [0..<depth (c_size c)]))"
  using barrier_rounds_block [of c 0] by (simp add: MPIR_Barrier_intra_flat_def)

lemma filter_none_above:
  "r + 2 ^ j \<ge> n \<Longrightarrow> filter (\<lambda>j. r + 2 ^ j < (n :: int)) [j..<k] = []"
proof -
  assume big: "r + 2 ^ j \<ge> n"
  have "\<not> r + 2 ^ i < n" if "j \<le> i" for i
  proof -
    have "(2 :: int) ^ j \<le> 2 ^ i" using that by (intro power_increasing) simp_all
    then show ?thesis using big by linarith
  qed
  then show ?thesis by (auto simp: filter_empty_conv)
qed

lemma bits_below: "0 \<le> r \<Longrightarrow> r < n \<Longrightarrow> bits r \<le> depth n"
  using bits_le [of r "depth n"] bits_le [of "n - 1" "depth n"] by simp

lemma release_loop_block:
  assumes "comm_ok c" "j \<le> depth (c_size c)"
  shows "release_loop c (2 ^ j) = Some (concat (map (\<lambda>j. send_block c (c_rank c + 2 ^ j))
    (filter (\<lambda>j. c_rank c + 2 ^ j < c_size c) [j..<depth (c_size c)])))"
  using assms(2)
proof (induction "depth (c_size c) - j" arbitrary: j)
  case 0
  have c: "0 \<le> c_rank c" "c_rank c < c_size c" "c_size c \<le> 2 ^ 30" using assms(1) by (simp_all add: comm_ok_def)
  have "\<not> 2 ^ j < c_size c" using 0 c less_depth [of "c_size c" j] by simp
  moreover have "depth (c_size c) \<le> 30" using bits_le [of "c_size c - 1" 30] c by simp
  then have "(2 :: int) ^ j \<le> 2 ^ 30" using 0(2) by (intro power_increasing) simp_all
  moreover have "1 \<le> (2 :: int) ^ j" by simp
  ultimately have "\<not> i32 (c_rank c + 2 ^ j) < c_size c" using c by (subst i32_small) simp_all
  then show ?case by (subst release_loop.simps) (use 0 in simp)
next
  case (Suc m)
  let ?r = "c_rank c" and ?n = "c_size c"
  have c: "0 \<le> ?r" "?r < ?n" "?n \<le> 2 ^ 30" using assms(1) by (simp_all add: comm_ok_def)
  have j: "j < depth ?n" using Suc.hyps(2) by simp
  then have lt: "2 ^ j < ?n" using less_depth c by simp
  define p where "p = (2 :: int) ^ j"
  have p: "1 \<le> p" "p < ?n" using lt by (simp_all add: p_def)
  have sum: "i32 (?r + p) = ?r + p" by (rule i32_small; use c p in simp)
  have small: "2 ^ j * 2 \<le> (2 :: int) ^ 30" using power_small [OF lt c(3)] by simp
  have double: "i32 (2 ^ j * 2) = 2 ^ Suc j" using small by (subst i32_id) (auto intro: order_trans [of _ 0])
  show ?case
  proof (cases "?r + p < ?n")
    case False
    then show ?thesis
      by (subst release_loop.simps) (use sum filter_none_above [of ?n ?r j] in \<open>simp add: p_def\<close>)
  next
    case True
    have rest: "release_loop c (2 ^ Suc j) = Some (concat (map (\<lambda>j. send_block c (?r + 2 ^ j))
        (filter (\<lambda>j. ?r + 2 ^ j < ?n) [Suc j..<depth ?n])))"
      by (rule Suc.hyps(1)) (use Suc.hyps(2) Suc.prems in auto)
    have send: "MPIC_Send send_nothing (?r + p) c = Some (send_block c (?r + p))"
      using c p True by (intro MPIC_Send_block [OF assms(1)]) simp_all
    have "release_loop c (2 ^ j) = do {
        rest \<leftarrow> release_loop c (2 ^ Suc j);
        Some (send_block c (?r + p) @ rest)
      }"
      by (subst release_loop.simps)
         (use True send sum double in \<open>simp add: p_def [symmetric] del: power_Suc\<close>)
    then show ?thesis
      unfolding rest upt_conv_Cons [OF j] using True by (simp add: p_def)
  qed
qed

lemma kids_Nil: "0 < r \<Longrightarrow> depth n \<le> bits r \<Longrightarrow> kids r n = []"
  by (simp add: kids_def)

lemma parent_range:
  assumes "0 < r"
  shows "0 \<le> parent r" "parent r < r" "r = parent r + 2 ^ (bits r - 1)" "bits (parent r) \<le> bits r - 1"
proof -
  have b: "PowerOf2Floor r \<le> r" "r < 2 * PowerOf2Floor r" using PowerOf2Floor_bounds [OF assms] by auto
  then show "0 \<le> parent r" "r = parent r + 2 ^ (bits r - 1)" using bits_power [OF assms] by (simp_all add: parent_def)
  show "parent r < r" by (simp add: parent_def)
  show "bits (parent r) \<le> bits r - 1"
    using bits_le [of "parent r" "bits r - 1"] b \<open>0 \<le> parent r\<close> bits_power [OF assms] by (simp add: parent_def)
qed

lemma ReleaseAllFromBarrier_block:
  assumes "comm_ok c"
  shows "ReleaseAllFromBarrier c = Some ((if c_rank c = 0 then [] else recv_block c (parent (c_rank c))) @
    concat (map (\<lambda>j. send_block c (c_rank c + 2 ^ j)) (kids (c_rank c) (c_size c))))"
proof (cases "c_rank c = 0")
  case True
  then show ?thesis
    using release_loop_block [OF assms, of 0] by (simp add: ReleaseAllFromBarrier_def kids_def bits_def [of 0])
next
  case False
  let ?r = "c_rank c" and ?n = "c_size c"
  have c: "0 < ?r" "?r < ?n" "?n \<le> 2 ^ 30" using assms False by (simp_all add: comm_ok_def)
  define p where "p = PowerOf2Floor ?r"
  have p: "1 \<le> p" "p \<le> ?r" "p = 2 ^ (bits ?r - 1)" "parent ?r = ?r - p"
    using PowerOf2Floor_bounds [OF c(1)] bits_power [OF c(1)] by (simp_all add: p_def PowerOf2Floor_power parent_def)
  have "i32 (?r - p) = parent ?r" "i32 (p * 2) = p * 2" unfolding p(4) by (rule i32_small; use c p(1,2) in simp)+
  moreover have "p * 2 = 2 ^ bits ?r" using p(3) c(1) by (simp add: bits_def)
  moreover have "MPIC_Recv recv_nothing (parent ?r) c = Some (recv_block c (parent ?r))"
    using parent_range [OF c(1)] c by (intro MPIC_Recv_block [OF assms]) simp_all
  ultimately show ?thesis
    using False release_loop_block [OF assms bits_below [of ?r ?n]] c
    by (simp add: ReleaseAllFromBarrier_def p_def [symmetric] kids_def)
qed

lemma drop_one_power: "drop_bit 1 ((2 :: int) ^ J) = (if J = 0 then 0 else 2 ^ (J - 1))"
  by (cases J) (simp_all add: drop_bit_eq_div)

lemma collect_loop_block:
  assumes "comm_ok c" "c_rank c < 2 ^ J" "2 ^ J \<le> c_size c"
  shows "collect_loop c (drop_bit 1 (2 ^ J)) =
    Some (concat (map (\<lambda>j. recv_block c (c_rank c + 2 ^ j)) (rev [bits (c_rank c)..<J])),
      drop_bit 1 (2 ^ bits (c_rank c)))"
  using assms(2,3)
proof (induction J)
  case 0
  then have "c_rank c = 0" using assms(1) by (simp add: comm_ok_def)
  then show ?case by (subst collect_loop.simps) (simp add: bits_def drop_one_power)
next
  case (Suc J)
  let ?r = "c_rank c" and ?n = "c_size c"
  have c: "0 \<le> ?r" "?r < ?n" "?n \<le> 2 ^ 30" using assms(1) by (simp_all add: comm_ok_def)
  have half: "drop_bit 1 ((2 :: int) ^ Suc J) = 2 ^ J" by (simp add: drop_bit_eq_div)
  define p where "p = (2 :: int) ^ J"
  have p: "1 \<le> p" "2 * p \<le> ?n" using Suc.prems(2) by (simp_all add: p_def)
  show ?case
  proof (cases "?r < p")
    case False
    then have bits: "bits ?r = Suc J"
      using bits_le [OF c(1), of J] bits_le [OF c(1), of "Suc J"] Suc.prems(1) by (simp add: p_def)
    then show ?thesis
      using False unfolding bits half by (subst collect_loop.simps) (simp add: p_def)
  next
    case True
    then have le: "bits ?r \<le> J" using bits_le [OF c(1)] by (simp add: p_def)
    have IH: "collect_loop c (drop_bit 1 p) =
      Some (concat (map (\<lambda>j. recv_block c (?r + 2 ^ j)) (rev [bits ?r..<J])), drop_bit 1 (2 ^ bits ?r))"
      using Suc.IH True p unfolding p_def by linarith
    have "i32 (?r + p) = ?r + p" by (rule i32_small; use c True p in simp)
    moreover have "MPIC_Recv recv_nothing (?r + p) c = Some (recv_block c (?r + p))"
      using c True p by (intro MPIC_Recv_block [OF assms(1)]) simp_all
    moreover have "rev [bits ?r..<Suc J] = J # rev [bits ?r..<J]" using le by simp
    ultimately show ?thesis
      unfolding half p_def [symmetric] by (subst collect_loop.simps) (use True IH in \<open>simp add: p_def [symmetric]\<close>)
  qed
qed

lemma collect_and_report_block:
  assumes "comm_ok c" "c_rank c < 2 ^ J" "2 ^ J \<le> c_size c"
  shows "collect_and_report c (2 ^ J) =
    Some (concat (map (\<lambda>j. recv_block c (c_rank c + 2 ^ j)) (rev [bits (c_rank c)..<J])) @
      (if c_rank c = 0 then [] else send_block c (parent (c_rank c))))"
proof (cases "c_rank c = 0")
  case True
  then show ?thesis using collect_loop_block [OF assms] by (simp add: collect_and_report_def)
next
  case False
  let ?r = "c_rank c"
  have r: "0 < ?r" "?r < c_size c" "c_size c \<le> 2 ^ 30" using assms(1) False by (simp_all add: comm_ok_def)
  have "bits ?r \<noteq> 0" using bits_pos [of ?r] r(1) by simp
  then have "drop_bit 1 (2 ^ bits ?r) = (2 :: int) ^ (bits ?r - 1)" by (subst drop_one_power) simp
  then have "?r - drop_bit 1 (2 ^ bits ?r) = parent ?r" by (simp add: parent_def)
  moreover have "i32 (parent ?r) = parent ?r" using parent_range [OF r(1)] r by (intro i32_small) simp_all
  moreover have "MPIC_Send send_nothing (parent ?r) c = Some (send_block c (parent ?r))"
    using parent_range [OF r(1)] r by (intro MPIC_Send_block [OF assms(1)]) simp_all
  ultimately show ?thesis
    using False collect_loop_block [OF assms] by (simp add: collect_and_report_def)
qed

lemma DeclareBarrierEntryToRank0_block:
  assumes "comm_ok c"
  shows "DeclareBarrierEntryToRank0 c =
    Some (concat (map (\<lambda>j. recv_block c (c_rank c + 2 ^ j)) (rev (kids (c_rank c) (c_size c)))) @
      (if c_rank c = 0 then [] else send_block c (parent (c_rank c))))"
proof -
  let ?r = "c_rank c" and ?n = "c_size c"
  have c: "0 \<le> ?r" "?r < ?n" "0 < ?n" "?n \<le> 2 ^ 30" using assms by (auto simp: comm_ok_def)
  define J where "J = BitScanReverse ?n"
  have P: "PowerOf2Floor ?n = 2 ^ J" "2 ^ J \<le> ?n" "?n < 2 * 2 ^ J"
    using PowerOf2Floor_bounds [OF c(3)] by (simp_all add: J_def PowerOf2Floor_power)
  have small: "(2 :: int) ^ j * 2 \<le> 2 ^ Suc J" if "j < Suc J" for j
    using power_increasing [of "Suc j" "Suc J" "2 :: int"] that by simp
  show ?thesis
  proof (cases "?n = 2 ^ J")
    case True
    have kids: "kids ?r ?n = [bits ?r..<J]"
    proof -
      have "bits (?n - 1) = J"
      proof -
        have "k < depth ?n \<longleftrightarrow> k < J" for k
          using less_depth [of ?n k] c True power_strict_increasing_iff [of "2 :: int" k J] by simp
        from this [of J] this [of "depth ?n"] show ?thesis by simp
      qed
      moreover have "?r + 2 ^ j < ?n" if "j \<in> set [bits ?r..<J]" for j
      proof -
        have "?r < 2 ^ j" using that bits_le [OF c(1)] by simp
        moreover have "(2 :: int) ^ Suc j \<le> 2 ^ J" using that by (intro power_increasing) simp_all
        ultimately show ?thesis using True by simp
      qed
      ultimately show ?thesis by (simp add: kids_def filter_id_conv)
    qed
    then show ?thesis
      using True collect_and_report_block [OF assms, of J] c IsPowerOf2_iff [OF c(3)] P
      by (simp add: DeclareBarrierEntryToRank0_def)
  next
    case False
    then have notp: "\<not> IsPowerOf2 ?n" using IsPowerOf2_iff [OF c(3)] P by simp
    define p where "p = (2 :: int) ^ J"
    have p: "1 \<le> p" "p < ?n" "?n < 2 * p" using P False by (simp_all add: p_def)
    have depth: "depth ?n = Suc J"
      using bits_le [of "?n - 1" "Suc J"] bits_le [of "?n - 1" J] p by (simp add: p_def)
    have i: "i32 (?r - p) = ?r - p" "i32 (?r + p) = ?r + p" by (rule i32_small; use c p in simp)+
    show ?thesis
    proof (cases "?r < p")
      case False
      then have "bits ?r = Suc J"
        using bits_le [OF c(1), of J] bits_le [OF c(1), of "Suc J"] c p by (simp add: p_def)
      then have "parent ?r = ?r - p" "kids ?r ?n = []" "0 < ?r"
        using depth False p by (simp_all add: parent_def p_def kids_def)
      moreover have "MPIC_Send send_nothing (?r - p) c = Some (send_block c (?r - p))"
        using False c p by (intro MPIC_Send_block [OF assms]) simp_all
      ultimately show ?thesis
        using False notp P(1) i by (simp add: DeclareBarrierEntryToRank0_def p_def Let_def)
    next
      case True
      have le: "bits ?r \<le> J" using bits_le [OF c(1)] True by (simp add: p_def)
      have inner: "filter (\<lambda>j. ?r + 2 ^ j < ?n) [bits ?r..<J] = [bits ?r..<J]"
      proof -
        have "?r + 2 ^ j < ?n" if "j \<in> set [bits ?r..<J]" for j
        proof -
          have "?r < 2 ^ j" using that bits_le [OF c(1)] by simp
          moreover have "(2 :: int) ^ Suc j \<le> 2 ^ J" using that by (intro power_increasing) simp_all
          ultimately show ?thesis using P(2) by simp
        qed
        then show ?thesis by (simp add: filter_id_conv)
      qed
      have kids: "rev (kids ?r ?n) = (if ?r + p < ?n then [J] else []) @ rev [bits ?r..<J]"
        using le by (simp add: kids_def depth inner p_def)
      have recv: "?r + p < ?n \<Longrightarrow> MPIC_Recv recv_nothing (?r + p) c = Some (recv_block c (?r + p))"
        using c p by (intro MPIC_Recv_block [OF assms]) simp_all
      show ?thesis
        using True notp P(1,2) i recv collect_and_report_block [OF assms, of J] unfolding kids
        by (auto simp: DeclareBarrierEntryToRank0_def p_def Let_def)
    qed
  qed
qed

subsection \<open>What the messages of a barrier say\<close>

text \<open>
  \<open>kn t E\<close> says that what rank \<open>t\<close> stands for has entered the barrier, \<open>E\<close> being the processes
  that have. In the flat barrier a message over a distance tells that as many ranks have entered,
  counted down from the sender; in the tree, a message up that the subtree of the sender has and a
  message down that everything has.
\<close>

definition flat_inv ::
  "('a) coll_comm_scheme \<Rightarrow> (int \<Rightarrow> int set \<Rightarrow> bool) \<Rightarrow> (int, unit) message_inv \<Rightarrow> bool" where
  "flat_inv c kn M \<longleftrightarrow> (\<forall>s t E. 0 \<le> s \<and> s < c_size c \<and> 0 \<le> t \<and> t < c_size c \<longrightarrow>
     M (Channel (c_kind c) (proc_at c s) (proc_at c t)) () E =
       (\<forall>j. 0 \<le> j \<and> j < (t - s) mod c_size c \<longrightarrow> kn ((s - j) mod c_size c) E))"

definition knows_subtree :: "int \<Rightarrow> (int \<Rightarrow> int set \<Rightarrow> bool) \<Rightarrow> nat \<Rightarrow> int \<Rightarrow> int set \<Rightarrow> bool" where
  "knows_subtree n kn J r E \<longleftrightarrow> (\<forall>q. 0 \<le> q \<and> q < n \<and> q mod 2 ^ J = r \<longrightarrow> kn q E)"

definition tree_inv ::
  "('a) coll_comm_scheme \<Rightarrow> (int \<Rightarrow> int set \<Rightarrow> bool) \<Rightarrow> (int set \<Rightarrow> bool) \<Rightarrow> (int, unit) message_inv \<Rightarrow> bool" where
  "tree_inv c kn everything M \<longleftrightarrow> (\<forall>s t E. 0 \<le> s \<and> s < c_size c \<and> 0 \<le> t \<and> t < c_size c \<longrightarrow>
     M (Channel (c_kind c) (proc_at c s) (proc_at c t)) () E =
       (if t < s then knows_subtree (c_size c) kn (bits s) s E else everything E))"

lemma wp_exchange:
  "wp M (exchange_block c t u @ rest) Q d E \<longleftrightarrow>
     M (Channel (c_kind c) (proc_at c (c_rank c)) (proc_at c t)) () E \<and>
     (\<forall>E'. E \<subseteq> E' \<longrightarrow> M (Channel (c_kind c) (proc_at c u) (proc_at c (c_rank c))) () E' \<longrightarrow> wp M rest Q () E')"
  by (simp add: exchange_block_def Let_def send_nothing_def recv_nothing_def)

lemma wp_send_block:
  "wp M (send_block c t @ rest) Q d E \<longleftrightarrow>
     M (Channel (c_kind c) (proc_at c (c_rank c)) (proc_at c t)) () E \<and> wp M rest Q d E"
  by (simp add: send_block_def Let_def send_nothing_def)

lemma wp_recv_block:
  "wp M (recv_block c t @ rest) Q d E \<longleftrightarrow>
     (\<forall>E'. E \<subseteq> E' \<longrightarrow> M (Channel (c_kind c) (proc_at c t) (proc_at c (c_rank c))) () E' \<longrightarrow> wp M rest Q () E')"
  by (simp add: recv_block_def Let_def recv_nothing_def)

lemma flat_rounds_wp:
  assumes ok: "comm_ok c" and inv: "flat_inv c kn M" and mono: "monotone_in kn"
    and post: "\<And>E'. E \<subseteq> E' \<Longrightarrow> (\<And>t. 0 \<le> t \<Longrightarrow> t < c_size c \<Longrightarrow> kn t E') \<Longrightarrow> wp M rest Q () E'"
    and here: "\<And>j. 0 \<le> j \<Longrightarrow> j < 2 ^ k \<Longrightarrow> kn ((c_rank c - j) mod c_size c) E"
  shows "wp M (concat (map (\<lambda>k. exchange_block c ((c_rank c + 2 ^ k) mod c_size c)
    ((c_rank c - 2 ^ k) mod c_size c)) [k..<depth (c_size c)]) @ rest) Q () E"
  using post here
proof (induction "depth (c_size c) - k" arbitrary: k E)
  case 0
  let ?r = "c_rank c" and ?n = "c_size c"
  have c: "0 \<le> ?r" "?r < ?n" using ok by (simp_all add: comm_ok_def)
  have big: "?n \<le> 2 ^ k" using 0(1) less_depth [of ?n k] c by simp
  have "kn t E" if "0 \<le> t" "t < ?n" for t
  proof -
    have "(?r - t) mod ?n < 2 ^ k" using big c by (meson less_le_trans pos_mod_bound le_less_trans)
    then have "kn ((?r - (?r - t) mod ?n) mod ?n) E" using 0(3) c by simp
    then show ?thesis using that by (simp add: mod_diff_right_eq)
  qed
  then show ?case using 0(1,2) by simp
next
  case (Suc m)
  let ?r = "c_rank c" and ?n = "c_size c"
  have c: "0 \<le> ?r" "?r < ?n" using ok by (simp_all add: comm_ok_def)
  have k: "k < depth ?n" using Suc.hyps(2) by simp
  have lt: "2 ^ k < ?n" using k less_depth [of ?n k] c by simp
  have there: "((?r + 2 ^ k) mod ?n - ?r) mod ?n = 2 ^ k" using lt by (simp add: mod_diff_left_eq)
  have behind: "(?r - (?r - 2 ^ k) mod ?n) mod ?n = 2 ^ k" using lt by (simp add: mod_diff_right_eq)
  have "M (Channel (c_kind c) (proc_at c ?r) (proc_at c ((?r + 2 ^ k) mod ?n))) () E"
    using inv c Suc.prems(2) there unfolding flat_inv_def by simp
  moreover have "wp M (concat (map (\<lambda>k. exchange_block c ((?r + 2 ^ k) mod ?n)
    ((?r - 2 ^ k) mod ?n)) [Suc k..<depth ?n]) @ rest) Q () E'"
    if E': "E \<subseteq> E'" and m: "M (Channel (c_kind c) (proc_at c ((?r - 2 ^ k) mod ?n)) (proc_at c ?r)) () E'" for E'
  proof (rule Suc.hyps(1))
    show "m = depth ?n - Suc k" using Suc.hyps(2) by simp
    show "wp M rest Q () F" if "E' \<subseteq> F" "\<And>t. 0 \<le> t \<Longrightarrow> t < ?n \<Longrightarrow> kn t F" for F
      using Suc.prems(1) [OF order_trans [OF E' that(1)] that(2)] .
    show "kn ((?r - j) mod ?n) E'" if "0 \<le> j" "j < 2 ^ Suc k" for j
    proof (cases "j < 2 ^ k")
      case True
      then show ?thesis using Suc.prems(2) [OF that(1)] mono E' by (auto dest: monotone_inD)
    next
      case False
      have "kn (((?r - 2 ^ k) mod ?n - (j - 2 ^ k)) mod ?n) E'"
        using m inv c behind that False unfolding flat_inv_def by simp
      then show ?thesis by (simp add: mod_diff_left_eq)
    qed
  qed
  ultimately show ?case unfolding upt_conv_Cons [OF k] by (simp add: wp_exchange)
qed

lemma flat_barrier_wp:
  assumes "comm_ok c" "flat_inv c kn M" "monotone_in kn" "kn (c_rank c) E"
    "\<And>E'. E \<subseteq> E' \<Longrightarrow> (\<And>t. 0 \<le> t \<Longrightarrow> t < c_size c \<Longrightarrow> kn t E') \<Longrightarrow> wp M rest Q () E'"
  shows "wp M (the (MPIR_Barrier_intra_flat c) @ rest) Q () E"
proof -
  have here: "kn ((c_rank c - j) mod c_size c) E" if "0 \<le> j" "j < 2 ^ 0" for j
  proof -
    have "j = 0" using that by simp
    then show ?thesis using assms(1,4) by (simp add: comm_ok_def)
  qed
  show ?thesis
    unfolding MPIR_Barrier_intra_flat_block [OF assms(1)] option.sel
    by (rule flat_rounds_wp [OF assms(1-3)]) (use assms(5) here in auto)
qed

lemma knows_subtree_grow: "monotone_in kn \<Longrightarrow> knows_subtree n kn J r E \<Longrightarrow> E \<subseteq> E' \<Longrightarrow> knows_subtree n kn J r E'"
  unfolding knows_subtree_def by (blast dest: monotone_inD)

lemma mod_double: "0 \<le> q \<Longrightarrow> q mod 2 ^ Suc J = q mod 2 ^ J \<or> q mod 2 ^ Suc J = q mod 2 ^ J + 2 ^ J" for q :: int
proof -
  have "q mod (2 ^ J * 2) = 2 ^ J * (q div 2 ^ J mod 2) + q mod 2 ^ J" by (rule zmod_zmult2_eq) simp
  moreover have "q div 2 ^ J mod 2 = 0 \<or> q div 2 ^ J mod 2 = 1" by linarith
  ultimately show ?thesis by (auto simp: mult.commute)
qed

lemma bits_child: "0 \<le> r \<Longrightarrow> r < 2 ^ j \<Longrightarrow> bits (r + 2 ^ j) = Suc j"
  using bits_le [of "r + 2 ^ j" j] bits_le [of "r + 2 ^ j" "Suc j"] by simp

lemma collect_wp:
  assumes ok: "comm_ok c" and inv: "tree_inv c kn everything M" and mono: "monotone_in kn"
    and J: "bits (c_rank c) \<le> J" "J \<le> depth (c_size c)"
    and post: "\<And>E'. E \<subseteq> E' \<Longrightarrow> knows_subtree (c_size c) kn (bits (c_rank c)) (c_rank c) E' \<Longrightarrow> wp M rest Q () E'"
    and here: "knows_subtree (c_size c) kn J (c_rank c) E"
  shows "wp M (concat (map (\<lambda>j. recv_block c (c_rank c + 2 ^ j))
    (rev (filter (\<lambda>j. c_rank c + 2 ^ j < c_size c) [bits (c_rank c)..<J]))) @ rest) Q () E"
  using J post here
proof (induction J arbitrary: E)
  case 0
  then show ?case by simp
next
  case (Suc J)
  let ?r = "c_rank c" and ?n = "c_size c"
  have c: "0 \<le> ?r" "?r < ?n" using ok by (simp_all add: comm_ok_def)
  show ?case
  proof (cases "bits ?r = Suc J")
    case True
    then show ?thesis using Suc.prems(3,4) by simp
  next
    case False
    with Suc.prems(1) have le: "bits ?r \<le> J" by simp
    then have small: "?r < 2 ^ J" using bits_le [OF c(1)] by simp
    have kidbits: "bits (?r + 2 ^ J) = Suc J" by (rule bits_child [OF c(1) small])
    have step: "wp M (concat (map (\<lambda>j. recv_block c (?r + 2 ^ j))
        (rev (filter (\<lambda>j. ?r + 2 ^ j < ?n) [bits ?r..<J]))) @ rest) Q () E'"
      if E': "E \<subseteq> E'" and sub: "?r + 2 ^ J < ?n \<longrightarrow> knows_subtree ?n kn (Suc J) (?r + 2 ^ J) E'" for E'
    proof (rule Suc.IH [OF le])
      show "J \<le> depth ?n" using Suc.prems(2) by simp
      show "wp M rest Q () F" if "E' \<subseteq> F" "knows_subtree ?n kn (bits ?r) ?r F" for F
        using Suc.prems(3) [OF order_trans [OF E' that(1)] that(2)] .
      have old: "knows_subtree ?n kn (Suc J) ?r E'" by (rule knows_subtree_grow [OF mono Suc.prems(4) E'])
      show "knows_subtree ?n kn J ?r E'"
        unfolding knows_subtree_def
      proof (intro allI impI, elim conjE)
        fix q assume q: "0 \<le> q" "q < ?n" "q mod 2 ^ J = ?r"
        from mod_double [OF q(1), of J] show "kn q E'"
        proof
          assume "q mod 2 ^ Suc J = q mod 2 ^ J"
          then show ?thesis using old q unfolding knows_subtree_def by simp
        next
          assume m: "q mod 2 ^ Suc J = q mod 2 ^ J + 2 ^ J"
          have "q mod 2 ^ Suc J \<le> q" using q(1) by (simp add: zmod_le_nonneg_dividend del: power_Suc)
          then have "?r + 2 ^ J < ?n" using m q by simp
          then show ?thesis using sub m q unfolding knows_subtree_def by simp
        qed
      qed
    qed
    show ?thesis
    proof (cases "?r + 2 ^ J < ?n")
      case False
      then show ?thesis using step [OF order.refl] le by simp
    next
      case True
      have "wp M (recv_block c (?r + 2 ^ J) @ concat (map (\<lambda>j. recv_block c (?r + 2 ^ j))
        (rev (filter (\<lambda>j. ?r + 2 ^ j < ?n) [bits ?r..<J]))) @ rest) Q () E"
        unfolding wp_recv_block
      proof (intro allI impI)
        fix E' assume E': "E \<subseteq> E'" "M (Channel (c_kind c) (proc_at c (?r + 2 ^ J)) (proc_at c ?r)) () E'"
        have "0 \<le> ?r + 2 ^ J" "?r < ?r + 2 ^ J" using c(1) by simp_all
        then have "knows_subtree ?n kn (Suc J) (?r + 2 ^ J) E'"
          using inv E'(2) c True kidbits unfolding tree_inv_def by simp
        then show "wp M (concat (map (\<lambda>j. recv_block c (?r + 2 ^ j))
          (rev (filter (\<lambda>j. ?r + 2 ^ j < ?n) [bits ?r..<J]))) @ rest) Q () E'"
          using step [OF E'(1)] by simp
      qed
      then show ?thesis using True le by simp
    qed
  qed
qed

lemma entry_wp:
  assumes ok: "comm_ok c" and inv: "tree_inv c kn everything M" and mono: "monotone_in kn"
    and here: "kn (c_rank c) E"
    and post: "\<And>E'. E \<subseteq> E' \<Longrightarrow> (c_rank c = 0 \<Longrightarrow> \<forall>t. 0 \<le> t \<and> t < c_size c \<longrightarrow> kn t E') \<Longrightarrow> wp M rest Q () E'"
  shows "wp M (the (DeclareBarrierEntryToRank0 c) @ rest) Q () E"
proof -
  let ?r = "c_rank c" and ?n = "c_size c"
  have c: "0 \<le> ?r" "?r < ?n" using ok by (simp_all add: comm_ok_def)
  let ?up = "if ?r = 0 then [] else send_block c (parent ?r)"
  have up: "wp M (?up @ rest) Q () E'"
    if E': "E \<subseteq> E'" and sub: "knows_subtree ?n kn (bits ?r) ?r E'" for E'
  proof (cases "?r = 0")
    case True
    have "\<forall>t. 0 \<le> t \<and> t < ?n \<longrightarrow> kn t E'"
      using sub True by (simp add: knows_subtree_def bits_def)
    then show ?thesis using True post [OF E'] by simp
  next
    case False
    then have "0 < ?r" using c by simp
    note p = parent_range [OF this]
    then have "M (Channel (c_kind c) (proc_at c ?r) (proc_at c (parent ?r))) () E'"
      using inv c sub unfolding tree_inv_def by simp
    then show ?thesis using False post [OF E'] by (simp add: wp_send_block)
  qed
  have "knows_subtree ?n kn (depth ?n) ?r E"
    unfolding knows_subtree_def
  proof (intro allI impI, elim conjE)
    fix q assume q: "0 \<le> q" "q < ?n" "q mod 2 ^ depth ?n = ?r"
    have "q < 2 ^ depth ?n" using bits_below [OF q(1,2)] bits_le [OF q(1)] by simp
    then show "kn q E" using q here by simp
  qed
  then have "wp M (concat (map (\<lambda>j. recv_block c (?r + 2 ^ j)) (rev (kids ?r ?n))) @ ?up @ rest) Q () E"
    unfolding kids_def
    by (intro collect_wp [OF ok inv mono bits_below [OF c] order.refl]) (use up in auto)
  then show ?thesis
    unfolding DeclareBarrierEntryToRank0_block [OF ok] option.sel by simp
qed

lemma release_wp:
  assumes ok: "comm_ok c" and inv: "tree_inv c kn everything M" and mono: "monotone_in (\<lambda>_. everything)"
    and here: "c_rank c = 0 \<Longrightarrow> everything E"
    and post: "\<And>E'. E \<subseteq> E' \<Longrightarrow> everything E' \<Longrightarrow> wp M rest Q () E'"
  shows "wp M (the (ReleaseAllFromBarrier c) @ rest) Q () E"
proof -
  let ?r = "c_rank c" and ?n = "c_size c"
  have c: "0 \<le> ?r" "?r < ?n" using ok by (simp_all add: comm_ok_def)
  have down: "wp M (concat (map (\<lambda>j. send_block c (?r + 2 ^ j)) js) @ rest) Q () E'"
    if "E \<subseteq> E'" "everything E'" "\<forall>j\<in>set js. ?r + 2 ^ j < ?n" for E' js
    using that(3)
  proof (induction js)
    case Nil
    then show ?case using post that(1,2) by simp
  next
    case (Cons j js)
    have "?r < ?r + 2 ^ j" "0 \<le> ?r + 2 ^ j" "?r + 2 ^ j < ?n" using c(1) Cons.prems by simp_all
    then have "M (Channel (c_kind c) (proc_at c ?r) (proc_at c (?r + 2 ^ j))) () E'"
      using inv c that(2) unfolding tree_inv_def by simp
    then show ?case using Cons by (simp add: wp_send_block)
  qed
  have kids: "\<forall>j\<in>set (kids ?r ?n). ?r + 2 ^ j < ?n" by (simp add: kids_def)
  have "wp M ((if ?r = 0 then [] else recv_block c (parent ?r)) @
      concat (map (\<lambda>j. send_block c (?r + 2 ^ j)) (kids ?r ?n)) @ rest) Q () E"
  proof (cases "?r = 0")
    case True
    then show ?thesis using down [OF order.refl here kids] by simp
  next
    case False
    then have "0 < ?r" using c by simp
    note p = parent_range [OF this]
    have "wp M (recv_block c (parent ?r) @ concat (map (\<lambda>j. send_block c (?r + 2 ^ j)) (kids ?r ?n)) @ rest) Q () E"
      unfolding wp_recv_block
    proof (intro allI impI)
      fix E' assume E': "E \<subseteq> E'" "M (Channel (c_kind c) (proc_at c (parent ?r)) (proc_at c ?r)) () E'"
      then have "everything E'" using inv c p unfolding tree_inv_def by simp
      then show "wp M (concat (map (\<lambda>j. send_block c (?r + 2 ^ j)) (kids ?r ?n)) @ rest) Q () E'"
        by (rule down [OF E'(1) _ kids])
    qed
    then show ?thesis using False by simp
  qed
  then show ?thesis
    unfolding ReleaseAllFromBarrier_block [OF ok] option.sel by simp
qed

subsection \<open>The channels of the barriers\<close>

lemma uses_blocks:
  "sends (send_block c t) = {Channel (c_kind c) (proc_at c (c_rank c)) (proc_at c t)}"
  "waits_send (send_block c t) = {Channel (c_kind c) (proc_at c (c_rank c)) (proc_at c t)}"
  "posts (send_block c t) = {}" "receives (send_block c t) = {}"
  "sends (recv_block c t) = {}" "waits_send (recv_block c t) = {}"
  "posts (recv_block c t) = {Channel (c_kind c) (proc_at c t) (proc_at c (c_rank c))}"
  "receives (recv_block c t) = {Channel (c_kind c) (proc_at c t) (proc_at c (c_rank c))}"
  "sends (exchange_block c t u) = {Channel (c_kind c) (proc_at c (c_rank c)) (proc_at c t)}"
  "waits_send (exchange_block c t u) = {Channel (c_kind c) (proc_at c (c_rank c)) (proc_at c t)}"
  "posts (exchange_block c t u) = {Channel (c_kind c) (proc_at c u) (proc_at c (c_rank c))}"
  "receives (exchange_block c t u) = {Channel (c_kind c) (proc_at c u) (proc_at c (c_rank c))}"
  by (simp_all add: send_block_def recv_block_def exchange_block_def Let_def)

end
