(* ===== verification/Node_Comms.thy ===== *)
theory Node_Comms
  imports Coll_Comm
begin

text \<open>
  The sub-communicators of node-aware collectives: \<open>MPIU_Find_node_local_and_leaders\<close>
  (\<open>src/mpi/msmpi/util/local_proc.cpp\<close>) and \<open>MPIR_Comm_commit_node_level\<close>
  (\<open>src/mpi/msmpi/mpid/comm.cpp\<close>). The node of every rank (\<open>MPID_Get_node_id\<close>) is an argument;
  so is the socket level below (\<open>MPIR_Comm_commit_socket_level\<close>).
\<close>

subsection \<open>Leaders and local processes\<close>

record HA_rank_mapping =
  map_rank :: int
  isLocal :: bool

text \<open>\<open>node_leaders\<close> has an entry for every node, \<open>-1\<close> at first.\<close>

fun leaders_loop ::
  "int list \<Rightarrow> int \<Rightarrow> int list \<Rightarrow> int list \<times> int list \<times> bool \<Rightarrow> (int list \<times> int list \<times> bool) outcome" where
  "leaders_loop ids me [] st = Some (Inr st)"
| "leaders_loop ids me (i # is) (node_leaders, leader_ranks, isLeader) = do {
     node_id \<leftarrow> rd ids i;
     if node_id < 0 then Some (Inl (MPIU_ERR_CREATE MPI_ERR_OTHER ''**fail''))
     else do {
       l \<leftarrow> rd node_leaders node_id;
       if l = - 1 then do {
         node_leaders' \<leftarrow> wr node_leaders node_id (int (length leader_ranks));
         leaders_loop ids me is (node_leaders', leader_ranks @ [i], isLeader \<or> i = me)
       } else leaders_loop ids me is (node_leaders, leader_ranks, isLeader)
     }
   }"

fun mappings_loop ::
  "int list \<Rightarrow> int \<Rightarrow> int \<Rightarrow> bool \<Rightarrow> int list \<Rightarrow> int list \<Rightarrow> int list \<times> HA_rank_mapping list \<Rightarrow>
   (int list \<times> HA_rank_mapping list) option" where
  "mappings_loop ids me my_node isLeader node_leaders [] st = Some st"
| "mappings_loop ids me my_node isLeader node_leaders (i # is) (local_ranks, mappings) = do {
     node_id \<leftarrow> rd ids i;
     if node_id = my_node then do {
       m \<leftarrow> (if isLeader \<and> i = me
             then do { l \<leftarrow> rd node_leaders node_id; Some \<lparr>map_rank = l, isLocal = False\<rparr> }
             else Some \<lparr>map_rank = int (length local_ranks), isLocal = True\<rparr>);
       mappings_loop ids me my_node isLeader node_leaders is (local_ranks @ [i], mappings @ [m])
     } else do {
       m \<leftarrow> (if isLeader
             then do { l \<leftarrow> rd node_leaders node_id; Some \<lparr>map_rank = l, isLocal = False\<rparr> }
             else Some \<lparr>map_rank = 0, isLocal = True\<rparr>);
       mappings_loop ids me my_node isLeader node_leaders is (local_ranks, mappings @ [m])
     }
   }"

text \<open>The result: the local ranks, the number of leaders (0 for a process that is none), the
leaders' ranks, the mappings.\<close>

definition MPIU_Find_node_local_and_leaders ::
  "bool \<Rightarrow> int list \<Rightarrow> int \<Rightarrow> int \<Rightarrow> (int list \<times> int \<times> int list \<times> HA_rank_mapping list) outcome" where
  "MPIU_Find_node_local_and_leaders alloc ids max_node_id me =
     (if \<not> alloc then Some (Inl MPIU_ERR_NOMEM)
      else do {
        my_node \<leftarrow> rd ids me;
        found \<leftarrow> leaders_loop ids me [0..int (length ids) - 1] (replicate (nat (max_node_id + 1)) (- 1), [], False);
        case found of
          Inl e \<Rightarrow> Some (Inl e)
        | Inr (node_leaders, leader_ranks, isLeader) \<Rightarrow> do {
            (local_ranks, mappings) \<leftarrow>
              mappings_loop ids me my_node isLeader node_leaders [0..int (length ids) - 1] ([], []);
            Some (Inr (local_ranks, if isLeader then int (length leader_ranks) else 0, leader_ranks, mappings))
          }
      })"

subsection \<open>The sub-communicators\<close>

text \<open>Which of the allocations succeed, in the order of the code.\<close>

record commit_env =
  alloc_procs :: bool
  alloc_nodes :: bool
  create_local :: bool
  alloc_local_vcrt :: bool
  alloc_local_map :: bool
  create_leaders :: bool
  alloc_leaders_vcrt :: bool

text \<open>The loops over the ranks of a new communicator, from the last to the first.\<close>

fun rank_and_vcr ::
  "int list \<Rightarrow> int list \<Rightarrow> int \<Rightarrow> int list \<Rightarrow> int \<times> int list \<Rightarrow> (int \<times> int list) option" where
  "rank_and_vcr vcrs ps me [] st = Some st"
| "rank_and_vcr vcrs ps me (k # ks) (r, v) = do {
     p \<leftarrow> rd ps k;
     x \<leftarrow> rd vcrs p;
     rank_and_vcr vcrs ps me ks (if p = me then k else r, x # v)
   }"

definition sub_comm :: "comm_kind \<Rightarrow> intra_comm \<Rightarrow> int list \<Rightarrow> coll_comm option" where
  "sub_comm kind c ps = do {
     (r, v) \<leftarrow> rank_and_vcr (vcr c) ps (c_rank c) (rev [0..int (length ps) - 1]) (- 1, []);
     Some \<lparr>c_kind = kind, c_rank = r, c_size = int (length ps), vcr = v\<rparr>
   }"

text \<open>
  The result of the commit. When the mapping table of the local sub-communicator cannot be
  allocated the code takes the failure exit with \<open>mpi_errno\<close> still \<open>MPI_SUCCESS\<close>.
\<close>

definition MPIR_Comm_commit_node_level ::
  "commit_env \<Rightarrow> (intra_comm \<Rightarrow> mpi_error + intra_comm) \<Rightarrow> (coll_comm \<Rightarrow> mpi_error + unit) \<Rightarrow>
   int list \<Rightarrow> int \<Rightarrow> intra_comm \<Rightarrow> intra_comm outcome" where
  "MPIR_Comm_commit_node_level env socket_level sub_socket_level ids max_node_id c =
     (if \<not> alloc_procs env then Some (Inl MPIU_ERR_NOMEM)
      else do {
        found \<leftarrow> MPIU_Find_node_local_and_leaders (alloc_nodes env) ids max_node_id (c_rank c);
        case found of
          Inl e \<Rightarrow> Some (Inl e)
        | Inr (local_procs, num_external, external_procs, mappings) \<Rightarrow>
            if num_external = c_size c then Some (Inr c)
            else if int (length local_procs) = c_size c then Some (socket_level c)
            else do {
              with_local \<leftarrow>
                (if length local_procs > 1 then
                   if \<not> create_local env then Some (Inl (Inl MPIU_ERR_NOMEM))
                   else if \<not> alloc_local_vcrt env then Some (Inl (Inl MPIU_ERR_NOMEM))
                   else do {
                     l \<leftarrow> sub_comm INTRACOMM_NODE c local_procs;
                     if \<not> alloc_local_map env then Some (Inl (Inr c))
                     else case sub_socket_level l of
                       Inl e \<Rightarrow> Some (Inl (Inl e))
                     | Inr _ \<Rightarrow> Some (Inr (c\<lparr>local_subcomm := Some l\<rparr>))
                   }
                 else Some (Inr c));
              case with_local of
                Inl exit \<Rightarrow> Some exit
              | Inr c' \<Rightarrow>
                  if num_external = 0 then Some (Inr c')
                  else if \<not> create_leaders env then Some (Inl MPIU_ERR_NOMEM)
                  else if \<not> alloc_leaders_vcrt env then Some (Inl MPIU_ERR_NOMEM)
                  else do {
                    x \<leftarrow> sub_comm INTRACOMM_NODE_ROOT c external_procs;
                    Some (Inr (c'\<lparr>leaders_subcomm := Some x\<rparr>))
                  }
            }
      })"

subsection \<open>What the loops compute\<close>

text \<open>The first process of its node.\<close>

definition first_of :: "int list \<Rightarrow> nat \<Rightarrow> bool" where
  "first_of ids i \<longleftrightarrow> ids ! i \<notin> set (take i ids)"

definition leaders :: "int list \<Rightarrow> nat \<Rightarrow> nat list" where
  "leaders ids k = filter (first_of ids) [0..<k]"

definition locals :: "int list \<Rightarrow> int \<Rightarrow> nat \<Rightarrow> nat list" where
  "locals ids node k = filter (\<lambda>i. ids ! i = node) [0..<k]"

definition nodes_ok :: "int list \<Rightarrow> int \<Rightarrow> bool" where
  "nodes_ok ids max_node_id \<longleftrightarrow> (\<forall>x\<in>set ids. 0 \<le> x \<and> x \<le> max_node_id)"

definition leader_table :: "int list \<Rightarrow> int \<Rightarrow> nat \<Rightarrow> int list \<Rightarrow> bool" where
  "leader_table ids max_node_id k t \<longleftrightarrow> int (length t) = max_node_id + 1 \<and>
     (\<forall>x. 0 \<le> x \<and> x \<le> max_node_id \<longrightarrow>
        (if x \<in> set (take k ids)
         then 0 \<le> t ! nat x \<and> nat (t ! nat x) < length (leaders ids k) \<and>
           ids ! (leaders ids k ! nat (t ! nat x)) = x
         else t ! nat x = - 1))"

lemma leaders_Suc: "leaders ids (Suc k) = leaders ids k @ (if first_of ids k then [k] else [])"
  by (simp add: leaders_def)

lemma locals_Suc: "locals ids x (Suc k) = locals ids x k @ (if ids ! k = x then [k] else [])"
  by (simp add: locals_def)

lemma leaders_loop_result:
  assumes ids: "nodes_ok ids max_node_id" and "k \<le> length ids" "leader_table ids max_node_id k t"
  shows "\<exists>t'. leaders_loop ids me (map int [k..<length ids]) (t, map int (leaders ids k), l) =
      Some (Inr (t', map int (leaders ids (length ids)),
        l \<or> (\<exists>i. k \<le> i \<and> i < length ids \<and> first_of ids i \<and> int i = me))) \<and>
    leader_table ids max_node_id (length ids) t'"
  using assms(2,3)
proof (induction "length ids - k" arbitrary: k t l)
  case 0
  then show ?case by auto
next
  case (Suc m)
  then have k: "k < length ids" and m: "m = length ids - Suc k" by simp_all
  have x: "0 \<le> ids ! k" "ids ! k \<le> max_node_id" using ids k by (auto simp: nodes_ok_def)
  have len: "int (length t) = max_node_id + 1" using Suc.prems(2) by (simp add: leader_table_def)
  have entry: "rd t (ids ! k) = Some (t ! nat (ids ! k))" using x len by (simp add: rd_def)
  have take: "set (take (Suc k) ids) = insert (ids ! k) (set (take k ids))"
    using k by (simp add: take_Suc_conv_app_nth)
  have list: "[k..<length ids] = k # [Suc k..<length ids]" using k by (simp add: upt_conv_Cons)
  show ?case
  proof (cases "first_of ids k")
    case False
    then have old: "ids ! k \<in> set (take k ids)" by (simp add: first_of_def)
    then have "t ! nat (ids ! k) \<noteq> - 1" using Suc.prems(2) x unfolding leader_table_def by fastforce
    then have step: "leaders_loop ids me (map int [k..<length ids]) (t, map int (leaders ids k), l) =
        leaders_loop ids me (map int [Suc k..<length ids]) (t, map int (leaders ids (Suc k)), l)"
      unfolding list using k x entry False by (simp add: leaders_Suc del: rd_eq_Some)
    have "leader_table ids max_node_id (Suc k) t"
      using Suc.prems(2) old False unfolding leader_table_def take by (simp add: leaders_Suc insert_absorb)
    then obtain t' where "leaders_loop ids me (map int [Suc k..<length ids]) (t, map int (leaders ids (Suc k)), l) =
      Some (Inr (t', map int (leaders ids (length ids)),
        l \<or> (\<exists>i. Suc k \<le> i \<and> i < length ids \<and> first_of ids i \<and> int i = me)))"
      "leader_table ids max_node_id (length ids) t'"
      using Suc.hyps(1) [OF m, of t l] k by (meson Suc_leI)
    moreover have "(\<exists>i. k \<le> i \<and> i < length ids \<and> first_of ids i \<and> int i = me) \<longleftrightarrow>
      (\<exists>i. Suc k \<le> i \<and> i < length ids \<and> first_of ids i \<and> int i = me)"
      using False by (metis Suc_le_eq le_less)
    ultimately show ?thesis unfolding step by auto
  next
    case True
    then have new: "ids ! k \<notin> set (take k ids)" by (simp add: first_of_def)
    then have "t ! nat (ids ! k) = - 1" using Suc.prems(2) x unfolding leader_table_def by auto
    moreover define t1 where "t1 = t[nat (ids ! k) := int (length (leaders ids k))]"
    ultimately have step: "leaders_loop ids me (map int [k..<length ids]) (t, map int (leaders ids k), l) =
        leaders_loop ids me (map int [Suc k..<length ids]) (t1, map int (leaders ids (Suc k)), l \<or> int k = me)"
      unfolding list using k x entry True len by (simp add: leaders_Suc wr_def t1_def del: rd_eq_Some)
    have "leader_table ids max_node_id (Suc k) t1"
      unfolding leader_table_def
    proof (intro conjI allI impI)
      show "int (length t1) = max_node_id + 1" using len by (simp add: t1_def)
      fix y assume y: "0 \<le> y \<and> y \<le> max_node_id"
      show "if y \<in> set (take (Suc k) ids)
         then 0 \<le> t1 ! nat y \<and> nat (t1 ! nat y) < length (leaders ids (Suc k)) \<and>
           ids ! (leaders ids (Suc k) ! nat (t1 ! nat y)) = y
         else t1 ! nat y = - 1"
      proof (cases "y = ids ! k")
        case eq: True
        have "t1 ! nat y = int (length (leaders ids k))" using eq x len by (simp add: t1_def)
        then show ?thesis using eq True k by (simp add: take leaders_Suc)
      next
        case False
        then have "nat y \<noteq> nat (ids ! k)" using y x by auto
        then have same: "t1 ! nat y = t ! nat y" by (simp add: t1_def)
        have "if y \<in> set (take k ids)
         then 0 \<le> t ! nat y \<and> nat (t ! nat y) < length (leaders ids k) \<and>
           ids ! (leaders ids k ! nat (t ! nat y)) = y
         else t ! nat y = - 1" using Suc.prems(2) y unfolding leader_table_def by blast
        then show ?thesis using False True by (auto simp: take same leaders_Suc nth_append)
      qed
    qed
    then obtain t' where "leaders_loop ids me (map int [Suc k..<length ids]) (t1, map int (leaders ids (Suc k)), l \<or> int k = me) =
      Some (Inr (t', map int (leaders ids (length ids)),
        (l \<or> int k = me) \<or> (\<exists>i. Suc k \<le> i \<and> i < length ids \<and> first_of ids i \<and> int i = me)))"
      "leader_table ids max_node_id (length ids) t'"
      using Suc.hyps(1) [OF m, of t1 "l \<or> int k = me"] k by (meson Suc_leI)
    moreover have "(\<exists>i. k \<le> i \<and> i < length ids \<and> first_of ids i \<and> int i = me) \<longleftrightarrow>
      int k = me \<or> (\<exists>i. Suc k \<le> i \<and> i < length ids \<and> first_of ids i \<and> int i = me)"
      using True k by (metis Suc_le_eq le_less)
    ultimately show ?thesis unfolding step by auto
  qed
qed

text \<open>The mapping of process \<open>i\<close> in a process of node \<open>x\<close>.\<close>

definition mapping_of ::
  "int list \<Rightarrow> int \<Rightarrow> int \<Rightarrow> bool \<Rightarrow> int list \<Rightarrow> nat \<Rightarrow> HA_rank_mapping" where
  "mapping_of ids me x isLeader t i =
     (if ids ! i = x \<and> \<not> (isLeader \<and> int i = me)
      then \<lparr>map_rank = int (length (locals ids x i)), isLocal = True\<rparr>
      else if isLeader then \<lparr>map_rank = t ! nat (ids ! i), isLocal = False\<rparr>
      else \<lparr>map_rank = 0, isLocal = True\<rparr>)"

lemma mappings_loop_result:
  assumes "nodes_ok ids max_node_id" "int (length t) = max_node_id + 1" "k \<le> length ids"
  shows "mappings_loop ids me x isLeader t (map int [k..<length ids])
      (map int (locals ids x k), map (mapping_of ids me x isLeader t) [0..<k]) =
    Some (map int (locals ids x (length ids)), map (mapping_of ids me x isLeader t) [0..<length ids])"
  using assms(3)
proof (induction "length ids - k" arbitrary: k)
  case (Suc m)
  then have k: "k < length ids" by simp
  have "0 \<le> ids ! k" "ids ! k \<le> max_node_id" using assms(1) k by (auto simp: nodes_ok_def)
  then have entry: "rd t (ids ! k) = Some (t ! nat (ids ! k))" using assms(2) by (simp add: rd_def)
  have list: "[k..<length ids] = k # [Suc k..<length ids]" using k by (simp add: upt_conv_Cons)
  have IH: "mappings_loop ids me x isLeader t (map int [Suc k..<length ids])
      (map int (locals ids x (Suc k)), map (mapping_of ids me x isLeader t) [0..<Suc k]) =
    Some (map int (locals ids x (length ids)), map (mapping_of ids me x isLeader t) [0..<length ids])"
    by (rule Suc.hyps(1)) (use Suc.hyps(2) in simp_all)
  have "mappings_loop ids me x isLeader t (int k # ks) (map int (locals ids x k), ms) =
      mappings_loop ids me x isLeader t ks
        (map int (locals ids x (Suc k)), ms @ [mapping_of ids me x isLeader t k])" for ks ms
    using k entry rd_int [OF k] by (cases "ids ! k = x"; cases isLeader; cases "int k = me")
      (simp_all add: locals_Suc mapping_of_def del: rd_eq_Some)
  then show ?case unfolding list using IH by simp
qed simp

text \<open>\<open>me\<close> leads its node if no process before it is on the node.\<close>

lemma MPIU_Find_node_local_and_leaders_result:
  assumes "nodes_ok ids max_node_id" "me < length ids"
  shows "\<exists>t. MPIU_Find_node_local_and_leaders True ids max_node_id (int me) =
      Some (Inr (map int (locals ids (ids ! me) (length ids)),
        if first_of ids me then int (length (leaders ids (length ids))) else 0,
        map int (leaders ids (length ids)),
        map (mapping_of ids (int me) (ids ! me) (first_of ids me) t) [0..<length ids])) \<and>
    leader_table ids max_node_id (length ids) t"
proof -
  have "0 \<le> max_node_id" using assms by (auto simp: nodes_ok_def dest!: bspec [of _ _ "ids ! me"])
  then have start: "leader_table ids max_node_id 0 (replicate (nat (max_node_id + 1)) (- 1))"
    by (simp add: leader_table_def leaders_def)
  obtain t where t: "leaders_loop ids (int me) (map int [0..<length ids])
      (replicate (nat (max_node_id + 1)) (- 1), map int (leaders ids 0), False) =
      Some (Inr (t, map int (leaders ids (length ids)), first_of ids me))"
    "leader_table ids max_node_id (length ids) t"
    using leaders_loop_result [OF assms(1) _ start, of "int me" False] assms(2) by auto
  have "int (length t) = max_node_id + 1" using t(2) by (simp add: leader_table_def)
  from mappings_loop_result [OF assms(1) this, of 0 "int me" "ids ! me" "first_of ids me"] t
  show ?thesis
    using assms(2)
    by (intro exI [of _ t]) (simp add: MPIU_Find_node_local_and_leaders_def index_range leaders_def locals_def)
qed

lemma rank_and_vcr_result:
  assumes "\<forall>p\<in>set ps. p < length vcrs" "k \<le> length ps"
  shows "rank_and_vcr vcrs (map int ps) me (map int (rev [0..<k])) (r, v) =
    Some (if \<exists>j<k. int (ps ! j) = me then int (LEAST j. int (ps ! j) = me) else r,
      map (\<lambda>p. vcrs ! p) (take k ps) @ v)"
  using assms(2)
proof (induction k arbitrary: r v)
  case (Suc k)
  have k: "k < length ps" "ps ! k < length vcrs" using Suc.prems assms(1) by simp_all
  have least: "(LEAST j. int (ps ! j) = me) = k" if "int (ps ! k) = me" "\<not> (\<exists>j<k. int (ps ! j) = me)"
    using that by (intro Least_equality) (auto simp: not_less [symmetric])
  show ?case
    using Suc k least by (auto simp: take_Suc_conv_app_nth less_Suc_eq)
qed simp

lemma sub_comm_result:
  assumes "\<forall>p\<in>set ps. p < length (vcr c)" "distinct ps" "k < length ps" "c_rank c = int (ps ! k)"
  shows "sub_comm kind c (map int ps) =
    Some \<lparr>c_kind = kind, c_rank = int k, c_size = int (length ps), vcr = map (\<lambda>p. vcr c ! p) ps\<rparr>"
proof -
  have "(LEAST j. int (ps ! j) = c_rank c) = k"
    using assms(2-4) by (intro Least_equality) (auto simp: nth_eq_iff_index_eq intro: ccontr)
  moreover have "\<exists>j<length ps. int (ps ! j) = c_rank c" using assms(3,4) by auto
  ultimately show ?thesis
    using rank_and_vcr_result [OF assms(1), of "length ps" "c_rank c" "- 1" "[]"]
    by (simp add: sub_comm_def index_range rev_map)
qed

lemma filter_upt_nth:
  assumes "P k" "k < n"
  shows "length (filter P [0..<k]) < length (filter P [0..<n])"
    "filter P [0..<n] ! length (filter P [0..<k]) = k"
proof -
  have "[0..<n] = [0..<k] @ k # [Suc k..<n]" using assms(2) by (metis upt_add_eq_append upt_conv_Cons le_add1 le_add_diff_inverse less_imp_le_nat zero_le)
  then have "filter P [0..<n] = filter P [0..<k] @ k # filter P [Suc k..<n]" using assms(1) by simp
  then show "length (filter P [0..<k]) < length (filter P [0..<n])"
    "filter P [0..<n] ! length (filter P [0..<k]) = k" by simp_all
qed

text \<open>The sub-communicators a process ends up with.\<close>

definition local_comm :: "int list \<Rightarrow> nat \<Rightarrow> coll_comm" where
  "local_comm ids r = \<lparr>c_kind = INTRACOMM_NODE, c_rank = int (length (locals ids (ids ! r) r)),
     c_size = int (length (locals ids (ids ! r) (length ids))),
     vcr = map int (locals ids (ids ! r) (length ids))\<rparr>"

definition leader_comm :: "int list \<Rightarrow> nat \<Rightarrow> coll_comm" where
  "leader_comm ids r = \<lparr>c_kind = INTRACOMM_NODE_ROOT, c_rank = int (length (leaders ids r)),
     c_size = int (length (leaders ids (length ids))), vcr = map int (leaders ids (length ids))\<rparr>"

text \<open>The communicator before the commit; ranks name the processes.\<close>

definition parent_comm :: "nat \<Rightarrow> nat \<Rightarrow> intra_comm" where
  "parent_comm n r = \<lparr>c_kind = INTRACOMM_PARENT, c_rank = int r, c_size = int n, vcr = map int [0..<n],
     local_subcomm = None, leaders_subcomm = None\<rparr>"

definition all_fine :: commit_env where
  "all_fine = \<lparr>alloc_procs = True, alloc_nodes = True, create_local = True, alloc_local_vcrt = True,
     alloc_local_map = True, create_leaders = True, alloc_leaders_vcrt = True\<rparr>"

lemma MPIR_Comm_commit_node_level_result:
  assumes ids: "nodes_ok ids max_node_id" and r: "r < length ids"
    and sub: "\<And>l. sub_level l = Inr ()"
  shows "MPIR_Comm_commit_node_level all_fine level sub_level ids max_node_id (parent_comm (length ids) r) =
    Some (if first_of ids r \<and> length (leaders ids (length ids)) = length ids then Inr (parent_comm (length ids) r)
      else if length (locals ids (ids ! r) (length ids)) = length ids then level (parent_comm (length ids) r)
      else Inr ((parent_comm (length ids) r)
        \<lparr>local_subcomm := if length (locals ids (ids ! r) (length ids)) > 1 then Some (local_comm ids r) else None,
         leaders_subcomm := if first_of ids r then Some (leader_comm ids r) else None\<rparr>))"
proof -
  let ?c = "parent_comm (length ids) r" and ?n = "length ids"
  let ?L = "locals ids (ids ! r) ?n" and ?H = "leaders ids ?n"
  obtain ms where find: "MPIU_Find_node_local_and_leaders True ids max_node_id (int r) =
      Some (Inr (map int ?L, if first_of ids r then int (length ?H) else 0, map int ?H, ms))"
    using MPIU_Find_node_local_and_leaders_result [OF ids r] by blast
  have rank: "c_rank ?c = int r" "length (vcr ?c) = ?n" "vcr ?c = map int [0..<?n]" "c_size ?c = int ?n"
    by (simp_all add: parent_comm_def)
  have look: "map (\<lambda>p. vcr ?c ! p) ps = map int ps" if "\<forall>p\<in>set ps. p < ?n" for ps
    using that by (simp add: parent_comm_def)
  have L: "\<forall>p\<in>set ?L. p < ?n" "distinct ?L" "length (locals ids (ids ! r) r) < length ?L"
    "?L ! length (locals ids (ids ! r) r) = r"
    using filter_upt_nth [of "\<lambda>i. ids ! i = ids ! r" r ?n] r by (simp_all add: locals_def)
  have locl: "sub_comm INTRACOMM_NODE ?c (map int ?L) = Some (local_comm ids r)"
    using sub_comm_result [of ?L ?c, OF _ L(2,3)] L(1,4) rank look [OF L(1)] by (simp add: local_comm_def)
  have H: "\<forall>p\<in>set ?H. p < ?n" "distinct ?H" by (simp_all add: leaders_def)
  have lead: "sub_comm INTRACOMM_NODE_ROOT ?c (map int ?H) = Some (leader_comm ids r)" "0 < length ?H"
    if "first_of ids r"
  proof -
    have h: "length (leaders ids r) < length ?H" "?H ! length (leaders ids r) = r"
      using filter_upt_nth [of "first_of ids" r ?n] that r by (simp_all add: leaders_def)
    show "sub_comm INTRACOMM_NODE_ROOT ?c (map int ?H) = Some (leader_comm ids r)"
      using sub_comm_result [of ?H ?c, OF _ H(2) h(1)] H(1) h(2) rank look [OF H(1)] by (simp add: leader_comm_def)
    show "0 < length ?H" using h(1) by linarith
  qed
  have fields: "?c\<lparr>local_subcomm := None\<rparr> = ?c" "?c\<lparr>leaders_subcomm := None\<rparr> = ?c"
    "?c\<lparr>local_subcomm := x, leaders_subcomm := None\<rparr> = ?c\<lparr>local_subcomm := x\<rparr>" for x
    by (simp_all add: parent_comm_def)
  show ?thesis
    unfolding MPIR_Comm_commit_node_level_def rank
    using find locl lead sub r by (auto simp: all_fine_def fields)
qed

subsection \<open>Property\<close>

text \<open>C39: \<open>MPIU_Find_node_local_and_leaders\<close> finds the processes of the caller's node in rank order and
the first process of every node. In a process that is not the first of its node every mapping is local: that of a
process of the node leads to it, that of any other to the leader of the caller's node. In a leader the mappings of the
other processes of its node are local and lead to them, all others, its own included, lead to the
leader of the process's node. The ids of the nodes are between 0 and \<open>max_node_id\<close>, and the table of leaders is allocated.\<close>

theorem MPIU_Find_node_local_and_leaders_correct:
  assumes "nodes_ok ids max_node_id" "me < length ids"
  shows "\<exists>maps. MPIU_Find_node_local_and_leaders True ids max_node_id (int me) =
      Some (Inr (map int (locals ids (ids ! me) (length ids)), if first_of ids me then int (length (leaders ids (length ids))) else 0, map int (leaders ids (length ids)), maps)) \<and>
    length maps = length ids \<and>
    (\<forall>i<length ids. 0 \<le> map_rank (maps ! i) \<and>
      (if isLocal (maps ! i)
       then (first_of ids me \<longrightarrow> ids ! i = ids ! me \<and> i \<noteq> me) \<and> nat (map_rank (maps ! i)) < length (locals ids (ids ! me) (length ids)) \<and>
         (locals ids (ids ! me) (length ids)) ! nat (map_rank (maps ! i)) = (if ids ! i = ids ! me then i else (locals ids (ids ! me) (length ids)) ! 0)
       else first_of ids me \<and> (ids ! i \<noteq> ids ! me \<or> i = me) \<and> nat (map_rank (maps ! i)) < length (leaders ids (length ids)) \<and>
         ids ! ((leaders ids (length ids)) ! nat (map_rank (maps ! i))) = ids ! i))"
proof -
  obtain t where find: "MPIU_Find_node_local_and_leaders True ids max_node_id (int me) =
      Some (Inr (map int (locals ids (ids ! me) (length ids)),
        if first_of ids me then int (length (leaders ids (length ids))) else 0,
        map int (leaders ids (length ids)),
        map (mapping_of ids (int me) (ids ! me) (first_of ids me) t) [0..<length ids]))"
    and t: "leader_table ids max_node_id (length ids) t"
    using MPIU_Find_node_local_and_leaders_result [OF assms] by blast
  have lead: "0 \<le> t ! nat (ids ! i)" "nat (t ! nat (ids ! i)) < length (leaders ids (length ids))"
    "ids ! ((leaders ids (length ids)) ! nat (t ! nat (ids ! i))) = ids ! i" if "i < length ids" for i
  proof -
    have "0 \<le> ids ! i" "ids ! i \<le> max_node_id" "ids ! i \<in> set ids" using that assms(1) by (simp_all add: nodes_ok_def)
    then show "0 \<le> t ! nat (ids ! i)" "nat (t ! nat (ids ! i)) < length (leaders ids (length ids))"
      "ids ! ((leaders ids (length ids)) ! nat (t ! nat (ids ! i))) = ids ! i"
      using t unfolding leader_table_def by simp_all
  qed
  have loc: "(locals ids (ids ! me) (length ids)) ! length (locals ids (ids ! me) i) = i" "length (locals ids (ids ! me) i) < length (locals ids (ids ! me) (length ids))"
    if "i < length ids" "ids ! i = ids ! me" for i
    using filter_upt_nth [of "\<lambda>i. ids ! i = ids ! me" i "length ids"] that by (simp_all add: locals_def)
  define maps where "maps = map (mapping_of ids (int me) (ids ! me) (first_of ids me) t) [0..<length ids]"
  have "0 < length (locals ids (ids ! me) (length ids))" using loc(2) [OF assms(2) refl] by linarith
  then have maps: "\<forall>i<length ids. 0 \<le> map_rank (maps ! i) \<and>
      (if isLocal (maps ! i)
       then (first_of ids me \<longrightarrow> ids ! i = ids ! me \<and> i \<noteq> me) \<and> nat (map_rank (maps ! i)) < length (locals ids (ids ! me) (length ids)) \<and>
         (locals ids (ids ! me) (length ids)) ! nat (map_rank (maps ! i)) = (if ids ! i = ids ! me then i else (locals ids (ids ! me) (length ids)) ! 0)
       else first_of ids me \<and> (ids ! i \<noteq> ids ! me \<or> i = me) \<and> nat (map_rank (maps ! i)) < length (leaders ids (length ids)) \<and>
         ids ! ((leaders ids (length ids)) ! nat (map_rank (maps ! i))) = ids ! i)"
    using lead loc by (auto simp: mapping_of_def maps_def)
  show ?thesis
    by (rule exI [of _ maps], intro conjI, rule find [folded maps_def], simp add: maps_def, rule maps)
qed

lemma MPIU_Find_node_local_and_leaders_witness:
  "\<exists>maps. MPIU_Find_node_local_and_leaders True [2, 0, 2, 1] 2 0 = Some (Inr ([0, 2], 3, [0, 1, 3], maps)) \<and>
    \<not> isLocal (maps ! 0) \<and> [2 :: int, 0, 2, 1] ! ([0, 1, 3] ! nat (map_rank (maps ! 0))) = 2"
proof -
  let ?ids = "[2, 0, 2, 1] :: int list"
  have f: "locals ?ids (?ids ! 0) (length ?ids) = [0, 2]" "leaders ?ids (length ?ids) = [0, 1, 3]" "first_of ?ids 0 = True"
    by (simp_all add: locals_def leaders_def first_of_def eval_nat_numeral)
  have ok: "nodes_ok ?ids 2" "0 < length ?ids" by (simp_all add: nodes_ok_def)
  note r = MPIU_Find_node_local_and_leaders_correct [OF ok, unfolded f]
  show ?thesis using r by (elim exE conjE) (simp, drule spec [of _ 0], auto split: if_splits)
qed

end
