(* ===== verification/Barrier_Net.thy ===== *)
theory Barrier_Net
  imports Barrier Node_Comms
begin

text \<open>
  The processes of a communicator in a barrier, as a network: what they know when they return (an
  interpretation of \<open>contract\<close>), and the levels of their operations and the channels they use.
\<close>

subsection \<open>The tree of a node\<close>

lemma kids_tree:
  assumes "0 \<le> r" "j \<in> set (kids r n)"
  shows "0 < r + 2 ^ j" "r + 2 ^ j < n" "parent (r + 2 ^ j) = r" "bits (r + 2 ^ j) = Suc j"
proof -
  have "bits r \<le> j" "r + 2 ^ j < n" using assms(2) by (simp_all add: kids_def)
  then show "0 < r + 2 ^ j" "r + 2 ^ j < n" using assms(1) by (simp_all add: add_nonneg_pos)
  show b: "bits (r + 2 ^ j) = Suc j" using \<open>bits r \<le> j\<close> bits_le [OF assms(1)] bits_child [OF assms(1)] by simp
  show "parent (r + 2 ^ j) = r" by (simp add: parent_def b)
qed

lemma tree_kids:
  assumes "0 < t" "t < n"
  shows "bits t - 1 \<in> set (kids (parent t) n)" "parent t + 2 ^ (bits t - 1) = t"
proof -
  note p = parent_range [OF assms(1)]
  show t: "parent t + 2 ^ (bits t - 1) = t" using p(3) by simp
  have "0 < bits t" using bits_pos assms(1) by simp
  moreover have "bits t \<le> depth n" using bits_below assms by simp
  ultimately have "bits t - 1 < depth n" by simp
  then show "bits t - 1 \<in> set (kids (parent t) n)" using p(4) assms(2) t by (simp add: kids_def)
qed

lemma kids_sorted: "sorted_wrt (<) (kids r n)"
  unfolding kids_def by (intro sorted_wrt_filter) simp

subsection \<open>Ranks within a node and among the leaders\<close>

lemma filter_upt_index:
  assumes "k < length (filter P [0..<n])"
  shows "length (filter P [0..<filter P [0..<n] ! k]) = k"
proof -
  let ?p = "filter P [0..<n] ! k"
  have p: "P ?p" "?p < n" using nth_mem [OF assms] by auto
  have "filter P [0..<n] ! length (filter P [0..<?p]) = ?p" "length (filter P [0..<?p]) < length (filter P [0..<n])"
    using filter_upt_nth [where P = P, OF p] by auto
  then show ?thesis using assms nth_eq_iff_index_eq [of "filter P [0..<n]"] by simp
qed

definition local_rank :: "int list \<Rightarrow> int \<Rightarrow> int" where
  "local_rank ids p = int (length (locals ids (ids ! nat p) (nat p)))"

definition leader_rank :: "int list \<Rightarrow> int \<Rightarrow> int" where
  "leader_rank ids p = int (length (leaders ids (nat p)))"

lemma local_rank_nth:
  "k < length (locals ids x (length ids)) \<Longrightarrow> local_rank ids (int (locals ids x (length ids) ! k)) = int k \<and>
   ids ! (locals ids x (length ids) ! k) = x"
proof -
  assume k: "k < length (locals ids x (length ids))"
  have "ids ! (locals ids x (length ids) ! k) = x" using nth_mem [OF k] by (simp add: locals_def)
  then show ?thesis using filter_upt_index [of k "\<lambda>i. ids ! i = x" "length ids"] k
    by (simp add: local_rank_def locals_def)
qed

lemma leader_rank_nth:
  "k < length (leaders ids (length ids)) \<Longrightarrow> leader_rank ids (int (leaders ids (length ids) ! k)) = int k"
  using filter_upt_index [of k "first_of ids" "length ids"] by (simp add: leader_rank_def leaders_def)

lemma rank_zero_first: "local_rank ids (int r) = 0 \<Longrightarrow> r < length ids \<Longrightarrow> first_of ids r"
  by (auto simp: local_rank_def locals_def first_of_def in_set_conv_nth filter_empty_conv)

lemma first_rank_zero: "first_of ids r \<Longrightarrow> r < length ids \<Longrightarrow> local_rank ids (int r) = 0"
  by (auto simp: local_rank_def locals_def first_of_def in_set_conv_nth filter_empty_conv)

lemma node_has_leader:
  assumes "q < length ids"
  shows "\<exists>t<length (leaders ids (length ids)). ids ! (leaders ids (length ids) ! t) = ids ! q"
proof -
  let ?P = "\<lambda>i. i < length ids \<and> ids ! i = ids ! q"
  define l where "l = (LEAST i. ?P i)"
  have l: "?P l" unfolding l_def by (rule LeastI [of ?P q]) (simp add: assms)
  have "first_of ids l"
    unfolding first_of_def
  proof
    assume "ids ! l \<in> set (take l ids)"
    then obtain i where "i < l" "ids ! i = ids ! q" using l by (auto simp: in_set_conv_nth)
    then show False using not_less_Least [of i ?P] l unfolding l_def by auto
  qed
  then have "l \<in> set (leaders ids (length ids))" using l by (simp add: leaders_def)
  then show ?thesis using l by (metis in_set_conv_nth)
qed

lemma comm_ok_local:
  assumes "r < length ids" "int (length ids) \<le> 2 ^ 30"
  shows "comm_ok (local_comm ids r)"
proof -
  have "length (locals ids (ids ! r) r) < length (locals ids (ids ! r) (length ids))"
    using filter_upt_nth(1) [of "\<lambda>i. ids ! i = ids ! r" r "length ids"] assms(1) by (simp add: locals_def)
  moreover have "length (locals ids (ids ! r) (length ids)) \<le> length ids"
    unfolding locals_def using length_filter_le [of _ "[0..<length ids]"] by simp
  ultimately show ?thesis using assms(2) by (simp add: comm_ok_def local_comm_def)
qed

lemma comm_ok_leader:
  assumes "r < length ids" "first_of ids r" "int (length ids) \<le> 2 ^ 30"
  shows "comm_ok (leader_comm ids r)"
proof -
  have "length (leaders ids r) < length (leaders ids (length ids))"
    using filter_upt_nth(1) [of "first_of ids" r "length ids"] assms(1,2) by (simp add: leaders_def)
  moreover have "length (leaders ids (length ids)) \<le> length ids"
    unfolding leaders_def using length_filter_le [of _ "[0..<length ids]"] by simp
  ultimately show ?thesis using assms(3) by (simp add: comm_ok_def leader_comm_def)
qed

lemma comm_ok_parent: "r < n \<Longrightarrow> int n \<le> 2 ^ 30 \<Longrightarrow> comm_ok (parent_comm n r)"
  by (simp add: comm_ok_def parent_comm_def)

subsection \<open>The network of a barrier\<close>

text \<open>
  The barrier of the processes with nodes \<open>ids\<close>: the code each of them runs once its communicator
  is committed, with and without the node-aware collectives.
\<close>

definition node_aware :: "int list \<Rightarrow> bool" where
  "node_aware ids \<longleftrightarrow> length (leaders ids (length ids)) \<noteq> length ids \<and> (\<exists>x\<in>set ids. x \<noteq> ids ! 0)"

definition node_local :: "int list \<Rightarrow> nat \<Rightarrow> coll_comm option" where
  "node_local ids r = (if length (locals ids (ids ! r) (length ids)) > 1 then Some (local_comm ids r) else None)"

definition node_leader :: "int list \<Rightarrow> nat \<Rightarrow> coll_comm option" where
  "node_leader ids r = (if first_of ids r then Some (leader_comm ids r) else None)"

definition barrier_procs :: "int list \<Rightarrow> int set" where
  "barrier_procs ids = {0..<int (length ids)}"

definition barrier_code :: "int list \<Rightarrow> bool \<Rightarrow> int \<Rightarrow> (unit, unit) action list" where
  "barrier_code ids smp p =
     (if p \<notin> barrier_procs ids then []
      else if smp \<and> node_aware ids
      then the (on_subcomm (node_local ids (nat p)) DeclareBarrierEntryToRank0) @
        the (on_subcomm (node_leader ids (nat p)) MPIR_Barrier_intra_flat) @
        the (on_subcomm (node_local ids (nat p)) ReleaseAllFromBarrier)
      else the (MPIR_Barrier_intra_flat (parent_comm (length ids) (nat p))))"

definition all_entered :: "int list \<Rightarrow> int set \<Rightarrow> bool" where
  "all_entered ids E \<longleftrightarrow> barrier_procs ids \<subseteq> E"

text \<open>What the leader of rank \<open>t\<close> stands for.\<close>

definition node_entered :: "int list \<Rightarrow> int \<Rightarrow> int set \<Rightarrow> bool" where
  "node_entered ids t E \<longleftrightarrow> (\<forall>q<length ids. ids ! q = ids ! (leaders ids (length ids) ! nat t) \<longrightarrow> int q \<in> E)"

definition local_entered :: "int list \<Rightarrow> int \<Rightarrow> int \<Rightarrow> int set \<Rightarrow> bool" where
  "local_entered ids x t E \<longleftrightarrow> int (locals ids x (length ids) ! nat t) \<in> E"

fun barrier_inv :: "int list \<Rightarrow> (int, unit) message_inv" where
  "barrier_inv ids (Channel INTRACOMM_PARENT s d) m E \<longleftrightarrow>
     (\<forall>j. 0 \<le> j \<and> j < (d - s) mod int (length ids) \<longrightarrow> (s - j) mod int (length ids) \<in> E)"
| "barrier_inv ids (Channel INTRACOMM_NODE s d) m E \<longleftrightarrow>
     (if local_rank ids d < local_rank ids s
      then knows_subtree (int (length (locals ids (ids ! nat s) (length ids)))) (local_entered ids (ids ! nat s))
        (bits (local_rank ids s)) (local_rank ids s) E
      else all_entered ids E)"
| "barrier_inv ids (Channel INTRACOMM_NODE_ROOT s d) m E \<longleftrightarrow>
     (\<forall>j. 0 \<le> j \<and> j < (leader_rank ids d - leader_rank ids s) mod int (length (leaders ids (length ids))) \<longrightarrow>
        node_entered ids ((leader_rank ids s - j) mod int (length (leaders ids (length ids)))) E)"

lemma entered_mono:
  "monotone_in (\<lambda>t E. t \<in> E)" "monotone_in (node_entered ids)" "monotone_in (local_entered ids x)"
  "monotone_in (\<lambda>_. all_entered ids)"
  unfolding monotone_in_def node_entered_def local_entered_def all_entered_def by blast+

lemma barrier_inv_mono: "monotone_in (barrier_inv ids c)"
proof (cases c)
  case (Channel k s d)
  show ?thesis
  proof (cases k)
    case INTRACOMM_PARENT
    then show ?thesis unfolding Channel monotone_in_def by auto
  next
    case INTRACOMM_NODE
    then show ?thesis
      unfolding Channel monotone_in_def
      using knows_subtree_grow [OF entered_mono(3)] entered_mono(4) [of ids] by (simp add: monotone_in_def)
  next
    case INTRACOMM_NODE_ROOT
    then show ?thesis
      unfolding Channel monotone_in_def using entered_mono(2) [of ids] by (simp add: monotone_in_def)
  qed
qed

lemma proc_parent: "0 \<le> s \<Longrightarrow> s < int n \<Longrightarrow> proc_at (parent_comm n r) s = s"
  by (simp add: parent_comm_def)

lemma proc_leader:
  "0 \<le> s \<Longrightarrow> s < c_size (leader_comm ids r) \<Longrightarrow> leader_rank ids (proc_at (leader_comm ids r) s) = s"
  using leader_rank_nth [of "nat s" ids] by (simp add: leader_comm_def)

lemma proc_local:
  "0 \<le> s \<Longrightarrow> s < c_size (local_comm ids r) \<Longrightarrow>
   local_rank ids (proc_at (local_comm ids r) s) = s \<and> ids ! nat (proc_at (local_comm ids r) s) = ids ! r"
  using local_rank_nth [of "nat s" ids "ids ! r"] by (simp add: local_comm_def)

lemma comm_sizes:
  "c_size (parent_comm n r) = int n" "c_kind (parent_comm n r) = INTRACOMM_PARENT"
  "c_size (leader_comm ids r) = int (length (leaders ids (length ids)))"
  "c_kind (leader_comm ids r) = INTRACOMM_NODE_ROOT"
  "c_size (local_comm ids r) = int (length (locals ids (ids ! r) (length ids)))"
  "c_kind (local_comm ids r) = INTRACOMM_NODE"
  by (simp_all add: parent_comm_def leader_comm_def local_comm_def)

lemma flat_inv_parent: "flat_inv (parent_comm (length ids) r) (\<lambda>t E. t \<in> E) (barrier_inv ids)"
  unfolding flat_inv_def
  by (intro allI impI, elim conjE) (simp add: comm_sizes proc_parent)

lemma flat_inv_leaders: "flat_inv (leader_comm ids r) (node_entered ids) (barrier_inv ids)"
  unfolding flat_inv_def
  by (intro allI impI, elim conjE) (simp add: proc_leader comm_sizes(4) comm_sizes(3) [of ids r, symmetric])

lemma tree_inv_local:
  "tree_inv (local_comm ids r) (local_entered ids (ids ! r)) (all_entered ids) (barrier_inv ids)"
  unfolding tree_inv_def
  by (intro allI impI, elim conjE) (simp add: proc_local comm_sizes(6) comm_sizes(5) [of ids r, symmetric])

lemma parent_code_wp:
  assumes "r < length ids" "int (length ids) \<le> 2 ^ 30" "int r \<in> E"
  shows "wp (barrier_inv ids) (the (MPIR_Barrier_intra_flat (parent_comm (length ids) r))) (\<lambda>_. all_entered ids) () E"
proof -
  have "wp (barrier_inv ids) (the (MPIR_Barrier_intra_flat (parent_comm (length ids) r)) @ [])
    (\<lambda>_. all_entered ids) () E"
    by (rule flat_barrier_wp [OF comm_ok_parent [OF assms(1,2)] flat_inv_parent entered_mono(1)])
       (use assms in \<open>auto simp: parent_comm_def all_entered_def barrier_procs_def\<close>)
  then show ?thesis by simp
qed

lemma release_phase:
  assumes r: "r < length ids" "int (length ids) \<le> 2 ^ 30"
    and lead: "first_of ids r \<Longrightarrow> all_entered ids E" and shared: "\<not> first_of ids r \<Longrightarrow> node_local ids r \<noteq> None"
  shows "wp (barrier_inv ids) (the (on_subcomm (node_local ids r) ReleaseAllFromBarrier)) (\<lambda>_. all_entered ids) () E"
proof (cases "node_local ids r")
  case None
  then show ?thesis using lead shared by (auto simp: on_subcomm_def)
next
  case (Some l)
  then have l: "l = local_comm ids r" by (simp add: node_local_def split: if_splits)
  have "wp (barrier_inv ids) (the (ReleaseAllFromBarrier l) @ []) (\<lambda>_. all_entered ids) () E"
    unfolding l
  proof (rule release_wp [OF comm_ok_local [OF r] tree_inv_local entered_mono(4)])
    assume "c_rank (local_comm ids r) = 0"
    then show "all_entered ids E" using lead rank_zero_first [of ids r] r(1) by (simp add: local_comm_def local_rank_def)
  qed simp
  then show ?thesis by (simp add: on_subcomm_def Some)
qed

lemma leaders_cover:
  assumes "\<And>t. 0 \<le> t \<Longrightarrow> t < int (length (leaders ids (length ids))) \<Longrightarrow> node_entered ids t E"
  shows "all_entered ids E"
  unfolding all_entered_def barrier_procs_def
proof
  fix p assume p: "p \<in> {0..<int (length ids)}"
  then obtain q where q: "p = int q" "q < length ids" by (cases p rule: int_cases) auto
  obtain t where t: "t < length (leaders ids (length ids))" "ids ! (leaders ids (length ids) ! t) = ids ! q"
    using node_has_leader [OF q(2)] by auto
  then have "node_entered ids (int t) E" using assms [of "int t"] by simp
  then show "p \<in> E" using t q by (simp add: node_entered_def)
qed

lemma leaders_phase:
  assumes r: "r < length ids" "int (length ids) \<le> 2 ^ 30"
    and lead: "first_of ids r \<Longrightarrow> \<forall>q<length ids. ids ! q = ids ! r \<longrightarrow> int q \<in> E"
    and post: "\<And>E'. E \<subseteq> E' \<Longrightarrow> (first_of ids r \<Longrightarrow> all_entered ids E') \<Longrightarrow> wp (barrier_inv ids) rest Q () E'"
  shows "wp (barrier_inv ids) (the (on_subcomm (node_leader ids r) MPIR_Barrier_intra_flat) @ rest) Q () E"
proof (cases "first_of ids r")
  case False
  then show ?thesis using post [OF order.refl] by (simp add: on_subcomm_def node_leader_def)
next
  case True
  have rank: "c_rank (leader_comm ids r) = int (length (leaders ids r))"
    "c_size (leader_comm ids r) = int (length (leaders ids (length ids)))"
    by (simp_all add: leader_comm_def)
  have own: "leaders ids (length ids) ! length (leaders ids r) = r"
    using filter_upt_nth(2) [of "first_of ids" r "length ids"] True r(1) by (simp add: leaders_def)
  have "wp (barrier_inv ids) (the (MPIR_Barrier_intra_flat (leader_comm ids r)) @ rest) Q () E"
  proof (rule flat_barrier_wp [OF comm_ok_leader [OF r(1) True r(2)] flat_inv_leaders entered_mono(2)])
    show "node_entered ids (c_rank (leader_comm ids r)) E" using lead True own by (simp add: node_entered_def rank)
    show "wp (barrier_inv ids) rest Q () E'"
      if "E \<subseteq> E'" "\<And>t. 0 \<le> t \<Longrightarrow> t < c_size (leader_comm ids r) \<Longrightarrow> node_entered ids t E'" for E'
      using post [OF that(1)] leaders_cover [of ids E'] that(2) rank by simp
  qed
  then show ?thesis using True by (simp add: on_subcomm_def node_leader_def)
qed

lemma entry_phase:
  assumes r: "r < length ids" "int (length ids) \<le> 2 ^ 30" "int r \<in> E"
    and post: "\<And>E'. E \<subseteq> E' \<Longrightarrow>
      (first_of ids r \<Longrightarrow> \<forall>q<length ids. ids ! q = ids ! r \<longrightarrow> int q \<in> E') \<Longrightarrow> wp (barrier_inv ids) rest Q () E'"
  shows "wp (barrier_inv ids) (the (on_subcomm (node_local ids r) DeclareBarrierEntryToRank0) @ rest) Q () E"
proof (cases "length (locals ids (ids ! r) (length ids)) > 1")
  case False
  have "int q \<in> E" if "q < length ids" "ids ! q = ids ! r" for q
  proof -
    have "q \<in> set (locals ids (ids ! r) (length ids))" "r \<in> set (locals ids (ids ! r) (length ids))"
      using that r(1) by (simp_all add: locals_def)
    then have "q = r" using False by (cases "locals ids (ids ! r) (length ids)") auto
    then show ?thesis using r(3) by simp
  qed
  then show ?thesis using post [OF order.refl] False by (simp add: on_subcomm_def node_local_def)
next
  case True
  have rank: "c_rank (local_comm ids r) = local_rank ids (int r)"
    "c_size (local_comm ids r) = int (length (locals ids (ids ! r) (length ids)))"
    by (simp_all add: local_comm_def local_rank_def)
  have own: "locals ids (ids ! r) (length ids) ! length (locals ids (ids ! r) r) = r"
    using filter_upt_nth(2) [of "\<lambda>i. ids ! i = ids ! r" r "length ids"] r(1) by (simp add: locals_def)
  have "wp (barrier_inv ids) (the (DeclareBarrierEntryToRank0 (local_comm ids r)) @ rest) Q () E"
  proof (rule entry_wp [OF comm_ok_local [OF r(1,2)] tree_inv_local entered_mono(3)])
    show "local_entered ids (ids ! r) (c_rank (local_comm ids r)) E"
      using own r(3) by (simp add: local_entered_def rank local_rank_def)
    show "wp (barrier_inv ids) rest Q () E'"
      if E': "E \<subseteq> E'" and all: "c_rank (local_comm ids r) = 0 \<Longrightarrow>
        \<forall>t. 0 \<le> t \<and> t < c_size (local_comm ids r) \<longrightarrow> local_entered ids (ids ! r) t E'" for E'
    proof (rule post [OF E'])
      assume "first_of ids r"
      then have zero: "c_rank (local_comm ids r) = 0" using first_rank_zero r(1) by (simp add: rank)
      show "\<forall>q<length ids. ids ! q = ids ! r \<longrightarrow> int q \<in> E'"
      proof (intro allI impI)
        fix q assume "q < length ids" "ids ! q = ids ! r"
        then have "q \<in> set (locals ids (ids ! r) (length ids))" by (simp add: locals_def)
        then obtain t where t: "t < length (locals ids (ids ! r) (length ids))" "locals ids (ids ! r) (length ids) ! t = q"
          by (auto simp: in_set_conv_nth)
        show "int q \<in> E'"
          using all [OF zero, rule_format, of "int t"] t by (auto simp: rank local_entered_def)
      qed
    qed
  qed
  then show ?thesis using True by (simp add: on_subcomm_def node_local_def)
qed

lemma barrier_code_wp:
  assumes "int (length ids) \<le> 2 ^ 30" "p \<in> barrier_procs ids" "p \<in> E"
  shows "wp (barrier_inv ids) (barrier_code ids smp p) (\<lambda>_. all_entered ids) () E"
proof -
  have r: "nat p < length ids" "int (nat p) \<in> E"
    using assms(2,3) nat_less_iff [of p "length ids"] by (auto simp: barrier_procs_def)
  have shared: "node_local ids (nat p) \<noteq> None" if follower: "\<not> first_of ids (nat p)"
  proof -
    obtain i where i: "i < nat p" "ids ! i = ids ! nat p"
      using follower r(1) by (auto simp: first_of_def in_set_conv_nth)
    have "distinct (locals ids (ids ! nat p) (length ids))" "{i, nat p} \<subseteq> set (locals ids (ids ! nat p) (length ids))"
      using i r(1) by (auto simp: locals_def)
    then have "card {i, nat p} \<le> length (locals ids (ids ! nat p) (length ids))"
      by (metis card_mono distinct_card finite_set)
    then show ?thesis using i by (simp add: node_local_def)
  qed
  show ?thesis
  proof (cases "smp \<and> node_aware ids")
    case False
    then show ?thesis using parent_code_wp [OF r(1) assms(1) r(2)] assms(2) by (auto simp: barrier_code_def)
  next
    case True
    have "wp (barrier_inv ids) (the (on_subcomm (node_local ids (nat p)) DeclareBarrierEntryToRank0) @
        the (on_subcomm (node_leader ids (nat p)) MPIR_Barrier_intra_flat) @
        the (on_subcomm (node_local ids (nat p)) ReleaseAllFromBarrier)) (\<lambda>_. all_entered ids) () E"
      by (rule entry_phase [OF r(1) assms(1) r(2)], rule leaders_phase [OF r(1) assms(1)], assumption,
          rule release_phase [OF r(1) assms(1) _ shared])
    then show ?thesis using True assms(2) by (simp add: barrier_code_def)
  qed
qed

definition barrier_ok :: "int list \<times> bool \<Rightarrow> bool" where
  "barrier_ok i \<longleftrightarrow> fst i \<noteq> [] \<and> int (length (fst i)) \<le> 2 ^ 30"

interpretation barrier_net: contract barrier_ok "\<lambda>i. barrier_procs (fst i)" "\<lambda>i. barrier_code (fst i) (snd i)"
  "\<lambda>i. barrier_inv (fst i)" "\<lambda>i p d. all_entered (fst i)" "\<lambda>i p. ()"
proof unfold_locales
  fix i :: "int list \<times> bool" and c assume "barrier_ok i"
  show "monotone_in (barrier_inv (fst i) c)" by (rule barrier_inv_mono)
next
  fix i :: "int list \<times> bool" and p assume "barrier_ok i"
  show "monotone_in (\<lambda>d :: unit. all_entered (fst i))" by (rule entered_mono)
next
  fix i :: "int list \<times> bool" and p E assume "barrier_ok i" "p \<in> barrier_procs (fst i)" "p \<in> E"
  then show "wp (barrier_inv (fst i)) (barrier_code (fst i) (snd i) p) (\<lambda>d. all_entered (fst i)) () E"
    by (intro barrier_code_wp) (auto simp: barrier_ok_def)
qed

subsection \<open>The schedule of a barrier\<close>

lemma sorted_blocks:
  assumes "\<And>x. x \<in> set xs \<Longrightarrow> sorted_wrt (<) (map lvl (F x))"
    and "\<And>x a. x \<in> set xs \<Longrightarrow> a \<in> set (F x) \<Longrightarrow> 4 * g x \<le> lvl a \<and> lvl a < 4 * g x + (4 :: nat)"
    and "sorted_wrt (<) (map g xs)"
  shows "sorted_wrt (<) (map lvl (concat (map F xs)))"
  using assms
proof (induction xs)
  case (Cons x xs)
  have "lvl a < lvl b" if a: "a \<in> set (F x)" and b: "b \<in> set (F y)" and y: "y \<in> set xs" for a b y
  proof -
    have "g x < g y" using Cons.prems(3) y by simp
    moreover have "lvl a < 4 * g x + 4" "4 * g y \<le> lvl b" using Cons.prems(2) [of x a] Cons.prems(2) [of y b] a b y by auto
    ultimately show ?thesis by linarith
  qed
  moreover have "sorted_wrt (<) (map lvl (concat (map F xs)))" using Cons by simp
  ultimately show ?case using Cons.prems(1) [of x] by (auto simp: sorted_wrt_append)
qed simp

definition levels_in :: "(channel \<Rightarrow> nat) \<Rightarrow> nat \<Rightarrow> nat \<Rightarrow> ('m, 'd) action list \<Rightarrow> bool" where
  "levels_in stage lo hi as \<longleftrightarrow> sorted_wrt (<) (map (action_level stage) as) \<and>
     (\<forall>a\<in>set as. 4 * lo \<le> action_level stage a \<and> action_level stage a < 4 * hi)"

lemma levels_in_append:
  "levels_in stage lo mid as \<Longrightarrow> levels_in stage mid hi bs \<Longrightarrow> lo \<le> mid \<Longrightarrow> mid \<le> hi \<Longrightarrow> levels_in stage lo hi (as @ bs)"
  unfolding levels_in_def by (fastforce simp: sorted_wrt_append)

lemma levels_in_Nil [simp]: "levels_in stage lo hi []"
  by (simp add: levels_in_def)

lemma levels_in_wider: "levels_in stage lo hi as \<Longrightarrow> lo' \<le> lo \<Longrightarrow> hi \<le> hi' \<Longrightarrow> levels_in stage lo' hi' as"
  unfolding levels_in_def by fastforce

lemma levels_in_blocks:
  assumes "\<And>x. x \<in> set xs \<Longrightarrow> levels_in stage (g x) (Suc (g x)) (F x)"
    and "sorted_wrt (<) (map g xs)" "\<And>x. x \<in> set xs \<Longrightarrow> lo \<le> g x \<and> g x < hi"
  shows "levels_in stage lo hi (concat (map F xs))"
  unfolding levels_in_def
proof
  show "sorted_wrt (<) (map (action_level stage) (concat (map F xs)))"
  proof (rule sorted_blocks [where g = g])
    show "sorted_wrt (<) (map (action_level stage) (F x))" if "x \<in> set xs" for x
      using assms(1) [OF that] by (simp add: levels_in_def)
    show "4 * g x \<le> action_level stage a \<and> action_level stage a < 4 * g x + 4" if "x \<in> set xs" "a \<in> set (F x)" for x a
      using assms(1) [OF that(1)] that(2) by (auto simp: levels_in_def)
  qed (rule assms(2))
  show "\<forall>a\<in>set (concat (map F xs)). 4 * lo \<le> action_level stage a \<and> action_level stage a < 4 * hi"
    using assms(1,3) unfolding levels_in_def by fastforce
qed

lemma levels_in_block:
  "stage (Channel (c_kind c) (proc_at c (c_rank c)) (proc_at c t)) = k \<Longrightarrow> levels_in stage k (Suc k) (send_block c t)"
  "stage (Channel (c_kind c) (proc_at c t) (proc_at c (c_rank c))) = k \<Longrightarrow> levels_in stage k (Suc k) (recv_block c t)"
  "stage (Channel (c_kind c) (proc_at c (c_rank c)) (proc_at c t)) = k \<Longrightarrow>
   stage (Channel (c_kind c) (proc_at c u) (proc_at c (c_rank c))) = k \<Longrightarrow>
   levels_in stage k (Suc k) (exchange_block c t u)"
  by (auto simp: levels_in_def send_block_def recv_block_def exchange_block_def Let_def)

lemma sorted_shift: "sorted_wrt (<) xs \<Longrightarrow> sorted_wrt (<) (map (\<lambda>k. b + Suc k) xs)"
  by (simp add: sorted_wrt_map)

text \<open>The flat barrier takes the stages from \<open>b + 1\<close> on, one for each distance.\<close>

definition flat_stage :: "('a) coll_comm_scheme \<Rightarrow> nat \<Rightarrow> (channel \<Rightarrow> nat) \<Rightarrow> bool" where
  "flat_stage c b stage \<longleftrightarrow> (\<forall>s t. 0 \<le> s \<and> s < c_size c \<and> 0 \<le> t \<and> t < c_size c \<longrightarrow>
     stage (Channel (c_kind c) (proc_at c s) (proc_at c t)) = b + bits ((t - s) mod c_size c))"

lemma flat_levels:
  assumes ok: "comm_ok c" and stage: "flat_stage c b stage"
  shows "levels_in stage b (b + 32) (the (MPIR_Barrier_intra_flat c))"
proof -
  let ?r = "c_rank c" and ?n = "c_size c"
  have c: "0 \<le> ?r" "?r < ?n" "?n \<le> 2 ^ 30" using ok by (simp_all add: comm_ok_def)
  have depth: "depth ?n \<le> 30" using bits_le [of "?n - 1" 30] c by simp
  have "levels_in stage (b + Suc k) (Suc (b + Suc k)) (exchange_block c ((?r + 2 ^ k) mod ?n) ((?r - 2 ^ k) mod ?n))"
    if "k < depth ?n" for k
  proof -
    have lt: "2 ^ k < ?n" using that less_depth [of ?n k] c by simp
    have bits: "bits (2 ^ k) = Suc k" using bits_child [of 0 k] by simp
    have "((?r + 2 ^ k) mod ?n - ?r) mod ?n = 2 ^ k" "(?r - (?r - 2 ^ k) mod ?n) mod ?n = 2 ^ k"
      using lt by (simp_all add: mod_diff_left_eq mod_diff_right_eq)
    then show ?thesis using stage c bits unfolding flat_stage_def by (intro levels_in_block) simp_all
  qed
  then show ?thesis
    unfolding MPIR_Barrier_intra_flat_block [OF ok] option.sel
    by (intro levels_in_blocks [where g = "\<lambda>k. b + Suc k"] sorted_shift) (use depth in auto)
qed

text \<open>The tree: up to the leader in the stages below 32, back down in those from \<open>b\<close> on.\<close>

definition tree_stage :: "('a) coll_comm_scheme \<Rightarrow> nat \<Rightarrow> (channel \<Rightarrow> nat) \<Rightarrow> bool" where
  "tree_stage c b stage \<longleftrightarrow> (\<forall>s t. 0 \<le> s \<and> s < c_size c \<and> 0 \<le> t \<and> t < c_size c \<longrightarrow>
     stage (Channel (c_kind c) (proc_at c s) (proc_at c t)) = (if t < s then 31 - bits s else b + bits t))"

lemma tree_stageD:
  "tree_stage c b stage \<Longrightarrow> 0 \<le> s \<Longrightarrow> s < c_size c \<Longrightarrow> 0 \<le> t \<Longrightarrow> t < c_size c \<Longrightarrow>
   stage (Channel (c_kind c) (proc_at c s) (proc_at c t)) = (if t < s then 31 - bits s else b + bits t)"
  by (simp add: tree_stage_def)

lemma entry_levels:
  assumes ok: "comm_ok c" and stage: "tree_stage c b stage"
  shows "levels_in stage 0 32 (the (DeclareBarrierEntryToRank0 c))"
proof -
  let ?r = "c_rank c" and ?n = "c_size c"
  have c: "0 \<le> ?r" "?r < ?n" "?n \<le> 2 ^ 30" using ok by (simp_all add: comm_ok_def)
  have small: "bits t \<le> 30" if "0 \<le> t" "t < ?n" for t using bits_le [of t 30] that c by simp
  have recv: "levels_in stage 0 (31 - bits ?r) (concat (map (\<lambda>j. recv_block c (?r + 2 ^ j)) (rev (kids ?r ?n))))"
  proof (rule levels_in_blocks [where g = "\<lambda>j. 30 - j"])
    fix j assume "j \<in> set (rev (kids ?r ?n))"
    then have j: "j \<in> set (kids ?r ?n)" by simp
    note k = kids_tree [OF c(1) j]
    have j30: "Suc j \<le> 30" using small [of "?r + 2 ^ j"] k by simp
    have up: "?r < ?r + 2 ^ j" by simp
    show "levels_in stage (30 - j) (Suc (30 - j)) (recv_block c (?r + 2 ^ j))"
      using tree_stageD [OF stage less_imp_le [OF k(1)] k(2) c(1,2)] k(4) up by (intro levels_in_block) simp
    show "0 \<le> 30 - j \<and> 30 - j < 31 - bits ?r" using j j30 by (auto simp: kids_def)
  next
    have "sorted_wrt (>) (rev (kids ?r ?n))" using kids_sorted [of ?r ?n] by (simp add: sorted_wrt_rev)
    then have "sorted_wrt (\<lambda>x y. 30 - x < 30 - y) (rev (kids ?r ?n))"
    proof (rule sorted_wrt_mono_rel [rotated])
      fix x y assume xy: "x \<in> set (rev (kids ?r ?n))" "y \<in> set (rev (kids ?r ?n))" "x > y"
      then have "Suc x \<le> 30" using small [of "?r + 2 ^ x"] kids_tree [OF c(1), of x ?n] by simp
      then show "30 - x < 30 - y" using xy(3) by simp
    qed
    then show "sorted_wrt (<) (map (\<lambda>j. 30 - j) (rev (kids ?r ?n)))" by (simp add: sorted_wrt_map)
  qed
  have "levels_in stage (31 - bits ?r) 32 (if ?r = 0 then [] else send_block c (parent ?r))"
  proof (cases "?r = 0")
    case False
    then have "0 < ?r" using c by simp
    note p = parent_range [OF this]
    have "levels_in stage (31 - bits ?r) (Suc (31 - bits ?r)) (send_block c (parent ?r))"
      using stage c p unfolding tree_stage_def by (intro levels_in_block) simp
    moreover have "Suc (31 - bits ?r) \<le> 32" by simp
    ultimately show ?thesis using False levels_in_wider by fastforce
  qed simp
  then show ?thesis
    unfolding DeclareBarrierEntryToRank0_block [OF ok] option.sel
    by (intro levels_in_append [OF recv]) simp_all
qed

lemma release_levels:
  assumes ok: "comm_ok c" and stage: "tree_stage c b stage"
  shows "levels_in stage b (b + 32) (the (ReleaseAllFromBarrier c))"
proof -
  let ?r = "c_rank c" and ?n = "c_size c"
  have c: "0 \<le> ?r" "?r < ?n" "?n \<le> 2 ^ 30" using ok by (simp_all add: comm_ok_def)
  have small: "bits t \<le> 30" if "0 \<le> t" "t < ?n" for t using bits_le [of t 30] that c by simp
  have down: "levels_in stage (b + Suc (bits ?r)) (b + 32)
    (concat (map (\<lambda>j. send_block c (?r + 2 ^ j)) (kids ?r ?n)))"
  proof (rule levels_in_blocks [where g = "\<lambda>j. b + Suc j"])
    fix j assume j: "j \<in> set (kids ?r ?n)"
    note k = kids_tree [OF c(1) j]
    have up: "?r < ?r + 2 ^ j" by simp
    show "levels_in stage (b + Suc j) (Suc (b + Suc j)) (send_block c (?r + 2 ^ j))"
      using tree_stageD [OF stage c(1,2) less_imp_le [OF k(1)] k(2)] k(4) up by (intro levels_in_block) simp
    show "b + Suc (bits ?r) \<le> b + Suc j \<and> b + Suc j < b + 32"
      using j small [of "?r + 2 ^ j"] k by (auto simp: kids_def)
  qed (rule sorted_shift [OF kids_sorted])
  have "levels_in stage b (b + Suc (bits ?r)) (if ?r = 0 then [] else recv_block c (parent ?r))"
  proof (cases "?r = 0")
    case False
    then have "0 < ?r" using c by simp
    note p = parent_range [OF this]
    have "levels_in stage (b + bits ?r) (Suc (b + bits ?r)) (recv_block c (parent ?r))"
      using stage c p unfolding tree_stage_def by (intro levels_in_block) simp
    then show ?thesis using False levels_in_wider by fastforce
  qed simp
  then show ?thesis
    unfolding ReleaseAllFromBarrier_block [OF ok] option.sel
    by (intro levels_in_append [OF _ down]) (use small [OF c(1,2)] in simp_all)
qed

subsection \<open>The channels of a barrier\<close>

definition up_chans :: "comm_kind \<Rightarrow> int list \<Rightarrow> channel set" where
  "up_chans K vs = {Channel K (vs ! nat t) (vs ! nat (parent t)) | t. 0 < t \<and> t < int (length vs)}"

definition down_chans :: "comm_kind \<Rightarrow> int list \<Rightarrow> channel set" where
  "down_chans K vs = {Channel K (vs ! nat (parent t)) (vs ! nat t) | t. 0 < t \<and> t < int (length vs)}"

definition flat_chans :: "comm_kind \<Rightarrow> int list \<Rightarrow> channel set" where
  "flat_chans K vs = {Channel K (vs ! nat t) (vs ! nat ((t + 2 ^ k) mod int (length vs))) | t k.
     0 \<le> t \<and> t < int (length vs) \<and> k < depth (int (length vs))}"

definition from_proc :: "int \<Rightarrow> channel set \<Rightarrow> channel set" where
  "from_proc p A = {c \<in> A. chan_src c = p}"

definition to_proc :: "int \<Rightarrow> channel set \<Rightarrow> channel set" where
  "to_proc p A = {c \<in> A. chan_dst c = p}"

lemma nth_rank_eq:
  "distinct vs \<Longrightarrow> 0 \<le> s \<Longrightarrow> s < int (length vs) \<Longrightarrow> 0 \<le> t \<Longrightarrow> t < int (length vs) \<Longrightarrow>
   vs ! nat s = vs ! nat t \<longleftrightarrow> s = t"
  by (subst nth_eq_iff_index_eq) (auto simp: nat_less_iff eq_nat_nat_iff)

lemma entry_chans:
  assumes ok: "comm_ok c" and d: "distinct (vcr c)"
  shows "sends (the (DeclareBarrierEntryToRank0 c)) = from_proc (proc_at c (c_rank c)) (up_chans (c_kind c) (vcr c))"
    "receives (the (DeclareBarrierEntryToRank0 c)) = to_proc (proc_at c (c_rank c)) (up_chans (c_kind c) (vcr c))"
    "waits_send (the (DeclareBarrierEntryToRank0 c)) = sends (the (DeclareBarrierEntryToRank0 c))"
    "posts (the (DeclareBarrierEntryToRank0 c)) = receives (the (DeclareBarrierEntryToRank0 c))"
proof -
  let ?r = "c_rank c" and ?n = "c_size c"
  have c: "0 \<le> ?r" "?r < ?n" "?n = int (length (vcr c))" using ok by (simp_all add: comm_ok_def)
  have s: "sends (the (DeclareBarrierEntryToRank0 c)) =
      (if ?r = 0 then {} else {Channel (c_kind c) (proc_at c ?r) (proc_at c (parent ?r))})"
    and r: "receives (the (DeclareBarrierEntryToRank0 c)) =
      (\<Union>j\<in>set (kids ?r ?n). {Channel (c_kind c) (proc_at c (?r + 2 ^ j)) (proc_at c ?r)})"
    and w: "waits_send (the (DeclareBarrierEntryToRank0 c)) =
      (if ?r = 0 then {} else {Channel (c_kind c) (proc_at c ?r) (proc_at c (parent ?r))})"
    and p: "posts (the (DeclareBarrierEntryToRank0 c)) =
      (\<Union>j\<in>set (kids ?r ?n). {Channel (c_kind c) (proc_at c (?r + 2 ^ j)) (proc_at c ?r)})"
    unfolding DeclareBarrierEntryToRank0_block [OF ok] option.sel by (auto simp: uses_blocks)
  show "waits_send (the (DeclareBarrierEntryToRank0 c)) = sends (the (DeclareBarrierEntryToRank0 c))"
    "posts (the (DeclareBarrierEntryToRank0 c)) = receives (the (DeclareBarrierEntryToRank0 c))"
    unfolding s r w p by simp_all
  show "sends (the (DeclareBarrierEntryToRank0 c)) = from_proc (proc_at c ?r) (up_chans (c_kind c) (vcr c))"
    unfolding s
  proof (intro set_eqI iffI)
    fix ch assume "ch \<in> (if ?r = 0 then {} else {Channel (c_kind c) (proc_at c ?r) (proc_at c (parent ?r))})"
    then have "?r \<noteq> 0" "ch = Channel (c_kind c) (proc_at c ?r) (proc_at c (parent ?r))" by (auto split: if_splits)
    then show "ch \<in> from_proc (proc_at c ?r) (up_chans (c_kind c) (vcr c))"
      using c unfolding from_proc_def up_chans_def by (auto intro!: exI [of _ ?r])
  next
    fix ch assume "ch \<in> from_proc (proc_at c ?r) (up_chans (c_kind c) (vcr c))"
    then obtain t where t: "0 < t" "t < ?n" "ch = Channel (c_kind c) (proc_at c t) (proc_at c (parent t))"
      "proc_at c t = proc_at c ?r" using c(3) by (auto simp: from_proc_def up_chans_def)
    then have "t = ?r" using nth_rank_eq [OF d, of t ?r] c by simp
    then show "ch \<in> (if ?r = 0 then {} else {Channel (c_kind c) (proc_at c ?r) (proc_at c (parent ?r))})"
      using t by simp
  qed
  show "receives (the (DeclareBarrierEntryToRank0 c)) = to_proc (proc_at c ?r) (up_chans (c_kind c) (vcr c))"
    unfolding r
  proof (intro set_eqI iffI)
    fix ch assume "ch \<in> (\<Union>j\<in>set (kids ?r ?n). {Channel (c_kind c) (proc_at c (?r + 2 ^ j)) (proc_at c ?r)})"
    then obtain j where j: "j \<in> set (kids ?r ?n)" "ch = Channel (c_kind c) (proc_at c (?r + 2 ^ j)) (proc_at c ?r)"
      by auto
    then show "ch \<in> to_proc (proc_at c ?r) (up_chans (c_kind c) (vcr c))"
      using kids_tree [OF c(1) j(1)] c(3) unfolding to_proc_def up_chans_def
      by (auto intro!: exI [of _ "?r + 2 ^ j"])
  next
    fix ch assume "ch \<in> to_proc (proc_at c ?r) (up_chans (c_kind c) (vcr c))"
    then obtain t where t: "0 < t" "t < ?n" "ch = Channel (c_kind c) (proc_at c t) (proc_at c (parent t))"
      "proc_at c (parent t) = proc_at c ?r" using c(3) by (auto simp: to_proc_def up_chans_def)
    then have "parent t = ?r" using nth_rank_eq [OF d, of "parent t" ?r] parent_range [OF t(1)] c by simp
    then show "ch \<in> (\<Union>j\<in>set (kids ?r ?n). {Channel (c_kind c) (proc_at c (?r + 2 ^ j)) (proc_at c ?r)})"
      using tree_kids [OF t(1,2)] t(3) by (auto intro!: bexI [of _ "bits t - 1"])
  qed
qed

lemma release_chans:
  assumes ok: "comm_ok c" and d: "distinct (vcr c)"
  shows "sends (the (ReleaseAllFromBarrier c)) = from_proc (proc_at c (c_rank c)) (down_chans (c_kind c) (vcr c))"
    "receives (the (ReleaseAllFromBarrier c)) = to_proc (proc_at c (c_rank c)) (down_chans (c_kind c) (vcr c))"
    "waits_send (the (ReleaseAllFromBarrier c)) = sends (the (ReleaseAllFromBarrier c))"
    "posts (the (ReleaseAllFromBarrier c)) = receives (the (ReleaseAllFromBarrier c))"
proof -
  let ?r = "c_rank c" and ?n = "c_size c"
  have c: "0 \<le> ?r" "?r < ?n" "?n = int (length (vcr c))" using ok by (simp_all add: comm_ok_def)
  have r: "receives (the (ReleaseAllFromBarrier c)) =
      (if ?r = 0 then {} else {Channel (c_kind c) (proc_at c (parent ?r)) (proc_at c ?r)})"
    and s: "sends (the (ReleaseAllFromBarrier c)) =
      (\<Union>j\<in>set (kids ?r ?n). {Channel (c_kind c) (proc_at c ?r) (proc_at c (?r + 2 ^ j))})"
    and p: "posts (the (ReleaseAllFromBarrier c)) =
      (if ?r = 0 then {} else {Channel (c_kind c) (proc_at c (parent ?r)) (proc_at c ?r)})"
    and w: "waits_send (the (ReleaseAllFromBarrier c)) =
      (\<Union>j\<in>set (kids ?r ?n). {Channel (c_kind c) (proc_at c ?r) (proc_at c (?r + 2 ^ j))})"
    unfolding ReleaseAllFromBarrier_block [OF ok] option.sel by (auto simp: uses_blocks)
  show "waits_send (the (ReleaseAllFromBarrier c)) = sends (the (ReleaseAllFromBarrier c))"
    "posts (the (ReleaseAllFromBarrier c)) = receives (the (ReleaseAllFromBarrier c))"
    unfolding s r w p by simp_all
  show "receives (the (ReleaseAllFromBarrier c)) = to_proc (proc_at c ?r) (down_chans (c_kind c) (vcr c))"
    unfolding r
  proof (intro set_eqI iffI)
    fix ch assume "ch \<in> (if ?r = 0 then {} else {Channel (c_kind c) (proc_at c (parent ?r)) (proc_at c ?r)})"
    then have "?r \<noteq> 0" "ch = Channel (c_kind c) (proc_at c (parent ?r)) (proc_at c ?r)" by (auto split: if_splits)
    then show "ch \<in> to_proc (proc_at c ?r) (down_chans (c_kind c) (vcr c))"
      using c unfolding to_proc_def down_chans_def by (auto intro!: exI [of _ ?r])
  next
    fix ch assume "ch \<in> to_proc (proc_at c ?r) (down_chans (c_kind c) (vcr c))"
    then obtain t where t: "0 < t" "t < ?n" "ch = Channel (c_kind c) (proc_at c (parent t)) (proc_at c t)"
      "proc_at c t = proc_at c ?r" using c(3) by (auto simp: to_proc_def down_chans_def)
    then have "t = ?r" using nth_rank_eq [OF d, of t ?r] c by simp
    then show "ch \<in> (if ?r = 0 then {} else {Channel (c_kind c) (proc_at c (parent ?r)) (proc_at c ?r)})"
      using t by simp
  qed
  show "sends (the (ReleaseAllFromBarrier c)) = from_proc (proc_at c ?r) (down_chans (c_kind c) (vcr c))"
    unfolding s
  proof (intro set_eqI iffI)
    fix ch assume "ch \<in> (\<Union>j\<in>set (kids ?r ?n). {Channel (c_kind c) (proc_at c ?r) (proc_at c (?r + 2 ^ j))})"
    then obtain j where j: "j \<in> set (kids ?r ?n)" "ch = Channel (c_kind c) (proc_at c ?r) (proc_at c (?r + 2 ^ j))"
      by auto
    then show "ch \<in> from_proc (proc_at c ?r) (down_chans (c_kind c) (vcr c))"
      using kids_tree [OF c(1) j(1)] c(3) unfolding from_proc_def down_chans_def
      by (auto intro!: exI [of _ "?r + 2 ^ j"])
  next
    fix ch assume "ch \<in> from_proc (proc_at c ?r) (down_chans (c_kind c) (vcr c))"
    then obtain t where t: "0 < t" "t < ?n" "ch = Channel (c_kind c) (proc_at c (parent t)) (proc_at c t)"
      "proc_at c (parent t) = proc_at c ?r" using c(3) by (auto simp: from_proc_def down_chans_def)
    then have "parent t = ?r" using nth_rank_eq [OF d, of "parent t" ?r] parent_range [OF t(1)] c by simp
    then show "ch \<in> (\<Union>j\<in>set (kids ?r ?n). {Channel (c_kind c) (proc_at c ?r) (proc_at c (?r + 2 ^ j))})"
      using tree_kids [OF t(1,2)] t(3) by (auto intro!: bexI [of _ "bits t - 1"])
  qed
qed

lemma flat_barrier_chans:
  assumes ok: "comm_ok c" and d: "distinct (vcr c)"
  shows "sends (the (MPIR_Barrier_intra_flat c)) = from_proc (proc_at c (c_rank c)) (flat_chans (c_kind c) (vcr c))"
    "receives (the (MPIR_Barrier_intra_flat c)) = to_proc (proc_at c (c_rank c)) (flat_chans (c_kind c) (vcr c))"
    "waits_send (the (MPIR_Barrier_intra_flat c)) = sends (the (MPIR_Barrier_intra_flat c))"
    "posts (the (MPIR_Barrier_intra_flat c)) = receives (the (MPIR_Barrier_intra_flat c))"
proof -
  let ?r = "c_rank c" and ?n = "c_size c"
  have c: "0 \<le> ?r" "?r < ?n" "?n = int (length (vcr c))" using ok by (simp_all add: comm_ok_def)
  have s: "sends (the (MPIR_Barrier_intra_flat c)) =
      (\<Union>k\<in>{0..<depth ?n}. {Channel (c_kind c) (proc_at c ?r) (proc_at c ((?r + 2 ^ k) mod ?n))})"
    and w: "waits_send (the (MPIR_Barrier_intra_flat c)) =
      (\<Union>k\<in>{0..<depth ?n}. {Channel (c_kind c) (proc_at c ?r) (proc_at c ((?r + 2 ^ k) mod ?n))})"
    and r: "receives (the (MPIR_Barrier_intra_flat c)) =
      (\<Union>k\<in>{0..<depth ?n}. {Channel (c_kind c) (proc_at c ((?r - 2 ^ k) mod ?n)) (proc_at c ?r)})"
    and p: "posts (the (MPIR_Barrier_intra_flat c)) =
      (\<Union>k\<in>{0..<depth ?n}. {Channel (c_kind c) (proc_at c ((?r - 2 ^ k) mod ?n)) (proc_at c ?r)})"
    unfolding MPIR_Barrier_intra_flat_block [OF ok] option.sel by (simp_all add: uses_blocks)
  show "waits_send (the (MPIR_Barrier_intra_flat c)) = sends (the (MPIR_Barrier_intra_flat c))"
    "posts (the (MPIR_Barrier_intra_flat c)) = receives (the (MPIR_Barrier_intra_flat c))"
    unfolding s r w p by simp_all
  show "sends (the (MPIR_Barrier_intra_flat c)) = from_proc (proc_at c ?r) (flat_chans (c_kind c) (vcr c))"
    unfolding s
  proof (intro set_eqI iffI)
    fix ch assume "ch \<in> (\<Union>k\<in>{0..<depth ?n}. {Channel (c_kind c) (proc_at c ?r) (proc_at c ((?r + 2 ^ k) mod ?n))})"
    then obtain k where "k < depth ?n" "ch = Channel (c_kind c) (proc_at c ?r) (proc_at c ((?r + 2 ^ k) mod ?n))"
      by auto
    then show "ch \<in> from_proc (proc_at c ?r) (flat_chans (c_kind c) (vcr c))"
      using c unfolding from_proc_def flat_chans_def by (auto intro!: exI [of _ ?r] exI [of _ k])
  next
    fix ch assume "ch \<in> from_proc (proc_at c ?r) (flat_chans (c_kind c) (vcr c))"
    then obtain t k where t: "0 \<le> t" "t < ?n" "k < depth ?n"
      "ch = Channel (c_kind c) (proc_at c t) (proc_at c ((t + 2 ^ k) mod ?n))"
      "proc_at c t = proc_at c ?r" using c(3) by (auto simp: from_proc_def flat_chans_def)
    then have "t = ?r" using nth_rank_eq [OF d, of t ?r] c by simp
    then show "ch \<in> (\<Union>k\<in>{0..<depth ?n}. {Channel (c_kind c) (proc_at c ?r) (proc_at c ((?r + 2 ^ k) mod ?n))})"
      using t by auto
  qed
  show "receives (the (MPIR_Barrier_intra_flat c)) = to_proc (proc_at c ?r) (flat_chans (c_kind c) (vcr c))"
    unfolding r
  proof (intro set_eqI iffI)
    fix ch assume "ch \<in> (\<Union>k\<in>{0..<depth ?n}. {Channel (c_kind c) (proc_at c ((?r - 2 ^ k) mod ?n)) (proc_at c ?r)})"
    then obtain k where k: "k < depth ?n" "ch = Channel (c_kind c) (proc_at c ((?r - 2 ^ k) mod ?n)) (proc_at c ?r)"
      by auto
    have "0 < ?n" using c by linarith
    then have "0 \<le> (?r - 2 ^ k) mod ?n" "(?r - 2 ^ k) mod ?n < ?n" by simp_all
    moreover have "((?r - 2 ^ k) mod ?n + 2 ^ k) mod ?n = ?r" using c by (simp add: mod_add_left_eq)
    ultimately show "ch \<in> to_proc (proc_at c ?r) (flat_chans (c_kind c) (vcr c))"
      using k c unfolding to_proc_def flat_chans_def
      by (auto intro!: exI [of _ "(?r - 2 ^ k) mod ?n"] exI [of _ k])
  next
    fix ch assume "ch \<in> to_proc (proc_at c ?r) (flat_chans (c_kind c) (vcr c))"
    then obtain t k where t: "0 \<le> t" "t < ?n" "k < depth ?n"
      "ch = Channel (c_kind c) (proc_at c t) (proc_at c ((t + 2 ^ k) mod ?n))"
      "proc_at c ((t + 2 ^ k) mod ?n) = proc_at c ?r" using c(3) by (auto simp: to_proc_def flat_chans_def)
    have "0 < ?n" using c by linarith
    then have "0 \<le> (t + 2 ^ k) mod ?n" "(t + 2 ^ k) mod ?n < ?n" by simp_all
    then have "(t + 2 ^ k) mod ?n = ?r" using nth_rank_eq [OF d, of "(t + 2 ^ k) mod ?n" ?r] c t(5) by simp
    then have "(?r - 2 ^ k) mod ?n = t" using t(1,2) by (metis add_diff_cancel_right' mod_diff_left_eq mod_pos_pos_trivial)
    then show "ch \<in> (\<Union>k\<in>{0..<depth ?n}. {Channel (c_kind c) (proc_at c ((?r - 2 ^ k) mod ?n)) (proc_at c ?r)})"
      using t by auto
  qed
qed

definition barrier_chans :: "int list \<Rightarrow> bool \<Rightarrow> channel set" where
  "barrier_chans ids smp =
     (if smp \<and> node_aware ids
      then (\<Union>x\<in>set ids. up_chans INTRACOMM_NODE (map int (locals ids x (length ids))) \<union>
          down_chans INTRACOMM_NODE (map int (locals ids x (length ids)))) \<union>
        flat_chans INTRACOMM_NODE_ROOT (map int (leaders ids (length ids)))
      else flat_chans INTRACOMM_PARENT (map int [0..<length ids]))"

lemma proc_at_self:
  assumes "r < length ids"
  shows "proc_at (parent_comm (length ids) r) (c_rank (parent_comm (length ids) r)) = int r"
    "proc_at (local_comm ids r) (c_rank (local_comm ids r)) = int r"
    "first_of ids r \<Longrightarrow> proc_at (leader_comm ids r) (c_rank (leader_comm ids r)) = int r"
proof -
  show "proc_at (parent_comm (length ids) r) (c_rank (parent_comm (length ids) r)) = int r"
    using assms by (simp add: parent_comm_def)
  show "proc_at (local_comm ids r) (c_rank (local_comm ids r)) = int r"
    using filter_upt_nth [of "\<lambda>i. ids ! i = ids ! r" r "length ids"] assms by (simp add: local_comm_def locals_def)
  show "proc_at (leader_comm ids r) (c_rank (leader_comm ids r)) = int r" if "first_of ids r"
    using filter_upt_nth [of "first_of ids" r "length ids"] assms that by (simp add: leader_comm_def leaders_def)
qed

lemma ends_in:
  "c \<in> up_chans K vs \<Longrightarrow> chan_src c \<in> set vs \<and> chan_dst c \<in> set vs \<and> 1 < length vs"
  "c \<in> down_chans K vs \<Longrightarrow> chan_src c \<in> set vs \<and> chan_dst c \<in> set vs \<and> 1 < length vs"
  "c \<in> flat_chans K vs \<Longrightarrow> chan_src c \<in> set vs \<and> chan_dst c \<in> set vs"
proof -
  have t: "vs ! nat t \<in> set vs" "vs ! nat (parent t) \<in> set vs" "1 < length vs"
    if "0 < t" "t < int (length vs)" for t
  proof -
    have "nat t < length vs" "nat (parent t) < length vs"
      using that parent_range [OF that(1)] by (simp_all add: nat_less_iff)
    then show "vs ! nat t \<in> set vs" "vs ! nat (parent t) \<in> set vs" by simp_all
    show "1 < length vs" using that by linarith
  qed
  then show "c \<in> up_chans K vs \<Longrightarrow> chan_src c \<in> set vs \<and> chan_dst c \<in> set vs \<and> 1 < length vs"
    "c \<in> down_chans K vs \<Longrightarrow> chan_src c \<in> set vs \<and> chan_dst c \<in> set vs \<and> 1 < length vs"
    by (auto simp: up_chans_def down_chans_def)
  have "vs ! nat ((s + 2 ^ k) mod int (length vs)) \<in> set vs" "vs ! nat s \<in> set vs"
    if "0 \<le> s" "s < int (length vs)" for s k
  proof -
    have "0 < int (length vs)" using that by linarith
    then have "(s + 2 ^ k) mod int (length vs) < int (length vs)" "0 \<le> (s + 2 ^ k) mod int (length vs)" by simp_all
    then show "vs ! nat ((s + 2 ^ k) mod int (length vs)) \<in> set vs" "vs ! nat s \<in> set vs"
      using that by (simp_all add: nat_less_iff)
  qed
  then show "c \<in> flat_chans K vs \<Longrightarrow> chan_src c \<in> set vs \<and> chan_dst c \<in> set vs"
    by (auto simp: flat_chans_def)
qed

lemma to_from_Un:
  "from_proc p (A \<union> B) = from_proc p A \<union> from_proc p B" "to_proc p (A \<union> B) = to_proc p A \<union> to_proc p B"
  by (auto simp: from_proc_def to_proc_def)

text \<open>Only the channels of its own node and, for a leader, those of the leaders concern a process.\<close>

lemma own_chans:
  assumes r: "r < length ids" and A: "A = up_chans INTRACOMM_NODE \<or> A = down_chans INTRACOMM_NODE"
  shows "from_proc (int r) (\<Union>x\<in>set ids. A (map int (locals ids x (length ids)))) =
      from_proc (int r) (A (map int (locals ids (ids ! r) (length ids))))"
    "to_proc (int r) (\<Union>x\<in>set ids. A (map int (locals ids x (length ids)))) =
      to_proc (int r) (A (map int (locals ids (ids ! r) (length ids))))"
proof -
  have x: "x = ids ! r" if "c \<in> A (map int (locals ids x (length ids)))" "chan_src c = int r \<or> chan_dst c = int r" for c x
  proof -
    have "int r \<in> set (map int (locals ids x (length ids)))" using ends_in(1,2) that A by metis
    then show ?thesis by (auto simp: locals_def)
  qed
  show "from_proc (int r) (\<Union>x\<in>set ids. A (map int (locals ids x (length ids)))) =
      from_proc (int r) (A (map int (locals ids (ids ! r) (length ids))))"
    using x r by (fastforce simp: from_proc_def)
  show "to_proc (int r) (\<Union>x\<in>set ids. A (map int (locals ids x (length ids)))) =
      to_proc (int r) (A (map int (locals ids (ids ! r) (length ids))))"
    using x r by (fastforce simp: to_proc_def)
qed

lemma Un_split: "(\<Union>x\<in>X. A x \<union> B x) = (\<Union>x\<in>X. A x) \<union> (\<Union>x\<in>X. B x)"
  by auto

lemma local_part:
  assumes r: "r < length ids" "int (length ids) \<le> 2 ^ 30"
  shows "sends (the (on_subcomm (node_local ids r) DeclareBarrierEntryToRank0)) =
      from_proc (int r) (up_chans INTRACOMM_NODE (map int (locals ids (ids ! r) (length ids))))"
    "receives (the (on_subcomm (node_local ids r) DeclareBarrierEntryToRank0)) =
      to_proc (int r) (up_chans INTRACOMM_NODE (map int (locals ids (ids ! r) (length ids))))"
    "sends (the (on_subcomm (node_local ids r) ReleaseAllFromBarrier)) =
      from_proc (int r) (down_chans INTRACOMM_NODE (map int (locals ids (ids ! r) (length ids))))"
    "receives (the (on_subcomm (node_local ids r) ReleaseAllFromBarrier)) =
      to_proc (int r) (down_chans INTRACOMM_NODE (map int (locals ids (ids ! r) (length ids))))"
    "waits_send (the (on_subcomm (node_local ids r) DeclareBarrierEntryToRank0)) =
      sends (the (on_subcomm (node_local ids r) DeclareBarrierEntryToRank0))"
    "posts (the (on_subcomm (node_local ids r) DeclareBarrierEntryToRank0)) =
      receives (the (on_subcomm (node_local ids r) DeclareBarrierEntryToRank0))"
    "waits_send (the (on_subcomm (node_local ids r) ReleaseAllFromBarrier)) =
      sends (the (on_subcomm (node_local ids r) ReleaseAllFromBarrier))"
    "posts (the (on_subcomm (node_local ids r) ReleaseAllFromBarrier)) =
      receives (the (on_subcomm (node_local ids r) ReleaseAllFromBarrier))"
proof -
  let ?vs = "map int (locals ids (ids ! r) (length ids))"
  have d: "distinct (vcr (local_comm ids r))" and v: "vcr (local_comm ids r) = ?vs"
    by (simp_all add: local_comm_def distinct_map locals_def)
  have self: "?vs ! nat (c_rank (local_comm ids r)) = int r" using proc_at_self(2) [OF r(1)] unfolding v .
  note e = entry_chans [OF comm_ok_local [OF r] d, unfolded v self comm_sizes]
  note l = release_chans [OF comm_ok_local [OF r] d, unfolded v self comm_sizes]
  have none: "up_chans INTRACOMM_NODE ?vs = {} \<and> down_chans INTRACOMM_NODE ?vs = {}"
    if "\<not> 1 < length (locals ids (ids ! r) (length ids))"
    using that ends_in(1,2) [of _ INTRACOMM_NODE ?vs] by fastforce
  show "sends (the (on_subcomm (node_local ids r) DeclareBarrierEntryToRank0)) = from_proc (int r) (up_chans INTRACOMM_NODE ?vs)"
    "receives (the (on_subcomm (node_local ids r) DeclareBarrierEntryToRank0)) = to_proc (int r) (up_chans INTRACOMM_NODE ?vs)"
    "sends (the (on_subcomm (node_local ids r) ReleaseAllFromBarrier)) = from_proc (int r) (down_chans INTRACOMM_NODE ?vs)"
    "receives (the (on_subcomm (node_local ids r) ReleaseAllFromBarrier)) = to_proc (int r) (down_chans INTRACOMM_NODE ?vs)"
    "waits_send (the (on_subcomm (node_local ids r) DeclareBarrierEntryToRank0)) =
      sends (the (on_subcomm (node_local ids r) DeclareBarrierEntryToRank0))"
    "posts (the (on_subcomm (node_local ids r) DeclareBarrierEntryToRank0)) =
      receives (the (on_subcomm (node_local ids r) DeclareBarrierEntryToRank0))"
    "waits_send (the (on_subcomm (node_local ids r) ReleaseAllFromBarrier)) =
      sends (the (on_subcomm (node_local ids r) ReleaseAllFromBarrier))"
    "posts (the (on_subcomm (node_local ids r) ReleaseAllFromBarrier)) =
      receives (the (on_subcomm (node_local ids r) ReleaseAllFromBarrier))"
    using e l none by (cases "1 < length (locals ids (ids ! r) (length ids))";
      simp add: node_local_def on_subcomm_def from_proc_def to_proc_def)+
qed

lemma leader_part:
  assumes r: "r < length ids" "int (length ids) \<le> 2 ^ 30"
  shows "sends (the (on_subcomm (node_leader ids r) MPIR_Barrier_intra_flat)) =
      from_proc (int r) (flat_chans INTRACOMM_NODE_ROOT (map int (leaders ids (length ids))))"
    "receives (the (on_subcomm (node_leader ids r) MPIR_Barrier_intra_flat)) =
      to_proc (int r) (flat_chans INTRACOMM_NODE_ROOT (map int (leaders ids (length ids))))"
    "waits_send (the (on_subcomm (node_leader ids r) MPIR_Barrier_intra_flat)) =
      sends (the (on_subcomm (node_leader ids r) MPIR_Barrier_intra_flat))"
    "posts (the (on_subcomm (node_leader ids r) MPIR_Barrier_intra_flat)) =
      receives (the (on_subcomm (node_leader ids r) MPIR_Barrier_intra_flat))"
proof -
  let ?vs = "map int (leaders ids (length ids))"
  have d: "distinct (vcr (leader_comm ids r))" and v: "vcr (leader_comm ids r) = ?vs"
    by (simp_all add: leader_comm_def distinct_map leaders_def)
  have self: "?vs ! nat (c_rank (leader_comm ids r)) = int r" if "first_of ids r"
    using proc_at_self(3) [OF r(1) that] unfolding v .
  note f = flat_barrier_chans [OF comm_ok_leader [OF r(1) _ r(2)] d, unfolded v comm_sizes]
  have none: "from_proc (int r) (flat_chans INTRACOMM_NODE_ROOT ?vs) = {} \<and> to_proc (int r) (flat_chans INTRACOMM_NODE_ROOT ?vs) = {}"
    if "\<not> first_of ids r"
  proof -
    have "int r \<notin> set ?vs" using that by (auto simp: leaders_def)
    then show ?thesis using ends_in(3) [of _ INTRACOMM_NODE_ROOT ?vs] by (fastforce simp: from_proc_def to_proc_def)
  qed
  show "sends (the (on_subcomm (node_leader ids r) MPIR_Barrier_intra_flat)) =
      from_proc (int r) (flat_chans INTRACOMM_NODE_ROOT ?vs)"
    "receives (the (on_subcomm (node_leader ids r) MPIR_Barrier_intra_flat)) =
      to_proc (int r) (flat_chans INTRACOMM_NODE_ROOT ?vs)"
    "waits_send (the (on_subcomm (node_leader ids r) MPIR_Barrier_intra_flat)) =
      sends (the (on_subcomm (node_leader ids r) MPIR_Barrier_intra_flat))"
    "posts (the (on_subcomm (node_leader ids r) MPIR_Barrier_intra_flat)) =
      receives (the (on_subcomm (node_leader ids r) MPIR_Barrier_intra_flat))"
    using f none self by (cases "first_of ids r"; simp add: node_leader_def on_subcomm_def)+
qed

lemma barrier_code_chans:
  assumes "p \<in> barrier_procs ids" "int (length ids) \<le> 2 ^ 30"
  shows "sends (barrier_code ids smp p) = from_proc p (barrier_chans ids smp)"
    "receives (barrier_code ids smp p) = to_proc p (barrier_chans ids smp)"
    "waits_send (barrier_code ids smp p) = sends (barrier_code ids smp p)"
    "posts (barrier_code ids smp p) = receives (barrier_code ids smp p)"
proof -
  obtain r where p: "p = int r" and r: "r < length ids"
    using assms(1) by (cases p rule: int_cases) (auto simp: barrier_procs_def)
  have "sends (barrier_code ids smp p) = from_proc p (barrier_chans ids smp) \<and>
    receives (barrier_code ids smp p) = to_proc p (barrier_chans ids smp) \<and>
    waits_send (barrier_code ids smp p) = sends (barrier_code ids smp p) \<and>
    posts (barrier_code ids smp p) = receives (barrier_code ids smp p)"
  proof (cases "smp \<and> node_aware ids")
    case True
    then have code: "barrier_code ids smp (int r) = the (on_subcomm (node_local ids r) DeclareBarrierEntryToRank0) @
        the (on_subcomm (node_leader ids r) MPIR_Barrier_intra_flat) @
        the (on_subcomm (node_local ids r) ReleaseAllFromBarrier)"
      using assms(1) unfolding p by (simp add: barrier_code_def)
    have chans: "barrier_chans ids smp =
        ((\<Union>x\<in>set ids. up_chans INTRACOMM_NODE (map int (locals ids x (length ids)))) \<union>
         (\<Union>x\<in>set ids. down_chans INTRACOMM_NODE (map int (locals ids x (length ids))))) \<union>
        flat_chans INTRACOMM_NODE_ROOT (map int (leaders ids (length ids)))"
      using True by (simp add: barrier_chans_def Un_split)
    show ?thesis
      unfolding p code chans uses_append local_part [OF r assms(2)] leader_part [OF r assms(2)] to_from_Un
        own_chans [OF r disjI1 [OF refl]] own_chans [OF r disjI2 [OF refl]]
      by blast
  next
    case False
    have d: "distinct (vcr (parent_comm (length ids) r))"
      and v: "vcr (parent_comm (length ids) r) = map int [0..<length ids]"
      by (simp_all add: parent_comm_def distinct_map)
    from False have "barrier_chans ids smp = flat_chans INTRACOMM_PARENT (map int [0..<length ids])"
      "barrier_code ids smp p = the (MPIR_Barrier_intra_flat (parent_comm (length ids) r))"
      using assms(1) by (auto simp: barrier_chans_def barrier_code_def p)
    then show ?thesis
      using flat_barrier_chans [OF comm_ok_parent [OF r assms(2)] d] proc_at_self(1) [OF r] p
      by (simp add: v comm_sizes)
  qed
  then show "sends (barrier_code ids smp p) = from_proc p (barrier_chans ids smp)"
    "receives (barrier_code ids smp p) = to_proc p (barrier_chans ids smp)"
    "waits_send (barrier_code ids smp p) = sends (barrier_code ids smp p)"
    "posts (barrier_code ids smp p) = receives (barrier_code ids smp p)" by simp_all
qed

end
