(* ===== verification/Barrier_Run.thy ===== *)
theory Barrier_Run
  imports Barrier_Net
begin

text \<open>
  The runs of a barrier on a communicator whose sub-communicators were made by
  \<open>MPIR_Comm_commit_node_level\<close>: the schedule (an interpretation of \<open>staged\<close>), and the two
  properties of the barrier, that nobody leaves before everybody has come and that it ends.
\<close>

subsection \<open>The schedule\<close>

text \<open>Entry in the stages below 32, the leaders in those from 50 and the release in those from 100 on.\<close>

fun barrier_stage :: "int list \<Rightarrow> channel \<Rightarrow> nat" where
  "barrier_stage ids (Channel INTRACOMM_PARENT s d) = bits ((d - s) mod int (length ids))"
| "barrier_stage ids (Channel INTRACOMM_NODE s d) =
     (if local_rank ids d < local_rank ids s then 31 - bits (local_rank ids s) else 100 + bits (local_rank ids d))"
| "barrier_stage ids (Channel INTRACOMM_NODE_ROOT s d) =
     50 + bits ((leader_rank ids d - leader_rank ids s) mod int (length (leaders ids (length ids))))"

lemma flat_stage_parent: "flat_stage (parent_comm (length ids) r) 0 (barrier_stage ids)"
  unfolding flat_stage_def by (intro allI impI, elim conjE) (simp add: comm_sizes proc_parent)

lemma flat_stage_leaders: "flat_stage (leader_comm ids r) 50 (barrier_stage ids)"
  unfolding flat_stage_def
  by (intro allI impI, elim conjE) (simp add: proc_leader comm_sizes(4) comm_sizes(3) [of ids r, symmetric])

lemma tree_stage_local: "tree_stage (local_comm ids r) 100 (barrier_stage ids)"
  unfolding tree_stage_def by (intro allI impI, elim conjE) (simp add: proc_local comm_sizes(6))

lemma barrier_code_sorted:
  assumes "p \<in> barrier_procs ids" "int (length ids) \<le> 2 ^ 30"
  shows "sorted_wrt (<) (map (action_level (barrier_stage ids)) (barrier_code ids smp p))"
proof -
  obtain r where p: "p = int r" and r: "r < length ids"
    using assms(1) by (cases p rule: int_cases) (auto simp: barrier_procs_def)
  show ?thesis
  proof (cases "smp \<and> node_aware ids")
    case True
    have "levels_in (barrier_stage ids) 0 32 (the (on_subcomm (node_local ids r) DeclareBarrierEntryToRank0))"
      using entry_levels [OF comm_ok_local [OF r assms(2)] tree_stage_local]
      by (simp add: node_local_def on_subcomm_def)
    moreover have "levels_in (barrier_stage ids) 32 100 (the (on_subcomm (node_leader ids r) MPIR_Barrier_intra_flat))"
      using levels_in_wider [OF flat_levels [OF comm_ok_leader [OF r _ assms(2)] flat_stage_leaders], of 32 100]
      by (simp add: node_leader_def on_subcomm_def)
    moreover have "levels_in (barrier_stage ids) 100 132 (the (on_subcomm (node_local ids r) ReleaseAllFromBarrier))"
      using release_levels [OF comm_ok_local [OF r assms(2)] tree_stage_local]
      by (simp add: node_local_def on_subcomm_def)
    ultimately have "levels_in (barrier_stage ids) 0 132 (the (on_subcomm (node_local ids r) DeclareBarrierEntryToRank0) @
        the (on_subcomm (node_leader ids r) MPIR_Barrier_intra_flat) @
        the (on_subcomm (node_local ids r) ReleaseAllFromBarrier))"
      by (intro levels_in_append [where mid = 32] levels_in_append [where mid = 100]) simp_all
    then show ?thesis using True assms(1) by (simp add: barrier_code_def p levels_in_def)
  next
    case False
    have "levels_in (barrier_stage ids) 0 (0 + 32) (the (MPIR_Barrier_intra_flat (parent_comm (length ids) r)))"
      by (rule flat_levels [OF comm_ok_parent [OF r assms(2)] flat_stage_parent])
    then show ?thesis using False assms(1) by (auto simp: barrier_code_def p levels_in_def)
  qed
qed

lemma barrier_chans_ends:
  assumes "c \<in> barrier_chans ids smp"
  shows "chan_src c \<in> barrier_procs ids \<and> chan_dst c \<in> barrier_procs ids"
proof -
  have sub: "set (map int (locals ids x (length ids))) \<subseteq> barrier_procs ids"
    "set (map int (leaders ids (length ids))) \<subseteq> barrier_procs ids"
    "set (map int [0..<length ids]) \<subseteq> barrier_procs ids" for x
    by (auto simp: locals_def leaders_def barrier_procs_def)
  have ends: "chan_src c \<in> barrier_procs ids \<and> chan_dst c \<in> barrier_procs ids"
    if "c \<in> up_chans K vs \<or> c \<in> down_chans K vs \<or> c \<in> flat_chans K vs" "set vs \<subseteq> barrier_procs ids" for K vs
    using that ends_in [of c K vs] by blast
  show ?thesis
  proof (cases "smp \<and> node_aware ids")
    case True
    then consider x where "c \<in> up_chans INTRACOMM_NODE (map int (locals ids x (length ids)))"
      | x where "c \<in> down_chans INTRACOMM_NODE (map int (locals ids x (length ids)))"
      | "c \<in> flat_chans INTRACOMM_NODE_ROOT (map int (leaders ids (length ids)))"
      using assms unfolding barrier_chans_def by auto
    then show ?thesis using ends sub by cases blast+
  next
    case False
    then have "c \<in> flat_chans INTRACOMM_PARENT (map int [0..<length ids])"
      using assms unfolding barrier_chans_def by (simp split: if_splits)
    then show ?thesis using ends sub(3) by blast
  qed
qed

interpretation barrier_run: staged barrier_ok "\<lambda>i. barrier_procs (fst i)" "\<lambda>i. barrier_code (fst i) (snd i)"
  "\<lambda>i. barrier_stage (fst i)"
proof unfold_locales
  fix i :: "int list \<times> bool" assume ok: "barrier_ok i"
  then have n: "int (length (fst i)) \<le> 2 ^ 30" by (simp add: barrier_ok_def)
  show "finite (barrier_procs (fst i))" by (simp add: barrier_procs_def)
  fix p
  show "barrier_code (fst i) (snd i) p = []" if "p \<notin> barrier_procs (fst i)"
    using that by (simp add: barrier_code_def)
  assume p: "p \<in> barrier_procs (fst i)"
  show "sorted_wrt (<) (map (action_level (barrier_stage (fst i))) (barrier_code (fst i) (snd i) p))"
    by (rule barrier_code_sorted [OF p n])
  show "posts (barrier_code (fst i) (snd i) p) = receives (barrier_code (fst i) (snd i) p)"
    by (rule barrier_code_chans(4) [OF p n])
  fix c
  show "c \<in> sends (barrier_code (fst i) (snd i) p)" if "c \<in> waits_send (barrier_code (fst i) (snd i) p)"
    using that barrier_code_chans(3) [OF p n] by simp
  show "p = chan_src c \<and> chan_dst c \<in> barrier_procs (fst i) \<and> c \<in> receives (barrier_code (fst i) (snd i) (chan_dst c))"
    if "c \<in> sends (barrier_code (fst i) (snd i) p)"
  proof -
    have c: "c \<in> barrier_chans (fst i) (snd i)" "chan_src c = p"
      using that barrier_code_chans(1) [OF p n] by (auto simp: from_proc_def)
    then show ?thesis
      using barrier_chans_ends [OF c(1)] barrier_code_chans(2) [OF _ n, of "chan_dst c" "snd i"]
      by (auto simp: to_proc_def)
  qed
  show "p = chan_dst c \<and> chan_src c \<in> barrier_procs (fst i) \<and> c \<in> sends (barrier_code (fst i) (snd i) (chan_src c))"
    if "c \<in> receives (barrier_code (fst i) (snd i) p)"
  proof -
    have c: "c \<in> barrier_chans (fst i) (snd i)" "chan_dst c = p"
      using that barrier_code_chans(2) [OF p n] by (auto simp: to_proc_def)
    then show ?thesis
      using barrier_chans_ends [OF c(1)] barrier_code_chans(1) [OF _ n, of "chan_src c" "snd i"]
      by (auto simp: from_proc_def)
  qed
qed

subsection \<open>The barrier of a committed communicator\<close>

definition same_comm :: "intra_comm \<Rightarrow> intra_comm \<Rightarrow> bool" where
  "same_comm c d \<longleftrightarrow> c_kind c = c_kind d \<and> c_rank c = c_rank d \<and> c_size c = c_size d \<and> vcr c = vcr d"

lemma flat_same:
  assumes "same_comm c d" "comm_ok d"
  shows "MPIR_Barrier_intra_flat c = MPIR_Barrier_intra_flat d"
proof -
  have "comm_ok c" using assms by (simp add: same_comm_def comm_ok_def)
  moreover have "exchange_block c = exchange_block d"
    using assms(1) by (intro ext) (simp add: exchange_block_def same_comm_def)
  ultimately show ?thesis
    using assms(1) unfolding MPIR_Barrier_intra_flat_block [OF \<open>comm_ok c\<close>] MPIR_Barrier_intra_flat_block [OF assms(2)]
    by (simp add: same_comm_def)
qed

text \<open>What the socket level, which is left open, may do to the communicator.\<close>

definition socket_only :: "nat \<Rightarrow> (intra_comm \<Rightarrow> mpi_error + intra_comm) \<Rightarrow> bool" where
  "socket_only n level \<longleftrightarrow> (\<forall>r<n. \<exists>c. level (parent_comm n r) = Inr c \<and> same_comm c (parent_comm n r) \<and> \<not> IsNodeAware c)"

lemma has_sub_comm:
  assumes "r < length ids"
  shows "first_of ids r \<or> 1 < length (locals ids (ids ! r) (length ids))"
proof (rule disjCI)
  assume single: "\<not> 1 < length (locals ids (ids ! r) (length ids))"
  show "first_of ids r"
  proof (rule ccontr)
    assume "\<not> first_of ids r"
    then obtain i where i: "i < r" "ids ! i = ids ! r"
      using assms by (auto simp: first_of_def in_set_conv_nth)
    then have "{i, r} \<subseteq> set (locals ids (ids ! r) (length ids))" using assms by (auto simp: locals_def)
    moreover have "card {i, r} = 2" using i by simp
    ultimately have "2 \<le> length (locals ids (ids ! r) (length ids))"
      by (metis card_length card_mono finite_set order_trans)
    then show False using single by simp
  qed
qed

lemma filter_all_length: "length (filter P [0..<n]) = n \<longleftrightarrow> (\<forall>i<n. P i)"
  by (metis atLeastLessThan_iff filter_True filter_id_conv le0 length_filter_less length_upt less_irrefl minus_nat.diff_0 set_upt)

lemma MPIR_Barrier_intra_committed:
  assumes ids: "nodes_ok ids max_node_id" and r: "r < length ids" and n: "int (length ids) \<le> 2 ^ 30"
    and sub: "\<And>l. sub_level l = Inr ()" and level: "socket_only (length ids) level"
  shows "\<exists>c. MPIR_Comm_commit_node_level all_fine level sub_level ids max_node_id (parent_comm (length ids) r) = Some (Inr c) \<and>
    MPIR_Barrier_intra smp c = Some (barrier_code ids smp (int r))"
proof -
  let ?n = "length ids" and ?p = "parent_comm (length ids) r"
  have ok: "comm_ok ?p" by (rule comm_ok_parent [OF r n])
  have flat: "MPIR_Barrier_intra_flat c = Some (the (MPIR_Barrier_intra_flat ?p))" if "same_comm c ?p" for c
    using flat_same [OF that ok] MPIR_Barrier_intra_flat_block [OF ok] by simp
  have in_procs: "int r \<in> barrier_procs ids" using r by (simp add: barrier_procs_def)
  have not_aware: "MPIR_Barrier_intra smp c = Some (barrier_code ids smp (int r))"
    if "same_comm c ?p" "\<not> IsNodeAware c" "\<not> node_aware ids" for c
    using flat [OF that(1)] that(2,3) in_procs by (simp add: MPIR_Barrier_intra_def barrier_code_def)
  note commit = MPIR_Comm_commit_node_level_result [OF ids r, of sub_level level, OF sub]
  consider "first_of ids r \<and> length (leaders ids ?n) = ?n"
    | "\<not> (first_of ids r \<and> length (leaders ids ?n) = ?n)" "length (locals ids (ids ! r) ?n) = ?n"
    | "\<not> (first_of ids r \<and> length (leaders ids ?n) = ?n)" "length (locals ids (ids ! r) ?n) \<noteq> ?n"
    by blast
  then show ?thesis
  proof cases
    case 1
    have "\<not> IsNodeAware ?p" by (simp add: IsNodeAware_def parent_comm_def)
    then show ?thesis using 1 commit not_aware [of ?p] by (simp add: same_comm_def node_aware_def)
  next
    case 2
    define x where "x = ids ! r"
    have same: "\<forall>i<?n. ids ! i = x" using 2(2) filter_all_length [of "\<lambda>i. ids ! i = x" ?n] by (simp add: locals_def x_def)
    then have "\<forall>y\<in>set ids. y = x" by (auto simp: in_set_conv_nth)
    moreover have "ids ! 0 = x" using same r by (cases ids) auto
    ultimately have "\<not> node_aware ids" by (auto simp: node_aware_def)
    moreover obtain c where "level ?p = Inr c" "same_comm c ?p" "\<not> IsNodeAware c"
      using level r unfolding socket_only_def by auto
    ultimately show ?thesis using 2 commit not_aware [of c] by auto
  next
    case 3
    let ?c = "?p\<lparr>local_subcomm := node_local ids r, leaders_subcomm := node_leader ids r\<rparr>"
    have all: "length (leaders ids ?n) = ?n \<Longrightarrow> first_of ids r"
      using filter_all_length [of "first_of ids" ?n] r by (simp add: leaders_def)
    obtain i where i: "i < ?n" "ids ! i \<noteq> ids ! r"
      using 3(2) filter_all_length [of "\<lambda>i. ids ! i = ids ! r" ?n] by (auto simp: locals_def)
    have "\<exists>x\<in>set ids. x \<noteq> ids ! 0"
      using i nth_mem [OF r] nth_mem [OF i(1)] by (cases "ids ! r = ids ! 0") auto
    then have aware: "node_aware ids" using 3(1) all by (auto simp: node_aware_def)
    have c: "IsNodeAware ?c" "same_comm ?c ?p"
      using has_sub_comm [OF r]
      by (auto simp: IsNodeAware_def node_local_def node_leader_def local_comm_def leader_comm_def same_comm_def)
    have subs: "local_subcomm ?c = node_local ids r" "leaders_subcomm ?c = node_leader ids r" by simp_all
    obtain xs where xs: "on_subcomm (node_local ids r) DeclareBarrierEntryToRank0 = Some xs"
      using DeclareBarrierEntryToRank0_block [OF comm_ok_local [OF r n]]
      by (cases "node_local ids r") (simp_all add: on_subcomm_def node_local_def split: if_splits)
    obtain ys where ys: "on_subcomm (node_leader ids r) MPIR_Barrier_intra_flat = Some ys"
      using MPIR_Barrier_intra_flat_block [OF comm_ok_leader [OF r _ n]]
      by (cases "node_leader ids r") (simp_all add: on_subcomm_def node_leader_def split: if_splits)
    obtain zs where zs: "on_subcomm (node_local ids r) ReleaseAllFromBarrier = Some zs"
      using ReleaseAllFromBarrier_block [OF comm_ok_local [OF r n]]
      by (cases "node_local ids r") (simp_all add: on_subcomm_def node_local_def split: if_splits)
    have ha: "MPIR_Barrier_intra_HA ?c = Some (xs @ ys @ zs)"
      unfolding MPIR_Barrier_intra_HA_def subs xs ys zs by simp
    have "MPIR_Barrier_intra smp ?c = Some (barrier_code ids smp (int r))"
    proof (cases smp)
      case True
      then have "barrier_code ids smp (int r) = xs @ ys @ zs"
        using in_procs aware by (simp add: barrier_code_def xs ys zs)
      then show ?thesis using True c(1) ha unfolding MPIR_Barrier_intra_def by simp
    next
      case False
      then have "barrier_code ids smp (int r) = the (MPIR_Barrier_intra_flat ?p)"
        using in_procs by (simp add: barrier_code_def)
      then show ?thesis using False flat [OF c(2)] unfolding MPIR_Barrier_intra_def by simp
    qed
    moreover have "MPIR_Comm_commit_node_level all_fine level sub_level ids max_node_id ?p = Some (Inr ?c)"
      using commit 3 by (simp add: node_local_def node_leader_def)
    ultimately show ?thesis by blast
  qed
qed

text \<open>What the processes of a communicator run, given the communicator each of them holds.\<close>

definition barrier_program :: "bool \<Rightarrow> (nat \<Rightarrow> intra_comm) \<Rightarrow> nat \<Rightarrow> int \<Rightarrow> (unit, unit) action list" where
  "barrier_program smp comms n p =
     (if 0 \<le> p \<and> p < int n then the (MPIR_Barrier_intra smp (comms (nat p))) else [])"

lemma barrier_program_code:
  assumes ids: "nodes_ok ids max_node_id" and n: "int (length ids) \<le> 2 ^ 30"
    and sub: "\<And>l. sub_level l = Inr ()" and level: "socket_only (length ids) level"
    and comms: "\<And>r. r < length ids \<Longrightarrow>
      MPIR_Comm_commit_node_level all_fine level sub_level ids max_node_id (parent_comm (length ids) r) = Some (Inr (comms r))"
  shows "barrier_program smp comms (length ids) = barrier_code ids smp"
    and "r < length ids \<Longrightarrow> MPIR_Barrier_intra smp (comms r) = Some (barrier_code ids smp (int r))"
proof -
  have code: "MPIR_Barrier_intra smp (comms r) = Some (barrier_code ids smp (int r))" if r: "r < length ids" for r
    using MPIR_Barrier_intra_committed [OF ids r n, of sub_level level smp, OF sub level] comms [OF r] by auto
  then show "r < length ids \<Longrightarrow> MPIR_Barrier_intra smp (comms r) = Some (barrier_code ids smp (int r))" .
  show "barrier_program smp comms (length ids) = barrier_code ids smp"
  proof
    fix p
    show "barrier_program smp comms (length ids) p = barrier_code ids smp p"
    proof (cases "0 \<le> p \<and> p < int (length ids)")
      case True
      then obtain r where "p = int r" "r < length ids" by (cases p rule: int_cases) auto
      then show ?thesis using code [of r] by (simp add: barrier_program_def)
    next
      case False
      then show ?thesis by (auto simp: barrier_program_def barrier_code_def barrier_procs_def)
    qed
  qed
qed

subsection \<open>Properties\<close>

text \<open>C3: on a communicator of any layout of processes over nodes, with the node-aware algorithm on or
off, with any mix of eager and rendezvous messages, with any interleaving and with any failures of the
point-to-point operations: a process whose \<open>MPI_Barrier\<close> has returned success has done so after every
process of the communicator has entered it.\<close>

theorem MPI_Barrier_waits_for_all:
  assumes "nodes_ok ids max_node_id" "ids \<noteq> []" "int (length ids) \<le> 2 ^ 30"
    "\<And>l. sub_level l = Inr ()" "socket_only (length ids) level"
    and comms: "\<And>r. r < length ids \<Longrightarrow>
      MPIR_Comm_commit_node_level all_fine level sub_level ids max_node_id (parent_comm (length ids) r) = Some (Inr (comms r))"
    and run: "reachable {0..<int (length ids)} (barrier_program smp comms (length ids)) eager (\<lambda>_. ()) s"
    and fin: "returned (barrier_program smp comms (length ids)) s p"
  shows "{0..<int (length ids)} \<subseteq> started s"
proof -
  have "barrier_program smp comms (length ids) = barrier_code ids smp"
    by (rule barrier_program_code(1) [OF assms(1,3,4,5) comms])
  then have "all_entered ids (started s)"
    using barrier_net.returned_post [of "(ids, smp)" eager s p] run fin assms(2,3)
    by (simp add: barrier_ok_def barrier_procs_def)
  then show ?thesis by (simp add: all_entered_def barrier_procs_def)
qed

text \<open>Five processes on two nodes.\<close>

definition demo_nodes :: "int list" where "demo_nodes = [0, 0, 1, 0, 1]"

definition demo_comms :: "nat \<Rightarrow> intra_comm" where
  "demo_comms r = (case MPIR_Comm_commit_node_level all_fine Inr (\<lambda>_. Inr ()) demo_nodes 1 (parent_comm (length demo_nodes) r) of
     Some (Inr c) \<Rightarrow> c | _ \<Rightarrow> parent_comm (length demo_nodes) r)"

lemma demo_nodes_ok:
  "nodes_ok demo_nodes 1" "demo_nodes \<noteq> []" "int (length demo_nodes) \<le> 2 ^ 30"
  "socket_only (length demo_nodes) Inr"
  "r < length demo_nodes \<Longrightarrow> MPIR_Comm_commit_node_level all_fine Inr (\<lambda>_. Inr ()) demo_nodes 1
    (parent_comm (length demo_nodes) r) = Some (Inr (demo_comms r))"
proof -
  show 1: "nodes_ok demo_nodes 1" "demo_nodes \<noteq> []" "int (length demo_nodes) \<le> 2 ^ 30"
    by (simp_all add: nodes_ok_def demo_nodes_def)
  show 2: "socket_only (length demo_nodes) Inr"
    by (simp add: socket_only_def same_comm_def IsNodeAware_def parent_comm_def)
  show "r < length demo_nodes \<Longrightarrow> MPIR_Comm_commit_node_level all_fine Inr (\<lambda>_. Inr ()) demo_nodes 1
    (parent_comm (length demo_nodes) r) = Some (Inr (demo_comms r))"
    using MPIR_Barrier_intra_committed [OF 1(1) _ 1(3), of r "\<lambda>_. Inr ()" Inr True, OF _ refl 2]
    by (auto simp: demo_comms_def)
qed

lemma demo_run:
  "\<exists>k s. (quiet_step {0..<5} (barrier_program True demo_comms 5) eager ^^ k) (net_init (\<lambda>_. ())) s \<and>
    finished {0..<5} (barrier_program True demo_comms 5) s"
proof -
  have ok: "barrier_ok (demo_nodes, True)" using demo_nodes_ok(2,3) by (simp add: barrier_ok_def)
  have code: "barrier_program True demo_comms (length demo_nodes) = barrier_code demo_nodes True"
    by (rule barrier_program_code(1) [OF demo_nodes_ok(1,3) refl demo_nodes_ok(4,5)])
  have n: "barrier_procs demo_nodes = {0..<5}" "length demo_nodes = 5"
    by (auto simp: barrier_procs_def demo_nodes_def)
  show ?thesis
    using barrier_run.full_run [OF ok, where eager = eager and ?d0.0 = "\<lambda>_. ()"] code unfolding n by (simp add: n)
qed

lemma MPI_Barrier_waits_for_all_witness:
  "\<exists>s. reachable {0..<5} (barrier_program True demo_comms 5) (\<lambda>_. False) (\<lambda>_. ()) s \<and>
     returned (barrier_program True demo_comms 5) s 3 \<and> {0..<5} \<subseteq> started s"
proof -
  obtain k s where run: "(quiet_step {0..<5} (barrier_program True demo_comms 5) (\<lambda>_. False) ^^ k) (net_init (\<lambda>_. ())) s"
    and fin: "finished {0..<5} (barrier_program True demo_comms 5) s"
    using demo_run by blast
  have r: "reachable {0..<5} (barrier_program True demo_comms 5) (\<lambda>_. False) (\<lambda>_. ()) s"
    by (rule quiet_reachable [OF run])
  have p: "returned (barrier_program True demo_comms 5) s 3" using fin by (simp add: finished_def)
  have n: "length demo_nodes = 5" by (simp add: demo_nodes_def)
  have "{0..<5} \<subseteq> started s"
    using MPI_Barrier_waits_for_all [OF demo_nodes_ok(1-3) refl demo_nodes_ok(4,5), of True "\<lambda>_. False" s 3] r p
    unfolding n by simp
  then show ?thesis using r p by blast
qed

text \<open>C7: the barrier is free of deadlocks and ends: without failures, every run is no longer than the
code of the processes together with their entries, and when it cannot go on every process has
returned success and no message and no posted receive is left over.\<close>

theorem MPI_Barrier_completes:
  assumes "nodes_ok ids max_node_id" "ids \<noteq> []" "int (length ids) \<le> 2 ^ 30"
    "\<And>l. sub_level l = Inr ()" "socket_only (length ids) level"
    and comms: "\<And>r. r < length ids \<Longrightarrow>
      MPIR_Comm_commit_node_level all_fine level sub_level ids max_node_id (parent_comm (length ids) r) = Some (Inr (comms r))"
    and run: "(quiet_step {0..<int (length ids)} (barrier_program smp comms (length ids)) eager ^^ k) (net_init (\<lambda>_. ())) s"
  shows "k \<le> length ids + (\<Sum>p\<in>{0..<int (length ids)}. length (barrier_program smp comms (length ids) p)) \<and>
    ((\<nexists>t. quiet_step {0..<int (length ids)} (barrier_program smp comms (length ids)) eager s t) \<longrightarrow>
      finished {0..<int (length ids)} (barrier_program smp comms (length ids)) s)"
proof -
  have code: "barrier_program smp comms (length ids) = barrier_code ids smp"
    by (rule barrier_program_code(1) [OF assms(1,3,4,5) comms])
  have ok: "barrier_ok (ids, smp)" using assms(2,3) by (simp add: barrier_ok_def)
  show ?thesis
    using barrier_run.run_bounded [OF ok, where eager = eager and n = k and ?d0.0 = "\<lambda>_. ()" and s = s]
      barrier_run.completes [OF ok, where eager = eager and n = k and ?d0.0 = "\<lambda>_. ()" and s = s] run
    unfolding code by (simp add: barrier_procs_def)
qed

lemma MPI_Barrier_completes_witness:
  "\<exists>k s. (quiet_step {0..<5} (barrier_program True demo_comms 5) (\<lambda>c. chan_kind c = INTRACOMM_NODE) ^^ k)
      (net_init (\<lambda>_. ())) s \<and> k \<le> 5 + (\<Sum>p\<in>{0..<5}. length (barrier_program True demo_comms 5 p))"
proof -
  obtain k s where run: "(quiet_step {0..<5} (barrier_program True demo_comms 5) (\<lambda>c. chan_kind c = INTRACOMM_NODE) ^^ k)
      (net_init (\<lambda>_. ())) s"
    using demo_run by blast
  have n: "length demo_nodes = 5" by (simp add: demo_nodes_def)
  show ?thesis
    using MPI_Barrier_completes [OF demo_nodes_ok(1-3) refl demo_nodes_ok(4,5), of k True
        "\<lambda>c. chan_kind c = INTRACOMM_NODE" s] run
    unfolding n by (intro exI [of _ k] exI [of _ s]) simp
qed

end
