(* ===== verification/Rounds.thy ===== *)
theory Rounds
  imports Coll_Comm
begin

text \<open>
  Collective operations in rounds. In a round a process receives from at most one process and sends to at
  most one, and whoever is sent to in a round receives in it. The locale \<open>rounds\<close> shows for all such
  programs that they end, and that every process ends with the data it has when the processes go through
  the rounds in step, whatever the order of their operations and however messages are delivered. The
  locale \<open>numbered\<close> is the rule behind it: a weakest precondition that counts the messages of each channel.
\<close>

subsection \<open>Weakest preconditions over numbered messages\<close>

fun nwp :: "(channel \<Rightarrow> nat \<Rightarrow> 'm \<Rightarrow> bool) \<Rightarrow> (channel \<Rightarrow> nat) \<Rightarrow> (channel \<Rightarrow> nat) \<Rightarrow>
    ('m, 'd) action list \<Rightarrow> ('d \<Rightarrow> bool) \<Rightarrow> 'd \<Rightarrow> bool" where
  "nwp M S R [] Q d = Q d"
| "nwp M S R (Isend c f # as) Q d = (M c (S c) (f d) \<and> nwp M (S(c := Suc (S c))) R as Q d)"
| "nwp M S R (Irecv c # as) Q d = nwp M S R as Q d"
| "nwp M S R (WaitSend c # as) Q d = nwp M S R as Q d"
| "nwp M S R (WaitRecv c g # as) Q d = (\<forall>m. M c (R c) m \<longrightarrow> nwp M S (R(c := Suc (R c))) as Q (g m d))"

locale numbered = schedule ok procs P lvl
  for ok :: "'i \<Rightarrow> bool" and procs and P :: "'i \<Rightarrow> int \<Rightarrow> ('m, 'd) action list" and lvl +
  fixes M :: "'i \<Rightarrow> channel \<Rightarrow> nat \<Rightarrow> 'm \<Rightarrow> bool"
    and Q :: "'i \<Rightarrow> int \<Rightarrow> 'd \<Rightarrow> bool"
    and d0 :: "'i \<Rightarrow> int \<Rightarrow> 'd"
  assumes code: "ok i \<Longrightarrow> p \<in> procs i \<Longrightarrow> nwp (M i) (\<lambda>_. 0) (\<lambda>_. 0) (P i p) (Q i p) (d0 i p)"
begin

abbreviation rest_ok :: "'i \<Rightarrow> int \<Rightarrow> nat \<Rightarrow> 'd \<Rightarrow> bool" where
  "rest_ok i p k d \<equiv> nwp (M i) (\<lambda>c. performed (is_send c) (P i p) k) (\<lambda>c. performed (is_recv c) (P i p) k)
     (drop k (P i p)) (Q i p) d"

definition messages_ok :: "'i \<Rightarrow> (int, 'm, 'd) net \<Rightarrow> bool" where
  "messages_ok i s \<longleftrightarrow> counts i s \<and> (\<forall>p\<in>procs i. rest_ok i p (pos s p) (dat s p)) \<and>
     (\<forall>c j. j < length (chan s c) \<longrightarrow>
        M i c (performed (is_recv c) (P i (chan_dst c)) (pos s (chan_dst c)) + j) (chan s c ! j))"

lemma rest_step:
  assumes "rest_ok i p k d" "k < length (P i p)"
  shows "P i p ! k = Isend c f \<Longrightarrow> M i c (performed (is_send c) (P i p) k) (f d) \<and> rest_ok i p (Suc k) d"
    "P i p ! k = Irecv c \<Longrightarrow> rest_ok i p (Suc k) d"
    "P i p ! k = WaitSend c \<Longrightarrow> rest_ok i p (Suc k) d"
    "P i p ! k = WaitRecv c g \<Longrightarrow> M i c (performed (is_recv c) (P i p) k) m \<Longrightarrow> rest_ok i p (Suc k) (g m d)"
proof -
  have drop: "drop k (P i p) = P i p ! k # drop (Suc k) (P i p)" using assms(2) by (simp add: Cons_nth_drop_Suc)
  have count: "(\<lambda>c. performed (test c) (P i p) (Suc k)) = (\<lambda>c. performed (test c) (P i p) k)(b := Suc (performed (test b) (P i p) k))"
    if "\<And>c. test c (P i p ! k) \<longleftrightarrow> c = b" for test b
    using that assms(2) by (auto simp: performed_Suc)
  have none: "(\<lambda>c. performed (test c) (P i p) (Suc k)) = (\<lambda>c. performed (test c) (P i p) k)"
    if "\<And>c. \<not> test c (P i p ! k)" for test
    using that assms(2) by (auto simp: performed_Suc)
  show "P i p ! k = Isend c f \<Longrightarrow> M i c (performed (is_send c) (P i p) k) (f d) \<and> rest_ok i p (Suc k) d"
    using assms(1) count [of is_send c] none [of is_recv] unfolding drop by (auto simp: eq_commute [of c])
  show "P i p ! k = Irecv c \<Longrightarrow> rest_ok i p (Suc k) d"
    using assms(1) none [of is_send] none [of is_recv] unfolding drop by auto
  show "P i p ! k = WaitSend c \<Longrightarrow> rest_ok i p (Suc k) d"
    using assms(1) none [of is_send] none [of is_recv] unfolding drop by auto
  show "P i p ! k = WaitRecv c g \<Longrightarrow> M i c (performed (is_recv c) (P i p) k) m \<Longrightarrow> rest_ok i p (Suc k) (g m d)"
    using assms(1) none [of is_send] count [of is_recv c] unfolding drop by (auto simp: eq_commute [of c])
qed

lemma messages_step:
  assumes ok: "ok i" and inv: "messages_ok i s" and step: "net_step (procs i) (P i) eager s t"
  shows "messages_ok i t"
proof -
  have counts: "counts i s" "counts i t"
    using inv counts_step [OF ok _ step] by (simp_all add: messages_ok_def)
  have at: "p \<in> procs i \<and> pos s p < length (P i p) \<and> P i p ! pos s p = a \<and> a \<in> set (P i p)"
    if "at_op (P i) s p a" for p a
    using that counts(1) by (auto simp: at_op_def counts_def)
  have rest: "rest_ok i q (pos s q) (dat s q)" if "q \<in> procs i" for q
    using inv that by (simp add: messages_ok_def)
  have msgs: "M i c (performed (is_recv c) (P i (chan_dst c)) (pos s (chan_dst c)) + j) (chan s c ! j)"
    if "j < length (chan s c)" for c j
    using inv that unfolding messages_ok_def by blast
  have keep: "performed (is_recv c) (P i q) (next_pos s p q) = performed (is_recv c) (P i q) (pos s q)"
    if "at_op (P i) s p a" "\<not> is_recv c a" for p q a c
    using at [OF that(1)] that(2) by (cases "p = q") (auto simp: performed_Suc)
  show ?thesis
    using step
  proof (cases rule: net_step.cases)
    case (isend p c f)
    have sums: "length (chan s c) + performed (is_recv c) (P i (chan_dst c)) (pos s (chan_dst c)) =
        performed (is_send c) (P i (chan_src c)) (pos s (chan_src c))"
      using counts(1) unfolding counts_def by blast
    have p: "p = chan_src c" using at [OF isend(2)] own_send [OF ok] by blast
    have new: "M i c (performed (is_send c) (P i p) (pos s p)) (f (dat s p))" "rest_ok i p (Suc (pos s p)) (dat s p)"
      using rest_step(1) [OF rest] at [OF isend(2)] by blast+
    have all: "M i b (performed (is_recv b) (P i (chan_dst b)) (pos s (chan_dst b)) + j) ((chan s b @ (if b = c then [f (dat s p)] else [])) ! j)"
      if "j < length (chan s b) + (if b = c then 1 else 0)" for b j
      using that msgs [of j b] new(1) sums p by (cases "j < length (chan s b)") (auto simp: nth_append add.commute less_Suc_eq split: if_splits)
    have "M i b (performed (is_recv b) (P i (chan_dst b)) (next_pos s p (chan_dst b)) + j) (chan t b ! j)"
      if "j < length (chan t b)" for b j
      using that all [of j b] keep [OF isend(2), of b "chan_dst b"] unfolding isend(1) by (auto split: if_splits)
    then show ?thesis using counts(2) rest new(2) unfolding messages_ok_def isend(1) by simp
  next
    case (irecv p c)
    have "rest_ok i p (Suc (pos s p)) (dat s p)" using rest_step(2) [OF rest] at [OF irecv(2)] by blast
    then have "rest_ok i q (next_pos s p q) (dat s q)" if "q \<in> procs i" for q using rest that by (cases "q = p") auto
    moreover have "M i b (performed (is_recv b) (P i (chan_dst b)) (next_pos s p (chan_dst b)) + j) (chan s b ! j)"
      if "j < length (chan s b)" for b j
      using that msgs keep [OF irecv(2), of b "chan_dst b"] by simp
    ultimately show ?thesis using counts(2) unfolding messages_ok_def irecv(1) by simp
  next
    case (wait_send p c)
    have "rest_ok i p (Suc (pos s p)) (dat s p)" using rest_step(3) [OF rest] at [OF wait_send(2)] by blast
    then have "rest_ok i q (next_pos s p q) (dat s q)" if "q \<in> procs i" for q using rest that by (cases "q = p") auto
    moreover have "M i b (performed (is_recv b) (P i (chan_dst b)) (next_pos s p (chan_dst b)) + j) (chan s b ! j)"
      if "j < length (chan s b)" for b j
      using that msgs keep [OF wait_send(2), of b "chan_dst b"] by simp
    ultimately show ?thesis using counts(2) unfolding messages_ok_def wait_send(1) by simp
  next
    case (wait_recv p c g m ms)
    have p: "p = chan_dst c" using at [OF wait_recv(2)] own_recv [OF ok] by blast
    have m: "M i c (performed (is_recv c) (P i p) (pos s p)) m" using msgs [of 0 c] wait_recv(3) p by simp
    have new: "rest_ok i p (Suc (pos s p)) (g m (dat s p))"
      using rest_step(4) [OF rest _ _ m] at [OF wait_recv(2)] by blast
    have up: "performed (is_recv c) (P i p) (Suc (pos s p)) = Suc (performed (is_recv c) (P i p) (pos s p))"
      using at [OF wait_recv(2)] by (simp add: performed_Suc)
    have "M i b (performed (is_recv b) (P i (chan_dst b)) (next_pos s p (chan_dst b)) + j) (chan t b ! j)"
      if j: "j < length (chan t b)" for b j
    proof (cases "b = c")
      case True
      then show ?thesis using j msgs [of "Suc j" c] wait_recv(3) p up unfolding wait_recv(1) by simp
    next
      case False
      then show ?thesis using j msgs [of j b] keep [OF wait_recv(2), of b "chan_dst b"] unfolding wait_recv(1) by simp
    qed
    then show ?thesis using counts(2) rest new unfolding messages_ok_def wait_recv(1) by simp
  qed (use inv counts in \<open>auto simp: messages_ok_def\<close>)
qed

lemma messages_reachable: "reachable (procs i) (P i) eager (d0 i) s \<Longrightarrow> ok i \<Longrightarrow> messages_ok i s"
proof (induction rule: rtranclp_induct)
  case base
  then show ?case
    using counts_reachable [of i eager "d0 i" "net_init (d0 i)"] code by (auto simp: messages_ok_def net_init_def)
next
  case (step s t)
  then show ?case using messages_step by blast
qed

lemma numbered_post:
  assumes "ok i" "reachable (procs i) (P i) eager (d0 i) s" "p \<in> procs i" "returned (P i) s p"
  shows "Q i p (dat s p)"
  using messages_reachable [OF assms(2,1)] assms(3,4) by (force simp: messages_ok_def returned_def)

end

subsection \<open>Places in a concatenation\<close>

abbreviation joined :: "(nat \<Rightarrow> 'a list) \<Rightarrow> nat \<Rightarrow> 'a list" where
  "joined F n \<equiv> concat (map F [0..<n])"

lemma joined_place: "j < length (joined F n) \<Longrightarrow> \<exists>k x. k < n \<and> x < length (F k) \<and> j = length (joined F k) + x"
proof (induction n)
  case (Suc n)
  show ?case
  proof (cases "j < length (joined F n)")
    case True
    then show ?thesis using Suc.IH less_SucI by blast
  next
    case False
    then show ?thesis using Suc.prems by (intro exI [of _ n] exI [of _ "j - length (joined F n)"]) auto
  qed
qed simp

lemma joined_split: "k < n \<Longrightarrow> joined F n = joined F k @ F k @ concat (map F [Suc k..<n])"
proof -
  assume k: "k < n"
  have "[0..<n] = [0..<k] @ k # [Suc k..<n]" using k upt_add_eq_append [of 0 k "n - k"] upt_conv_Cons [OF k] by simp
  then show ?thesis by simp
qed

lemma joined_nth:
  assumes "k < n" "x < length (F k)"
  shows "joined F n ! (length (joined F k) + x) = F k ! x" "length (joined F k) + x < length (joined F n)"
  using assms by (simp_all add: joined_split [OF assms(1)] nth_append)

lemma performed_joined:
  assumes "k < n" "x \<le> length (F k)"
  shows "performed test (joined F n) (length (joined F k) + x) =
    (\<Sum>l<k. performed test (F l) (length (F l))) + performed test (F k) x"
proof -
  have "length (filter test (joined F k)) = (\<Sum>l<k. performed test (F l) (length (F l)))"
    by (induction k) (simp_all add: performed_def)
  then show ?thesis using assms by (simp add: joined_split [OF assms(1)] performed_def)
qed

lemma performed_all_joined:
  "performed test (joined F n) (length (joined F n)) = (\<Sum>l<n. performed test (F l) (length (F l)))"
  by (induction n) (simp_all add: performed_def)

subsection \<open>Rounds\<close>

text \<open>What a process does in a round, and the data of the processes after a number of rounds in step.\<close>

definition round_block ::
  "comm_kind \<Rightarrow> int \<Rightarrow> int option \<Rightarrow> int option \<Rightarrow> ('d \<Rightarrow> 'm) \<Rightarrow> ('m \<Rightarrow> 'd \<Rightarrow> 'd) \<Rightarrow> ('m, 'd) action list" where
  "round_block kd p dst src f g =
     (case src of None \<Rightarrow> [] | Some q \<Rightarrow> [Irecv (Channel kd q p)]) @
     (case dst of None \<Rightarrow> [] | Some q \<Rightarrow> [Isend (Channel kd p q) f, WaitSend (Channel kd p q)]) @
     (case src of None \<Rightarrow> [] | Some q \<Rightarrow> [WaitRecv (Channel kd q p) g])"

primrec lockstep :: "(nat \<Rightarrow> int \<Rightarrow> int option) \<Rightarrow> (nat \<Rightarrow> int \<Rightarrow> 'd \<Rightarrow> 'm) \<Rightarrow> (nat \<Rightarrow> int \<Rightarrow> 'm \<Rightarrow> 'd \<Rightarrow> 'd) \<Rightarrow>
    (int \<Rightarrow> 'd) \<Rightarrow> nat \<Rightarrow> int \<Rightarrow> 'd" where
  "lockstep src out inn d 0 = d"
| "lockstep src out inn d (Suc k) = (\<lambda>p. case src k p of
     None \<Rightarrow> lockstep src out inn d k p
   | Some q \<Rightarrow> inn k p (out k q (lockstep src out inn d k q)) (lockstep src out inn d k p))"

fun op_level :: "nat \<Rightarrow> ('m, 'd) action \<Rightarrow> nat" where
  "op_level k (Irecv c) = 4 * k" | "op_level k (Isend c f) = 4 * k + 1"
| "op_level k (WaitSend c) = 4 * k + 2" | "op_level k (WaitRecv c g) = 4 * k + 3"

lemma op_level_bounds: "4 * k \<le> op_level k a" "op_level k a \<le> 4 * k + 3"
  by (cases a; simp)+

lemma block_sorted: "sorted_wrt (<) (map (op_level k) (round_block kd p dst src f g))"
  by (cases dst; cases src) (simp_all add: round_block_def)

locale rounds =
  fixes ok :: "'i \<Rightarrow> bool"
    and procs :: "'i \<Rightarrow> int set"
    and kind :: "'i \<Rightarrow> nat \<Rightarrow> comm_kind"
    and N :: "'i \<Rightarrow> nat"
    and dest :: "'i \<Rightarrow> nat \<Rightarrow> int \<Rightarrow> int option"
    and source :: "'i \<Rightarrow> nat \<Rightarrow> int \<Rightarrow> int option"
    and out :: "'i \<Rightarrow> nat \<Rightarrow> int \<Rightarrow> 'd \<Rightarrow> 'm"
    and inn :: "'i \<Rightarrow> nat \<Rightarrow> int \<Rightarrow> 'm \<Rightarrow> 'd \<Rightarrow> 'd"
    and d0 :: "'i \<Rightarrow> int \<Rightarrow> 'd"
  assumes finitely_many: "ok i \<Longrightarrow> finite (procs i)"
    and dest_receives: "ok i \<Longrightarrow> k < N i \<Longrightarrow> p \<in> procs i \<Longrightarrow> dest i k p = Some q \<Longrightarrow> q \<in> procs i \<and> source i k q = Some p"
    and source_sends: "ok i \<Longrightarrow> k < N i \<Longrightarrow> p \<in> procs i \<Longrightarrow> source i k p = Some q \<Longrightarrow> q \<in> procs i \<and> dest i k q = Some p"
begin

definition block :: "'i \<Rightarrow> int \<Rightarrow> nat \<Rightarrow> ('m, 'd) action list" where
  "block i p k = round_block (kind i k) p (dest i k p) (source i k p) (out i k p) (inn i k p)"

definition prog :: "'i \<Rightarrow> int \<Rightarrow> ('m, 'd) action list" where
  "prog i p = (if p \<in> procs i then joined (block i p) (N i) else [])"

definition lvl :: "'i \<Rightarrow> int \<Rightarrow> nat \<Rightarrow> nat" where
  "lvl i p j = joined (\<lambda>k. map (op_level k) (block i p k)) (N i) ! j"

abbreviation data :: "'i \<Rightarrow> nat \<Rightarrow> int \<Rightarrow> 'd" where
  "data i k p \<equiv> lockstep (source i) (out i) (inn i) (d0 i) k p"

text \<open>The rounds that use a channel.\<close>

definition uses :: "'i \<Rightarrow> channel \<Rightarrow> nat \<Rightarrow> bool" where
  "uses i c k \<longleftrightarrow> kind i k = chan_kind c \<and> chan_src c \<in> procs i \<and> dest i k (chan_src c) = Some (chan_dst c)"

definition before :: "'i \<Rightarrow> channel \<Rightarrow> nat \<Rightarrow> nat" where
  "before i c k = (\<Sum>l<k. if uses i c l then 1 else 0)"

lemma uses_source:
  "ok i \<Longrightarrow> k < N i \<Longrightarrow> uses i c k \<longleftrightarrow> kind i k = chan_kind c \<and> chan_dst c \<in> procs i \<and> source i k (chan_dst c) = Some (chan_src c)"
  using dest_receives source_sends unfolding uses_def by blast

lemma in_block:
  "Isend c f \<in> set (block i p k) \<longleftrightarrow> f = out i k p \<and> chan_kind c = kind i k \<and> chan_src c = p \<and> dest i k p = Some (chan_dst c)"
  "WaitSend c \<in> set (block i p k) \<longleftrightarrow> chan_kind c = kind i k \<and> chan_src c = p \<and> dest i k p = Some (chan_dst c)"
  "Irecv c \<in> set (block i p k) \<longleftrightarrow> chan_kind c = kind i k \<and> chan_dst c = p \<and> source i k p = Some (chan_src c)"
  "WaitRecv c g \<in> set (block i p k) \<longleftrightarrow> g = inn i k p \<and> chan_kind c = kind i k \<and> chan_dst c = p \<and> source i k p = Some (chan_src c)"
  by (cases c; cases "dest i k p"; cases "source i k p"; auto simp: block_def round_block_def)+

lemma prog_place:
  assumes "p \<in> procs i" "j < length (prog i p)"
  obtains k x where "k < N i" "x < length (block i p k)" "j = length (joined (block i p) k) + x" "prog i p ! j = block i p k ! x"
    "lvl i p j = op_level k (prog i p ! j)"
proof -
  obtain k x where k: "k < N i" "x < length (block i p k)" "j = length (joined (block i p) k) + x"
    using assms joined_place [of j "block i p" "N i"] by (auto simp: prog_def)
  have len: "length (joined (\<lambda>k. map (op_level k) (block i p k)) m) = length (joined (block i p) m)" for m
    by (induction m) simp_all
  have "prog i p ! j = block i p k ! x" using k assms(1) joined_nth(1) [of k "N i" x "block i p"] by (simp add: prog_def)
  moreover have "lvl i p j = op_level k (block i p k ! x)"
    using k joined_nth(1) [of k "N i" x "\<lambda>k. map (op_level k) (block i p k)"] by (simp add: lvl_def len)
  ultimately show thesis using that k by simp
qed

lemma prog_at:
  assumes "p \<in> procs i" "k < N i" "x < length (block i p k)"
  defines "j \<equiv> length (joined (block i p) k) + x"
  shows "j < length (prog i p)" "prog i p ! j = block i p k ! x" "lvl i p j = op_level k (block i p k ! x)"
proof -
  have len: "length (joined (\<lambda>k. map (op_level k) (block i p k)) m) = length (joined (block i p) m)" for m
    by (induction m) simp_all
  show "j < length (prog i p)" "prog i p ! j = block i p k ! x"
    using assms joined_nth [of k "N i" x "block i p"] by (simp_all add: prog_def)
  show "lvl i p j = op_level k (block i p k ! x)"
    using assms joined_nth(1) [of k "N i" x "\<lambda>k. map (op_level k) (block i p k)"] by (simp add: lvl_def len)
qed

lemma block_counts:
  assumes "ok i" "k < N i" "p \<in> procs i"
  shows "performed (is_send c) (block i p k) (length (block i p k)) = (if p = chan_src c \<and> uses i c k then 1 else 0)"
    "performed (is_post c) (block i p k) (length (block i p k)) = (if p = chan_dst c \<and> uses i c k then 1 else 0)"
    "performed (is_recv c) (block i p k) (length (block i p k)) = (if p = chan_dst c \<and> uses i c k then 1 else 0)"
proof -
  show "performed (is_send c) (block i p k) (length (block i p k)) = (if p = chan_src c \<and> uses i c k then 1 else 0)"
    using assms(3) unfolding uses_def
    by (cases c; cases "dest i k p"; cases "source i k p"; auto simp: block_def round_block_def performed_def)
  show "performed (is_post c) (block i p k) (length (block i p k)) = (if p = chan_dst c \<and> uses i c k then 1 else 0)"
    "performed (is_recv c) (block i p k) (length (block i p k)) = (if p = chan_dst c \<and> uses i c k then 1 else 0)"
    using assms(3) unfolding uses_source [OF assms(1,2)]
    by (cases c; cases "dest i k p"; cases "source i k p"; auto simp: block_def round_block_def performed_def)+
qed

lemma prog_counts:
  assumes "ok i" "k < N i" "p \<in> procs i" "x \<le> length (block i p k)"
  defines "j \<equiv> length (joined (block i p) k) + x"
  shows "p = chan_src c \<Longrightarrow> performed (is_send c) (prog i p) j = before i c k + performed (is_send c) (block i p k) x"
    "p = chan_dst c \<Longrightarrow> performed (is_post c) (prog i p) j = before i c k + performed (is_post c) (block i p k) x"
    "p = chan_dst c \<Longrightarrow> performed (is_recv c) (prog i p) j = before i c k + performed (is_recv c) (block i p k) x"
  using assms block_counts [OF assms(1) _ assms(3)] performed_joined [where F = "block i p", OF assms(2,4)]
  by (simp_all add: prog_def before_def)

text \<open>Where the operations stand in a block.\<close>

lemma block_places:
  assumes "x < length (block i p k)"
  shows "block i p k ! x = WaitRecv c g \<Longrightarrow>
      performed (is_recv c) (block i p k) x = 0 \<and> performed (is_post c) (block i p k) x = 1"
    "block i p k ! x = WaitSend c \<Longrightarrow> performed (is_send c) (block i p k) x = 1"
  using assms by (cases "dest i k p"; cases "source i k p";
    auto simp: block_def round_block_def performed_def less_Suc_eq numeral_eq_Suc split: if_splits)+

lemma block_send_place:
  assumes "dest i k p = Some q"
  defines "c \<equiv> Channel (kind i k) p q"
  shows "\<exists>x. x < length (block i p k) \<and> block i p k ! x = Isend c (out i k p) \<and> performed (is_send c) (block i p k) (Suc x) = 1"
  using assms by (cases "source i k p")
    (auto simp: block_def round_block_def performed_def intro: exI [of _ 0] exI [of _ 1])

lemma block_post_place:
  assumes "source i k p = Some q"
  defines "c \<equiv> Channel (kind i k) q p"
  shows "0 < length (block i p k) \<and> block i p k ! 0 = Irecv c \<and> performed (is_post c) (block i p k) (Suc 0) = 1"
  using assms by (auto simp: block_def round_block_def performed_def)

lemma lvl_sorted: "sorted_wrt (<) (joined (\<lambda>k. map (op_level k) (block i p k)) n)"
proof (induction n)
  case (Suc n)
  have "x < y" if "x \<in> set (joined (\<lambda>k. map (op_level k) (block i p k)) n)" "y \<in> set (map (op_level n) (block i p n))" for x y
  proof -
    have "\<exists>k<n. \<exists>a\<in>set (block i p k). x = op_level k a" "\<exists>b\<in>set (block i p n). y = op_level n b" using that by auto
    then obtain k and a b :: "('m, 'd) action" where "k < n" "x = op_level k a" "y = op_level n b" by blast
    then show ?thesis using op_level_bounds(2) [of k a] op_level_bounds(1) [of n b] by linarith
  qed
  then show ?case using Suc.IH by (auto simp: sorted_wrt_append block_def block_sorted)
qed simp

end

sublocale rounds \<subseteq> schedule ok procs prog lvl
proof unfold_locales
  fix i assume "ok i" then show "finite (procs i)" by (rule finitely_many)
next
  fix i p c f assume a: "ok i" "p \<in> procs i" "Isend c f \<in> set (prog i p)"
  then obtain k where "k < N i" "Isend c f \<in> set (block i p k)" by (auto simp: prog_def)
  then show "p = chan_src c" using a by (simp add: in_block)
next
  fix i p c assume a: "ok i" "p \<in> procs i" "Irecv c \<in> set (prog i p)"
  then obtain k where "k < N i" "Irecv c \<in> set (block i p k)" by (auto simp: prog_def)
  then show "p = chan_dst c" using a by (simp add: in_block)
next
  fix i p c g assume a: "ok i" "p \<in> procs i" "WaitRecv c g \<in> set (prog i p)"
  then obtain k where "k < N i" "WaitRecv c g \<in> set (block i p k)" by (auto simp: prog_def)
  then show "p = chan_dst c" using a by (simp add: in_block)
next
  fix i p k assume a: "ok i" "p \<in> procs i" "Suc k < length (prog i p)"
  have "length (joined (\<lambda>k. map (op_level k) (block i p k)) n) = length (joined (block i p) n)" for n
    by (induction n) simp_all
  then show "lvl i p k < lvl i p (Suc k)"
    using a sorted_wrt_nth_less [OF lvl_sorted [of i p "N i"], of k "Suc k"] by (simp add: prog_def lvl_def)
next
  fix i p j c g
  assume a: "ok i" "p \<in> procs i" "j < length (prog i p)" "prog i p ! j = WaitRecv c g"
  obtain k x where k: "k < N i" "x < length (block i p k)" "j = length (joined (block i p) k) + x"
    "block i p k ! x = WaitRecv c g" "lvl i p j = 4 * k + 3"
    using prog_place [OF a(2,3)] a(4) by (metis op_level.simps(4))
  have c: "p = chan_dst c" "chan_kind c = kind i k" "source i k p = Some (chan_src c)"
    using k nth_mem [OF k(2)] by (simp_all add: in_block)
  note counts = prog_counts [OF a(1) k(1) a(2) less_imp_le [OF k(2)], folded k(3)]
  show "performed (is_recv c) (prog i p) j < performed (is_post c) (prog i p) j"
    using counts(2,3) [OF c(1)] block_places(1) [OF k(2,4)] by simp
  have src: "chan_src c \<in> procs i" "dest i k (chan_src c) = Some p" using source_sends [OF a(1) k(1) a(2) c(3)] by auto
  have ch: "Channel (kind i k) (chan_src c) p = c" using c by (cases c) simp
  obtain y where y: "y < length (block i (chan_src c) k)" "block i (chan_src c) k ! y = Isend c (out i k (chan_src c))"
    "performed (is_send c) (block i (chan_src c) k) (Suc y) = 1"
    using block_send_place [of i k "chan_src c" p] src(2) unfolding ch by blast
  have "performed (is_send c) (prog i (chan_src c)) (Suc (length (joined (block i (chan_src c)) k) + y)) = Suc (before i c k)"
    using prog_counts(1) [OF a(1) k(1) src(1), of "Suc y" c] y by simp
  then show "\<exists>j'<length (prog i (chan_src c)). chan_src c \<in> procs i \<and>
      performed (is_recv c) (prog i p) j < performed (is_send c) (prog i (chan_src c)) (Suc j') \<and>
      lvl i (chan_src c) j' < lvl i p j"
    using prog_at [OF src(1) k(1) y(1)] y(2) src(1) k(5) counts(3) [OF c(1)] block_places(1) [OF k(2,4)]
    by (intro exI [of _ "length (joined (block i (chan_src c)) k) + y"]) simp
next
  fix i p j c
  assume a: "ok i" "p \<in> procs i" "j < length (prog i p)" "prog i p ! j = WaitSend c"
  obtain k x where k: "k < N i" "x < length (block i p k)" "j = length (joined (block i p) k) + x"
    "block i p k ! x = WaitSend c" "lvl i p j = 4 * k + 2"
    using prog_place [OF a(2,3)] a(4) by (metis op_level.simps(3))
  have c: "p = chan_src c" "chan_kind c = kind i k" "dest i k p = Some (chan_dst c)"
    using k nth_mem [OF k(2)] by (simp_all add: in_block)
  note counts = prog_counts [OF a(1) k(1) a(2) less_imp_le [OF k(2)], folded k(3)]
  have dst: "chan_dst c \<in> procs i" "source i k (chan_dst c) = Some p" using dest_receives [OF a(1) k(1) a(2) c(3)] by auto
  have ch: "Channel (kind i k) p (chan_dst c) = c" using c by (cases c) simp
  note y = block_post_place [of i k "chan_dst c" p, OF dst(2), unfolded ch]
  have "performed (is_post c) (prog i (chan_dst c)) (Suc (length (joined (block i (chan_dst c)) k))) = Suc (before i c k)"
    using prog_counts(2) [OF a(1) k(1) dst(1), of "Suc 0" c] y by simp
  then show "chan_src c = p \<and> (\<exists>j'<length (prog i (chan_dst c)). chan_dst c \<in> procs i \<and>
      performed (is_send c) (prog i p) j \<le> performed (is_post c) (prog i (chan_dst c)) (Suc j') \<and>
      lvl i (chan_dst c) j' < lvl i p j)"
    using prog_at [OF dst(1) k(1), of 0] y dst(1) k(5) c(1) counts(1) [OF c(1)] block_places(2) [OF k(2,4)]
    by (intro conjI exI [of _ "length (joined (block i (chan_dst c)) k)"]) simp_all
next
  fix i c assume ok: "ok i"
  have all: "performed (is_send c) (prog i p) (length (prog i p)) = (if p = chan_src c then before i c (N i) else 0)"
    "performed (is_post c) (prog i p) (length (prog i p)) = (if p = chan_dst c then before i c (N i) else 0)"
    "performed (is_recv c) (prog i p) (length (prog i p)) = (if p = chan_dst c then before i c (N i) else 0)"
    if "p \<in> procs i" for p
    using that block_counts [OF ok _ that] by (simp_all add: prog_def performed_all_joined before_def)
  have none: "before i c (N i) = 0" if "chan_src c \<notin> procs i \<or> chan_dst c \<notin> procs i"
    using that uses_source [OF ok] by (auto simp: before_def uses_def)
  show "performed (is_send c) (prog i (chan_src c)) (length (prog i (chan_src c))) =
      performed (is_recv c) (prog i (chan_dst c)) (length (prog i (chan_dst c)))"
    using all(1) [of "chan_src c"] all(3) [of "chan_dst c"] none
    by (cases "chan_src c \<in> procs i"; cases "chan_dst c \<in> procs i"; simp add: prog_def)
  show "performed (is_post c) (prog i (chan_dst c)) (length (prog i (chan_dst c))) =
      performed (is_recv c) (prog i (chan_dst c)) (length (prog i (chan_dst c)))"
    using all(2,3) [of "chan_dst c"] by (cases "chan_dst c \<in> procs i"; simp add: prog_def)
next
  fix i p assume "ok i" "p \<notin> procs i" then show "prog i p = []" by (simp add: prog_def)
qed

text \<open>The message that is the \<open>n\<close>-th of a channel: what the sender has in the round it sends it in.\<close>

context rounds
begin

definition message :: "'i \<Rightarrow> channel \<Rightarrow> nat \<Rightarrow> 'm \<Rightarrow> bool" where
  "message i c n m \<longleftrightarrow> (\<exists>k<N i. uses i c k \<and> before i c k = n \<and> m = out i k (chan_src c) (data i k (chan_src c)))"

lemma before_0 [simp]: "before i c 0 = 0"
  by (simp add: before_def)

lemma before_mono: "k \<le> l \<Longrightarrow> before i c k \<le> before i c l"
  unfolding before_def by (intro sum_mono2) auto

lemma before_inj:
  assumes "uses i c k" "uses i c l" "before i c k = before i c l"
  shows "k = l"
proof -
  have "before i c k < before i c l" if "k < l" "uses i c k" for k l
    using before_mono [of "Suc k" l i c] that by (simp add: before_def)
  then show ?thesis using assms by (metis less_irrefl linorder_neqE_nat)
qed

lemma rounds_nwp:
  assumes "ok i" "p \<in> procs i" "k \<le> N i"
  shows "nwp (message i) (\<lambda>c. if chan_src c = p then before i c k else 0) (\<lambda>c. if chan_dst c = p then before i c k else 0)
    (concat (map (block i p) [k..<N i])) (\<lambda>d. d = data i (N i) p) (data i k p)"
  using assms(3)
proof (induction "N i - k" arbitrary: k)
  case (Suc n)
  have k: "k < N i" using Suc.hyps(2) by simp
  define S where "S = (\<lambda>k c. if chan_src c = p then before i c k else 0)"
  define R where "R = (\<lambda>k c. if chan_dst c = p then before i c k else 0)"
  have IH: "nwp (message i) (S (Suc k)) (R (Suc k)) (concat (map (block i p) [Suc k..<N i])) (\<lambda>d. d = data i (N i) p) (data i (Suc k) p)"
    unfolding S_def R_def by (rule Suc.hyps(1)) (use Suc.hyps(2) k in simp_all)
  have next_S: "S (Suc k) = (case dest i k p of None \<Rightarrow> S k | Some q \<Rightarrow>
      (S k)(Channel (kind i k) p q := Suc (S k (Channel (kind i k) p q))))"
    using assms(2) by (rule_tac ext) (auto simp: S_def before_def uses_def split: option.splits)
  have next_R: "R (Suc k) = (case source i k p of None \<Rightarrow> R k | Some q \<Rightarrow>
      (R k)(Channel (kind i k) q p := Suc (R k (Channel (kind i k) q p))))"
    using assms(2) by (rule_tac ext) (auto simp: R_def before_def uses_source [OF assms(1) k] split: option.splits)
  have sent: "message i (Channel (kind i k) p q) (S k (Channel (kind i k) p q)) (out i k p (data i k p))" if "dest i k p = Some q" for q
    using that k assms(2) by (auto simp: message_def S_def uses_def intro: exI [of _ k])
  have got: "m = out i k q (data i k q)"
    if src: "source i k p = Some q" and m: "message i (Channel (kind i k) q p) (R k (Channel (kind i k) q p)) m" for q m
  proof -
    obtain l where l: "l < N i" "uses i (Channel (kind i k) q p) l" "before i (Channel (kind i k) q p) l = before i (Channel (kind i k) q p) k"
      "m = out i l q (data i l q)"
      using m by (auto simp: message_def R_def)
    have "uses i (Channel (kind i k) q p) k" using src assms(2) by (simp add: uses_source [OF assms(1) k])
    then have "l = k" using before_inj l(2,3) by blast
    then show ?thesis using l(4) by simp
  qed
  have "nwp (message i) (S k) (R k) (block i p k @ concat (map (block i p) [Suc k..<N i])) (\<lambda>d. d = data i (N i) p) (data i k p)"
    using IH sent got unfolding next_S next_R
    by (cases "dest i k p"; cases "source i k p") (auto simp: block_def round_block_def)
  then show ?case by (simp add: upt_conv_Cons [OF k] S_def R_def)
qed simp

end

sublocale rounds \<subseteq> numbered ok procs prog lvl message "\<lambda>i p d. d = data i (N i) p" d0
proof unfold_locales
  fix i p assume "ok i" "p \<in> procs i"
  then show "nwp (message i) (\<lambda>_. 0) (\<lambda>_. 0) (prog i p) (\<lambda>d. d = data i (N i) p) (d0 i p)"
    using rounds_nwp [of i p 0] by (simp add: prog_def cong: if_cong)
qed

end
