(* ===== verification/Rank_Rounds.thy ===== *)
theory Rank_Rounds
  imports Rounds
begin

text \<open>
  Rounds between the ranks of a communicator. The collectives name processes by rank; the communicator says
  which process is behind a rank. The locale \<open>rank_rounds\<close> restates \<open>rounds\<close> for ranks.
\<close>

definition rank_in :: "int list \<Rightarrow> int \<Rightarrow> int" where
  "rank_in vs p = int (length (takeWhile (\<lambda>q. q \<noteq> p) vs))"

lemma rank_in_range: "p \<in> set vs \<Longrightarrow> 0 \<le> rank_in vs p \<and> rank_in vs p < int (length vs) \<and> vs ! nat (rank_in vs p) = p"
  by (induction vs) (auto simp: rank_in_def nat_add_distrib)

lemma rank_in_nth: "distinct vs \<Longrightarrow> 0 \<le> r \<Longrightarrow> r < int (length vs) \<Longrightarrow> rank_in vs (vs ! nat r) = r"
proof -
  assume a: "distinct vs" "0 \<le> r" "r < int (length vs)"
  let ?q = "rank_in vs (vs ! nat r)"
  have "vs ! nat r \<in> set vs" using a by simp
  then have "0 \<le> ?q" "?q < int (length vs)" "vs ! nat ?q = vs ! nat r" using rank_in_range by blast+
  then have "nat ?q = nat r" using a nth_eq_iff_index_eq [OF a(1), of "nat ?q" "nat r"] by simp
  then show ?thesis using \<open>0 \<le> ?q\<close> a(2) by simp
qed

text \<open>The communicator as a member sees it, and what the member does in a round.\<close>

definition member :: "comm_kind \<Rightarrow> int list \<Rightarrow> int \<Rightarrow> coll_comm" where
  "member kd vs p = \<lparr>c_kind = kd, c_rank = rank_in vs p, c_size = int (length vs), vcr = vs\<rparr>"

definition rank_block ::
  "('a) coll_comm_scheme \<Rightarrow> int option \<Rightarrow> int option \<Rightarrow> ('d \<Rightarrow> 'm) \<Rightarrow> ('m \<Rightarrow> 'd \<Rightarrow> 'd) \<Rightarrow> ('m, 'd) action list" where
  "rank_block c dst src f g = round_block (c_kind c) (vcr c ! nat (c_rank c))
     (map_option (\<lambda>t. vcr c ! nat t) dst) (map_option (\<lambda>t. vcr c ! nat t) src) f g"

definition rank_ok :: "('a) coll_comm_scheme \<Rightarrow> bool" where
  "rank_ok c \<longleftrightarrow> 0 \<le> c_rank c \<and> c_rank c < c_size c \<and> c_size c = int (length (vcr c))"

lemma rank_ok_member [simp]: "p \<in> set vs \<Longrightarrow> rank_ok (member kd vs p)"
  using rank_in_range [of p vs] by (simp add: rank_ok_def member_def)

lemma rd_at: "0 \<le> i \<Longrightarrow> i < int (length a) \<Longrightarrow> rd a i = Some (a ! nat i)"
  by (simp add: rd_def)

lemma MPIC_blocks:
  assumes "rank_ok c" "0 \<le> t" "t < c_size c"
  shows "MPIC_Send f t c = Some (rank_block c (Some t) None f g)"
    "MPIC_Recv g t c = Some (rank_block c None (Some t) f g)"
    "0 \<le> u \<Longrightarrow> u < c_size c \<Longrightarrow> MPIC_Sendrecv f t g u c = Some (rank_block c (Some t) (Some u) f g)"
  using assms by (simp_all add: rank_ok_def MPIC_Send_def MPIC_Recv_def MPIC_Sendrecv_def to_rank_def from_rank_def
    rank_block_def round_block_def rd_at del: rd_eq_Some)

lemma rank_block_none [simp]: "rank_block c None None f g = []"
  by (simp add: rank_block_def round_block_def)

locale rank_rounds =
  fixes ok :: "'i \<Rightarrow> bool"
    and kd :: "'i \<Rightarrow> comm_kind"
    and vs :: "'i \<Rightarrow> int list"
    and N :: "'i \<Rightarrow> nat"
    and dst :: "'i \<Rightarrow> nat \<Rightarrow> int \<Rightarrow> int option"
    and src :: "'i \<Rightarrow> nat \<Rightarrow> int \<Rightarrow> int option"
    and sent :: "'i \<Rightarrow> nat \<Rightarrow> int \<Rightarrow> 'd \<Rightarrow> 'm"
    and got :: "'i \<Rightarrow> nat \<Rightarrow> int \<Rightarrow> 'm \<Rightarrow> 'd \<Rightarrow> 'd"
    and init :: "'i \<Rightarrow> int \<Rightarrow> 'd"
  assumes distinct_procs: "ok i \<Longrightarrow> distinct (vs i)"
    and dst_receives: "ok i \<Longrightarrow> k < N i \<Longrightarrow> 0 \<le> r \<Longrightarrow> r < int (length (vs i)) \<Longrightarrow> dst i k r = Some t \<Longrightarrow>
      0 \<le> t \<and> t < int (length (vs i)) \<and> src i k t = Some r"
    and src_sends: "ok i \<Longrightarrow> k < N i \<Longrightarrow> 0 \<le> r \<Longrightarrow> r < int (length (vs i)) \<Longrightarrow> src i k r = Some t \<Longrightarrow>
      0 \<le> t \<and> t < int (length (vs i)) \<and> dst i k t = Some r"
begin

abbreviation proc :: "'i \<Rightarrow> int \<Rightarrow> int" where "proc i r \<equiv> vs i ! nat r"

abbreviation rank :: "'i \<Rightarrow> int \<Rightarrow> int" where "rank i p \<equiv> rank_in (vs i) p"

lemma rank_mem: "p \<in> set (vs i) \<Longrightarrow> 0 \<le> rank i p \<and> rank i p < int (length (vs i)) \<and> proc i (rank i p) = p"
  by (rule rank_in_range)

lemma rank_proc: "ok i \<Longrightarrow> 0 \<le> r \<Longrightarrow> r < int (length (vs i)) \<Longrightarrow> rank i (proc i r) = r"
  using rank_in_nth distinct_procs by blast

end

sublocale rank_rounds \<subseteq> rounds ok "\<lambda>i. set (vs i)" "\<lambda>i k. kd i" N
  "\<lambda>i k p. map_option (proc i) (dst i k (rank i p))" "\<lambda>i k p. map_option (proc i) (src i k (rank i p))"
  "\<lambda>i k p. sent i k (rank i p)" "\<lambda>i k p. got i k (rank i p)" "\<lambda>i p. init i (rank i p)"
proof unfold_locales
  fix i k p q
  assume a: "ok i" "k < N i" "p \<in> set (vs i)"
  note r = rank_mem [OF a(3)]
  show "map_option (proc i) (dst i k (rank i p)) = Some q \<Longrightarrow>
      q \<in> set (vs i) \<and> map_option (proc i) (src i k (rank i q)) = Some p"
    using r dst_receives [OF a(1,2), of "rank i p"] rank_proc [OF a(1)] by (auto simp: nth_mem nat_less_iff)
  show "map_option (proc i) (src i k (rank i p)) = Some q \<Longrightarrow>
      q \<in> set (vs i) \<and> map_option (proc i) (dst i k (rank i q)) = Some p"
    using r src_sends [OF a(1,2), of "rank i p"] rank_proc [OF a(1)] by (auto simp: nth_mem nat_less_iff)
qed simp

context rank_rounds
begin

abbreviation state :: "'i \<Rightarrow> nat \<Rightarrow> int \<Rightarrow> 'd" where
  "state i k r \<equiv> lockstep (src i) (sent i) (got i) (init i) k r"

lemma data_state:
  assumes "ok i" "k \<le> N i" "p \<in> set (vs i)"
  shows "data i k p = state i k (rank i p)"
  using assms(2,3)
proof (induction k arbitrary: p)
  case (Suc k)
  note r = rank_mem [OF Suc.prems(2)]
  show ?case
  proof (cases "src i k (rank i p)")
    case None
    then show ?thesis using Suc by simp
  next
    case (Some t)
    then have "0 \<le> t" "t < int (length (vs i))" using src_sends [OF assms(1), of k "rank i p" t] Suc.prems r by auto
    then have "data i k (proc i t) = state i k t" "rank i (proc i t) = t"
      using Suc.IH [of "proc i t"] Suc.prems(1) rank_proc [OF assms(1)] by simp_all
    then show ?thesis using Some Suc by simp
  qed
qed simp

text \<open>The code of a member, and what the members end with.\<close>

definition member_code :: "'i \<Rightarrow> int \<Rightarrow> ('m, 'd) action list" where
  "member_code i p = (if p \<in> set (vs i) then
     joined (\<lambda>k. rank_block (member (kd i) (vs i) p) (dst i k (rank i p)) (src i k (rank i p)) (sent i k (rank i p)) (got i k (rank i p)))
       (N i) else [])"

lemma member_prog: "prog i p = member_code i p"
proof (cases "p \<in> set (vs i)")
  case True
  then have "block i p = (\<lambda>k. rank_block (member (kd i) (vs i) p) (dst i k (rank i p)) (src i k (rank i p)) (sent i k (rank i p)) (got i k (rank i p)))"
    using rank_mem [OF True] by (simp add: fun_eq_iff block_def rank_block_def member_def)
  then show ?thesis using True by (simp add: prog_def member_code_def)
qed (simp add: prog_def member_code_def)

lemma member_result:
  assumes "ok i" "reachable (set (vs i)) (member_code i) eager (\<lambda>p. init i (rank i p)) s" "p \<in> set (vs i)" "returned (member_code i) s p"
  shows "dat s p = state i (N i) (rank i p)"
proof -
  have P: "prog i = member_code i" using member_prog by blast
  show ?thesis using numbered_post [of i eager s p, unfolded P] assms data_state [OF assms(1) order_refl assms(3)] by simp
qed

lemma member_completes:
  assumes "ok i"
  shows "(quiet_step (set (vs i)) (member_code i) eager ^^ n) (net_init d) s \<Longrightarrow>
      \<nexists>t. quiet_step (set (vs i)) (member_code i) eager s t \<Longrightarrow> finished (set (vs i)) (member_code i) s"
    "(quiet_step (set (vs i)) (member_code i) eager ^^ n) (net_init d) s \<Longrightarrow>
      n \<le> length (vs i) + (\<Sum>p\<in>set (vs i). length (member_code i p))"
    "\<exists>n s. (quiet_step (set (vs i)) (member_code i) eager ^^ n) (net_init d) s \<and> finished (set (vs i)) (member_code i) s"
proof -
  have P: "prog i = member_code i" using member_prog by blast
  show "(quiet_step (set (vs i)) (member_code i) eager ^^ n) (net_init d) s \<Longrightarrow>
      \<nexists>t. quiet_step (set (vs i)) (member_code i) eager s t \<Longrightarrow> finished (set (vs i)) (member_code i) s"
    using completes [OF assms, of n eager d s, unfolded P] by blast
  show "(quiet_step (set (vs i)) (member_code i) eager ^^ n) (net_init d) s \<Longrightarrow>
      n \<le> length (vs i) + (\<Sum>p\<in>set (vs i). length (member_code i p))"
    using run_bounded [OF assms, of n eager d s, unfolded P] distinct_card [OF distinct_procs [OF assms]] by simp
  show "\<exists>n s. (quiet_step (set (vs i)) (member_code i) eager ^^ n) (net_init d) s \<and> finished (set (vs i)) (member_code i) s"
    using full_run [OF assms, of eager d, unfolded P] by blast
qed

end

end
