(* ===== verification/Allreduce.thy ===== *)
theory Allreduce
  imports Rank_Rounds
begin

text \<open>
  \<open>MPIR_Allreduce_intra_flat\<close> of \<open>src/mpi/msmpi/mpid/reduce.cpp\<close>: processes beyond a power of two hand their data
  to a neighbour, the others combine theirs by recursive doubling or by a reduce-scatter and an
  allgather, and the neighbours hand the result back. Buffers are lists of elements of the datatype, so
  that an address is the number of an element; a reduction operation works element by element, as
  MPI requires of it. Only numbers that are not negative are divided. The computing that follows a receive is part of the operation that waits for it.
\<close>

unbundle bit_operations_syntax

subsection \<open>Reduction operations\<close>

datatype MPID_Op_kind =
    MPID_OP_NULL | MPID_OP_MAX | MPID_OP_MIN | MPID_OP_SUM | MPID_OP_PROD | MPID_OP_LAND | MPID_OP_BAND
  | MPID_OP_LOR | MPID_OP_BOR | MPID_OP_LXOR | MPID_OP_BXOR | MPID_OP_MINLOC | MPID_OP_MAXLOC
  | MPID_OP_REPLACE | MPID_OP_NOOP | MPID_OP_USER_NONCOMMUTE | MPID_OP_USER

record 'v MPID_Op =
  user_function :: "'v \<Rightarrow> 'v \<Rightarrow> 'v"
  op_kind :: MPID_Op_kind

definition IsCommutative :: "'v MPID_Op \<Rightarrow> bool" where
  "IsCommutative op \<longleftrightarrow> op_kind op \<noteq> MPID_OP_USER_NONCOMMUTE \<and> op_kind op \<noteq> MPID_OP_NOOP \<and> op_kind op \<noteq> MPID_OP_REPLACE"

definition IsBuiltin :: "'v MPID_Op \<Rightarrow> bool" where
  "IsBuiltin op \<longleftrightarrow> op_kind op \<noteq> MPID_OP_USER_NONCOMMUTE \<and> op_kind op \<noteq> MPID_OP_USER"

text \<open>What \<open>inoutvec\<close> holds afterwards.\<close>

definition MPID_Uop_call :: "'v MPID_Op \<Rightarrow> 'v list \<Rightarrow> 'v list \<Rightarrow> 'v list" where
  "MPID_Uop_call op invec inoutvec = map2 (user_function op) invec inoutvec"

subsection \<open>Buffers\<close>

record 'v buffers =
  recvbuf :: "'v list"
  tmp_buf :: "'v list"

type_synonym 'v buffer_code = "('v list, 'v buffers) action list option"

text \<open>A part of a buffer, by its first element and the number of elements.\<close>

definition part :: "int \<Rightarrow> int \<Rightarrow> 'v list \<Rightarrow> 'v list" where
  "part first n xs = take (nat n) (drop (nat first) xs)"

definition set_part :: "int \<Rightarrow> 'v list \<Rightarrow> 'v list \<Rightarrow> 'v list" where
  "set_part first ys xs = take (nat first) xs @ ys @ drop (nat first + length ys) xs"

definition in_buffer :: "int \<Rightarrow> int \<Rightarrow> int \<Rightarrow> bool" where
  "in_buffer count first n \<longleftrightarrow> 0 \<le> first \<and> 0 \<le> n \<and> first + n \<le> count"

text \<open>Send a part of \<open>recvbuf\<close>; receive into a part of \<open>recvbuf\<close>.\<close>

definition send_part :: "int \<Rightarrow> int \<Rightarrow> 'v buffers \<Rightarrow> 'v list" where
  "send_part first n b = part first n (recvbuf b)"

definition recv_part :: "int \<Rightarrow> 'v list \<Rightarrow> 'v buffers \<Rightarrow> 'v buffers" where
  "recv_part first m b = b\<lparr>recvbuf := set_part first m (recvbuf b)\<rparr>"

text \<open>Receive into a part of \<open>tmp_buf\<close> and combine it with the same part of \<open>recvbuf\<close>.\<close>

definition reduce_part :: "'v MPID_Op \<Rightarrow> int \<Rightarrow> int \<Rightarrow> 'v list \<Rightarrow> 'v buffers \<Rightarrow> 'v buffers" where
  "reduce_part op first n m b =
     (let b = b\<lparr>tmp_buf := set_part first m (tmp_buf b)\<rparr>
      in b\<lparr>recvbuf := set_part first (MPID_Uop_call op (part first n (tmp_buf b)) (part first n (recvbuf b))) (recvbuf b)\<rparr>)"

text \<open>The other order: combine into \<open>tmp_buf\<close> and copy that back.\<close>

definition reduce_swapped :: "'v MPID_Op \<Rightarrow> 'v list \<Rightarrow> 'v buffers \<Rightarrow> 'v buffers" where
  "reduce_swapped op m b =
     (let b = b\<lparr>tmp_buf := set_part 0 m (tmp_buf b)\<rparr>;
          b = b\<lparr>tmp_buf := MPID_Uop_call op (recvbuf b) (tmp_buf b)\<rparr>
      in b\<lparr>recvbuf := tmp_buf b\<rparr>)"

subsection \<open>Allreduce\<close>

definition real_rank :: "int \<Rightarrow> int \<Rightarrow> int" where
  "real_rank rem newdst = (if newdst < rem then newdst * 2 + 1 else newdst + rem)"

text \<open>Recursive doubling, from \<open>m\<close> on.\<close>

partial_function (option) doubling_loop ::
  "('a) coll_comm_scheme \<Rightarrow> 'v MPID_Op \<Rightarrow> int \<Rightarrow> int \<Rightarrow> int \<Rightarrow> int \<Rightarrow> int \<Rightarrow> 'v buffer_code" where
  "doubling_loop c op count pof2 rem newrank m =
     (if m < pof2 then do {
        let newdst = newrank XOR m;
        let dst = real_rank rem newdst;
        xs \<leftarrow> MPIC_Sendrecv (send_part 0 count) dst
          (if IsCommutative op \<or> dst < c_rank c then reduce_part op 0 count else reduce_swapped op) dst c;
        rest \<leftarrow> doubling_loop c op count pof2 rem newrank (i32 (m * 2));
        Some (xs @ rest)
      } else Some [])"

declare doubling_loop.simps [code]

text \<open>The variables of the reduce-scatter and the allgather.\<close>

record chunk_vars =
  send_idx :: int
  recv_idx :: int
  last_idx :: int
  idx_shift :: int

text \<open>How many elements the chunks from \<open>a\<close> up to \<open>b\<close> have, where the last chunk has the remainder too.\<close>

definition chunk_count :: "int \<Rightarrow> int \<Rightarrow> int \<Rightarrow> int \<Rightarrow> int" where
  "chunk_count count pof2 a b = (b - a) * (count div pof2)"

definition end_count :: "int \<Rightarrow> int \<Rightarrow> chunk_vars \<Rightarrow> int" where
  "end_count count pof2 v = (if last_idx v = pof2 then count mod pof2 else 0)"

partial_function (option) reduce_scatter_loop ::
  "('a) coll_comm_scheme \<Rightarrow> 'v MPID_Op \<Rightarrow> int \<Rightarrow> int \<Rightarrow> int \<Rightarrow> int \<Rightarrow> int \<Rightarrow> chunk_vars \<Rightarrow>
    (('v list, 'v buffers) action list \<times> int \<times> chunk_vars) option" where
  "reduce_scatter_loop c op count pof2 rem newrank m v =
     (if m < pof2 then do {
        let newdst = newrank XOR m;
        let dst = real_rank rem newdst;
        let v = (if newrank < newdst then v\<lparr>send_idx := recv_idx v + idx_shift v\<rparr>
                 else v\<lparr>recv_idx := send_idx v + idx_shift v\<rparr>);
        let send_cnt = (if newrank < newdst then chunk_count count pof2 (send_idx v) (last_idx v) + end_count count pof2 v
                 else chunk_count count pof2 (send_idx v) (recv_idx v));
        let recv_cnt = (if newrank < newdst then chunk_count count pof2 (recv_idx v) (send_idx v)
                 else chunk_count count pof2 (recv_idx v) (last_idx v) + end_count count pof2 v);
        let send_at = count div pof2 * send_idx v;
        let recv_at = count div pof2 * recv_idx v;
        if in_buffer count send_at send_cnt \<and> in_buffer count recv_at recv_cnt then do {
          xs \<leftarrow> MPIC_Sendrecv (send_part send_at send_cnt) dst (reduce_part op recv_at recv_cnt) dst c;
          let v = v\<lparr>send_idx := recv_idx v\<rparr>;
          let m = i32 (m * 2);
          let v = (if m < pof2 then v\<lparr>last_idx := recv_idx v + idx_shift v, idx_shift := drop_bit 1 (idx_shift v)\<rparr> else v);
          (rest, w) \<leftarrow> reduce_scatter_loop c op count pof2 rem newrank m v;
          Some (xs @ rest, w)
        } else None
      } else Some ([], m, v))"

declare reduce_scatter_loop.simps [code]

partial_function (option) allgather_loop ::
  "('a) coll_comm_scheme \<Rightarrow> int \<Rightarrow> int \<Rightarrow> int \<Rightarrow> int \<Rightarrow> int \<Rightarrow> chunk_vars \<Rightarrow> 'v buffer_code" where
  "allgather_loop c count pof2 rem newrank m v =
     (if m > 0 then do {
        let newdst = newrank XOR m;
        let dst = real_rank rem newdst;
        let v = (if newrank < newdst \<and> m \<noteq> drop_bit 1 pof2 then v\<lparr>last_idx := last_idx v + idx_shift v\<rparr> else v);
        let v = (if newrank < newdst then v\<lparr>recv_idx := send_idx v + idx_shift v\<rparr>
                 else v\<lparr>recv_idx := send_idx v - idx_shift v\<rparr>);
        let send_cnt = (if newrank < newdst then chunk_count count pof2 (send_idx v) (recv_idx v)
                 else chunk_count count pof2 (send_idx v) (last_idx v) + end_count count pof2 v);
        let recv_cnt = (if newrank < newdst then chunk_count count pof2 (recv_idx v) (last_idx v) + end_count count pof2 v
                 else chunk_count count pof2 (recv_idx v) (send_idx v));
        let send_at = count div pof2 * send_idx v;
        let recv_at = count div pof2 * recv_idx v;
        if in_buffer count send_at send_cnt \<and> in_buffer count recv_at recv_cnt then do {
          xs \<leftarrow> MPIC_Sendrecv (send_part send_at send_cnt) dst (recv_part recv_at) dst c;
          let v = (if newrank > newdst then v\<lparr>send_idx := recv_idx v\<rparr> else v);
          rest \<leftarrow> allgather_loop c count pof2 rem newrank (drop_bit 1 m) (v\<lparr>idx_shift := push_bit 1 (idx_shift v)\<rparr>);
          Some (xs @ rest)
        } else None
      } else Some [])"

declare allgather_loop.simps [code]

definition reduce_scatter_allgather ::
  "('a) coll_comm_scheme \<Rightarrow> 'v MPID_Op \<Rightarrow> int \<Rightarrow> int \<Rightarrow> int \<Rightarrow> int \<Rightarrow> 'v buffer_code" where
  "reduce_scatter_allgather c op count pof2 rem newrank = do {
     (xs, m, v) \<leftarrow> reduce_scatter_loop c op count pof2 rem newrank 1
       \<lparr>send_idx = 0, recv_idx = 0, last_idx = pof2, idx_shift = drop_bit 1 pof2\<rparr>;
     ys \<leftarrow> allgather_loop c count pof2 rem newrank (drop_bit 1 m) v;
     Some (xs @ ys)
   }"

text \<open>The two exchanges with the neighbour, before and after.\<close>

definition fold_in :: "('a) coll_comm_scheme \<Rightarrow> 'v MPID_Op \<Rightarrow> int \<Rightarrow> int \<Rightarrow> (('v list, 'v buffers) action list \<times> int) option" where
  "fold_in c op count rem =
     (if c_rank c < 2 * rem then
        if even (c_rank c)
        then do { xs \<leftarrow> MPIC_Send (send_part 0 count) (c_rank c + 1) c; Some (xs, - 1) }
        else do { xs \<leftarrow> MPIC_Recv (reduce_part op 0 count) (c_rank c - 1) c; Some (xs, c_rank c div 2) }
      else Some ([], c_rank c - rem))"

definition fold_out :: "('a) coll_comm_scheme \<Rightarrow> int \<Rightarrow> int \<Rightarrow> 'v buffer_code" where
  "fold_out c count rem =
     (if c_rank c < 2 * rem then
        if odd (c_rank c)
        then MPIC_Send (send_part 0 count) (c_rank c - 1) c
        else MPIC_Recv (recv_part 0) (c_rank c + 1) c
      else Some [])"

definition MPIR_Allreduce_intra_flat ::
  "int \<Rightarrow> int \<Rightarrow> ('a) coll_comm_scheme \<Rightarrow> 'v MPID_Op \<Rightarrow> int \<Rightarrow> 'v buffer_code" where
  "MPIR_Allreduce_intra_flat type_size MPIR_allreduce_short_msg c op count =
     (if count = 0 then Some []
      else do {
        let pof2 = PowerOf2Floor (c_size c);
        let rem = c_size c - pof2;
        (xs, newrank) \<leftarrow> fold_in c op count rem;
        ys \<leftarrow> (if newrank \<ge> 0 then
                 if count * type_size mod 2 ^ 32 \<le> MPIR_allreduce_short_msg \<or> \<not> IsBuiltin op \<or> count < pof2
                 then doubling_loop c op count pof2 rem newrank 1
                 else reduce_scatter_allgather c op count pof2 rem newrank
               else Some []);
        zs \<leftarrow> fold_out c count rem;
        Some (xs @ ys @ zs)
      })"

text \<open>The buffers when the communication starts: the data of the caller in \<open>recvbuf\<close> (a \<open>None\<close> for
\<open>sendbuf\<close> is \<open>MPI_IN_PLACE\<close>) and anything in \<open>tmp_buf\<close>.\<close>

definition allreduce_start :: "'v list option \<Rightarrow> 'v list \<Rightarrow> 'v list \<Rightarrow> 'v buffers" where
  "allreduce_start sendbuf rbuf tmp = \<lparr>recvbuf = (case sendbuf of None \<Rightarrow> rbuf | Some b \<Rightarrow> b), tmp_buf = tmp\<rparr>"

end
