(* ===== verification/Allreduce_Code.thy ===== *)
theory Allreduce_Code
  imports Allreduce
begin

text \<open>
  The code of \<open>MPIR_Allreduce_intra_flat\<close> in closed form: what each rank does in each round.
\<close>

unbundle bit_operations_syntax

subsection \<open>Ranks in the power of two\<close>

abbreviation levels :: "int \<Rightarrow> nat" where "levels n \<equiv> BitScanReverse n"

abbreviation spare :: "int \<Rightarrow> int" where "spare n \<equiv> n - 2 ^ levels n"

definition new_rank :: "int \<Rightarrow> int \<Rightarrow> int" where
  "new_rank n r = (if r < 2 * spare n then if even r then - 1 else r div 2 else r - spare n)"

lemma levels_bounds: "0 < n \<Longrightarrow> 2 ^ levels n \<le> n \<and> n < 2 * 2 ^ levels n"
  using PowerOf2Floor_bounds [of n] by (simp add: PowerOf2Floor_power)

lemma new_rank_range:
  assumes "0 < n" "0 \<le> r" "r < n"
  shows "new_rank n r < 2 ^ levels n" "new_rank n r \<ge> 0 \<longleftrightarrow> \<not> (r < 2 * spare n \<and> even r)"
  using levels_bounds [OF assms(1)] assms by (auto simp: new_rank_def)

lemma real_new: "0 \<le> new_rank n r \<Longrightarrow> 0 \<le> r \<Longrightarrow> real_rank (spare n) (new_rank n r) = r"
  by (auto simp: new_rank_def real_rank_def split: if_splits; presburger)

lemma new_real: "0 < n \<Longrightarrow> 0 \<le> q \<Longrightarrow> q < 2 ^ levels n \<Longrightarrow>
  new_rank n (real_rank (spare n) q) = q \<and> 0 \<le> real_rank (spare n) q \<and> real_rank (spare n) q < n"
  using levels_bounds [of n] by (auto simp: new_rank_def real_rank_def)

lemma real_rank_less: "q < q' \<Longrightarrow> real_rank rem q < real_rank rem q'"
  by (simp add: real_rank_def)

text \<open>Flipping a bit.\<close>

lemma xor_power: "q XOR 2 ^ b = (if bit q b then q - 2 ^ b else q + 2 ^ b)" for q :: int
proof -
  have "q XOR 2 ^ b = flip_bit b q" by (simp add: flip_bit_eq_xor push_bit_of_1)
  moreover have "flip_bit b q = (if bit q b then q - 2 ^ b else q + 2 ^ b)"
  proof (cases "bit q b")
    case True
    have "q = set_bit b (unset_bit b q)" using True by (intro bit_eqI) (auto simp: bit_simps)
    also have "\<dots> = unset_bit b q + 2 ^ b" by (subst set_bit_eq) (simp add: bit_simps)
    finally show ?thesis using True by (simp add: flip_bit_eq_if)
  next
    case False
    then show ?thesis by (simp add: flip_bit_eq_if set_bit_eq)
  qed
  ultimately show ?thesis by simp
qed

lemma xor_power_range:
  fixes q :: int
  assumes "0 \<le> q" "q < 2 ^ L" "b < L"
  shows "0 \<le> q XOR 2 ^ b" "q XOR 2 ^ b < 2 ^ L"
proof -
  show "0 \<le> q XOR 2 ^ b" using assms(1) by (simp add: xor_nonnegative_int_iff)
  have "take_bit L q = q" using assms by (simp add: take_bit_int_eq_self_iff)
  then have "take_bit L (q XOR 2 ^ b) = q XOR 2 ^ b" using assms(3) by (simp add: take_bit_xor take_bit_of_exp)
  then show "q XOR 2 ^ b < 2 ^ L" by (metis take_bit_int_less_exp)
qed

lemma xor_power_bit: "bit (q XOR 2 ^ b) b \<longleftrightarrow> \<not> bit q b" "b \<noteq> b' \<Longrightarrow> bit (q XOR 2 ^ b) b' \<longleftrightarrow> bit q b'" for q :: int
  by (auto simp: bit_xor_iff bit_exp_iff)

definition peer :: "int \<Rightarrow> nat \<Rightarrow> int \<Rightarrow> int option" where
  "peer n b r = (if new_rank n r < 0 then None else Some (real_rank (spare n) (new_rank n r XOR 2 ^ b)))"

lemma peer_sym:
  assumes "0 < n" "0 \<le> r" "r < n" "b < levels n" "peer n b r = Some t"
  shows "0 \<le> t" "t < n" "peer n b t = Some r" "new_rank n t = new_rank n r XOR 2 ^ b"
proof -
  let ?q = "new_rank n r"
  have q: "0 \<le> ?q" "?q < 2 ^ levels n" "t = real_rank (spare n) (?q XOR 2 ^ b)"
    using assms new_rank_range [OF assms(1-3)] by (auto simp: peer_def split: if_splits)
  note x = xor_power_range [OF q(1,2) assms(4)]
  have t: "new_rank n t = ?q XOR 2 ^ b" "0 \<le> t" "t < n" using new_real [OF assms(1) x] q(3) by simp_all
  show "0 \<le> t" "t < n" "new_rank n t = ?q XOR 2 ^ b" by (fact t)+
  have "(?q XOR 2 ^ b) XOR 2 ^ b = ?q" by (simp add: xor.assoc)
  then show "peer n b t = Some r" using t x(1) real_new [OF q(1) assms(2)] by (simp add: peer_def)
qed

subsection \<open>The rounds\<close>

text \<open>Where the part of the buffer starts that a rank has after \<open>k\<close> halvings, in chunks; the two halves of
that part, by first element and number of elements.\<close>

primrec seg :: "nat \<Rightarrow> int \<Rightarrow> nat \<Rightarrow> int" where
  "seg L q 0 = 0"
| "seg L q (Suc k) = seg L q k + (if bit q k then 2 ^ (L - 1 - k) else 0)"

definition half_at :: "int \<Rightarrow> nat \<Rightarrow> int \<Rightarrow> nat \<Rightarrow> bool \<Rightarrow> int" where
  "half_at count L q b up = count div 2 ^ L * (seg L q b + (if up then 2 ^ (L - 1 - b) else 0))"

definition half_count :: "int \<Rightarrow> nat \<Rightarrow> int \<Rightarrow> nat \<Rightarrow> bool \<Rightarrow> int" where
  "half_count count L q b up =
     2 ^ (L - 1 - b) * (count div 2 ^ L) + (if up \<and> seg L q b + 2 ^ (L - b) = 2 ^ L then count mod 2 ^ L else 0)"

text \<open>The rounds: folding in, the middle, folding out; \<open>long\<close> for a reduce-scatter and an allgather.\<close>

definition mid_rounds :: "bool \<Rightarrow> int \<Rightarrow> nat" where
  "mid_rounds long n = (if long then 2 * levels n else levels n)"

definition round_bit :: "int \<Rightarrow> nat \<Rightarrow> nat" where
  "round_bit n j = (if j < levels n then j else 2 * levels n - 1 - j)"

definition up_neighbour :: "int \<Rightarrow> int \<Rightarrow> int option" where
  "up_neighbour n r = (if r < 2 * spare n \<and> even r then Some (r + 1) else None)"

definition down_neighbour :: "int \<Rightarrow> int \<Rightarrow> int option" where
  "down_neighbour n r = (if r < 2 * spare n \<and> odd r then Some (r - 1) else None)"

definition ar_dst :: "bool \<Rightarrow> int \<Rightarrow> nat \<Rightarrow> int \<Rightarrow> int option" where
  "ar_dst long n k r =
     (if k = 0 then up_neighbour n r
      else if k \<le> mid_rounds long n then peer n (round_bit n (k - 1)) r else down_neighbour n r)"

definition ar_src :: "bool \<Rightarrow> int \<Rightarrow> nat \<Rightarrow> int \<Rightarrow> int option" where
  "ar_src long n k r =
     (if k = 0 then down_neighbour n r
      else if k \<le> mid_rounds long n then peer n (round_bit n (k - 1)) r else up_neighbour n r)"

definition mid_sent :: "bool \<Rightarrow> int \<Rightarrow> int \<Rightarrow> nat \<Rightarrow> int \<Rightarrow> 'v buffers \<Rightarrow> 'v list" where
  "mid_sent long n count j r =
     (let q = new_rank n r; b = round_bit n j; up = (if j < levels n then \<not> bit q b else bit q b)
      in if long then send_part (half_at count (levels n) q b up) (half_count count (levels n) q b up)
         else send_part 0 count)"

definition mid_got :: "bool \<Rightarrow> int \<Rightarrow> 'v MPID_Op \<Rightarrow> int \<Rightarrow> nat \<Rightarrow> int \<Rightarrow> 'v list \<Rightarrow> 'v buffers \<Rightarrow> 'v buffers" where
  "mid_got long n op count j r =
     (let q = new_rank n r; b = round_bit n j; up = (if j < levels n then bit q b else \<not> bit q b)
      in if \<not> long then (if IsCommutative op \<or> bit q b then reduce_part op 0 count else reduce_swapped op)
         else if j < levels n then reduce_part op (half_at count (levels n) q b up) (half_count count (levels n) q b up)
         else recv_part (half_at count (levels n) q b up))"

definition ar_sent :: "bool \<Rightarrow> int \<Rightarrow> int \<Rightarrow> nat \<Rightarrow> int \<Rightarrow> 'v buffers \<Rightarrow> 'v list" where
  "ar_sent long n count k r =
     (if k = 0 then send_part 0 count else if k \<le> mid_rounds long n then mid_sent long n count (k - 1) r else send_part 0 count)"

definition ar_got :: "bool \<Rightarrow> int \<Rightarrow> 'v MPID_Op \<Rightarrow> int \<Rightarrow> nat \<Rightarrow> int \<Rightarrow> 'v list \<Rightarrow> 'v buffers \<Rightarrow> 'v buffers" where
  "ar_got long n op count k r =
     (if k = 0 then reduce_part op 0 count
      else if k \<le> mid_rounds long n then mid_got long n op count (k - 1) r else recv_part 0)"

lemma neighbours: "0 \<le> r \<Longrightarrow> up_neighbour n r = Some t \<longleftrightarrow> 0 \<le> t \<and> down_neighbour n t = Some r"
  unfolding up_neighbour_def down_neighbour_def by (auto; presburger)

lemma round_bit_less: "j < mid_rounds long n \<Longrightarrow> round_bit n j < levels n"
  by (auto simp: mid_rounds_def round_bit_def split: if_splits)

lemma ar_match:
  assumes "0 < n" "0 \<le> r" "r < n"
  shows "ar_dst long n k r = Some t \<Longrightarrow> 0 \<le> t \<and> t < n \<and> ar_src long n k t = Some r"
    "ar_src long n k r = Some t \<Longrightarrow> 0 \<le> t \<and> t < n \<and> ar_dst long n k t = Some r"
proof -
  have range: "up_neighbour n r = Some t \<Longrightarrow> t < n" "down_neighbour n r = Some t \<Longrightarrow> 0 \<le> t \<and> t < n"
    using levels_bounds [OF assms(1)] assms by (auto simp: up_neighbour_def down_neighbour_def split: if_splits; presburger)+
  have ret: "down_neighbour n r = Some t \<Longrightarrow> up_neighbour n t = Some r"
    using range(2) neighbours [of t n r] assms(2) by blast
  show "ar_dst long n k r = Some t \<Longrightarrow> 0 \<le> t \<and> t < n \<and> ar_src long n k t = Some r"
    using range ret neighbours [OF assms(2), of n t] peer_sym [OF assms round_bit_less, of "k - 1" long t]
    by (auto simp: ar_dst_def ar_src_def split: if_splits)
  show "ar_src long n k r = Some t \<Longrightarrow> 0 \<le> t \<and> t < n \<and> ar_dst long n k t = Some r"
    using range ret neighbours [OF assms(2), of n t] peer_sym [OF assms round_bit_less, of "k - 1" long t]
    by (auto simp: ar_dst_def ar_src_def split: if_splits)
qed

subsection \<open>The loops\<close>

abbreviation mid_block :: "('a) coll_comm_scheme \<Rightarrow> bool \<Rightarrow> 'v MPID_Op \<Rightarrow> int \<Rightarrow> nat \<Rightarrow> ('v list, 'v buffers) action list" where
  "mid_block c long op count j \<equiv>
     rank_block c (peer (c_size c) (round_bit (c_size c) j) (c_rank c)) (peer (c_size c) (round_bit (c_size c) j) (c_rank c))
       (mid_sent long (c_size c) count j (c_rank c)) (mid_got long (c_size c) op count j (c_rank c))"

lemma rank_okD: "rank_ok c \<Longrightarrow> 0 \<le> c_rank c" "rank_ok c \<Longrightarrow> c_rank c < c_size c" "rank_ok c \<Longrightarrow> 0 < c_size c"
  unfolding rank_ok_def by linarith+

lemma int_power_double: "k < levels n \<Longrightarrow> 0 < n \<Longrightarrow> n < 2 ^ 31 \<Longrightarrow> i32 (2 ^ k * 2) = 2 ^ Suc k"
proof -
  assume a: "k < levels n" "0 < n" "n < 2 ^ 31"
  have "(2 :: int) ^ Suc k \<le> 2 ^ levels n" using a(1) by (intro power_increasing) simp_all
  then have "(2 :: int) ^ k * 2 < 2 ^ 31" using levels_bounds [OF a(2)] a(3) by simp
  then show ?thesis by (subst i32_id) (auto intro: order_trans [of _ 0])
qed

lemma sendrecv_peer:
  assumes "rank_ok c" "0 \<le> new_rank (c_size c) (c_rank c)" "b < levels (c_size c)"
  defines "t \<equiv> real_rank (spare (c_size c)) (new_rank (c_size c) (c_rank c) XOR 2 ^ b)"
  shows "MPIC_Sendrecv f t g t c = Some (rank_block c (peer (c_size c) b (c_rank c)) (peer (c_size c) b (c_rank c)) f g)"
    "t < c_rank c \<longleftrightarrow> bit (new_rank (c_size c) (c_rank c)) b"
proof -
  have c: "0 < c_size c" "0 \<le> c_rank c" "c_rank c < c_size c" using rank_okD [OF assms(1)] by simp_all
  have p: "peer (c_size c) b (c_rank c) = Some t" using assms(2) by (simp add: peer_def t_def)
  show "MPIC_Sendrecv f t g t c = Some (rank_block c (peer (c_size c) b (c_rank c)) (peer (c_size c) b (c_rank c)) f g)"
    unfolding p by (rule MPIC_blocks(3) [OF assms(1)]; rule peer_sym(1,2) [OF c assms(3) p])
  let ?q = "new_rank (c_size c) (c_rank c)"
  have "t < c_rank c \<longleftrightarrow> ?q XOR 2 ^ b < ?q"
    using real_new [OF assms(2) c(2)] real_rank_less [of "?q XOR 2 ^ b" ?q "spare (c_size c)"]
      real_rank_less [of ?q "?q XOR 2 ^ b" "spare (c_size c)"] unfolding t_def by (metis not_less_iff_gr_or_eq)
  then show "t < c_rank c \<longleftrightarrow> bit ?q b" by (simp add: xor_power)
qed

lemma doubling_loop_block:
  assumes c: "rank_ok c" "c_size c < 2 ^ 31" "0 \<le> new_rank (c_size c) (c_rank c)" and k: "k \<le> levels (c_size c)"
  shows "doubling_loop c op count (2 ^ levels (c_size c)) (spare (c_size c)) (new_rank (c_size c) (c_rank c)) (2 ^ k) =
    Some (concat (map (mid_block c False op count) [k..<levels (c_size c)]))"
  using k
proof (induction "levels (c_size c) - k" arbitrary: k)
  case 0
  then show ?case by (subst doubling_loop.simps) simp
next
  case (Suc m)
  have k: "k < levels (c_size c)" using Suc.hyps(2) by simp
  have n: "0 < c_size c" by (rule rank_okD(3) [OF c(1)])
  have rest: "doubling_loop c op count (2 ^ levels (c_size c)) (spare (c_size c)) (new_rank (c_size c) (c_rank c)) (2 ^ Suc k) =
    Some (concat (map (mid_block c False op count) [Suc k..<levels (c_size c)]))"
    by (rule Suc.hyps(1)) (use Suc.hyps(2) k in simp_all)
  have lt: "(2 :: int) ^ k < 2 ^ levels (c_size c)" using k by (simp add: power_strict_increasing_iff)
  show ?case
    unfolding upt_conv_Cons [OF k]
    by (subst doubling_loop.simps)
      (simp add: lt sendrecv_peer [OF c(1,3) k] int_power_double [OF k n c(2)] rest [simplified] round_bit_def k mid_sent_def mid_got_def)
qed

text \<open>The variables of the reduce-scatter before its round \<open>k\<close>.\<close>

definition scatter_vars :: "nat \<Rightarrow> int \<Rightarrow> nat \<Rightarrow> chunk_vars" where
  "scatter_vars L q k = \<lparr>send_idx = seg L q k, recv_idx = seg L q k,
     last_idx = (if k < L then seg L q k + 2 ^ (L - k) else seg L q (L - 1) + 2), idx_shift = 2 ^ (L - 1 - k)\<rparr>"

lemma seg_range: "k \<le> L \<Longrightarrow> 0 \<le> seg L q k \<and> seg L q k + 2 ^ (L - k) \<le> 2 ^ L"
proof (induction k)
  case (Suc k)
  define h where "h = (2 :: int) ^ (L - 1 - k)"
  have "(2 :: int) ^ (L - k) = 2 * h" "0 < h" "(2 :: int) ^ (L - Suc k) = h"
    using Suc.prems by (cases "L - k"; simp add: h_def)+
  then show ?case using Suc by auto
qed simp

lemma half_power: "b < L \<Longrightarrow> (2 :: int) ^ (L - b) = 2 * 2 ^ (L - 1 - b)"
  by (cases "L - b") simp_all

lemma half_in_buffer:
  assumes "b < L" "0 \<le> count"
  shows "in_buffer count (half_at count L q b up) (half_count count L q b up)"
proof -
  define h where "h = (2 :: int) ^ (L - 1 - b)"
  define d where "d = count div 2 ^ L"
  define e where "e = count mod 2 ^ L"
  have h: "0 < h" "(2 :: int) ^ (L - b) = 2 * h" using half_power [OF assms(1)] by (simp_all add: h_def)
  have s: "0 \<le> seg L q b" "seg L q b + 2 * h \<le> 2 ^ L" using seg_range [of b L q] h assms(1) by simp_all
  have d: "0 \<le> d" "0 \<le> e" "d * 2 ^ L + e = count"
    using assms(2) div_mult_mod_eq [of count "2 ^ L"] by (simp_all add: d_def e_def pos_imp_zdiv_nonneg_iff)
  have le: "d * (seg L q b + (if up then h else 0) + h) \<le> d * 2 ^ L"
    using s h d(1) by (intro mult_left_mono) auto
  show ?thesis
    using le d s(1) h unfolding in_buffer_def half_at_def half_count_def h_def [symmetric] d_def [symmetric] e_def [symmetric]
    by (auto simp: algebra_simps)
qed

lemma half_counts:
  assumes "b < L"
  shows "chunk_count count (2 ^ L) (seg L q b) (seg L q b + 2 ^ (L - 1 - b)) = half_count count L q b False"
    "last_idx v = seg L q b + 2 ^ (L - b) \<Longrightarrow>
      chunk_count count (2 ^ L) (seg L q b + 2 ^ (L - 1 - b)) (last_idx v) + end_count count (2 ^ L) v = half_count count L q b True"
  using half_power [OF assms] by (simp_all add: chunk_count_def end_count_def half_count_def)

lemma reduce_scatter_loop_block:
  assumes c: "rank_ok c" "c_size c < 2 ^ 31" "0 \<le> new_rank (c_size c) (c_rank c)" "0 \<le> count" and k: "k \<le> levels (c_size c)"
  defines "q \<equiv> new_rank (c_size c) (c_rank c)" and "L \<equiv> levels (c_size c)"
  shows "reduce_scatter_loop c op count (2 ^ L) (spare (c_size c)) q (2 ^ k) (scatter_vars L q k) =
    Some (concat (map (mid_block c True op count) [k..<L]), 2 ^ L, scatter_vars L q L)"
  using k
proof (induction "L - k" arbitrary: k)
  case 0
  then show ?case by (subst reduce_scatter_loop.simps) (simp add: L_def)
next
  case (Suc m)
  have k: "k < L" using Suc.hyps(2) by simp
  then have kl: "k < levels (c_size c)" by (simp add: L_def)
  have n: "0 < c_size c" by (rule rank_okD(3) [OF c(1)])
  have rest: "reduce_scatter_loop c op count (2 ^ L) (spare (c_size c)) q (2 ^ Suc k) (scatter_vars L q (Suc k)) =
    Some (concat (map (mid_block c True op count) [Suc k..<L]), 2 ^ L, scatter_vars L q L)"
    by (rule Suc.hyps(1)) (use Suc.hyps(2) k in \<open>simp_all add: L_def\<close>)
  have lt: "(2 :: int) ^ k < 2 ^ L" using k by (simp add: power_strict_increasing_iff)
  have bit: "q < q XOR 2 ^ k \<longleftrightarrow> \<not> bit q k" by (simp add: xor_power)
  define h where "h = (2 :: int) ^ (L - 1 - k)"
  define S where "S = seg L q k"
  have power: "2 ^ (L - k) = 2 * h" "i32 (2 ^ k * 2) = 2 ^ Suc k" "2 ^ Suc k < (2 :: int) ^ L \<longleftrightarrow> Suc k < L"
    using half_power [OF k] int_power_double [OF kl n c(2)] power_strict_increasing_iff [of "2 :: int" "Suc k" L] by (simp_all add: h_def)
  have v: "scatter_vars L q k = \<lparr>send_idx = S, recv_idx = S, last_idx = S + 2 * h, idx_shift = h\<rparr>"
    using k power by (simp add: scatter_vars_def S_def h_def)
  define T where "T = S + (if bit q k then h else 0)"
  have next_v: "scatter_vars L q (Suc k) = (if Suc k < L
      then \<lparr>send_idx = T, recv_idx = T, last_idx = T + h, idx_shift = drop_bit 1 h\<rparr>
      else \<lparr>send_idx = T, recv_idx = T, last_idx = S + 2 * h, idx_shift = h\<rparr>)"
  proof (cases "Suc k < L")
    case True
    then have "L - 1 - k = Suc (L - 1 - Suc k)" "L - Suc k = Suc (L - 1 - Suc k)" by simp_all
    then have "drop_bit 1 h = 2 ^ (L - 1 - Suc k)" "h = 2 ^ (L - Suc k)" by (simp_all add: h_def drop_bit_eq_div del: diff_Suc_eq_diff_pred)
    then show ?thesis using True by (simp add: scatter_vars_def T_def S_def h_def)
  next
    case False
    then have "L = Suc k" using k by simp
    then show ?thesis by (simp add: scatter_vars_def T_def S_def h_def)
  qed
  have counts: "chunk_count count (2 ^ L) S (S + h) = half_count count L q k False"
    "last_idx v = S + 2 * h \<Longrightarrow> chunk_count count (2 ^ L) (S + h) (S + 2 * h) + end_count count (2 ^ L) v = half_count count L q k True" for v
    using half_counts [where count = count and q = q, OF k] power(1) by (simp_all add: S_def h_def)
  have at: "count div 2 ^ L * S = half_at count L q k False" "count div 2 ^ L * (S + h) = half_at count L q k True"
    by (simp_all add: half_at_def S_def h_def)
  note inb = half_in_buffer [OF k c(4), of q True] half_in_buffer [OF k c(4), of q False]
  note run = sendrecv_peer(1) [OF c(1) c(3) kl, folded q_def L_def]
  have first: "mid_block c True op count k = rank_block c (peer (c_size c) k (c_rank c)) (peer (c_size c) k (c_rank c))
      (send_part (half_at count L q k (\<not> bit q k)) (half_count count L q k (\<not> bit q k)))
      (reduce_part op (half_at count L q k (bit q k)) (half_count count L q k (bit q k)))"
    using kl by (simp add: round_bit_def mid_sent_def mid_got_def q_def L_def Let_def)
  show ?case
    unfolding upt_conv_Cons [OF k] reduce_scatter_loop.simps [of c op count "2 ^ L" "spare (c_size c)" q "2 ^ k"] v list.map first
    using rest
    by (cases "bit q k"; cases "Suc k < L") (simp_all add: lt bit counts at inb run power(2,3) next_v T_def Let_def L_def [symmetric] del: power_Suc)
qed

text \<open>The variables of the allgather when the parts of \<open>t\<close> halvings are still to be joined.\<close>

definition gather_vars :: "nat \<Rightarrow> int \<Rightarrow> nat \<Rightarrow> chunk_vars \<Rightarrow> bool" where
  "gather_vars L q t v \<longleftrightarrow> send_idx v = seg L q t \<and> idx_shift v = 2 ^ (L - t) \<and>
     last_idx v = (if t = L then seg L q (L - 1) + 2 else seg L q t + 2 ^ (L - t))"

lemma allgather_loop_block:
  assumes c: "rank_ok c" "c_size c < 2 ^ 31" "0 \<le> new_rank (c_size c) (c_rank c)" "0 \<le> count"
  defines "q \<equiv> new_rank (c_size c) (c_rank c)" and "L \<equiv> levels (c_size c)"
  assumes t: "t \<le> L" "0 < t \<longrightarrow> gather_vars L q t v"
  shows "allgather_loop c count (2 ^ L) (spare (c_size c)) q (if t = 0 then 0 else 2 ^ (t - 1)) v =
    Some (concat (map (mid_block c True op count) [2 * L - t..<2 * L]))"
  using t
proof (induction t arbitrary: v)
  case 0
  then show ?case by (subst allgather_loop.simps) simp
next
  case (Suc b)
  have b: "b < L" using Suc.prems(1) by simp
  then have bl: "b < levels (c_size c)" by (simp add: L_def)
  define h where "h = (2 :: int) ^ (L - 1 - b)"
  define S where "S = seg L q b"
  define m' where "m' = (if b = 0 then 0 else (2 :: int) ^ (b - 1))"
  have power: "2 ^ (L - b) = 2 * h" "0 < (2 :: int) ^ b" "drop_bit 1 (2 ^ L) = (2 :: int) ^ (L - 1)"
    "drop_bit 1 ((2 :: int) ^ b) = m'" "(2 :: int) ^ b = 2 ^ (L - 1) \<longleftrightarrow> Suc b = L"
    using half_power [OF b] b by (simp_all add: h_def m'_def drop_bit_eq_div power_inject_exp) (cases L; cases b; simp)+
  have v: "send_idx v = S + (if bit q b then h else 0)" "idx_shift v = h"
    "last_idx v = (if Suc b = L \<or> bit q b then S + 2 * h else S + h)"
    using Suc.prems b by (auto simp: gather_vars_def S_def h_def)
  have bit: "q < q XOR 2 ^ b \<longleftrightarrow> \<not> bit q b" "q XOR 2 ^ b < q \<longleftrightarrow> bit q b" by (simp_all add: xor_power)
  have counts: "chunk_count count (2 ^ L) S (S + h) = half_count count L q b False"
    "last_idx v = S + 2 * h \<Longrightarrow> chunk_count count (2 ^ L) (S + h) (S + 2 * h) + end_count count (2 ^ L) v = half_count count L q b True"
    "last_idx v = 2 * h + S \<Longrightarrow> chunk_count count (2 ^ L) (S + h) (2 * h + S) + end_count count (2 ^ L) v = half_count count L q b True" for v
    using half_counts [where count = count and q = q, OF b] power(1) by (simp_all add: S_def h_def add.commute)
  have at: "count div 2 ^ L * S = half_at count L q b False" "count div 2 ^ L * (S + h) = half_at count L q b True"
    by (simp_all add: half_at_def S_def h_def)
  note inb = half_in_buffer [OF b c(4), of q True] half_in_buffer [OF b c(4), of q False]
  note run = sendrecv_peer(1) [OF c(1) c(3) bl, folded q_def L_def]
  define j where "j = 2 * L - Suc b"
  have j: "2 * L - Suc b = j" "Suc j = 2 * L - b" "j < 2 * L" "\<not> j < L" "2 * L - 1 - j = b" using b by (simp_all add: j_def)
  have first: "mid_block c True op count j = rank_block c (peer (c_size c) b (c_rank c)) (peer (c_size c) b (c_rank c))
      (send_part (half_at count L q b (bit q b)) (half_count count L q b (bit q b)))
      (recv_part (half_at count L q b (\<not> bit q b)))"
    using j by (simp add: round_bit_def mid_sent_def mid_got_def q_def L_def Let_def)
  have shift: "push_bit 1 h = 2 ^ (L - b)" using power(1) by (simp add: push_bit_eq_mult)
  have rest: "allgather_loop c count (2 ^ L) (c_size c - 2 ^ L) q m' w =
      Some (concat (map (mid_block c True op count) [Suc j..<2 * L]))"
    if w: "send_idx w = S" "idx_shift w = push_bit 1 h" "last_idx w = S + 2 * h \<or> last_idx w = 2 * h + S" for w
  proof -
    have "gather_vars L q b w" using w b shift power(1) by (auto simp: gather_vars_def S_def)
    then show ?thesis using Suc.IH [of w] b unfolding j(2) m'_def L_def by simp
  qed
  have m: "(if Suc b = 0 then 0 else 2 ^ (Suc b - 1)) = (2 :: int) ^ b" by simp
  show ?case
    unfolding m j(1) upt_conv_Cons [OF j(3)] allgather_loop.simps [of c count "2 ^ L" "spare (c_size c)" q "2 ^ b" v] list.map first
    using inb
    by (cases "bit q b"; cases "Suc b = L")
      (simp_all add: bit counts at run power(2-5) rest v Let_def L_def [symmetric] del: One_nat_def)
qed

subsection \<open>The whole code\<close>

definition takes_long :: "int \<Rightarrow> int \<Rightarrow> int \<Rightarrow> 'v MPID_Op \<Rightarrow> int \<Rightarrow> bool" where
  "takes_long type_size short_msg n op count \<longleftrightarrow>
     \<not> (count * type_size mod 2 ^ 32 \<le> short_msg \<or> \<not> IsBuiltin op \<or> count < 2 ^ levels n)"

lemma reduce_scatter_allgather_block:
  assumes "rank_ok c" "c_size c < 2 ^ 31" "0 \<le> new_rank (c_size c) (c_rank c)" "0 \<le> count"
  shows "reduce_scatter_allgather c op count (2 ^ levels (c_size c)) (spare (c_size c)) (new_rank (c_size c) (c_rank c)) =
    Some (concat (map (mid_block c True op count) [0..<2 * levels (c_size c)]))"
proof -
  let ?L = "levels (c_size c)" and ?q = "new_rank (c_size c) (c_rank c)"
  have half: "drop_bit 1 (2 ^ ?L) = (if ?L = 0 then 0 else (2 :: int) ^ (?L - 1))"
    by (cases ?L) (simp_all add: drop_bit_eq_div)
  have start: "?L \<noteq> 0 \<Longrightarrow> \<lparr>send_idx = 0, recv_idx = 0, last_idx = 2 ^ ?L, idx_shift = drop_bit 1 (2 ^ ?L)\<rparr> = scatter_vars ?L ?q 0"
    unfolding half by (simp add: scatter_vars_def)
  have scatter: "reduce_scatter_loop c op count (2 ^ ?L) (spare (c_size c)) ?q 1
      \<lparr>send_idx = 0, recv_idx = 0, last_idx = 2 ^ ?L, idx_shift = drop_bit 1 (2 ^ ?L)\<rparr> =
    Some (concat (map (mid_block c True op count) [0..<?L]), 2 ^ ?L,
      if ?L = 0 then \<lparr>send_idx = 0, recv_idx = 0, last_idx = 2 ^ ?L, idx_shift = drop_bit 1 (2 ^ ?L)\<rparr> else scatter_vars ?L ?q ?L)"
  proof (cases "?L = 0")
    case True
    then show ?thesis by (subst reduce_scatter_loop.simps) simp
  next
    case False
    then show ?thesis using reduce_scatter_loop_block [OF assms, of 0 op] unfolding start [OF False] by simp
  qed
  have gather: "allgather_loop c count (2 ^ ?L) (spare (c_size c)) ?q (drop_bit 1 (2 ^ ?L)) v =
      Some (concat (map (mid_block c True op count) [?L..<2 * ?L]))" if "?L \<noteq> 0 \<longrightarrow> v = scatter_vars ?L ?q ?L" for v
    unfolding half using allgather_loop_block [OF assms, of ?L v op] that by (simp add: gather_vars_def scatter_vars_def)
  have "[0..<2 * ?L] = [0..<?L] @ [?L..<2 * ?L]" using upt_add_eq_append [of 0 ?L ?L] by (simp add: mult_2)
  then show ?thesis using scatter gather by (simp add: reduce_scatter_allgather_def)
qed

lemma MPIR_Allreduce_intra_flat_block:
  fixes op :: "'v MPID_Op" and type_size short_msg count :: int
  assumes c: "rank_ok c" "c_size c < 2 ^ 31" and count: "0 < count"
  defines "n \<equiv> c_size c" and "r \<equiv> c_rank c"
  defines "long \<equiv> takes_long type_size short_msg n op count"
  shows "MPIR_Allreduce_intra_flat type_size short_msg c op count =
    Some (joined (\<lambda>k. rank_block c (ar_dst long n k r) (ar_src long n k r) (ar_sent long n count k r) (ar_got long n op count k r))
      (mid_rounds long n + 2))"
proof -
  let ?T = "mid_rounds long n" and ?q = "new_rank n r"
  let ?B = "\<lambda>k. rank_block c (ar_dst long n k r) (ar_src long n k r) (ar_sent long n count k r) (ar_got long n op count k r)"
  have n: "0 < n" "0 \<le> r" "r < n" using rank_okD [OF c(1)] by (simp_all add: n_def r_def)
  note b = levels_bounds [OF n(1)]
  have pof2: "PowerOf2Floor n = 2 ^ levels n" by (rule PowerOf2Floor_power)
  have near: "r < 2 * spare n \<Longrightarrow> r + 1 < n" "odd r \<Longrightarrow> 0 \<le> r - 1" using n b by (simp_all, presburger)
  note calls = MPIC_blocks(1,2) [OF c(1), folded n_def, where f = "send_part 0 count :: 'v buffers \<Rightarrow> 'v list"]
  have first: "fold_in c op count (spare n) = Some (?B 0, ?q)"
    using n near calls [where g = "reduce_part op 0 count"]
    by (auto simp: fold_in_def ar_dst_def ar_src_def ar_sent_def ar_got_def up_neighbour_def down_neighbour_def new_rank_def
        n_def [symmetric] r_def [symmetric])
  have final: "fold_out c count (spare n) = Some (?B (Suc ?T))"
    using n near calls [where g = "recv_part 0 :: 'v list \<Rightarrow> 'v buffers \<Rightarrow> 'v buffers"]
    by (auto simp: fold_out_def ar_dst_def ar_src_def ar_sent_def ar_got_def up_neighbour_def down_neighbour_def
        n_def [symmetric] r_def [symmetric])
  have mid: "?B (Suc j) = mid_block c long op count j" if "j < ?T" for j
    using that by (simp add: ar_dst_def ar_src_def ar_sent_def ar_got_def n_def r_def)
  have middle: "(if ?q \<ge> 0 then
       if count * type_size mod 2 ^ 32 \<le> short_msg \<or> \<not> IsBuiltin op \<or> count < 2 ^ levels n
       then doubling_loop c op count (2 ^ levels n) (spare n) ?q 1
       else reduce_scatter_allgather c op count (2 ^ levels n) (spare n) ?q
     else Some []) = Some (concat (map (\<lambda>j. ?B (Suc j)) [0..<?T]))"
  proof -
    have all: "map (\<lambda>j. ?B (Suc j)) [0..<?T] = map (mid_block c long op count) [0..<?T]"
      by (rule map_cong [OF refl]) (rule mid, simp)
    have none: "concat (map (mid_block c long op count) [0..<?T]) = []" if "\<not> ?q \<ge> 0"
      using that by (simp add: peer_def n_def r_def)
    show ?thesis
      unfolding all
      using none doubling_loop_block [OF c, of 0 op count] reduce_scatter_allgather_block [OF c, of count op] count
      unfolding long_def takes_long_def mid_rounds_def n_def r_def by auto
  qed
  have "joined ?B (?T + 2) = ?B 0 @ concat (map (\<lambda>j. ?B (Suc j)) [0..<?T]) @ ?B (Suc ?T)"
  proof -
    have "[0..<?T + 2] = 0 # map Suc [0..<Suc ?T]" by (simp add: upt_conv_Cons map_Suc_upt del: upt_Suc)
    then show ?thesis by (simp add: comp_def)
  qed
  then show ?thesis
    using first middle final count unfolding MPIR_Allreduce_intra_flat_def n_def [symmetric] pof2 by simp
qed

end
