(* ===== verification/Allreduce_Data.thy ===== *)
theory Allreduce_Data
  imports Allreduce_Code
begin

text \<open>
  What the rounds of an allreduce do to the buffers: folds over ranges of ranks, parts of buffers, and the
  two ways to combine them.
\<close>

unbundle bit_operations_syntax

subsection \<open>Folds over a range of ranks\<close>

text \<open>The values of \<open>m + 1\<close> ranks from \<open>a\<close> on, combined in the order of the ranks.\<close>

primrec fold_range :: "('v \<Rightarrow> 'v \<Rightarrow> 'v) \<Rightarrow> (int \<Rightarrow> 'v) \<Rightarrow> int \<Rightarrow> nat \<Rightarrow> 'v" where
  "fold_range f y a 0 = y a"
| "fold_range f y a (Suc m) = f (fold_range f y a m) (y (a + int m + 1))"

definition assoc_op :: "('v \<Rightarrow> 'v \<Rightarrow> 'v) \<Rightarrow> bool" where
  "assoc_op f \<longleftrightarrow> (\<forall>x y z. f (f x y) z = f x (f y z))"

lemma fold_range_join:
  assumes "assoc_op f"
  shows "f (fold_range f y a m) (fold_range f y (a + int m + 1) l) = fold_range f y a (m + l + 1)"
proof (induction l)
  case (Suc l)
  have "f (fold_range f y a m) (fold_range f y (a + int m + 1) (Suc l)) =
      f (f (fold_range f y a m) (fold_range f y (a + int m + 1) l)) (y (a + int m + 1 + int l + 1))"
    using assms by (simp add: assoc_op_def)
  then show ?case using Suc by (simp add: algebra_simps)
qed simp

lemma fold_range_cong: "(\<And>r. a \<le> r \<Longrightarrow> r \<le> a + int m \<Longrightarrow> x r = y r) \<Longrightarrow> fold_range f x a m = fold_range f y a m"
  by (induction m) simp_all

text \<open>The combination of the aligned block of \<open>2 ^ j\<close> ranks with \<open>q\<close> in it, as the rounds build it.\<close>

primrec block_fold :: "('v \<Rightarrow> 'v \<Rightarrow> 'v) \<Rightarrow> (int \<Rightarrow> 'v) \<Rightarrow> nat \<Rightarrow> int \<Rightarrow> 'v" where
  "block_fold f y 0 q = y q"
| "block_fold f y (Suc j) q = (if bit q j then f (block_fold f y j (q - 2 ^ j)) (block_fold f y j q)
     else f (block_fold f y j q) (block_fold f y j (q + 2 ^ j)))"

lemma mod_Suc_power: "q mod (2 * 2 ^ j) = q mod 2 ^ j + (if bit q j then 2 ^ j else 0)" for q :: int
  using take_bit_Suc_from_most [of j q] by (simp add: take_bit_eq_mod)

lemma block_fold_range:
  assumes "assoc_op f"
  shows "block_fold f y j q = fold_range f y (q - q mod 2 ^ j) (2 ^ j - 1)"
proof (induction j arbitrary: q)
  case (Suc j)
  let ?p = "2 ^ j :: int"
  have one: "(1 :: nat) \<le> 2 ^ j" by simp
  have size: "int (2 ^ j - 1) = ?p - 1" "2 ^ j - 1 + (2 ^ j - 1) + 1 = (2 :: nat) ^ Suc j - 1"
    using one unfolding power_Suc by (simp add: of_nat_diff, arith)
  define a where "a = q - q mod 2 ^ Suc j"
  have "block_fold f y (Suc j) q = f (fold_range f y a (2 ^ j - 1)) (fold_range f y (a + ?p) (2 ^ j - 1))"
  proof (cases "bit q j")
    case True
    then have "q - ?p - (q - ?p) mod ?p = a" "q - q mod ?p = a + ?p" by (simp_all add: a_def mod_Suc_power)
    then show ?thesis by (simp only: block_fold.simps True if_True Suc)
  next
    case False
    then have "q + ?p - (q + ?p) mod ?p = a + ?p" "q - q mod ?p = a" by (simp_all add: a_def mod_Suc_power)
    then show ?thesis by (simp only: block_fold.simps False if_False Suc)
  qed
  also have "\<dots> = fold_range f y a (2 ^ Suc j - 1)"
    using fold_range_join [OF assms, of y a "2 ^ j - 1" "2 ^ j - 1"] unfolding size by simp
  finally show ?case by (simp only: a_def)
qed simp

lemma block_fold_all:
  assumes "assoc_op f" "0 \<le> q" "q < 2 ^ L"
  shows "block_fold f y L q = fold_range f y 0 (2 ^ L - 1)"
  using block_fold_range [OF assms(1), of y L q] assms(2,3) by simp

text \<open>The combination of the ranks that take part, where the first ones stand for a pair each.\<close>

definition paired :: "('v \<Rightarrow> 'v \<Rightarrow> 'v) \<Rightarrow> int \<Rightarrow> (int \<Rightarrow> 'v) \<Rightarrow> int \<Rightarrow> 'v" where
  "paired f rem x q = (if q < rem then f (x (2 * q)) (x (2 * q + 1)) else x (q + rem))"

lemma fold_paired:
  assumes "assoc_op f" "0 \<le> rem"
  shows "fold_range f (paired f rem x) 0 m = fold_range f x 0 (if int m < rem then 2 * m + 1 else m + nat rem)"
proof (induction m)
  case 0
  show ?case using assms(2) by (auto simp: paired_def)
next
  case (Suc m)
  consider "int (Suc m) < rem" | "int (Suc m) = rem" | "int m \<ge> rem" by linarith
  then show ?case
  proof cases
    case 1
    have "fold_range f x 0 (2 * Suc m + 1) = f (fold_range f x 0 (2 * m + 1)) (f (x (2 * int (Suc m))) (x (2 * int (Suc m) + 1)))"
      using assms(1) by (simp add: assoc_op_def algebra_simps)
    then show ?thesis using 1 Suc by (simp add: paired_def algebra_simps)
  next
    case 2
    then have rem: "rem = int m + 1" by simp
    have "paired f rem x (0 + int m + 1) = x (0 + int (2 * m + 1) + 1)" unfolding rem by (simp add: paired_def algebra_simps)
    then have "fold_range f (paired f rem x) 0 (Suc m) = f (fold_range f x 0 (2 * m + 1)) (x (0 + int (2 * m + 1) + 1))"
      using 2 Suc by simp
    moreover have "Suc m + nat rem = Suc (2 * m + 1)" using 2 by simp
    ultimately show ?thesis using 2 by (simp only: fold_range.simps(2) less_irrefl if_False)
  next
    case 3
    then have "Suc m + nat rem = Suc (m + nat rem)" "int (m + nat rem) + 1 = int (Suc m) + rem" using assms(2) by simp_all
    then show ?thesis using 3 Suc by (simp add: paired_def algebra_simps)
  qed
qed

subsection \<open>Parts of buffers\<close>

lemma set_part_length: "0 \<le> first \<Longrightarrow> nat first + length ys \<le> length xs \<Longrightarrow> length (set_part first ys xs) = length xs"
  by (simp add: set_part_def)

lemma set_part_nth:
  "nat first + length ys \<le> length xs \<Longrightarrow> e < length xs \<Longrightarrow>
   set_part first ys xs ! e = (if nat first \<le> e \<and> e < nat first + length ys then ys ! (e - nat first) else xs ! e)"
  by (cases "e < nat first"; cases "e < nat first + length ys") (auto simp: set_part_def nth_append min_def)

lemma part_length: "nat first + nat n \<le> length xs \<Longrightarrow> length (part first n xs) = nat n"
  by (simp add: part_def)

lemma part_nth: "nat first + nat n \<le> length xs \<Longrightarrow> e < nat n \<Longrightarrow> part first n xs ! e = xs ! (nat first + e)"
  by (simp add: part_def)

lemma part_nth_from:
  "nat first + nat n \<le> length xs \<Longrightarrow> nat first \<le> e \<Longrightarrow> e < nat first + nat n \<Longrightarrow> part first n xs ! (e - nat first) = xs ! e"
  using part_nth [of first n xs "e - nat first"] by simp

lemma part_all: "length xs = nat n \<Longrightarrow> part 0 n xs = xs"
  by (simp add: part_def)

definition full :: "int \<Rightarrow> 'v buffers \<Rightarrow> bool" where
  "full count b \<longleftrightarrow> length (recvbuf b) = nat count \<and> length (tmp_buf b) = nat count"

text \<open>Element \<open>e\<close> of \<open>recvbuf\<close>.\<close>

abbreviation at :: "'v buffers \<Rightarrow> nat \<Rightarrow> 'v" where "at b e \<equiv> recvbuf b ! e"

definition within :: "int \<Rightarrow> int \<Rightarrow> nat \<Rightarrow> bool" where
  "within first n e \<longleftrightarrow> first \<le> int e \<and> int e < first + n"

lemma reduce_part_at:
  assumes "in_buffer count first n" "full count b" "full count b'"
  defines "m \<equiv> part first n (recvbuf b')"
  shows "full count (reduce_part op first n m b)"
    "e < nat count \<Longrightarrow> at (reduce_part op first n m b) e =
      (if within first n e then user_function op (at b' e) (at b e) else at b e)"
proof -
  have ranges: "0 \<le> first" "0 \<le> n" "nat first + nat n \<le> nat count" using assms(1) by (auto simp: in_buffer_def)
  have m: "length m = nat n" using ranges assms(3) by (simp add: m_def part_length full_def)
  have t: "part first n (set_part first m (tmp_buf b)) = m"
    using m ranges assms(2) by (intro nth_equalityI) (auto simp: part_length part_nth set_part_length set_part_nth full_def)
  show "full count (reduce_part op first n m b)"
    using m ranges assms(2) t by (auto simp: reduce_part_def full_def Let_def set_part_length part_length MPID_Uop_call_def)
  assume e: "e < nat count"
  have "at (reduce_part op first n m b) e = set_part first (map2 (user_function op) m (part first n (recvbuf b))) (recvbuf b) ! e"
    by (simp add: reduce_part_def Let_def t MPID_Uop_call_def)
  also have "\<dots> = (if within first n e then user_function op (at b' e) (at b e) else at b e)"
  proof (cases "within first n e")
    case True
    then have r: "nat first \<le> e" "e < nat first + nat n" using ranges by (auto simp: within_def)
    have "part first n (recvbuf b) ! (e - nat first) = at b e" "m ! (e - nat first) = at b' e"
      unfolding m_def by (rule part_nth_from [OF _ r]; use ranges assms(2,3) in \<open>simp add: full_def\<close>)+
    moreover have "e - nat first < nat n" using r by simp
    ultimately show ?thesis using True r m ranges assms(2) e by (simp add: set_part_nth part_length full_def)
  next
    case False
    then show ?thesis using m ranges assms(2) e by (auto simp: set_part_nth part_length full_def within_def)
  qed
  finally show "at (reduce_part op first n m b) e = (if within first n e then user_function op (at b' e) (at b e) else at b e)" .
qed

lemma reduce_swapped_at:
  assumes "full count b" "full count b'"
  shows "full count (reduce_swapped op (recvbuf b') b)"
    "e < nat count \<Longrightarrow> at (reduce_swapped op (recvbuf b') b) e = user_function op (at b e) (at b' e)"
  using assms by (simp_all add: reduce_swapped_def full_def Let_def set_part_def MPID_Uop_call_def)

lemma recv_part_at:
  assumes "in_buffer count first n" "full count b" "full count b'"
  defines "m \<equiv> part first n (recvbuf b')"
  shows "full count (recv_part first m b)"
    "e < nat count \<Longrightarrow> at (recv_part first m b) e = (if within first n e then at b' e else at b e)"
proof -
  have ranges: "0 \<le> first" "0 \<le> n" "nat first + nat n \<le> nat count" using assms(1) by (auto simp: in_buffer_def)
  have m: "length m = nat n" using ranges assms(3) by (simp add: m_def part_length full_def)
  show "full count (recv_part first m b)"
    using m ranges assms(2) by (auto simp: recv_part_def full_def set_part_length)
  assume e: "e < nat count"
  show "at (recv_part first m b) e = (if within first n e then at b' e else at b e)"
  proof (cases "within first n e")
    case True
    then have r: "nat first \<le> e" "e < nat first + nat n" using ranges by (auto simp: within_def)
    have "m ! (e - nat first) = at b' e" 
      unfolding m_def by (rule part_nth_from [OF _ r]) (use ranges assms(3) in \<open>simp add: full_def\<close>)
    then show ?thesis using True r m ranges assms(2) e by (simp add: recv_part_def set_part_nth full_def)
  next
    case False
    then show ?thesis using m ranges assms(2) e by (auto simp: recv_part_def set_part_nth full_def within_def)
  qed
qed

subsection \<open>Parts of the reduce-scatter\<close>

definition in_seg :: "int \<Rightarrow> nat \<Rightarrow> int \<Rightarrow> nat \<Rightarrow> nat \<Rightarrow> bool" where
  "in_seg count L q k e \<longleftrightarrow> count div 2 ^ L * seg L q k \<le> int e \<and>
     int e < count div 2 ^ L * (seg L q k + 2 ^ (L - k)) + (if seg L q k + 2 ^ (L - k) = 2 ^ L then count mod 2 ^ L else 0)"

lemma in_seg_0: "0 \<le> count \<Longrightarrow> e < nat count \<Longrightarrow> in_seg count L q 0 e"
  using div_mult_mod_eq [of count "2 ^ L"] by (simp add: in_seg_def mult.commute)

lemma seg_halves:
  assumes "k < L" "0 \<le> count"
  shows "within (half_at count L q k (bit q k)) (half_count count L q k (bit q k)) e \<longleftrightarrow> in_seg count L q (Suc k) e"
    "in_seg count L q k e \<longleftrightarrow> within (half_at count L q k False) (half_count count L q k False) e \<or>
      within (half_at count L q k True) (half_count count L q k True) e"
proof -
  define h where "h = (2 :: int) ^ (L - 1 - k)"
  define d where "d = count div 2 ^ L"
  define r where "r = count mod 2 ^ L"
  define S where "S = seg L q k"
  have h: "0 < h" "(2 :: int) ^ (L - k) = 2 * h" "(2 :: int) ^ (L - Suc k) = h"
    using half_power [OF assms(1)] by (simp_all add: h_def)
  have "0 \<le> d" "0 \<le> r" using assms(2) by (simp_all add: d_def r_def pos_imp_zdiv_nonneg_iff)
  then have d: "0 \<le> d * h" "0 \<le> r" using h(1) by simp_all
  have S: "S + 2 * h \<le> 2 ^ L" "S + h \<noteq> 2 ^ L" using seg_range [of k L q] assms(1) h by (auto simp: S_def)
  have seg: "seg L q (Suc k) = S + (if bit q k then h else 0)" by (simp add: S_def h_def)
  note unfolded = within_def half_at_def half_count_def in_seg_def seg d_def [symmetric] r_def [symmetric] S_def [symmetric] h_def [symmetric] h(2,3)
  show "within (half_at count L q k (bit q k)) (half_count count L q k (bit q k)) e \<longleftrightarrow> in_seg count L q (Suc k) e"
    unfolding unfolded using S d by (auto simp: algebra_simps)
  show "in_seg count L q k e \<longleftrightarrow> within (half_at count L q k False) (half_count count L q k False) e \<or>
      within (half_at count L q k True) (half_count count L q k True) e"
    unfolding unfolded using S d by (auto simp: algebra_simps)
qed

lemma seg_xor: "k \<le> b \<Longrightarrow> seg L (q XOR 2 ^ b) k = seg L q k"
  by (induction k) (auto simp: xor_power_bit)

lemma half_xor:
  "half_at count L (q XOR 2 ^ b) b up = half_at count L q b up"
  "half_count count L (q XOR 2 ^ b) b up = half_count count L q b up"
  by (simp_all add: half_at_def half_count_def seg_xor)

end
