(* ===== verification/Allreduce_Result.thy ===== *)
theory Allreduce_Result
  imports Allreduce_Data
begin

text \<open>
  Allreduce ends, and gives every process the combination of all contributions in the order of the ranks.
\<close>

unbundle bit_operations_syntax

subsection \<open>A call of allreduce\<close>

text \<open>What the processes pass to the call: the communicator, and for every rank the buffers it starts with.\<close>

record 'v allreduce =
  ar_kind :: comm_kind
  ar_members :: "int list"
  ar_type_size :: int
  ar_short_msg :: int
  ar_op :: "'v MPID_Op"
  ar_count :: int
  ar_input :: "int \<Rightarrow> 'v buffers"

text \<open>Operations are associative, those that count as commutative are, and the predefined ones that a
reduction accepts count as commutative.\<close>

definition op_laws :: "'v MPID_Op \<Rightarrow> bool" where
  "op_laws op \<longleftrightarrow> assoc_op (user_function op) \<and> (IsBuiltin op \<longrightarrow> IsCommutative op) \<and>
     (IsCommutative op \<longrightarrow> (\<forall>x y. user_function op x y = user_function op y x))"

definition allreduce_ok :: "'v allreduce \<Rightarrow> bool" where
  "allreduce_ok i \<longleftrightarrow> distinct (ar_members i) \<and> ar_members i \<noteq> [] \<and> int (length (ar_members i)) < 2 ^ 31 \<and>
     0 < ar_count i \<and> (\<forall>r. full (ar_count i) (ar_input i r)) \<and> op_laws (ar_op i)"

definition allreduce_program :: "'v allreduce \<Rightarrow> int \<Rightarrow> ('v list, 'v buffers) action list" where
  "allreduce_program i p = (if p \<in> set (ar_members i)
     then the (MPIR_Allreduce_intra_flat (ar_type_size i) (ar_short_msg i) (member (ar_kind i) (ar_members i) p) (ar_op i) (ar_count i))
     else [])"

text \<open>The contributions, combined in the order of the ranks.\<close>

definition reduction :: "'v MPID_Op \<Rightarrow> (nat \<Rightarrow> 'v list) \<Rightarrow> nat \<Rightarrow> 'v list" where
  "reduction op x n = foldl (MPID_Uop_call op) (x 0) (map x [1..<n])"

abbreviation ar_size :: "'v allreduce \<Rightarrow> int" where "ar_size i \<equiv> int (length (ar_members i))"

definition ar_long :: "'v allreduce \<Rightarrow> bool" where
  "ar_long i = takes_long (ar_type_size i) (ar_short_msg i) (ar_size i) (ar_op i) (ar_count i)"

definition ar_rounds :: "'v allreduce \<Rightarrow> nat" where
  "ar_rounds i = mid_rounds (ar_long i) (ar_size i) + 2"

interpretation ar: rank_rounds allreduce_ok ar_kind ar_members ar_rounds
  "\<lambda>i. ar_dst (ar_long i) (ar_size i)" "\<lambda>i. ar_src (ar_long i) (ar_size i)"
  "\<lambda>i. ar_sent (ar_long i) (ar_size i) (ar_count i)" "\<lambda>i. ar_got (ar_long i) (ar_size i) (ar_op i) (ar_count i)" ar_input
proof unfold_locales
  fix i :: "'v allreduce" assume "allreduce_ok i" then show "distinct (ar_members i)" by (simp add: allreduce_ok_def)
next
  fix i :: "'v allreduce" and k r t
  assume r: "0 \<le> r" "r < ar_size i"
  then have n: "0 < ar_size i" by linarith
  show "ar_dst (ar_long i) (ar_size i) k r = Some t \<Longrightarrow> 0 \<le> t \<and> t < ar_size i \<and> ar_src (ar_long i) (ar_size i) k t = Some r"
    by (rule ar_match(1) [OF n r])
  show "ar_src (ar_long i) (ar_size i) k r = Some t \<Longrightarrow> 0 \<le> t \<and> t < ar_size i \<and> ar_dst (ar_long i) (ar_size i) k t = Some r"
    by (rule ar_match(2) [OF n r])
qed

lemma allreduce_code:
  assumes "allreduce_ok i" "p \<in> set (ar_members i)"
  shows "MPIR_Allreduce_intra_flat (ar_type_size i) (ar_short_msg i) (member (ar_kind i) (ar_members i) p) (ar_op i) (ar_count i) =
    Some (ar.member_code i p)"
proof -
  let ?c = "member (ar_kind i) (ar_members i) p"
  have c: "c_size ?c = ar_size i" "c_rank ?c = rank_in (ar_members i) p" by (simp_all add: member_def)
  show ?thesis
    using MPIR_Allreduce_intra_flat_block [of ?c "ar_count i" "ar_type_size i" "ar_short_msg i" "ar_op i"] assms
    unfolding c by (simp add: ar.member_code_def allreduce_ok_def ar_long_def [symmetric] ar_rounds_def del: upt_Suc)
qed

lemma allreduce_program_code: "allreduce_ok i \<Longrightarrow> allreduce_program i = ar.member_code i"
  by (rule ext) (simp add: allreduce_program_def allreduce_code ar.member_code_def)

subsection \<open>The data in the rounds\<close>

abbreviation ar_levels :: "'v allreduce \<Rightarrow> nat" where "ar_levels i \<equiv> levels (ar_size i)"

abbreviation ar_real :: "'v allreduce \<Rightarrow> int \<Rightarrow> int" where "ar_real i q \<equiv> real_rank (spare (ar_size i)) q"

abbreviation ar_f :: "'v allreduce \<Rightarrow> 'v \<Rightarrow> 'v \<Rightarrow> 'v" where "ar_f i \<equiv> user_function (ar_op i)"

abbreviation input_at :: "'v allreduce \<Rightarrow> nat \<Rightarrow> int \<Rightarrow> 'v" where "input_at i e r \<equiv> at (ar_input i r) e"

abbreviation paired_at :: "'v allreduce \<Rightarrow> nat \<Rightarrow> int \<Rightarrow> 'v" where
  "paired_at i e \<equiv> paired (ar_f i) (spare (ar_size i)) (input_at i e)"

lemma okD:
  assumes "allreduce_ok i"
  shows "0 < ar_size i" "0 < ar_count i" "full (ar_count i) (ar_input i r)" "assoc_op (ar_f i)" "0 \<le> spare (ar_size i)"
    "IsCommutative (ar_op i) \<Longrightarrow> ar_f i x y = ar_f i y x" "ar_long i \<Longrightarrow> IsCommutative (ar_op i)"
  using assms levels_bounds [of "ar_size i"] by (auto simp: allreduce_ok_def op_laws_def ar_long_def takes_long_def)

lemma send_whole: "full count b \<Longrightarrow> send_part 0 count b = recvbuf b"
  by (simp add: send_part_def part_all full_def)

lemma whole_in_buffer: "0 < count \<Longrightarrow> in_buffer count 0 count" "e < nat count \<Longrightarrow> within 0 count e"
  by (auto simp: in_buffer_def within_def)

lemma state_fold_in:
  assumes ok: "allreduce_ok i" and q: "0 \<le> q" "q < 2 ^ ar_levels i"
  shows "full (ar_count i) (ar.state i 1 (ar_real i q))"
    "e < nat (ar_count i) \<Longrightarrow> at (ar.state i 1 (ar_real i q)) e = paired_at i e q"
proof -
  note o = okD [OF ok]
  let ?rem = "spare (ar_size i)"
  have src: "ar_src (ar_long i) (ar_size i) 0 (ar_real i q) = (if q < ?rem then Some (2 * q) else None)"
    using q by (auto simp: ar_src_def down_neighbour_def real_rank_def)
  have sent: "ar_sent (ar_long i) (ar_size i) (ar_count i) 0 t b = part 0 (ar_count i) (recvbuf b)" for t b
    by (simp add: ar_sent_def send_part_def)
  have got: "ar_got (ar_long i) (ar_size i) (ar_op i) (ar_count i) 0 r = reduce_part (ar_op i) 0 (ar_count i)" for r
    by (simp add: ar_got_def)
  have new: "ar.state i 1 (ar_real i q) = (if q < ?rem
      then reduce_part (ar_op i) 0 (ar_count i) (part 0 (ar_count i) (recvbuf (ar_input i (2 * q)))) (ar_input i (ar_real i q))
      else ar_input i (ar_real i q))"
    by (simp add: src sent got)
  note red = reduce_part_at [OF whole_in_buffer(1) [OF o(2)] o(3) o(3)]
  show "full (ar_count i) (ar.state i 1 (ar_real i q))"
    unfolding new using red(1) o(3) by simp
  assume e: "e < nat (ar_count i)"
  show "at (ar.state i 1 (ar_real i q)) e = paired_at i e q"
    unfolding new using red(2) [OF e] whole_in_buffer(2) [OF e] by (simp add: paired_def real_rank_def mult.commute)
qed

lemma state_mid:
  assumes ok: "allreduce_ok i" and q: "0 \<le> q" "q < 2 ^ ar_levels i" and j: "j < mid_rounds (ar_long i) (ar_size i)"
  defines "b \<equiv> round_bit (ar_size i) j"
  defines "q' \<equiv> q XOR 2 ^ b"
  shows "0 \<le> q'" "q' < 2 ^ ar_levels i"
    "ar.state i (Suc (Suc j)) (ar_real i q) = mid_got (ar_long i) (ar_size i) (ar_op i) (ar_count i) j (ar_real i q)
      (mid_sent (ar_long i) (ar_size i) (ar_count i) j (ar_real i q') (ar.state i (Suc j) (ar_real i q')))
      (ar.state i (Suc j) (ar_real i q))"
proof -
  show "0 \<le> q'" "q' < 2 ^ ar_levels i"
    using xor_power_range [OF q] round_bit_less [OF j] by (simp_all add: q'_def b_def)
  have "ar_src (ar_long i) (ar_size i) (Suc j) (ar_real i q) = Some (ar_real i q')"
    using new_real [OF okD(1) [OF ok] q] q j by (simp add: ar_src_def peer_def b_def q'_def)
  then show "ar.state i (Suc (Suc j)) (ar_real i q) = mid_got (ar_long i) (ar_size i) (ar_op i) (ar_count i) j (ar_real i q)
      (mid_sent (ar_long i) (ar_size i) (ar_count i) j (ar_real i q') (ar.state i (Suc j) (ar_real i q')))
      (ar.state i (Suc j) (ar_real i q))"
    using j by (simp add: ar_got_def ar_sent_def)
qed

text \<open>Reduction: after \<open>j\<close> rounds of the middle, an element that a rank still looks after is the combination
of an aligned block of \<open>2 ^ j\<close> ranks.\<close>

lemma state_reduced:
  assumes ok: "allreduce_ok i" and j: "j \<le> ar_levels i" and q: "0 \<le> q" "q < 2 ^ ar_levels i"
  shows "full (ar_count i) (ar.state i (Suc j) (ar_real i q)) \<and>
    (\<forall>e<nat (ar_count i). (ar_long i \<longrightarrow> in_seg (ar_count i) (ar_levels i) q j e) \<longrightarrow>
       at (ar.state i (Suc j) (ar_real i q)) e = block_fold (ar_f i) (paired_at i e) j q)"
  using j q
proof (induction j arbitrary: q)
  case 0
  then show ?case using state_fold_in [OF ok 0(2,3)] by simp
next
  case (Suc j)
  note o = okD [OF ok]
  let ?L = "ar_levels i" and ?n = "ar_size i" and ?f = "ar_f i" and ?c = "ar_count i"
  have j: "j < ?L" using Suc.prems(1) by simp
  then have mid: "j < mid_rounds (ar_long i) ?n" "round_bit ?n j = j" by (simp_all add: mid_rounds_def round_bit_def)
  define q' where "q' = q XOR 2 ^ j"
  note step = state_mid [OF ok Suc.prems(2,3) mid(1), unfolded mid(2), folded q'_def]
  let ?b = "ar.state i (Suc j) (ar_real i q)" and ?b' = "ar.state i (Suc j) (ar_real i q')"
  have full: "full ?c ?b" "full ?c ?b'" using Suc.IH [of q] Suc.IH [of q'] Suc.prems step(1,2) by simp_all
  have IH: "at ?b e = block_fold ?f (paired_at i e) j q" "at ?b' e = block_fold ?f (paired_at i e) j q'"
    if "e < nat ?c" "ar_long i \<longrightarrow> in_seg ?c ?L q j e" for e
    using Suc.IH [of q] Suc.IH [of q'] Suc.prems step(1,2) that by (simp_all add: q'_def in_seg_def seg_xor)
  have ranks: "new_rank ?n (ar_real i q) = q" "new_rank ?n (ar_real i q') = q'"
    using new_real [OF o(1)] Suc.prems(2,3) step(1,2) by simp_all
  have q': "q' = (if bit q j then q - 2 ^ j else q + 2 ^ j)" by (simp add: q'_def xor_power)
  have flip: "bit q' j \<longleftrightarrow> \<not> bit q j" unfolding q'_def by (rule xor_power_bit(1))
  have fold: "block_fold ?f y (Suc j) q = (if bit q j then ?f (block_fold ?f y j q') (block_fold ?f y j q)
      else ?f (block_fold ?f y j q) (block_fold ?f y j q'))" for y
    using q' by simp
  show ?case
  proof (cases "ar_long i")
    case True
    let ?at = "half_at ?c ?L q j (bit q j)" and ?n = "half_count ?c ?L q j (bit q j)"
    have new: "ar.state i (Suc (Suc j)) (ar_real i q) = reduce_part (ar_op i) ?at ?n (part ?at ?n (recvbuf ?b')) ?b"
      unfolding step(3) using True j flip ranks
      by (simp add: mid_got_def mid_sent_def mid(2) send_part_def Let_def) (simp add: q'_def half_xor)
    note red = reduce_part_at [OF half_in_buffer [OF j, of ?c q "bit q j"] full, where op = "ar_op i"]
    note halves = seg_halves [OF j, of ?c q]
    show ?thesis
      unfolding new
    proof (intro conjI allI impI)
      show "full ?c (reduce_part (ar_op i) ?at ?n (part ?at ?n (recvbuf ?b')) ?b)" using red(1) o(2) by simp
      fix e assume e: "e < nat ?c" and seg: "ar_long i \<longrightarrow> in_seg ?c ?L q (Suc j) e"
      have w: "within ?at ?n e" using halves(1) o(2) seg True by simp
      then have "in_seg ?c ?L q j e" using halves(2) [of e] o(2) by (cases "bit q j") simp_all
      then show "at (reduce_part (ar_op i) ?at ?n (part ?at ?n (recvbuf ?b')) ?b) e = block_fold ?f (paired_at i e) (Suc j) q"
        unfolding fold using red(2) [OF _ e] IH [OF e] w o(2) o(6) [OF o(7) [OF True]] by simp
    qed
  next
    case False
    have new: "ar.state i (Suc (Suc j)) (ar_real i q) =
      (if IsCommutative (ar_op i) \<or> bit q j then reduce_part (ar_op i) 0 ?c (part 0 ?c (recvbuf ?b')) ?b
       else reduce_swapped (ar_op i) (recvbuf ?b') ?b)"
      unfolding step(3) using False ranks full(2)
      by (simp add: mid_got_def mid_sent_def mid(2) Let_def send_whole part_all full_def)
    note red = reduce_part_at [OF whole_in_buffer(1) [OF o(2)] full, where op = "ar_op i"]
    note swapped = reduce_swapped_at [OF full, where op = "ar_op i"]
    show ?thesis
      unfolding new fold using False red swapped IH whole_in_buffer(2) o(6) by auto
  qed
qed

text \<open>Allgather: after \<open>u\<close> more rounds, what a rank has of the result covers its part of \<open>levels - u\<close> halvings.\<close>

abbreviation total_at :: "'v allreduce \<Rightarrow> nat \<Rightarrow> 'v" where
  "total_at i e \<equiv> fold_range (ar_f i) (paired_at i e) 0 (2 ^ ar_levels i - 1)"

lemma state_gathered:
  assumes ok: "allreduce_ok i" and long: "ar_long i" and u: "u \<le> ar_levels i" and q: "0 \<le> q" "q < 2 ^ ar_levels i"
  shows "full (ar_count i) (ar.state i (Suc (ar_levels i + u)) (ar_real i q)) \<and>
    (\<forall>e<nat (ar_count i). in_seg (ar_count i) (ar_levels i) q (ar_levels i - u) e \<longrightarrow>
       at (ar.state i (Suc (ar_levels i + u)) (ar_real i q)) e = total_at i e)"
  using u q
proof (induction u arbitrary: q)
  case 0
  then show ?case
    using state_reduced [OF ok order_refl 0(2,3)] block_fold_all [OF okD(4) [OF ok] 0(2,3)] long by simp
next
  case (Suc u)
  note o = okD [OF ok]
  let ?L = "ar_levels i" and ?n = "ar_size i" and ?c = "ar_count i"
  define b where "b = ?L - Suc u"
  have b: "b < ?L" "?L - u = Suc b" "?L - Suc u = b" using Suc.prems(1) by (simp_all add: b_def)
  have mid: "?L + u < mid_rounds (ar_long i) ?n" "round_bit ?n (?L + u) = b"
    using Suc.prems(1) long by (simp_all add: mid_rounds_def round_bit_def b_def)
  define q' where "q' = q XOR 2 ^ b"
  note step = state_mid [OF ok Suc.prems(2,3) mid(1), unfolded mid(2), folded q'_def]
  let ?b = "ar.state i (Suc (?L + u)) (ar_real i q)" and ?b' = "ar.state i (Suc (?L + u)) (ar_real i q')"
  have full: "full ?c ?b" "full ?c ?b'" using Suc.IH [of q] Suc.IH [of q'] Suc.prems step(1,2) by simp_all
  have IH: "in_seg ?c ?L q (Suc b) e \<Longrightarrow> at ?b e = total_at i e" "in_seg ?c ?L q' (Suc b) e \<Longrightarrow> at ?b' e = total_at i e"
    if "e < nat ?c" for e
    using Suc.IH [of q] Suc.IH [of q'] Suc.prems step(1,2) that by (simp_all add: b(2))
  have ranks: "new_rank ?n (ar_real i q) = q" "new_rank ?n (ar_real i q') = q'"
    using new_real [OF o(1)] Suc.prems(2,3) step(1,2) by simp_all
  have flip: "bit q' b \<longleftrightarrow> \<not> bit q b" unfolding q'_def by (rule xor_power_bit(1))
  let ?at = "half_at ?c ?L q b (\<not> bit q b)" and ?n = "half_count ?c ?L q b (\<not> bit q b)"
  have new: "ar.state i (Suc (Suc (?L + u))) (ar_real i q) = recv_part ?at (part ?at ?n (recvbuf ?b')) ?b"
    unfolding step(3) using long flip ranks
    by (simp add: mid_got_def mid_sent_def mid(2) send_part_def Let_def) (simp add: q'_def half_xor)
  note rcv = recv_part_at [OF half_in_buffer [OF b(1), of ?c q "\<not> bit q b"] full]
  note halves = seg_halves [OF b(1), of ?c]
  have there: "within ?at ?n e \<longleftrightarrow> in_seg ?c ?L q' (Suc b) e" for e
    using halves(1) [of q' e] o(2) flip by (simp add: q'_def half_xor)
  have here: "in_seg ?c ?L q b e \<longleftrightarrow> in_seg ?c ?L q (Suc b) e \<or> within ?at ?n e" for e
    using halves(1) [of q e] halves(2) [of q e] o(2) by (cases "bit q b") auto
  show ?case
    unfolding add_Suc_right b(3) new using rcv o(2) IH there here by auto
qed

text \<open>After the middle, every rank that takes part has the result.\<close>

lemma state_middle:
  assumes ok: "allreduce_ok i" and q: "0 \<le> q" "q < 2 ^ ar_levels i"
  shows "full (ar_count i) (ar.state i (Suc (mid_rounds (ar_long i) (ar_size i))) (ar_real i q))"
    "e < nat (ar_count i) \<Longrightarrow> at (ar.state i (Suc (mid_rounds (ar_long i) (ar_size i))) (ar_real i q)) e =
      fold_range (ar_f i) (input_at i e) 0 (length (ar_members i) - 1)"
proof -
  note o = okD [OF ok]
  let ?b = "ar.state i (Suc (mid_rounds (ar_long i) (ar_size i))) (ar_real i q)"
  have mid: "full (ar_count i) ?b \<and> (\<forall>e<nat (ar_count i). at ?b e = total_at i e)"
  proof (cases "ar_long i")
    case True
    then show ?thesis
      using state_gathered [OF ok True order_refl q] in_seg_0 [of "ar_count i"] o(2) by (simp add: mid_rounds_def mult_2)
  next
    case False
    then show ?thesis
      using state_reduced [OF ok order_refl q] block_fold_all [OF o(4) q] by (simp add: mid_rounds_def)
  qed
  then show "full (ar_count i) ?b" by blast
  have "\<not> int (2 ^ ar_levels i - 1) < spare (ar_size i)" "2 ^ ar_levels i - 1 + nat (spare (ar_size i)) = length (ar_members i) - 1"
  proof -
    define P where "P = (2 :: nat) ^ ar_levels i"
    have P: "(2 :: int) ^ ar_levels i = int P" "1 \<le> P" by (simp_all add: P_def)
    show "\<not> int (2 ^ ar_levels i - 1) < spare (ar_size i)" "2 ^ ar_levels i - 1 + nat (spare (ar_size i)) = length (ar_members i) - 1"
      using levels_bounds [OF o(1)] P(2) unfolding P(1) P_def [symmetric] by auto
  qed
  then have "total_at i e = fold_range (ar_f i) (input_at i e) 0 (length (ar_members i) - 1)" for e
    using fold_paired [OF o(4,5), of "input_at i e" "2 ^ ar_levels i - 1"] by simp
  then show "e < nat (ar_count i) \<Longrightarrow> at ?b e = fold_range (ar_f i) (input_at i e) 0 (length (ar_members i) - 1)"
    using mid by simp
qed

lemma reduction_at:
  assumes "\<And>r. length (x r) = m" "e < m" "0 < n"
  shows "length (reduction op x n) = m \<and> reduction op x n ! e = fold_range (user_function op) (\<lambda>r. x (nat r) ! e) 0 (n - 1)"
  using assms(3)
proof (induction n)
  case (Suc n)
  show ?case
  proof (cases "n = 0")
    case True
    then show ?thesis using assms by (simp add: reduction_def)
  next
    case False
    then obtain k where k: "n = Suc k" by (cases n) auto
    have "reduction op x (Suc n) = MPID_Uop_call op (reduction op x n) (x n)" using False by (simp add: reduction_def)
    then show ?thesis using Suc.IH assms(1,2) k by (simp add: MPID_Uop_call_def nat_add_distrib)
  qed
qed simp

lemma allreduce_result:
  assumes ok: "allreduce_ok i" and r: "0 \<le> r" "r < ar_size i"
  shows "recvbuf (ar.state i (ar_rounds i) r) = reduction (ar_op i) (\<lambda>k. recvbuf (ar_input i (int k))) (length (ar_members i))"
proof -
  note o = okD [OF ok]
  let ?T = "mid_rounds (ar_long i) (ar_size i)" and ?n = "ar_size i" and ?c = "ar_count i"
  have final: "full ?c (ar.state i (ar_rounds i) r) \<and>
    (\<forall>e<nat ?c. at (ar.state i (ar_rounds i) r) e = fold_range (ar_f i) (input_at i e) 0 (length (ar_members i) - 1))"
  proof (cases "r < 2 * spare ?n \<and> even r")
    case True
    have b: "?n < 2 * 2 ^ ar_levels i" using levels_bounds [OF o(1)] by simp
    let ?q = "(r + 1) div 2"
    have q: "0 \<le> ?q" "?q < 2 ^ ar_levels i" "ar_real i ?q = r + 1" using True r b by (auto simp: real_rank_def)
    note m = state_middle [OF ok q(1,2), unfolded q(3)]
    have "ar_src (ar_long i) ?n (Suc ?T) r = Some (r + 1)" using True by (simp add: ar_src_def up_neighbour_def)
    then have new: "ar.state i (ar_rounds i) r = recv_part 0 (part 0 ?c (recvbuf (ar.state i (Suc ?T) (r + 1)))) (ar.state i (Suc ?T) r)"
      by (simp add: ar_rounds_def ar_got_def ar_sent_def send_part_def)
    have own: "full ?c (ar.state i k r)" if "k \<le> Suc ?T" for k
      using that
    proof (induction k)
      case 0
      then show ?case using o(3) by simp
    next
      case (Suc k)
      have "ar_src (ar_long i) ?n k r = None"
        using True r Suc.prems by (auto simp: ar_src_def down_neighbour_def peer_def new_rank_def)
      then show ?case using Suc by simp
    qed
    note rcv = recv_part_at [OF whole_in_buffer(1) [OF o(2)] own [OF order_refl] m(1)]
    show ?thesis unfolding new using rcv m(2) whole_in_buffer(2) by simp
  next
    case False
    then have q: "0 \<le> new_rank ?n r" "new_rank ?n r < 2 ^ ar_levels i" "ar_real i (new_rank ?n r) = r"
      using new_rank_range [OF o(1) r] real_new [OF _ r(1)] by simp_all
    have "ar_src (ar_long i) ?n (Suc ?T) r = None" using False by (simp add: ar_src_def up_neighbour_def)
    then show ?thesis using state_middle [OF ok q(1,2), unfolded q(3)] by (simp add: ar_rounds_def)
  qed
  have n: "0 < length (ar_members i)" using o(1) by simp
  note red = reduction_at [of "\<lambda>k. recvbuf (ar_input i (int k))" "nat ?c", OF _ _ n, of _ "ar_op i"]
  have len: "length (recvbuf (ar_input i (int k))) = nat ?c" for k using o(3) by (simp add: full_def)
  show ?thesis
  proof (rule nth_equalityI)
    show "length (recvbuf (ar.state i (ar_rounds i) r)) = length (reduction (ar_op i) (\<lambda>k. recvbuf (ar_input i (int k))) (length (ar_members i)))"
      using final red [OF len, of 0] o(2) by (simp add: full_def)
    fix e assume "e < length (recvbuf (ar.state i (ar_rounds i) r))"
    then have e: "e < nat ?c" using final by (simp add: full_def)
    have "fold_range (ar_f i) (\<lambda>k. recvbuf (ar_input i (int (nat k))) ! e) 0 (length (ar_members i) - 1) =
        fold_range (ar_f i) (input_at i e) 0 (length (ar_members i) - 1)"
      by (rule fold_range_cong) simp
    then show "at (ar.state i (ar_rounds i) r) e = reduction (ar_op i) (\<lambda>k. recvbuf (ar_input i (int k))) (length (ar_members i)) ! e"
      using final red [OF len e] e by simp
  qed
qed

subsection \<open>The properties\<close>

text \<open>C2: every process that returns from an allreduce has in \<open>recvbuf\<close> the contributions of all processes,
combined in the order of the ranks: for every number of processes and elements, in every interleaving, with eager or
rendezvous delivery, and by whichever of the two algorithms is taken.\<close>

theorem MPI_Allreduce_correct:
  assumes "allreduce_ok i" "p \<in> set (ar_members i)"
    and "reachable (set (ar_members i)) (allreduce_program i) eager (\<lambda>q. ar_input i (rank_in (ar_members i) q)) s"
    and "returned (allreduce_program i) s p"
  shows "recvbuf (dat s p) = reduction (ar_op i) (\<lambda>r. recvbuf (ar_input i (int r))) (length (ar_members i))"
  using ar.member_result [OF assms(1) _ assms(2), of eager s] allreduce_result [OF assms(1)] ar.rank_mem [OF assms(2)] assms(3,4)
  unfolding allreduce_program_code [OF assms(1)] by simp

text \<open>Three processes add four numbers each, by a reduce-scatter and an allgather.\<close>

definition demo_sum :: "int allreduce" where
  "demo_sum = \<lparr>ar_kind = INTRACOMM_PARENT, ar_members = [7, 3, 5], ar_type_size = 4, ar_short_msg = 0,
     ar_op = \<lparr>user_function = (+), op_kind = MPID_OP_SUM\<rparr>, ar_count = 4,
     ar_input = (\<lambda>r. allreduce_start (Some [r, 10 * r, 100, r - 1]) [] [0, 0, 0, 0])\<rparr>"

lemma demo_sum_ok: "allreduce_ok demo_sum" "ar_long demo_sum"
proof -
  show "allreduce_ok demo_sum"
    by (simp add: allreduce_ok_def demo_sum_def full_def allreduce_start_def op_laws_def assoc_op_def IsCommutative_def)
  show "ar_long demo_sum" by (simp add: ar_long_def demo_sum_def takes_long_def IsBuiltin_def) code_simp
qed

lemma MPI_Allreduce_correct_witness:
  "\<exists>s. reachable {7, 3, 5} (allreduce_program demo_sum) (\<lambda>_. False) (\<lambda>q. ar_input demo_sum (rank_in [7, 3, 5] q)) s \<and>
    returned (allreduce_program demo_sum) s 5 \<and> recvbuf (dat s 5) = [3, 30, 300, 0]"
proof -
  have m: "set (ar_members demo_sum) = {7, 3, 5}" "ar_members demo_sum = [7, 3, 5]" by (simp_all add: demo_sum_def)
  obtain n s where run: "(quiet_step {7, 3, 5} (allreduce_program demo_sum) (\<lambda>_. False) ^^ n)
      (net_init (\<lambda>q. ar_input demo_sum (rank_in [7, 3, 5] q))) s" and fin: "finished {7, 3, 5} (allreduce_program demo_sum) s"
    using ar.member_completes(3) [OF demo_sum_ok(1), of "\<lambda>_. False" "\<lambda>q. ar_input demo_sum (rank_in [7, 3, 5] q)"]
    unfolding allreduce_program_code [OF demo_sum_ok(1)] m(1) by blast
  note r = quiet_reachable [OF run]
  have p: "returned (allreduce_program demo_sum) s 5" using fin by (simp add: finished_def)
  have "reduction (ar_op demo_sum) (\<lambda>r. recvbuf (ar_input demo_sum (int r))) (length (ar_members demo_sum)) = [3, 30, 300, 0]" by code_simp
  then have "recvbuf (dat s 5) = [3, 30, 300, 0]"
    using MPI_Allreduce_correct [OF demo_sum_ok(1), of 5 "\<lambda>_. False" s] r p unfolding m by simp
  then show ?thesis using r p by blast
qed

text \<open>C8: the code of an allreduce addresses only ranks of the communicator and stays inside the buffers, a run
without failures never gets stuck before all processes have returned and all messages have been received, and there is
such a run.\<close>

theorem MPI_Allreduce_completes:
  assumes "allreduce_ok i"
  shows "(\<forall>p\<in>set (ar_members i). MPIR_Allreduce_intra_flat (ar_type_size i) (ar_short_msg i)
      (member (ar_kind i) (ar_members i) p) (ar_op i) (ar_count i) = Some (allreduce_program i p)) \<and>
    (\<forall>n s. (quiet_step (set (ar_members i)) (allreduce_program i) eager ^^ n) (net_init d) s \<longrightarrow>
       (\<nexists>t. quiet_step (set (ar_members i)) (allreduce_program i) eager s t) \<longrightarrow>
       finished (set (ar_members i)) (allreduce_program i) s) \<and>
    (\<exists>n s. (quiet_step (set (ar_members i)) (allreduce_program i) eager ^^ n) (net_init d) s \<and>
       finished (set (ar_members i)) (allreduce_program i) s)"
  using allreduce_code [OF assms] ar.member_completes(1,3) [OF assms] unfolding allreduce_program_code [OF assms] by blast

lemma MPI_Allreduce_completes_witness:
  "\<exists>n s. (quiet_step {7, 3, 5} (allreduce_program demo_sum) (\<lambda>_. False) ^^ n) (net_init (ar_input demo_sum)) s \<and>
    finished {7, 3, 5} (allreduce_program demo_sum) s"
proof -
  have m: "set (ar_members demo_sum) = {7, 3, 5}" by (simp add: demo_sum_def)
  show ?thesis using MPI_Allreduce_completes [OF demo_sum_ok(1), of "\<lambda>_. False" "ar_input demo_sum"] unfolding m by blast
qed

end
