(* ===== verification/Buffer_Copy.thy ===== *)
theory Buffer_Copy
  imports Prelude
begin

text \<open>
  The copy of a message from the send buffer to the receive buffer of the same process:
  \<open>MPIDI_CH3U_Buffer_copy\<close> and \<open>MPIR_Localcopy\<close> of \<open>src/mpi/msmpi/mpid/pt2pt.cpp\<close>. Memory is a map from
  addresses to bytes. The description of datatypes is an argument: the size and contiguity of
  \<open>GetSizeAndInfo\<close>, the offsets of the bytes in the order in which the segment code packs them, and
  the position at which the segment code stops when it is told to process a range.
\<close>

subsection \<open>Datatypes\<close>

type_synonym addr = nat
type_synonym memory = "int \<Rightarrow> 8 word"

text \<open>A datatype: one of the predefined ones, or the object of a derived type, which is counted.\<close>

datatype TypeHandle = Predefined int | Derived addr

record type_table =
  GetSizeAndInfo :: "TypeHandle \<Rightarrow> int \<Rightarrow> int \<times> bool \<times> int"
  GetSize :: "TypeHandle \<Rightarrow> int"
  layout :: "TypeHandle \<Rightarrow> int \<Rightarrow> int list"
  segment_stop :: "TypeHandle \<Rightarrow> int \<Rightarrow> int \<Rightarrow> int \<Rightarrow> int"

text \<open>A buffer: its address, the number of elements and their type.\<close>

datatype buffer = Buffer (b_addr: int) (b_count: int) (b_type: TypeHandle)

definition memcpy :: "int \<Rightarrow> int \<Rightarrow> int \<Rightarrow> memory \<Rightarrow> memory" where
  "memcpy dst src n mem = (\<lambda>a. if dst \<le> a \<and> a < dst + n then mem (src + (a - dst)) else mem a)"

fun store_at :: "int list \<Rightarrow> 8 word list \<Rightarrow> memory \<Rightarrow> memory" where
  "store_at (a # as) (x # xs) mem = store_at as xs (mem(a := x))"
| "store_at _ _ mem = mem"

text \<open>The addresses of the bytes of a buffer, in order.\<close>

definition places :: "type_table \<Rightarrow> buffer \<Rightarrow> int list" where
  "places T b = map (\<lambda>d. b_addr b + d) (layout T (b_type b) (b_count b))"

definition cut :: "int \<Rightarrow> int \<Rightarrow> 'a list \<Rightarrow> 'a list" where
  "cut first lim xs = take (nat (lim - first)) (drop (nat first) xs)"

definition MPID_Segment_pack_msg ::
  "type_table \<Rightarrow> buffer \<Rightarrow> int \<Rightarrow> int \<Rightarrow> memory \<Rightarrow> 8 word list \<times> int" where
  "MPID_Segment_pack_msg T b first lim mem =
     (let stop = segment_stop T (b_type b) (b_count b) first lim
      in (map mem (cut first stop (places T b)), stop))"

definition MPID_Segment_unpack_msg ::
  "type_table \<Rightarrow> buffer \<Rightarrow> int \<Rightarrow> int \<Rightarrow> 8 word list \<Rightarrow> memory \<Rightarrow> memory \<times> int" where
  "MPID_Segment_unpack_msg T b first lim buf mem =
     (let stop = segment_stop T (b_type b) (b_count b) first lim
      in (store_at (cut first stop (places T b)) buf mem, stop))"

subsection \<open>The copy\<close>

definition MPIDI_COPY_BUFFER_SZ :: int where "MPIDI_COPY_BUFFER_SZ = 16384"

text \<open>
  The loop for two noncontiguous types: bytes are packed behind the ones left over in the
  intermediate buffer, unpacked from its start, and the rest is moved to the front.
\<close>

partial_function (option) segment_copy_loop ::
  "type_table \<Rightarrow> buffer \<Rightarrow> buffer \<Rightarrow> int \<Rightarrow> memory \<Rightarrow> 8 word list \<Rightarrow> int \<Rightarrow> int \<Rightarrow>
   mpi_error option \<Rightarrow> (memory \<times> int \<times> mpi_error option) option" where
  "segment_copy_loop T s r copy_sz mem buf sfirst rfirst rerr =
     (let buf_off = int (length buf);
          last = (if copy_sz - sfirst > MPIDI_COPY_BUFFER_SZ - buf_off
                  then sfirst + (MPIDI_COPY_BUFFER_SZ - buf_off) else copy_sz);
          packed = MPID_Segment_pack_msg T s sfirst last mem;
          buf = buf @ fst packed;
          sfirst = snd packed;
          unpacked = MPID_Segment_unpack_msg T r rfirst sfirst buf mem;
          mem = fst unpacked;
          rfirst = snd unpacked
      in if rfirst = copy_sz then Some (mem, rfirst, rerr)
         else if sfirst = copy_sz then Some (mem, rfirst, Some (MPIU_ERR_CREATE MPI_ERR_TYPE ''**dtypemismatch''))
         else segment_copy_loop T s r copy_sz mem (drop (length buf - nat (sfirst - rfirst)) buf) sfirst rfirst rerr)"

text \<open>The results: memory, error of the sender, bytes received, error of the receiver.\<close>

declare segment_copy_loop.simps [code]

definition MPIDI_CH3U_Buffer_copy ::
  "type_table \<Rightarrow> bool \<Rightarrow> buffer \<Rightarrow> buffer \<Rightarrow> memory \<Rightarrow> (memory \<times> mpi_error option \<times> int \<times> mpi_error option) option" where
  "MPIDI_CH3U_Buffer_copy T malloc s r mem =
     (let (ssz, scontig, slb) = GetSizeAndInfo T (b_type s) (b_count s);
          (rsz, rcontig, rlb) = GetSizeAndInfo T (b_type r) (b_count r);
          copy_sz = (if ssz > rsz then rsz else ssz);
          rerr = (if ssz > rsz then Some (MPIU_ERR_CREATE MPI_ERR_TRUNCATE ''**truncate %d %d'') else None);
          mismatch = Some (MPIU_ERR_CREATE MPI_ERR_TYPE ''**dtypemismatch'')
      in if copy_sz = 0 then Some (mem, None, 0, rerr)
         else if scontig \<and> rcontig then Some (memcpy (b_addr r + rlb) (b_addr s + slb) copy_sz mem, None, copy_sz, rerr)
         else if scontig then
           (let bytes = map mem [b_addr s + slb..b_addr s + slb + copy_sz - 1];
                (mem, last) = MPID_Segment_unpack_msg T r 0 copy_sz bytes mem
            in Some (mem, None, last, if last \<noteq> copy_sz then mismatch else rerr))
         else if rcontig then
           (let (bytes, last) = MPID_Segment_pack_msg T s 0 copy_sz mem
            in Some (store_at [b_addr r + rlb..b_addr r + rlb + last - 1] bytes mem, None, last,
                 if last \<noteq> copy_sz then mismatch else rerr))
         else if \<not> malloc then Some (mem, Some MPIU_ERR_NOMEM, 0, Some MPIU_ERR_NOMEM)
         else do {
           (mem, rfirst, rerr) \<leftarrow> segment_copy_loop T s r copy_sz mem [] 0 0 rerr;
           Some (mem, None, rfirst, rerr)
         })"

text \<open>\<open>MPIR_Localcopy\<close> reports the error of the receiver.\<close>

definition MPIR_Localcopy ::
  "type_table \<Rightarrow> bool \<Rightarrow> buffer \<Rightarrow> buffer \<Rightarrow> memory \<Rightarrow> (memory \<times> mpi_error option) option" where
  "MPIR_Localcopy T malloc s r mem = do {
     (mem, serr, cb, rerr) \<leftarrow> MPIDI_CH3U_Buffer_copy T malloc s r mem;
     Some (mem, rerr)
   }"

subsection \<open>What is copied\<close>

text \<open>The reference: the first bytes of the one buffer go to the first places of the other.\<close>

definition transfer :: "type_table \<Rightarrow> buffer \<Rightarrow> buffer \<Rightarrow> int \<Rightarrow> memory \<Rightarrow> memory" where
  "transfer T s r n mem = store_at (take (nat n) (places T r)) (map mem (take (nat n) (places T s))) mem"

text \<open>
  What the code relies on: the layout of a type has as many bytes as its size and is one run of
  bytes when the type is contiguous; the segment code advances and does not pass the end it is
  given, and reaches the end of the data when it packs.
\<close>

definition buffer_ok :: "type_table \<Rightarrow> buffer \<Rightarrow> bool" where
  "buffer_ok T b \<longleftrightarrow> (case GetSizeAndInfo T (b_type b) (b_count b) of (sz, contig, lb) \<Rightarrow>
     sz = int (length (layout T (b_type b) (b_count b))) \<and>
     (contig \<longrightarrow> layout T (b_type b) (b_count b) = [lb..lb + sz - 1]))"

definition advances :: "type_table \<Rightarrow> buffer \<Rightarrow> int \<Rightarrow> bool" where
  "advances T b n \<longleftrightarrow> (\<forall>first last. 0 \<le> first \<and> first < last \<and> last \<le> n \<longrightarrow>
     first < segment_stop T (b_type b) (b_count b) first last \<and> segment_stop T (b_type b) (b_count b) first last \<le> last)"

definition reaches :: "type_table \<Rightarrow> buffer \<Rightarrow> int \<Rightarrow> bool" where
  "reaches T b n \<longleftrightarrow> (\<forall>first. 0 \<le> first \<and> first < n \<longrightarrow> segment_stop T (b_type b) (b_count b) first n = n)"

lemma store_at_append:
  "length as = length xs \<Longrightarrow> store_at (as @ bs) (xs @ ys) mem = store_at bs ys (store_at as xs mem)"
  by (induction as xs arbitrary: mem rule: list_induct2) auto

lemma store_at_take: "store_at as xs mem = store_at as (take (length as) xs) mem"
proof (induction as arbitrary: xs mem)
  case (Cons a as)
  then show ?case by (cases xs) (auto simp del: fun_upd_apply)
qed simp

lemma store_at_other: "a \<notin> set as \<Longrightarrow> store_at as xs mem a = mem a"
  by (induction as xs mem rule: store_at.induct) auto

lemma places_length: "length (places T b) = length (layout T (b_type b) (b_count b))"
  by (simp add: places_def)

lemma upto_shift: "map (\<lambda>d. a + d) [i..j] = [a + i..a + j]" for a :: int
proof (induction i j rule: upto.induct)
  case (1 i j)
  then show ?case by (cases "i \<le> j") (simp_all add: upto.simps [of i] upto.simps [of "a + i"] add.assoc)
qed

lemma upto_conv: "[a..a + int n - 1] = map (\<lambda>i. a + int i) [0..<n]"
proof (induction n)
  case (Suc n)
  have "[a..a + int (Suc n) - 1] = [a..a + int n - 1] @ [a + int n]" by (simp add: upto_rec2)
  then show ?case using Suc by simp
qed simp

lemma store_at_run: "store_at (map (\<lambda>i. d + int i) [0..<n]) (map (\<lambda>i. f i) [0..<n]) mem =
   (\<lambda>a. if d \<le> a \<and> a < d + int n then f (nat (a - d)) else mem a)"
proof (induction n)
  case (Suc n)
  have "store_at (map (\<lambda>i. d + int i) [0..<Suc n]) (map f [0..<Suc n]) mem =
      (store_at (map (\<lambda>i. d + int i) [0..<n]) (map f [0..<n]) mem)(d + int n := f n)"
    by (simp add: store_at_append)
  then show ?case unfolding Suc by (auto simp: fun_eq_iff)
qed (auto simp: fun_eq_iff)

lemma memcpy_transfer: "memcpy d s (int n) mem = store_at [d..d + int n - 1] (map mem [s..s + int n - 1]) mem"
  unfolding upto_conv using store_at_run [of d n "\<lambda>i. mem (s + int i)" mem]
  by (simp add: comp_def memcpy_def fun_eq_iff)

text \<open>Two disjoint buffers.\<close>

definition apart :: "type_table \<Rightarrow> buffer \<Rightarrow> buffer \<Rightarrow> bool" where
  "apart T s r \<longleftrightarrow> set (places T s) \<inter> set (places T r) = {}"

lemma cut_take: "0 \<le> i \<Longrightarrow> i \<le> j \<Longrightarrow> take (nat i) xs @ cut i j xs = take (nat j) xs"
  unfolding cut_def by (metis add.commute diff_add_cancel le_add_diff_inverse2 nat_diff_distrib nat_mono take_add)

lemma cut_length: "0 \<le> i \<Longrightarrow> i \<le> j \<Longrightarrow> j \<le> int (length xs) \<Longrightarrow> length (cut i j xs) = nat (j - i)"
  by (simp add: cut_def)

lemma cut_append: "0 \<le> i \<Longrightarrow> i \<le> j \<Longrightarrow> j \<le> k \<Longrightarrow> cut i j xs @ cut j k xs = cut i k xs"
proof -
  assume a: "0 \<le> i" "i \<le> j" "j \<le> k"
  have "take (nat i) xs @ cut i j xs @ cut j k xs = take (nat i) xs @ cut i k xs"
    using cut_take [of i j xs] cut_take [of j k xs] cut_take [of i k xs] a by (simp flip: append_assoc)
  then show ?thesis by simp
qed

lemma set_cut: "set (cut i j xs) \<subseteq> set xs"
  unfolding cut_def by (meson order_trans set_drop_subset set_take_subset)

lemma drop_cut: "0 \<le> i \<Longrightarrow> i \<le> k \<Longrightarrow> k \<le> j \<Longrightarrow> drop (nat (k - i)) (cut i j xs) = cut k j xs"
  by (simp add: cut_def drop_take nat_diff_distrib add.commute)

text \<open>After a transfer of disjoint buffers, the source is unchanged.\<close>

lemma transfer_source: "apart T s r \<Longrightarrow> a \<in> set (places T s) \<Longrightarrow> transfer T s r n mem a = mem a"
  unfolding transfer_def apart_def by (rule store_at_other) (auto dest: in_set_takeD)

lemma transfer_step:
  assumes "0 \<le> i" "i \<le> j" "j \<le> int (length (places T s))" "j \<le> int (length (places T r))"
  shows "store_at (cut i j (places T r)) (map mem (cut i j (places T s))) (transfer T s r i mem) = transfer T s r j mem"
proof -
  let ?r = "places T r" and ?s = "places T s"
  have "transfer T s r j mem =
      store_at (take (nat i) ?r @ cut i j ?r) (map mem (take (nat i) ?s) @ map mem (cut i j ?s)) mem"
    unfolding transfer_def by (simp only: cut_take [OF assms(1,2)] flip: map_append)
  then show ?thesis using assms by (simp add: transfer_def store_at_append)
qed

lemma segment_copy_loop_transfer:
  assumes s: "advances T s n" "n \<le> int (length (places T s))" "reaches T s n"
    and r: "advances T r n" "n \<le> int (length (places T r))" and apart: "apart T s r"
  shows "0 \<le> i \<Longrightarrow> i \<le> j \<Longrightarrow> j < n \<Longrightarrow> j - i < MPIDI_COPY_BUFFER_SZ \<Longrightarrow>
    \<exists>k. 0 < k \<and> k \<le> n \<and> (reaches T r n \<longrightarrow> k = n) \<and>
      segment_copy_loop T s r n (transfer T s r i mem) (map mem (cut i j (places T s))) j i e =
        Some (transfer T s r k mem, k, if k = n then e else Some (MPIU_ERR_CREATE MPI_ERR_TYPE ''**dtypemismatch''))"
proof (induction "nat (n - i)" arbitrary: i j rule: less_induct)
  case less
  let ?m = "transfer T s r i mem" and ?buf = "map mem (cut i j (places T s))"
  have len: "int (length ?buf) = j - i" using less.prems s(2) by (simp add: cut_length)
  define lim where "lim = (if n - j > MPIDI_COPY_BUFFER_SZ - (j - i) then j + (MPIDI_COPY_BUFFER_SZ - (j - i)) else n)"
  have lim: "j < lim" "lim \<le> n" using less.prems by (auto simp: lim_def)
  define j' where "j' = segment_stop T (b_type s) (b_count s) j lim"
  have j': "j < j'" "j' \<le> lim" using s(1) lim less.prems unfolding advances_def j'_def by auto
  have src: "map ?m (cut j j' (places T s)) = map mem (cut j j' (places T s))"
    using set_cut [of j j' "places T s"] transfer_source [OF apart] by (auto simp: subset_iff)
  have pack: "MPID_Segment_pack_msg T s j lim ?m = (map mem (cut j j' (places T s)), j')"
    unfolding MPID_Segment_pack_msg_def j'_def [symmetric] Let_def src by simp
  have buf: "?buf @ map mem (cut j j' (places T s)) = map mem (cut i j' (places T s))"
    using cut_append [of i j j' "places T s"] less.prems j' by (simp flip: map_append)
  define i' where "i' = segment_stop T (b_type r) (b_count r) i j'"
  have i': "i < i'" "i' \<le> j'" using r(1) j' lim less.prems unfolding advances_def i'_def by auto
  have unpack: "MPID_Segment_unpack_msg T r i j' (map mem (cut i j' (places T s))) ?m = (transfer T s r i' mem, i')"
  proof -
    have len': "length (cut i i' (places T r)) = nat (i' - i)" using i' j' lim r(2) less.prems by (simp add: cut_length)
    have "take (nat (i' - i)) (cut i j' (places T s)) = cut i i' (places T s)"
      using i' less.prems by (simp add: cut_def min_def)
    then have "store_at (cut i i' (places T r)) (map mem (cut i j' (places T s))) ?m =
        store_at (cut i i' (places T r)) (map mem (cut i i' (places T s))) ?m"
      by (subst store_at_take) (simp add: len' take_map)
    also have "\<dots> = transfer T s r i' mem"
      using i' j' lim s(2) r(2) less.prems by (intro transfer_step) simp_all
    finally show ?thesis unfolding MPID_Segment_unpack_msg_def i'_def [symmetric] Let_def by simp
  qed
  have step: "segment_copy_loop T s r n ?m ?buf j i e =
      (if i' = n then Some (transfer T s r i' mem, i', e)
       else if j' = n then Some (transfer T s r i' mem, i', Some (MPIU_ERR_CREATE MPI_ERR_TYPE ''**dtypemismatch''))
       else segment_copy_loop T s r n (transfer T s r i' mem) (map mem (cut i' j' (places T s))) j' i' e)"
  proof -
    have "nat (j' - i) - nat (j' - i') = nat (i' - i)" using i' less.prems by simp
    then have "drop (length (map mem (cut i j' (places T s))) - nat (j' - i')) (map mem (cut i j' (places T s))) =
        map mem (cut i' j' (places T s))"
      using i' j' lim s(2) less.prems by (simp add: cut_length drop_map drop_cut)
    then show ?thesis
      by (subst segment_copy_loop.simps) (simp only: Let_def len lim_def [symmetric] pack fst_conv snd_conv buf unpack)
  qed
  show ?case
  proof (cases "i' = n")
    case True
    then show ?thesis using step less.prems i' by (intro exI [of _ n]) simp
  next
    case False
    show ?thesis
    proof (cases "j' = n")
      case True
      have "reaches T r n \<longrightarrow> i' = n" using less.prems True unfolding reaches_def i'_def by auto
      then show ?thesis using step False True less.prems i' by (intro exI [of _ i']) simp
    next
      case jn: False
      have "j' - i' < MPIDI_COPY_BUFFER_SZ" using i' j' less.prems(1,2) by (auto simp: lim_def split: if_splits)
      then have "\<exists>k. 0 < k \<and> k \<le> n \<and> (reaches T r n \<longrightarrow> k = n) \<and>
          segment_copy_loop T s r n (transfer T s r i' mem) (map mem (cut i' j' (places T s))) j' i' e =
          Some (transfer T s r k mem, k, if k = n then e else Some (MPIU_ERR_CREATE MPI_ERR_TYPE ''**dtypemismatch''))"
        using i' j' lim jn less.prems by (intro less.hyps) auto
      then show ?thesis unfolding step using False jn by simp
    qed
  qed
qed

lemma places_size:
  "buffer_ok T b \<Longrightarrow> GetSizeAndInfo T (b_type b) (b_count b) = (sz, c, lb) \<Longrightarrow> sz = int (length (places T b))"
  by (simp add: buffer_ok_def places_length)

lemma take_run: "take k [a..a + int m - 1] = [a..a + int (min k m) - 1]" for a :: int
  unfolding upto_conv by (cases "k \<le> m") (simp_all add: take_map min_def)

lemma places_contiguous:
  assumes "buffer_ok T b" "GetSizeAndInfo T (b_type b) (b_count b) = (sz, True, lb)" "0 \<le> n" "n \<le> int (length (places T b))"
  shows "take (nat n) (places T b) = [b_addr b + lb..b_addr b + lb + n - 1]"
proof -
  have "places T b = map (\<lambda>d. b_addr b + d) [lb..lb + int (length (places T b)) - 1]"
    using assms(1) places_size [OF assms(1,2)] unfolding buffer_ok_def assms(2) places_def by simp
  also have "\<dots> = [b_addr b + lb..b_addr b + (lb + int (length (places T b)) - 1)]" by (rule upto_shift)
  also have "b_addr b + (lb + int (length (places T b)) - 1) = (b_addr b + lb) + int (length (places T b)) - 1" by simp
  finally have p: "places T b = [b_addr b + lb..(b_addr b + lb) + int (length (places T b)) - 1]" .
  have "take (nat n) (places T b) = take (nat n) [b_addr b + lb..(b_addr b + lb) + int (length (places T b)) - 1]"
    using p by (rule arg_cong)
  also have "\<dots> = [b_addr b + lb..(b_addr b + lb) + int (min (nat n) (length (places T b))) - 1]" by (rule take_run)
  also have "int (min (nat n) (length (places T b))) = n" using assms(3,4) by simp
  finally show ?thesis .
qed

lemma transfer_0 [simp]: "transfer T s r 0 mem = mem"
  by (simp add: transfer_def)

lemma pack_all:
  assumes "reaches T b n" "0 < n" "n \<le> int (length (places T b))"
  shows "MPID_Segment_pack_msg T b 0 n mem = (map mem (take (nat n) (places T b)), n)"
  using assms by (simp add: MPID_Segment_pack_msg_def reaches_def cut_def)

lemma unpack_all:
  assumes "advances T r n" "0 < n" "n \<le> int (length (places T s))" "n \<le> int (length (places T r))"
  shows "\<exists>k. 0 < k \<and> k \<le> n \<and> (reaches T r n \<longrightarrow> k = n) \<and>
    MPID_Segment_unpack_msg T r 0 n (map mem (take (nat n) (places T s))) mem = (transfer T s r k mem, k)"
proof -
  define k where "k = segment_stop T (b_type r) (b_count r) 0 n"
  have k: "0 < k" "k \<le> n" using assms(1,2) unfolding advances_def k_def by auto
  have "store_at (take (nat k) (places T r)) (map mem (take (nat n) (places T s))) mem = transfer T s r k mem"
  proof -
    have "length (take (nat k) (places T r)) = nat k" "min (nat k) (nat n) = nat k" using k assms(4) by auto
    then show ?thesis unfolding transfer_def by (subst store_at_take) (simp only: take_map take_take)
  qed
  then have "MPID_Segment_unpack_msg T r 0 n (map mem (take (nat n) (places T s))) mem = (transfer T s r k mem, k)"
    unfolding MPID_Segment_unpack_msg_def Let_def k_def [symmetric] by (simp add: cut_def)
  moreover have "reaches T r n \<longrightarrow> k = n" using assms(2) by (simp add: reaches_def k_def)
  ultimately show ?thesis using k by blast
qed


text \<open>Three bytes with gaps go to two places with another gap.\<close>

definition demo_types :: type_table where
  "demo_types = \<lparr>GetSizeAndInfo = (\<lambda>t n. if t = Derived 5 then (3, False, 0) else (2, False, 0)),
     GetSize = (\<lambda>t. if t = Derived 5 then 3 else 2), layout = (\<lambda>t n. if t = Derived 5 then [0, 2, 4] else [0, 3]), segment_stop = (\<lambda>t n first lim. lim)\<rparr>"


end
