(* ===== verification/Recv_Queue.thy ===== *)
theory Recv_Queue
  imports Buffer_Copy
begin

text \<open>
  The request queues of the receiver, \<open>CRequestQueue\<close> in
  \<open>src/mpi/msmpi/mpid/packethandling.cpp\<close>: singly linked lists through the \<open>next\<close> field of the
  requests, with a head and a tail pointer, in a heap of request objects. An entry is removed
  through the pointer that points to it, which is the head of the queue or the \<open>next\<close> field of
  its predecessor; the tail is recovered from that pointer. The lemmas show that \<open>enqueue\<close>
  appends and \<open>remove\<close> removes, and which entry a search stops at.
\<close>

subsection \<open>Requests and queues\<close>

record MPIDI_Message_match =
  m_tag :: int
  m_rank :: int
  m_context_id :: "128 word"

record MPIR_Status =
  st_count :: int
  st_cancelled :: bool
  st_source :: int
  st_tag :: int
  st_error :: "mpi_error option"

datatype MPID_Request_kind_t =
    MPID_REQUEST_UNDEFINED | MPID_BUFFERED_SEND | MPID_REQUEST_SEND | MPID_REQUEST_RECV | MPID_PERSISTENT_SEND
  | MPID_PERSISTENT_RECV | MPID_GREQUEST | MPID_REQUEST_MPROBE | MPID_REQUEST_NBC | MPID_REQUEST_NOOP
  | MPID_REQUEST_RMA_GET | MPID_REQUEST_RMA_PUT | MPID_REQUEST_RMA_RESP

datatype msg_type = MPIDI_REQUEST_NO_MSG | MPIDI_REQUEST_EAGER_MSG | MPIDI_REQUEST_RNDV_MSG | MPIDI_REQUEST_SELF_MSG
datatype req_type = MPIDI_REQUEST_TYPE_RECV | MPIDI_REQUEST_TYPE_SEND | MPIDI_REQUEST_TYPE_RSEND | MPIDI_REQUEST_TYPE_SSEND
  | MPIDI_REQUEST_TYPE_BSEND

text \<open>
  The fields of a request the receive path uses. Communicators are addresses.
\<close>

record MPID_Request =
  rq_handle :: int
  rq_ref_count :: int
  rq_kind :: MPID_Request_kind_t
  rq_cc :: int
  rq_comm :: "addr option"
  rq_status :: MPIR_Status
  rq_match :: MPIDI_Message_match
  rq_user_buf :: int
  rq_user_count :: int
  rq_datatype :: TypeHandle
  rq_sender_req_id :: int
  rq_msg_type :: msg_type
  rq_req_type :: req_type
  rq_sync_ack :: bool
  rq_recv_data_sz :: int
  rq_cancel_pending :: bool
  rq_recv_pending_count :: int
  rq_partner_request :: "addr option"
  rq_next :: "addr option"

type_synonym heap = "addr \<rightharpoonup> MPID_Request"

text \<open>A pointer to a request pointer: to the head of a queue or to the \<open>next\<close> field of a request.\<close>

datatype link = Head | Next addr

text \<open>
  \<open>m_pTail\<close> is what \<open>CONTAINING_RECORD\<close> makes of such a pointer: the request of the \<open>next\<close>
  field, or, for the head, a value that is no request (as is the initial value).
\<close>

record CRequestQueue =
  m_pHead :: "addr option"
  m_pTail :: link

definition empty_queue :: CRequestQueue where
  "empty_queue = \<lparr>m_pHead = None, m_pTail = Head\<rparr>"

definition upd :: "heap \<Rightarrow> addr \<Rightarrow> (MPID_Request \<Rightarrow> MPID_Request) \<Rightarrow> heap option" where
  "upd h a f = map_option (\<lambda>r. h(a \<mapsto> f r)) (h a)"

definition deref :: "heap \<Rightarrow> CRequestQueue \<Rightarrow> link \<Rightarrow> addr option option" where
  "deref h q l = (case l of Head \<Rightarrow> Some (m_pHead q) | Next a \<Rightarrow> map_option rq_next (h a))"

definition assign :: "heap \<Rightarrow> CRequestQueue \<Rightarrow> link \<Rightarrow> addr option \<Rightarrow> (heap \<times> CRequestQueue) option" where
  "assign h q l v = (case l of
     Head \<Rightarrow> Some (h, q\<lparr>m_pHead := v\<rparr>)
   | Next a \<Rightarrow> map_option (\<lambda>h'. (h', q)) (upd h a (rq_next_update (\<lambda>_. v))))"

definition enqueue :: "addr \<Rightarrow> heap \<times> CRequestQueue \<Rightarrow> (heap \<times> CRequestQueue) option" where
  "enqueue pReq = (\<lambda>(h, q). do {
     h \<leftarrow> upd h pReq (rq_next_update (\<lambda>_. None));
     (h, q) \<leftarrow> (if m_pHead q = None then Some (h, q\<lparr>m_pHead := Some pReq\<rparr>)
       else case m_pTail q of
         Head \<Rightarrow> None
       | Next t \<Rightarrow> map_option (\<lambda>h'. (h', q)) (upd h t (rq_next_update (\<lambda>_. Some pReq))));
     Some (h, q\<lparr>m_pTail := Next pReq\<rparr>)
   })"

definition remove :: "link \<Rightarrow> heap \<times> CRequestQueue \<Rightarrow> (heap \<times> CRequestQueue) option" where
  "remove ppReq = (\<lambda>(h, q). do {
     v \<leftarrow> deref h q ppReq;
     a \<leftarrow> v;
     let q = (if m_pTail q = Next a then q\<lparr>m_pTail := ppReq\<rparr> else q);
     r \<leftarrow> h a;
     assign h q ppReq (rq_next r)
   })"

text \<open>
  The loops over a queue: they stop at the first request that passes a test, with the pointer
  that points to it.
\<close>

partial_function (option) search_from ::
  "(addr \<Rightarrow> MPID_Request \<Rightarrow> bool) \<Rightarrow> heap \<Rightarrow> CRequestQueue \<Rightarrow> link \<Rightarrow> (link \<times> addr) option option" where
  "search_from test h q preq = do {
     v \<leftarrow> deref h q preq;
     case v of
       None \<Rightarrow> Some None
     | Some a \<Rightarrow> do {
         r \<leftarrow> h a;
         if test a r then Some (Some (preq, a)) else search_from test h q (Next a)
       }
   }"

declare search_from.simps [code]

subsection \<open>Queues as lists\<close>

lemma same_next: "rq_next r = v \<Longrightarrow> r\<lparr>rq_next := v\<rparr> = (r :: MPID_Request)"
  by (cases r) simp

fun chain :: "heap \<Rightarrow> addr option \<Rightarrow> addr list \<Rightarrow> bool" where
  "chain h v [] \<longleftrightarrow> v = None"
| "chain h v (a # as) \<longleftrightarrow> v = Some a \<and> (\<exists>r. h a = Some r \<and> chain h (rq_next r) as)"

definition is_queue :: "heap \<Rightarrow> CRequestQueue \<Rightarrow> addr list \<Rightarrow> bool" where
  "is_queue h q xs \<longleftrightarrow> chain h (m_pHead q) xs \<and> distinct xs \<and> (xs \<noteq> [] \<longrightarrow> m_pTail q = Next (last xs))"

text \<open>The pointer to the entry after \<open>xs\<close>.\<close>

definition link_after :: "addr list \<Rightarrow> link" where
  "link_after xs = (if xs = [] then Head else Next (last xs))"

lemma link_after_simps [simp]: "link_after [] = Head" "link_after (xs @ [a]) = Next a"
  by (simp_all add: link_after_def)

lemma is_queue_empty [simp]: "is_queue h empty_queue []"
  by (simp add: is_queue_def empty_queue_def)

text \<open>Two heaps with the same links at the entries of a queue.\<close>

definition same_links :: "addr set \<Rightarrow> heap \<Rightarrow> heap \<Rightarrow> bool" where
  "same_links A h h' \<longleftrightarrow> (\<forall>a\<in>A. map_option rq_next (h' a) = map_option rq_next (h a))"

lemma chain_same_links: "chain h v xs \<Longrightarrow> same_links (set xs) h h' \<Longrightarrow> chain h' v xs"
proof (induction xs arbitrary: v)
  case (Cons a xs)
  then obtain r where r: "v = Some a" "h a = Some r" "chain h (rq_next r) xs" by auto
  have "map_option rq_next (h' a) = Some (rq_next r)" using Cons.prems(2) r(2) by (simp add: same_links_def)
  then obtain r' where r': "h' a = Some r'" "rq_next r' = rq_next r" by auto
  have "chain h' (rq_next r) xs"
    using Cons.IH [OF r(3)] Cons.prems(2) by (simp add: same_links_def)
  then show ?case using r r' by simp
qed simp

lemma is_queue_same_links: "is_queue h q xs \<Longrightarrow> same_links (set xs) h h' \<Longrightarrow> is_queue h' q xs"
  by (auto simp: is_queue_def intro: chain_same_links)

lemma same_links_upd: "a \<notin> A \<Longrightarrow> same_links A h (h(a := x))"
  by (auto simp: same_links_def)

lemma same_links_trans: "same_links A h h' \<Longrightarrow> same_links A h' h'' \<Longrightarrow> same_links A h h''"
  by (simp add: same_links_def)

lemma chain_append:
  "chain h v (xs @ ys) \<longleftrightarrow>
    (\<exists>w. chain h w ys \<and> (if xs = [] then w = v
       else \<exists>r. h (last xs) = Some r \<and> rq_next r = w \<and> chain (h(last xs \<mapsto> r\<lparr>rq_next := None\<rparr>)) v xs))"
  if "distinct (xs @ ys)"
  using that
proof (induction xs arbitrary: v)
  case (Cons a xs)
  show ?case
  proof (cases "xs = []")
    case False
    then have "a \<noteq> last xs" using Cons.prems last_in_set [of xs] by (metis distinct.simps(2) Un_iff append_Cons set_append)
    then show ?thesis using Cons False by auto
  qed auto
qed simp

lemma chain_in_heap: "chain h v xs \<Longrightarrow> a \<in> set xs \<Longrightarrow> \<exists>r. h a = Some r"
  by (induction xs arbitrary: v) auto

lemma is_queue_in_heap: "is_queue h q xs \<Longrightarrow> a \<in> set xs \<Longrightarrow> \<exists>r. h a = Some r"
  by (auto simp: is_queue_def intro: chain_in_heap)

lemma deref_link_after:
  assumes "is_queue h q (us @ vs)"
  shows "deref h q (link_after us) = Some (case vs of [] \<Rightarrow> None | a # _ \<Rightarrow> Some a)"
proof -
  have d: "distinct (us @ vs)" and c: "chain h (m_pHead q) (us @ vs)" using assms by (auto simp: is_queue_def)
  obtain w where w: "chain h w vs" "if us = [] then w = m_pHead q
       else \<exists>r. h (last us) = Some r \<and> rq_next r = w \<and> chain (h(last us \<mapsto> r\<lparr>rq_next := None\<rparr>)) (m_pHead q) us"
    using c chain_append [OF d] by metis
  have "w = (case vs of [] \<Rightarrow> None | a # _ \<Rightarrow> Some a)" using w(1) by (cases vs) auto
  moreover have "deref h q (link_after us) = Some w"
    using w(2) by (auto simp: deref_def link_after_def split: if_splits)
  ultimately show ?thesis by simp
qed

lemma search_from_step:
  assumes "is_queue h q (us @ vs)"
  shows "search_from test h q (link_after us) = (case vs of
      [] \<Rightarrow> Some None
    | a # ws \<Rightarrow> if test a (the (h a)) then Some (Some (link_after us, a))
        else search_from test h q (link_after (us @ [a])))"
proof (cases vs)
  case (Cons a ws)
  then obtain r where "h a = Some r" using is_queue_in_heap [OF assms, of a] by auto
  then show ?thesis using Cons deref_link_after [OF assms] by (simp add: search_from.simps)
qed (use deref_link_after [OF assms] in \<open>simp add: search_from.simps\<close>)

lemma search_from_none:
  "is_queue h q (us @ vs) \<Longrightarrow> \<forall>a\<in>set vs. \<not> test a (the (h a)) \<Longrightarrow> search_from test h q (link_after us) = Some None"
proof (induction vs arbitrary: us)
  case (Cons a vs)
  have "search_from test h q (link_after (us @ [a])) = Some None" by (rule Cons.IH) (use Cons.prems in auto)
  then show ?case using search_from_step [OF Cons.prems(1), of test] Cons.prems(2) by simp
qed (use search_from_step in fastforce)

lemma search_from_found:
  "is_queue h q (us @ ws @ a # vs) \<Longrightarrow> \<forall>b\<in>set ws. \<not> test b (the (h b)) \<Longrightarrow> test a (the (h a)) \<Longrightarrow>
   search_from test h q (link_after us) = Some (Some (link_after (us @ ws), a))"
proof (induction ws arbitrary: us)
  case (Cons b ws)
  have "search_from test h q (link_after (us @ [b])) = Some (Some (link_after ((us @ [b]) @ ws), a))"
    by (rule Cons.IH) (use Cons.prems in auto)
  then show ?case using search_from_step [OF Cons.prems(1), of test] Cons.prems(2) by simp
qed (use search_from_step in fastforce)

text \<open>The two results of a search from the head.\<close>

lemma search_cases:
  assumes "is_queue h q xs"
  obtains "\<forall>a\<in>set xs. \<not> test a (the (h a))" "search_from test h q Head = Some None"
  | us a vs where "xs = us @ a # vs" "\<forall>b\<in>set us. \<not> test b (the (h b))" "test a (the (h a))"
      "search_from test h q Head = Some (Some (link_after us, a))"
proof (cases "\<exists>a\<in>set xs. test a (the (h a))")
  case True
  then obtain us a vs where x: "xs = us @ a # vs" "test a (the (h a))" "\<forall>b\<in>set us. \<not> test b (the (h b))"
    using split_list_first_prop [of xs "\<lambda>a. test a (the (h a))"] by blast
  then show ?thesis using that(2) search_from_found [of h q "[]" us a vs test] assms by simp
next
  case False
  then show ?thesis using that(1) search_from_none [of h q "[]" xs test] assms by simp
qed

subsection \<open>Appending and removing\<close>

text \<open>A change of links only, at requests of a set.\<close>

definition relinked :: "addr set \<Rightarrow> heap \<Rightarrow> heap \<Rightarrow> bool" where
  "relinked A h h' \<longleftrightarrow> (\<forall>a. a \<notin> A \<longrightarrow> h' a = h a) \<and>
     (\<forall>a. map_option (rq_next_update (\<lambda>_. None)) (h' a) = map_option (rq_next_update (\<lambda>_. None)) (h a))"

lemma relinked_refl [simp]: "relinked A h h"
  by (simp add: relinked_def)

lemma relinked_mono: "relinked A h h' \<Longrightarrow> A \<subseteq> B \<Longrightarrow> relinked B h h'"
  by (auto simp: relinked_def)

lemma relinked_trans: "relinked A h h' \<Longrightarrow> relinked A h' h'' \<Longrightarrow> relinked A h h''"
  by (simp add: relinked_def)

lemma relinked_upd: "a \<in> A \<Longrightarrow> h a = Some r \<Longrightarrow> relinked A h (h(a \<mapsto> r\<lparr>rq_next := v\<rparr>))"
  by (simp add: relinked_def)

lemma relinked_same_links: "relinked A h h' \<Longrightarrow> A \<inter> B = {} \<Longrightarrow> same_links B h h'"
  by (auto simp: relinked_def same_links_def)

lemma relinked_fields:
  assumes "relinked A h h'" "h a = Some r"
  shows "\<exists>v. h' a = Some (r\<lparr>rq_next := v\<rparr>)"
proof -
  have "map_option (rq_next_update (\<lambda>_. None)) (h' a) = Some (r\<lparr>rq_next := None\<rparr>)"
    using assms unfolding relinked_def by simp
  then obtain r' where r': "h' a = Some r'" "r'\<lparr>rq_next := None\<rparr> = r\<lparr>rq_next := None\<rparr>" by auto
  have "r' = r\<lparr>rq_next := rq_next r'\<rparr>"
    using arg_cong [OF r'(2), of "rq_next_update (\<lambda>_. rq_next r')"] same_next [of r', OF refl] by simp
  then show ?thesis using r'(1) by metis
qed

lemma relinked_match: "relinked A h h' \<Longrightarrow> h a = Some r \<Longrightarrow> rq_match (the (h' a)) = rq_match r"
  using relinked_fields by fastforce

lemma enqueue_correct:
  assumes q: "is_queue h q xs" and a: "a \<notin> set xs" "h a = Some r"
  shows "\<exists>h' q'. enqueue a (h, q) = Some (h', q') \<and> is_queue h' q' (xs @ [a]) \<and> relinked (insert a (set xs)) h h'"
proof -
  let ?h = "h(a \<mapsto> r\<lparr>rq_next := None\<rparr>)"
  have up: "upd h a (rq_next_update (\<lambda>_. None)) = Some ?h" using a(2) by (simp add: upd_def)
  have qh: "is_queue ?h q xs" by (rule is_queue_same_links [OF q same_links_upd [OF a(1)]])
  have rh: "relinked (insert a (set xs)) h ?h" using a(2) by (intro relinked_upd) simp_all
  show ?thesis
  proof (cases xs rule: rev_cases)
    case Nil
    then have "m_pHead q = None" using q by (simp add: is_queue_def)
    then have "enqueue a (h, q) = Some (?h, q\<lparr>m_pHead := Some a, m_pTail := Next a\<rparr>)"
      using up by (simp add: enqueue_def)
    moreover have "is_queue ?h (q\<lparr>m_pHead := Some a, m_pTail := Next a\<rparr>) (xs @ [a])"
      using Nil by (simp add: is_queue_def)
    ultimately show ?thesis using rh by blast
  next
    case (snoc ys t)
    have head: "m_pHead q \<noteq> None" "m_pTail q = Next t" using q snoc by (auto simp: is_queue_def neq_Nil_conv) (cases ys; simp)
    obtain s where s: "?h t = Some s" using is_queue_in_heap [OF qh, of t] snoc by auto
    let ?h' = "?h(t \<mapsto> s\<lparr>rq_next := Some a\<rparr>)"
    have "t \<noteq> a" using a(1) snoc by auto
    have run: "enqueue a (h, q) = Some (?h', q\<lparr>m_pTail := Next a\<rparr>)"
    proof -
      have "upd ?h t (rq_next_update (\<lambda>_. Some a)) = Some ?h'" unfolding upd_def using s by simp
      then show ?thesis unfolding enqueue_def prod.case using up head by auto
    qed
    have d: "distinct (xs @ [a])" using q a(1) by (simp add: is_queue_def)
    have dx: "distinct (ys @ [t])" using d snoc by simp
    have "chain ?h (m_pHead q) (ys @ [t])" using qh snoc by (simp add: is_queue_def)
    then obtain w where w: "chain ?h w [t]" "if ys = [] then w = m_pHead q
       else \<exists>r. ?h (last ys) = Some r \<and> rq_next r = w \<and> chain (?h(last ys \<mapsto> r\<lparr>rq_next := None\<rparr>)) (m_pHead q) ys"
      using chain_append [OF dx] by metis
    have "rq_next s = None" using w(1) s by simp
    have "?h(t \<mapsto> s\<lparr>rq_next := None\<rparr>) = ?h"
      using s same_next [OF \<open>rq_next s = None\<close>] fun_upd_triv [of ?h t] by metis
    then have old: "chain (?h(t \<mapsto> s\<lparr>rq_next := None\<rparr>)) (m_pHead q) xs"
      using qh unfolding is_queue_def by argo
    have "chain ?h' (m_pHead q) (xs @ [a])"
    proof (subst chain_append [OF d], intro exI [of _ "Some a"] conjI)
      show "chain ?h' (Some a) [a]" using \<open>t \<noteq> a\<close> by simp
      have "?h'(t \<mapsto> s\<lparr>rq_next := Some a, rq_next := None\<rparr>) = ?h(t \<mapsto> s\<lparr>rq_next := None\<rparr>)" by auto
      then show "if xs = [] then Some a = m_pHead q else \<exists>r. ?h' (last xs) = Some r \<and> rq_next r = Some a \<and>
          chain (?h'(last xs \<mapsto> r\<lparr>rq_next := None\<rparr>)) (m_pHead q) xs"
        using snoc old by simp
    qed
    then have "is_queue ?h' (q\<lparr>m_pTail := Next a\<rparr>) (xs @ [a])" using d by (simp add: is_queue_def)
    moreover have "relinked (insert a (set xs)) h ?h'"
      by (rule relinked_trans [OF rh relinked_upd]) (use s snoc in auto)
    ultimately show ?thesis using run by blast
  qed
qed

lemma remove_correct:
  assumes q: "is_queue h q (us @ a # vs)"
  shows "\<exists>h' q'. remove (link_after us) (h, q) = Some (h', q') \<and> is_queue h' q' (us @ vs) \<and> relinked (set us) h h'"
proof -
  have d: "distinct (us @ a # vs)" and c: "chain h (m_pHead q) (us @ a # vs)"
    and tail: "m_pTail q = Next (last (a # vs))" using q by (auto simp: is_queue_def)
  have at: "deref h q (link_after us) = Some (Some a)" using deref_link_after [OF q] by simp
  obtain r where r: "h a = Some r" using is_queue_in_heap [OF q, of a] by auto
  obtain w where w: "chain h w (a # vs)" "if us = [] then w = m_pHead q
       else \<exists>r. h (last us) = Some r \<and> rq_next r = w \<and> chain (h(last us \<mapsto> r\<lparr>rq_next := None\<rparr>)) (m_pHead q) us"
    using c chain_append [OF d] by metis
  have rest: "chain h (rq_next r) vs" using w(1) r by simp
  define q1 where "q1 = (if m_pTail q = Next a then q\<lparr>m_pTail := link_after us\<rparr> else q)"
  have head: "m_pHead q1 = m_pHead q" by (simp add: q1_def)
  have tail1: "us @ vs \<noteq> [] \<Longrightarrow> m_pTail q1 = Next (last (us @ vs))"
  proof -
    assume ne: "us @ vs \<noteq> []"
    show ?thesis
    proof (cases "vs = []")
      case True
      then show ?thesis using tail ne by (simp add: q1_def link_after_def)
    next
      case False
      then have "last (a # vs) \<noteq> a" using d last_in_set [of vs] by fastforce
      then show ?thesis using tail False by (simp add: q1_def)
    qed
  qed
  have run: "remove (link_after us) (h, q) = assign h q1 (link_after us) (rq_next r)"
    using at r by (simp add: remove_def q1_def Let_def)
  show ?thesis
  proof (cases "us = []")
    case True
    have "is_queue h (q1\<lparr>m_pHead := rq_next r\<rparr>) (us @ vs)"
      using True rest d tail1 by (simp add: is_queue_def)
    then show ?thesis using run True by (simp add: assign_def)
  next
    case False
    obtain s where s: "h (last us) = Some s" "chain (h(last us \<mapsto> s\<lparr>rq_next := None\<rparr>)) (m_pHead q) us"
      using w(2) False by auto
    let ?h = "h(last us \<mapsto> s\<lparr>rq_next := rq_next r\<rparr>)"
    have run': "remove (link_after us) (h, q) = Some (?h, q1)"
      using run False s(1) by (simp add: assign_def link_after_def upd_def)
    have d': "distinct (us @ vs)" "last us \<notin> set vs" using d last_in_set [OF False] by auto
    have "chain ?h (m_pHead q1) (us @ vs)"
    proof (subst chain_append [OF d'(1)], intro exI [of _ "rq_next r"] conjI)
      show "chain ?h (rq_next r) vs" by (rule chain_same_links [OF rest same_links_upd [OF d'(2)]])
      show "if us = [] then rq_next r = m_pHead q1 else \<exists>x. ?h (last us) = Some x \<and> rq_next x = rq_next r \<and>
          chain (?h(last us \<mapsto> x\<lparr>rq_next := None\<rparr>)) (m_pHead q1) us"
        using False s(2) head by simp
    qed
    then have "is_queue ?h q1 (us @ vs)" using d'(1) tail1 by (simp add: is_queue_def)
    moreover have "relinked (set us) h ?h" using s(1) False by (intro relinked_upd) simp_all
    ultimately show ?thesis using run' by blast
  qed
qed

end
