(* ===== verification/Recv_Matching.thy ===== *)
theory Recv_Matching
  imports Prelude "HOL-Library.Sublist"
begin

text \<open>
  What a receiver promises about the order in which messages and receives are matched. The locale
  \<open>recv_matching\<close> is the interface of the matching engine: pending receives and pending messages
  in the order of their posting and arrival; a posted receive takes the first pending message it
  matches, an arriving message the first pending receive that matches it. From that follows, for
  every history, that matches do not overtake each other and that nothing is matched twice.
\<close>

datatype ('a, 'e, 'f) event =
    Posted 'a 'f | Received 'a 'f | Arrived 'a 'e | Delivered 'a 'e | Dropped

text \<open>
  The history of a receiver: the number of the events so far, when the pending receives and
  messages were posted or came in, and the matches, each with the time and the envelope of the
  message and the time and the pattern of the receive.
\<close>

datatype ('e, 'f) matched = Matched (msg_time: nat) (msg_env: 'e) (rcv_time: nat) (rcv_pat: 'f)

record ('a, 'e, 'f) history =
  now :: nat
  since :: "'a \<Rightarrow> nat"
  envelope :: "'a \<Rightarrow> 'e"
  pattern :: "'a \<Rightarrow> 'f"
  matches_made :: "('e, 'f) matched list"

fun record_event :: "('a, 'e, 'f) event \<Rightarrow> ('a, 'e, 'f) history \<Rightarrow> ('a, 'e, 'f) history" where
  "record_event (Posted a f) h = h\<lparr>now := Suc (now h), since := (since h)(a := now h), pattern := (pattern h)(a := f)\<rparr>"
| "record_event (Arrived a e) h = h\<lparr>now := Suc (now h), since := (since h)(a := now h), envelope := (envelope h)(a := e)\<rparr>"
| "record_event (Received a f) h = h\<lparr>now := Suc (now h),
     matches_made := Matched (since h a) (envelope h a) (now h) f # matches_made h\<rparr>"
| "record_event (Delivered a e) h = h\<lparr>now := Suc (now h),
     matches_made := Matched (now h) e (since h a) (pattern h a) # matches_made h\<rparr>"
| "record_event Dropped h = h"

inductive traced ::
  "('s \<Rightarrow> ('a, 'e, 'f) event \<Rightarrow> 's \<Rightarrow> bool) \<Rightarrow> 's \<Rightarrow> ('a, 'e, 'f) history \<Rightarrow> 's \<Rightarrow> ('a, 'e, 'f) history \<Rightarrow> bool"
  for step s h where
  traced_refl: "traced step s h s h"
| traced_step: "traced step s h s' h' \<Longrightarrow> step s' ev s'' \<Longrightarrow> traced step s h s'' (record_event ev h')"

definition no_history :: "('a, 'e, 'f) history" where
  "no_history = \<lparr>now = 0, since = (\<lambda>_. 0), envelope = (\<lambda>_. undefined), pattern = (\<lambda>_. undefined), matches_made = []\<rparr>"

subsection \<open>Ordered matches\<close>

text \<open>
  The invariant, for the pending receives and messages as pairs of time and pattern or envelope:
  in order of time, before the present, none matching another, and consistent with the matches.
\<close>

definition timeline :: "nat \<Rightarrow> (nat \<times> 'x) list \<Rightarrow> bool" where
  "timeline t xs \<longleftrightarrow> sorted_wrt (\<lambda>x y. fst x < fst y) xs \<and> (\<forall>x\<in>set xs. fst x < t)"

definition in_order :: "('e \<Rightarrow> 'f \<Rightarrow> bool) \<Rightarrow> ('e, 'f) matched set \<Rightarrow> bool" where
  "in_order matches L \<longleftrightarrow> (\<forall>x\<in>L. \<forall>y\<in>L. msg_time x < msg_time y \<and> matches (msg_env x) (rcv_pat y) \<longrightarrow>
     rcv_time x < rcv_time y)"

definition genuine :: "('e \<Rightarrow> 'f \<Rightarrow> bool) \<Rightarrow> nat \<Rightarrow> ('e, 'f) matched set \<Rightarrow> bool" where
  "genuine matches t L \<longleftrightarrow> (\<forall>x\<in>L. matches (msg_env x) (rcv_pat x) \<and> msg_time x < t \<and> rcv_time x < t)"

definition before_receives :: "('e \<Rightarrow> 'f \<Rightarrow> bool) \<Rightarrow> ('e, 'f) matched set \<Rightarrow> (nat \<times> 'f) set \<Rightarrow> bool" where
  "before_receives matches L R \<longleftrightarrow> (\<forall>x\<in>L. \<forall>r\<in>R. rcv_time x \<noteq> fst r \<and> (matches (msg_env x) (snd r) \<longrightarrow> rcv_time x < fst r))"

definition before_messages :: "('e \<Rightarrow> 'f \<Rightarrow> bool) \<Rightarrow> ('e, 'f) matched set \<Rightarrow> (nat \<times> 'e) set \<Rightarrow> bool" where
  "before_messages matches L M \<longleftrightarrow> (\<forall>x\<in>L. \<forall>m\<in>M. msg_time x \<noteq> fst m \<and> (matches (snd m) (rcv_pat x) \<longrightarrow> msg_time x < fst m))"

definition once :: "('e, 'f) matched list \<Rightarrow> bool" where
  "once L \<longleftrightarrow> distinct (map msg_time L) \<and> distinct (map rcv_time L)"

definition unmatched :: "('e \<Rightarrow> 'f \<Rightarrow> bool) \<Rightarrow> (nat \<times> 'f) set \<Rightarrow> (nat \<times> 'e) set \<Rightarrow> bool" where
  "unmatched matches R M \<longleftrightarrow> (\<forall>r\<in>R. \<forall>m\<in>M. \<not> matches (snd m) (snd r))"

definition ordered ::
  "('e \<Rightarrow> 'f \<Rightarrow> bool) \<Rightarrow> nat \<Rightarrow> (nat \<times> 'f) list \<Rightarrow> (nat \<times> 'e) list \<Rightarrow> ('e, 'f) matched list \<Rightarrow> bool" where
  "ordered matches t R M L \<longleftrightarrow> timeline t R \<and> timeline t M \<and> unmatched matches (set R) (set M) \<and>
     genuine matches t (set L) \<and> in_order matches (set L) \<and>
     before_receives matches (set L) (set R) \<and> before_messages matches (set L) (set M) \<and> once L"

lemma timeline_snoc: "timeline t xs \<Longrightarrow> timeline (Suc t) (xs @ [(t, x)])"
  by (auto simp: timeline_def sorted_wrt_append less_Suc_eq)

lemma timeline_Suc: "timeline t xs \<Longrightarrow> timeline (Suc t) xs"
  by (auto simp: timeline_def less_Suc_eq)

lemma timeline_split:
  "timeline t (us @ x # vs) \<Longrightarrow> fst x < t \<and> (\<forall>y\<in>set us. fst y < fst x) \<and> (\<forall>y\<in>set vs. fst x < fst y) \<and> timeline t (us @ vs)"
  by (auto simp: timeline_def sorted_wrt_append)

lemma genuine_Suc: "genuine matches t L \<Longrightarrow> genuine matches (Suc t) L"
  by (auto simp: genuine_def less_Suc_eq)

lemma subseq_set: "subseq xs ys \<Longrightarrow> set xs \<subseteq> set ys"
  by (auto elim: list_emb_set)

lemma subseq_timeline: "subseq xs ys \<Longrightarrow> timeline t ys \<Longrightarrow> timeline t xs"
proof -
  assume xs: "subseq xs ys"
  then have "sorted_wrt r ys \<Longrightarrow> sorted_wrt r xs" for r
    by (induction rule: list_emb.induct) (auto dest: subseq_set)
  then show "timeline t ys \<Longrightarrow> timeline t xs" using subseq_set [OF xs] by (auto simp: timeline_def)
qed

lemma ordered_post:
  assumes inv: "ordered matches t R M L" and none: "\<forall>m\<in>set M. \<not> matches (snd m) f"
  shows "ordered matches (Suc t) (R @ [(t, f)]) M L"
proof -
  have "unmatched matches (set (R @ [(t, f)])) (set M)" using inv none by (auto simp: ordered_def unmatched_def)
  moreover have "before_receives matches (set L) (set (R @ [(t, f)]))"
    using inv by (auto simp: ordered_def before_receives_def genuine_def)
  ultimately show ?thesis
    using inv by (simp add: ordered_def timeline_snoc timeline_Suc genuine_Suc del: set_append)
qed

lemma ordered_arrive:
  assumes inv: "ordered matches t R M L" and none: "\<forall>r\<in>set R. \<not> matches e (snd r)"
  shows "ordered matches (Suc t) R (M @ [(t, e)]) L"
proof -
  have "unmatched matches (set R) (set (M @ [(t, e)]))" using inv none by (auto simp: ordered_def unmatched_def)
  moreover have "before_messages matches (set L) (set (M @ [(t, e)]))"
    using inv by (auto simp: ordered_def before_messages_def genuine_def)
  ultimately show ?thesis
    using inv by (simp add: ordered_def timeline_snoc timeline_Suc genuine_Suc del: set_append)
qed

lemma ordered_drop:
  assumes inv: "ordered matches t R M L" and sub: "subseq R' R" "subseq M' M"
  shows "ordered matches t R' M' L"
proof -
  have "set R' \<subseteq> set R" "set M' \<subseteq> set M" using sub by (simp_all add: subseq_set)
  then have "unmatched matches (set R') (set M')" "before_receives matches (set L) (set R')"
    "before_messages matches (set L) (set M')"
    using inv unfolding ordered_def unmatched_def before_receives_def before_messages_def by blast+
  then show ?thesis using inv sub by (simp add: ordered_def subseq_timeline)
qed

lemma once_Cons:
  "once L \<Longrightarrow> \<forall>x\<in>set L. msg_time x \<noteq> m \<and> rcv_time x \<noteq> r \<Longrightarrow> once (Matched m e r f # L)"
  by (auto simp: once_def)

lemma ordered_receive:
  assumes inv: "ordered matches t R (us @ (m, e) # vs) L"
    and e: "matches e f" "\<forall>x\<in>set us. \<not> matches (snd x) f"
  shows "ordered matches (Suc t) R (us @ vs) (Matched m e t f # L)"
proof -
  let ?M = "us @ (m, e) # vs" and ?L = "Matched m e t f # L"
  have tM: "timeline t ?M" and tR: "timeline t R" and un: "unmatched matches (set R) (set ?M)"
    and gen: "genuine matches t (set L)" and ord: "in_order matches (set L)"
    and bR: "before_receives matches (set L) (set R)" and bM: "before_messages matches (set L) (set ?M)"
    and one: "once L"
    using inv unfolding ordered_def by blast+
  have M: "m < t" "\<forall>y\<in>set us. fst y < m" "\<forall>y\<in>set vs. m < fst y" "timeline t (us @ vs)"
    using timeline_split [OF tM] by auto
  have old: "msg_time x \<noteq> m \<and> rcv_time x < t \<and> (matches e (rcv_pat x) \<longrightarrow> msg_time x < m)" if "x \<in> set L" for x
    using that bM gen by (auto simp: before_messages_def genuine_def)
  have "in_order matches (set ?L)"
    using ord old unfolding in_order_def by (auto dest: order.strict_trans)
  moreover have "before_receives matches (set ?L) (set R)"
    using bR un tR by (auto simp: before_receives_def unmatched_def timeline_def)
  moreover have "before_messages matches (set ?L) (set (us @ vs))"
    using bM M(2,3) e(2) by (auto simp: before_messages_def)
  moreover have "once ?L" using once_Cons [OF one, of m t e f] old by fastforce
  moreover have "genuine matches (Suc t) (set ?L)"
    using genuine_Suc [OF gen] M(1) e(1) by (simp add: genuine_def)
  moreover have "unmatched matches (set R) (set (us @ vs))" using un by (auto simp: unmatched_def)
  ultimately show ?thesis unfolding ordered_def using timeline_Suc [OF tR] timeline_Suc [OF M(4)] by blast
qed

lemma ordered_deliver:
  assumes inv: "ordered matches t (us @ (r, f) # vs) M L"
    and e: "matches e f" "\<forall>x\<in>set us. \<not> matches e (snd x)"
  shows "ordered matches (Suc t) (us @ vs) M (Matched t e r f # L)"
proof -
  let ?R = "us @ (r, f) # vs" and ?L = "Matched t e r f # L"
  have tM: "timeline t M" and tR: "timeline t ?R" and un: "unmatched matches (set ?R) (set M)"
    and gen: "genuine matches t (set L)" and ord: "in_order matches (set L)"
    and bR: "before_receives matches (set L) (set ?R)" and bM: "before_messages matches (set L) (set M)"
    and one: "once L"
    using inv unfolding ordered_def by blast+
  have R: "r < t" "\<forall>y\<in>set us. fst y < r" "\<forall>y\<in>set vs. r < fst y" "timeline t (us @ vs)"
    using timeline_split [OF tR] by auto
  have old: "rcv_time x \<noteq> r \<and> msg_time x < t \<and> (matches (msg_env x) f \<longrightarrow> rcv_time x < r)" if "x \<in> set L" for x
    using that bR gen by (auto simp: before_receives_def genuine_def)
  have "\<not> t < msg_time x" if "x \<in> set L" for x using old [OF that] by simp
  then have "in_order matches (set ?L)"
    using ord old unfolding in_order_def by auto
  moreover have "before_messages matches (set ?L) (set M)"
    using bM un tM by (auto simp: before_messages_def unmatched_def timeline_def)
  moreover have "before_receives matches (set ?L) (set (us @ vs))"
    using bR R(2,3) e(2) by (auto simp: before_receives_def)
  moreover have "once ?L" using once_Cons [OF one, of t r e f] old by fastforce
  moreover have "genuine matches (Suc t) (set ?L)"
    using genuine_Suc [OF gen] R(1) e(1) by (simp add: genuine_def)
  moreover have "unmatched matches (set (us @ vs)) (set M)" using un by (auto simp: unmatched_def)
  ultimately show ?thesis unfolding ordered_def using timeline_Suc [OF tM] timeline_Suc [OF R(4)] by blast
qed

subsection \<open>The matching engine\<close>

text \<open>
  The interface: \<open>rel s P U\<close> says which receives and messages are pending in state \<open>s\<close>, in order.
\<close>

locale recv_matching =
  fixes matches :: "'e \<Rightarrow> 'f \<Rightarrow> bool"
    and rel :: "'s \<Rightarrow> ('a \<times> 'f) list \<Rightarrow> ('a \<times> 'e) list \<Rightarrow> bool"
    and step :: "'s \<Rightarrow> ('a, 'e, 'f) event \<Rightarrow> 's \<Rightarrow> bool"
  assumes posted: "step s (Posted a f) s' \<Longrightarrow> rel s P U \<Longrightarrow>
      (\<forall>u\<in>set U. \<not> matches (snd u) f) \<and> a \<notin> fst ` set (P) \<union> fst ` set U \<and> rel s' (P @ [(a, f)]) U"
    and received: "step s (Received a f) s' \<Longrightarrow> rel s P U \<Longrightarrow>
      \<exists>us e vs. U = us @ (a, e) # vs \<and> matches e f \<and> (\<forall>u\<in>set us. \<not> matches (snd u) f) \<and> rel s' P (us @ vs)"
    and arrived: "step s (Arrived a e) s' \<Longrightarrow> rel s P U \<Longrightarrow>
      (\<forall>p\<in>set P. \<not> matches e (snd p)) \<and> a \<notin> fst ` set P \<union> fst ` set U \<and> rel s' P (U @ [(a, e)])"
    and delivered: "step s (Delivered a e) s' \<Longrightarrow> rel s P U \<Longrightarrow>
      \<exists>us f vs. P = us @ (a, f) # vs \<and> matches e f \<and> (\<forall>p\<in>set us. \<not> matches e (snd p)) \<and> rel s' (us @ vs) U"
    and dropped: "step s Dropped s' \<Longrightarrow> rel s P U \<Longrightarrow> \<exists>P' U'. subseq P' P \<and> subseq U' U \<and> rel s' P' U'"
begin

text \<open>The pending receives and messages with their times.\<close>

definition timed :: "('a \<Rightarrow> nat) \<Rightarrow> ('a \<times> 'x) list \<Rightarrow> (nat \<times> 'x) list" where
  "timed b xs = map (\<lambda>(a, x). (b a, x)) xs"

definition inv :: "'s \<Rightarrow> ('a, 'e, 'f) history \<Rightarrow> bool" where
  "inv s h \<longleftrightarrow> (\<exists>P U. rel s P U \<and>
     ordered matches (now h) (timed (since h) P) (timed (since h) U) (matches_made h) \<and>
     (\<forall>(a, f)\<in>set P. pattern h a = f) \<and> (\<forall>(a, e)\<in>set U. envelope h a = e))"

lemma timed_append [simp]: "timed b (xs @ ys) = timed b xs @ timed b ys"
  by (simp add: timed_def)

lemma timed_Cons [simp]: "timed b ((a, x) # xs) = (b a, x) # timed b xs"
  by (simp add: timed_def)

lemma timed_Nil [simp]: "timed b [] = []"
  by (simp add: timed_def)

lemma timed_fresh: "a \<notin> fst ` set xs \<Longrightarrow> timed (b(a := t)) xs = timed b xs"
  by (auto simp: timed_def rev_image_eqI)

lemma timed_all: "(\<forall>y\<in>set (timed b xs). Q (snd y)) \<longleftrightarrow> (\<forall>x\<in>set xs. Q (snd x))"
  by (auto simp: timed_def)

lemma inv_step:
  assumes "inv s h" "step s ev s'"
  shows "inv s' (record_event ev h)"
proof -
  obtain P U where rel: "rel s P U"
    and ord: "ordered matches (now h) (timed (since h) P) (timed (since h) U) (matches_made h)"
    and pat: "\<forall>(a, f)\<in>set P. pattern h a = f" and env: "\<forall>(a, e)\<in>set U. envelope h a = e"
    using assms(1) unfolding inv_def by blast
  show ?thesis
  proof (cases ev)
    case (Posted a f)
    have p: "\<forall>u\<in>set U. \<not> matches (snd u) f" "a \<notin> fst ` set P" "a \<notin> fst ` set U" "rel s' (P @ [(a, f)]) U"
      using posted [OF _ rel] assms(2) Posted by auto
    have "ordered matches (Suc (now h)) (timed (since h) P @ [(now h, f)]) (timed (since h) U) (matches_made h)"
      by (rule ordered_post [OF ord]) (use p(1) in \<open>simp add: timed_all [where Q = "\<lambda>e. \<not> matches e f"]\<close>)
    moreover have "\<forall>(b, g)\<in>set (P @ [(a, f)]). ((pattern h)(a := f)) b = g"
      using pat p(2) by (auto simp: rev_image_eqI)
    ultimately show ?thesis
      unfolding inv_def using p(4) env Posted timed_fresh [OF p(2)] timed_fresh [OF p(3)]
      by (intro exI [of _ "P @ [(a, f)]"] exI [of _ U]) simp
  next
    case (Received a f)
    then obtain us e vs where u: "U = us @ (a, e) # vs" "matches e f" "\<forall>u\<in>set us. \<not> matches (snd u) f" "rel s' P (us @ vs)"
      using received [OF _ rel] assms(2) by blast
    have "ordered matches (Suc (now h)) (timed (since h) P) (timed (since h) us @ timed (since h) vs)
        (Matched (since h a) e (now h) f # matches_made h)"
      by (rule ordered_receive) (use ord u(1-3) in \<open>simp_all add: timed_all [where Q = "\<lambda>e. \<not> matches e f"]\<close>)
    then show ?thesis
      unfolding inv_def using u(1,4) pat env Received
      by (intro exI [of _ P] exI [of _ "us @ vs"]) simp
  next
    case (Arrived a e)
    have p: "\<forall>p\<in>set P. \<not> matches e (snd p)" "a \<notin> fst ` set P" "a \<notin> fst ` set U" "rel s' P (U @ [(a, e)])"
      using arrived [OF _ rel] assms(2) Arrived by auto
    have "ordered matches (Suc (now h)) (timed (since h) P) (timed (since h) U @ [(now h, e)]) (matches_made h)"
      by (rule ordered_arrive [OF ord]) (use p(1) in \<open>simp add: timed_all [where Q = "\<lambda>f. \<not> matches e f"]\<close>)
    moreover have "\<forall>(b, g)\<in>set (U @ [(a, e)]). ((envelope h)(a := e)) b = g"
      using env p(3) by (auto simp: rev_image_eqI)
    ultimately show ?thesis
      unfolding inv_def using p(4) pat Arrived timed_fresh [OF p(2)] timed_fresh [OF p(3)]
      by (intro exI [of _ P] exI [of _ "U @ [(a, e)]"]) simp
  next
    case (Delivered a e)
    then obtain us f vs where u: "P = us @ (a, f) # vs" "matches e f" "\<forall>p\<in>set us. \<not> matches e (snd p)" "rel s' (us @ vs) U"
      using delivered [OF _ rel] assms(2) by blast
    have "ordered matches (Suc (now h)) (timed (since h) us @ timed (since h) vs) (timed (since h) U)
        (Matched (now h) e (since h a) f # matches_made h)"
      by (rule ordered_deliver) (use ord u(1-3) in \<open>simp_all add: timed_all [where Q = "\<lambda>f. \<not> matches e f"]\<close>)
    then show ?thesis
      unfolding inv_def using u(1,4) pat env Delivered
      by (intro exI [of _ "us @ vs"] exI [of _ U]) simp
  next
    case Dropped
    then obtain P' U' where d: "subseq P' P" "subseq U' U" "rel s' P' U'"
      using dropped [OF _ rel] assms(2) by blast
    have "ordered matches (now h) (timed (since h) P') (timed (since h) U') (matches_made h)"
      by (rule ordered_drop [OF ord]) (use d in \<open>auto simp: timed_def intro: subseq_map\<close>)
    then show ?thesis
      unfolding inv_def using d pat env Dropped subseq_set [OF d(1)] subseq_set [OF d(2)]
      by (intro exI [of _ P'] exI [of _ U']) auto
  qed
qed

lemma inv_init: "rel s [] [] \<Longrightarrow> inv s no_history"
  by (intro exI [of _ "[]"] conjI | simp add: inv_def no_history_def ordered_def timeline_def unmatched_def
    genuine_def in_order_def before_receives_def before_messages_def once_def)+

lemma inv_traced: "traced step s h s' h' \<Longrightarrow> inv s h \<Longrightarrow> inv s' h'"
  by (induction rule: traced.induct) (auto intro: inv_step)

lemma no_overtaking:
  assumes run: "traced step s no_history s' h" and init: "rel s [] []"
  shows "in_order matches (set (matches_made h))"
    and "once (matches_made h)"
    and "\<forall>x\<in>set (matches_made h). matches (msg_env x) (rcv_pat x)"
    and "\<exists>P U. rel s' P U \<and> (\<forall>p\<in>set P. \<forall>u\<in>set U. \<not> matches (snd u) (snd p))"
proof -
  obtain P U where PU: "rel s' P U"
    and ord: "ordered matches (now h) (timed (since h) P) (timed (since h) U) (matches_made h)"
    using inv_traced [OF run inv_init [OF init]] unfolding inv_def by blast
  show "in_order matches (set (matches_made h))" "once (matches_made h)"
    "\<forall>x\<in>set (matches_made h). matches (msg_env x) (rcv_pat x)"
    using ord by (auto simp: ordered_def genuine_def)
  have "\<forall>p\<in>set P. \<forall>u\<in>set U. \<not> matches (snd u) (snd p)"
    using ord by (fastforce simp: ordered_def unmatched_def timed_def)
  then show "\<exists>P U. rel s' P U \<and> (\<forall>p\<in>set P. \<forall>u\<in>set U. \<not> matches (snd u) (snd p))" using PU by blast
qed

end

end
