(* ===== verification/Recv_Queues.thy ===== *)
theory Recv_Queues
  imports Recv_Queue Recv_Matching
begin

text \<open>
  The posted receives and the unexpected messages of a process (\<open>recvq_posted\<close>,
  \<open>recvq_unexpected\<close>) and the operations on them: the \<open>MPID_Recvq_*\<close> functions of
  \<open>packethandling.cpp\<close> with the wrappers of \<open>mpidimpl.h\<close> that run them under the queue lock
  (so that each is one atomic step), the reference counts of \<open>request.inl\<close>, and the probes of
  \<open>probe.cpp\<close>. The allocator of requests is an argument: it returns the address of a request
  object and what its memory holds. The operations refine list operations, and the locale
  \<open>recv_matching\<close> is interpreted on them.
\<close>

subsection \<open>State and matching\<close>

record recv_state =
  reqs :: heap
  recvq_posted :: CRequestQueue
  recvq_unexpected :: CRequestQueue
  comm_refs :: "addr \<Rightarrow> int"
  type_refs :: "addr \<Rightarrow> int"

type_synonym allocator = "heap \<Rightarrow> (addr \<times> MPID_Request) option"

definition MPI_ANY_SOURCE :: int where "MPI_ANY_SOURCE = - 2"
definition MPI_ANY_TAG :: int where "MPI_ANY_TAG = - 1"

definition matching :: "MPIDI_Message_match \<Rightarrow> MPIDI_Message_match \<Rightarrow> bool" where
  "matching match filt =
     (if m_context_id match \<noteq> m_context_id filt then False
      else if m_rank filt \<noteq> MPI_ANY_SOURCE \<and> m_rank match \<noteq> m_rank filt then False
      else if m_tag filt = MPI_ANY_TAG then m_tag match \<ge> 0
      else m_tag match = m_tag filt)"

definition MPI_Datatype_null :: TypeHandle where "MPI_Datatype_null = Predefined 0x0c000000"

subsection \<open>Requests\<close>

definition on_req :: "addr \<Rightarrow> (MPID_Request \<Rightarrow> MPID_Request) \<Rightarrow> recv_state \<Rightarrow> recv_state option" where
  "on_req a f s = map_option (\<lambda>h. s\<lparr>reqs := h\<rparr>) (upd (reqs s) a f)"

definition AddRef :: "addr \<Rightarrow> recv_state \<Rightarrow> recv_state option" where
  "AddRef a = on_req a (\<lambda>r. r\<lparr>rq_ref_count := i32 (rq_ref_count r + 1)\<rparr>)"

definition type_release :: "TypeHandle \<Rightarrow> recv_state \<Rightarrow> recv_state" where
  "type_release dt s = (case dt of
     Predefined _ \<Rightarrow> s
   | Derived d \<Rightarrow> s\<lparr>type_refs := (type_refs s)(d := i32 (type_refs s d - 1))\<rparr>)"

definition type_add_ref :: "TypeHandle \<Rightarrow> recv_state \<Rightarrow> recv_state" where
  "type_add_ref dt s = (case dt of
     Predefined _ \<Rightarrow> s
   | Derived d \<Rightarrow> s\<lparr>type_refs := (type_refs s)(d := i32 (type_refs s d + 1))\<rparr>)"

definition comm_add_ref :: "addr \<Rightarrow> recv_state \<Rightarrow> recv_state" where
  "comm_add_ref c s = s\<lparr>comm_refs := (comm_refs s)(c := i32 (comm_refs s c + 1))\<rparr>"

definition MPIDI_CH3_Request_destroy :: "addr \<Rightarrow> recv_state \<Rightarrow> recv_state option" where
  "MPIDI_CH3_Request_destroy a s = do {
     r \<leftarrow> reqs s a;
     let s = (case rq_comm r of None \<Rightarrow> s
       | Some c \<Rightarrow> s\<lparr>comm_refs := (comm_refs s)(c := i32 (comm_refs s c - 1))\<rparr>);
     let s = type_release (rq_datatype r) s;
     Some (s\<lparr>reqs := (reqs s)(a := None)\<rparr>)
   }"

definition Release :: "addr \<Rightarrow> recv_state \<Rightarrow> recv_state option" where
  "Release a s = do {
     r \<leftarrow> reqs s a;
     let v = i32 (rq_ref_count r - 1);
     s \<leftarrow> on_req a (rq_ref_count_update (\<lambda>_. v)) s;
     if v = 0 then MPIDI_CH3_Request_destroy a s else Some s
   }"

definition signal_completion :: "addr \<Rightarrow> recv_state \<Rightarrow> recv_state option" where
  "signal_completion a = on_req a (\<lambda>r. r\<lparr>rq_cc := i32 (rq_cc r - 1)\<rparr>)"

text \<open>A new request; \<open>None\<close> for its address is the null pointer.\<close>

definition MPID_Request_create_base ::
  "allocator \<Rightarrow> MPID_Request_kind_t \<Rightarrow> recv_state \<Rightarrow> recv_state \<times> addr option" where
  "MPID_Request_create_base alloc kind s = (case alloc (reqs s) of
     None \<Rightarrow> (s, None)
   | Some (a, r) \<Rightarrow> (s\<lparr>reqs := (reqs s)(a \<mapsto> r\<lparr>rq_ref_count := 1, rq_kind := kind, rq_cc := 1,
       rq_status := (rq_status r)\<lparr>st_error := None, st_cancelled := False\<rparr>,
       rq_msg_type := MPIDI_REQUEST_NO_MSG, rq_req_type := MPIDI_REQUEST_TYPE_RECV, rq_sync_ack := False,
       rq_datatype := MPI_Datatype_null, rq_cancel_pending := False\<rparr>)\<rparr>, Some a))"

definition MPIDI_Request_create_rreq :: "allocator \<Rightarrow> recv_state \<Rightarrow> recv_state \<times> addr option" where
  "MPIDI_Request_create_rreq alloc s = (case MPID_Request_create_base alloc MPID_REQUEST_RECV s of
     (s, None) \<Rightarrow> (s, None)
   | (s, Some a) \<Rightarrow> (s\<lparr>reqs := (reqs s)(a := map_option (rq_comm_update (\<lambda>_. None)) (reqs s a))\<rparr>, Some a))"

subsection \<open>The queue operations\<close>

definition search_unexpected :: "(MPID_Request \<Rightarrow> bool) \<Rightarrow> recv_state \<Rightarrow> (link \<times> addr) option option" where
  "search_unexpected test s = search_from (\<lambda>_. test) (reqs s) (recvq_unexpected s) Head"

definition search_posted :: "(addr \<Rightarrow> MPID_Request \<Rightarrow> bool) \<Rightarrow> recv_state \<Rightarrow> (link \<times> addr) option option" where
  "search_posted test s = search_from test (reqs s) (recvq_posted s) Head"

definition remove_unexpected :: "link \<Rightarrow> recv_state \<Rightarrow> recv_state option" where
  "remove_unexpected preq s = map_option (\<lambda>(h, q). s\<lparr>reqs := h, recvq_unexpected := q\<rparr>) (remove preq (reqs s, recvq_unexpected s))"

definition remove_posted :: "link \<Rightarrow> recv_state \<Rightarrow> recv_state option" where
  "remove_posted preq s = map_option (\<lambda>(h, q). s\<lparr>reqs := h, recvq_posted := q\<rparr>) (remove preq (reqs s, recvq_posted s))"

definition enqueue_unexpected :: "addr \<Rightarrow> recv_state \<Rightarrow> recv_state option" where
  "enqueue_unexpected a s = map_option (\<lambda>(h, q). s\<lparr>reqs := h, recvq_unexpected := q\<rparr>) (enqueue a (reqs s, recvq_unexpected s))"

definition enqueue_posted :: "addr \<Rightarrow> recv_state \<Rightarrow> recv_state option" where
  "enqueue_posted a s = map_option (\<lambda>(h, q). s\<lparr>reqs := h, recvq_posted := q\<rparr>) (enqueue a (reqs s, recvq_posted s))"

abbreviation filter_of :: "int \<Rightarrow> int \<Rightarrow> 128 word \<Rightarrow> MPIDI_Message_match" where
  "filter_of source tag context_id \<equiv> \<lparr>m_tag = tag, m_rank = source, m_context_id = context_id\<rparr>"

text \<open>The result is the status of the message that was found.\<close>

definition MPID_Recvq_probe_msg :: "int \<Rightarrow> int \<Rightarrow> 128 word \<Rightarrow> recv_state \<Rightarrow> MPIR_Status option option" where
  "MPID_Recvq_probe_msg source tag context_id s = do {
     found \<leftarrow> search_unexpected (\<lambda>r. matching (rq_match r) (filter_of source tag context_id)) s;
     case found of
       None \<Rightarrow> Some None
     | Some (_, a) \<Rightarrow> do { r \<leftarrow> reqs s a; Some (Some (rq_status r)) }
   }"

definition MPID_Recvq_probe_dq_msg ::
  "int \<Rightarrow> int \<Rightarrow> 128 word \<Rightarrow> recv_state \<Rightarrow> (recv_state \<times> addr option) option" where
  "MPID_Recvq_probe_dq_msg source tag context_id s = do {
     found \<leftarrow> search_unexpected (\<lambda>r. matching (rq_match r) (filter_of source tag context_id)) s;
     case found of
       None \<Rightarrow> Some (s, None)
     | Some (preq, a) \<Rightarrow> do { s \<leftarrow> remove_unexpected preq s; Some (s, Some a) }
   }"

definition MPID_Recvq_dq_msg_by_id ::
  "int \<Rightarrow> MPIDI_Message_match \<Rightarrow> recv_state \<Rightarrow> (recv_state \<times> addr option) option" where
  "MPID_Recvq_dq_msg_by_id sreq_id match s = do {
     found \<leftarrow> search_unexpected (\<lambda>r. rq_sender_req_id r = sreq_id \<and> matching (rq_match r) match) s;
     case found of
       None \<Rightarrow> Some (s, None)
     | Some (preq, a) \<Rightarrow> do { s \<leftarrow> remove_unexpected preq s; Some (s, Some a) }
   }"

text \<open>The functions that find an entry in one queue or add one to the other: state, request, found.\<close>

definition MPID_Recvq_dq_unexpected_or_new_posted_unsafe ::
  "allocator \<Rightarrow> int \<Rightarrow> int \<Rightarrow> 128 word \<Rightarrow> recv_state \<Rightarrow> (recv_state \<times> addr option \<times> bool) option" where
  "MPID_Recvq_dq_unexpected_or_new_posted_unsafe alloc source tag context_id s = do {
     found \<leftarrow> search_unexpected (\<lambda>r. matching (rq_match r) (filter_of source tag context_id)) s;
     case found of
       Some (preq, a) \<Rightarrow> do { s \<leftarrow> remove_unexpected preq s; Some (s, Some a, True) }
     | None \<Rightarrow> (case MPIDI_Request_create_rreq alloc s of
           (s, None) \<Rightarrow> Some (s, None, False)
         | (s, Some a) \<Rightarrow> do {
             s \<leftarrow> on_req a (rq_match_update (\<lambda>_. filter_of source tag context_id)) s;
             s \<leftarrow> AddRef a s;
             s \<leftarrow> enqueue_posted a s;
             Some (s, Some a, False)
           })
   }"

definition MPID_Recvq_dq_posted_or_new_unexpected_unsafe ::
  "allocator \<Rightarrow> MPIDI_Message_match \<Rightarrow> recv_state \<Rightarrow> (recv_state \<times> addr option \<times> bool) option" where
  "MPID_Recvq_dq_posted_or_new_unexpected_unsafe alloc match s = do {
     found \<leftarrow> search_posted (\<lambda>_ r. matching match (rq_match r)) s;
     case found of
       Some (preq, a) \<Rightarrow> do { s \<leftarrow> remove_posted preq s; Some (s, Some a, True) }
     | None \<Rightarrow> (case MPIDI_Request_create_rreq alloc s of
           (s, None) \<Rightarrow> Some (s, None, False)
         | (s, Some a) \<Rightarrow> do {
             s \<leftarrow> on_req a (rq_match_update (\<lambda>_. match)) s;
             s \<leftarrow> AddRef a s;
             s \<leftarrow> enqueue_unexpected a s;
             Some (s, Some a, False)
           })
   }"

definition MPID_Recvq_dq_recv :: "addr \<Rightarrow> recv_state \<Rightarrow> (recv_state \<times> addr option) option" where
  "MPID_Recvq_dq_recv rreq s = do {
     found \<leftarrow> search_posted (\<lambda>a _. a = rreq) s;
     case found of
       None \<Rightarrow> Some (s, None)
     | Some (preq, a) \<Rightarrow> do { s \<leftarrow> remove_posted preq s; Some (s, Some rreq) }
   }"

definition MPID_Recvq_erase_posted :: "addr \<Rightarrow> recv_state \<Rightarrow> recv_state option" where
  "MPID_Recvq_erase_posted rreq s = do {
     found \<leftarrow> search_posted (\<lambda>a _. a = rreq) s;
     case found of
       None \<Rightarrow> Some s
     | Some (preq, a) \<Rightarrow> do { s \<leftarrow> remove_posted preq s; Release rreq s }
   }"

definition MPID_Recvq_erase_unexpected :: "addr \<Rightarrow> recv_state \<Rightarrow> recv_state option" where
  "MPID_Recvq_erase_unexpected rreq s = do {
     found \<leftarrow> search_from (\<lambda>a _. a = rreq) (reqs s) (recvq_unexpected s) Head;
     case found of
       None \<Rightarrow> Some s
     | Some (preq, a) \<Rightarrow> do { s \<leftarrow> remove_unexpected preq s; Release rreq s }
   }"

partial_function (option) MPID_Recvq_flush :: "recv_state \<Rightarrow> recv_state option" where
  "MPID_Recvq_flush s =
     (case m_pHead (recvq_unexpected s) of
        None \<Rightarrow> Some s
      | Some rreq \<Rightarrow> do {
          s \<leftarrow> remove_unexpected Head s;
          s \<leftarrow> Release rreq s;
          MPID_Recvq_flush s
        })"

text \<open>
  The two wrappers initialise the request while they hold the lock; when that fails for a new
  request they take it out of the queue again. The results: state, error, request, found.
\<close>

type_synonym initializer = "addr \<Rightarrow> bool \<Rightarrow> recv_state \<Rightarrow> (recv_state \<times> mpi_error option) option"

definition MPID_Recvq_dq_unexpected_or_new_posted ::
  "allocator \<Rightarrow> int \<Rightarrow> int \<Rightarrow> 128 word \<Rightarrow> initializer \<Rightarrow> recv_state \<Rightarrow>
   (recv_state \<times> mpi_error option \<times> addr option \<times> bool) option" where
  "MPID_Recvq_dq_unexpected_or_new_posted alloc source tag context_id InitFunc s = do {
     (s, req, found) \<leftarrow> MPID_Recvq_dq_unexpected_or_new_posted_unsafe alloc source tag context_id s;
     case req of
       None \<Rightarrow> Some (s, Some MPIU_ERR_NOMEM, None, found)
     | Some a \<Rightarrow> do {
         (s, e) \<leftarrow> InitFunc a found s;
         if e \<noteq> None \<and> \<not> found then do {
           s \<leftarrow> MPID_Recvq_erase_posted a s;
           s \<leftarrow> Release a s;
           Some (s, e, None, found)
         } else Some (s, e, Some a, found)
       }
   }"

definition MPID_Recvq_dq_posted_or_new_unexpected ::
  "allocator \<Rightarrow> MPIDI_Message_match \<Rightarrow> initializer \<Rightarrow> recv_state \<Rightarrow>
   (recv_state \<times> mpi_error option \<times> addr option \<times> bool) option" where
  "MPID_Recvq_dq_posted_or_new_unexpected alloc match InitFunc s = do {
     (s, req, found) \<leftarrow> MPID_Recvq_dq_posted_or_new_unexpected_unsafe alloc match s;
     case req of
       None \<Rightarrow> Some (s, Some MPIU_ERR_NOMEM, None, found)
     | Some a \<Rightarrow> do {
         (s, e) \<leftarrow> InitFunc a found s;
         if e \<noteq> None \<and> \<not> found then do {
           s \<leftarrow> MPID_Recvq_erase_unexpected a s;
           s \<leftarrow> Release a s;
           Some (s, e, None, found)
         } else Some (s, e, Some a, found)
       }
   }"

subsection \<open>The queues as lists\<close>

definition recv_lists :: "recv_state \<Rightarrow> addr list \<Rightarrow> addr list \<Rightarrow> bool" where
  "recv_lists s ps us \<longleftrightarrow> is_queue (reqs s) (recvq_posted s) ps \<and> is_queue (reqs s) (recvq_unexpected s) us \<and>
     set ps \<inter> set us = {}"

text \<open>What a change leaves alone: the links and envelopes of some requests.\<close>

definition envelope_of :: "heap \<Rightarrow> addr \<Rightarrow> MPIDI_Message_match" where
  "envelope_of h a = rq_match (the (h a))"

definition entries :: "heap \<Rightarrow> addr list \<Rightarrow> (addr \<times> MPIDI_Message_match) list" where
  "entries h xs = map (\<lambda>a. (a, envelope_of h a)) xs"

definition same_envelopes :: "addr set \<Rightarrow> heap \<Rightarrow> heap \<Rightarrow> bool" where
  "same_envelopes A h h' \<longleftrightarrow> (\<forall>a\<in>A. envelope_of h' a = envelope_of h a)"

definition undisturbed :: "addr set \<Rightarrow> recv_state \<Rightarrow> recv_state \<Rightarrow> bool" where
  "undisturbed A s s' \<longleftrightarrow> recvq_posted s' = recvq_posted s \<and> recvq_unexpected s' = recvq_unexpected s \<and>
     same_links A (reqs s) (reqs s') \<and> same_envelopes A (reqs s) (reqs s')"

lemma undisturbed_refl [simp]: "undisturbed A s s"
  by (simp add: undisturbed_def same_links_def same_envelopes_def)

lemma undisturbed_trans: "undisturbed A s s' \<Longrightarrow> undisturbed A s' s'' \<Longrightarrow> undisturbed A s s''"
  by (simp add: undisturbed_def same_links_def same_envelopes_def)

lemma undisturbed_mono: "undisturbed A s s' \<Longrightarrow> B \<subseteq> A \<Longrightarrow> undisturbed B s s'"
  by (auto simp: undisturbed_def same_links_def same_envelopes_def)

lemma undisturbed_lists:
  "recv_lists s ps us \<Longrightarrow> undisturbed (set ps \<union> set us) s s' \<Longrightarrow> recv_lists s' ps us"
  by (auto simp: recv_lists_def undisturbed_def same_links_def intro: is_queue_same_links)

lemma same_envelopes_entries: "same_envelopes A h h' \<Longrightarrow> set xs \<subseteq> A \<Longrightarrow> entries h' xs = entries h xs"
  by (auto simp: entries_def same_envelopes_def)

lemma undisturbed_entries:
  "undisturbed A s s' \<Longrightarrow> set xs \<subseteq> A \<Longrightarrow> entries (reqs s') xs = entries (reqs s) xs"
  by (auto simp: undisturbed_def intro: same_envelopes_entries)

lemma entries_simps [simp]:
  "entries h [] = []" "entries h (a # xs) = (a, envelope_of h a) # entries h xs"
  "entries h (xs @ ys) = entries h xs @ entries h ys"
  by (simp_all add: entries_def)

lemma fst_entries [simp]: "fst ` set (entries h xs) = set xs" "map fst (entries h xs) = xs"
  by (simp_all add: entries_def image_image comp_def)

lemma ball_entries: "(\<forall>x\<in>set (entries h xs). Q (snd x)) \<longleftrightarrow> (\<forall>a\<in>set xs. Q (envelope_of h a))"
  by (auto simp: entries_def)

lemma entries_subseq: "subseq xs ys \<Longrightarrow> subseq (entries h xs) (entries h ys)"
  by (auto simp: entries_def intro: subseq_map)

lemma relinked_envelopes: "relinked A h h' \<Longrightarrow> same_envelopes B h h'"
proof -
  assume r: "relinked A h h'"
  have "envelope_of h' a = envelope_of h a" for a
  proof (cases "h a")
    case None
    then have "h' a = None" using r unfolding relinked_def by (metis map_option_is_None)
    then show ?thesis using None by (simp add: envelope_of_def)
  qed (use relinked_match [OF r] in \<open>simp add: envelope_of_def\<close>)
  then show ?thesis by (simp add: same_envelopes_def)
qed

subsection \<open>Changes of requests\<close>

definition plain :: "(MPID_Request \<Rightarrow> MPID_Request) \<Rightarrow> bool" where
  "plain f \<longleftrightarrow> (\<forall>r. rq_next (f r) = rq_next r \<and> rq_match (f r) = rq_match r)"

lemma on_req_Some: "reqs s a = Some r \<Longrightarrow> on_req a f s = Some (s\<lparr>reqs := (reqs s)(a \<mapsto> f r)\<rparr>)"
  by (simp add: on_req_def upd_def)

lemma undisturbed_put:
  "reqs s a = Some r \<Longrightarrow> rq_next r' = rq_next r \<Longrightarrow> rq_match r' = rq_match r \<Longrightarrow>
   undisturbed A s (s\<lparr>reqs := (reqs s)(a \<mapsto> r')\<rparr>)"
  by (simp add: undisturbed_def same_links_def same_envelopes_def envelope_of_def)

lemma undisturbed_outside:
  "a \<notin> A \<Longrightarrow> undisturbed A s (s\<lparr>reqs := (reqs s)(a := x)\<rparr>)"
  by (auto simp: undisturbed_def same_links_def same_envelopes_def envelope_of_def)

lemma undisturbed_refs [simp]:
  "undisturbed A s (comm_refs_update f s')  \<longleftrightarrow> undisturbed A s s'"
  "undisturbed A s (type_refs_update g s') \<longleftrightarrow> undisturbed A s s'"
  by (simp_all add: undisturbed_def)

lemma on_req_undisturbed: "plain f \<Longrightarrow> on_req a f s = Some s' \<Longrightarrow> undisturbed A s s'"
  by (auto simp: on_req_def upd_def plain_def intro!: undisturbed_put)

lemma type_release_undisturbed [simp]: "undisturbed A s (type_release dt s') \<longleftrightarrow> undisturbed A s s'"
  by (cases dt) (simp_all add: type_release_def)

lemma type_release_reqs [simp]: "reqs (type_release dt s) = reqs s"
  by (cases dt) (simp_all add: type_release_def)

lemma destroy_undisturbed:
  assumes "MPIDI_CH3_Request_destroy a s = Some s'" "a \<notin> A"
  shows "undisturbed A s s'"
proof -
  obtain r where r: "reqs s a = Some r"
    using assms(1) by (cases "reqs s a") (simp_all add: MPIDI_CH3_Request_destroy_def)
  define s1 where "s1 = type_release (rq_datatype r) (case rq_comm r of None \<Rightarrow> s
       | Some c \<Rightarrow> s\<lparr>comm_refs := (comm_refs s)(c := i32 (comm_refs s c - 1))\<rparr>)"
  have "undisturbed A s s1" by (simp add: s1_def split: option.split)
  moreover have "s' = s1\<lparr>reqs := (reqs s1)(a := None)\<rparr>"
    using assms(1) r by (simp add: MPIDI_CH3_Request_destroy_def s1_def Let_def)
  ultimately show ?thesis using undisturbed_trans undisturbed_outside [OF assms(2)] by metis
qed

lemma Release_undisturbed:
  assumes "Release a s = Some s'" "a \<notin> A"
  shows "undisturbed A s s'"
proof -
  obtain r where r: "reqs s a = Some r" using assms(1) by (cases "reqs s a") (simp_all add: Release_def)
  define s1 where "s1 = s\<lparr>reqs := (reqs s)(a \<mapsto> r\<lparr>rq_ref_count := i32 (rq_ref_count r - 1)\<rparr>)\<rparr>"
  have "undisturbed A s s1" unfolding s1_def by (rule undisturbed_outside [OF assms(2)])
  moreover have "undisturbed A s1 s'"
    using assms r destroy_undisturbed [of a s1 s' A]
    by (auto simp: Release_def on_req_Some Let_def s1_def split: if_splits)
  ultimately show ?thesis by (rule undisturbed_trans)
qed

lemma Release_total: "reqs s a = Some r \<Longrightarrow> \<exists>s'. Release a s = Some s'"
  by (auto simp: Release_def on_req_Some Let_def MPIDI_CH3_Request_destroy_def)

subsection \<open>The queue operations on lists\<close>

lemma recv_lists_queues:
  "recv_lists s ps us \<Longrightarrow> is_queue (reqs s) (recvq_posted s) ps"
  "recv_lists s ps us \<Longrightarrow> is_queue (reqs s) (recvq_unexpected s) us"
  "recv_lists s ps us \<Longrightarrow> set ps \<inter> set us = {}"
  by (simp_all add: recv_lists_def)

lemma remove_unexpected_correct:
  assumes "recv_lists s ps (xs @ a # ys)"
  shows "\<exists>h q. remove_unexpected (link_after xs) s = Some (s\<lparr>reqs := h, recvq_unexpected := q\<rparr>) \<and>
     recv_lists (s\<lparr>reqs := h, recvq_unexpected := q\<rparr>) ps (xs @ ys) \<and> relinked (set xs) (reqs s) h"
proof -
  note q = recv_lists_queues [OF assms]
  obtain h q' where r: "remove (link_after xs) (reqs s, recvq_unexpected s) = Some (h, q')"
    "is_queue h q' (xs @ ys)" "relinked (set xs) (reqs s) h"
    using remove_correct [OF q(2)] by blast
  have "same_links (set ps) (reqs s) h" by (rule relinked_same_links [OF r(3)]) (use q(3) in auto)
  then have "is_queue h (recvq_posted s) ps" by (rule is_queue_same_links [OF q(1)])
  then show ?thesis using r q(3) by (auto simp: remove_unexpected_def recv_lists_def)
qed

lemma remove_posted_correct:
  assumes "recv_lists s (xs @ a # ys) us"
  shows "\<exists>h q. remove_posted (link_after xs) s = Some (s\<lparr>reqs := h, recvq_posted := q\<rparr>) \<and>
     recv_lists (s\<lparr>reqs := h, recvq_posted := q\<rparr>) (xs @ ys) us \<and> relinked (set xs) (reqs s) h"
proof -
  note q = recv_lists_queues [OF assms]
  obtain h q' where r: "remove (link_after xs) (reqs s, recvq_posted s) = Some (h, q')"
    "is_queue h q' (xs @ ys)" "relinked (set xs) (reqs s) h"
    using remove_correct [OF q(1)] by blast
  have "same_links (set us) (reqs s) h" by (rule relinked_same_links [OF r(3)]) (use q(3) in auto)
  then have "is_queue h (recvq_unexpected s) us" by (rule is_queue_same_links [OF q(2)])
  then show ?thesis using r q(3) by (auto simp: remove_posted_def recv_lists_def)
qed

lemma enqueue_posted_correct:
  assumes "recv_lists s ps us" "a \<notin> set ps \<union> set us" "reqs s a = Some r"
  shows "\<exists>h q. enqueue_posted a s = Some (s\<lparr>reqs := h, recvq_posted := q\<rparr>) \<and>
     recv_lists (s\<lparr>reqs := h, recvq_posted := q\<rparr>) (ps @ [a]) us \<and> relinked (insert a (set ps)) (reqs s) h"
proof -
  note q = recv_lists_queues [OF assms(1)]
  obtain h q' where r: "enqueue a (reqs s, recvq_posted s) = Some (h, q')"
    "is_queue h q' (ps @ [a])" "relinked (insert a (set ps)) (reqs s) h"
    using enqueue_correct [OF q(1) _ assms(3)] assms(2) by blast
  have "same_links (set us) (reqs s) h" by (rule relinked_same_links [OF r(3)]) (use q(3) assms(2) in auto)
  then have "is_queue h (recvq_unexpected s) us" by (rule is_queue_same_links [OF q(2)])
  then show ?thesis using r q(3) assms(2) by (auto simp: enqueue_posted_def recv_lists_def)
qed

lemma enqueue_unexpected_correct:
  assumes "recv_lists s ps us" "a \<notin> set ps \<union> set us" "reqs s a = Some r"
  shows "\<exists>h q. enqueue_unexpected a s = Some (s\<lparr>reqs := h, recvq_unexpected := q\<rparr>) \<and>
     recv_lists (s\<lparr>reqs := h, recvq_unexpected := q\<rparr>) ps (us @ [a]) \<and> relinked (insert a (set us)) (reqs s) h"
proof -
  note q = recv_lists_queues [OF assms(1)]
  obtain h q' where r: "enqueue a (reqs s, recvq_unexpected s) = Some (h, q')"
    "is_queue h q' (us @ [a])" "relinked (insert a (set us)) (reqs s) h"
    using enqueue_correct [OF q(2) _ assms(3)] assms(2) by blast
  have "same_links (set ps) (reqs s) h" by (rule relinked_same_links [OF r(3)]) (use q(3) assms(2) in auto)
  then have "is_queue h (recvq_posted s) ps" by (rule is_queue_same_links [OF q(1)])
  then show ?thesis using r q(3) assms(2) by (auto simp: enqueue_unexpected_def recv_lists_def)
qed

text \<open>An allocator returns a request object that is not in use.\<close>

definition fresh_alloc :: "allocator \<Rightarrow> bool" where
  "fresh_alloc alloc \<longleftrightarrow> (\<forall>h a r. alloc h = Some (a, r) \<longrightarrow> h a = None)"

lemma recv_lists_fresh: "recv_lists s ps us \<Longrightarrow> reqs s a = None \<Longrightarrow> a \<notin> set ps \<union> set us"
  using is_queue_in_heap [of "reqs s"] unfolding recv_lists_def by fastforce

text \<open>A receive request as it is created, and after its envelope is set and the queue has its reference.\<close>

definition new_rreq :: "MPID_Request \<Rightarrow> MPID_Request" where
  "new_rreq r = r\<lparr>rq_ref_count := 1, rq_kind := MPID_REQUEST_RECV, rq_cc := 1,
       rq_status := (rq_status r)\<lparr>st_error := None, st_cancelled := False\<rparr>,
       rq_msg_type := MPIDI_REQUEST_NO_MSG, rq_req_type := MPIDI_REQUEST_TYPE_RECV, rq_sync_ack := False,
       rq_datatype := MPI_Datatype_null, rq_cancel_pending := False, rq_comm := None\<rparr>"

definition queued_rreq :: "MPIDI_Message_match \<Rightarrow> MPID_Request \<Rightarrow> MPID_Request" where
  "queued_rreq m r = (new_rreq r)\<lparr>rq_match := m, rq_ref_count := 2\<rparr>"

lemma create_rreq:
  "alloc (reqs s) = None \<Longrightarrow> MPIDI_Request_create_rreq alloc s = (s, None)"
  "alloc (reqs s) = Some (a, r) \<Longrightarrow>
    MPIDI_Request_create_rreq alloc s = (s\<lparr>reqs := (reqs s)(a \<mapsto> new_rreq r)\<rparr>, Some a)"
  by (simp_all add: MPIDI_Request_create_rreq_def MPID_Request_create_base_def new_rreq_def)

lemma prepare_rreq:
  assumes "s1 = s\<lparr>reqs := (reqs s)(a \<mapsto> new_rreq r)\<rparr>"
  shows "do { s \<leftarrow> on_req a (rq_match_update (\<lambda>_. m)) s1; s \<leftarrow> AddRef a s; f s } =
    f (s\<lparr>reqs := (reqs s)(a \<mapsto> queued_rreq m r)\<rparr>)"
  by (simp add: assms AddRef_def on_req_def upd_def queued_rreq_def new_rreq_def i32_def)

lemma new_in_lists:
  assumes "recv_lists s ps us" "reqs s a = None" "s1 = s\<lparr>reqs := (reqs s)(a \<mapsto> r)\<rparr>"
  shows "recv_lists s1 ps us" "a \<notin> set ps \<union> set us" "reqs s1 a = Some r"
proof -
  show a: "a \<notin> set ps \<union> set us" by (rule recv_lists_fresh [OF assms(1,2)])
  show "recv_lists s1 ps us"
    unfolding assms(3) by (rule undisturbed_lists [OF assms(1) undisturbed_outside [OF a]])
qed (simp add: assms(3))

lemma search_unexpected_cases:
  assumes "recv_lists s ps us"
  obtains (None) "\<forall>a\<in>set us. \<not> test (the (reqs s a))" "search_unexpected test s = Some None"
  | (Found) xs a ys where "us = xs @ a # ys" "\<forall>b\<in>set xs. \<not> test (the (reqs s b))" "test (the (reqs s a))"
      "search_unexpected test s = Some (Some (link_after xs, a))"
  using search_cases [OF recv_lists_queues(2) [OF assms], of "\<lambda>_. test"] unfolding search_unexpected_def by blast

lemma search_posted_cases:
  assumes "recv_lists s ps us"
  obtains (None) "\<forall>a\<in>set ps. \<not> test a (the (reqs s a))" "search_posted test s = Some None"
  | (Found) xs a ys where "ps = xs @ a # ys" "\<forall>b\<in>set xs. \<not> test b (the (reqs s b))" "test a (the (reqs s a))"
      "search_posted test s = Some (Some (link_after xs, a))"
  using search_cases [OF recv_lists_queues(1) [OF assms], of test] unfolding search_posted_def by blast

text \<open>Posting: the first message that matches is taken, or a new request is added to the queue.\<close>

lemma post_unsafe_cases:
  assumes lists: "recv_lists s ps us" and fresh: "fresh_alloc alloc"
  obtains
    (Found) xs a ys s' where "us = xs @ a # ys" "matching (envelope_of (reqs s) a) (filter_of src tag ctx)"
      "\<forall>b\<in>set xs. \<not> matching (envelope_of (reqs s) b) (filter_of src tag ctx)"
      "MPID_Recvq_dq_unexpected_or_new_posted_unsafe alloc src tag ctx s = Some (s', Some a, True)"
      "recv_lists s' ps (xs @ ys)" "relinked (set us) (reqs s) (reqs s')"
  | (Nomem) "\<forall>b\<in>set us. \<not> matching (envelope_of (reqs s) b) (filter_of src tag ctx)" "alloc (reqs s) = None"
      "MPID_Recvq_dq_unexpected_or_new_posted_unsafe alloc src tag ctx s = Some (s, None, False)"
  | (New) a r s' where "\<forall>b\<in>set us. \<not> matching (envelope_of (reqs s) b) (filter_of src tag ctx)"
      "alloc (reqs s) = Some (a, r)" "reqs s a = None"
      "MPID_Recvq_dq_unexpected_or_new_posted_unsafe alloc src tag ctx s = Some (s', Some a, False)"
      "recv_lists s' (ps @ [a]) us"
      "relinked (insert a (set ps)) ((reqs s)(a \<mapsto> queued_rreq (filter_of src tag ctx) r)) (reqs s')"
proof -
  let ?f = "filter_of src tag ctx"
  let ?t = "\<lambda>r. matching (rq_match r) ?f"
  show ?thesis
    using lists
  proof (cases rule: search_unexpected_cases [where test = ?t])
    case (Found xs a ys)
    have l: "recv_lists s ps (xs @ a # ys)" using lists Found(1) by simp
    obtain h q where r: "remove_unexpected (link_after xs) s = Some (s\<lparr>reqs := h, recvq_unexpected := q\<rparr>)"
      "recv_lists (s\<lparr>reqs := h, recvq_unexpected := q\<rparr>) ps (xs @ ys)" "relinked (set xs) (reqs s) h"
      using remove_unexpected_correct [OF l] by blast
    have "relinked (set us) (reqs s) h" by (rule relinked_mono [OF r(3)]) (use Found(1) in auto)
    then show ?thesis
      using that(1) [of xs a ys "s\<lparr>reqs := h, recvq_unexpected := q\<rparr>"] Found r(1,2)
      by (simp add: MPID_Recvq_dq_unexpected_or_new_posted_unsafe_def envelope_of_def)
  next
    case None
    then have none: "\<forall>b\<in>set us. \<not> matching (envelope_of (reqs s) b) ?f" by (simp add: envelope_of_def)
    show ?thesis
    proof (cases "alloc (reqs s)")
      case None
      then show ?thesis
        using that(2) none \<open>search_unexpected ?t s = Some None\<close>
        by (simp add: MPID_Recvq_dq_unexpected_or_new_posted_unsafe_def create_rreq)
    next
      case (Some x)
      then obtain a r where a: "alloc (reqs s) = Some (a, r)" by (cases x) auto
      have free: "reqs s a = None" using fresh a by (simp add: fresh_alloc_def)
      define s1 where "s1 = s\<lparr>reqs := (reqs s)(a \<mapsto> queued_rreq ?f r)\<rparr>"
      note n = new_in_lists [OF lists free s1_def]
      obtain h q where e: "enqueue_posted a s1 = Some (s1\<lparr>reqs := h, recvq_posted := q\<rparr>)"
        "recv_lists (s1\<lparr>reqs := h, recvq_posted := q\<rparr>) (ps @ [a]) us" "relinked (insert a (set ps)) (reqs s1) h"
        using enqueue_posted_correct [OF n] by blast
      have "MPID_Recvq_dq_unexpected_or_new_posted_unsafe alloc src tag ctx s =
          do { s \<leftarrow> enqueue_posted a s1; Some (s, Some a, False) }"
        using \<open>search_unexpected ?t s = Some None\<close> a prepare_rreq [OF refl, where s = s and a = a and m = ?f and r = r]
        by (simp add: MPID_Recvq_dq_unexpected_or_new_posted_unsafe_def create_rreq s1_def)
      then show ?thesis
        using that(3) [of a r "s1\<lparr>reqs := h, recvq_posted := q\<rparr>"] none a free e by (simp add: s1_def)
    qed
  qed
qed

text \<open>Arrival: the first receive that matches is taken, or a new request is added to the queue.\<close>

lemma arrive_unsafe_cases:
  assumes lists: "recv_lists s ps us" and fresh: "fresh_alloc alloc"
  obtains
    (Found) xs a ys s' where "ps = xs @ a # ys" "matching m (envelope_of (reqs s) a)"
      "\<forall>b\<in>set xs. \<not> matching m (envelope_of (reqs s) b)"
      "MPID_Recvq_dq_posted_or_new_unexpected_unsafe alloc m s = Some (s', Some a, True)"
      "recv_lists s' (xs @ ys) us" "relinked (set ps) (reqs s) (reqs s')"
  | (Nomem) "\<forall>b\<in>set ps. \<not> matching m (envelope_of (reqs s) b)" "alloc (reqs s) = None"
      "MPID_Recvq_dq_posted_or_new_unexpected_unsafe alloc m s = Some (s, None, False)"
  | (New) a r s' where "\<forall>b\<in>set ps. \<not> matching m (envelope_of (reqs s) b)"
      "alloc (reqs s) = Some (a, r)" "reqs s a = None"
      "MPID_Recvq_dq_posted_or_new_unexpected_unsafe alloc m s = Some (s', Some a, False)"
      "recv_lists s' ps (us @ [a])"
      "relinked (insert a (set us)) ((reqs s)(a \<mapsto> queued_rreq m r)) (reqs s')"
proof -
  let ?t = "\<lambda>_ r. matching m (rq_match r)"
  show ?thesis
    using lists
  proof (cases rule: search_posted_cases [where test = ?t])
    case (Found xs a ys)
    have l: "recv_lists s (xs @ a # ys) us" using lists Found(1) by simp
    obtain h q where r: "remove_posted (link_after xs) s = Some (s\<lparr>reqs := h, recvq_posted := q\<rparr>)"
      "recv_lists (s\<lparr>reqs := h, recvq_posted := q\<rparr>) (xs @ ys) us" "relinked (set xs) (reqs s) h"
      using remove_posted_correct [OF l] by blast
    have "relinked (set ps) (reqs s) h" by (rule relinked_mono [OF r(3)]) (use Found(1) in auto)
    then show ?thesis
      using that(1) [of xs a ys "s\<lparr>reqs := h, recvq_posted := q\<rparr>"] Found r(1,2)
      by (simp add: MPID_Recvq_dq_posted_or_new_unexpected_unsafe_def envelope_of_def)
  next
    case None
    then have none: "\<forall>b\<in>set ps. \<not> matching m (envelope_of (reqs s) b)" by (simp add: envelope_of_def)
    show ?thesis
    proof (cases "alloc (reqs s)")
      case None
      then show ?thesis
        using that(2) none \<open>search_posted ?t s = Some None\<close>
        by (simp add: MPID_Recvq_dq_posted_or_new_unexpected_unsafe_def create_rreq)
    next
      case (Some x)
      then obtain a r where a: "alloc (reqs s) = Some (a, r)" by (cases x) auto
      have free: "reqs s a = None" using fresh a by (simp add: fresh_alloc_def)
      define s1 where "s1 = s\<lparr>reqs := (reqs s)(a \<mapsto> queued_rreq m r)\<rparr>"
      note n = new_in_lists [OF lists free s1_def]
      obtain h q where e: "enqueue_unexpected a s1 = Some (s1\<lparr>reqs := h, recvq_unexpected := q\<rparr>)"
        "recv_lists (s1\<lparr>reqs := h, recvq_unexpected := q\<rparr>) ps (us @ [a])" "relinked (insert a (set us)) (reqs s1) h"
        using enqueue_unexpected_correct [OF n] by blast
      have "MPID_Recvq_dq_posted_or_new_unexpected_unsafe alloc m s =
          do { s \<leftarrow> enqueue_unexpected a s1; Some (s, Some a, False) }"
        using \<open>search_posted ?t s = Some None\<close> a prepare_rreq [OF refl, where s = s and a = a and m = m and r = r]
        by (simp add: MPID_Recvq_dq_posted_or_new_unexpected_unsafe_def create_rreq s1_def)
      then show ?thesis
        using that(3) [of a r "s1\<lparr>reqs := h, recvq_unexpected := q\<rparr>"] none a free e by (simp add: s1_def)
    qed
  qed
qed

subsection \<open>Requests that leave the queues\<close>

definition members :: "recv_state \<Rightarrow> addr set" where
  "members s = {a. \<exists>ps us. recv_lists s ps us \<and> a \<in> set ps \<union> set us}"

lemma lists_in_dom: "recv_lists s ps us \<Longrightarrow> set ps \<union> set us \<subseteq> dom (reqs s)"
  using is_queue_in_heap [of "reqs s"] unfolding recv_lists_def by fastforce

lemma lists_distinct: "recv_lists s ps us \<Longrightarrow> distinct (ps @ us)"
  by (auto simp: recv_lists_def is_queue_def)

text \<open>Taking an entry out of a queue and then releasing it, or not.\<close>

lemma relinked_all: "relinked A h h' \<Longrightarrow> relinked UNIV h h'"
  by (erule relinked_mono) simp

lemma relinked_entries: "relinked A h h' \<Longrightarrow> entries h' xs = entries h xs"
  by (rule same_envelopes_entries [OF relinked_envelopes]) auto

lemma undisturbed_members:
  assumes "recv_lists s ps us" "undisturbed (set ps \<union> set us) s s'"
  shows "recv_lists s' ps us" "entries (reqs s') ps = entries (reqs s) ps" "entries (reqs s') us = entries (reqs s) us"
  using undisturbed_lists [OF assms] undisturbed_entries [OF assms(2)] by auto

lemma members_eq: "recv_lists s ps us \<Longrightarrow> set ps \<union> set us \<subseteq> members s"
  by (auto simp: members_def)

lemma drop_unexpected:
  assumes "recv_lists s ps (xs @ a # ys)" "remove_unexpected (link_after xs) s = Some s'"
  shows "recv_lists s' ps (xs @ ys)" "relinked UNIV (reqs s) (reqs s')" "a \<notin> set ps \<union> set (xs @ ys)"
proof -
  obtain h q where "s' = s\<lparr>reqs := h, recvq_unexpected := q\<rparr>"
    "recv_lists (s\<lparr>reqs := h, recvq_unexpected := q\<rparr>) ps (xs @ ys)" "relinked (set xs) (reqs s) h"
    using remove_unexpected_correct [OF assms(1)] assms(2) by auto
  then show "recv_lists s' ps (xs @ ys)" "relinked UNIV (reqs s) (reqs s')" by (auto intro: relinked_all)
  show "a \<notin> set ps \<union> set (xs @ ys)" using lists_distinct [OF assms(1)] by auto
qed

lemma drop_posted:
  assumes "recv_lists s (xs @ a # ys) us" "remove_posted (link_after xs) s = Some s'"
  shows "recv_lists s' (xs @ ys) us" "relinked UNIV (reqs s) (reqs s')" "a \<notin> set (xs @ ys) \<union> set us"
proof -
  obtain h q where "s' = s\<lparr>reqs := h, recvq_posted := q\<rparr>"
    "recv_lists (s\<lparr>reqs := h, recvq_posted := q\<rparr>) (xs @ ys) us" "relinked (set xs) (reqs s) h"
    using remove_posted_correct [OF assms(1)] assms(2) by auto
  then show "recv_lists s' (xs @ ys) us" "relinked UNIV (reqs s) (reqs s')" by (auto intro: relinked_all)
  show "a \<notin> set (xs @ ys) \<union> set us" using lists_distinct [OF assms(1)] by auto
qed

text \<open>The pending receives and messages of a state.\<close>

definition pending ::
  "recv_state \<Rightarrow> (addr \<times> MPIDI_Message_match) list \<Rightarrow> (addr \<times> MPIDI_Message_match) list \<Rightarrow> bool" where
  "pending s P U \<longleftrightarrow> (\<exists>ps us. recv_lists s ps us \<and> P = entries (reqs s) ps \<and> U = entries (reqs s) us)"

lemma pendingE:
  assumes "pending s P U"
  obtains ps us where "recv_lists s ps us" "P = entries (reqs s) ps" "U = entries (reqs s) us"
  using assms unfolding pending_def by blast

lemma pendingI:
  "recv_lists s ps us \<Longrightarrow> P = entries (reqs s) ps \<Longrightarrow> U = entries (reqs s) us \<Longrightarrow> pending s P U"
  unfolding pending_def by blast

text \<open>The operations that only take requests out of the queues.\<close>

definition shrinks :: "recv_state \<Rightarrow> recv_state \<Rightarrow> bool" where
  "shrinks s s' \<longleftrightarrow> (\<forall>ps us. recv_lists s ps us \<longrightarrow>
     (\<exists>ps' us'. subseq ps' ps \<and> subseq us' us \<and> recv_lists s' ps' us' \<and>
        same_envelopes (set ps' \<union> set us') (reqs s) (reqs s')))"

lemma shrinks_refl: "shrinks s s"
  unfolding shrinks_def same_envelopes_def by blast

lemma shrinks_trans:
  assumes "shrinks s s'" "shrinks s' s''"
  shows "shrinks s s''"
  unfolding shrinks_def
proof (intro allI impI)
  fix ps us assume "recv_lists s ps us"
  then obtain ps1 us1 where 1: "subseq ps1 ps" "subseq us1 us" "recv_lists s' ps1 us1"
    "same_envelopes (set ps1 \<union> set us1) (reqs s) (reqs s')" using assms(1) unfolding shrinks_def by blast
  then obtain ps2 us2 where 2: "subseq ps2 ps1" "subseq us2 us1" "recv_lists s'' ps2 us2"
    "same_envelopes (set ps2 \<union> set us2) (reqs s') (reqs s'')" using assms(2) unfolding shrinks_def by blast
  have "same_envelopes (set ps2 \<union> set us2) (reqs s) (reqs s'')"
    using 1(4) 2(4) subseq_set [OF 2(1)] subseq_set [OF 2(2)] unfolding same_envelopes_def by fastforce
  then show "\<exists>ps' us'. subseq ps' ps \<and> subseq us' us \<and> recv_lists s'' ps' us' \<and>
      same_envelopes (set ps' \<union> set us') (reqs s) (reqs s'')"
    using 1 2 subseq_order.order_trans by blast
qed

lemma shrinks_undisturbed: "undisturbed (members s) s s' \<Longrightarrow> shrinks s s'"
  unfolding shrinks_def
proof (intro allI impI)
  fix ps us assume und: "undisturbed (members s) s s'" and lists: "recv_lists s ps us"
  have "undisturbed (set ps \<union> set us) s s'" by (rule undisturbed_mono [OF und members_eq [OF lists]])
  then show "\<exists>ps' us'. subseq ps' ps \<and> subseq us' us \<and> recv_lists s' ps' us' \<and>
      same_envelopes (set ps' \<union> set us') (reqs s) (reqs s')"
    using undisturbed_lists [OF lists] unfolding undisturbed_def by blast
qed

lemma shrinks_pending:
  assumes "shrinks s s'" "pending s P U"
  shows "\<exists>P' U'. subseq P' P \<and> subseq U' U \<and> pending s' P' U'"
proof -
  obtain ps us where l: "recv_lists s ps us" "P = entries (reqs s) ps" "U = entries (reqs s) us"
    using assms(2) by (rule pendingE)
  then obtain ps' us' where l': "subseq ps' ps" "subseq us' us" "recv_lists s' ps' us'"
    "same_envelopes (set ps' \<union> set us') (reqs s) (reqs s')" using assms(1) unfolding shrinks_def by blast
  have "entries (reqs s') ps' = entries (reqs s) ps'" "entries (reqs s') us' = entries (reqs s) us'"
    using same_envelopes_entries [OF l'(4)] by auto
  then show ?thesis
    using pendingI [OF l'(3) refl refl] entries_subseq [OF l'(1)] entries_subseq [OF l'(2)] l(2,3) by metis
qed

lemma drop_subseq: "subseq (xs @ ys) (xs @ a # ys)"
  using subseq_append' [of xs ys "a # ys"] list_emb_Cons [of "(=)" ys ys a] by simp

lemma search_found:
  assumes q: "is_queue h q us" and found: "search_from test h q Head = Some (Some (preq, a))"
  obtains xs ys where "us = xs @ a # ys" "preq = link_after xs" "test a (the (h a))"
    "\<forall>b\<in>set xs. \<not> test b (the (h b))"
proof (rule search_cases [OF q, of test])
  fix xs b ys
  assume "us = xs @ b # ys" "\<forall>b\<in>set xs. \<not> test b (the (h b))" "test b (the (h b))"
    "search_from test h q Head = Some (Some (link_after xs, b))"
  then show thesis using found that by simp
qed (use found in simp)

lemma shrinks_unexpected:
  assumes found: "search_from test (reqs s) (recvq_unexpected s) Head = Some (Some (preq, a))"
    and removed: "remove_unexpected preq s = Some s1"
    and s': "s' = s1 \<or> (\<forall>r. test a r \<longrightarrow> a = b) \<and> Release b s1 = Some s'"
  shows "shrinks s s'"
  unfolding shrinks_def
proof (intro allI impI)
  fix ps us assume lists: "recv_lists s ps us"
  obtain xs ys where x: "us = xs @ a # ys" "preq = link_after xs" "test a (the (reqs s a))"
    using search_found [OF recv_lists_queues(2) [OF lists] found] by blast
  have l: "recv_lists s ps (xs @ a # ys)" using lists x(1) by simp
  note d = drop_unexpected [OF l removed [unfolded x(2)]]
  have und: "undisturbed (set ps \<union> set (xs @ ys)) s1 s'"
    using s' x(3) Release_undisturbed [OF _ d(3), of s1 s'] by auto
  have "same_envelopes (set ps \<union> set (xs @ ys)) (reqs s) (reqs s')"
    using und relinked_envelopes [OF d(2), of "set ps \<union> set (xs @ ys)"]
    unfolding undisturbed_def same_envelopes_def by fastforce
  then show "\<exists>ps' us'. subseq ps' ps \<and> subseq us' us \<and> recv_lists s' ps' us' \<and>
      same_envelopes (set ps' \<union> set us') (reqs s) (reqs s')"
    using undisturbed_lists [OF d(1) und] drop_subseq [of xs ys a] x(1) by blast
qed

lemma shrinks_posted:
  assumes found: "search_from test (reqs s) (recvq_posted s) Head = Some (Some (preq, a))"
    and removed: "remove_posted preq s = Some s1"
    and s': "s' = s1 \<or> (\<forall>r. test a r \<longrightarrow> a = b) \<and> Release b s1 = Some s'"
  shows "shrinks s s'"
  unfolding shrinks_def
proof (intro allI impI)
  fix ps us assume lists: "recv_lists s ps us"
  obtain xs ys where x: "ps = xs @ a # ys" "preq = link_after xs" "test a (the (reqs s a))"
    using search_found [OF recv_lists_queues(1) [OF lists] found] by blast
  have l: "recv_lists s (xs @ a # ys) us" using lists x(1) by simp
  note d = drop_posted [OF l removed [unfolded x(2)]]
  have und: "undisturbed (set (xs @ ys) \<union> set us) s1 s'"
    using s' x(3) Release_undisturbed [OF _ d(3), of s1 s'] by auto
  have "same_envelopes (set (xs @ ys) \<union> set us) (reqs s) (reqs s')"
    using und relinked_envelopes [OF d(2), of "set (xs @ ys) \<union> set us"]
    unfolding undisturbed_def same_envelopes_def by fastforce
  then show "\<exists>ps' us'. subseq ps' ps \<and> subseq us' us \<and> recv_lists s' ps' us' \<and>
      same_envelopes (set ps' \<union> set us') (reqs s) (reqs s')"
    using undisturbed_lists [OF d(1) und] drop_subseq [of xs ys a] x(1) by blast
qed

lemma shrinks_erase_posted:
  assumes "MPID_Recvq_erase_posted a s = Some s'"
  shows "shrinks s s'"
proof -
  obtain found where f: "search_posted (\<lambda>b _. b = a) s = Some found"
    using assms by (auto simp: MPID_Recvq_erase_posted_def bind_eq_Some_conv)
  show ?thesis
  proof (cases found)
    case None
    then show ?thesis using assms f by (simp add: MPID_Recvq_erase_posted_def shrinks_refl)
  next
    case (Some x)
    then obtain preq b where x: "found = Some (preq, b)" by (cases x) auto
    then obtain s1 where "remove_posted preq s = Some s1" "Release a s1 = Some s'"
      using assms f by (auto simp: MPID_Recvq_erase_posted_def bind_eq_Some_conv)
    then show ?thesis
      using shrinks_posted [of "\<lambda>b _. b = a" s preq b s1 s' a] f x by (simp add: search_posted_def)
  qed
qed

lemma shrinks_erase_unexpected:
  assumes "MPID_Recvq_erase_unexpected a s = Some s'"
  shows "shrinks s s'"
proof -
  obtain found where f: "search_from (\<lambda>b _. b = a) (reqs s) (recvq_unexpected s) Head = Some found"
    using assms by (auto simp: MPID_Recvq_erase_unexpected_def bind_eq_Some_conv)
  show ?thesis
  proof (cases found)
    case None
    then show ?thesis using assms f by (simp add: MPID_Recvq_erase_unexpected_def shrinks_refl)
  next
    case (Some x)
    then obtain preq b where x: "found = Some (preq, b)" by (cases x) auto
    then obtain s1 where "remove_unexpected preq s = Some s1" "Release a s1 = Some s'"
      using assms f by (auto simp: MPID_Recvq_erase_unexpected_def bind_eq_Some_conv)
    then show ?thesis
      using shrinks_unexpected [of "\<lambda>b _. b = a" s preq b s1 s' a] f x by simp
  qed
qed

lemma shrinks_dq_recv:
  assumes "MPID_Recvq_dq_recv a s = Some (s', r)"
  shows "shrinks s s'"
proof -
  obtain found where f: "search_posted (\<lambda>b _. b = a) s = Some found"
    using assms by (auto simp: MPID_Recvq_dq_recv_def bind_eq_Some_conv)
  show ?thesis
  proof (cases found)
    case None
    then show ?thesis using assms f by (simp add: MPID_Recvq_dq_recv_def shrinks_refl)
  next
    case (Some x)
    then obtain preq b where x: "found = Some (preq, b)" by (cases x) auto
    then have "remove_posted preq s = Some s'"
      using assms f by (auto simp: MPID_Recvq_dq_recv_def bind_eq_Some_conv)
    then show ?thesis
      using shrinks_posted [of "\<lambda>b _. b = a" s preq b s' s'] f x by (simp add: search_posted_def)
  qed
qed

lemma shrinks_dq_msg_by_id:
  assumes "MPID_Recvq_dq_msg_by_id i m s = Some (s', r)"
  shows "shrinks s s'"
proof -
  let ?t = "\<lambda>r. rq_sender_req_id r = i \<and> matching (rq_match r) m"
  obtain found where f: "search_unexpected ?t s = Some found"
    using assms by (auto simp: MPID_Recvq_dq_msg_by_id_def bind_eq_Some_conv)
  show ?thesis
  proof (cases found)
    case None
    then show ?thesis using assms f by (simp add: MPID_Recvq_dq_msg_by_id_def shrinks_refl)
  next
    case (Some x)
    then obtain preq b where x: "found = Some (preq, b)" by (cases x) auto
    then have "remove_unexpected preq s = Some s'"
      using assms f by (auto simp: MPID_Recvq_dq_msg_by_id_def bind_eq_Some_conv)
    then show ?thesis
      using shrinks_unexpected [of "\<lambda>_. ?t" s preq b s' s'] f x by (simp add: search_unexpected_def)
  qed
qed

lemma shrinks_flush:
  assumes "MPID_Recvq_flush s = Some s'"
  shows "shrinks s s'"
  using assms
proof (rule MPID_Recvq_flush.raw_induct [rotated])
  fix f s s'
  assume IH: "\<And>s s'. f s = Some s' \<Longrightarrow> shrinks s s'"
    and run: "(case m_pHead (recvq_unexpected s) of None \<Rightarrow> Some s
      | Some rreq \<Rightarrow> do { s \<leftarrow> remove_unexpected Head s; s \<leftarrow> Release rreq s; f s }) = Some s'"
  show "shrinks s s'"
  proof (cases "m_pHead (recvq_unexpected s)")
    case None
    then show ?thesis using run by (simp add: shrinks_refl)
  next
    case (Some a)
    then obtain s1 s2 where r: "remove_unexpected Head s = Some s1" "Release a s1 = Some s2" "f s2 = Some s'"
      using run by (auto simp: bind_eq_Some_conv)
    have "search_from (\<lambda>_ _. True) (reqs s) (recvq_unexpected s) Head = Some (Some (Head, a)) \<or> (reqs s) a = None"
      using Some by (cases "reqs s a") (simp_all add: search_from.simps deref_def)
    moreover have "reqs s a \<noteq> None"
      using r(1) Some by (auto simp: remove_unexpected_def remove_def deref_def bind_eq_Some_conv)
    ultimately have "shrinks s s2"
      using shrinks_unexpected [of "\<lambda>_ _. True" s Head a s1 s2 a] r(1,2) by simp
    then show ?thesis using IH [OF r(3)] shrinks_trans by blast
  qed
qed

subsection \<open>The matching engine\<close>

text \<open>
  An initialiser leaves the links and envelopes of the requests alone.
\<close>

definition tame :: "initializer \<Rightarrow> bool" where
  "tame InitFunc \<longleftrightarrow> (\<forall>a found s s' e. InitFunc a found s = Some (s', e) \<longrightarrow> undisturbed (dom (reqs s)) s s')"

text \<open>
  What happens to the queues: a receive is posted, a message arrives, a matched probe takes a
  message, a receive or a send is cancelled, requests are erased, or other code changes requests
  (never the links and envelopes of queued ones).
\<close>

inductive recvq_step ::
  "recv_state \<Rightarrow> (addr, MPIDI_Message_match, MPIDI_Message_match) event \<Rightarrow> recv_state \<Rightarrow> bool" where
  receive_found: "fresh_alloc alloc \<Longrightarrow> tame InitFunc \<Longrightarrow>
     MPID_Recvq_dq_unexpected_or_new_posted alloc source tag ctx InitFunc s = Some (s', e, Some a, True) \<Longrightarrow>
     recvq_step s (Received a (filter_of source tag ctx)) s'"
| receive_posted: "fresh_alloc alloc \<Longrightarrow> tame InitFunc \<Longrightarrow>
     MPID_Recvq_dq_unexpected_or_new_posted alloc source tag ctx InitFunc s = Some (s', e, Some a, False) \<Longrightarrow>
     recvq_step s (Posted a (filter_of source tag ctx)) s'"
| receive_failed: "fresh_alloc alloc \<Longrightarrow> tame InitFunc \<Longrightarrow>
     MPID_Recvq_dq_unexpected_or_new_posted alloc source tag ctx InitFunc s = Some (s', e, None, found) \<Longrightarrow>
     recvq_step s Dropped s'"
| message_found: "fresh_alloc alloc \<Longrightarrow> tame InitFunc \<Longrightarrow>
     MPID_Recvq_dq_posted_or_new_unexpected alloc m InitFunc s = Some (s', e, Some a, True) \<Longrightarrow>
     recvq_step s (Delivered a m) s'"
| message_queued: "fresh_alloc alloc \<Longrightarrow> tame InitFunc \<Longrightarrow>
     MPID_Recvq_dq_posted_or_new_unexpected alloc m InitFunc s = Some (s', e, Some a, False) \<Longrightarrow>
     recvq_step s (Arrived a m) s'"
| message_failed: "fresh_alloc alloc \<Longrightarrow> tame InitFunc \<Longrightarrow>
     MPID_Recvq_dq_posted_or_new_unexpected alloc m InitFunc s = Some (s', e, None, found) \<Longrightarrow>
     recvq_step s Dropped s'"
| matched_probe: "MPID_Recvq_probe_dq_msg source tag ctx s = Some (s', Some a) \<Longrightarrow>
     recvq_step s (Received a (filter_of source tag ctx)) s'"
| cancel_receive: "MPID_Recvq_dq_recv a s = Some (s', r) \<Longrightarrow> recvq_step s Dropped s'"
| cancel_send: "MPID_Recvq_dq_msg_by_id i m s = Some (s', r) \<Longrightarrow> recvq_step s Dropped s'"
| erase: "MPID_Recvq_erase_unexpected a s = Some s' \<Longrightarrow> recvq_step s Dropped s'"
| flush: "MPID_Recvq_flush s = Some s' \<Longrightarrow> recvq_step s Dropped s'"
| other: "undisturbed (members s) s s' \<Longrightarrow> recvq_step s Dropped s'"

inductive_cases recvq_stepE:
  "recvq_step s (Posted a f) s'" "recvq_step s (Received a f) s'" "recvq_step s (Arrived a m) s'"
  "recvq_step s (Delivered a m) s'" "recvq_step s Dropped s'"

lemma tame_lists:
  assumes "tame InitFunc" "InitFunc a found s = Some (s', e)" "recv_lists s ps us"
  shows "recv_lists s' ps us" "same_envelopes (dom (reqs s)) (reqs s) (reqs s')"
proof -
  have und: "undisturbed (dom (reqs s)) s s'" using assms(1,2) unfolding tame_def by blast
  show "recv_lists s' ps us"
    by (rule undisturbed_lists [OF assms(3) undisturbed_mono [OF und lists_in_dom [OF assms(3)]]])
  show "same_envelopes (dom (reqs s)) (reqs s) (reqs s')" using und by (simp add: undisturbed_def)
qed

lemma tame_entries:
  assumes "tame InitFunc" "InitFunc a found s = Some (s', e)" "set xs \<subseteq> dom (reqs s)"
  shows "entries (reqs s') xs = entries (reqs s) xs"
  using assms same_envelopes_entries unfolding tame_def undisturbed_def by blast

lemma members_in_dom: "members s \<subseteq> dom (reqs s)"
  using lists_in_dom by (fastforce simp: members_def)

lemma tame_shrinks: "tame InitFunc \<Longrightarrow> InitFunc a found s = Some (s', e) \<Longrightarrow> shrinks s s'"
  using shrinks_undisturbed undisturbed_mono [OF _ members_in_dom] unfolding tame_def by blast

lemma relinked_dom:
  assumes "relinked A h h'"
  shows "dom h' = dom h"
proof (rule set_eqI)
  fix a
  have "map_option (rq_next_update (\<lambda>_. None)) (h' a) = map_option (rq_next_update (\<lambda>_. None)) (h a)"
    using assms unfolding relinked_def by blast
  then have "h' a = None \<longleftrightarrow> h a = None" by (metis map_option_is_None)
  then show "a \<in> dom h' \<longleftrightarrow> a \<in> dom h" by (simp add: domIff)
qed

lemma same_envelopes_trans:
  "same_envelopes A h h' \<Longrightarrow> same_envelopes B h' h'' \<Longrightarrow> A \<subseteq> B \<Longrightarrow> same_envelopes A h h''"
  unfolding same_envelopes_def by (metis subsetD)

lemma new_envelopes:
  assumes "relinked B (h(a \<mapsto> queued_rreq m r)) h1" "same_envelopes (dom h1) h1 h2" "A \<subseteq> dom h1" "a \<in> dom h1" "a \<notin> A"
  shows "same_envelopes A h h2" "envelope_of h2 a = m"
proof -
  have *: "same_envelopes (insert a A) (h(a \<mapsto> queued_rreq m r)) h2"
    using same_envelopes_trans [OF relinked_envelopes [OF assms(1)] assms(2)] assms(3,4) by simp
  then show "same_envelopes A h h2" using assms(5) by (auto simp: same_envelopes_def envelope_of_def)
  show "envelope_of h2 a = m" using * by (simp add: same_envelopes_def envelope_of_def queued_rreq_def)
qed

text \<open>Posting and arrival under the wrappers.\<close>

lemma post_found:
  assumes lists: "recv_lists s ps us" and env: "fresh_alloc alloc" "tame InitFunc"
    and run: "MPID_Recvq_dq_unexpected_or_new_posted alloc source tag ctx InitFunc s = Some (s', e, Some a, True)"
  shows "\<exists>xs ys. us = xs @ a # ys \<and> matching (envelope_of (reqs s) a) (filter_of source tag ctx) \<and>
     (\<forall>b\<in>set xs. \<not> matching (envelope_of (reqs s) b) (filter_of source tag ctx)) \<and>
     recv_lists s' ps (xs @ ys) \<and> same_envelopes (set ps \<union> set us) (reqs s) (reqs s')"
  using lists env(1)
proof (cases rule: post_unsafe_cases [where src = source and tag = tag and ctx = ctx])
  case (Found xs b ys s1)
  then have b: "b = a" "InitFunc a True s1 = Some (s', e)"
    using run by (auto simp: MPID_Recvq_dq_unexpected_or_new_posted_def bind_eq_Some_conv split: if_splits)
  have "same_envelopes (set ps \<union> set us) (reqs s) (reqs s')"
    by (rule same_envelopes_trans [OF relinked_envelopes [OF Found(6)] tame_lists(2) [OF env(2) b(2) Found(5)]])
      (simp only: relinked_dom [OF Found(6)] lists_in_dom [OF lists])
  then show ?thesis using Found(1-3) b(1) tame_lists(1) [OF env(2) b(2) Found(5)] by blast
qed (use run in \<open>auto simp: MPID_Recvq_dq_unexpected_or_new_posted_def bind_eq_Some_conv split: if_splits\<close>)

lemma post_new:
  assumes lists: "recv_lists s ps us" and env: "fresh_alloc alloc" "tame InitFunc"
    and run: "MPID_Recvq_dq_unexpected_or_new_posted alloc source tag ctx InitFunc s = Some (s', e, Some a, False)"
  shows "(\<forall>b\<in>set us. \<not> matching (envelope_of (reqs s) b) (filter_of source tag ctx)) \<and> a \<notin> set ps \<union> set us \<and>
     recv_lists s' (ps @ [a]) us \<and> same_envelopes (set ps \<union> set us) (reqs s) (reqs s') \<and>
     envelope_of (reqs s') a = filter_of source tag ctx"
  using lists env(1)
proof (cases rule: post_unsafe_cases [where src = source and tag = tag and ctx = ctx])
  case (New b r s1)
  then have b: "b = a" "InitFunc a False s1 = Some (s', e)"
    using run by (auto simp: MPID_Recvq_dq_unexpected_or_new_posted_def bind_eq_Some_conv split: if_splits)
  have a: "a \<notin> set ps \<union> set us" using recv_lists_fresh [OF lists] New(3) b(1) by simp
  have dom: "set ps \<union> set us \<subseteq> dom (reqs s1)" "a \<in> dom (reqs s1)"
    using lists_in_dom [OF New(5)] b(1) by auto
  show ?thesis
    using New(1) a tame_lists(1) [OF env(2) b(2) New(5)] b(1)
      new_envelopes [OF New(6) [unfolded b(1)] tame_lists(2) [OF env(2) b(2) New(5)] dom a] by blast
qed (use run in \<open>auto simp: MPID_Recvq_dq_unexpected_or_new_posted_def bind_eq_Some_conv split: if_splits\<close>)

lemma erase_posted_last:
  assumes lists: "recv_lists s (ps @ [a]) us" and run: "MPID_Recvq_erase_posted a s = Some s'"
  shows "recv_lists s' ps us" "same_envelopes (set ps \<union> set us) (reqs s) (reqs s')"
proof -
  have fresh: "a \<notin> set ps" using lists_distinct [OF lists] by simp
  have found: "search_posted (\<lambda>b _. b = a) s = Some (Some (link_after ps, a))"
    using search_from_found [of "reqs s" "recvq_posted s" "[]" ps a "[]" "\<lambda>b _. b = a"] recv_lists_queues(1) [OF lists] fresh
    by (auto simp: search_posted_def)
  then obtain s1 where s1: "remove_posted (link_after ps) s = Some s1" "Release a s1 = Some s'"
    using run by (auto simp: MPID_Recvq_erase_posted_def bind_eq_Some_conv)
  note d = drop_posted [OF lists s1(1), simplified]
  have und: "undisturbed (set ps \<union> set us) s1 s'" using Release_undisturbed [OF s1(2)] d(3) by auto
  show "recv_lists s' ps us" by (rule undisturbed_lists [OF d(1) und])
  show "same_envelopes (set ps \<union> set us) (reqs s) (reqs s')"
    using same_envelopes_trans [OF relinked_envelopes [OF d(2)], where A = "set ps \<union> set us" and B = "set ps \<union> set us"] und
    by (simp add: undisturbed_def)
qed

lemma erase_unexpected_last:
  assumes lists: "recv_lists s ps (us @ [a])" and run: "MPID_Recvq_erase_unexpected a s = Some s'"
  shows "recv_lists s' ps us" "same_envelopes (set ps \<union> set us) (reqs s) (reqs s')"
proof -
  have fresh: "a \<notin> set us" using lists_distinct [OF lists] by simp
  have found: "search_from (\<lambda>b _. b = a) (reqs s) (recvq_unexpected s) Head = Some (Some (link_after us, a))"
    using search_from_found [of "reqs s" "recvq_unexpected s" "[]" us a "[]" "\<lambda>b _. b = a"] recv_lists_queues(2) [OF lists] fresh
    by auto
  then obtain s1 where s1: "remove_unexpected (link_after us) s = Some s1" "Release a s1 = Some s'"
    using run by (auto simp: MPID_Recvq_erase_unexpected_def bind_eq_Some_conv)
  note d = drop_unexpected [OF lists s1(1), simplified]
  have und: "undisturbed (set ps \<union> set us) s1 s'" using Release_undisturbed [OF s1(2)] d(3) by auto
  show "recv_lists s' ps us" by (rule undisturbed_lists [OF d(1) und])
  show "same_envelopes (set ps \<union> set us) (reqs s) (reqs s')"
    using same_envelopes_trans [OF relinked_envelopes [OF d(2)], where A = "set ps \<union> set us" and B = "set ps \<union> set us"] und
    by (simp add: undisturbed_def)
qed

lemma post_failed:
  assumes env: "fresh_alloc alloc" "tame InitFunc"
    and run: "MPID_Recvq_dq_unexpected_or_new_posted alloc source tag ctx InitFunc s = Some (s', e, None, found)"
  shows "shrinks s s'"
  unfolding shrinks_def
proof (intro allI impI)
  fix ps us assume lists: "recv_lists s ps us"
  have "recv_lists s' ps us \<and> same_envelopes (set ps \<union> set us) (reqs s) (reqs s')"
    using lists env(1)
  proof (cases rule: post_unsafe_cases [where src = source and tag = tag and ctx = ctx])
    case (New a r s1)
    then obtain s2 e2 s3 where b: "InitFunc a False s1 = Some (s2, e2)" "MPID_Recvq_erase_posted a s2 = Some s3" "Release a s3 = Some s'"
      using run by (auto simp: MPID_Recvq_dq_unexpected_or_new_posted_def bind_eq_Some_conv split: if_splits)
    have a: "a \<notin> set ps \<union> set us" using recv_lists_fresh [OF lists] New(3) by simp
    have dom: "set ps \<union> set us \<subseteq> dom (reqs s1)" "a \<in> dom (reqs s1)" using lists_in_dom [OF New(5)] by auto
    have 2: "same_envelopes (set ps \<union> set us) (reqs s) (reqs s2)" "recv_lists s2 (ps @ [a]) us"
      using new_envelopes [OF New(6) tame_lists(2) [OF env(2) b(1) New(5)] dom a] tame_lists(1) [OF env(2) b(1) New(5)] by auto
    note 3 = erase_posted_last [OF 2(2) b(2)]
    have und: "undisturbed (set ps \<union> set us) s3 s'" by (rule Release_undisturbed [OF b(3) a])
    show ?thesis
      using undisturbed_lists [OF 3(1) und] 2(1) 3(2) und unfolding undisturbed_def same_envelopes_def by auto
  next
    case Nomem
    then show ?thesis using run lists by (auto simp: MPID_Recvq_dq_unexpected_or_new_posted_def same_envelopes_def)
  qed (use run in \<open>auto simp: MPID_Recvq_dq_unexpected_or_new_posted_def bind_eq_Some_conv split: if_splits\<close>)
  then show "\<exists>ps' us'. subseq ps' ps \<and> subseq us' us \<and> recv_lists s' ps' us' \<and>
      same_envelopes (set ps' \<union> set us') (reqs s) (reqs s')" by blast
qed

lemma arrive_found:
  assumes lists: "recv_lists s ps us" and env: "fresh_alloc alloc" "tame InitFunc"
    and run: "MPID_Recvq_dq_posted_or_new_unexpected alloc m InitFunc s = Some (s', e, Some a, True)"
  shows "\<exists>xs ys. ps = xs @ a # ys \<and> matching m (envelope_of (reqs s) a) \<and>
     (\<forall>b\<in>set xs. \<not> matching m (envelope_of (reqs s) b)) \<and>
     recv_lists s' (xs @ ys) us \<and> same_envelopes (set ps \<union> set us) (reqs s) (reqs s')"
  using lists env(1)
proof (cases rule: arrive_unsafe_cases [where m = m])
  case (Found xs b ys s1)
  then have b: "b = a" "InitFunc a True s1 = Some (s', e)"
    using run by (auto simp: MPID_Recvq_dq_posted_or_new_unexpected_def bind_eq_Some_conv split: if_splits)
  have "same_envelopes (set ps \<union> set us) (reqs s) (reqs s')"
    by (rule same_envelopes_trans [OF relinked_envelopes [OF Found(6)] tame_lists(2) [OF env(2) b(2) Found(5)]])
      (simp only: relinked_dom [OF Found(6)] lists_in_dom [OF lists])
  then show ?thesis using Found(1-3) b(1) tame_lists(1) [OF env(2) b(2) Found(5)] by blast
qed (use run in \<open>auto simp: MPID_Recvq_dq_posted_or_new_unexpected_def bind_eq_Some_conv split: if_splits\<close>)

lemma arrive_new:
  assumes lists: "recv_lists s ps us" and env: "fresh_alloc alloc" "tame InitFunc"
    and run: "MPID_Recvq_dq_posted_or_new_unexpected alloc m InitFunc s = Some (s', e, Some a, False)"
  shows "(\<forall>b\<in>set ps. \<not> matching m (envelope_of (reqs s) b)) \<and> a \<notin> set ps \<union> set us \<and>
     recv_lists s' ps (us @ [a]) \<and> same_envelopes (set ps \<union> set us) (reqs s) (reqs s') \<and>
     envelope_of (reqs s') a = m"
  using lists env(1)
proof (cases rule: arrive_unsafe_cases [where m = m])
  case (New b r s1)
  then have b: "b = a" "InitFunc a False s1 = Some (s', e)"
    using run by (auto simp: MPID_Recvq_dq_posted_or_new_unexpected_def bind_eq_Some_conv split: if_splits)
  have a: "a \<notin> set ps \<union> set us" using recv_lists_fresh [OF lists] New(3) b(1) by simp
  have dom: "set ps \<union> set us \<subseteq> dom (reqs s1)" "a \<in> dom (reqs s1)"
    using lists_in_dom [OF New(5)] b(1) by auto
  show ?thesis
    using New(1) a tame_lists(1) [OF env(2) b(2) New(5)] b(1)
      new_envelopes [OF New(6) [unfolded b(1)] tame_lists(2) [OF env(2) b(2) New(5)] dom a] by blast
qed (use run in \<open>auto simp: MPID_Recvq_dq_posted_or_new_unexpected_def bind_eq_Some_conv split: if_splits\<close>)

lemma arrive_failed:
  assumes env: "fresh_alloc alloc" "tame InitFunc"
    and run: "MPID_Recvq_dq_posted_or_new_unexpected alloc m InitFunc s = Some (s', e, None, found)"
  shows "shrinks s s'"
  unfolding shrinks_def
proof (intro allI impI)
  fix ps us assume lists: "recv_lists s ps us"
  have "recv_lists s' ps us \<and> same_envelopes (set ps \<union> set us) (reqs s) (reqs s')"
    using lists env(1)
  proof (cases rule: arrive_unsafe_cases [where m = m])
    case (New a r s1)
    then obtain s2 e2 s3 where b: "InitFunc a False s1 = Some (s2, e2)" "MPID_Recvq_erase_unexpected a s2 = Some s3" "Release a s3 = Some s'"
      using run by (auto simp: MPID_Recvq_dq_posted_or_new_unexpected_def bind_eq_Some_conv split: if_splits)
    have a: "a \<notin> set ps \<union> set us" using recv_lists_fresh [OF lists] New(3) by simp
    have dom: "set ps \<union> set us \<subseteq> dom (reqs s1)" "a \<in> dom (reqs s1)" using lists_in_dom [OF New(5)] by auto
    have 2: "same_envelopes (set ps \<union> set us) (reqs s) (reqs s2)" "recv_lists s2 ps (us @ [a])"
      using new_envelopes [OF New(6) tame_lists(2) [OF env(2) b(1) New(5)] dom a] tame_lists(1) [OF env(2) b(1) New(5)] by auto
    note 3 = erase_unexpected_last [OF 2(2) b(2)]
    have und: "undisturbed (set ps \<union> set us) s3 s'" by (rule Release_undisturbed [OF b(3) a])
    show ?thesis
      using undisturbed_lists [OF 3(1) und] 2(1) 3(2) und unfolding undisturbed_def same_envelopes_def by auto
  next
    case Nomem
    then show ?thesis using run lists by (auto simp: MPID_Recvq_dq_posted_or_new_unexpected_def same_envelopes_def)
  qed (use run in \<open>auto simp: MPID_Recvq_dq_posted_or_new_unexpected_def bind_eq_Some_conv split: if_splits\<close>)
  then show "\<exists>ps' us'. subseq ps' ps \<and> subseq us' us \<and> recv_lists s' ps' us' \<and>
      same_envelopes (set ps' \<union> set us') (reqs s) (reqs s')" by blast
qed

lemma probe_found:
  assumes lists: "recv_lists s ps us" and run: "MPID_Recvq_probe_dq_msg source tag ctx s = Some (s', Some a)"
  shows "\<exists>xs ys. us = xs @ a # ys \<and> matching (envelope_of (reqs s) a) (filter_of source tag ctx) \<and>
     (\<forall>b\<in>set xs. \<not> matching (envelope_of (reqs s) b) (filter_of source tag ctx)) \<and>
     recv_lists s' ps (xs @ ys) \<and> same_envelopes (set ps \<union> set us) (reqs s) (reqs s')"
  using lists
proof (cases rule: search_unexpected_cases [where test = "\<lambda>r. matching (rq_match r) (filter_of source tag ctx)"])
  case (Found xs b ys)
  then have b: "b = a" "remove_unexpected (link_after xs) s = Some s'"
    using run by (auto simp: MPID_Recvq_probe_dq_msg_def bind_eq_Some_conv)
  have l: "recv_lists s ps (xs @ b # ys)" using lists Found(1) by simp
  note d = drop_unexpected [OF l b(2)]
  then show ?thesis
    using Found(1-3) b(1) relinked_envelopes [OF d(2)] by (auto simp: envelope_of_def)
qed (use run in \<open>simp add: MPID_Recvq_probe_dq_msg_def\<close>)

end
