(* ===== verification/Recv_Demo.thy ===== *)
theory Recv_Demo
  imports Recv_Queues
begin

text \<open>
  A concrete allocator of requests, which takes the first free address, and a short run of the
  receive queues with it.
\<close>

partial_function (option) first_free :: "heap \<Rightarrow> addr \<Rightarrow> addr option" where
  "first_free h a = (if h a = None then Some a else first_free h (Suc a))"

declare first_free.simps [code]

lemma first_free_free: "first_free h a = Some b \<Longrightarrow> h b = None"
proof (rule first_free.raw_induct [rotated, of h a b])
  fix f h a b
  assume IH: "\<And>h a b. f h a = Some b \<Longrightarrow> h b = None" and "(if h a = None then Some a else f h (Suc a)) = Some b"
  then show "h b = None" by (cases "h a = None") (auto dest: IH)
qed

lemma first_free_total: "h (a + n) = None \<Longrightarrow> first_free h a \<noteq> None"
proof (induction n arbitrary: a)
  case (Suc n)
  then show ?case using Suc.IH [of "Suc a"] by (subst first_free.simps) simp
qed (simp add: first_free.simps)

text \<open>A request object as it may come from the object allocator.\<close>

definition demo_request :: MPID_Request where
  "demo_request = \<lparr>rq_handle = - 0x54000000, rq_ref_count = 1, rq_kind = MPID_REQUEST_NOOP, rq_cc = 0, rq_comm = None,
     rq_status = \<lparr>st_count = 0, st_cancelled = False, st_source = 0, st_tag = 0, st_error = None\<rparr>,
     rq_match = \<lparr>m_tag = 0, m_rank = 0, m_context_id = 0\<rparr>, rq_user_buf = 0, rq_user_count = 0,
     rq_datatype = MPI_Datatype_null, rq_sender_req_id = 0, rq_msg_type = MPIDI_REQUEST_NO_MSG,
     rq_req_type = MPIDI_REQUEST_TYPE_RECV, rq_sync_ack = False, rq_recv_data_sz = 0, rq_cancel_pending = False,
     rq_recv_pending_count = 0, rq_partner_request = None, rq_next = None\<rparr>"

definition demo_alloc :: allocator where
  "demo_alloc h = map_option (\<lambda>a. (a, demo_request\<lparr>rq_handle := - 0x54000000 + int a\<rparr>)) (first_free h 0)"

lemma demo_alloc_fresh: "fresh_alloc demo_alloc"
  by (auto simp: fresh_alloc_def demo_alloc_def dest: first_free_free)

lemma demo_alloc_total: "finite (dom h) \<Longrightarrow> demo_alloc h \<noteq> None"
proof -
  assume "finite (dom h)"
  then obtain n where "n \<notin> dom h" using ex_new_if_finite infinite_UNIV_nat by blast
  then show ?thesis using first_free_total [of h 0 n] by (auto simp: demo_alloc_def domIff)
qed

definition demo_queues :: recv_state where
  "demo_queues = \<lparr>reqs = Map.empty, recvq_posted = empty_queue, recvq_unexpected = empty_queue,
     comm_refs = (\<lambda>_. 1), type_refs = (\<lambda>_. 1)\<rparr>"

definition demo_init :: initializer where
  "demo_init a found s = Some (s, None)"

lemma demo_init_tame: "tame demo_init"
  by (simp add: tame_def demo_init_def)

text \<open>A receive for tag 9 is posted, then two messages with tag 5 come in, then two receives for any tag are posted.\<close>

abbreviation demo_message :: MPIDI_Message_match where
  "demo_message \<equiv> \<lparr>m_tag = 5, m_rank = 1, m_context_id = 7\<rparr>"

definition demo_post :: "int \<Rightarrow> recv_state \<Rightarrow> (recv_state \<times> mpi_error option \<times> addr option \<times> bool) option" where
  "demo_post tag = MPID_Recvq_dq_unexpected_or_new_posted demo_alloc MPI_ANY_SOURCE tag 7 demo_init"

definition demo_arrive :: "recv_state \<Rightarrow> (recv_state \<times> mpi_error option \<times> addr option \<times> bool) option" where
  "demo_arrive = MPID_Recvq_dq_posted_or_new_unexpected demo_alloc demo_message demo_init"

definition demo_q1 where "demo_q1 = fst (the (demo_post 9 demo_queues))"
definition demo_q2 where "demo_q2 = fst (the (demo_arrive demo_q1))"
definition demo_q3 where "demo_q3 = fst (the (demo_arrive demo_q2))"
definition demo_q4 where "demo_q4 = fst (the (demo_post MPI_ANY_TAG demo_q3))"
definition demo_q5 where "demo_q5 = fst (the (demo_post MPI_ANY_TAG demo_q4))"

lemma resultI: "map_option snd x = Some y \<Longrightarrow> x = Some (fst (the x), y)"
  by (cases x) auto

lemma demo_runs:
  "demo_post 9 demo_queues = Some (demo_q1, None, Some 0, False)"
  "demo_arrive demo_q1 = Some (demo_q2, None, Some 1, False)"
  "demo_arrive demo_q2 = Some (demo_q3, None, Some 2, False)"
  "demo_post MPI_ANY_TAG demo_q3 = Some (demo_q4, None, Some 1, True)"
  "demo_post MPI_ANY_TAG demo_q4 = Some (demo_q5, None, Some 2, True)"
proof -
  have r: "map_option snd (demo_post 9 demo_queues) = Some (None, Some 0, False)"
    "map_option snd (demo_arrive demo_q1) = Some (None, Some 1, False)"
    "map_option snd (demo_arrive demo_q2) = Some (None, Some 2, False)"
    "map_option snd (demo_post MPI_ANY_TAG demo_q3) = Some (None, Some 1, True)"
    "map_option snd (demo_post MPI_ANY_TAG demo_q4) = Some (None, Some 2, True)"
    by code_simp+
  show "demo_post 9 demo_queues = Some (demo_q1, None, Some 0, False)"
    using resultI [OF r(1)] by (simp add: demo_q1_def)
  show "demo_arrive demo_q1 = Some (demo_q2, None, Some 1, False)"
    using resultI [OF r(2)] by (simp add: demo_q2_def)
  show "demo_arrive demo_q2 = Some (demo_q3, None, Some 2, False)"
    using resultI [OF r(3)] by (simp add: demo_q3_def)
  show "demo_post MPI_ANY_TAG demo_q3 = Some (demo_q4, None, Some 1, True)"
    using resultI [OF r(4)] by (simp add: demo_q4_def)
  show "demo_post MPI_ANY_TAG demo_q4 = Some (demo_q5, None, Some 2, True)"
    using resultI [OF r(5)] by (simp add: demo_q5_def)
qed

text \<open>The history of that run.\<close>

definition demo_history :: "(addr, MPIDI_Message_match, MPIDI_Message_match) history" where
  "demo_history = fold record_event
     [Posted 0 (filter_of MPI_ANY_SOURCE 9 7), Arrived 1 demo_message, Arrived 2 demo_message,
      Received 1 (filter_of MPI_ANY_SOURCE MPI_ANY_TAG 7), Received 2 (filter_of MPI_ANY_SOURCE MPI_ANY_TAG 7)] no_history"

lemma demo_traced: "traced recvq_step demo_queues no_history demo_q5 demo_history"
proof -
  note post = demo_runs [unfolded demo_post_def demo_arrive_def]
  note fresh = demo_alloc_fresh demo_init_tame
  note t = traced_step [where step = recvq_step]
  have steps: "recvq_step demo_queues (Posted 0 (filter_of MPI_ANY_SOURCE 9 7)) demo_q1"
    "recvq_step demo_q1 (Arrived 1 demo_message) demo_q2" "recvq_step demo_q2 (Arrived 2 demo_message) demo_q3"
    "recvq_step demo_q3 (Received 1 (filter_of MPI_ANY_SOURCE MPI_ANY_TAG 7)) demo_q4"
    "recvq_step demo_q4 (Received 2 (filter_of MPI_ANY_SOURCE MPI_ANY_TAG 7)) demo_q5"
    by (rule receive_posted [OF fresh post(1)], rule message_queued [OF fresh post(2)], rule message_queued [OF fresh post(3)],
        rule receive_found [OF fresh post(4)], rule receive_found [OF fresh post(5)])
  have "traced recvq_step demo_queues no_history demo_q5
     (record_event (Received 2 (filter_of MPI_ANY_SOURCE MPI_ANY_TAG 7))
       (record_event (Received 1 (filter_of MPI_ANY_SOURCE MPI_ANY_TAG 7))
         (record_event (Arrived 2 demo_message) (record_event (Arrived 1 demo_message)
           (record_event (Posted 0 (filter_of MPI_ANY_SOURCE 9 7)) no_history)))))"
    by (intro t [OF _ steps(5)] t [OF _ steps(4)] t [OF _ steps(3)] t [OF _ steps(2)] t [OF _ steps(1)] traced_refl)
  then show ?thesis by (simp add: demo_history_def)
qed

lemma demo_matches:
  "matches_made demo_history =
     [Matched 2 demo_message 4 (filter_of MPI_ANY_SOURCE MPI_ANY_TAG 7),
      Matched 1 demo_message 3 (filter_of MPI_ANY_SOURCE MPI_ANY_TAG 7)]"
  by (simp add: demo_history_def no_history_def)

end
