(* ===== verification/Recv_Order.thy ===== *)
theory Recv_Order
  imports Recv_Demo
begin

text \<open>
  The receive queues keep the order of matching: the locale \<open>recv_matching\<close> interpreted on the
  queue operations, the list specification of the two functions that post a receive and take in a
  message, and the theorem that messages do not overtake each other.
\<close>

lemma pending_no_match:
  assumes "\<forall>b\<in>set xs. \<not> matching (envelope_of h b) f"
  shows "\<forall>u\<in>set (entries h xs). \<not> matching (snd u) f"
  using assms by (auto simp: entries_def)

lemma pending_no_match':
  assumes "\<forall>b\<in>set xs. \<not> matching m (envelope_of h b)"
  shows "\<forall>p\<in>set (entries h xs). \<not> matching m (snd p)"
  using assms by (auto simp: entries_def)

lemma taken_message:
  assumes lists: "recv_lists s ps us"
    and us: "us = xs @ a # ys" "matching (envelope_of (reqs s) a) f" "\<forall>b\<in>set xs. \<not> matching (envelope_of (reqs s) b) f"
    and s': "recv_lists s' ps (xs @ ys)" "same_envelopes (set ps \<union> set us) (reqs s) (reqs s')"
  shows "\<exists>vs e ws. entries (reqs s) us = vs @ (a, e) # ws \<and> matching e f \<and>
    (\<forall>u\<in>set vs. \<not> matching (snd u) f) \<and> pending s' (entries (reqs s) ps) (vs @ ws)"
proof (intro exI conjI)
  show "entries (reqs s) us = entries (reqs s) xs @ (a, envelope_of (reqs s) a) # entries (reqs s) ys"
    using us(1) by simp
  show "\<forall>u\<in>set (entries (reqs s) xs). \<not> matching (snd u) f" by (rule pending_no_match [OF us(3)])
  show "pending s' (entries (reqs s) ps) (entries (reqs s) xs @ entries (reqs s) ys)"
    using same_envelopes_entries [OF s'(2)] us(1) by (intro pendingI [OF s'(1)]) (simp_all add: subset_iff)
qed (rule us(2))

lemma taken_receive:
  assumes lists: "recv_lists s ps us"
    and ps: "ps = xs @ a # ys" "matching m (envelope_of (reqs s) a)" "\<forall>b\<in>set xs. \<not> matching m (envelope_of (reqs s) b)"
    and s': "recv_lists s' (xs @ ys) us" "same_envelopes (set ps \<union> set us) (reqs s) (reqs s')"
  shows "\<exists>vs f ws. entries (reqs s) ps = vs @ (a, f) # ws \<and> matching m f \<and>
    (\<forall>p\<in>set vs. \<not> matching m (snd p)) \<and> pending s' (vs @ ws) (entries (reqs s) us)"
proof (intro exI conjI)
  show "entries (reqs s) ps = entries (reqs s) xs @ (a, envelope_of (reqs s) a) # entries (reqs s) ys"
    using ps(1) by simp
  show "\<forall>p\<in>set (entries (reqs s) xs). \<not> matching m (snd p)" by (rule pending_no_match' [OF ps(3)])
  show "pending s' (entries (reqs s) xs @ entries (reqs s) ys) (entries (reqs s) us)"
    using same_envelopes_entries [OF s'(2)] ps(1) by (intro pendingI [OF s'(1)]) (simp_all add: subset_iff)
qed (rule ps(2))

lemma recvq_received:
  assumes step: "recvq_step s (Received a f) s'" and lists: "recv_lists s ps us"
  shows "\<exists>xs ys. us = xs @ a # ys \<and> matching (envelope_of (reqs s) a) f \<and>
     (\<forall>b\<in>set xs. \<not> matching (envelope_of (reqs s) b) f) \<and>
     recv_lists s' ps (xs @ ys) \<and> same_envelopes (set ps \<union> set us) (reqs s) (reqs s')"
  using step by (cases rule: recvq_step.cases) (auto dest!: post_found [OF lists] probe_found [OF lists])

interpretation recvq: recv_matching matching pending recvq_step
proof (unfold_locales, goal_cases)
  case (1 s a f s' P U)
  obtain ps us where l: "recv_lists s ps us" and PU: "P = entries (reqs s) ps" "U = entries (reqs s) us"
    using 1(2) by (rule pendingE)
  have n: "(\<forall>b\<in>set us. \<not> matching (envelope_of (reqs s) b) f) \<and> a \<notin> set ps \<union> set us \<and>
     recv_lists s' (ps @ [a]) us \<and> same_envelopes (set ps \<union> set us) (reqs s) (reqs s') \<and> envelope_of (reqs s') a = f"
    using 1(1) by (cases rule: recvq_step.cases) (auto dest!: post_new [OF l])
  then have "pending s' (P @ [(a, f)]) U"
    using PU same_envelopes_entries [of "set ps \<union> set us" "reqs s" "reqs s'"]
    by (intro pendingI [of s' "ps @ [a]" us]) simp_all
  then show ?case using n PU pending_no_match [of us "reqs s" f] by simp
next
  case (2 s a f s' P U)
  obtain ps us where l: "recv_lists s ps us" and PU: "P = entries (reqs s) ps" "U = entries (reqs s) us"
    using 2(2) by (rule pendingE)
  show ?case using recvq_received [OF 2(1) l] taken_message [OF l] unfolding PU by blast
next
  case (3 s a m s' P U)
  obtain ps us where l: "recv_lists s ps us" and PU: "P = entries (reqs s) ps" "U = entries (reqs s) us"
    using 3(2) by (rule pendingE)
  have n: "(\<forall>b\<in>set ps. \<not> matching m (envelope_of (reqs s) b)) \<and> a \<notin> set ps \<union> set us \<and>
     recv_lists s' ps (us @ [a]) \<and> same_envelopes (set ps \<union> set us) (reqs s) (reqs s') \<and> envelope_of (reqs s') a = m"
    using 3(1) by (cases rule: recvq_step.cases) (auto dest!: arrive_new [OF l])
  then have "pending s' P (U @ [(a, m)])"
    using PU same_envelopes_entries [of "set ps \<union> set us" "reqs s" "reqs s'"]
    by (intro pendingI [of s' ps "us @ [a]"]) simp_all
  then show ?case using n PU pending_no_match' [of ps m "reqs s"] by simp
next
  case (4 s a m s' P U)
  obtain ps us where l: "recv_lists s ps us" and PU: "P = entries (reqs s) ps" "U = entries (reqs s) us"
    using 4(2) by (rule pendingE)
  have "\<exists>xs ys. ps = xs @ a # ys \<and> matching m (envelope_of (reqs s) a) \<and>
     (\<forall>b\<in>set xs. \<not> matching m (envelope_of (reqs s) b)) \<and>
     recv_lists s' (xs @ ys) us \<and> same_envelopes (set ps \<union> set us) (reqs s) (reqs s')"
    using 4(1) by (cases rule: recvq_step.cases) (auto dest!: arrive_found [OF l])
  then show ?case using taken_receive [OF l] unfolding PU by blast
next
  case (5 s s' P U)
  have "shrinks s s'"
    using 5(1)
    by (cases rule: recvq_step.cases)
      (auto intro: post_failed arrive_failed shrinks_dq_recv shrinks_dq_msg_by_id shrinks_erase_unexpected
         shrinks_flush shrinks_undisturbed)
  then show ?case using shrinks_pending [OF _ 5(2)] by blast
qed

text \<open>C1: messages do not overtake each other at the receiver. Whatever is done to the queues, a message is
matched with a receive it agrees with, each message and each receive at most once; and when two messages
agree with the receive of the later one, the earlier message was taken by an earlier receive.\<close>

theorem MPID_Recvq_no_overtaking:
  assumes "recvq_posted s0 = empty_queue" "recvq_unexpected s0 = empty_queue"
    and run: "traced recvq_step s0 no_history s h"
    and x: "x \<in> set (matches_made h)" and y: "y \<in> set (matches_made h)"
  shows "matching (msg_env x) (rcv_pat x) \<and>
    (msg_time x < msg_time y \<and> matching (msg_env x) (rcv_pat y) \<longrightarrow> rcv_time x < rcv_time y) \<and>
    (msg_time x = msg_time y \<or> rcv_time x = rcv_time y \<longrightarrow> x = y)"
proof -
  have init: "pending s0 [] []"
    using assms(1,2) by (intro pendingI [of s0 "[]" "[]"]) (simp_all add: recv_lists_def)
  note r = recvq.no_overtaking [OF run init]
  have "inj_on msg_time (set (matches_made h))" "inj_on rcv_time (set (matches_made h))"
    using r(2) by (simp_all add: once_def distinct_map)
  then show ?thesis using r(1,3) x y unfolding in_order_def inj_on_def by blast
qed

text \<open>The first message of the run is taken by the first receive for any tag.\<close>

lemma MPID_Recvq_no_overtaking_witness:
  "matching demo_message (filter_of MPI_ANY_SOURCE MPI_ANY_TAG 7) \<and>
   rcv_time (matches_made demo_history ! 1) < rcv_time (matches_made demo_history ! 0)"
proof -
  have init: "recvq_posted demo_queues = empty_queue" "recvq_unexpected demo_queues = empty_queue"
    by (simp_all add: demo_queues_def)
  show ?thesis
    using MPID_Recvq_no_overtaking [OF init demo_traced, of "matches_made demo_history ! 1" "matches_made demo_history ! 0"]
    by (simp add: demo_matches)
qed

text \<open>The list specification.\<close>

fun take_first :: "('x \<Rightarrow> bool) \<Rightarrow> 'x list \<Rightarrow> ('x \<times> 'x list) option" where
  "take_first test [] = None"
| "take_first test (x # xs) = (if test x then Some (x, xs)
     else map_option (\<lambda>(y, ys). (y, x # ys)) (take_first test xs))"

lemma take_first_none: "\<forall>x\<in>set xs. \<not> test x \<Longrightarrow> take_first test xs = None"
  by (induction xs) auto

lemma take_first_found:
  "\<forall>x\<in>set us. \<not> test x \<Longrightarrow> test y \<Longrightarrow> take_first test (us @ y # vs) = Some (y, us @ vs)"
  by (induction us) auto

text \<open>C5: posting a receive and taking in a message do to the pointer structures what the list specification
says: the first pending message (receive) that matches is taken out and returned, otherwise the new
request goes to the end of the other queue.\<close>

theorem MPID_Recvq_refines_lists:
  assumes pend: "pending s P U" and fresh: "fresh_alloc alloc" and mem: "alloc (reqs s) \<noteq> None"
    and tame: "tame InitFunc" and init: "\<And>a found t. a \<in> dom (reqs t) \<Longrightarrow> \<exists>t'. InitFunc a found t = Some (t', None)"
  shows "(\<exists>s' a. MPID_Recvq_dq_unexpected_or_new_posted alloc source tag ctx InitFunc s =
        Some (s', None, Some a, take_first (\<lambda>u. matching (snd u) (filter_of source tag ctx)) U \<noteq> None) \<and>
      (case take_first (\<lambda>u. matching (snd u) (filter_of source tag ctx)) U of
         None \<Rightarrow> pending s' (P @ [(a, filter_of source tag ctx)]) U
       | Some (u, U') \<Rightarrow> a = fst u \<and> pending s' P U')) \<and>
    (\<exists>s' a. MPID_Recvq_dq_posted_or_new_unexpected alloc m InitFunc s =
        Some (s', None, Some a, take_first (\<lambda>p. matching m (snd p)) P \<noteq> None) \<and>
      (case take_first (\<lambda>p. matching m (snd p)) P of
         None \<Rightarrow> pending s' P (U @ [(a, m)])
       | Some (p, P') \<Rightarrow> a = fst p \<and> pending s' P' U))"
proof -
  obtain ps us where l: "recv_lists s ps us" and PU: "P = entries (reqs s) ps" "U = entries (reqs s) us"
    using pend by (rule pendingE)
  let ?f = "filter_of source tag ctx"
  have "\<exists>s' a. MPID_Recvq_dq_unexpected_or_new_posted alloc source tag ctx InitFunc s =
        Some (s', None, Some a, take_first (\<lambda>u. matching (snd u) ?f) U \<noteq> None) \<and>
      (case take_first (\<lambda>u. matching (snd u) ?f) U of
         None \<Rightarrow> pending s' (P @ [(a, ?f)]) U
       | Some (u, U') \<Rightarrow> a = fst u \<and> pending s' P U')"
    using l fresh
  proof (cases rule: post_unsafe_cases [where src = source and tag = tag and ctx = ctx])
    case (Found xs a ys s1)
    have "a \<in> dom (reqs s1)" using lists_in_dom [OF l] relinked_dom [OF Found(6)] Found(1) by auto
    then obtain s2 where s2: "InitFunc a True s1 = Some (s2, None)" using init by blast
    have run: "MPID_Recvq_dq_unexpected_or_new_posted alloc source tag ctx InitFunc s = Some (s2, None, Some a, True)"
      using Found(4) s2 by (simp add: MPID_Recvq_dq_unexpected_or_new_posted_def)
    have "recvq_step s (Received a ?f) s2" by (rule receive_found [OF fresh tame run])
    then obtain vs e ws where "U = vs @ (a, e) # ws" "matching e ?f" "\<forall>u\<in>set vs. \<not> matching (snd u) ?f" "pending s2 P (vs @ ws)"
      using recvq.received [OF _ pend] by blast
    then show ?thesis using run take_first_found [of vs "\<lambda>u. matching (snd u) ?f" "(a, e)" ws] by simp
  next
    case (New a r s1)
    have "a \<in> dom (reqs s1)" using lists_in_dom [OF New(5)] by auto
    then obtain s2 where s2: "InitFunc a False s1 = Some (s2, None)" using init by blast
    have run: "MPID_Recvq_dq_unexpected_or_new_posted alloc source tag ctx InitFunc s = Some (s2, None, Some a, False)"
      using New(4) s2 by (simp add: MPID_Recvq_dq_unexpected_or_new_posted_def)
    have "recvq_step s (Posted a ?f) s2" by (rule receive_posted [OF fresh tame run])
    then show ?thesis using recvq.posted [OF _ pend] run take_first_none [of U "\<lambda>u. matching (snd u) ?f"] by auto
  qed (use mem in simp)
  moreover have "\<exists>s' a. MPID_Recvq_dq_posted_or_new_unexpected alloc m InitFunc s =
        Some (s', None, Some a, take_first (\<lambda>p. matching m (snd p)) P \<noteq> None) \<and>
      (case take_first (\<lambda>p. matching m (snd p)) P of
         None \<Rightarrow> pending s' P (U @ [(a, m)])
       | Some (p, P') \<Rightarrow> a = fst p \<and> pending s' P' U)"
    using l fresh
  proof (cases rule: arrive_unsafe_cases [where m = m])
    case (Found xs a ys s1)
    have "a \<in> dom (reqs s1)" using lists_in_dom [OF l] relinked_dom [OF Found(6)] Found(1) by auto
    then obtain s2 where s2: "InitFunc a True s1 = Some (s2, None)" using init by blast
    have run: "MPID_Recvq_dq_posted_or_new_unexpected alloc m InitFunc s = Some (s2, None, Some a, True)"
      using Found(4) s2 by (simp add: MPID_Recvq_dq_posted_or_new_unexpected_def)
    have "recvq_step s (Delivered a m) s2" by (rule message_found [OF fresh tame run])
    then obtain vs f ws where "P = vs @ (a, f) # ws" "matching m f" "\<forall>p\<in>set vs. \<not> matching m (snd p)" "pending s2 (vs @ ws) U"
      using recvq.delivered [OF _ pend] by blast
    then show ?thesis using run take_first_found [of vs "\<lambda>p. matching m (snd p)" "(a, f)" ws] by simp
  next
    case (New a r s1)
    have "a \<in> dom (reqs s1)" using lists_in_dom [OF New(5)] by auto
    then obtain s2 where s2: "InitFunc a False s1 = Some (s2, None)" using init by blast
    have run: "MPID_Recvq_dq_posted_or_new_unexpected alloc m InitFunc s = Some (s2, None, Some a, False)"
      using New(4) s2 by (simp add: MPID_Recvq_dq_posted_or_new_unexpected_def)
    have "recvq_step s (Arrived a m) s2" by (rule message_queued [OF fresh tame run])
    then show ?thesis using recvq.arrived [OF _ pend] run take_first_none [of P "\<lambda>p. matching m (snd p)"] by auto
  qed (use mem in simp)
  ultimately show ?thesis by blast
qed

lemma demo_pending: "pending demo_queues [] []"
  by (intro pendingI [of demo_queues "[]" "[]"]) (simp_all add: recv_lists_def demo_queues_def)

lemma MPID_Recvq_refines_lists_witness:
  "\<exists>s' a. MPID_Recvq_dq_unexpected_or_new_posted demo_alloc MPI_ANY_SOURCE MPI_ANY_TAG 7 demo_init demo_queues =
     Some (s', None, Some a, False) \<and> pending s' [(a, filter_of MPI_ANY_SOURCE MPI_ANY_TAG 7)] []"
proof -
  have mem: "demo_alloc (reqs demo_queues) \<noteq> None" by (rule demo_alloc_total) (simp add: demo_queues_def)
  have init: "\<exists>t'. demo_init a found t = Some (t', None)" for a found t by (simp add: demo_init_def)
  show ?thesis
    using MPID_Recvq_refines_lists [OF demo_pending demo_alloc_fresh mem demo_init_tame init,
        of MPI_ANY_SOURCE MPI_ANY_TAG 7 demo_message] by simp
qed

end
