(* ===== verification/Self_Messages.thy ===== *)
theory Self_Messages
  imports Recv_Order
begin

text \<open>
  Sending, receiving and cancelling on top of the receive queues, from \<open>src/mpi/msmpi/mpid/pt2pt.cpp\<close>,
  \<open>include/request.inl\<close> and \<open>mpid/probe.cpp\<close>: the creation of send requests, the choice of the
  protocol, messages of a process to itself (\<open>MPIDI_Isend_self\<close>, \<open>MPIDI_CH3_RecvFromSelf\<close>) in
  full, and the calls that hand over to the channel (eager and rendezvous packets) as arguments.
\<close>

subsection \<open>Processes and their environment\<close>

record process =
  recv :: recv_state
  umem :: memory

record comm_info =
  ci_rank :: int
  ci_context_id :: "128 word"
  ci_recvcontext_id :: "128 word"
  ci_intercomm :: bool

datatype pkt_type = MPIDI_CH3_PKT_EAGER_SEND | MPIDI_CH3_PKT_EAGER_SYNC_SEND | MPIDI_CH3_PKT_READY_SEND

text \<open>What the channel and the progress engine do is an argument: with a request, on a process.\<close>

type_synonym channel_call = "addr \<Rightarrow> process \<Rightarrow> (process \<times> mpi_error option) option"

record mpid_env =
  e_alloc :: allocator
  e_malloc :: bool
  e_types :: type_table
  e_comm :: "addr \<Rightarrow> comm_info"
  eager_max_msg_sz :: "addr \<Rightarrow> int \<Rightarrow> int"
  MPIDI_CH3_SendEager :: "pkt_type \<Rightarrow> channel_call"
  MPIDI_CH3_SendRndv :: channel_call
  MPIDI_CH3_EagerSyncAck :: channel_call
  MPIDI_CH3_RecvRndv :: channel_call
  MPIDI_CH3U_Request_unpack_uebuf :: "addr \<Rightarrow> process \<Rightarrow> process option"
  MPIDI_CH3_ffSend_cancel :: channel_call
  MPID_Progress_wait :: "process \<Rightarrow> (process \<times> mpi_error option) option"
  MPID_Progress_pump :: "process \<Rightarrow> (process \<times> mpi_error option) option"

definition on_recv :: "(recv_state \<Rightarrow> recv_state option) \<Rightarrow> process \<Rightarrow> process option" where
  "on_recv f p = map_option (\<lambda>s. p\<lparr>recv := s\<rparr>) (f (recv p))"

definition MPI_REQUEST_NULL :: int where "MPI_REQUEST_NULL = 0x2c000000"

subsection \<open>Creating requests\<close>

definition MPID_Request_create :: "allocator \<Rightarrow> MPID_Request_kind_t \<Rightarrow> recv_state \<Rightarrow> recv_state \<times> addr option" where
  "MPID_Request_create alloc kind s = (case MPID_Request_create_base alloc kind s of
     (s, None) \<Rightarrow> (s, None)
   | (s, Some a) \<Rightarrow> (s\<lparr>reqs := (reqs s)(a := map_option (\<lambda>r. r\<lparr>rq_comm := None,
       rq_status := (rq_status r)\<lparr>st_source := MPI_UNDEFINED, st_tag := MPI_UNDEFINED, st_count := 0\<rparr>\<rparr>) (reqs s a))\<rparr>, Some a))"

definition MPIDI_Request_create_sreq ::
  "mpid_env \<Rightarrow> req_type \<Rightarrow> buffer \<Rightarrow> int \<Rightarrow> int \<Rightarrow> addr \<Rightarrow> recv_state \<Rightarrow> recv_state \<times> addr option" where
  "MPIDI_Request_create_sreq env reqtype buf rnk tag comm s =
     (case MPID_Request_create_base (e_alloc env) MPID_REQUEST_SEND s of
        (s, None) \<Rightarrow> (s, None)
      | (s, Some a) \<Rightarrow>
          (let s = s\<lparr>reqs := (reqs s)(a := map_option (\<lambda>r. r\<lparr>rq_req_type := reqtype, rq_comm := Some comm,
                 rq_match := \<lparr>m_tag = tag, m_rank = rnk, m_context_id = ci_context_id (e_comm env comm)\<rparr>,
                 rq_user_buf := b_addr buf, rq_user_count := b_count buf, rq_datatype := b_type buf\<rparr>) (reqs s a))\<rparr>
           in (type_add_ref (b_type buf) (comm_add_ref comm s), Some a)))"

subsection \<open>Messages to oneself\<close>

text \<open>What \<open>MPIDI_Isend_self\<close> does with the receive request under the queue lock.\<close>

definition self_init :: "type_table \<Rightarrow> MPIDI_Message_match \<Rightarrow> addr \<Rightarrow> initializer" where
  "self_init T match sreq rreq found s = do {
     s \<leftarrow> on_req rreq (\<lambda>r. r\<lparr>rq_status := (rq_status r)\<lparr>st_source := m_rank match, st_tag := m_tag match\<rparr>\<rparr>) s;
     if found then Some (s, None)
     else do {
       sr \<leftarrow> reqs s sreq;
       s \<leftarrow> (if rq_req_type sr \<noteq> MPIDI_REQUEST_TYPE_RSEND
         then on_req rreq (\<lambda>r. r\<lparr>rq_partner_request := Some sreq, rq_sender_req_id := rq_handle sr,
                rq_status := (rq_status r)\<lparr>st_count := rq_user_count sr * GetSize T (rq_datatype sr)\<rparr>\<rparr>) s
         else do {
           let e = Some (MPIU_ERR_CREATE MPI_ERR_OTHER ''**rsendnomatch %d %d'');
           s \<leftarrow> on_req sreq (\<lambda>r. r\<lparr>rq_status := (rq_status r)\<lparr>st_error := e\<rparr>\<rparr>) s;
           s \<leftarrow> on_req rreq (\<lambda>r. r\<lparr>rq_status := (rq_status r)\<lparr>st_error := e, st_count := 0\<rparr>,
                  rq_partner_request := None, rq_sender_req_id := MPI_REQUEST_NULL\<rparr>) s;
           signal_completion sreq s
         });
       s \<leftarrow> on_req rreq (rq_msg_type_update (\<lambda>_. MPIDI_REQUEST_SELF_MSG)) s;
       Some (s, None)
     }
   }"

text \<open>The buffer of a request.\<close>

definition user_buffer :: "MPID_Request \<Rightarrow> buffer" where
  "user_buffer r = Buffer (rq_user_buf r) (rq_user_count r) (rq_datatype r)"

text \<open>Copy from the buffer of the send request to a buffer and set the status of both requests.\<close>

definition copy_self :: "mpid_env \<Rightarrow> addr \<Rightarrow> addr \<Rightarrow> buffer \<Rightarrow> process \<Rightarrow> process option" where
  "copy_self env sreq rreq buf p = do {
     sr \<leftarrow> reqs (recv p) sreq;
     (mem, serr, data_sz, rerr) \<leftarrow> MPIDI_CH3U_Buffer_copy (e_types env) (e_malloc env) (user_buffer sr) buf (umem p);
     p \<leftarrow> on_recv (on_req sreq (\<lambda>r. r\<lparr>rq_status := (rq_status r)\<lparr>st_error := serr\<rparr>\<rparr>)) (p\<lparr>umem := mem\<rparr>);
     on_recv (on_req rreq (\<lambda>r. r\<lparr>rq_status := (rq_status r)\<lparr>st_error := rerr, st_count := data_sz\<rparr>\<rparr>)) p
   }"

definition MPIDI_Isend_self :: "mpid_env \<Rightarrow> channel_call" where
  "MPIDI_Isend_self env sreq p = do {
     p \<leftarrow> on_recv (on_req sreq (rq_msg_type_update (\<lambda>_. MPIDI_REQUEST_SELF_MSG))) p;
     sr \<leftarrow> reqs (recv p) sreq;
     c \<leftarrow> rq_comm sr;
     let match = \<lparr>m_tag = m_tag (rq_match sr), m_rank = ci_rank (e_comm env c), m_context_id = m_context_id (rq_match sr)\<rparr>;
     (s, e, rreq, found) \<leftarrow> MPID_Recvq_dq_posted_or_new_unexpected (e_alloc env) match (self_init (e_types env) match sreq) (recv p);
     let p = p\<lparr>recv := s\<rparr>;
     if e \<noteq> None then Some (p, e)
     else do {
       rreq \<leftarrow> rreq;
       p \<leftarrow> (if found then do {
           rr \<leftarrow> reqs (recv p) rreq;
           p \<leftarrow> copy_self env sreq rreq (user_buffer rr) p;
           p \<leftarrow> on_recv (signal_completion rreq) p;
           on_recv (signal_completion sreq) p
         } else Some p);
       p \<leftarrow> on_recv (Release rreq) p;
       Some (p, None)
     }
   }"

definition MPIDI_CH3_RecvFromSelf :: "mpid_env \<Rightarrow> addr \<Rightarrow> buffer \<Rightarrow> process \<Rightarrow> process option" where
  "MPIDI_CH3_RecvFromSelf env rreq buf p = do {
     rr \<leftarrow> reqs (recv p) rreq;
     p \<leftarrow> (case rq_partner_request rr of
         None \<Rightarrow> Some p
       | Some sreq \<Rightarrow> do {
           p \<leftarrow> copy_self env sreq rreq buf p;
           on_recv (signal_completion sreq) p
         });
     on_recv (signal_completion rreq) p
   }"

subsection \<open>Sending\<close>

definition postpone_completion :: "addr \<Rightarrow> recv_state \<Rightarrow> recv_state option" where
  "postpone_completion a = on_req a (\<lambda>r. r\<lparr>rq_cc := i32 (rq_cc r + 1)\<rparr>)"

text \<open>The first part of the three \<open>execute\<close> functions; the rest, for a remote process, gets the size of the data.\<close>

definition execute ::
  "mpid_env \<Rightarrow> (addr \<Rightarrow> int \<Rightarrow> int \<Rightarrow> channel_call) \<Rightarrow> channel_call" where
  "execute env remote a p = do {
     r \<leftarrow> reqs (recv p) a;
     c \<leftarrow> rq_comm r;
     let rank = m_rank (rq_match r);
     if rank = MPI_PROC_NULL then do { p \<leftarrow> on_recv (signal_completion a) p; Some (p, None) }
     else if rank = ci_rank (e_comm env c) \<and> \<not> ci_intercomm (e_comm env c) then MPIDI_Isend_self env a p
     else remote c rank (fst (GetSizeAndInfo (e_types env) (rq_datatype r) (rq_user_count r))) a p
   }"

definition execute_send :: "mpid_env \<Rightarrow> channel_call" where
  "execute_send env = execute env (\<lambda>c rank data_sz.
     if data_sz \<le> eager_max_msg_sz env c rank then MPIDI_CH3_SendEager env MPIDI_CH3_PKT_EAGER_SEND
     else MPIDI_CH3_SendRndv env)"

definition execute_ssend :: "mpid_env \<Rightarrow> channel_call" where
  "execute_ssend env = execute env (\<lambda>c rank data_sz a p.
     if data_sz > eager_max_msg_sz env c rank then MPIDI_CH3_SendRndv env a p
     else do {
       (p, e) \<leftarrow> MPIDI_CH3_SendEager env MPIDI_CH3_PKT_EAGER_SYNC_SEND a p;
       if e = None then do {
         p \<leftarrow> on_recv (AddRef a) p;
         p \<leftarrow> on_recv (postpone_completion a) p;
         Some (p, e)
       } else Some (p, e)
     })"

definition execute_rsend :: "mpid_env \<Rightarrow> channel_call" where
  "execute_rsend env = execute env (\<lambda>c rank data_sz. MPIDI_CH3_SendEager env MPIDI_CH3_PKT_READY_SEND)"

text \<open>The three sends: state and request or error.\<close>

definition start_send ::
  "mpid_env \<Rightarrow> req_type \<Rightarrow> channel_call \<Rightarrow> buffer \<Rightarrow> int \<Rightarrow> int \<Rightarrow> addr \<Rightarrow> process \<Rightarrow> (process \<times> (mpi_error + addr)) option" where
  "start_send env reqtype exec buf rnk tag comm p =
     (case MPIDI_Request_create_sreq env reqtype buf rnk tag comm (recv p) of
        (s, None) \<Rightarrow> Some (p\<lparr>recv := s\<rparr>, Inl MPIU_ERR_NOMEM)
      | (s, Some sreq) \<Rightarrow> do {
          (p, e) \<leftarrow> exec sreq (p\<lparr>recv := s\<rparr>);
          case e of
            None \<Rightarrow> Some (p, Inr sreq)
          | Some err \<Rightarrow> do { p \<leftarrow> on_recv (Release sreq) p; Some (p, Inl err) }
        })"

definition MPID_Send where
  "MPID_Send env = start_send env MPIDI_REQUEST_TYPE_SEND (execute_send env)"

definition MPID_Ssend where
  "MPID_Ssend env = start_send env MPIDI_REQUEST_TYPE_SSEND (execute_ssend env)"

definition MPID_Rsend where
  "MPID_Rsend env = start_send env MPIDI_REQUEST_TYPE_RSEND (execute_rsend env)"

subsection \<open>Receiving\<close>

text \<open>A message type the code does not know trips an assertion and is ignored in a release build.\<close>

definition MPIDI_CH3_HandleRecvMsgType :: "mpid_env \<Rightarrow> buffer \<Rightarrow> channel_call" where
  "MPIDI_CH3_HandleRecvMsgType env buf rreq p = do {
     r \<leftarrow> reqs (recv p) rreq;
     case rq_msg_type r of
       MPIDI_REQUEST_EAGER_MSG \<Rightarrow> do {
         (p, e) \<leftarrow> (if rq_sync_ack r then MPIDI_CH3_EagerSyncAck env rreq p else Some (p, None));
         if e \<noteq> None then Some (p, e)
         else do {
           p \<leftarrow> on_recv (on_req rreq (\<lambda>r. r\<lparr>rq_recv_pending_count := i32 (rq_recv_pending_count r - 1)\<rparr>)) p;
           r \<leftarrow> reqs (recv p) rreq;
           if rq_recv_pending_count r = 0 \<and> rq_recv_data_sz r > 0
           then do { p \<leftarrow> MPIDI_CH3U_Request_unpack_uebuf env rreq p; Some (p, None) }
           else Some (p, None)
         }
       }
     | MPIDI_REQUEST_RNDV_MSG \<Rightarrow> MPIDI_CH3_RecvRndv env rreq p
     | MPIDI_REQUEST_SELF_MSG \<Rightarrow> do { p \<leftarrow> MPIDI_CH3_RecvFromSelf env rreq buf p; Some (p, None) }
     | MPIDI_REQUEST_NO_MSG \<Rightarrow> Some (p, None)
   }"

definition MPIDI_RecvProcNull :: "mpid_env \<Rightarrow> process \<Rightarrow> (process \<times> (mpi_error + addr)) option" where
  "MPIDI_RecvProcNull env p =
     (case MPID_Request_create (e_alloc env) MPID_REQUEST_RECV (recv p) of
        (s, None) \<Rightarrow> Some (p\<lparr>recv := s\<rparr>, Inl MPIU_ERR_NOMEM)
      | (s, Some a) \<Rightarrow> do {
          s \<leftarrow> signal_completion a s;
          s \<leftarrow> on_req a (\<lambda>r. r\<lparr>rq_status := (rq_status r)\<lparr>st_count := 0, st_cancelled := False,
                 st_source := MPI_PROC_NULL, st_tag := MPI_ANY_TAG\<rparr>\<rparr>) s;
          Some (p\<lparr>recv := s\<rparr>, Inr a)
        })"

definition recv_init :: "buffer \<Rightarrow> addr \<Rightarrow> initializer" where
  "recv_init buf comm rreq found s = do {
     s \<leftarrow> on_req rreq (rq_comm_update (\<lambda>_. Some comm)) s;
     let s = comm_add_ref comm s;
     s \<leftarrow> on_req rreq (\<lambda>r. r\<lparr>rq_user_buf := b_addr buf, rq_user_count := b_count buf, rq_datatype := b_type buf\<rparr>) s;
     let s = type_add_ref (b_type buf) s;
     s \<leftarrow> (if \<not> found then on_req rreq (rq_recv_pending_count_update (\<lambda>_. 1)) s else Some s);
     Some (s, None)
   }"

definition MPID_Recv ::
  "mpid_env \<Rightarrow> buffer \<Rightarrow> int \<Rightarrow> int \<Rightarrow> addr \<Rightarrow> process \<Rightarrow> (process \<times> (mpi_error + addr)) option" where
  "MPID_Recv env buf rnk tag comm p =
     (if rnk = MPI_PROC_NULL then MPIDI_RecvProcNull env p
      else do {
        (s, e, rreq, found) \<leftarrow> MPID_Recvq_dq_unexpected_or_new_posted (e_alloc env) rnk tag
          (ci_recvcontext_id (e_comm env comm)) (recv_init buf comm) (recv p);
        let p = p\<lparr>recv := s\<rparr>;
        case e of
          Some err \<Rightarrow> Some (p, Inl err)
        | None \<Rightarrow> do {
            rreq \<leftarrow> rreq;
            if \<not> found then Some (p, Inr rreq)
            else do {
              (p, e) \<leftarrow> MPIDI_CH3_HandleRecvMsgType env buf rreq p;
              case e of None \<Rightarrow> Some (p, Inr rreq) | Some err \<Rightarrow> Some (p, Inl err)
            }
          }
      })"

definition MPID_Imrecv ::
  "mpid_env \<Rightarrow> buffer \<Rightarrow> addr option \<Rightarrow> process \<Rightarrow> (process \<times> (mpi_error + addr)) option" where
  "MPID_Imrecv env buf message p =
     (case message of
        None \<Rightarrow> MPIDI_RecvProcNull env p
      | Some rreq \<Rightarrow> do {
          p \<leftarrow> on_recv (on_req rreq (\<lambda>r. r\<lparr>rq_user_buf := b_addr buf, rq_user_count := b_count buf, rq_datatype := b_type buf\<rparr>)) p;
          p \<leftarrow> on_recv (\<lambda>s. Some (type_add_ref (b_type buf) s)) p;
          (p, e) \<leftarrow> MPIDI_CH3_HandleRecvMsgType env buf rreq p;
          case e of None \<Rightarrow> Some (p, Inr rreq) | Some err \<Rightarrow> Some (p, Inl err)
        })"

subsection \<open>Cancelling and freeing\<close>

definition MPID_Cancel_recv :: "addr \<Rightarrow> process \<Rightarrow> process option" where
  "MPID_Cancel_recv rreq p = do {
     (s, r) \<leftarrow> MPID_Recvq_dq_recv rreq (recv p);
     let p = p\<lparr>recv := s\<rparr>;
     case r of
       None \<Rightarrow> Some p
     | Some a \<Rightarrow> do {
         p \<leftarrow> on_recv (on_req a (\<lambda>r. r\<lparr>rq_status := (rq_status r)\<lparr>st_cancelled := True, st_count := 0\<rparr>\<rparr>)) p;
         p \<leftarrow> on_recv (signal_completion a) p;
         on_recv (Release a) p
       }
   }"

definition MPID_Cancel_send :: "mpid_env \<Rightarrow> channel_call" where
  "MPID_Cancel_send env sreq p = do {
     sr \<leftarrow> reqs (recv p) sreq;
     p \<leftarrow> on_recv (on_req sreq (rq_cancel_pending_update (\<lambda>_. True))) p;
     if rq_cancel_pending sr \<or> rq_comm sr = None then Some (p, None)
     else if rq_msg_type sr = MPIDI_REQUEST_SELF_MSG then do {
       (s, r) \<leftarrow> MPID_Recvq_dq_msg_by_id (rq_handle sr) (rq_match sr) (recv p);
       let p = p\<lparr>recv := s\<rparr>;
       p \<leftarrow> (case r of
           Some rreq \<Rightarrow> do {
             p \<leftarrow> on_recv (Release rreq) p;
             p \<leftarrow> on_recv (on_req sreq (\<lambda>r. r\<lparr>rq_status := (rq_status r)\<lparr>st_cancelled := True\<rparr>\<rparr>)) p;
             on_recv (signal_completion sreq) p
           }
         | None \<Rightarrow> on_recv (on_req sreq (\<lambda>r. r\<lparr>rq_status := (rq_status r)\<lparr>st_cancelled := False\<rparr>\<rparr>)) p);
       Some (p, None)
     }
     else do {
       (p, e) \<leftarrow> MPIDI_CH3_ffSend_cancel env sreq p;
       if e \<noteq> None then Some (p, e)
       else do {
         p \<leftarrow> on_recv (postpone_completion sreq) p;
         p \<leftarrow> on_recv (AddRef sreq) p;
         Some (p, None)
       }
     }
   }"

subsection \<open>Probing\<close>

text \<open>The result of a probe: an error, or the status of a message.\<close>

definition procnull_status :: "MPIR_Status \<Rightarrow> MPIR_Status" where
  "procnull_status st = st\<lparr>st_count := 0, st_cancelled := False, st_source := MPI_PROC_NULL, st_tag := MPI_ANY_TAG\<rparr>"

partial_function (option) probe_loop ::
  "mpid_env \<Rightarrow> int \<Rightarrow> int \<Rightarrow> 128 word \<Rightarrow> process \<Rightarrow> (process \<times> (mpi_error + MPIR_Status)) option" where
  "probe_loop env source tag ctx p = do {
     found \<leftarrow> MPID_Recvq_probe_msg source tag ctx (recv p);
     case found of
       Some st \<Rightarrow> Some (p, Inr st)
     | None \<Rightarrow> do {
         (p, e) \<leftarrow> MPID_Progress_wait env p;
         case e of Some err \<Rightarrow> Some (p, Inl err) | None \<Rightarrow> probe_loop env source tag ctx p
       }
   }"

definition MPID_Probe ::
  "mpid_env \<Rightarrow> int \<Rightarrow> int \<Rightarrow> addr \<Rightarrow> MPIR_Status \<Rightarrow> process \<Rightarrow> (process \<times> (mpi_error + MPIR_Status)) option" where
  "MPID_Probe env source tag comm st p =
     (if source = MPI_PROC_NULL then Some (p, Inr (procnull_status st))
      else probe_loop env source tag (ci_recvcontext_id (e_comm env comm)) p)"

text \<open>State, error, and the status if a message was found.\<close>

definition MPID_Iprobe ::
  "mpid_env \<Rightarrow> int \<Rightarrow> int \<Rightarrow> addr \<Rightarrow> MPIR_Status \<Rightarrow> process \<Rightarrow> (process \<times> mpi_error option \<times> MPIR_Status option) option" where
  "MPID_Iprobe env source tag comm st p =
     (if source = MPI_PROC_NULL then Some (p, None, Some (procnull_status st))
      else do {
        found \<leftarrow> MPID_Recvq_probe_msg source tag (ci_recvcontext_id (e_comm env comm)) (recv p);
        if found \<noteq> None then Some (p, None, found)
        else do {
          (p, e) \<leftarrow> MPID_Progress_pump env p;
          found \<leftarrow> MPID_Recvq_probe_msg source tag (ci_recvcontext_id (e_comm env comm)) (recv p);
          Some (p, e, found)
        }
      })"

text \<open>A matched message keeps its communicator.\<close>

definition hold_comm :: "addr \<Rightarrow> addr \<Rightarrow> process \<Rightarrow> process option" where
  "hold_comm comm message p = do {
     p \<leftarrow> on_recv (on_req message (rq_comm_update (\<lambda>_. Some comm))) p;
     Some (p\<lparr>recv := comm_add_ref comm (recv p)\<rparr>)
   }"

partial_function (option) mprobe_loop ::
  "mpid_env \<Rightarrow> int \<Rightarrow> int \<Rightarrow> addr \<Rightarrow> process \<Rightarrow> (process \<times> (mpi_error + addr)) option" where
  "mprobe_loop env source tag comm p = do {
     (s, found) \<leftarrow> MPID_Recvq_probe_dq_msg source tag (ci_recvcontext_id (e_comm env comm)) (recv p);
     let p = p\<lparr>recv := s\<rparr>;
     case found of
       Some message \<Rightarrow> do { p \<leftarrow> hold_comm comm message p; Some (p, Inr message) }
     | None \<Rightarrow> do {
         (p, e) \<leftarrow> MPID_Progress_wait env p;
         case e of Some err \<Rightarrow> Some (p, Inl err) | None \<Rightarrow> mprobe_loop env source tag comm p
       }
   }"

definition MPID_Mprobe where
  "MPID_Mprobe = mprobe_loop"

definition MPID_Improbe ::
  "mpid_env \<Rightarrow> int \<Rightarrow> int \<Rightarrow> addr \<Rightarrow> process \<Rightarrow> (process \<times> (mpi_error + addr option)) option" where
  "MPID_Improbe env source tag comm p = do {
     (s, found) \<leftarrow> MPID_Recvq_probe_dq_msg source tag (ci_recvcontext_id (e_comm env comm)) (recv p);
     let p = p\<lparr>recv := s\<rparr>;
     (p, r) \<leftarrow> (case found of
         Some a \<Rightarrow> Some (p, Inr found)
       | None \<Rightarrow> do {
           (p, e) \<leftarrow> MPID_Progress_pump env p;
           case e of
             Some err \<Rightarrow> Some (p, Inl err)
           | None \<Rightarrow> do {
               (s, found) \<leftarrow> MPID_Recvq_probe_dq_msg source tag (ci_recvcontext_id (e_comm env comm)) (recv p);
               Some (p\<lparr>recv := s\<rparr>, Inr found)
             }
         });
     case r of
       Inr (Some message) \<Rightarrow> do { p \<leftarrow> hold_comm comm message p; Some (p, r) }
     | _ \<Rightarrow> Some (p, r)
   }"

end
