(* ===== verification/Request_Completion.thy ===== *)
theory Request_Completion
  imports Self_Messages Handles
begin

text \<open>
  The life of a request after it is started, from \<open>src/mpi/msmpi/include/request.inl\<close> and
  \<open>mpid/request.cpp\<close>: the test for completion, the completion that hands the status and the error to
  the caller and drops the reference, persistent requests and how they are started, generalised
  requests. The tasks of nonblocking collectives, the callbacks of generalised requests, one-sided
  windows and buffered sends are arguments.
\<close>

subsection \<open>Environment\<close>

record completion_env =
  c_mpid :: mpid_env
  request_object :: "int \<Rightarrow> addr option"
  nbcreq_test_complete :: "addr \<Rightarrow> process \<Rightarrow> (process \<times> bool) option"
  cancel_nbc_tasklist :: "addr \<Rightarrow> process \<Rightarrow> process option"
  greq_query :: "addr \<Rightarrow> process \<Rightarrow> (process \<times> int) option"
  greq_free :: "addr \<Rightarrow> process \<Rightarrow> (process \<times> int) option"
  greq_cancel :: "addr \<Rightarrow> bool \<Rightarrow> process \<Rightarrow> (process \<times> int) option"
  source_win :: "addr \<Rightarrow> process \<Rightarrow> mpi_error + addr"
  MPID_Win_flush :: "addr \<Rightarrow> addr \<Rightarrow> process \<Rightarrow> (process \<times> mpi_error option) option"
  NMPI_Ibsend :: "buffer \<Rightarrow> int \<Rightarrow> int \<Rightarrow> addr \<Rightarrow> process \<Rightarrow> (process \<times> (mpi_error + addr)) option"
  MPID_Progress_wait_interruptible :: "process \<Rightarrow> (process \<times> mpi_error option) option"

abbreviation progress_wait :: "completion_env \<Rightarrow> process \<Rightarrow> (process \<times> mpi_error option) option" where
  "progress_wait env \<equiv> MPID_Progress_wait (c_mpid env)"

abbreviation progress_pump :: "completion_env \<Rightarrow> process \<Rightarrow> (process \<times> mpi_error option) option" where
  "progress_pump env \<equiv> MPID_Progress_pump (c_mpid env)"

text \<open>The two error classes that are returned without a message.\<close>

definition ERR_IN_STATUS :: mpi_error where "ERR_IN_STATUS = MPIU_ERR_CREATE MPI_ERR_IN_STATUS []"
definition ERR_PENDING :: mpi_error where "ERR_PENDING = MPIU_ERR_CREATE MPI_ERR_PENDING []"

subsection \<open>Statuses\<close>

text \<open>A status argument is \<open>None\<close> for \<open>MPI_STATUS_IGNORE\<close>.\<close>

definition MPIR_Status_set_empty :: "MPIR_Status option \<Rightarrow> MPIR_Status option" where
  "MPIR_Status_set_empty = map_option (\<lambda>st. st\<lparr>st_count := 0, st_cancelled := False, st_source := MPI_ANY_SOURCE, st_tag := MPI_ANY_TAG\<rparr>)"

definition MPIR_Status_set_error :: "mpi_error option \<Rightarrow> MPIR_Status option \<Rightarrow> MPIR_Status option" where
  "MPIR_Status_set_error e = map_option (st_error_update (\<lambda>_. e))"

definition MPIR_Status_set_cancelled :: "bool \<Rightarrow> MPIR_Status option \<Rightarrow> MPIR_Status option" where
  "MPIR_Status_set_cancelled b = map_option (st_cancelled_update (\<lambda>_. b))"

definition MPIR_Request_extract_status :: "MPID_Request \<Rightarrow> MPIR_Status option \<Rightarrow> MPIR_Status option" where
  "MPIR_Request_extract_status r = map_option (\<lambda>st. st\<lparr>st_count := st_count (rq_status r),
     st_cancelled := st_cancelled (rq_status r), st_source := st_source (rq_status r), st_tag := st_tag (rq_status r)\<rparr>)"

subsection \<open>Completion\<close>

partial_function (option) test_complete :: "completion_env \<Rightarrow> addr \<Rightarrow> process \<Rightarrow> (process \<times> bool) option" where
  "test_complete env a p = do {
     r \<leftarrow> reqs (recv p) a;
     if rq_kind r = MPID_BUFFERED_SEND then Some (p, \<not> rq_cancel_pending r \<or> rq_cc r = 0)
     else if rq_kind r = MPID_PERSISTENT_SEND \<or> rq_kind r = MPID_PERSISTENT_RECV then
       (case rq_partner_request r of None \<Rightarrow> Some (p, True) | Some b \<Rightarrow> test_complete env b p)
     else if rq_kind r = MPID_REQUEST_MPROBE then Some (p, False)
     else if rq_kind r = MPID_REQUEST_NBC then nbcreq_test_complete env a p
     else Some (p, rq_cc r = 0)
   }"

declare test_complete.simps [code]

definition user_error :: "string \<Rightarrow> int \<Rightarrow> mpi_error option" where
  "user_error key rc = (if rc \<noteq> 0 then Some (MPIU_ERR_CREATE MPI_ERR_OTHER key) else None)"

definition MPIR_Grequest_query :: "completion_env \<Rightarrow> addr \<Rightarrow> process \<Rightarrow> (process \<times> mpi_error option) option" where
  "MPIR_Grequest_query env a p = do { (p, rc) \<leftarrow> greq_query env a p; Some (p, user_error ''**userquery %d'' rc) }"

definition MPIR_Grequest_free :: "completion_env \<Rightarrow> addr \<Rightarrow> process \<Rightarrow> (process \<times> mpi_error option) option" where
  "MPIR_Grequest_free env a p = do { (p, rc) \<leftarrow> greq_free env a p; Some (p, user_error ''**userfree %d'' rc) }"

definition MPIR_Grequest_cancel :: "completion_env \<Rightarrow> addr \<Rightarrow> process \<Rightarrow> (process \<times> mpi_error option) option" where
  "MPIR_Grequest_cancel env a p = do {
     (p, c) \<leftarrow> test_complete env a p;
     (p, rc) \<leftarrow> greq_cancel env a c p;
     Some (p, user_error ''**usercancel %d'' rc)
   }"

text \<open>The results: the process, the caller's handle and status, whether the request was active, the error.\<close>

type_synonym completion_result = "(process \<times> int \<times> MPIR_Status option \<times> bool \<times> mpi_error option) option"

text \<open>A request that is gone after its completion: its reference is dropped and the handle cleared.\<close>

definition finish_request ::
  "addr \<Rightarrow> MPIR_Status option \<Rightarrow> mpi_error option \<Rightarrow> process \<Rightarrow> completion_result" where
  "finish_request a st e p = do { p \<leftarrow> on_recv (Release a) p; Some (p, MPI_REQUEST_NULL, st, True, e) }"

text \<open>A persistent request: its partner is taken off and released, with the partner's results.\<close>

definition finish_partner ::
  "addr \<Rightarrow> addr \<Rightarrow> (MPID_Request \<Rightarrow> MPIR_Status option) \<Rightarrow> int \<Rightarrow> process \<Rightarrow> completion_result" where
  "finish_partner a b st h p = do {
     p \<leftarrow> on_recv (on_req a (rq_partner_request_update (\<lambda>_. None))) p;
     pr \<leftarrow> reqs (recv p) b;
     p \<leftarrow> on_recv (Release b) p;
     Some (p, h, st pr, True, st_error (rq_status pr))
   }"

definition MPIR_Request_complete ::
  "completion_env \<Rightarrow> int \<Rightarrow> addr \<Rightarrow> MPIR_Status option \<Rightarrow> process \<Rightarrow> completion_result" where
  "MPIR_Request_complete env h a st p = do {
     r \<leftarrow> reqs (recv p) a;
     let e = st_error (rq_status r);
     case rq_kind r of
       MPID_BUFFERED_SEND \<Rightarrow> finish_request a (MPIR_Status_set_cancelled (st_cancelled (rq_status r)) st) e p
     | MPID_REQUEST_SEND \<Rightarrow> finish_request a (MPIR_Status_set_cancelled (st_cancelled (rq_status r)) st) e p
     | MPID_REQUEST_RMA_PUT \<Rightarrow> finish_request a (MPIR_Status_set_cancelled (st_cancelled (rq_status r)) st) e p
     | MPID_REQUEST_RECV \<Rightarrow> finish_request a (MPIR_Request_extract_status r st) e p
     | MPID_REQUEST_RMA_GET \<Rightarrow> finish_request a (MPIR_Request_extract_status r st) e p
     | MPID_PERSISTENT_SEND \<Rightarrow>
         (case rq_partner_request r of
            Some b \<Rightarrow> finish_partner a b (\<lambda>pr. MPIR_Status_set_cancelled (st_cancelled (rq_status pr)) st) h p
          | None \<Rightarrow>
              if e \<noteq> None then Some (p, h, MPIR_Status_set_cancelled False st, True, e)
              else Some (p, h, MPIR_Status_set_empty st, False, None))
     | MPID_PERSISTENT_RECV \<Rightarrow>
         (case rq_partner_request r of
            Some b \<Rightarrow> finish_partner a b (\<lambda>pr. MPIR_Request_extract_status pr st) h p
          | None \<Rightarrow> Some (p, h, MPIR_Status_set_empty st, e \<noteq> None, e))
     | MPID_GREQUEST \<Rightarrow> do {
         (p, qe) \<leftarrow> MPIR_Grequest_query env a p;
         r \<leftarrow> reqs (recv p) a;
         (p, fe) \<leftarrow> MPIR_Grequest_free env a p;
         finish_request a (MPIR_Request_extract_status r st) (if qe = None then fe else qe) p
       }
     | MPID_REQUEST_NBC \<Rightarrow> finish_request a (MPIR_Request_extract_status r st) e p
     | MPID_REQUEST_NOOP \<Rightarrow> finish_request a (MPIR_Request_extract_status r st) e p
     | _ \<Rightarrow> Some (p, h, st, True, Some (MPIU_ERR_CREATE MPI_ERR_INTERN ''**badcase %d''))
   }"

definition MPIR_Request_get_error :: "completion_env \<Rightarrow> addr \<Rightarrow> process \<Rightarrow> (process \<times> mpi_error option) option" where
  "MPIR_Request_get_error env a p = do {
     r \<leftarrow> reqs (recv p) a;
     if rq_kind r \<in> {MPID_BUFFERED_SEND, MPID_REQUEST_SEND, MPID_REQUEST_RECV, MPID_REQUEST_RMA_PUT,
          MPID_REQUEST_RMA_GET, MPID_REQUEST_NOOP}
     then Some (p, st_error (rq_status r))
     else if rq_kind r \<in> {MPID_PERSISTENT_SEND, MPID_PERSISTENT_RECV} then
       (case rq_partner_request r of
          Some b \<Rightarrow> do { pr \<leftarrow> reqs (recv p) b; Some (p, st_error (rq_status pr)) }
        | None \<Rightarrow> Some (p, st_error (rq_status r)))
     else if rq_kind r = MPID_GREQUEST then MPIR_Grequest_query env a p
     else Some (p, Some (MPIU_ERR_CREATE MPI_ERR_INTERN ''**badcase %d''))
   }"

subsection \<open>Waiting\<close>

partial_function (option) MPIR_Wait :: "completion_env \<Rightarrow> addr \<Rightarrow> process \<Rightarrow> (process \<times> mpi_error option) option" where
  "MPIR_Wait env a p = do {
     (p, ok) \<leftarrow> test_complete env a p;
     if ok then Some (p, None)
     else do {
       (p, e) \<leftarrow> progress_wait env p;
       if e \<noteq> None then Some (p, e) else MPIR_Wait env a p
     }
   }"

declare MPIR_Wait.simps [code]

fun waitall_loop ::
  "completion_env \<Rightarrow> addr list \<Rightarrow> mpi_error option \<Rightarrow> process \<Rightarrow> (process \<times> mpi_error option) option" where
  "waitall_loop env [] reqErr p = Some (p, reqErr)"
| "waitall_loop env (a # as) reqErr p = do {
     (p, e) \<leftarrow> MPIR_Wait env a p;
     if e \<noteq> None then Some (p, e)
     else do {
       r \<leftarrow> reqs (recv p) a;
       waitall_loop env as (if st_error (rq_status r) \<noteq> None then st_error (rq_status r) else reqErr) p
     }
   }"

definition MPIR_Waitall :: "completion_env \<Rightarrow> addr list \<Rightarrow> process \<Rightarrow> (process \<times> mpi_error option) option" where
  "MPIR_Waitall env as p = waitall_loop env as None p"

text \<open>The first complete request: its index and its error.\<close>

fun find_complete ::
  "completion_env \<Rightarrow> nat \<Rightarrow> addr option list \<Rightarrow> process \<Rightarrow> (process \<times> (nat \<times> mpi_error option) option) option" where
  "find_complete env i [] p = Some (p, None)"
| "find_complete env i (None # as) p = find_complete env (Suc i) as p"
| "find_complete env i (Some a # as) p = do {
     (p, ok) \<leftarrow> test_complete env a p;
     if ok then do { r \<leftarrow> reqs (recv p) a; Some (p, Some (i, st_error (rq_status r))) }
     else find_complete env (Suc i) as p
   }"

partial_function (option) MPIR_Waitany ::
  "completion_env \<Rightarrow> addr option list \<Rightarrow> process \<Rightarrow> (process \<times> nat option \<times> mpi_error option) option" where
  "MPIR_Waitany env as p = do {
     (p, found) \<leftarrow> find_complete env 0 as p;
     case found of
       Some (i, e) \<Rightarrow> Some (p, Some i, e)
     | None \<Rightarrow> do {
         (p, e) \<leftarrow> progress_wait env p;
         if e \<noteq> None then Some (p, None, e) else MPIR_Waitany env as p
       }
   }"

partial_function (option) MPIR_WaitInternal :: "completion_env \<Rightarrow> addr \<Rightarrow> process \<Rightarrow> (process \<times> mpi_error option) option" where
  "MPIR_WaitInternal env a p = do {
     r \<leftarrow> reqs (recv p) a;
     if rq_cc r = 0 then Some (p, None)
     else do {
       (p, e) \<leftarrow> progress_wait env p;
       if e \<noteq> None then Some (p, e) else MPIR_WaitInternal env a p
     }
   }"

definition MPIDI_Request_create_completed_req :: "completion_env \<Rightarrow> process \<Rightarrow> (process \<times> addr option) option" where
  "MPIDI_Request_create_completed_req env p =
     (case MPID_Request_create (e_alloc (c_mpid env)) MPID_REQUEST_NOOP (recv p) of
        (s, None) \<Rightarrow> Some (p\<lparr>recv := s\<rparr>, None)
      | (s, Some a) \<Rightarrow> do {
          s \<leftarrow> on_req a (\<lambda>r. r\<lparr>rq_status := (rq_status r)\<lparr>st_error := None\<rparr>\<rparr>) s;
          s \<leftarrow> signal_completion a s;
          Some (p\<lparr>recv := s\<rparr>, Some a)
        })"

subsection \<open>Persistent requests\<close>

definition create_psreq ::
  "completion_env \<Rightarrow> MPID_Request_kind_t \<Rightarrow> req_type \<Rightarrow> addr \<Rightarrow> int \<Rightarrow> int \<Rightarrow> 128 word \<Rightarrow> buffer \<Rightarrow> process \<Rightarrow> process \<times> addr option" where
  "create_psreq env kind reqtype comm rnk tag ctx buf p =
     (case MPID_Request_create (e_alloc (c_mpid env)) kind (recv p) of
        (s, None) \<Rightarrow> (p\<lparr>recv := s\<rparr>, None)
      | (s, Some a) \<Rightarrow>
          (let s = s\<lparr>reqs := (reqs s)(a := map_option (\<lambda>r. r\<lparr>rq_req_type := reqtype, rq_cc := 0, rq_comm := Some comm,
                 rq_match := \<lparr>m_tag = tag, m_rank = rnk, m_context_id = ctx\<rparr>,
                 rq_user_buf := b_addr buf, rq_user_count := b_count buf, rq_partner_request := None,
                 rq_datatype := b_type buf\<rparr>) (reqs s a))\<rparr>
           in (p\<lparr>recv := type_add_ref (b_type buf) (comm_add_ref comm s)\<rparr>, Some a)))"

definition init_request :: "process \<times> addr option \<Rightarrow> process \<times> (mpi_error + addr)" where
  "init_request = (\<lambda>(p, a). (p, case a of None \<Rightarrow> Inl MPIU_ERR_NOMEM | Some a \<Rightarrow> Inr a))"

definition send_psreq ::
  "completion_env \<Rightarrow> req_type \<Rightarrow> buffer \<Rightarrow> int \<Rightarrow> int \<Rightarrow> addr \<Rightarrow> process \<Rightarrow> process \<times> (mpi_error + addr)" where
  "send_psreq env reqtype buf rnk tag comm p =
     init_request (create_psreq env MPID_PERSISTENT_SEND reqtype comm rnk tag (ci_context_id (e_comm (c_mpid env) comm)) buf p)"

definition MPID_Send_init where "MPID_Send_init env = send_psreq env MPIDI_REQUEST_TYPE_SEND"
definition MPID_Ssend_init where "MPID_Ssend_init env = send_psreq env MPIDI_REQUEST_TYPE_SSEND"
definition MPID_Rsend_init where "MPID_Rsend_init env = send_psreq env MPIDI_REQUEST_TYPE_RSEND"
definition MPID_Bsend_init where "MPID_Bsend_init env = send_psreq env MPIDI_REQUEST_TYPE_BSEND"

definition MPID_Recv_init ::
  "completion_env \<Rightarrow> buffer \<Rightarrow> int \<Rightarrow> int \<Rightarrow> addr \<Rightarrow> process \<Rightarrow> process \<times> (mpi_error + addr)" where
  "MPID_Recv_init env buf rnk tag comm p =
     init_request (create_psreq env MPID_PERSISTENT_RECV MPIDI_REQUEST_TYPE_RECV comm rnk tag
       (ci_recvcontext_id (e_comm (c_mpid env) comm)) buf p)"

text \<open>Start one persistent request by its type.\<close>

definition start_one :: "completion_env \<Rightarrow> MPID_Request \<Rightarrow> process \<Rightarrow> (process \<times> (mpi_error + addr)) option" where
  "start_one env r p = do {
     comm \<leftarrow> rq_comm r;
     let buf = user_buffer r;
     let rank = m_rank (rq_match r);
     let tag = m_tag (rq_match r);
     case rq_req_type r of
       MPIDI_REQUEST_TYPE_RECV \<Rightarrow> MPID_Recv (c_mpid env) buf rank tag comm p
     | MPIDI_REQUEST_TYPE_SEND \<Rightarrow> MPID_Send (c_mpid env) buf rank tag comm p
     | MPIDI_REQUEST_TYPE_RSEND \<Rightarrow> MPID_Rsend (c_mpid env) buf rank tag comm p
     | MPIDI_REQUEST_TYPE_SSEND \<Rightarrow> MPID_Ssend (c_mpid env) buf rank tag comm p
     | MPIDI_REQUEST_TYPE_BSEND \<Rightarrow> NMPI_Ibsend env buf rank tag comm p
   }"

fun MPID_Startall :: "completion_env \<Rightarrow> addr list \<Rightarrow> process \<Rightarrow> process option" where
  "MPID_Startall env [] p = Some p"
| "MPID_Startall env (a # as) p = do {
     r \<leftarrow> reqs (recv p) a;
     (p, rc) \<leftarrow> start_one env r p;
     p \<leftarrow> on_recv (on_req a (\<lambda>r. case rc of
         Inr b \<Rightarrow> r\<lparr>rq_partner_request := Some b, rq_status := (rq_status r)\<lparr>st_error := None\<rparr>\<rparr>
       | Inl e \<Rightarrow> r\<lparr>rq_partner_request := None, rq_status := (rq_status r)\<lparr>st_error := Some e\<rparr>\<rparr>)) p;
     MPID_Startall env as p
   }"

text \<open>\<open>MPID_Request::cancel\<close>, for the requests of nonblocking collectives.\<close>

definition cancel_request :: "completion_env \<Rightarrow> addr \<Rightarrow> process \<Rightarrow> process option" where
  "cancel_request env a p = do {
     r \<leftarrow> reqs (recv p) a;
     case rq_kind r of
       MPID_REQUEST_SEND \<Rightarrow> map_option fst (MPID_Cancel_send (c_mpid env) a p)
     | MPID_REQUEST_RECV \<Rightarrow> MPID_Cancel_recv a p
     | MPID_REQUEST_NBC \<Rightarrow> cancel_nbc_tasklist env a p
     | _ \<Rightarrow> Some p
   }"

end
