(* ===== verification/Queue_Lock.thy ===== *)
theory Queue_Lock
  imports Prelude "HOL-Library.Sublist"
begin

text \<open>
  The queue lock of \<open>src/mpi/msmpi/api/mpi_completion.cpp\<close>: \<open>MSMPI_Queuelock_acquire\<close> and
  \<open>MSMPI_Queuelock_release\<close>, with the entries of the callers chained behind a shared tail pointer.
  A step relation interleaves the accesses to shared memory of any number of callers, one access
  at a time. A caller is named by its queue entry, which it uses for one acquisition at a time.

  The locale \<open>fifo_lock\<close> is the contract of such a lock: callers join a queue, the head of the
  queue enters when nobody is inside, and leaves the queue when it leaves the lock. What follows for
  every run is proved there once; the interpretation is on the steps of the code.
\<close>

subsection \<open>The contract\<close>

datatype 't lock_event = Join 't | Enter 't | Leave 't | Quiet

inductive run :: "('s \<Rightarrow> 't lock_event \<Rightarrow> 's \<Rightarrow> bool) \<Rightarrow> 's \<Rightarrow> 't lock_event list \<Rightarrow> 's \<Rightarrow> bool" for step s where
  run_start: "run step s [] s"
| run_step: "run step s es s' \<Longrightarrow> step s' e s'' \<Longrightarrow> run step s (es @ [e]) s''"

definition joins :: "'t lock_event list \<Rightarrow> 't list" where
  "joins es = concat (map (\<lambda>e. case e of Join t \<Rightarrow> [t] | _ \<Rightarrow> []) es)"

definition enters :: "'t lock_event list \<Rightarrow> 't list" where
  "enters es = concat (map (\<lambda>e. case e of Enter t \<Rightarrow> [t] | _ \<Rightarrow> []) es)"

definition leaves :: "'t lock_event list \<Rightarrow> 't list" where
  "leaves es = concat (map (\<lambda>e. case e of Leave t \<Rightarrow> [t] | _ \<Rightarrow> []) es)"

lemma events_snoc [simp]:
  "joins (es @ [e]) = joins es @ (case e of Join t \<Rightarrow> [t] | _ \<Rightarrow> [])"
  "enters (es @ [e]) = enters es @ (case e of Enter t \<Rightarrow> [t] | _ \<Rightarrow> [])"
  "leaves (es @ [e]) = leaves es @ (case e of Leave t \<Rightarrow> [t] | _ \<Rightarrow> [])"
  by (simp_all add: joins_def enters_def leaves_def)

lemma events_nil [simp]: "joins [] = []" "enters [] = []" "leaves [] = []"
  by (simp_all add: joins_def enters_def leaves_def)

locale fifo_lock =
  fixes step :: "'s \<Rightarrow> 't lock_event \<Rightarrow> 's \<Rightarrow> bool"
    and queued :: "'s \<Rightarrow> 't list \<Rightarrow> 't option \<Rightarrow> bool"
  assumes joined: "step s (Join t) s' \<Longrightarrow> queued s q own \<Longrightarrow> queued s' (q @ [t]) own"
    and entered: "step s (Enter t) s' \<Longrightarrow> queued s q own \<Longrightarrow> own = None \<and> queued s' q (Some t) \<and> (\<exists>r. q = t # r)"
    and left: "step s (Leave t) s' \<Longrightarrow> queued s q own \<Longrightarrow> own = Some t \<and> (\<exists>r. q = t # r \<and> queued s' r None)"
    and quiet: "step s Quiet s' \<Longrightarrow> queued s q own \<Longrightarrow> queued s' q own"
begin

lemma run_ordered:
  "run step s es s' \<Longrightarrow> queued s [] None \<Longrightarrow>
   \<exists>q own. queued s' q own \<and> joins es = enters es @ (if own = None then q else tl q) \<and>
     enters es = leaves es @ (case own of None \<Rightarrow> [] | Some t \<Rightarrow> [t]) \<and> (own \<noteq> None \<longrightarrow> q \<noteq> [])"
proof (induction rule: run.induct)
  case run_start
  then show ?case by (intro exI [of _ "[]"] exI [of _ None]) simp
next
  case (run_step es s' e s'')
  then obtain q own where q: "queued s' q own" "joins es = enters es @ (if own = None then q else tl q)"
    "enters es = leaves es @ (case own of None \<Rightarrow> [] | Some t \<Rightarrow> [t])" "own \<noteq> None \<longrightarrow> q \<noteq> []" by blast
  show ?case
  proof (cases e)
    case (Join t)
    then show ?thesis using joined [OF _ q(1), of t s''] run_step(2) q(2-4)
      by (intro exI [of _ "q @ [t]"] exI [of _ own]) auto
  next
    case (Enter t)
    then obtain r where r: "own = None" "queued s'' q (Some t)" "q = t # r" using entered [OF _ q(1)] run_step(2) by blast
    then show ?thesis using q(2,3) Enter by (intro exI [of _ q] exI [of _ "Some t"]) simp
  next
    case (Leave t)
    then obtain r where r: "own = Some t" "queued s'' r None" "q = t # r" using left [OF _ q(1)] run_step(2) by blast
    then show ?thesis using q(2,3) Leave by (intro exI [of _ r] exI [of _ None]) simp
  next
    case Quiet
    then show ?thesis using quiet [OF _ q(1)] run_step(2) q(2-4) by (intro exI [of _ q] exI [of _ own]) simp
  qed
qed

end

subsection \<open>The code\<close>

text \<open>
  Where a caller is. Outside the two functions; in \<open>acquire\<close> after clearing \<open>next\<close>, after
  counting itself (with the depth it read), after the exchange of the tail (with the old tail),
  after setting its flag, after chaining itself, spinning; inside; in \<open>release\<close> before the
  compare-exchange, waiting for its successor to chain itself, before it clears the successor's flag,
  before it counts itself out.
\<close>

datatype 't lock_pc =
    Outside | Cleared | Counted "32 word" | Swapped "32 word" "'t option" | Flagged "32 word" 't
  | Chained "32 word" | Spinning | Inside | TakingTail | AwaitingNext | HandingOver | Leaving

record 't lock_state =
  s_LockQueueDepth :: "32 word"
  s_pLockQueueTail :: "'t option"
  next_entry :: "'t \<Rightarrow> 't option"
  flags :: "'t \<Rightarrow> nat"
  at :: "'t \<Rightarrow> 't lock_pc"
  interrupts :: nat

definition LONG_MIN :: "32 word" where "LONG_MIN = 0x80000000"

inductive lock_step :: "'t lock_state \<Rightarrow> 't lock_event \<Rightarrow> 't lock_state \<Rightarrow> bool" where
  acquire_clear: "at s t = Outside \<Longrightarrow>
     lock_step s Quiet (s\<lparr>next_entry := (next_entry s)(t := None), at := (at s)(t := Cleared)\<rparr>)"
| acquire_count: "at s t = Cleared \<Longrightarrow>
     lock_step s Quiet (s\<lparr>s_LockQueueDepth := s_LockQueueDepth s + 1, at := (at s)(t := Counted (s_LockQueueDepth s + 1))\<rparr>)"
| acquire_swap: "at s t = Counted d \<Longrightarrow>
     lock_step s (Join t) (s\<lparr>s_pLockQueueTail := Some t, at := (at s)(t := Swapped d (s_pLockQueueTail s))\<rparr>)"
| acquire_first: "at s t = Swapped d None \<Longrightarrow>
     lock_step s (Enter t) (s\<lparr>flags := (flags s)(t := 0), at := (at s)(t := Inside)\<rparr>)"
| acquire_flag: "at s t = Swapped d (Some old) \<Longrightarrow>
     lock_step s Quiet (s\<lparr>flags := (flags s)(t := 1), at := (at s)(t := Flagged d old)\<rparr>)"
| acquire_chain: "at s t = Flagged d old \<Longrightarrow>
     lock_step s Quiet (s\<lparr>next_entry := (next_entry s)(old := Some t), at := (at s)(t := Chained d)\<rparr>)"
| acquire_interrupt: "at s t = Chained d \<Longrightarrow>
     lock_step s Quiet (s\<lparr>interrupts := (if sint d < 0 then Suc (interrupts s) else interrupts s), at := (at s)(t := Spinning)\<rparr>)"
| acquire_spin: "at s t = Spinning \<Longrightarrow> flags s t \<noteq> 0 \<Longrightarrow> lock_step s Quiet s"
| acquire_done: "at s t = Spinning \<Longrightarrow> flags s t = 0 \<Longrightarrow> lock_step s (Enter t) (s\<lparr>at := (at s)(t := Inside)\<rparr>)"
| release_look: "at s t = Inside \<Longrightarrow>
     lock_step s Quiet (s\<lparr>at := (at s)(t := if next_entry s t = None then TakingTail else HandingOver)\<rparr>)"
| release_last: "at s t = TakingTail \<Longrightarrow> s_pLockQueueTail s = Some t \<Longrightarrow>
     lock_step s (Leave t) (s\<lparr>s_pLockQueueTail := None, at := (at s)(t := Leaving)\<rparr>)"
| release_late: "at s t = TakingTail \<Longrightarrow> s_pLockQueueTail s \<noteq> Some t \<Longrightarrow>
     lock_step s Quiet (s\<lparr>at := (at s)(t := AwaitingNext)\<rparr>)"
| release_spin: "at s t = AwaitingNext \<Longrightarrow> next_entry s t = None \<Longrightarrow> lock_step s Quiet s"
| release_found: "at s t = AwaitingNext \<Longrightarrow> next_entry s t \<noteq> None \<Longrightarrow>
     lock_step s Quiet (s\<lparr>at := (at s)(t := HandingOver)\<rparr>)"
| release_hand: "at s t = HandingOver \<Longrightarrow> next_entry s t = Some n \<Longrightarrow>
     lock_step s (Leave t) (s\<lparr>flags := (flags s)(n := 0), at := (at s)(t := Leaving)\<rparr>)"
| release_count: "at s t = Leaving \<Longrightarrow>
     lock_step s Quiet (s\<lparr>s_LockQueueDepth := s_LockQueueDepth s - 1, at := (at s)(t := Outside)\<rparr>)"
| waitsome_toggle: "lock_step s Quiet (s\<lparr>s_LockQueueDepth := s_LockQueueDepth s + LONG_MIN\<rparr>)"

inductive_cases lock_stepE:
  "lock_step s (Join t) s'" "lock_step s (Enter t) s'" "lock_step s (Leave t) s'" "lock_step s Quiet s'"

definition lock_init :: "('t \<Rightarrow> nat) \<Rightarrow> ('t \<Rightarrow> 't option) \<Rightarrow> 't lock_state" where
  "lock_init f n = \<lparr>s_LockQueueDepth = 0, s_pLockQueueTail = None, next_entry = n, flags = f, at = (\<lambda>_. Outside), interrupts = 0\<rparr>"

subsection \<open>The invariant\<close>

text \<open>A caller is in the queue from the exchange of the tail until it hands the lock over.\<close>

fun in_queue :: "'t lock_pc \<Rightarrow> bool" where
  "in_queue Outside = False" | "in_queue Cleared = False" | "in_queue (Counted d) = False"
| "in_queue Leaving = False" | "in_queue _ = True"

fun holds :: "'t lock_pc \<Rightarrow> bool" where
  "holds Inside = True" | "holds TakingTail = True" | "holds AwaitingNext = True" | "holds HandingOver = True"
| "holds _ = False"

text \<open>What an entry knows about the one before it.\<close>

fun behind :: "'t \<Rightarrow> 't lock_pc \<Rightarrow> 't option \<Rightarrow> 't \<Rightarrow> nat \<Rightarrow> bool" where
  "behind b (Swapped d old) nxt a f \<longleftrightarrow> old = Some a \<and> nxt = None"
| "behind b (Flagged d old) nxt a f \<longleftrightarrow> old = a \<and> nxt = None \<and> f = 1"
| "behind b (Chained d) nxt a f \<longleftrightarrow> nxt = Some b \<and> f = 1"
| "behind b Spinning nxt a f \<longleftrightarrow> nxt = Some b \<and> f = 1"
| "behind b _ nxt a f \<longleftrightarrow> False"

definition follows :: "'t lock_state \<Rightarrow> 't \<Rightarrow> 't \<Rightarrow> bool" where
  "follows s a b \<longleftrightarrow> behind b (at s b) (next_entry s a) a (flags s b)"

text \<open>The head of the queue, with and without the lock.\<close>

fun may_enter :: "'t lock_pc \<Rightarrow> nat \<Rightarrow> bool" where
  "may_enter (Swapped d old) f \<longleftrightarrow> old = None"
| "may_enter (Chained d) f \<longleftrightarrow> f = 0"
| "may_enter Spinning f \<longleftrightarrow> f = 0"
| "may_enter _ f \<longleftrightarrow> False"

fun owner_ok :: "'t lock_pc \<Rightarrow> bool \<Rightarrow> 't option \<Rightarrow> bool" where
  "owner_ok Inside alone nxt = True"
| "owner_ok TakingTail alone nxt = True"
| "owner_ok AwaitingNext alone nxt \<longleftrightarrow> \<not> alone"
| "owner_ok HandingOver alone nxt \<longleftrightarrow> nxt \<noteq> None"
| "owner_ok _ alone nxt = False"

fun headed :: "'t lock_state \<Rightarrow> 't list \<Rightarrow> 't option \<Rightarrow> bool" where
  "headed s [] own \<longleftrightarrow> own = None"
| "headed s (h # q) None \<longleftrightarrow> may_enter (at s h) (flags s h)"
| "headed s (h # q) (Some t) \<longleftrightarrow> t = h \<and> owner_ok (at s h) (q = []) (next_entry s h)"

definition queued :: "'t lock_state \<Rightarrow> 't list \<Rightarrow> 't option \<Rightarrow> bool" where
  "queued s q own \<longleftrightarrow> distinct q \<and> s_pLockQueueTail s = (if q = [] then None else Some (last q)) \<and>
     (\<forall>t. t \<in> set q \<longleftrightarrow> in_queue (at s t)) \<and>
     (\<forall>t. at s t = Cleared \<or> (\<exists>d. at s t = Counted d) \<longrightarrow> next_entry s t = None) \<and>
     (q \<noteq> [] \<longrightarrow> next_entry s (last q) = None) \<and>
     successively (follows s) q \<and> headed s q own"

lemma successively_tl_mono:
  "successively P xs \<Longrightarrow> (\<And>x y. P x y \<Longrightarrow> x \<in> set xs \<Longrightarrow> y \<in> set (tl xs) \<Longrightarrow> Q x y) \<Longrightarrow> successively Q xs"
proof (induction xs)
  case (Cons x xs)
  show ?case
  proof (cases xs)
    case (Cons y ys)
    have "successively Q xs" using Cons.IH Cons.prems Cons by (auto dest: list.set_sel(2))
    then show ?thesis using Cons Cons.prems by simp
  qed simp
qed simp

lemma successively_change:
  assumes "distinct (xs @ a # t # r)" "successively P (xs @ a # t # r)" "P a t \<Longrightarrow> Q a t"
    "\<And>x y. P x y \<Longrightarrow> x \<noteq> a \<Longrightarrow> y \<noteq> t \<Longrightarrow> Q x y"
  shows "successively Q (xs @ a # t # r)"
  using assms(1,2)
proof (induction xs)
  case Nil
  have "successively Q (t # r)"
    by (rule successively_tl_mono [of P]) (use Nil assms(4) in auto)
  then show ?case using Nil assms(3) by simp
next
  case (Cons x xs)
  then have "successively Q (xs @ a # t # r)" by (cases xs) auto
  moreover have "P x (hd (xs @ a # t # r))" using Cons.prems by (cases xs) auto
  moreover have "x \<noteq> a" "hd (xs @ a # t # r) \<noteq> t" using Cons.prems(1) by (cases xs; auto)+
  ultimately show ?case using assms(4) by (cases xs) auto
qed

lemma in_tl: "x \<in> set (tl q) \<Longrightarrow> x \<in> set q"
  by (cases q) auto

lemma queuedD:
  assumes "queued s q own"
  shows "distinct q" "s_pLockQueueTail s = (if q = [] then None else Some (last q))" "\<And>t. t \<in> set q \<longleftrightarrow> in_queue (at s t)"
    "\<And>t. at s t = Cleared \<Longrightarrow> next_entry s t = None" "\<And>t d. at s t = Counted d \<Longrightarrow> next_entry s t = None"
    "q \<noteq> [] \<Longrightarrow> next_entry s (last q) = None" "successively (follows s) q" "headed s q own"
  using assms by (auto simp: queued_def)

text \<open>A caller in the queue is its head or has somebody before it.\<close>

lemma queue_place:
  assumes "queued s q own" "t \<in> set q"
  obtains (head) r where "q = t # r" "t \<notin> set r"
  | (inner) xs a r where "q = xs @ a # t # r" "follows s a t" "a \<noteq> t" "t \<noteq> hd q"
proof -
  obtain ys r where q: "q = ys @ t # r" using assms(2) by (meson split_list)
  show ?thesis
  proof (cases ys rule: rev_cases)
    case Nil
    then show ?thesis using head [of r] q queuedD(1) [OF assms(1)] by simp
  next
    case (snoc xs a)
    then have "q = xs @ a # t # r" using q by simp
    moreover have "follows s a t" using queuedD(7) [OF assms(1)] calculation by (simp add: successively_append_iff)
    moreover have "a \<noteq> t" "t \<noteq> hd q" using queuedD(1) [OF assms(1)] calculation(1) by (cases xs; auto)+
    ultimately show ?thesis using inner by blast
  qed
qed

lemma not_owner:
  assumes "queued s q own" "\<not> holds (at s t)" "own = Some u"
  shows "u \<noteq> t"
proof -
  obtain h r where "q = h # r" "h = u" "owner_ok (at s h) (r = []) (next_entry s h)"
    using queuedD(8) [OF assms(1)] assms(3) by (cases q) auto
  then show ?thesis using assms(2) by (cases "at s h") auto
qed

text \<open>The head of the queue is not affected by what happens elsewhere.\<close>

lemma headed_same:
  assumes "headed s q own" "q \<noteq> [] \<Longrightarrow> at s' (hd q) = at s (hd q)" "q \<noteq> [] \<Longrightarrow> flags s' (hd q) = flags s (hd q)"
    "q \<noteq> [] \<Longrightarrow> next_entry s (hd q) \<noteq> None \<Longrightarrow> next_entry s' (hd q) \<noteq> None"
  shows "headed s' q own"
  using assms by (cases q; cases own; cases "at s (hd q)") auto

lemma outside_change:
  assumes q: "queued s q own" and t: "t \<notin> set q"
    and s': "at s' = (at s)(t := pc)" "\<not> in_queue pc" "next_entry s' = (next_entry s)(t := nxt)" "flags s' = flags s"
      "s_pLockQueueTail s' = s_pLockQueueTail s" "pc = Cleared \<or> (\<exists>d. pc = Counted d) \<Longrightarrow> nxt = None"
  shows "queued s' q own"
proof -
  have "successively (follows s') q"
    by (rule successively_tl_mono [OF queuedD(7) [OF q]]) (use t s' in \<open>auto simp: follows_def dest: in_tl\<close>)
  moreover have "headed s' q own"
    by (rule headed_same [OF queuedD(8) [OF q]]) (use t s' in \<open>auto simp: hd_in_set\<close>)
  moreover have "q \<noteq> [] \<Longrightarrow> last q \<noteq> t" using t last_in_set by blast
  ultimately show ?thesis
    using queuedD(1-6) [OF q] t s' by (auto simp: queued_def)
qed

lemma quiet_acquire:
  assumes q: "queued s q own" and t: "t \<in> set q" "\<not> holds (at s t)"
    and a: "q = xs @ a # t # r" "follows s a t"
    and s': "at s' = (at s)(t := pc)" "in_queue pc" "next_entry s' = (next_entry s)(a := nxt)" "flags s' = (flags s)(t := f)"
      "s_pLockQueueTail s' = s_pLockQueueTail s" "nxt = next_entry s a \<or> nxt = Some t"
      "behind t pc nxt a f"
  shows "queued s' q own"
proof -
  have d: "distinct q" by (rule queuedD(1) [OF q])
  have "successively (follows s') (xs @ a # t # r)"
    by (rule successively_change [OF _ queuedD(7) [OF q, unfolded a(1)]])
      (use d a s' in \<open>auto simp: follows_def\<close>)
  moreover have "headed s' q own"
    by (rule headed_same [OF queuedD(8) [OF q]]) (use d a s' in \<open>cases xs; auto\<close>)+
  moreover have "a \<in> set q" using a by simp
  then have "in_queue (at s a)" using queuedD(3) [OF q] by blast
  moreover have "last q \<noteq> a" using d a(1) by auto
  ultimately show ?thesis
    using queuedD(1-6) [OF q] t s' a by (auto simp: queued_def)
qed


text \<open>What a caller outside or inside the queue may be at.\<close>

lemma headed_same_rest:
  "queued s q own \<Longrightarrow> t \<in> set q \<Longrightarrow> t \<noteq> hd q \<Longrightarrow> \<not> holds (at s t)"
proof -
  assume q: "queued s q own" and t: "t \<in> set q" "t \<noteq> hd q"
  obtain xs a r where "q = xs @ a # t # r" "follows s a t" using queue_place [OF q t(1)] t(2) by (metis list.sel(1))
  then show "\<not> holds (at s t)" by (cases "at s t") (auto simp: follows_def)
qed

lemma holder:
  assumes q: "queued s q own" and t: "holds (at s t)"
  obtains r where "q = t # r" "own = Some t" "owner_ok (at s t) (r = []) (next_entry s t)" "t \<notin> set r"
proof -
  have "t \<in> set q" using queuedD(3) [OF q] t by (cases "at s t") auto
  moreover have "t = hd q" using headed_same_rest [OF q calculation] t by blast
  ultimately obtain r where r: "q = t # r" by (cases q) auto
  have h: "headed s (t # r) own" using queuedD(8) [OF q] r by simp
  then obtain u where "own = Some u" using t by (cases own; cases "at s t") auto
  then show ?thesis using that r h queuedD(1) [OF q] by auto
qed

text \<open>Steps of the caller that has the lock.\<close>

lemma quiet_holder:
  assumes q: "queued s q own" and t: "holds (at s t)"
    and s': "s' = s\<lparr>at := (at s)(t := pc)\<rparr>" "in_queue pc" "\<And>r. q = t # r \<Longrightarrow> owner_ok pc (r = []) (next_entry s t)"
  shows "queued s' q own"
proof -
  obtain r where r: "q = t # r" "own = Some t" "t \<notin> set r" by (rule holder [OF q t])
  have "successively (follows s') q"
    by (rule successively_tl_mono [OF queuedD(7) [OF q]]) (use r s' in \<open>auto simp: follows_def\<close>)
  moreover have "headed s' q own" using r s' by simp
  moreover have "pc \<noteq> Cleared" "\<And>d. pc \<noteq> Counted d" using s'(2) by auto
  ultimately show ?thesis using queuedD(1-6) [OF q] r(1) s' by (auto simp: queued_def)
qed

lemma queued_depth: "queued s q own \<Longrightarrow> queued (s\<lparr>s_LockQueueDepth := d\<rparr>) q own"
  by (cases q; cases own) (simp_all add: queued_def follows_def cong: successively_cong)

lemma lock_joined:
  assumes "lock_step s (Join t) s'" and q: "queued s q own"
  shows "queued s' (q @ [t]) own"
  using assms(1)
proof (cases rule: lock_step.cases)
  case (acquire_swap d)
  have t: "t \<notin> set q" using queuedD(3) [OF q, of t] acquire_swap(2) by simp
  have "successively (follows s') q"
    by (rule successively_tl_mono [OF queuedD(7) [OF q]]) (use t acquire_swap in \<open>auto simp: follows_def dest: in_tl\<close>)
  moreover have "follows s' (last q) t" if "q \<noteq> []"
    using that acquire_swap queuedD(2,6) [OF q] by (simp add: follows_def)
  moreover have "headed s' (q @ [t]) own"
  proof (cases q)
    case Nil
    then show ?thesis using acquire_swap queuedD(2,8) [OF q] by simp
  next
    case (Cons h r)
    then show ?thesis using acquire_swap queuedD(8) [OF q] t by (cases own; cases "at s h") auto
  qed
  moreover have "next_entry s' t = None" using queuedD(5) [OF q acquire_swap(2)] acquire_swap by simp
  ultimately show ?thesis
    using queuedD(1-6) [OF q] t acquire_swap by (auto simp: queued_def successively_append_iff)
qed

lemma may_enter_hd:
  assumes q: "queued s q own" and t: "in_queue (at s t)" "\<not> holds (at s t)" "\<And>a. \<not> behind t (at s t) (next_entry s a) a (flags s t)"
  obtains r where "q = t # r" "own = None" "t \<notin> set r"
proof -
  have tq: "t \<in> set q" using t queuedD(3) [OF q] by blast
  obtain r where r: "q = t # r" "t \<notin> set r"
    using queue_place [OF q tq] t(3) unfolding follows_def by metis
  have "headed s (t # r) own" using queuedD(8) [OF q] r by simp
  then have "own = None" using t(2) by (cases own; cases "at s t") auto
  then show ?thesis using that r by blast
qed

lemma lock_entered:
  assumes "lock_step s (Enter t) s'" and q: "queued s q own"
  shows "own = None \<and> queued s' q (Some t) \<and> (\<exists>r. q = t # r)"
proof -
  have s': "at s' = (at s)(t := Inside)" "next_entry s' = next_entry s" "s_pLockQueueTail s' = s_pLockQueueTail s"
      "\<And>u. u \<noteq> t \<Longrightarrow> flags s' u = flags s u" "in_queue (at s t)" "\<not> holds (at s t)"
      "\<And>a. \<not> behind t (at s t) (next_entry s a) a (flags s t)"
    using assms(1) by (cases rule: lock_step.cases; simp)+
  obtain r where r: "q = t # r" "own = None" "t \<notin> set r" by (rule may_enter_hd [OF q s'(5-7)])
  have "successively (follows s') q"
    by (rule successively_tl_mono [OF queuedD(7) [OF q]]) (use r s' in \<open>auto simp: follows_def\<close>)
  moreover have "headed s' q (Some t)" using r s' by simp
  ultimately show ?thesis using queuedD(1-6) [OF q] r s' by (auto simp: queued_def)
qed

lemma lock_left:
  assumes "lock_step s (Leave t) s'" and q: "queued s q own"
  shows "own = Some t \<and> (\<exists>r. q = t # r \<and> queued s' r None)"
  using assms(1)
proof (cases rule: lock_step.cases)
  case release_last
  have "holds (at s t)" using release_last by simp
  then obtain r where r: "q = t # r" "own = Some t" "t \<notin> set r" by (rule holder [OF q])
  have "r = []" using r(1,3) release_last queuedD(2) [OF q] by (cases r rule: rev_cases) auto
  then show ?thesis using r release_last queuedD(3-5) [OF q] by (auto simp: queued_def)
next
  case (release_hand n)
  have "holds (at s t)" using release_hand by simp
  then obtain r where r: "q = t # r" "own = Some t" "t \<notin> set r" by (rule holder [OF q])
  obtain b q' where b: "r = b # q'" using release_hand r queuedD(6) [OF q] by (cases r) auto
  have f: "follows s t b" using queuedD(7) [OF q] r(1) b by simp
  then have n: "n = b" "may_enter (at s b) 0" using release_hand by (cases "at s b"; auto simp: follows_def)+
  have "successively (follows s) r" using queuedD(7) [OF q] r(1) by (cases r) auto
  then have "successively (follows s') r"
    by (rule successively_tl_mono) (use r b n queuedD(1) [OF q] release_hand in \<open>auto simp: follows_def\<close>)
  moreover have "headed s' r None" using b n r(3) release_hand by auto
  ultimately show ?thesis using queuedD(1-6) [OF q] r b release_hand by (auto simp: queued_def)
qed


lemma inner_place:
  assumes q: "queued s q own" and t: "in_queue (at s t)" "\<not> may_enter (at s t) (flags s t)" "\<not> holds (at s t)"
  obtains xs a r where "q = xs @ a # t # r" "follows s a t"
proof -
  have tq: "t \<in> set q" using t(1) queuedD(3) [OF q] by blast
  show ?thesis
    using q tq
  proof (cases rule: queue_place)
    case (head r)
    then have "headed s (t # r) own" using queuedD(8) [OF q] by simp
    then show ?thesis using t by (cases own; cases "at s t") auto
  qed (use that in blast)
qed

lemma lock_quiet:
  assumes "lock_step s Quiet s'" and q: "queued s q own"
  shows "queued s' q own"
  using assms(1)
proof (cases rule: lock_step.cases)
  case (acquire_clear t)
  have "t \<notin> set q" using queuedD(3) [OF q, of t] acquire_clear(2) by simp
  then show ?thesis
    by (rule outside_change [OF q, where pc = Cleared and nxt = None]) (use acquire_clear in auto)
next
  case (acquire_count t)
  have "t \<notin> set q" using queuedD(3) [OF q, of t] acquire_count(2) by simp
  then show ?thesis
    by (rule outside_change [OF q, where pc = "Counted (s_LockQueueDepth s + 1)" and nxt = "next_entry s t"])
      (use acquire_count queuedD(4) [OF q, of t] in auto)
next
  case (acquire_flag t d old)
  obtain xs a r where a: "q = xs @ a # t # r" "follows s a t"
    by (rule inner_place [OF q, of t]) (use acquire_flag in auto)
  show ?thesis
    by (rule quiet_acquire [OF q _ _ a, where pc = "Flagged d old" and nxt = "next_entry s a" and f = 1])
      (use a acquire_flag in \<open>auto simp: follows_def\<close>)
next
  case (acquire_chain t d old)
  obtain xs a r where a: "q = xs @ a # t # r" "follows s a t"
    by (rule queue_place [OF q, of t]) (use acquire_chain queuedD(3) [OF q, of t] queuedD(8) [OF q] in \<open>cases own; auto\<close>)+
  show ?thesis
    by (rule quiet_acquire [OF q _ _ a, where pc = "Chained d" and nxt = "Some t" and f = 1])
      (use a acquire_chain in \<open>auto simp: follows_def\<close>)
next
  case (acquire_interrupt t d)
  have "follows s' = follows s" using acquire_interrupt by (auto simp: follows_def fun_eq_iff)
  moreover have "headed s' q own"
    using queuedD(8) [OF q] acquire_interrupt by (cases q; cases own) auto
  ultimately show ?thesis using queuedD(1-7) [OF q] acquire_interrupt by (auto simp: queued_def)
next
  case (release_look t)
  show ?thesis
    by (rule quiet_holder [OF q _ release_look(1)]) (use release_look in auto)
next
  case (release_late t)
  show ?thesis
    by (rule quiet_holder [OF q _ release_late(1)]) (use release_late queuedD(2) [OF q] in auto)
next
  case (release_found t)
  show ?thesis
    by (rule quiet_holder [OF q _ release_found(1)]) (use release_found in auto)
next
  case (release_count t)
  have "t \<notin> set q" using queuedD(3) [OF q, of t] release_count(2) by simp
  then show ?thesis
    by (rule outside_change [OF q, where pc = Outside and nxt = "next_entry s t"]) (use release_count in auto)
next
  case waitsome_toggle
  then show ?thesis using queued_depth [OF q] by simp
qed (use q in simp)+

subsection \<open>What the lock guarantees\<close>

interpretation ql: fifo_lock lock_step queued
proof (unfold_locales, goal_cases)
  case (1 s t s' q own)
  then show ?case by (rule lock_joined)
next
  case (2 s t s' q own)
  then show ?case by (rule lock_entered)
next
  case (3 s t s' q own)
  then show ?case by (rule lock_left)
next
  case (4 s s' q own)
  then show ?case by (rule lock_quiet)
qed

lemma queued_init: "queued (lock_init f n) [] None"
  by (simp add: queued_def lock_init_def)

lemma moves_head:
  assumes q: "queued s (h # r) own" and h: "at s h \<noteq> Inside"
  shows "\<exists>t\<in>set (h # r). \<exists>e s'. lock_step s e s' \<and> at s' t \<noteq> at s t"
proof -
  have hd: "headed s (h # r) own" by (rule queuedD(8) [OF q])
  have step: "lock_step s e s' \<Longrightarrow> at s' h \<noteq> at s h \<Longrightarrow> ?thesis" for e s' by auto
  show ?thesis
  proof (cases "at s h")
    case (Swapped d old)
    have "lock_step s (Enter h) (s\<lparr>flags := (flags s)(h := 0), at := (at s)(h := Inside)\<rparr>)"
      by (rule acquire_first [of s h d]) (use Swapped hd in \<open>cases own; simp\<close>)
    from step [OF this] show ?thesis using Swapped by simp
  next
    case (Chained d)
    show ?thesis by (rule step [OF acquire_interrupt [OF Chained]]) (simp add: Chained)
  next
    case Spinning
    have "flags s h = 0" using hd Spinning by (cases own) simp_all
    then show ?thesis by (intro step [OF acquire_done [OF Spinning]]) (simp_all add: Spinning)
  next
    case TakingTail
    show ?thesis
    proof (cases "s_pLockQueueTail s = Some h")
      case True
      show ?thesis by (rule step [OF release_last [OF TakingTail True]]) (simp add: TakingTail)
    next
      case False
      show ?thesis by (rule step [OF release_late [OF TakingTail False]]) (simp add: TakingTail)
    qed
  next
    case AwaitingNext
    show ?thesis
    proof (cases "next_entry s h")
      case (Some n)
      then show ?thesis by (intro step [OF release_found [OF AwaitingNext]]) (simp_all add: AwaitingNext)
    next
      case None
      obtain b q' where b: "r = b # q'" using hd AwaitingNext by (cases own; cases r) auto
      have f: "follows s h b" using queuedD(7) [OF q] b by simp
      have found: "lock_step s e s' \<Longrightarrow> at s' b \<noteq> at s b \<Longrightarrow> \<exists>e s'. lock_step s e s' \<and> at s' b \<noteq> at s b" for e s'
        by blast
      have "\<exists>e s'. lock_step s e s' \<and> at s' b \<noteq> at s b"
      proof (cases "at s b")
        case (Swapped d old)
        then have "at s b = Swapped d (Some h)" using f None by (simp add: follows_def)
        from acquire_flag [OF this] show ?thesis by (rule found) (simp add: Swapped)
      next
        case (Flagged d old)
        from acquire_chain [OF Flagged] show ?thesis by (rule found) (simp add: Flagged)
      qed (use f None in \<open>auto simp: follows_def\<close>)
      then show ?thesis using b by auto
    qed
  next
    case HandingOver
    obtain n where "next_entry s h = Some n" using hd HandingOver by (cases own) auto
    from release_hand [OF HandingOver this] show ?thesis by (rule step) (simp add: HandingOver)
  qed (use hd h in \<open>cases own; auto\<close>)+
qed

text \<open>C4: in every interleaving of any number of callers of the queue lock, at most one is between its
acquire and the hand-over in its release; callers enter in the order in which they exchanged the tail, and
only after the one before has left; a release that hands over finds a successor whose flag is set, an
acquire that chains itself finds the entry before it unchained (the assertions of the code); and while
anybody is in the queue, somebody is inside or a caller in the queue can take a step that is not a spin.\<close>

theorem MSMPI_Queuelock_fifo:
  fixes s :: "'t lock_state"
  assumes reach: "run lock_step (lock_init f n) es s"
  shows "(\<forall>t u. holds (at s t) \<longrightarrow> holds (at s u) \<longrightarrow> t = u) \<and>
    prefix (enters es) (joins es) \<and> prefix (leaves es) (enters es) \<and> length (enters es) \<le> Suc (length (leaves es)) \<and>
    (\<forall>t. at s t = HandingOver \<longrightarrow> (\<exists>u. next_entry s t = Some u \<and> flags s u = 1)) \<and>
    (\<forall>t d u. at s t = Flagged d u \<longrightarrow> next_entry s u = None) \<and>
    (\<forall>t. in_queue (at s t) \<longrightarrow> (\<exists>u. at s u = Inside) \<or>
       (\<exists>u e s'. in_queue (at s u) \<and> lock_step s e s' \<and> at s' u \<noteq> at s u))"
proof -
  obtain q own where q: "queued s q own" "joins es = enters es @ (if own = None then q else tl q)"
    "enters es = leaves es @ (case own of None \<Rightarrow> [] | Some t \<Rightarrow> [t])"
    using ql.run_ordered [OF reach queued_init] by blast
  have excl: "t = u" if "holds (at s t)" "holds (at s u)" for t u
    using holder [OF q(1) that(1)] holder [OF q(1) that(2)] by (metis list.inject)
  have hand: "\<exists>u. next_entry s t = Some u \<and> flags s u = 1" if t: "at s t = HandingOver" for t
  proof -
    obtain r where r: "q = t # r" "owner_ok (at s t) (r = []) (next_entry s t)"
      by (rule holder [OF q(1), of t]) (use t in auto)
    then obtain b q' where b: "r = b # q'" using t queuedD(6) [OF q(1)] by (cases r) auto
    have "follows s t b" using queuedD(7) [OF q(1)] r(1) b by simp
    then show ?thesis using r(2) t by (cases "at s b") (auto simp: follows_def)
  qed
  have chain: "next_entry s u = None" if t: "at s t = Flagged d u" for t d u
  proof -
    obtain xs a r where "q = xs @ a # t # r" "follows s a t"
      by (rule inner_place [OF q(1), of t]) (use t in auto)
    then show ?thesis using t by (simp add: follows_def)
  qed
  have live: "(\<exists>u. at s u = Inside) \<or> (\<exists>u e s'. in_queue (at s u) \<and> lock_step s e s' \<and> at s' u \<noteq> at s u)"
    if t: "in_queue (at s t)" for t
  proof -
    obtain h r where r: "q = h # r" using t queuedD(3) [OF q(1)] by (cases q) auto
    show ?thesis using moves_head [of s h r own] q(1) r queuedD(3) [OF q(1)] by blast
  qed
  show ?thesis
    using q(2,3) excl hand chain live by (auto simp: prefix_def split: option.splits)
qed

text \<open>The next access of a caller as a function.\<close>

definition advance :: "'t \<Rightarrow> 't lock_state \<Rightarrow> ('t lock_event \<times> 't lock_state) option" where
  "advance t s = (case at s t of
     Outside \<Rightarrow> Some (Quiet, s\<lparr>next_entry := (next_entry s)(t := None), at := (at s)(t := Cleared)\<rparr>)
   | Cleared \<Rightarrow> Some (Quiet, s\<lparr>s_LockQueueDepth := s_LockQueueDepth s + 1, at := (at s)(t := Counted (s_LockQueueDepth s + 1))\<rparr>)
   | Counted d \<Rightarrow> Some (Join t, s\<lparr>s_pLockQueueTail := Some t, at := (at s)(t := Swapped d (s_pLockQueueTail s))\<rparr>)
   | Swapped d None \<Rightarrow> Some (Enter t, s\<lparr>flags := (flags s)(t := 0), at := (at s)(t := Inside)\<rparr>)
   | Swapped d (Some old) \<Rightarrow> Some (Quiet, s\<lparr>flags := (flags s)(t := 1), at := (at s)(t := Flagged d old)\<rparr>)
   | Flagged d old \<Rightarrow> Some (Quiet, s\<lparr>next_entry := (next_entry s)(old := Some t), at := (at s)(t := Chained d)\<rparr>)
   | Chained d \<Rightarrow> Some (Quiet, s\<lparr>interrupts := (if sint d < 0 then Suc (interrupts s) else interrupts s), at := (at s)(t := Spinning)\<rparr>)
   | Spinning \<Rightarrow> Some (if flags s t = 0 then (Enter t, s\<lparr>at := (at s)(t := Inside)\<rparr>) else (Quiet, s))
   | Inside \<Rightarrow> Some (Quiet, s\<lparr>at := (at s)(t := if next_entry s t = None then TakingTail else HandingOver)\<rparr>)
   | TakingTail \<Rightarrow> Some (if s_pLockQueueTail s = Some t then (Leave t, s\<lparr>s_pLockQueueTail := None, at := (at s)(t := Leaving)\<rparr>)
       else (Quiet, s\<lparr>at := (at s)(t := AwaitingNext)\<rparr>))
   | AwaitingNext \<Rightarrow> Some (Quiet, if next_entry s t = None then s else s\<lparr>at := (at s)(t := HandingOver)\<rparr>)
   | HandingOver \<Rightarrow> map_option (\<lambda>n. (Leave t, s\<lparr>flags := (flags s)(n := 0), at := (at s)(t := Leaving)\<rparr>)) (next_entry s t)
   | Leaving \<Rightarrow> Some (Quiet, s\<lparr>s_LockQueueDepth := s_LockQueueDepth s - 1, at := (at s)(t := Outside)\<rparr>))"

lemma advance_step: "advance t s = Some (e, s') \<Longrightarrow> lock_step s e s'"
proof -
  assume a: "advance t s = Some (e, s')"
  show "lock_step s e s'"
  proof (cases "at s t")
    case (Swapped d old)
    then show ?thesis using a acquire_first [of s t d] acquire_flag [of s t d] by (cases old) (auto simp: advance_def)
  next
    case (Chained d)
    then show ?thesis using a acquire_interrupt [OF Chained] by (auto simp: advance_def)
  next
    case Inside
    then show ?thesis using a release_look [OF Inside] by (auto simp: advance_def)
  qed (use a in \<open>auto simp: advance_def intro: lock_step.intros split: if_splits\<close>)
qed

fun schedule_of :: "'t list \<Rightarrow> 't lock_event list \<times> 't lock_state \<Rightarrow> ('t lock_event list \<times> 't lock_state) option" where
  "schedule_of [] x = Some x"
| "schedule_of (t # ts) (es, s) = do { (e, s) \<leftarrow> advance t s; schedule_of ts (es @ [e], s) }"

lemma schedule_run:
  "schedule_of ts (es, s) = Some (es', s') \<Longrightarrow> run lock_step s0 es s \<Longrightarrow> run lock_step s0 es' s'"
proof (induction ts arbitrary: es s)
  case (Cons t ts)
  obtain e s1 where e: "advance t s = Some (e, s1)" "schedule_of ts (es @ [e], s1) = Some (es', s')"
    using Cons.prems(1) by (auto simp: bind_eq_Some_conv)
  show ?case by (rule Cons.IH [OF e(2) run_step [OF Cons.prems(2) advance_step [OF e(1)]]])
qed simp

text \<open>Two callers: the second joins while the first is inside and enters when the first has left.\<close>

definition demo_schedule :: "bool list" where
  "demo_schedule = [True, True, True, True, False, False, False, True, True, False, False, False, False, True, True, False]"

lemma MSMPI_Queuelock_fifo_witness:
  "\<exists>s es. run lock_step (lock_init (\<lambda>_. 0) (\<lambda>_. None)) es (s :: bool lock_state) \<and> joins es = [True, False] \<and>
     at s False = Inside \<and> prefix (enters es) [True, False] \<and> \<not> holds (at s True)"
proof -
  have "map_option (\<lambda>(es, s). (joins es, at s False, at s True))
      (schedule_of demo_schedule ([], lock_init (\<lambda>_. 0) (\<lambda>_. None))) = Some ([True, False], Inside, Leaving)"
    by code_simp
  then obtain es s where es: "schedule_of demo_schedule ([], lock_init (\<lambda>_. 0) (\<lambda>_. None)) = Some (es, s)"
    "joins es = [True, False]" "at s False = Inside" by auto
  have reach: "run lock_step (lock_init (\<lambda>_. 0) (\<lambda>_. None)) es s"
    by (rule schedule_run [OF es(1) run_start])
  have "holds (at s False)" using es(3) by simp
  then have "\<not> holds (at s True)" "prefix (enters es) (joins es)"
    using MSMPI_Queuelock_fifo [OF reach] by blast+
  then show ?thesis using reach es(2,3) by metis
qed

end
