(* ===== verification/Completion_Calls.thy ===== *)
theory Completion_Calls
  imports Request_Completion Queue_Lock
begin

text \<open>
  The MPI calls that test and wait for requests, \<open>src/mpi/msmpi/api/mpi_completion.cpp\<close>, and those
  on single requests, \<open>api/mpi_request.cpp\<close>. A pointer argument is \<open>None\<close> when it is null; arrays are
  lists of \<open>count\<close> entries. The result is \<open>None\<close> when the call accesses a request that is gone, or does
  not return. An error is returned as it is; the error handler that it passes through is not modelled.
\<close>

subsection \<open>Arguments\<close>

definition null_arg :: "mpi_error option" where
  "null_arg = Some (MPIU_ERR_CREATE MPI_ERR_ARG ''**nullptr %s'')"

definition count_error :: "mpi_error option" where
  "count_error = Some (MPIU_ERR_CREATE MPI_ERR_COUNT ''**countneg %d'')"

datatype 's status_arg = NullStatus | IgnoreStatus | StatusAt 's

fun status_of :: "'s status_arg \<Rightarrow> 's option" where
  "status_of (StatusAt s) = Some s"
| "status_of _ = None"

fun status_list :: "nat \<Rightarrow> 's list status_arg \<Rightarrow> 's option list" where
  "status_list n (StatusAt ss) = map Some ss"
| "status_list n _ = replicate n None"

fun array_of :: "'x list option \<Rightarrow> 'x list" where
  "array_of None = []"
| "array_of (Some xs) = xs"

definition MPID_REQUEST_PTR_ARRAY_SIZE :: int where "MPID_REQUEST_PTR_ARRAY_SIZE = 16"

definition MpiaRequestValidate :: "completion_env \<Rightarrow> int \<Rightarrow> mpi_error + addr" where
  "MpiaRequestValidate env hReq =
     (if HANDLE_GET_MPI_KIND (word_of_int hReq) \<noteq> kind_code MPID_REQUEST \<or> HANDLE_GET_TYPE (word_of_int hReq) = HANDLE_TYPE_INVALID
      then Inl (MPIU_ERR_CREATE MPI_ERR_REQUEST ''**request'')
      else case request_object env hReq of
        None \<Rightarrow> Inl (MPIU_ERR_CREATE MPI_ERR_REQUEST ''**nullptrtype %s'')
      | Some a \<Rightarrow> Inr a)"

definition IsRmaRequest :: "MPID_Request \<Rightarrow> bool" where
  "IsRmaRequest r \<longleftrightarrow> rq_kind r = MPID_REQUEST_RMA_GET \<or> rq_kind r = MPID_REQUEST_RMA_PUT"

text \<open>The process, the error and whether the window was flushed.\<close>

definition RmaForwardProgress :: "completion_env \<Rightarrow> addr \<Rightarrow> process \<Rightarrow> (process \<times> mpi_error option \<times> bool) option" where
  "RmaForwardProgress env a p = (case source_win env a p of
     Inl e \<Rightarrow> Some (p, Some e, False)
   | Inr w \<Rightarrow> do { (p, e) \<leftarrow> MPID_Win_flush env a w p; Some (p, e, e = None) })"

subsection \<open>The loops over the arrays\<close>

record call =
  proc :: process
  handles :: "int list"
  objects :: "addr option list"
  statuses :: "MPIR_Status option list"
  indices :: "int list"
  n_done :: int
  n_inactive :: int
  errno :: "mpi_error option"
  flushed :: bool

text \<open>A for loop with early exits.\<close>

fun for_loop :: "(nat \<Rightarrow> 's \<Rightarrow> ('s \<times> 'x option) option) \<Rightarrow> nat list \<Rightarrow> 's \<Rightarrow> ('s \<times> 'x option) option" where
  "for_loop body [] s = Some (s, None)"
| "for_loop body (i # is) s = do {
     (s, x) \<leftarrow> body i s;
     case x of None \<Rightarrow> for_loop body is s | Some x \<Rightarrow> Some (s, Some x)
   }"

text \<open>Converting the handles to objects; the number of null handles is counted.\<close>

fun validate_all :: "completion_env \<Rightarrow> int list \<Rightarrow> mpi_error + addr option list" where
  "validate_all env [] = Inr []"
| "validate_all env (h # hs) =
     (if h = MPI_REQUEST_NULL then map_sum id ((#) None) (validate_all env hs)
      else case MpiaRequestValidate env h of
        Inl e \<Rightarrow> Inl e
      | Inr a \<Rightarrow> map_sum id ((#) (Some a)) (validate_all env hs))"

definition nulls :: "addr option list \<Rightarrow> int" where
  "nulls os = int (length (filter (\<lambda>x. x = None) os))"

text \<open>
  The test that precedes the completion of a request: an incomplete one-sided operation makes
  progress once per call, and counts as complete when that succeeds. The error code is that of the
  progress then, whatever it was before.
\<close>

datatype readiness = Skip | Failed mpi_error | Ready

definition check_ready :: "completion_env \<Rightarrow> addr \<Rightarrow> call \<Rightarrow> (call \<times> readiness) option" where
  "check_ready env a s = do {
     (p, ok) \<leftarrow> test_complete env a (proc s);
     let s = s\<lparr>proc := p\<rparr>;
     if ok then Some (s, Ready)
     else do {
       r \<leftarrow> reqs (recv p) a;
       if IsRmaRequest r \<and> \<not> flushed s then do {
         (p, e, f) \<leftarrow> RmaForwardProgress env a p;
         let s = s\<lparr>proc := p, flushed := f, errno := e\<rparr>;
         Some (s, case e of Some e \<Rightarrow> Failed e | None \<Rightarrow> Ready)
       }
       else Some (s, Skip)
     }
   }"

text \<open>Complete the request at an index of the array, with a status at another index.\<close>

definition complete_at :: "completion_env \<Rightarrow> nat \<Rightarrow> addr \<Rightarrow> nat \<Rightarrow> call \<Rightarrow> (call \<times> bool \<times> mpi_error option) option" where
  "complete_at env i a j s = do {
     (p, h, st, active, rc) \<leftarrow> MPIR_Request_complete env (handles s ! i) a (statuses s ! j) (proc s);
     Some (s\<lparr>proc := p, handles := (handles s)[i := h], statuses := (statuses s)[j := st]\<rparr>, active, rc)
   }"

definition start_call :: "process \<Rightarrow> int list \<Rightarrow> addr option list \<Rightarrow> MPIR_Status option list \<Rightarrow> int list \<Rightarrow> call" where
  "start_call p hs os sts is = \<lparr>proc = p, handles = hs, objects = os, statuses = sts, indices = is,
     n_done = 0, n_inactive = nulls os, errno = None, flushed = False\<rparr>"

subsection \<open>MPI_Test and MPI_Wait\<close>

text \<open>The results: the process, the handle, the flag if it was set, the status, the error.\<close>

definition MPI_Test ::
  "completion_env \<Rightarrow> int option \<Rightarrow> bool \<Rightarrow> MPIR_Status status_arg \<Rightarrow> process \<Rightarrow>
   (process \<times> int option \<times> bool option \<times> MPIR_Status option \<times> mpi_error option) option" where
  "MPI_Test env request flag status p = (let st = status_of status in
     case request of
       None \<Rightarrow> Some (p, None, None, st, null_arg)
     | Some h \<Rightarrow>
         if \<not> flag then Some (p, request, None, st, null_arg)
         else if status = NullStatus then Some (p, request, None, st, null_arg)
         else if h = MPI_REQUEST_NULL then Some (p, request, Some True, MPIR_Status_set_empty st, None)
         else case MpiaRequestValidate env h of
           Inl e \<Rightarrow> Some (p, request, None, st, Some e)
         | Inr a \<Rightarrow> do {
             (p, e) \<leftarrow> progress_pump env p;
             if e \<noteq> None then Some (p, request, Some False, st, e)
             else do {
               r \<leftarrow> reqs (recv p) a;
               (p, e) \<leftarrow> (if IsRmaRequest r then do {
                   (p, ok) \<leftarrow> test_complete env a p;
                   if ok then Some (p, None) else do { (p, e, f) \<leftarrow> RmaForwardProgress env a p; Some (p, e) }
                 } else Some (p, None));
               if e \<noteq> None then Some (p, request, Some False, st, e)
               else do {
                 (p, ok) \<leftarrow> test_complete env a p;
                 if ok then do {
                   (p, h, st, active, e) \<leftarrow> MPIR_Request_complete env h a st p;
                   Some (p, Some h, Some True, st, e)
                 }
                 else Some (p, request, Some False, st, None)
               }
             }
           })"

definition MPI_Wait ::
  "completion_env \<Rightarrow> int option \<Rightarrow> MPIR_Status status_arg \<Rightarrow> process \<Rightarrow>
   (process \<times> int option \<times> MPIR_Status option \<times> mpi_error option) option" where
  "MPI_Wait env request status p = (let st = status_of status in
     case request of
       None \<Rightarrow> Some (p, None, st, null_arg)
     | Some h \<Rightarrow>
         if status = NullStatus then Some (p, request, st, null_arg)
         else if h = MPI_REQUEST_NULL then Some (p, request, MPIR_Status_set_empty st, None)
         else case MpiaRequestValidate env h of
           Inl e \<Rightarrow> Some (p, request, st, Some e)
         | Inr a \<Rightarrow> do {
             (p, ok) \<leftarrow> test_complete env a p;
             (p, e) \<leftarrow> (if ok then Some (p, None)
               else do {
                 r \<leftarrow> reqs (recv p) a;
                 (p, e) \<leftarrow> (if IsRmaRequest r then do { (p, e, f) \<leftarrow> RmaForwardProgress env a p; Some (p, e) } else Some (p, None));
                 if e \<noteq> None then Some (p, e) else MPIR_Wait env a p
               });
             if e \<noteq> None then Some (p, request, st, e)
             else do {
               (p, h, st, active, e) \<leftarrow> MPIR_Request_complete env h a st p;
               Some (p, Some h, st, e)
             }
           })"

subsection \<open>MPI_Testall and MPI_Waitall\<close>

text \<open>The argument checks the calls on arrays share: the count, then the arrays if there is an entry.\<close>

definition testall_count :: "completion_env \<Rightarrow> nat \<Rightarrow> call \<Rightarrow> (call \<times> mpi_error option) option" where
  "testall_count env i s = (case objects s ! i of
     None \<Rightarrow> Some (s, None)
   | Some a \<Rightarrow> do {
       (s, rd) \<leftarrow> check_ready env a s;
       case rd of
         Skip \<Rightarrow> Some (s, None)
       | Failed e \<Rightarrow> Some (s, Some e)
       | Ready \<Rightarrow> do {
           (p, ge) \<leftarrow> MPIR_Request_get_error env a (proc s);
           Some (s\<lparr>proc := p, n_done := n_done s + 1, errno := if ge \<noteq> None then Some ERR_IN_STATUS else errno s\<rparr>, None)
         }
     })"

definition testall_complete :: "completion_env \<Rightarrow> nat \<Rightarrow> call \<Rightarrow> (call \<times> mpi_error option) option" where
  "testall_complete env i s = (case objects s ! i of
     Some a \<Rightarrow> do {
       (p, ok) \<leftarrow> test_complete env a (proc s);
       let s = s\<lparr>proc := p\<rparr>;
       if ok then do {
         (s, active, rc) \<leftarrow> complete_at env i a i (s\<lparr>n_done := n_done s + 1\<rparr>);
         Some (if errno s = Some ERR_IN_STATUS
           then s\<lparr>statuses := (statuses s)[i := MPIR_Status_set_error (if active then rc else None) (statuses s ! i)]\<rparr>
           else s, None)
       }
       else Some (if errno s = Some ERR_IN_STATUS
         then s\<lparr>statuses := (statuses s)[i := MPIR_Status_set_error (Some ERR_PENDING) (statuses s ! i)]\<rparr> else s, None)
     }
   | None \<Rightarrow>
       (let st = MPIR_Status_set_empty (statuses s ! i);
            st = (if errno s = Some ERR_IN_STATUS then MPIR_Status_set_error None st else st)
        in Some (s\<lparr>n_done := n_done s + 1, statuses := (statuses s)[i := st]\<rparr>, None)))"

text \<open>The results: the process, the handles, the flag if it was set, the statuses, the error.\<close>

definition MPI_Testall ::
  "completion_env \<Rightarrow> bool \<Rightarrow> int \<Rightarrow> int list option \<Rightarrow> bool \<Rightarrow> MPIR_Status list status_arg \<Rightarrow> process \<Rightarrow>
   (process \<times> int list \<times> bool option \<times> MPIR_Status option list \<times> mpi_error option) option" where
  "MPI_Testall env mem count array flag sta p = (let hs = array_of array; sts = status_list (nat count) sta in
     if count < 0 then Some (p, hs, None, sts, count_error)
     else if \<not> flag then Some (p, hs, None, sts, null_arg)
     else if count \<noteq> 0 \<and> (array = None \<or> sta = NullStatus) then Some (p, hs, None, sts, null_arg)
     else if count > MPID_REQUEST_PTR_ARRAY_SIZE \<and> \<not> mem then Some (p, hs, None, sts, Some MPIU_ERR_NOMEM)
     else case validate_all env hs of
       Inl e \<Rightarrow> Some (p, hs, None, sts, Some e)
     | Inr os \<Rightarrow> do {
         (p, e) \<leftarrow> progress_pump env p;
         if e \<noteq> None then Some (p, hs, None, sts, e)
         else do {
           (s, fail) \<leftarrow> for_loop (testall_count env) [0..<nat count] ((start_call p hs os sts [])\<lparr>n_done := nulls os\<rparr>);
           if fail \<noteq> None then Some (proc s, hs, None, sts, fail)
           else do {
             (s, fail) \<leftarrow> (if n_done s = count \<or> errno s = Some ERR_IN_STATUS
               then for_loop (testall_complete env) [0..<nat count] (s\<lparr>n_done := 0\<rparr>) else Some (s, None));
             Some (proc s, handles s, Some (n_done s = count), statuses s, errno s)
           }
         }
       })"

text \<open>One round of the loop of \<open>MPI_Waitall\<close>; an error that ends the call is the result.\<close>

definition waitall_request :: "completion_env \<Rightarrow> nat \<Rightarrow> call \<Rightarrow> (call \<times> mpi_error option) option" where
  "waitall_request env i s =
     (let set_st = (\<lambda>st s. s\<lparr>statuses := (statuses s)[i := st]\<rparr>) in
      if handles s ! i = MPI_REQUEST_NULL then Some (set_st (MPIR_Status_set_empty (statuses s ! i)) s, None)
      else case MpiaRequestValidate env (handles s ! i) of
        Inl rc \<Rightarrow> Some (set_st (MPIR_Status_set_error (Some rc) (statuses s ! i)) (s\<lparr>errno := Some ERR_IN_STATUS\<rparr>), None)
      | Inr a \<Rightarrow>
          if errno s = Some ERR_IN_STATUS then Some (set_st (MPIR_Status_set_error (Some ERR_PENDING) (statuses s ! i)) s, None)
          else do {
            (p, ok) \<leftarrow> test_complete env a (proc s);
            (s, fail) \<leftarrow> (if ok then Some (s\<lparr>proc := p\<rparr>, None)
              else do {
                r \<leftarrow> reqs (recv p) a;
                (s, fail) \<leftarrow> (if IsRmaRequest r \<and> \<not> flushed s then do {
                    (p, e, f) \<leftarrow> RmaForwardProgress env a p;
                    Some (s\<lparr>proc := p, flushed := f, errno := e\<rparr>, e)
                  } else Some (s\<lparr>proc := p\<rparr>, None));
                if fail \<noteq> None then Some (s, fail)
                else do { (p, e) \<leftarrow> MPIR_Wait env a (proc s); Some (s\<lparr>proc := p\<rparr>, e) }
              });
            if fail \<noteq> None then Some (s, fail)
            else do {
              (s, active, rc) \<leftarrow> complete_at env i a i s;
              let s = set_st (MPIR_Status_set_error rc (statuses s ! i)) s;
              Some (if rc \<noteq> None then s\<lparr>errno := Some ERR_IN_STATUS\<rparr> else s, None)
            }
          })"

text \<open>The results: the process, the handles, the statuses, the error.\<close>

definition MPI_Waitall ::
  "completion_env \<Rightarrow> int \<Rightarrow> int list option \<Rightarrow> MPIR_Status list status_arg \<Rightarrow> process \<Rightarrow>
   (process \<times> int list \<times> MPIR_Status option list \<times> mpi_error option) option" where
  "MPI_Waitall env count array sta p = (let hs = array_of array; sts = status_list (nat count) sta in
     if count < 0 then Some (p, hs, sts, count_error)
     else if count \<noteq> 0 \<and> (array = None \<or> sta = NullStatus) then Some (p, hs, sts, null_arg)
     else do {
       (s, fail) \<leftarrow> for_loop (waitall_request env) [0..<nat count] (start_call p hs [] sts []);
       Some (proc s, handles s, statuses s, if fail \<noteq> None then fail else errno s)
     })"

subsection \<open>MPI_Testany and MPI_Waitany\<close>

text \<open>How the loop ends before the last request: an error, or a request that was active.\<close>

datatype any_exit = AnyFailed mpi_error | AnyFound nat | AnyInactive

text \<open>One status for all requests: it is entry 0 of the statuses.\<close>

definition testany_request :: "completion_env \<Rightarrow> bool \<Rightarrow> nat \<Rightarrow> call \<Rightarrow> (call \<times> any_exit option) option" where
  "testany_request env null_status i s = (case objects s ! i of
     None \<Rightarrow> Some (s, None)
   | Some a \<Rightarrow> do {
       (s, rd) \<leftarrow> check_ready env a s;
       case rd of
         Skip \<Rightarrow> Some (s, None)
       | Failed e \<Rightarrow> Some (s, Some (AnyFailed e))
       | Ready \<Rightarrow> if null_status then None else do {
           (s, active, rc) \<leftarrow> complete_at env i a 0 s;
           let s = s\<lparr>errno := rc\<rparr>;
           if active then Some (s, Some (AnyFound i)) else Some (s\<lparr>n_inactive := n_inactive s + 1\<rparr>, None)
         }
     })"

text \<open>
  The results: the process, the handles, index and flag if they were set, the status, the error.
  The checks of the request array and of the status do not leave the function: the array is accessed
  next, and the status when a request is complete.
\<close>

definition MPI_Testany ::
  "completion_env \<Rightarrow> bool \<Rightarrow> int \<Rightarrow> int list option \<Rightarrow> bool \<Rightarrow> bool \<Rightarrow> MPIR_Status status_arg \<Rightarrow> process \<Rightarrow>
   (process \<times> int list \<times> (int \<times> bool) option \<times> MPIR_Status option \<times> mpi_error option) option" where
  "MPI_Testany env mem count array index flag sta p = (let hs = array_of array; st = status_of sta in
     if count < 0 then Some (p, hs, None, st, count_error)
     else if \<not> index \<or> \<not> flag then Some (p, hs, None, st, null_arg)
     else if count > MPID_REQUEST_PTR_ARRAY_SIZE \<and> \<not> mem then Some (p, hs, None, st, Some MPIU_ERR_NOMEM)
     else if count \<noteq> 0 \<and> array = None then None
     else case validate_all env hs of
       Inl e \<Rightarrow> Some (p, hs, None, st, Some e)
     | Inr os \<Rightarrow>
         if nulls os = count then Some (p, hs, Some (MPI_UNDEFINED, True), MPIR_Status_set_empty st,
           if count \<noteq> 0 \<and> sta = NullStatus then null_arg else None)
         else do {
           (p, e) \<leftarrow> progress_pump env p;
           if e \<noteq> None then Some (p, hs, Some (MPI_UNDEFINED, False), st, e)
           else do {
             (s, ex) \<leftarrow> for_loop (testany_request env (sta = NullStatus)) [0..<nat count] (start_call p hs os [st] []);
             Some (proc s, handles s,
               Some (case ex of
                   Some (AnyFound i) \<Rightarrow> (int i, True)
                 | Some _ \<Rightarrow> (MPI_UNDEFINED, False)
                 | None \<Rightarrow> (MPI_UNDEFINED, n_inactive s = count)),
               statuses s ! 0, errno s)
           }
         })"

definition waitany_request :: "completion_env \<Rightarrow> int \<Rightarrow> nat \<Rightarrow> call \<Rightarrow> (call \<times> any_exit option) option" where
  "waitany_request env count i s = (case objects s ! i of
     None \<Rightarrow> Some (s, None)
   | Some a \<Rightarrow> do {
       (s, rd) \<leftarrow> check_ready env a s;
       case rd of
         Skip \<Rightarrow> Some (s, None)
       | Failed e \<Rightarrow> Some (s, Some (AnyFailed e))
       | Ready \<Rightarrow> do {
           (s, active, rc) \<leftarrow> complete_at env i a 0 s;
           let s = s\<lparr>errno := rc\<rparr>;
           if active then Some (s, Some (AnyFound i))
           else do {
             let s = s\<lparr>n_inactive := n_inactive s + 1, objects := (objects s)[i := None]\<rparr>;
             Some (s, if n_inactive s = count then Some AnyInactive else None)
           }
         }
     })"

partial_function (option) waitany_loop :: "completion_env \<Rightarrow> int \<Rightarrow> call \<Rightarrow> (call \<times> any_exit) option" where
  "waitany_loop env count s = do {
     (s, ex) \<leftarrow> for_loop (waitany_request env count) [0..<nat count] s;
     case ex of
       Some ex \<Rightarrow> Some (s, ex)
     | None \<Rightarrow> do {
         (p, e) \<leftarrow> progress_wait env (proc s);
         let s = s\<lparr>proc := p, errno := e\<rparr>;
         case e of Some e \<Rightarrow> Some (s, AnyFailed e) | None \<Rightarrow> waitany_loop env count s
       }
   }"

declare waitany_loop.simps [code]

text \<open>The results: the process, the handles, the index if it was set, the status, the error.\<close>

definition MPI_Waitany ::
  "completion_env \<Rightarrow> bool \<Rightarrow> int \<Rightarrow> int list option \<Rightarrow> bool \<Rightarrow> MPIR_Status status_arg \<Rightarrow> process \<Rightarrow>
   (process \<times> int list \<times> int option \<times> MPIR_Status option \<times> mpi_error option) option" where
  "MPI_Waitany env mem count array index sta p = (let hs = array_of array; st = status_of sta in
     if count < 0 then Some (p, hs, None, st, count_error)
     else if count \<noteq> 0 \<and> (array = None \<or> sta = NullStatus) then Some (p, hs, None, st, null_arg)
     else if \<not> index then Some (p, hs, None, st, null_arg)
     else if count > MPID_REQUEST_PTR_ARRAY_SIZE \<and> \<not> mem then Some (p, hs, None, st, Some MPIU_ERR_NOMEM)
     else case validate_all env hs of
       Inl e \<Rightarrow> Some (p, hs, None, st, Some e)
     | Inr os \<Rightarrow>
         if nulls os = count then
           (if sta = NullStatus then None else Some (p, hs, Some MPI_UNDEFINED, MPIR_Status_set_empty st, None))
         else do {
           (s, ex) \<leftarrow> waitany_loop env count (start_call p hs os [st] []);
           Some (proc s, handles s,
             case ex of AnyFound i \<Rightarrow> Some (int i) | AnyInactive \<Rightarrow> Some MPI_UNDEFINED | AnyFailed _ \<Rightarrow> None,
             statuses s ! 0, errno s)
         })"

subsection \<open>MPI_Testsome and MPI_Waitsome\<close>

definition some_request :: "completion_env \<Rightarrow> nat \<Rightarrow> call \<Rightarrow> (call \<times> mpi_error option) option" where
  "some_request env i s = (case objects s ! i of
     None \<Rightarrow> Some (s, None)
   | Some a \<Rightarrow> do {
       (s, rd) \<leftarrow> check_ready env a s;
       case rd of
         Skip \<Rightarrow> Some (s, None)
       | Failed e \<Rightarrow> Some (s, Some e)
       | Ready \<Rightarrow> do {
           let j = nat (n_done s);
           (s, active, rc) \<leftarrow> complete_at env i a j s;
           if \<not> active then Some (s\<lparr>objects := (objects s)[i := None], n_inactive := n_inactive s + 1\<rparr>, None)
           else do {
             let s = s\<lparr>indices := (indices s)[j := int i], n_done := n_done s + 1\<rparr>;
             Some (if rc = None then s\<lparr>objects := (objects s)[i := None]\<rparr>
               else s\<lparr>errno := Some ERR_IN_STATUS, statuses := (statuses s)[j := MPIR_Status_set_error rc (statuses s ! j)]\<rparr>, None)
           }
         }
     })"

text \<open>Clear the error of the requests that completed without one.\<close>

definition clear_errors :: "call \<Rightarrow> call" where
  "clear_errors s = s\<lparr>statuses := fold (\<lambda>i sts. if objects s ! nat (indices s ! i) = None
     then sts[i := MPIR_Status_set_error None (sts ! i)] else sts) [0..<nat (n_done s)] (statuses s)\<rparr>"

text \<open>What the loop leaves in \<open>outcount\<close>, if it ends the call.\<close>

definition some_outcome :: "int \<Rightarrow> call \<Rightarrow> (call \<times> int) option" where
  "some_outcome incount s =
     (if errno s = Some ERR_IN_STATUS then Some (clear_errors s, n_done s)
      else if n_done s > 0 then Some (s, n_done s)
      else if n_inactive s = incount then Some (s, MPI_UNDEFINED)
      else None)"

text \<open>
  The checks the calls share, with the results where they end the call: the process, the handles,
  the count if it was set, the indices, the statuses and the error.
\<close>

type_synonym some_result = "process \<times> int list \<times> int option \<times> int list \<times> MPIR_Status option list \<times> mpi_error option"

definition some_checks ::
  "bool \<Rightarrow> int \<Rightarrow> int list option \<Rightarrow> bool \<Rightarrow> int list option \<Rightarrow> MPIR_Status list status_arg \<Rightarrow> mpi_error option" where
  "some_checks mem incount array outcount inds sta =
     (if incount < 0 then count_error
      else if incount \<noteq> 0 \<and> (array = None \<or> inds = None \<or> sta = NullStatus) then null_arg
      else if \<not> outcount then null_arg
      else if incount > MPID_REQUEST_PTR_ARRAY_SIZE \<and> \<not> mem then Some MPIU_ERR_NOMEM
      else None)"

definition MPI_Testsome ::
  "completion_env \<Rightarrow> bool \<Rightarrow> int \<Rightarrow> int list option \<Rightarrow> bool \<Rightarrow> int list option \<Rightarrow> MPIR_Status list status_arg \<Rightarrow> process \<Rightarrow> some_result option" where
  "MPI_Testsome env mem incount array outcount inds sta p =
     (let hs = array_of array; is = array_of inds; sts = status_list (nat incount) sta; bad = some_checks mem incount array outcount inds sta in
      if bad \<noteq> None then Some (p, hs, None, is, sts, bad)
      else case validate_all env hs of
        Inl e \<Rightarrow> Some (p, hs, Some 0, is, sts, Some e)
      | Inr os \<Rightarrow>
          if nulls os = incount then Some (p, hs, Some MPI_UNDEFINED, is, sts, None)
          else do {
            (p, e) \<leftarrow> progress_pump env p;
            if e \<noteq> None then Some (p, hs, Some 0, is, sts, e)
            else do {
              (s, fail) \<leftarrow> for_loop (some_request env) [0..<nat incount] (start_call p hs os sts is);
              if fail \<noteq> None then Some (proc s, handles s, Some 0, indices s, statuses s, fail)
              else do {
                let (s, out) = (case some_outcome incount s of Some r \<Rightarrow> r | None \<Rightarrow> (s, 0));
                Some (proc s, handles s, Some out, indices s, statuses s, errno s)
              }
            }
          })"

text \<open>The loop of the two waiting calls; the wait is an argument.\<close>

partial_function (option) waitsome_loop ::
  "completion_env \<Rightarrow> (process \<Rightarrow> (process \<times> mpi_error option) option) \<Rightarrow> int \<Rightarrow> call \<Rightarrow> (call \<times> int \<times> mpi_error option) option" where
  "waitsome_loop env wait incount s = do {
     (s, fail) \<leftarrow> for_loop (some_request env) [0..<nat incount] s;
     if fail \<noteq> None then Some (s, 0, fail)
     else case some_outcome incount s of
       Some (s, out) \<Rightarrow> Some (s, out, errno s)
     | None \<Rightarrow> do {
         (p, e) \<leftarrow> wait (proc s);
         let s = s\<lparr>proc := p\<rparr>;
         if e \<noteq> None then Some (s, 0, e) else waitsome_loop env wait incount s
       }
   }"

declare waitsome_loop.simps [code]

definition MPI_Waitsome ::
  "completion_env \<Rightarrow> bool \<Rightarrow> int \<Rightarrow> int list option \<Rightarrow> bool \<Rightarrow> int list option \<Rightarrow> MPIR_Status list status_arg \<Rightarrow> process \<Rightarrow> some_result option" where
  "MPI_Waitsome env mem incount array outcount inds sta p =
     (let hs = array_of array; is = array_of inds; sts = status_list (nat incount) sta; bad = some_checks mem incount array outcount inds sta in
      if bad \<noteq> None then Some (p, hs, None, is, sts, bad)
      else case validate_all env hs of
        Inl e \<Rightarrow> Some (p, hs, Some 0, is, sts, Some e)
      | Inr os \<Rightarrow>
          if nulls os = incount then Some (p, hs, Some MPI_UNDEFINED, is, sts, None)
          else do {
            (p, e) \<leftarrow> progress_pump env p;
            if e \<noteq> None then Some (p, hs, Some 0, is, sts, e)
            else do {
              (s, out, e) \<leftarrow> waitsome_loop env (progress_wait env) incount (start_call p hs os sts is);
              Some (proc s, handles s, Some out, indices s, statuses s, e)
            }
          })"

text \<open>
  The interruptible wait, for requests that are not one-sided. It marks the depth of the queue of lock
  requests by its sign bit while it runs; every exit toggles the bit again, also those before it was set.
\<close>

definition MSMPI_Waitsome_interruptible ::
  "completion_env \<Rightarrow> bool \<Rightarrow> int \<Rightarrow> int list option \<Rightarrow> bool \<Rightarrow> int list option \<Rightarrow> MPIR_Status list status_arg \<Rightarrow>
   32 word \<Rightarrow> process \<Rightarrow> (some_result \<times> 32 word) option" where
  "MSMPI_Waitsome_interruptible env mem incount array outcount inds sta depth p =
     (let hs = array_of array; is = array_of inds; sts = status_list (nat incount) sta; bad = some_checks mem incount array outcount inds sta;
          leave = (\<lambda>r d. Some (r, d + LONG_MIN)) in
      if bad \<noteq> None then leave (p, hs, None, is, sts, bad) depth
      else do {
        let depth = depth + LONG_MIN;
        case validate_all env hs of
          Inl e \<Rightarrow> leave (p, hs, Some 0, is, sts, Some e) depth
        | Inr os \<Rightarrow>
            if nulls os = incount then leave (p, hs, Some MPI_UNDEFINED, is, sts, None) depth
            else do {
              (p, e) \<leftarrow> progress_pump env p;
              if e \<noteq> None then leave (p, hs, Some 0, is, sts, e) depth
              else do {
                (s, out, e) \<leftarrow> waitsome_loop env (MPID_Progress_wait_interruptible env) incount
                  ((start_call p hs os sts is)\<lparr>flushed := True\<rparr>);
                if e = Some ERR_PENDING
                then leave (proc s, handles s, Some 0, indices s, statuses s, None) depth
                else leave (proc s, handles s, Some out, indices s, statuses s, e) depth
              }
            }
      })"

subsection \<open>Single requests\<close>

text \<open>The results: the process, the handle, the error.\<close>

definition MPI_Request_free ::
  "completion_env \<Rightarrow> int option \<Rightarrow> process \<Rightarrow> (process \<times> int option \<times> mpi_error option) option" where
  "MPI_Request_free env request p = (case request of
     None \<Rightarrow> Some (p, None, null_arg)
   | Some h \<Rightarrow> (case MpiaRequestValidate env h of
       Inl e \<Rightarrow> Some (p, request, Some e)
     | Inr a \<Rightarrow> do {
         (p, pumped) \<leftarrow> progress_pump env p;
         r \<leftarrow> reqs (recv p) a;
         (p, e) \<leftarrow>
           (if rq_kind r \<in> {MPID_BUFFERED_SEND, MPID_REQUEST_SEND, MPID_REQUEST_RECV, MPID_REQUEST_RMA_GET, MPID_REQUEST_RMA_PUT}
            then Some (p, None)
            else if rq_kind r \<in> {MPID_PERSISTENT_SEND, MPID_PERSISTENT_RECV} then
              (case rq_partner_request r of None \<Rightarrow> Some (p, None) | Some b \<Rightarrow> do { p \<leftarrow> on_recv (Release b) p; Some (p, None) })
            else if rq_kind r = MPID_GREQUEST then MPIR_Grequest_free env a p
            else Some (p, Some (MPIU_ERR_CREATE MPI_ERR_OTHER ''**request_invalid_kind %d'')));
         if e \<noteq> None then Some (p, request, e)
         else do { p \<leftarrow> on_recv (Release a) p; Some (p, Some MPI_REQUEST_NULL, None) }
       }))"

text \<open>The status and error a complete request shows.\<close>

definition peek_status ::
  "completion_env \<Rightarrow> addr \<Rightarrow> MPIR_Status option \<Rightarrow> process \<Rightarrow> (process \<times> MPIR_Status option \<times> mpi_error option) option" where
  "peek_status env a st p = do {
     r \<leftarrow> reqs (recv p) a;
     let e = st_error (rq_status r);
     if rq_kind r \<in> {MPID_BUFFERED_SEND, MPID_REQUEST_SEND, MPID_REQUEST_RMA_PUT} then
       Some (p, MPIR_Status_set_cancelled (st_cancelled (rq_status r)) st, e)
     else if rq_kind r \<in> {MPID_REQUEST_RECV, MPID_REQUEST_RMA_GET} then Some (p, MPIR_Request_extract_status r st, e)
     else if rq_kind r = MPID_PERSISTENT_SEND then
       (case rq_partner_request r of
          Some b \<Rightarrow> do { pr \<leftarrow> reqs (recv p) b;
            Some (p, MPIR_Status_set_cancelled (st_cancelled (rq_status r)) st, st_error (rq_status pr)) }
        | None \<Rightarrow> if e \<noteq> None then Some (p, MPIR_Status_set_cancelled (st_cancelled (rq_status r)) st, e)
            else Some (p, MPIR_Status_set_empty st, None))
     else if rq_kind r = MPID_PERSISTENT_RECV then
       (case rq_partner_request r of
          Some b \<Rightarrow> do { pr \<leftarrow> reqs (recv p) b; Some (p, MPIR_Request_extract_status pr st, st_error (rq_status pr)) }
        | None \<Rightarrow> Some (p, MPIR_Status_set_empty st, e))
     else if rq_kind r = MPID_GREQUEST then do {
       (p, qe) \<leftarrow> MPIR_Grequest_query env a p;
       r \<leftarrow> reqs (recv p) a;
       Some (p, MPIR_Request_extract_status r st, qe)
     }
     else Some (p, st, None)
   }"

text \<open>The results: the process, the flag if it was set, the status, the error.\<close>

definition MPI_Request_get_status ::
  "completion_env \<Rightarrow> int \<Rightarrow> bool \<Rightarrow> MPIR_Status status_arg \<Rightarrow> process \<Rightarrow>
   (process \<times> bool option \<times> MPIR_Status option \<times> mpi_error option) option" where
  "MPI_Request_get_status env h flag sta p = (let st = status_of sta in
     if \<not> flag then Some (p, None, st, null_arg)
     else if sta = NullStatus then Some (p, None, st, null_arg)
     else if h = MPI_REQUEST_NULL then Some (p, Some True, MPIR_Status_set_empty st, None)
     else case MpiaRequestValidate env h of
       Inl e \<Rightarrow> Some (p, None, st, Some e)
     | Inr a \<Rightarrow> do {
         (p, ok) \<leftarrow> test_complete env a p;
         (p, e) \<leftarrow> (if ok then Some (p, None) else progress_pump env p);
         if e \<noteq> None then Some (p, None, st, e)
         else do {
           (p, ok) \<leftarrow> test_complete env a p;
           if ok then do {
             (p, st, e) \<leftarrow> peek_status env a st p;
             Some (p, if e \<noteq> None then None else Some True, st, e)
           }
           else Some (p, Some False, st, None)
         }
       })"

definition check_startable :: "MPID_Request \<Rightarrow> mpi_error option" where
  "check_startable r =
     (if rq_kind r \<noteq> MPID_PERSISTENT_SEND \<and> rq_kind r \<noteq> MPID_PERSISTENT_RECV
      then Some (MPIU_ERR_CREATE MPI_ERR_REQUEST ''**requestnotpersist'')
      else if rq_partner_request r \<noteq> None then Some (MPIU_ERR_CREATE MPI_ERR_REQUEST ''**requestpersistactive'')
      else None)"

definition MPI_Start :: "completion_env \<Rightarrow> int option \<Rightarrow> process \<Rightarrow> (process \<times> mpi_error option) option" where
  "MPI_Start env request p = (case request of
     None \<Rightarrow> Some (p, null_arg)
   | Some h \<Rightarrow> (case MpiaRequestValidate env h of
       Inl e \<Rightarrow> Some (p, Some e)
     | Inr a \<Rightarrow> do {
         r \<leftarrow> reqs (recv p) a;
         let e = check_startable r;
         if e \<noteq> None then Some (p, e) else do { p \<leftarrow> MPID_Startall env [a] p; Some (p, None) }
       }))"

fun validate_startable :: "completion_env \<Rightarrow> int list \<Rightarrow> process \<Rightarrow> (mpi_error + addr list) option" where
  "validate_startable env [] p = Some (Inr [])"
| "validate_startable env (h # hs) p = (case MpiaRequestValidate env h of
     Inl e \<Rightarrow> Some (Inl e)
   | Inr a \<Rightarrow> do {
       r \<leftarrow> reqs (recv p) a;
       case check_startable r of
         Some e \<Rightarrow> Some (Inl e)
       | None \<Rightarrow> map_option (map_sum id ((#) a)) (validate_startable env hs p)
     })"

definition MPI_Startall ::
  "completion_env \<Rightarrow> bool \<Rightarrow> int \<Rightarrow> int list option \<Rightarrow> process \<Rightarrow> (process \<times> mpi_error option) option" where
  "MPI_Startall env mem count array p =
     (if count < 0 then Some (p, count_error)
      else if count = 0 then Some (p, None)
      else case array of
        None \<Rightarrow> Some (p, null_arg)
      | Some hs \<Rightarrow>
          if count > MPID_REQUEST_PTR_ARRAY_SIZE \<and> \<not> mem then Some (p, Some MPIU_ERR_NOMEM)
          else do {
            v \<leftarrow> validate_startable env hs p;
            case v of
              Inl e \<Rightarrow> Some (p, Some e)
            | Inr as \<Rightarrow> do { p \<leftarrow> MPID_Startall env as p; Some (p, None) }
          })"

definition MPI_Grequest_complete :: "completion_env \<Rightarrow> int \<Rightarrow> process \<Rightarrow> (process \<times> mpi_error option) option" where
  "MPI_Grequest_complete env h p = (case MpiaRequestValidate env h of
     Inl e \<Rightarrow> Some (p, Some e)
   | Inr a \<Rightarrow> do {
       r \<leftarrow> reqs (recv p) a;
       if rq_kind r \<noteq> MPID_GREQUEST then Some (p, Some (MPIU_ERR_CREATE MPI_ERR_ARG ''**notgenreq''))
       else do {
         (p, ok) \<leftarrow> test_complete env a p;
         p \<leftarrow> (if ok then Some p else on_recv (signal_completion a) p);
         Some (p, None)
       }
     })"

text \<open>The callbacks are kept by the environment under the request. The result is the handle or an error.\<close>

definition MPI_Grequest_start :: "completion_env \<Rightarrow> bool \<Rightarrow> process \<Rightarrow> (process \<times> (mpi_error + int)) option" where
  "MPI_Grequest_start env request p =
     (if \<not> request then Some (p, Inl (the null_arg))
      else case MPID_Request_create (e_alloc (c_mpid env)) MPID_GREQUEST (recv p) of
        (s, None) \<Rightarrow> Some (p\<lparr>recv := s\<rparr>, Inl MPIU_ERR_NOMEM)
      | (s, Some a) \<Rightarrow> do {
          s \<leftarrow> on_req a (rq_comm_update (\<lambda>_. None)) s;
          r \<leftarrow> reqs s a;
          Some (p\<lparr>recv := s\<rparr>, Inr (rq_handle r))
        })"

definition MPI_Cancel :: "completion_env \<Rightarrow> int option \<Rightarrow> process \<Rightarrow> (process \<times> mpi_error option) option" where
  "MPI_Cancel env request p = (case request of
     None \<Rightarrow> Some (p, null_arg)
   | Some h \<Rightarrow> (case MpiaRequestValidate env h of
       Inl e \<Rightarrow> Some (p, Some e)
     | Inr a \<Rightarrow> do {
         r \<leftarrow> reqs (recv p) a;
         case rq_kind r of
           MPID_BUFFERED_SEND \<Rightarrow> MPID_Cancel_send (c_mpid env) a p
         | MPID_REQUEST_SEND \<Rightarrow> MPID_Cancel_send (c_mpid env) a p
         | MPID_REQUEST_RECV \<Rightarrow> do { p \<leftarrow> MPID_Cancel_recv a p; Some (p, None) }
         | MPID_REQUEST_RMA_PUT \<Rightarrow> Some (p, Some (MPIU_ERR_CREATE MPI_ERR_REQUEST ''**requestrmacancel''))
         | MPID_REQUEST_RMA_GET \<Rightarrow> Some (p, Some (MPIU_ERR_CREATE MPI_ERR_REQUEST ''**requestrmacancel''))
         | MPID_PERSISTENT_SEND \<Rightarrow> (case rq_partner_request r of
               Some b \<Rightarrow> MPID_Cancel_send (c_mpid env) b p
             | None \<Rightarrow> Some (p, Some (MPIU_ERR_CREATE MPI_ERR_REQUEST ''**requestpersistactive'')))
         | MPID_PERSISTENT_RECV \<Rightarrow> (case rq_partner_request r of
               Some b \<Rightarrow> do { p \<leftarrow> MPID_Cancel_recv b p; Some (p, None) }
             | None \<Rightarrow> Some (p, Some (MPIU_ERR_CREATE MPI_ERR_REQUEST ''**requestpersistactive'')))
         | MPID_GREQUEST \<Rightarrow> MPIR_Grequest_cancel env a p
         | _ \<Rightarrow> Some (p, Some (MPIU_ERR_CREATE MPI_ERR_INTERN ''**cancelunknown''))
       }))"

end
