(* ===== verification/Self_Delivery.thy ===== *)
theory Self_Delivery
  imports Self_Messages
begin

text \<open>
  What a process that sends to itself observes: in both orders of the send and the receive the data
  arrive, both requests complete and the queues are as before; and what happens when the send
  request is freed in between.
\<close>

lemma on_recv_Some: "f (recv p) = Some s \<Longrightarrow> on_recv f p = Some (p\<lparr>recv := s\<rparr>)"
  by (simp add: on_recv_def)

lemma refs_simps [simp]:
  "reqs (type_add_ref dt s) = reqs s" "reqs (comm_add_ref c s) = reqs s"
  "recvq_posted (type_add_ref dt s) = recvq_posted s" "recvq_posted (comm_add_ref c s) = recvq_posted s"
  "recvq_unexpected (type_add_ref dt s) = recvq_unexpected s" "recvq_unexpected (comm_add_ref c s) = recvq_unexpected s"
  by (cases dt; simp add: type_add_ref_def comm_add_ref_def)+

lemma lists_same_fields:
  "recv_lists s ps us \<Longrightarrow> reqs s' = reqs s \<Longrightarrow> recvq_posted s' = recvq_posted s \<Longrightarrow>
   recvq_unexpected s' = recvq_unexpected s \<Longrightarrow> recv_lists s' ps us"
  by (simp add: recv_lists_def)

text \<open>Changes of the requests \<open>A\<close> that keep their links and envelopes.\<close>

definition touched :: "addr set \<Rightarrow> recv_state \<Rightarrow> recv_state \<Rightarrow> bool" where
  "touched A s s' \<longleftrightarrow> recvq_posted s' = recvq_posted s \<and> recvq_unexpected s' = recvq_unexpected s \<and>
     (\<forall>a. a \<notin> A \<longrightarrow> reqs s' a = reqs s a) \<and>
     (\<forall>a. map_option (\<lambda>r. (rq_next r, rq_match r)) (reqs s' a) = map_option (\<lambda>r. (rq_next r, rq_match r)) (reqs s a))"

lemma touched_undisturbed:
  assumes "touched A s s'"
  shows "undisturbed B s s'"
proof -
  have "map_option rq_next (reqs s' a) = map_option rq_next (reqs s a) \<and> envelope_of (reqs s') a = envelope_of (reqs s) a" for a
  proof -
    have "map_option (\<lambda>r. (rq_next r, rq_match r)) (reqs s' a) = map_option (\<lambda>r. (rq_next r, rq_match r)) (reqs s a)"
      using assms unfolding touched_def by blast
    then show ?thesis by (cases "reqs s a"; cases "reqs s' a") (auto simp: envelope_of_def)
  qed
  then show ?thesis using assms by (simp add: undisturbed_def touched_def same_links_def same_envelopes_def)
qed

lemma touched_lists: "touched A s s' \<Longrightarrow> recv_lists s ps us \<Longrightarrow> recv_lists s' ps us"
  using undisturbed_lists touched_undisturbed by blast

lemma touched_tame:
  "(\<And>a found s s' e. InitFunc a found s = Some (s', e) \<Longrightarrow> \<exists>A. touched A s s') \<Longrightarrow> tame InitFunc"
  unfolding tame_def using touched_undisturbed by blast

lemma touched_refl [simp]: "touched A s s"
  by (simp add: touched_def)

lemma touched_trans: "touched A s s' \<Longrightarrow> touched B s' s'' \<Longrightarrow> touched UNIV s s''"
  by (simp add: touched_def)

lemma touched_on_req: "on_req a f s = Some s' \<Longrightarrow> plain f \<Longrightarrow> touched UNIV s s'"
  by (auto simp: on_req_def upd_def touched_def plain_def)

lemma plain_simps [simp]:
  "plain (\<lambda>r. r\<lparr>rq_status := f r\<rparr>)" "plain (rq_comm_update g)" "plain (rq_msg_type_update i)"
  "plain (rq_recv_pending_count_update j)" "plain (\<lambda>r. r\<lparr>rq_cc := k r\<rparr>)"
  "plain (\<lambda>r. r\<lparr>rq_partner_request := l r, rq_sender_req_id := i' r, rq_status := f r\<rparr>)"
  "plain (\<lambda>r. r\<lparr>rq_status := f r, rq_partner_request := l r, rq_sender_req_id := i' r\<rparr>)"
  "plain (\<lambda>r. r\<lparr>rq_user_buf := m r, rq_user_count := n r, rq_datatype := t r\<rparr>)"
  by (simp_all add: plain_def)

lemma self_init_tame: "tame (self_init T m sreq)"
proof (rule touched_tame)
  fix a found s s' e assume run: "self_init T m sreq a found s = Some (s', e)"
  obtain s1 where s1: "on_req a (\<lambda>r. r\<lparr>rq_status := (rq_status r)\<lparr>st_source := m_rank m, st_tag := m_tag m\<rparr>\<rparr>) s = Some s1"
    using run by (auto simp: self_init_def bind_eq_Some_conv)
  have t1: "touched UNIV s s1" using touched_on_req [OF s1] by simp
  show "\<exists>A. touched A s s'"
  proof (cases found)
    case True
    then show ?thesis using run s1 t1 by (auto simp: self_init_def)
  next
    case False
    then obtain sr s2 where s2: "reqs s1 sreq = Some sr"
      "(if rq_req_type sr \<noteq> MPIDI_REQUEST_TYPE_RSEND
         then on_req a (\<lambda>r. r\<lparr>rq_partner_request := Some sreq, rq_sender_req_id := rq_handle sr,
                rq_status := (rq_status r)\<lparr>st_count := rq_user_count sr * GetSize T (rq_datatype sr)\<rparr>\<rparr>) s1
         else do {
           let e = Some (MPIU_ERR_CREATE MPI_ERR_OTHER ''**rsendnomatch %d %d'');
           s \<leftarrow> on_req sreq (\<lambda>r. r\<lparr>rq_status := (rq_status r)\<lparr>st_error := e\<rparr>\<rparr>) s1;
           s \<leftarrow> on_req a (\<lambda>r. r\<lparr>rq_status := (rq_status r)\<lparr>st_error := e, st_count := 0\<rparr>,
                  rq_partner_request := None, rq_sender_req_id := MPI_REQUEST_NULL\<rparr>) s;
           signal_completion sreq s
         }) = Some s2"
      "on_req a (rq_msg_type_update (\<lambda>_. MPIDI_REQUEST_SELF_MSG)) s2 = Some s'"
      using run s1 by (auto simp: self_init_def bind_eq_Some_conv)
    have "touched UNIV s1 s2"
    proof (cases "rq_req_type sr \<noteq> MPIDI_REQUEST_TYPE_RSEND")
      case True
      show ?thesis by (rule touched_on_req [OF s2(2) [unfolded if_P [OF True]]]) simp
    next
      case False
      then obtain t1 t2 where t: "on_req sreq (\<lambda>r. r\<lparr>rq_status := (rq_status r)\<lparr>st_error := Some (MPIU_ERR_CREATE MPI_ERR_OTHER ''**rsendnomatch %d %d'')\<rparr>\<rparr>) s1 = Some t1"
        "on_req a (\<lambda>r. r\<lparr>rq_status := (rq_status r)\<lparr>st_error := Some (MPIU_ERR_CREATE MPI_ERR_OTHER ''**rsendnomatch %d %d''), st_count := 0\<rparr>,
                  rq_partner_request := None, rq_sender_req_id := MPI_REQUEST_NULL\<rparr>) t1 = Some t2"
        "signal_completion sreq t2 = Some s2"
        using s2(2) by (auto simp: Let_def bind_eq_Some_conv)
      have "touched UNIV s1 t1" by (rule touched_on_req [OF t(1)]) simp
      moreover have "touched UNIV t1 t2" by (rule touched_on_req [OF t(2)]) simp
      moreover have "touched UNIV t2 s2" using t(3) unfolding signal_completion_def by (rule touched_on_req) simp
      ultimately show ?thesis using touched_trans by blast
    qed
    moreover have "touched UNIV s2 s'" by (rule touched_on_req [OF s2(3)]) simp
    ultimately show ?thesis using t1 touched_trans by blast
  qed
qed

lemma touched_refs [simp]:
  "touched A s (type_add_ref dt s') \<longleftrightarrow> touched A s s'" "touched A s (comm_add_ref c s') \<longleftrightarrow> touched A s s'"
  by (simp_all add: touched_def)

lemma recv_init_tame: "tame (recv_init buf c)"
proof (rule touched_tame)
  fix a found s s' e assume run: "recv_init buf c a found s = Some (s', e)"
  then obtain s1 s2 s3 where s: "on_req a (rq_comm_update (\<lambda>_. Some c)) s = Some s1"
    "on_req a (\<lambda>r. r\<lparr>rq_user_buf := b_addr buf, rq_user_count := b_count buf, rq_datatype := b_type buf\<rparr>) (comm_add_ref c s1) = Some s2"
    "(if \<not> found then on_req a (rq_recv_pending_count_update (\<lambda>_. 1)) (type_add_ref (b_type buf) s2) else Some (type_add_ref (b_type buf) s2)) = Some s3"
    "s' = s3"
    unfolding recv_init_def Let_def bind_eq_Some_conv by blast
  have "touched UNIV s (comm_add_ref c s1)" using touched_on_req [OF s(1)] by simp
  moreover have "touched UNIV (comm_add_ref c s1) (type_add_ref (b_type buf) s2)" using touched_on_req [OF s(2)] by simp
  moreover have "touched UNIV (type_add_ref (b_type buf) s2) s3"
    using s(3) touched_on_req [of a "rq_recv_pending_count_update (\<lambda>_. 1)" "type_add_ref (b_type buf) s2" s3] by (auto split: if_splits)
  ultimately show "\<exists>A. touched A s s'" using touched_trans s(4) by blast
qed

subsection \<open>The steps\<close>

text \<open>An allocator that does not run out of memory.\<close>

definition ample :: "allocator \<Rightarrow> bool" where
  "ample alloc \<longleftrightarrow> fresh_alloc alloc \<and> (\<forall>h. finite (dom h) \<longrightarrow> alloc h \<noteq> None)"

text \<open>The receive request of a message to oneself that waits for its receive.\<close>

definition waiting_self :: "MPIDI_Message_match \<Rightarrow> addr \<Rightarrow> MPID_Request \<Rightarrow> bool" where
  "waiting_self m sreq r \<longleftrightarrow> rq_ref_count r = 1 \<and> rq_cc r = 1 \<and> rq_match r = m \<and> rq_partner_request r = Some sreq \<and>
     rq_msg_type r = MPIDI_REQUEST_SELF_MSG \<and> st_source (rq_status r) = m_rank m \<and> st_tag (rq_status r) = m_tag m"

text \<open>The receive request that waits for a message.\<close>

definition waiting_recv :: "MPIDI_Message_match \<Rightarrow> buffer \<Rightarrow> MPID_Request \<Rightarrow> bool" where
  "waiting_recv f buf r \<longleftrightarrow> rq_ref_count r = 2 \<and> rq_cc r = 1 \<and> rq_match r = f \<and> user_buffer r = buf"

lemma relinked_get:
  "relinked A h h' \<Longrightarrow> a \<notin> A \<Longrightarrow> h' a = h a"
  by (simp add: relinked_def)

abbreviation self_match :: "mpid_env \<Rightarrow> addr \<Rightarrow> MPIDI_Message_match \<Rightarrow> MPIDI_Message_match" where
  "self_match env c m \<equiv> \<lparr>m_tag = m_tag m, m_rank = ci_rank (e_comm env c), m_context_id = m_context_id m\<rparr>"

lemma Isend_self_unexpected:
  assumes lists: "recv_lists (recv p) ps us" and alloc: "ample (e_alloc env)" and fin: "finite (dom (reqs (recv p)))"
    and S: "reqs (recv p) sa = Some S" "rq_comm S = Some c" "rq_req_type S \<noteq> MPIDI_REQUEST_TYPE_RSEND" "sa \<notin> set ps \<union> set us"
    and m: "m = self_match env c (rq_match S)" and none: "\<forall>b\<in>set ps. \<not> matching m (envelope_of (reqs (recv p)) b)"
  shows "\<exists>p' ra R. MPIDI_Isend_self env sa p = Some (p', None) \<and> recv_lists (recv p') ps (us @ [ra]) \<and>
    same_envelopes (set ps \<union> set us) (reqs (recv p)) (reqs (recv p')) \<and> umem p' = umem p \<and> ra \<noteq> sa \<and>
    reqs (recv p') sa = Some (S\<lparr>rq_msg_type := MPIDI_REQUEST_SELF_MSG\<rparr>) \<and>
    reqs (recv p') ra = Some R \<and> waiting_self m sa R"
proof -
  define S1 where "S1 = S\<lparr>rq_msg_type := MPIDI_REQUEST_SELF_MSG\<rparr>"
  define s1 where "s1 = (recv p)\<lparr>reqs := (reqs (recv p))(sa \<mapsto> S1)\<rparr>"
  have t1: "touched UNIV (recv p) s1" using S(1) by (simp add: touched_def s1_def S1_def)
  have l1: "recv_lists s1 ps us" by (rule touched_lists [OF t1 lists])
  have env1: "envelope_of (reqs s1) b = envelope_of (reqs (recv p)) b" for b
    using S(1) by (simp add: envelope_of_def s1_def S1_def)
  have fresh: "fresh_alloc (e_alloc env)" "e_alloc env (reqs s1) \<noteq> None"
    using alloc fin by (auto simp: ample_def s1_def)
  show ?thesis
    using l1 fresh(1)
  proof (cases rule: arrive_unsafe_cases [where m = m])
    case (New ra r s2)
    have ra: "ra \<noteq> sa" "ra \<notin> set ps \<union> set us" using New(3) recv_lists_fresh [OF l1 New(3)] by (auto simp: s1_def)
    have sa2: "reqs s2 sa = Some S1" using relinked_get [OF New(6), of sa] ra(1) S(4) by (simp add: s1_def)
    obtain v where ra2: "reqs s2 ra = Some ((queued_rreq m r)\<lparr>rq_next := v\<rparr>)"
      using relinked_fields [OF New(6), of ra] by auto
    define R where "R = (queued_rreq m r)\<lparr>rq_next := v, rq_partner_request := Some sa, rq_sender_req_id := rq_handle S1,
      rq_status := (rq_status (queued_rreq m r))\<lparr>st_source := m_rank m, st_tag := m_tag m,
        st_count := rq_user_count S1 * GetSize (e_types env) (rq_datatype S1)\<rparr>, rq_msg_type := MPIDI_REQUEST_SELF_MSG\<rparr>"
    define s3 where "s3 = s2\<lparr>reqs := (reqs s2)(ra \<mapsto> R)\<rparr>"
    have init: "self_init (e_types env) m sa ra False s2 = Some (s3, None)"
      using ra2 sa2 ra(1) S(3) by (simp add: self_init_def on_req_def upd_def R_def s3_def S1_def)
    have t3: "touched UNIV s2 s3" using ra2 by (simp add: touched_def s3_def R_def)
    define R' where "R' = R\<lparr>rq_ref_count := 1\<rparr>"
    define s4 where "s4 = s2\<lparr>reqs := (reqs s2)(ra \<mapsto> R')\<rparr>"
    have rel: "Release ra s3 = Some s4"
      by (simp add: Release_def on_req_def upd_def s3_def s4_def R'_def R_def queued_rreq_def i32_def)
    have t4: "touched UNIV s2 s4" using ra2 by (simp add: touched_def s4_def R'_def R_def)
    have "MPIDI_Isend_self env sa p = Some (p\<lparr>recv := s4\<rparr>, None)"
      using S(1,2) New(4) init rel m
      by (simp add: MPIDI_Isend_self_def on_recv_def on_req_def upd_def s1_def [symmetric] S1_def [symmetric]
          MPID_Recvq_dq_posted_or_new_unexpected_def) (simp add: s1_def S1_def on_recv_def)
    moreover have "recv_lists s4 ps (us @ [ra])" by (rule touched_lists [OF t4 New(5)])
    moreover have "same_envelopes (set ps \<union> set us) (reqs (recv p)) (reqs s4)"
    proof -
      have "same_envelopes (set ps \<union> set us) ((reqs s1)(ra \<mapsto> queued_rreq m r)) (reqs s2)" by (rule relinked_envelopes [OF New(6)])
      moreover have "same_envelopes (set ps \<union> set us) (reqs s2) (reqs s4)"
        using touched_undisturbed [OF t4] by (simp add: undisturbed_def)
      ultimately show ?thesis using env1 ra(2) by (auto simp: same_envelopes_def envelope_of_def)
    qed
    moreover have "waiting_self m sa R'" by (simp add: waiting_self_def R'_def R_def queued_rreq_def new_rreq_def)
    moreover have "reqs s4 sa = Some S1" "reqs s4 ra = Some R'" using sa2 ra(1) by (simp_all add: s4_def)
    ultimately show ?thesis using ra(1) unfolding S1_def by (intro exI [of _ "p\<lparr>recv := s4\<rparr>"] exI [of _ ra] exI [of _ R']) simp
  next
    case (Found xs a ys s')
    then show ?thesis using none env1 by auto
  qed (use fresh in simp)
qed

text \<open>A completed request.\<close>

definition completed :: "MPID_Request \<Rightarrow> bool" where
  "completed r \<longleftrightarrow> rq_ref_count r = 1 \<and> rq_cc r = 0"

lemma Recv_from_self:
  assumes lists: "recv_lists (recv p) ps (us @ [ra])" and alloc: "ample (e_alloc env)" and rnk: "rnk \<noteq> MPI_PROC_NULL"
    and f: "f = filter_of rnk tag (ci_recvcontext_id (e_comm env comm))"
    and R: "reqs (recv p) ra = Some R" "waiting_self m sa R" "matching m f"
    and none: "\<forall>b\<in>set us. \<not> matching (envelope_of (reqs (recv p)) b) f"
    and S: "reqs (recv p) sa = Some S" "rq_ref_count S = 1" "rq_cc S = 1" "sa \<noteq> ra" "sa \<notin> set ps \<union> set us"
    and copy: "MPIDI_CH3U_Buffer_copy (e_types env) (e_malloc env) (user_buffer S) buf (umem p) = Some (mem', serr, k, rerr)"
  shows "\<exists>p' R' S'. MPID_Recv env buf rnk tag comm p = Some (p', Inr ra) \<and> recv_lists (recv p') ps us \<and>
    same_envelopes (set ps \<union> set us) (reqs (recv p)) (reqs (recv p')) \<and> umem p' = mem' \<and>
    reqs (recv p') sa = Some S' \<and> completed S' \<and> st_error (rq_status S') = serr \<and>
    reqs (recv p') ra = Some R' \<and> completed R' \<and> st_error (rq_status R') = rerr \<and> st_count (rq_status R') = k \<and>
    st_source (rq_status R') = m_rank m \<and> st_tag (rq_status R') = m_tag m"
proof -
  have fresh: "fresh_alloc (e_alloc env)" using alloc by (simp add: ample_def)
  show ?thesis
    using lists fresh
  proof (cases rule: post_unsafe_cases [where src = rnk and tag = tag and ctx = "ci_recvcontext_id (e_comm env comm)"])
    case (Found xs a ys s1)
    have "envelope_of (reqs (recv p)) ra = m" using R(1,2) by (simp add: envelope_of_def waiting_self_def)
    have "a \<in> set (us @ [ra])" using Found(1) by simp
    then have a: "a = ra" using none Found(2) f by auto
    have "ra \<notin> set us" using lists_distinct [OF lists] by simp
    then have xs: "xs = us" "ys = []" using Found(1) unfolding a by (auto simp: append_eq_append_conv2 append_eq_Cons_conv Cons_eq_append_conv)
    have l1: "recv_lists s1 ps us" using Found(5) xs by simp
    have sa1: "reqs s1 sa = Some S" using relinked_get [OF Found(6), of sa] S by auto
    obtain v where ra1: "reqs s1 ra = Some (R\<lparr>rq_next := v\<rparr>)" using relinked_fields [OF Found(6) R(1)] by blast
    define R2 where "R2 = R\<lparr>rq_next := v, rq_comm := Some comm, rq_user_buf := b_addr buf, rq_user_count := b_count buf, rq_datatype := b_type buf\<rparr>"
    define s2 where "s2 = type_add_ref (b_type buf) (comm_add_ref comm s1)\<lparr>reqs := (reqs s1)(ra \<mapsto> R2)\<rparr>"
    have init: "recv_init buf comm ra True s1 = Some (s2, None)"
      using ra1 by (cases "b_type buf") (simp_all add: recv_init_def on_req_def upd_def R2_def s2_def type_add_ref_def comm_add_ref_def)
    have t2: "touched UNIV s1 s2" using ra1 by (simp add: touched_def s2_def R2_def)
    define S3 where "S3 = S\<lparr>rq_status := (rq_status S)\<lparr>st_error := serr\<rparr>, rq_cc := 0\<rparr>"
    define R3 where "R3 = R2\<lparr>rq_status := (rq_status R2)\<lparr>st_error := rerr, st_count := k\<rparr>, rq_cc := 0\<rparr>"
    define s3 where "s3 = s2\<lparr>reqs := (reqs s2)(ra \<mapsto> R3, sa \<mapsto> S3)\<rparr>"
    have ra2: "reqs s2 ra = Some R2" "reqs s2 sa = Some S" using sa1 S(4) by (simp_all add: s2_def)
    have t3: "touched UNIV s2 s3" using ra2 S(4) by (auto simp: touched_def s3_def R3_def S3_def)
    have cc: "rq_cc R2 = 1" "rq_partner_request R2 = Some sa" "rq_msg_type R2 = MPIDI_REQUEST_SELF_MSG"
      using R(2) by (simp_all add: R2_def waiting_self_def)
    have "MPIDI_CH3_RecvFromSelf env ra buf (p\<lparr>recv := s2\<rparr>) = Some (p\<lparr>recv := s3, umem := mem'\<rparr>)"
      using ra2 cc copy S(3,4)
      by (simp add: MPIDI_CH3_RecvFromSelf_def copy_self_def on_recv_def on_req_def upd_def signal_completion_def
          i32_def s3_def R3_def S3_def fun_upd_twist)
    then have "MPIDI_CH3_HandleRecvMsgType env buf ra (p\<lparr>recv := s2\<rparr>) = Some (p\<lparr>recv := s3, umem := mem'\<rparr>, None)"
      using ra2 cc by (simp add: MPIDI_CH3_HandleRecvMsgType_def)
    then have "MPID_Recv env buf rnk tag comm p = Some (p\<lparr>recv := s3, umem := mem'\<rparr>, Inr ra)"
      using rnk Found(4) init a
      by (simp add: MPID_Recv_def MPID_Recvq_dq_unexpected_or_new_posted_def)
    moreover have t: "touched UNIV s1 s3" by (rule touched_trans [OF t2 t3])
    have "recv_lists s3 ps us" by (rule touched_lists [OF t l1])
    moreover have "same_envelopes (set ps \<union> set us) (reqs (recv p)) (reqs s3)"
      using relinked_envelopes [OF Found(6), of "set ps \<union> set us"] touched_undisturbed [OF t, of "set ps \<union> set us"]
      by (auto simp: undisturbed_def same_envelopes_def)
    moreover have "completed S3" "completed R3" "st_error (rq_status S3) = serr" "st_error (rq_status R3) = rerr"
      "st_count (rq_status R3) = k" "st_source (rq_status R3) = m_rank m" "st_tag (rq_status R3) = m_tag m"
      using S(2) R(2) by (simp_all add: completed_def S3_def R3_def R2_def waiting_self_def)
    moreover have "reqs s3 sa = Some S3" "reqs s3 ra = Some R3" using S(4) by (simp_all add: s3_def)
    ultimately show ?thesis by (intro exI [of _ "p\<lparr>recv := s3, umem := mem'\<rparr>"] exI [of _ R3] exI [of _ S3]) simp
  qed (use R f in \<open>auto simp: envelope_of_def waiting_self_def\<close>)
qed

lemma Recv_posted:
  assumes lists: "recv_lists (recv p) ps us" and alloc: "ample (e_alloc env)" and fin: "finite (dom (reqs (recv p)))"
    and rnk: "rnk \<noteq> MPI_PROC_NULL"
    and f: "f = filter_of rnk tag (ci_recvcontext_id (e_comm env comm))"
    and none: "\<forall>b\<in>set us. \<not> matching (envelope_of (reqs (recv p)) b) f"
  shows "\<exists>p' ra R. MPID_Recv env buf rnk tag comm p = Some (p', Inr ra) \<and> recv_lists (recv p') (ps @ [ra]) us \<and>
    same_envelopes (set ps \<union> set us) (reqs (recv p)) (reqs (recv p')) \<and> umem p' = umem p \<and>
    reqs (recv p') ra = Some R \<and> waiting_recv f buf R \<and> finite (dom (reqs (recv p')))"
proof -
  have fresh: "fresh_alloc (e_alloc env)" "e_alloc env (reqs (recv p)) \<noteq> None" using alloc fin by (auto simp: ample_def)
  show ?thesis
    using lists fresh(1)
  proof (cases rule: post_unsafe_cases [where src = rnk and tag = tag and ctx = "ci_recvcontext_id (e_comm env comm)"])
    case (New ra r s1)
    obtain v where ra1: "reqs s1 ra = Some ((queued_rreq f r)\<lparr>rq_next := v\<rparr>)"
      using relinked_fields [OF New(6), of ra] f by auto
    define R2 where "R2 = (queued_rreq f r)\<lparr>rq_next := v, rq_comm := Some comm, rq_user_buf := b_addr buf,
      rq_user_count := b_count buf, rq_datatype := b_type buf, rq_recv_pending_count := 1\<rparr>"
    define s2 where "s2 = type_add_ref (b_type buf) (comm_add_ref comm s1)\<lparr>reqs := (reqs s1)(ra \<mapsto> R2)\<rparr>"
    have init: "recv_init buf comm ra False s1 = Some (s2, None)"
      using ra1 by (cases "b_type buf") (simp_all add: recv_init_def on_req_def upd_def R2_def s2_def type_add_ref_def comm_add_ref_def)
    have t2: "touched UNIV s1 s2" using ra1 by (simp add: touched_def s2_def R2_def)
    have "MPID_Recv env buf rnk tag comm p = Some (p\<lparr>recv := s2\<rparr>, Inr ra)"
      using rnk New(4) init by (simp add: MPID_Recv_def MPID_Recvq_dq_unexpected_or_new_posted_def)
    moreover have "recv_lists s2 (ps @ [ra]) us" by (rule touched_lists [OF t2 New(5)])
    moreover have "same_envelopes (set ps \<union> set us) (reqs (recv p)) (reqs s2)"
      using relinked_envelopes [OF New(6), of "set ps \<union> set us"] touched_undisturbed [OF t2, of "set ps \<union> set us"]
        recv_lists_fresh [OF lists New(3)]
      by (auto simp: undisturbed_def same_envelopes_def envelope_of_def)
    moreover have "finite (dom (reqs s2))" using fin relinked_dom [OF New(6)] by (simp add: s2_def)
    moreover have "waiting_recv f buf R2" by (cases buf) (simp add: waiting_recv_def user_buffer_def R2_def queued_rreq_def new_rreq_def)
    moreover have "reqs s2 ra = Some R2" by (simp add: s2_def)
    ultimately show ?thesis by (intro exI [of _ "p\<lparr>recv := s2\<rparr>"] exI [of _ ra] exI [of _ R2]) simp
  qed (use none f fresh in auto)
qed

lemma Isend_self_found:
  assumes lists: "recv_lists (recv p) (ps @ [ra]) us" and alloc: "ample (e_alloc env)"
    and S: "reqs (recv p) sa = Some S" "rq_ref_count S = 1" "rq_cc S = 1" "rq_comm S = Some c" "sa \<notin> set (ps @ [ra]) \<union> set us"
    and m: "m = self_match env c (rq_match S)" and none: "\<forall>b\<in>set ps. \<not> matching m (envelope_of (reqs (recv p)) b)"
    and R: "reqs (recv p) ra = Some R" "waiting_recv f buf R" "matching m f"
    and copy: "MPIDI_CH3U_Buffer_copy (e_types env) (e_malloc env) (user_buffer S) buf (umem p) = Some (mem', serr, k, rerr)"
  shows "\<exists>p' R' S'. MPIDI_Isend_self env sa p = Some (p', None) \<and> recv_lists (recv p') ps us \<and>
    same_envelopes (set ps \<union> set us) (reqs (recv p)) (reqs (recv p')) \<and> umem p' = mem' \<and>
    reqs (recv p') sa = Some S' \<and> completed S' \<and> st_error (rq_status S') = serr \<and>
    reqs (recv p') ra = Some R' \<and> completed R' \<and> st_error (rq_status R') = rerr \<and> st_count (rq_status R') = k \<and>
    st_source (rq_status R') = m_rank m \<and> st_tag (rq_status R') = m_tag m"
proof -
  define S1 where "S1 = S\<lparr>rq_msg_type := MPIDI_REQUEST_SELF_MSG\<rparr>"
  define s1 where "s1 = (recv p)\<lparr>reqs := (reqs (recv p))(sa \<mapsto> S1)\<rparr>"
  have t1: "touched UNIV (recv p) s1" using S(1) by (simp add: touched_def s1_def S1_def)
  have l1: "recv_lists s1 (ps @ [ra]) us" by (rule touched_lists [OF t1 lists])
  have env1: "envelope_of (reqs s1) b = envelope_of (reqs (recv p)) b" for b
    using S(1) by (simp add: envelope_of_def s1_def S1_def)
  have ra: "ra \<noteq> sa" "ra \<notin> set ps \<union> set us" using S(5) lists_distinct [OF lists] by auto
  have ra1: "reqs s1 ra = Some R" "reqs s1 sa = Some S1" using R(1) ra by (simp_all add: s1_def)
  have envra: "envelope_of (reqs s1) ra = f" using ra1 R(2) by (simp add: envelope_of_def waiting_recv_def)
  have fresh: "fresh_alloc (e_alloc env)" using alloc by (simp add: ample_def)
  show ?thesis
    using l1 fresh
  proof (cases rule: arrive_unsafe_cases [where m = m])
    case (Found xs a ys s2)
    have "a \<in> set (ps @ [ra])" using Found(1) by simp
    then have a: "a = ra" using none Found(2) env1 by auto
    have xs: "xs = ps" "ys = []" using Found(1) ra(2) unfolding a by (auto simp: append_eq_append_conv2 append_eq_Cons_conv Cons_eq_append_conv)
    have l2: "recv_lists s2 ps us" using Found(5) xs by simp
    have sa2: "reqs s2 sa = Some S1" using relinked_get [OF Found(6), of sa] S(5) ra1 by auto
    obtain v where ra2: "reqs s2 ra = Some (R\<lparr>rq_next := v\<rparr>)" using relinked_fields [OF Found(6) ra1(1)] by blast
    define R2 where "R2 = R\<lparr>rq_next := v, rq_status := (rq_status R)\<lparr>st_source := m_rank m, st_tag := m_tag m\<rparr>\<rparr>"
    define s3 where "s3 = s2\<lparr>reqs := (reqs s2)(ra \<mapsto> R2)\<rparr>"
    have init: "self_init (e_types env) m sa ra True s2 = Some (s3, None)"
      using ra2 by (simp add: self_init_def on_req_def upd_def R2_def s3_def)
    define S3 where "S3 = S1\<lparr>rq_status := (rq_status S1)\<lparr>st_error := serr\<rparr>, rq_cc := 0\<rparr>"
    define R3 where "R3 = R2\<lparr>rq_status := (rq_status R2)\<lparr>st_error := rerr, st_count := k\<rparr>, rq_cc := 0\<rparr>"
    define R4 where "R4 = R3\<lparr>rq_ref_count := 1\<rparr>"
    define s4 where "s4 = s3\<lparr>reqs := (reqs s3)(ra \<mapsto> R3, sa \<mapsto> S3)\<rparr>"
    define s5 where "s5 = s3\<lparr>reqs := (reqs s3)(ra \<mapsto> R4, sa \<mapsto> S3)\<rparr>"
    have at3: "reqs s3 ra = Some R2" "reqs s3 sa = Some S1" using sa2 ra(1) by (simp_all add: s3_def)
    have buf: "user_buffer R2 = buf" "user_buffer S1 = user_buffer S" "rq_cc R2 = 1" "rq_cc S1 = 1" "rq_ref_count R2 = 2"
      using R(2) S(3) by (simp_all add: waiting_recv_def user_buffer_def R2_def S1_def)
    have t: "touched UNIV s2 s5"
      using ra2 sa2 ra(1) by (auto simp: touched_def s5_def s3_def R4_def R3_def R2_def S3_def)
    have copied: "do { p \<leftarrow> copy_self env sa ra buf (p\<lparr>recv := s3\<rparr>); p \<leftarrow> on_recv (signal_completion ra) p;
        on_recv (signal_completion sa) p } = Some (p\<lparr>recv := s4, umem := mem'\<rparr>)"
      using at3 buf copy ra(1)
      by (simp add: copy_self_def on_recv_def on_req_def upd_def signal_completion_def i32_def s4_def R3_def S3_def fun_upd_twist)
    have rel: "Release ra s4 = Some s5"
      using ra(1) buf(5) by (simp add: Release_def on_req_def upd_def s4_def s5_def R4_def R3_def i32_def fun_upd_twist)
    have "MPIDI_Isend_self env sa p = Some (p\<lparr>recv := s5, umem := mem'\<rparr>, None)"
    proof -
      have "do { p \<leftarrow> on_recv (on_req sa (rq_msg_type_update (\<lambda>_. MPIDI_REQUEST_SELF_MSG))) p; f p } = f (p\<lparr>recv := s1\<rparr>)" for f :: "process \<Rightarrow> (process \<times> mpi_error option) option"
        using S(1) by (simp add: on_recv_def on_req_def upd_def s1_def S1_def)
      moreover have "rq_comm S1 = Some c" "rq_match S1 = rq_match S" using S(4) by (simp_all add: S1_def)
      moreover have "MPID_Recvq_dq_posted_or_new_unexpected (e_alloc env) m (self_init (e_types env) m sa) s1 = Some (s3, None, Some ra, True)"
        using Found(4) init a by (simp add: MPID_Recvq_dq_posted_or_new_unexpected_def)
      moreover obtain q q' where "copy_self env sa ra (user_buffer R2) (p\<lparr>recv := s3\<rparr>) = Some q"
          "on_recv (signal_completion ra) q = Some q'" "on_recv (signal_completion sa) q' = Some (p\<lparr>recv := s4, umem := mem'\<rparr>)"
        using copied unfolding buf(1) bind_eq_Some_conv by blast
      moreover have "on_recv (Release ra) (p\<lparr>recv := s4, umem := mem'\<rparr>) = Some (p\<lparr>recv := s5, umem := mem'\<rparr>)"
        using rel by (simp add: on_recv_def)
      ultimately show ?thesis using m at3 ra1(2)
        by (simp add: MPIDI_Isend_self_def)
    qed
    moreover have "recv_lists s5 ps us" by (rule touched_lists [OF t l2])
    moreover have "same_envelopes (set ps \<union> set us) (reqs (recv p)) (reqs s5)"
      using relinked_envelopes [OF Found(6), of "set ps \<union> set us"] touched_undisturbed [OF t, of "set ps \<union> set us"] env1
      by (auto simp: undisturbed_def same_envelopes_def)
    moreover have "completed S3" "completed R4" "st_error (rq_status S3) = serr" "st_error (rq_status R4) = rerr"
      "st_count (rq_status R4) = k" "st_source (rq_status R4) = m_rank m" "st_tag (rq_status R4) = m_tag m"
      using S(2) by (simp_all add: completed_def S3_def S1_def R4_def R3_def R2_def)
    moreover have "reqs s5 sa = Some S3" "reqs s5 ra = Some R4" using ra(1) by (simp_all add: s5_def)
    ultimately show ?thesis by (intro exI [of _ "p\<lparr>recv := s5, umem := mem'\<rparr>"] exI [of _ R4] exI [of _ S3]) simp
  qed (use envra R(3) in auto)
qed

subsection \<open>Creating the send request\<close>

definition new_sreq :: "mpid_env \<Rightarrow> req_type \<Rightarrow> buffer \<Rightarrow> int \<Rightarrow> int \<Rightarrow> addr \<Rightarrow> MPID_Request \<Rightarrow> bool" where
  "new_sreq env ty buf rnk tag comm S \<longleftrightarrow> rq_kind S = MPID_REQUEST_SEND \<and> rq_ref_count S = 1 \<and> rq_cc S = 1 \<and> rq_comm S = Some comm \<and>
     rq_req_type S = ty \<and> user_buffer S = buf \<and>
     rq_match S = \<lparr>m_tag = tag, m_rank = rnk, m_context_id = ci_context_id (e_comm env comm)\<rparr>"

lemma create_sreq:
  assumes lists: "recv_lists s ps us" and alloc: "ample (e_alloc env)" and fin: "finite (dom (reqs s))"
  obtains s1 sa S where "MPIDI_Request_create_sreq env ty buf rnk tag comm s = (s1, Some sa)"
    "sa \<notin> set ps \<union> set us" "sa \<notin> dom (reqs s)" "recv_lists s1 ps us" "same_envelopes (set ps \<union> set us) (reqs s) (reqs s1)"
    "\<And>a. a \<noteq> sa \<Longrightarrow> reqs s1 a = reqs s a" "reqs s1 sa = Some S" "new_sreq env ty buf rnk tag comm S" "finite (dom (reqs s1))"
proof -
  obtain sa r where a: "e_alloc env (reqs s) = Some (sa, r)" "reqs s sa = None"
    using alloc fin unfolding ample_def fresh_alloc_def by (metis not_None_eq surj_pair)
  define s1 where "s1 = fst (MPIDI_Request_create_sreq env ty buf rnk tag comm s)"
  obtain S where run: "MPIDI_Request_create_sreq env ty buf rnk tag comm s = (s1, Some sa)"
    and eqs: "reqs s1 = (reqs s)(sa \<mapsto> S)" "recvq_posted s1 = recvq_posted s" "recvq_unexpected s1 = recvq_unexpected s"
    and new: "new_sreq env ty buf rnk tag comm S"
    using a(1) by (cases buf) (auto simp: s1_def MPIDI_Request_create_sreq_def MPID_Request_create_base_def Let_def new_sreq_def user_buffer_def)
  have out: "sa \<notin> set ps \<union> set us" by (rule recv_lists_fresh [OF lists a(2)])
  have und: "undisturbed (set ps \<union> set us) s s1"
    using out by (auto simp: undisturbed_def eqs same_links_def same_envelopes_def envelope_of_def)
  show ?thesis
    using that [OF run out] a(2) undisturbed_lists [OF lists und] und new fin by (auto simp: eqs undisturbed_def)
qed

lemma MPID_Send_to_self:
  assumes "MPIDI_Request_create_sreq env MPIDI_REQUEST_TYPE_SEND buf (ci_rank (e_comm env comm)) tag comm (recv p) = (s1, Some sa)"
    "reqs s1 sa = Some S" "new_sreq env MPIDI_REQUEST_TYPE_SEND buf (ci_rank (e_comm env comm)) tag comm S"
    "0 \<le> ci_rank (e_comm env comm)" "\<not> ci_intercomm (e_comm env comm)"
    "MPIDI_Isend_self env sa (p\<lparr>recv := s1\<rparr>) = Some (p', None)"
  shows "MPID_Send env buf (ci_rank (e_comm env comm)) tag comm p = Some (p', Inr sa)"
proof -
  have "ci_rank (e_comm env comm) \<noteq> MPI_PROC_NULL" using assms(4) by (simp add: MPI_PROC_NULL_def)
  then have "execute_send env sa (p\<lparr>recv := s1\<rparr>) = Some (p', None)"
    using assms(2,3,5,6) by (simp add: execute_send_def execute_def new_sreq_def)
  then show ?thesis using assms(1) by (simp add: MPID_Send_def start_send_def)
qed

lemma pending_lists:
  assumes "recv_lists s' ps us" "same_envelopes (set ps \<union> set us) (reqs s) (reqs s')"
  shows "pending s' (entries (reqs s) ps) (entries (reqs s) us)"
  using same_envelopes_entries [OF assms(2)] by (intro pendingI [OF assms(1)]) simp_all

subsection \<open>Both orders\<close>

text \<open>Both requests are complete, with the results of the copy: memory, error of the sender, size, error of the receiver.\<close>

definition delivered ::
  "process \<Rightarrow> addr \<Rightarrow> addr \<Rightarrow> MPIDI_Message_match \<Rightarrow> memory \<times> mpi_error option \<times> int \<times> mpi_error option \<Rightarrow> bool" where
  "delivered p sa ra m = (\<lambda>(mem, serr, k, rerr). umem p = mem \<and> (\<exists>S R.
     reqs (recv p) sa = Some S \<and> completed S \<and> st_error (rq_status S) = serr \<and>
     reqs (recv p) ra = Some R \<and> completed R \<and> st_error (rq_status R) = rerr \<and> st_count (rq_status R) = k \<and>
     st_source (rq_status R) = m_rank m \<and> st_tag (rq_status R) = m_tag m))"

lemma deliveredI:
  "\<lbrakk>umem p = mem; reqs (recv p) sa = Some S; completed S; st_error (rq_status S) = serr;
    reqs (recv p) ra = Some R; completed R; st_error (rq_status R) = rerr; st_count (rq_status R) = k;
    st_source (rq_status R) = m_rank m; st_tag (rq_status R) = m_tag m\<rbrakk> \<Longrightarrow> delivered p sa ra m (mem, serr, k, rerr)"
  by (simp add: delivered_def)

lemma same_envelopes_match:
  "same_envelopes A h h' \<Longrightarrow> set us \<subseteq> A \<Longrightarrow> \<forall>b\<in>set us. \<not> matching (envelope_of h b) f \<Longrightarrow>
   \<forall>b\<in>set us. \<not> matching (envelope_of h' b) f"
  by (auto simp: same_envelopes_def subset_iff)

lemma same_envelopes_match':
  "same_envelopes A h h' \<Longrightarrow> set ps \<subseteq> A \<Longrightarrow> \<forall>b\<in>set ps. \<not> matching m (envelope_of h b) \<Longrightarrow>
   \<forall>b\<in>set ps. \<not> matching m (envelope_of h' b)"
  by (auto simp: same_envelopes_def subset_iff)

text \<open>C11: a process that sends a message to itself and receives it, in either order and with any number of
other receives and messages pending, completes both requests: the data are copied once, as
\<open>MPIDI_CH3U_Buffer_copy\<close> copies them, both requests have one reference left (the caller's), the status of
the receive names the sender's rank, tag and size, and both queues are as they were.\<close>

theorem MPID_self_delivery:
  assumes pend: "pending (recv p) P U" "finite (dom (reqs (recv p)))" and alloc: "ample (e_alloc env)"
    and me: "me = ci_rank (e_comm env comm)" "0 \<le> me" "\<not> ci_intercomm (e_comm env comm)"
    and m: "m = \<lparr>m_tag = stag, m_rank = me, m_context_id = ci_context_id (e_comm env comm)\<rparr>"
    and f: "f = filter_of rnk rtag (ci_recvcontext_id (e_comm env comm))" "matching m f"
    and none: "\<forall>u\<in>set U. \<not> matching (snd u) f" "\<forall>x\<in>set P. \<not> matching m (snd x)"
    and copy: "MPIDI_CH3U_Buffer_copy (e_types env) (e_malloc env) sbuf rbuf (umem p) = Some r"
  shows "(\<exists>p1 sa p2 ra. MPID_Send env sbuf me stag comm p = Some (p1, Inr sa) \<and>
      MPID_Recv env rbuf rnk rtag comm p1 = Some (p2, Inr ra) \<and> pending (recv p2) P U \<and> delivered p2 sa ra m r) \<and>
    (\<exists>p1 ra p2 sa. MPID_Recv env rbuf rnk rtag comm p = Some (p1, Inr ra) \<and>
      MPID_Send env sbuf me stag comm p1 = Some (p2, Inr sa) \<and> pending (recv p2) P U \<and> delivered p2 sa ra m r)"
proof
  obtain mem serr k rerr where r: "r = (mem, serr, k, rerr)" by (cases r) auto
  obtain ps us where l: "recv_lists (recv p) ps us" and PU: "P = entries (reqs (recv p)) ps" "U = entries (reqs (recv p)) us"
    using pend(1) by (rule pendingE)
  have none': "\<forall>b\<in>set us. \<not> matching (envelope_of (reqs (recv p)) b) f" "\<forall>b\<in>set ps. \<not> matching m (envelope_of (reqs (recv p)) b)"
    using none PU by (simp_all add: entries_def)
  have rnk: "rnk \<noteq> MPI_PROC_NULL" using f m me(2) by (auto simp: matching_def MPI_PROC_NULL_def MPI_ANY_SOURCE_def split: if_splits)
  show "\<exists>p1 sa p2 ra. MPID_Send env sbuf me stag comm p = Some (p1, Inr sa) \<and>
      MPID_Recv env rbuf rnk rtag comm p1 = Some (p2, Inr ra) \<and> pending (recv p2) P U \<and> delivered p2 sa ra m r"
  proof -
    obtain s1 sa S where S: "MPIDI_Request_create_sreq env MPIDI_REQUEST_TYPE_SEND sbuf me stag comm (recv p) = (s1, Some sa)"
      "sa \<notin> set ps \<union> set us" "recv_lists s1 ps us" "same_envelopes (set ps \<union> set us) (reqs (recv p)) (reqs s1)"
      "reqs s1 sa = Some S" "new_sreq env MPIDI_REQUEST_TYPE_SEND sbuf me stag comm S" "finite (dom (reqs s1))"
      by (rule create_sreq [OF l alloc pend(2), of MPIDI_REQUEST_TYPE_SEND sbuf me stag comm]) blast
    have sm: "m = self_match env comm (rq_match S)" using S(6) m me by (simp add: new_sreq_def)
    obtain p1 ra R where p1: "MPIDI_Isend_self env sa (p\<lparr>recv := s1\<rparr>) = Some (p1, None)" "recv_lists (recv p1) ps (us @ [ra])"
      "same_envelopes (set ps \<union> set us) (reqs s1) (reqs (recv p1))" "umem p1 = umem p" "ra \<noteq> sa"
      "reqs (recv p1) sa = Some (S\<lparr>rq_msg_type := MPIDI_REQUEST_SELF_MSG\<rparr>)" "reqs (recv p1) ra = Some R" "waiting_self m sa R"
      using Isend_self_unexpected [of "p\<lparr>recv := s1\<rparr>" ps us env sa S comm m] S sm alloc
        same_envelopes_match' [OF S(4) _ none'(2)] by (auto simp: new_sreq_def)
    note env1 = same_envelopes_trans [OF S(4) p1(3)]
    have "sa \<notin> set ps \<union> set us" by (rule S(2))
    moreover have "user_buffer (S\<lparr>rq_msg_type := MPIDI_REQUEST_SELF_MSG\<rparr>) = sbuf" using S(6) by (simp add: new_sreq_def user_buffer_def)
    ultimately obtain p2 R' S' where p2: "MPID_Recv env rbuf rnk rtag comm p1 = Some (p2, Inr ra)" "recv_lists (recv p2) ps us"
      "same_envelopes (set ps \<union> set us) (reqs (recv p1)) (reqs (recv p2))" "umem p2 = mem"
      "reqs (recv p2) sa = Some S'" "completed S'" "st_error (rq_status S') = serr"
      "reqs (recv p2) ra = Some R'" "completed R'" "st_error (rq_status R') = rerr" "st_count (rq_status R') = k"
      "st_source (rq_status R') = m_rank m" "st_tag (rq_status R') = m_tag m"
      using Recv_from_self [OF p1(2) alloc rnk f(1) p1(7,8) f(2) same_envelopes_match [OF env1 _ none'(1)] p1(6),
          where buf = rbuf and mem' = mem and serr = serr and k = k and rerr = rerr]
        S(6) p1(4,5) copy r by (auto simp: new_sreq_def)
    have "MPID_Send env sbuf me stag comm p = Some (p1, Inr sa)"
      using MPID_Send_to_self [of env sbuf comm stag p s1 sa S p1] S p1(1) me by simp
    moreover have "pending (recv p2) P U"
      unfolding PU by (rule pending_lists [OF p2(2) same_envelopes_trans [OF env1 p2(3)]]) simp_all
    moreover have "delivered p2 sa ra m r" unfolding r by (rule deliveredI [OF p2(4-13)])
    ultimately show ?thesis using p2(1) by blast
  qed
  show "\<exists>p1 ra p2 sa. MPID_Recv env rbuf rnk rtag comm p = Some (p1, Inr ra) \<and>
      MPID_Send env sbuf me stag comm p1 = Some (p2, Inr sa) \<and> pending (recv p2) P U \<and> delivered p2 sa ra m r"
  proof -
    obtain p1 ra R where p1: "MPID_Recv env rbuf rnk rtag comm p = Some (p1, Inr ra)" "recv_lists (recv p1) (ps @ [ra]) us"
      "same_envelopes (set ps \<union> set us) (reqs (recv p)) (reqs (recv p1))" "umem p1 = umem p"
      "reqs (recv p1) ra = Some R" "waiting_recv f rbuf R" "finite (dom (reqs (recv p1)))"
      using Recv_posted [OF l alloc pend(2) rnk f(1) none'(1), of rbuf] by blast
    obtain s1 sa S where S: "MPIDI_Request_create_sreq env MPIDI_REQUEST_TYPE_SEND sbuf me stag comm (recv p1) = (s1, Some sa)"
      "sa \<notin> set (ps @ [ra]) \<union> set us" "recv_lists s1 (ps @ [ra]) us"
      "same_envelopes (set (ps @ [ra]) \<union> set us) (reqs (recv p1)) (reqs s1)"
      "\<And>a. a \<noteq> sa \<Longrightarrow> reqs s1 a = reqs (recv p1) a" "reqs s1 sa = Some S"
      "new_sreq env MPIDI_REQUEST_TYPE_SEND sbuf me stag comm S"
      by (rule create_sreq [OF p1(2) alloc p1(7), of MPIDI_REQUEST_TYPE_SEND sbuf me stag comm]) blast
    have sm: "m = self_match env comm (rq_match S)" using S(7) m me by (simp add: new_sreq_def)
    have "same_envelopes (set ps \<union> set us) (reqs (recv p1)) (reqs s1)" using S(4) by (simp add: same_envelopes_def)
    note env1 = same_envelopes_trans [OF p1(3) this]
    have ra: "reqs s1 ra = Some R" using S(2,5) p1(5) by auto
    obtain p2 R' S' where p2: "MPIDI_Isend_self env sa (p1\<lparr>recv := s1\<rparr>) = Some (p2, None)" "recv_lists (recv p2) ps us"
      "same_envelopes (set ps \<union> set us) (reqs s1) (reqs (recv p2))" "umem p2 = mem"
      "reqs (recv p2) sa = Some S'" "completed S'" "st_error (rq_status S') = serr"
      "reqs (recv p2) ra = Some R'" "completed R'" "st_error (rq_status R') = rerr" "st_count (rq_status R') = k"
      "st_source (rq_status R') = m_rank m" "st_tag (rq_status R') = m_tag m"
      using Isend_self_found [of "p1\<lparr>recv := s1\<rparr>" ps ra us env sa S comm m R f rbuf mem serr k rerr] S sm alloc ra p1(4,6) f(2)
        same_envelopes_match' [OF env1 _ none'(2)] copy r by (auto simp: new_sreq_def)
    have "MPID_Send env sbuf me stag comm p1 = Some (p2, Inr sa)"
      using MPID_Send_to_self [of env sbuf comm stag p1 s1 sa S p2] S p2(1) me by simp
    moreover have "pending (recv p2) P U"
      unfolding PU by (rule pending_lists [OF p2(2) same_envelopes_trans [OF env1 p2(3)]]) simp_all
    moreover have "delivered p2 sa ra m r" unfolding r by (rule deliveredI [OF p2(4-13)])
    ultimately show ?thesis using p1(1) by blast
  qed
qed

subsection \<open>A concrete exchange\<close>

definition demo_env :: mpid_env where
  "demo_env = \<lparr>e_alloc = demo_alloc, e_malloc = True, e_types = demo_types,
     e_comm = (\<lambda>_. \<lparr>ci_rank = 3, ci_context_id = 7, ci_recvcontext_id = 7, ci_intercomm = False\<rparr>),
     eager_max_msg_sz = (\<lambda>_ _. 128000), MPIDI_CH3_SendEager = (\<lambda>_ _ p. Some (p, None)),
     MPIDI_CH3_SendRndv = (\<lambda>_ p. Some (p, None)), MPIDI_CH3_EagerSyncAck = (\<lambda>_ p. Some (p, None)),
     MPIDI_CH3_RecvRndv = (\<lambda>_ p. Some (p, None)), MPIDI_CH3U_Request_unpack_uebuf = (\<lambda>_ p. Some p),
     MPIDI_CH3_ffSend_cancel = (\<lambda>_ p. Some (p, None)), MPID_Progress_wait = (\<lambda>p. Some (p, None)),
     MPID_Progress_pump = (\<lambda>p. Some (p, None))\<rparr>"

definition demo_process :: process where
  "demo_process = \<lparr>recv = demo_queues, umem = (\<lambda>a. if a = 0 then 11 else if a = 2 then 13 else 0)\<rparr>"

lemma demo_ample: "ample demo_alloc"
  using demo_alloc_fresh demo_alloc_total by (simp add: ample_def)

lemma demo_copy:
  obtains mem serr k rerr where
    "MPIDI_CH3U_Buffer_copy demo_types True (Buffer 0 1 (Derived 5)) (Buffer 100 1 (Derived 6)) (umem demo_process) = Some (mem, serr, k, rerr)"
    "mem 100 = 11" "mem 103 = 13" "serr = None" "k = 2"
proof -
  have "map_option (\<lambda>(mem, serr, k, rerr). (mem 100, mem 103, serr, k)) (MPIDI_CH3U_Buffer_copy demo_types True
      (Buffer 0 1 (Derived 5)) (Buffer 100 1 (Derived 6)) (umem demo_process)) = Some (11, 13, None, 2)"
    by code_simp
  then show ?thesis using that by auto
qed

text \<open>Three bytes with gaps sent by rank 3 to itself, received into two places.\<close>

lemma MPID_self_delivery_witness:
  "\<exists>p1 sa p2 ra R. MPID_Send demo_env (Buffer 0 1 (Derived 5)) 3 5 0 demo_process = Some (p1, Inr sa) \<and>
     MPID_Recv demo_env (Buffer 100 1 (Derived 6)) MPI_ANY_SOURCE 5 0 p1 = Some (p2, Inr ra) \<and>
     umem p2 100 = 11 \<and> umem p2 103 = 13 \<and> reqs (recv p2) ra = Some R \<and> rq_cc R = 0 \<and>
     st_source (rq_status R) = 3 \<and> st_count (rq_status R) = 2"
proof -
  obtain mem serr k rerr where c: "MPIDI_CH3U_Buffer_copy demo_types True (Buffer 0 1 (Derived 5)) (Buffer 100 1 (Derived 6)) (umem demo_process) = Some (mem, serr, k, rerr)"
    "mem 100 = 11" "mem 103 = 13" "serr = None" "k = 2" by (rule demo_copy)
  let ?m = "\<lparr>m_tag = 5, m_rank = 3, m_context_id = 7\<rparr>" and ?f = "filter_of MPI_ANY_SOURCE 5 7"
  have fin: "finite (dom (reqs (recv demo_process)))" and pend: "pending (recv demo_process) [] []"
    using demo_pending by (simp_all add: demo_process_def demo_queues_def)
  have env: "e_types demo_env = demo_types" "e_malloc demo_env" "ci_rank (e_comm demo_env 0) = 3" "\<not> ci_intercomm (e_comm demo_env 0)"
    "ci_context_id (e_comm demo_env 0) = 7" "ci_recvcontext_id (e_comm demo_env 0) = 7"
    by (simp_all add: demo_env_def)
  have al: "ample (e_alloc demo_env)" using demo_ample by (simp add: demo_env_def)
  have "matching ?m ?f" by (simp add: matching_def MPI_ANY_TAG_def)
  then have "\<exists>p1 sa p2 ra. MPID_Send demo_env (Buffer 0 1 (Derived 5)) 3 5 0 demo_process = Some (p1, Inr sa) \<and>
      MPID_Recv demo_env (Buffer 100 1 (Derived 6)) MPI_ANY_SOURCE 5 0 p1 = Some (p2, Inr ra) \<and> pending (recv p2) [] [] \<and>
      delivered p2 sa ra ?m (mem, serr, k, rerr)"
    using MPID_self_delivery [OF pend fin al, where me = 3 and comm = 0 and m = ?m and stag = 5 and f = ?f
        and rnk = MPI_ANY_SOURCE and rtag = 5 and sbuf = "Buffer 0 1 (Derived 5)" and rbuf = "Buffer 100 1 (Derived 6)"
        and r = "(mem, serr, k, rerr)"] c(1) env by simp
  then show ?thesis using c unfolding delivered_def completed_def by force
qed

end
