(* ===== verification/Completion_Proofs.thy ===== *)
theory Completion_Proofs
  imports Completion_Calls Self_Delivery
begin

text \<open>
  What the calls that test and wait for requests do to the requests, handles and statuses of the
  caller, for requests of the plain kinds (sends, buffered sends, receives and completed requests).
\<close>

subsection \<open>Plain requests\<close>

definition simple_request :: "MPID_Request \<Rightarrow> bool" where
  "simple_request r \<longleftrightarrow> rq_kind r \<in> {MPID_BUFFERED_SEND, MPID_REQUEST_SEND, MPID_REQUEST_RECV, MPID_REQUEST_NOOP}"

definition complete_now :: "MPID_Request \<Rightarrow> bool" where
  "complete_now r \<longleftrightarrow> rq_cc r = 0 \<or> (rq_kind r = MPID_BUFFERED_SEND \<and> \<not> rq_cancel_pending r)"

text \<open>The status the caller sees.\<close>

definition shown_status :: "MPID_Request \<Rightarrow> MPIR_Status option \<Rightarrow> MPIR_Status option" where
  "shown_status r st = (if rq_kind r = MPID_BUFFERED_SEND \<or> rq_kind r = MPID_REQUEST_SEND
     then MPIR_Status_set_cancelled (st_cancelled (rq_status r)) st else MPIR_Request_extract_status r st)"

text \<open>A request after one reference is dropped.\<close>

definition dropped :: "MPID_Request \<Rightarrow> MPID_Request option" where
  "dropped r = (let v = i32 (rq_ref_count r - 1) in if v = 0 then None else Some (r\<lparr>rq_ref_count := v\<rparr>))"

lemma simple_test_complete:
  "reqs (recv p) a = Some r \<Longrightarrow> simple_request r \<Longrightarrow> test_complete env a p = Some (p, complete_now r)"
  by (subst test_complete.simps) (auto simp: simple_request_def complete_now_def)

lemma simple_get_error:
  "reqs (recv p) a = Some r \<Longrightarrow> simple_request r \<Longrightarrow> MPIR_Request_get_error env a p = Some (p, st_error (rq_status r))"
  by (auto simp: simple_request_def MPIR_Request_get_error_def)

lemma Release_reqs:
  "reqs s a = Some r \<Longrightarrow> \<exists>s'. Release a s = Some s' \<and> reqs s' = (reqs s)(a := dropped r)"
  by (auto simp: Release_def on_req_Some Let_def MPIDI_CH3_Request_destroy_def dropped_def split: option.splits)

lemma simple_complete:
  assumes "reqs (recv p) a = Some r" "simple_request r"
  shows "\<exists>q. MPIR_Request_complete env h a st p = Some (q, MPI_REQUEST_NULL, shown_status r st, True, st_error (rq_status r)) \<and>
    umem q = umem p \<and> reqs (recv q) = (reqs (recv p))(a := dropped r)"
proof -
  obtain s' where s': "Release a (recv p) = Some s'" "reqs s' = (reqs (recv p))(a := dropped r)"
    using Release_reqs [OF assms(1)] by blast
  have "MPIR_Request_complete env h a st p = Some (p\<lparr>recv := s'\<rparr>, MPI_REQUEST_NULL, shown_status r st, True, st_error (rq_status r))"
    using assms s'(1) by (auto simp: MPIR_Request_complete_def simple_request_def finish_request_def on_recv_def shown_status_def)
  then show ?thesis using s'(2) by (intro exI [of _ "p\<lparr>recv := s'\<rparr>"]) simp
qed

lemma simple_ready:
  assumes "reqs (recv (proc s)) a = Some r" "simple_request r"
  shows "check_ready env a s = Some (s, if complete_now r then Ready else Skip)"
  using assms simple_test_complete [OF assms, of env]
  by (auto simp: check_ready_def IsRmaRequest_def simple_request_def)

text \<open>Loops that run to the end.\<close>

lemma for_loop_inv:
  assumes step: "\<And>i s. i < n \<Longrightarrow> I i s \<Longrightarrow> \<exists>s'. body i s = Some (s', None) \<and> I (Suc i) s'"
    and init: "I 0 s"
  shows "\<exists>s'. for_loop body [0..<n] s = Some (s', None) \<and> I n s'"
proof -
  have "I m s \<Longrightarrow> m \<le> n \<Longrightarrow> \<exists>s'. for_loop body [m..<n] s = Some (s', None) \<and> I n s'" for m
  proof (induction "n - m" arbitrary: m s)
    case (Suc k)
    then have m: "m < n" by simp
    obtain s1 where s1: "body m s = Some (s1, None)" "I (Suc m) s1" using step [OF m Suc.prems(1)] by blast
    have "\<exists>s'. for_loop body [Suc m..<n] s1 = Some (s', None) \<and> I n s'"
      by (rule Suc.hyps(1)) (use Suc.hyps(2) s1(2) m in auto)
    then show ?case using s1(1) m by (simp add: upt_rec)
  qed simp
  then show ?thesis using init by blast
qed

subsection \<open>MPI_Testall\<close>

text \<open>The entries of the arrays: what there is at an index.\<close>

definition finished :: "heap \<Rightarrow> addr option \<Rightarrow> bool" where
  "finished h x = (case x of None \<Rightarrow> True | Some a \<Rightarrow> complete_now (the (h a)))"

definition failed_entry :: "heap \<Rightarrow> addr option \<Rightarrow> bool" where
  "failed_entry h x = (case x of None \<Rightarrow> False | Some a \<Rightarrow> complete_now (the (h a)) \<and> st_error (rq_status (the (h a))) \<noteq> None)"

definition objects_ok :: "heap \<Rightarrow> addr option list \<Rightarrow> bool" where
  "objects_ok h os \<longleftrightarrow> distinct (filter (\<lambda>x. x \<noteq> None) os) \<and>
     (\<forall>a. Some a \<in> set os \<longrightarrow> (\<exists>r. h a = Some r \<and> simple_request r))"

text \<open>What becomes of a handle, of a status and of a request when the requests are completed.\<close>

definition handle_after :: "heap \<Rightarrow> int \<times> addr option \<Rightarrow> int" where
  "handle_after h = (\<lambda>(hd, x). if x \<noteq> None \<and> finished h x then MPI_REQUEST_NULL else hd)"

definition status_after :: "heap \<Rightarrow> bool \<Rightarrow> MPIR_Status option \<times> addr option \<Rightarrow> MPIR_Status option" where
  "status_after h in_status = (\<lambda>(st, x). case x of
     None \<Rightarrow> if in_status then MPIR_Status_set_error None (MPIR_Status_set_empty st) else MPIR_Status_set_empty st
   | Some a \<Rightarrow>
       if \<not> finished h x then (if in_status then MPIR_Status_set_error (Some ERR_PENDING) st else st)
       else if in_status then MPIR_Status_set_error (st_error (rq_status (the (h a)))) (shown_status (the (h a)) st)
       else shown_status (the (h a)) st)"

definition heap_after :: "heap \<Rightarrow> addr option list \<Rightarrow> heap" where
  "heap_after h os = (\<lambda>a. if Some a \<in> set os \<and> finished h (Some a) then dropped (the (h a)) else h a)"

lemma heap_after_nil [simp]: "heap_after h [] = h"
  by (simp add: heap_after_def)

lemma heap_after_snoc:
  "h a = Some r \<Longrightarrow> heap_after h (os @ [Some a]) = (if complete_now r then (heap_after h os)(a := dropped r) else heap_after h os)"
  "heap_after h (os @ [None]) = heap_after h os"
  by (auto simp: heap_after_def finished_def fun_eq_iff)

text \<open>The first loop counts.\<close>

definition counted :: "heap \<Rightarrow> addr option list \<Rightarrow> call \<Rightarrow> call" where
  "counted h os s = s\<lparr>n_done := n_done s + int (length (filter (\<lambda>x. x \<noteq> None \<and> finished h x) os)),
     errno := if \<exists>x\<in>set os. failed_entry h x then Some ERR_IN_STATUS else errno s\<rparr>"

lemma testall_count_loop:
  assumes ok: "objects_ok (reqs (recv (proc s))) (objects s)" and n: "n = length (objects s)"
  shows "for_loop (testall_count env) [0..<n] s = Some (counted (reqs (recv (proc s))) (objects s) s, None)"
proof -
  let ?h = "reqs (recv (proc s))"
  let ?I = "\<lambda>k s'. s' = counted ?h (take k (objects s)) s"
  have "\<exists>s'. for_loop (testall_count env) [0..<n] s = Some (s', None) \<and> ?I n s'"
  proof (rule for_loop_inv [where I = ?I])
    fix i s' assume i: "i < n" and s': "?I i s'"
    have same: "proc s' = proc s" "objects s' = objects s" using s' by (simp_all add: counted_def)
    have tk: "take (Suc i) (objects s) = take i (objects s) @ [objects s ! i]"
      using i n by (simp add: take_Suc_conv_app_nth)
    show "\<exists>s''. testall_count env i s' = Some (s'', None) \<and> ?I (Suc i) s''"
    proof (cases "objects s ! i")
      case None
      then show ?thesis using same s' by (simp add: testall_count_def tk counted_def failed_entry_def)
    next
      case (Some a)
      then have "Some a \<in> set (objects s)" using i n by (metis nth_mem)
      then obtain r where r: "?h a = Some r" "simple_request r" using ok by (auto simp: objects_ok_def)
      have rd: "check_ready env a s' = Some (s', if complete_now r then Ready else Skip)"
        by (rule simple_ready) (use r same in simp_all)
      show ?thesis
        using Some same r rd simple_get_error [OF r, of env] s'
        by (auto simp: testall_count_def tk counted_def failed_entry_def finished_def)
    qed
  qed (simp add: counted_def)
  then show ?thesis using n by simp
qed

text \<open>The second loop completes. An array of which the first entries have been processed.\<close>

definition partly :: "('x \<times> 'y \<Rightarrow> 'x) \<Rightarrow> nat \<Rightarrow> 'x list \<Rightarrow> 'y list \<Rightarrow> 'x list" where
  "partly f k xs ys = map f (zip (take k xs) (take k ys)) @ drop k xs"

lemma partly_nth: "i < length xs \<Longrightarrow> length ys = length xs \<Longrightarrow> partly f i xs ys ! i = xs ! i"
  by (simp add: partly_def nth_append min_def)

lemma partly_update:
  assumes "i < length xs" "length ys = length xs"
  shows "(partly f i xs ys)[i := f (xs ! i, ys ! i)] = partly f (Suc i) xs ys"
proof -
  have d: "drop i xs = xs ! i # drop (Suc i) xs" by (simp add: Cons_nth_drop_Suc assms(1))
  show ?thesis
    using assms by (simp add: partly_def list_update_append min_def take_Suc_conv_app_nth d)
qed

lemma partly_same: "i < length xs \<Longrightarrow> length ys = length xs \<Longrightarrow> f (xs ! i, ys ! i) = xs ! i \<Longrightarrow> partly f (Suc i) xs ys = partly f i xs ys"
  using partly_update [of i xs ys f] partly_nth [of i xs ys f] by (metis list_update_id)

lemma partly_all: "length ys = length xs \<Longrightarrow> partly f (length xs) xs ys = map f (zip xs ys)"
  by (simp add: partly_def)

lemma partly_length [simp]: "length ys = length xs \<Longrightarrow> length (partly f k xs ys) = length xs"
  by (simp add: partly_def)

lemma distinct_objects:
  assumes "distinct (filter (\<lambda>x. x \<noteq> None) os)" "i < length os" "os ! i = Some a"
  shows "Some a \<notin> set (take i os)"
proof
  assume a: "Some a \<in> set (take i os)"
  have "os = take i os @ Some a # drop (Suc i) os" using assms(2,3) by (metis id_take_nth_drop)
  then have "distinct (filter (\<lambda>x. x \<noteq> None) (take i os @ Some a # drop (Suc i) os))" using assms(1) by simp
  then show False using a by auto
qed

definition completed_upto ::
  "process \<Rightarrow> int list \<Rightarrow> MPIR_Status option list \<Rightarrow> addr option list \<Rightarrow> bool \<Rightarrow> nat \<Rightarrow> call \<Rightarrow> bool" where
  "completed_upto p hs sts os in_status k s \<longleftrightarrow> umem (proc s) = umem p \<and>
     reqs (recv (proc s)) = heap_after (reqs (recv p)) (take k os) \<and> objects s = os \<and>
     handles s = partly (handle_after (reqs (recv p))) k hs os \<and>
     statuses s = partly (status_after (reqs (recv p)) in_status) k sts os \<and>
     n_done s = int (length (filter (finished (reqs (recv p))) (take k os))) \<and>
     errno s = (if in_status then Some ERR_IN_STATUS else None)"

lemma completed_next:
  assumes "completed_upto p hs sts os in_status i s" "i < n" "n = length os" "length hs = n" "length sts = n"
    and "umem (proc s') = umem (proc s)" "reqs (recv (proc s')) = heap_after (reqs (recv p)) (take i os @ [os ! i])"
    "objects s' = objects s" "handles s' = (handles s)[i := handle_after (reqs (recv p)) (hs ! i, os ! i)]"
    "statuses s' = (statuses s)[i := status_after (reqs (recv p)) in_status (sts ! i, os ! i)]"
    "n_done s' = n_done s + (if finished (reqs (recv p)) (os ! i) then 1 else 0)" "errno s' = errno s"
  shows "completed_upto p hs sts os in_status (Suc i) s'"
proof -
  have "take (Suc i) os = take i os @ [os ! i]" using assms(2,3) by (simp add: take_Suc_conv_app_nth)
  then show ?thesis using assms by (simp add: completed_upto_def partly_update)
qed

lemma completed_entry:
  assumes "completed_upto p hs sts os in_status i s" "i < n" "n = length os" "length hs = n" "length sts = n"
  shows "objects s ! i = os ! i" "handles s ! i = hs ! i" "statuses s ! i = sts ! i" "length (statuses s) = n"
    "(errno s = Some ERR_IN_STATUS) = in_status"
  using assms by (simp_all add: completed_upto_def partly_nth)

lemma step_done: "f = Some (x, None) \<Longrightarrow> Q x \<Longrightarrow> \<exists>y. f = Some (y, None) \<and> Q y"
  by blast

lemma testall_complete_loop:
  assumes ok: "objects_ok (reqs (recv p)) os" and n: "n = length os" "length hs = n" "length sts = n"
    and init: "completed_upto p hs sts os in_status 0 s"
  shows "\<exists>s'. for_loop (testall_complete env) [0..<n] s = Some (s', None) \<and> completed_upto p hs sts os in_status n s'"
proof (rule for_loop_inv [where I = "completed_upto p hs sts os in_status", OF _ init])
  let ?h = "reqs (recv p)"
  fix i s assume i: "i < n" and s: "completed_upto p hs sts os in_status i s"
  note e = completed_entry [OF s i n] and nxt = completed_next [OF s i n]
  show "\<exists>s'. testall_complete env i s = Some (s', None) \<and> completed_upto p hs sts os in_status (Suc i) s'"
  proof (cases "os ! i")
    case None
    have "status_after ?h in_status (sts ! i, None) =
        (if in_status then MPIR_Status_set_error None (MPIR_Status_set_empty (sts ! i)) else MPIR_Status_set_empty (sts ! i))"
      and "handle_after ?h (hs ! i, None) = hs ! i"
      by (simp_all add: status_after_def handle_after_def)
    then have run: "testall_complete env i s = Some (s\<lparr>n_done := n_done s + 1,
        statuses := (statuses s)[i := status_after ?h in_status (sts ! i, os ! i)]\<rparr>, None)"
      using None e by (simp add: testall_complete_def Let_def)
    have hd: "(handles s)[i := handle_after ?h (hs ! i, os ! i)] = handles s"
      using None e(2) by (simp add: handle_after_def flip: e(2))
    show ?thesis using s None hd
      by (intro step_done [OF run] nxt) (simp_all add: heap_after_snoc finished_def completed_upto_def)
  next
    case (Some a)
    then have "Some a \<in> set os" using i n by (metis nth_mem)
    then obtain r where r: "?h a = Some r" "simple_request r" using ok by (auto simp: objects_ok_def)
    have fresh: "Some a \<notin> set (take i os)" by (rule distinct_objects) (use ok i n Some in \<open>auto simp: objects_ok_def\<close>)
    have h: "reqs (recv (proc s)) = heap_after ?h (take i os)" using s by (simp add: completed_upto_def)
    have ra: "reqs (recv (proc s)) a = Some r" using h fresh r by (simp add: heap_after_def)
    show ?thesis
    proof (cases "complete_now r")
      case False
      have st: "status_after ?h in_status (sts ! i, os ! i) = (if in_status then MPIR_Status_set_error (Some ERR_PENDING) (sts ! i) else sts ! i)"
        and hd: "(handles s)[i := handle_after ?h (hs ! i, os ! i)] = handles s"
        using False r Some e(2) by (simp_all add: status_after_def handle_after_def finished_def flip: e(2))
      have run: "testall_complete env i s = Some (s\<lparr>statuses := (statuses s)[i := status_after ?h in_status (sts ! i, os ! i)]\<rparr>, None)"
        using False Some e st simple_test_complete [OF ra r(2), of env] by (simp add: testall_complete_def Let_def flip: e(3))
      show ?thesis using False Some r h hd
        by (intro step_done [OF run] nxt) (simp_all add: heap_after_snoc finished_def)
    next
      case True
      obtain q where q: "MPIR_Request_complete env (handles s ! i) a (statuses s ! i) (proc s) =
          Some (q, MPI_REQUEST_NULL, shown_status r (statuses s ! i), True, st_error (rq_status r))"
        "umem q = umem (proc s)" "reqs (recv q) = (reqs (recv (proc s)))(a := dropped r)"
        using simple_complete [OF ra r(2)] by blast
      have st: "status_after ?h in_status (sts ! i, os ! i) =
          (if in_status then MPIR_Status_set_error (st_error (rq_status r)) (shown_status r (sts ! i)) else shown_status r (sts ! i))"
        and hd: "handle_after ?h (hs ! i, os ! i) = MPI_REQUEST_NULL"
        using True r Some by (simp_all add: status_after_def handle_after_def finished_def)
      have run: "testall_complete env i s = Some (s\<lparr>proc := q, handles := (handles s)[i := handle_after ?h (hs ! i, os ! i)],
          statuses := (statuses s)[i := status_after ?h in_status (sts ! i, os ! i)], n_done := n_done s + 1\<rparr>, None)"
        using True Some e i st hd q(1) simple_test_complete [OF ra r(2), of env]
        by (simp add: testall_complete_def complete_at_def Let_def)
      show ?thesis using True Some r h q(2,3)
        by (intro step_done [OF run] nxt) (simp_all add: heap_after_snoc finished_def)
    qed
  qed
qed

lemma validate_all_length: "validate_all env hs = Inr os \<Longrightarrow> length os = length hs"
proof (induction hs arbitrary: os)
  case (Cons h hs)
  then show ?case
    by (cases "validate_all env hs"; cases "MpiaRequestValidate env h") (auto split: if_splits)
qed simp

lemma count_finished:
  "int (length (filter (\<lambda>x. x = None) os)) + int (length (filter (\<lambda>x. x \<noteq> None \<and> finished h x) os)) = int (length (filter (finished h) os))"
  by (induction os) (auto simp: finished_def)

lemma all_finished: "length (filter (finished h) os) = length os \<longleftrightarrow> (\<forall>x\<in>set os. finished h x)"
  by (metis filter_True length_filter_less nat_neq_iff)

text \<open>C9: \<open>MPI_Testall\<close> on valid handles of distinct sends, buffered sends, receives and completed requests
(null handles among them; persistent, generalised and one-sided requests and nonblocking collectives are
not covered), with the arrays present or the statuses ignored, memory for its request table and a progress
pump that succeeds, is all or nothing. When some request is not complete and no complete one has an error,
the flag is false and neither requests nor handles nor statuses change. When all are complete the flag is
true, every request loses one reference and its handle becomes the null handle, and the statuses are
those of the requests. When a complete request has an error the call returns \<open>MPI_ERR_IN_STATUS\<close>: the
complete requests are completed, with their errors in the statuses, and the others are marked pending.\<close>

theorem MPI_Testall_all_or_nothing:
  assumes valid: "validate_all env hs = Inr os" and pump: "progress_pump env p = Some (q, None)"
    and arrays: "count = int (length hs)" "sts = status_list (length hs) sta" "sta \<noteq> NullStatus" "length sts = length hs"
    and ok: "objects_ok (reqs (recv q)) os" and h: "h = reqs (recv q)"
    and every: "every = (\<forall>x\<in>set os. finished h x)" and err: "err = (\<exists>x\<in>set os. failed_entry h x)"
  shows "\<exists>q'. MPI_Testall env True count (Some hs) True sta p =
      (if every \<or> err
       then Some (q', map (handle_after h) (zip hs os), Some every, map (status_after h err) (zip sts os),
         if err then Some ERR_IN_STATUS else None)
       else Some (q', hs, Some False, sts, None)) \<and>
    umem q' = umem q \<and> reqs (recv q') = (if every \<or> err then heap_after h os else h)"
proof -
  have n: "length os = length hs" by (rule validate_all_length [OF valid])
  define s0 where "s0 = (start_call q hs os sts [])\<lparr>n_done := nulls os\<rparr>"
  define s1 where "s1 = counted h os s0"
  have s0: "proc s0 = q" "objects s0 = os" "errno s0 = None" "n_done s0 = nulls os" "handles s0 = hs" "statuses s0 = sts"
    by (simp_all add: s0_def start_call_def)
  have loop1: "for_loop (testall_count env) [0..<length hs] s0 = Some (s1, None)"
    using testall_count_loop [of s0 "length hs" env] ok s0 n h by (simp add: s1_def)
  have s1: "proc s1 = q" "objects s1 = os" "handles s1 = hs" "statuses s1 = sts"
    "n_done s1 = int (length (filter (finished h) os))" "errno s1 = (if err then Some ERR_IN_STATUS else None)"
    using s0 count_finished [of os h] err by (simp_all add: s1_def counted_def nulls_def)
  have all: "n_done s1 = count \<longleftrightarrow> every" using all_finished [of h os] s1(5) n arrays(1) every by simp
  have call: "MPI_Testall env True count (Some hs) True sta p =
      do { (s, fail) \<leftarrow> (if every \<or> err then for_loop (testall_complete env) [0..<length hs] (s1\<lparr>n_done := 0\<rparr>) else Some (s1, None));
           Some (proc s, handles s, Some (n_done s = count), statuses s, errno s) }"
    using valid pump arrays loop1 all s1(6) by (simp add: MPI_Testall_def s0_def ERR_IN_STATUS_def)
  show ?thesis
  proof (cases "every \<or> err")
    case False
    then show ?thesis using call s1 all h by (intro exI [of _ q]) auto
  next
    case True
    have "completed_upto q hs sts os err 0 (s1\<lparr>n_done := 0\<rparr>)"
      using s1 by (simp add: completed_upto_def partly_def)
    then obtain s2 where s2: "for_loop (testall_complete env) [0..<length hs] (s1\<lparr>n_done := 0\<rparr>) = Some (s2, None)"
      "completed_upto q hs sts os err (length hs) s2"
      using testall_complete_loop [OF ok, of "length hs" hs sts err "s1\<lparr>n_done := 0\<rparr>"] n arrays(4) by auto
    have r: "umem (proc s2) = umem q" "reqs (recv (proc s2)) = heap_after h os"
      "handles s2 = map (handle_after h) (zip hs os)" "statuses s2 = map (status_after h err) (zip sts os)"
      "n_done s2 = int (length (filter (finished h) os))" "errno s2 = (if err then Some ERR_IN_STATUS else None)"
      using s2(2) n arrays(4) partly_all [of os hs] partly_all [of os sts] h by (simp_all add: completed_upto_def)
    have "n_done s2 = count \<longleftrightarrow> every" using all s1(5) r(5) by simp
    then show ?thesis using True call s2(1) r by (intro exI [of _ "proc s2"]) simp
  qed
qed

text \<open>A complete receive with an error, no request, and a pending send.\<close>

definition demo_cenv :: completion_env where
  "demo_cenv = \<lparr>c_mpid = demo_env, request_object = (\<lambda>h. Some (nat (h + 0x54000000))),
     nbcreq_test_complete = (\<lambda>a p. Some (p, True)), cancel_nbc_tasklist = (\<lambda>a p. Some p),
     greq_query = (\<lambda>a p. Some (p, 0)), greq_free = (\<lambda>a p. Some (p, 0)), greq_cancel = (\<lambda>a b p. Some (p, 0)),
     source_win = (\<lambda>a p. Inl MPIU_ERR_NOMEM), MPID_Win_flush = (\<lambda>a w p. Some (p, None)),
     NMPI_Ibsend = (\<lambda>buf rnk tag comm p. Some (p, Inl MPIU_ERR_NOMEM)),
     MPID_Progress_wait_interruptible = (\<lambda>p. Some (p, None))\<rparr>"

abbreviation demo_truncated :: mpi_error where
  "demo_truncated \<equiv> MPIU_ERR_CREATE MPI_ERR_TRUNCATE ''**truncate %d %d''"

definition demo_requests :: process where
  "demo_requests = demo_process\<lparr>recv := demo_queues\<lparr>reqs :=
     [0 \<mapsto> demo_request\<lparr>rq_kind := MPID_REQUEST_RECV, rq_status := \<lparr>st_count = 4, st_cancelled = False, st_source = 2,
        st_tag = 7, st_error = Some demo_truncated\<rparr>\<rparr>,
      1 \<mapsto> demo_request\<lparr>rq_kind := MPID_REQUEST_SEND, rq_cc := 1\<rparr>]\<rparr>\<rparr>"

abbreviation demo_status :: MPIR_Status where
  "demo_status \<equiv> \<lparr>st_count = 0, st_cancelled = False, st_source = 0, st_tag = 0, st_error = None\<rparr>"

lemma MPI_Testall_all_or_nothing_witness:
  "\<exists>q. MPI_Testall demo_cenv True 3 (Some [- 0x54000000, MPI_REQUEST_NULL, - 0x53ffffff]) True
       (StatusAt [demo_status, demo_status, demo_status]) demo_requests =
     Some (q, [MPI_REQUEST_NULL, MPI_REQUEST_NULL, - 0x53ffffff], Some False,
       [Some \<lparr>st_count = 4, st_cancelled = False, st_source = 2, st_tag = 7, st_error = Some demo_truncated\<rparr>,
        Some \<lparr>st_count = 0, st_cancelled = False, st_source = MPI_ANY_SOURCE, st_tag = MPI_ANY_TAG, st_error = None\<rparr>,
        Some (demo_status\<lparr>st_error := Some ERR_PENDING\<rparr>)], Some ERR_IN_STATUS) \<and>
     reqs (recv q) 0 = None"
proof -
  let ?hs = "[- 0x54000000, MPI_REQUEST_NULL, - 0x53ffffff]" and ?st = "StatusAt [demo_status, demo_status, demo_status]"
  let ?h = "reqs (recv demo_requests)"
  have kinds: "HANDLE_GET_MPI_KIND (word_of_int (- 0x54000000)) = kind_code MPID_REQUEST"
    "HANDLE_GET_TYPE (word_of_int (- 0x54000000)) \<noteq> HANDLE_TYPE_INVALID"
    "HANDLE_GET_MPI_KIND (word_of_int (- 0x53ffffff)) = kind_code MPID_REQUEST"
    "HANDLE_GET_TYPE (word_of_int (- 0x53ffffff)) \<noteq> HANDLE_TYPE_INVALID"
    by code_simp+
  have v: "validate_all demo_cenv ?hs = Inr [Some 0, None, Some 1]"
    using kinds by (simp add: MpiaRequestValidate_def demo_cenv_def MPI_REQUEST_NULL_def)
  have pump: "progress_pump demo_cenv demo_requests = Some (demo_requests, None)"
    by (simp add: demo_cenv_def demo_env_def)
  have h: "?h 0 = Some (demo_request\<lparr>rq_kind := MPID_REQUEST_RECV, rq_status := \<lparr>st_count = 4, st_cancelled = False, st_source = 2,
        st_tag = 7, st_error = Some demo_truncated\<rparr>\<rparr>)" "?h 1 = Some (demo_request\<lparr>rq_kind := MPID_REQUEST_SEND, rq_cc := 1\<rparr>)"
    by (simp_all add: demo_requests_def)
  have ok: "objects_ok ?h [Some 0, None, Some 1]"
    using h by (auto simp: objects_ok_def simple_request_def)
  have f: "finished ?h (Some 0)" "\<not> finished ?h (Some 1)" "finished ?h None" "failed_entry ?h (Some 0)" "\<not> failed_entry ?h (Some 1)"
    using h by (simp_all add: finished_def complete_now_def failed_entry_def demo_request_def)
  have "False = (\<forall>x\<in>set [Some 0, None, Some 1]. finished ?h x)" "True = (\<exists>x\<in>set [Some 0, None, Some 1]. failed_entry ?h x)"
    using f by auto
  note r = MPI_Testall_all_or_nothing [OF v pump, where count = 3 and sta = ?st, OF _ refl _ _ ok refl this]
  show ?thesis
    using r f h
    by (auto simp: handle_after_def status_after_def heap_after_def shown_status_def dropped_def i32_def Let_def demo_request_def
        MPIR_Status_set_error_def MPIR_Status_set_empty_def MPIR_Request_extract_status_def)
qed

end
