(* ===== verification/Completion_Wait.thy ===== *)
theory Completion_Wait
  imports Completion_Proofs
begin

text \<open>
  Waiting for all of several requests ends, when the progress engine does its work; and two things
  that go wrong: a send to oneself whose request is freed, and a collective request in \<open>MPI_Testall\<close>.
\<close>

subsection \<open>Progress\<close>

definition plain_requests :: "addr set \<Rightarrow> process \<Rightarrow> bool" where
  "plain_requests A p \<longleftrightarrow> (\<forall>a\<in>A. \<exists>r. reqs (recv p) a = Some r \<and> simple_request r)"

text \<open>
  While a request is incomplete a wait for progress returns without an error, keeps the requests
  of the caller, and brings the process closer to their completion.
\<close>

definition progresses :: "completion_env \<Rightarrow> (process \<Rightarrow> nat) \<Rightarrow> bool" where
  "progresses env \<mu> \<longleftrightarrow> (\<forall>A p. plain_requests A p \<and> (\<exists>a\<in>A. \<not> complete_now (the (reqs (recv p) a))) \<longrightarrow>
     (\<exists>q. progress_wait env p = Some (q, None) \<and> plain_requests A q \<and> \<mu> q < \<mu> p))"

text \<open>
  Waiting for one request: progress is waited for as long as the request is not complete, and no
  longer. \<open>waits_for env a p q\<close> holds of the first state \<open>q\<close> in which it is.
\<close>

inductive waits_for :: "completion_env \<Rightarrow> addr \<Rightarrow> process \<Rightarrow> process \<Rightarrow> bool" for env a where
  complete: "reqs (recv p) a = Some r \<Longrightarrow> complete_now r \<Longrightarrow> waits_for env a p p"
| progress: "reqs (recv p) a = Some r \<Longrightarrow> \<not> complete_now r \<Longrightarrow> progress_wait env p = Some (p1, None) \<Longrightarrow>
    waits_for env a p1 q \<Longrightarrow> waits_for env a p q"

lemma waits_for_complete: "waits_for env a p q \<Longrightarrow> \<exists>r. reqs (recv q) a = Some r \<and> complete_now r"
  by (induction rule: waits_for.induct) auto

inductive_cases waits_forE: "waits_for env a p q"

lemma waits_for_now: "waits_for env a p q \<Longrightarrow> reqs (recv p) a = Some r \<Longrightarrow> complete_now r \<Longrightarrow> q = p"
  by (erule waits_forE) simp_all

lemma waits_for_later:
  "waits_for env a p q \<Longrightarrow> reqs (recv p) a = Some r \<Longrightarrow> \<not> complete_now r \<Longrightarrow> progress_wait env p = Some (p1, None) \<Longrightarrow>
   waits_for env a p1 q"
  by (erule waits_forE) simp_all

lemma wait_ends:
  assumes prog: "progresses env \<mu>" and a: "a \<in> A"
  shows "plain_requests A p \<Longrightarrow> \<exists>q. MPIR_Wait env a p = Some (q, None) \<and> plain_requests A q \<and> waits_for env a p q"
proof (induction "\<mu> p" arbitrary: p rule: less_induct)
  case less
  obtain r where r: "reqs (recv p) a = Some r" "simple_request r" using less.prems a by (auto simp: plain_requests_def)
  show ?case
  proof (cases "complete_now r")
    case True
    then show ?thesis using r less.prems simple_test_complete [OF r, of env] waits_for.complete [OF r(1) True, of env]
      by (intro exI [of _ p]) (simp add: MPIR_Wait.simps)
  next
    case False
    have "\<exists>a\<in>A. \<not> complete_now (the (reqs (recv p) a))" using a r(1) False by (intro bexI [of _ a]) simp_all
    then obtain q where q: "progress_wait env p = Some (q, None)" "plain_requests A q" "\<mu> q < \<mu> p"
      using prog less.prems unfolding progresses_def by blast
    obtain q' where q': "MPIR_Wait env a q = Some (q', None)" "plain_requests A q'" "waits_for env a q q'"
      using less.hyps [OF q(3,2)] by blast
    have "MPIR_Wait env a p = Some (q', None)"
      using simple_test_complete [OF r, of env] False q(1) q'(1) by (subst MPIR_Wait.simps) simp
    then show ?thesis using q'(2,3) waits_for.progress [OF r(1) False q(1) q'(3)] by blast
  qed
qed

subsection \<open>The order of MPI_Waitall\<close>

text \<open>
  What the entries of the arrays hold: the object of a request if there is one, its handle and its
  status. An entry after the first failure keeps its handle and is marked pending.
\<close>

type_synonym wait_entry = "addr option \<times> int \<times> MPIR_Status option"

fun left_pending :: "wait_entry \<Rightarrow> int \<times> MPIR_Status option" where
  "left_pending (None, h, st) = (h, MPIR_Status_set_empty st)"
| "left_pending (Some a, h, st) = (h, MPIR_Status_set_error (Some ERR_PENDING) st)"

text \<open>A complete request is handed over: the caller's reference is dropped, and nothing else changes.\<close>

definition handed_over :: "addr \<Rightarrow> MPID_Request \<Rightarrow> process \<Rightarrow> process \<Rightarrow> bool" where
  "handed_over a r p q \<longleftrightarrow> reqs (recv p) a = Some r \<and> umem q = umem p \<and> reqs (recv q) = (reqs (recv p))(a := dropped r)"

text \<open>
  The requests are waited for in the order of the array. \<open>waits_in_order env es p q rs e\<close>: from \<open>p\<close> the
  call ends in \<open>q\<close> with the handles and statuses \<open>rs\<close> and the result \<open>e\<close>.
\<close>

inductive waits_in_order ::
  "completion_env \<Rightarrow> wait_entry list \<Rightarrow> process \<Rightarrow> process \<Rightarrow> (int \<times> MPIR_Status option) list \<Rightarrow> mpi_error option \<Rightarrow> bool"
  for env where
  no_more: "waits_in_order env [] p p [] None"
| no_request: "waits_in_order env es p q rs e \<Longrightarrow>
    waits_in_order env ((None, h, st) # es) p q ((h, MPIR_Status_set_empty st) # rs) e"
| succeeded: "waits_for env a p p1 \<Longrightarrow> handed_over a r p1 p2 \<Longrightarrow> st_error (rq_status r) = None \<Longrightarrow>
    waits_in_order env es p2 q rs e \<Longrightarrow>
    waits_in_order env ((Some a, h, st) # es) p q ((MPI_REQUEST_NULL, MPIR_Status_set_error None (shown_status r st)) # rs) e"
| failed: "waits_for env a p p1 \<Longrightarrow> handed_over a r p1 p2 \<Longrightarrow> st_error (rq_status r) = Some err \<Longrightarrow>
    waits_in_order env ((Some a, h, st) # es) p p2
      ((MPI_REQUEST_NULL, MPIR_Status_set_error (Some err) (shown_status r st)) # map left_pending es) (Some ERR_IN_STATUS)"

lemma waits_in_order_length: "waits_in_order env es p q rs e \<Longrightarrow> length rs = length es"
  by (induction rule: waits_in_order.induct) auto

lemma waits_in_order_nulls:
  "waits_in_order env es p q rs e \<Longrightarrow> \<forall>(x, h, st)\<in>set es. x = None \<longrightarrow> h = MPI_REQUEST_NULL \<Longrightarrow> e = None \<Longrightarrow>
   map fst rs = replicate (length es) MPI_REQUEST_NULL"
  by (induction rule: waits_in_order.induct) auto

subsection \<open>MPI_Waitall\<close>

definition entry_valid :: "completion_env \<Rightarrow> wait_entry \<Rightarrow> bool" where
  "entry_valid env = (\<lambda>(x, h, st). if h = MPI_REQUEST_NULL then x = None else \<exists>a. MpiaRequestValidate env h = Inr a \<and> x = Some a)"

lemma validate_all_entries:
  "validate_all env hs = Inr os \<Longrightarrow> length sts = length hs \<Longrightarrow> list_all (entry_valid env) (zip os (zip hs sts))"
proof (induction hs arbitrary: os sts)
  case (Cons h hs)
  then show ?case
    by (cases sts; cases "validate_all env hs"; cases "MpiaRequestValidate env h")
      (auto split: if_splits simp: entry_valid_def)
qed simp

text \<open>A round in the middle of the arrays: the entry at the position of the round.\<close>

definition middle :: "int list \<Rightarrow> MPIR_Status option list \<Rightarrow> wait_entry list \<Rightarrow> call \<Rightarrow> bool" where
  "middle dh ds es s \<longleftrightarrow> length ds = length dh \<and> handles s = dh @ map (fst \<circ> snd) es \<and> statuses s = ds @ map (snd \<circ> snd) es"

lemma middle_first:
  assumes "middle dh ds ((x, h, st) # es) s"
  shows "handles s ! length dh = h" "statuses s ! length dh = st" "length dh < length (handles s)" "length dh < length (statuses s)"
    "middle (dh @ [h']) (ds @ [st']) es (s\<lparr>handles := (handles s)[length dh := h'], statuses := (statuses s)[length dh := st']\<rparr>)"
    "middle (dh @ [h]) (ds @ [st']) es (s\<lparr>statuses := (statuses s)[length dh := st']\<rparr>)"
  using assms by (auto simp: middle_def nth_append list_update_append)

lemma middle_cong: "handles s' = handles s \<Longrightarrow> statuses s' = statuses s \<Longrightarrow> middle dh ds es s' = middle dh ds es s"
  by (simp add: middle_def)

lemma for_loop_first:
  assumes "body k s = Some (s1, None)"
  shows "for_loop body [k..<k + length (en # es)] s = for_loop body [Suc k..<Suc k + length es] s1"
proof -
  have "[k..<k + length (en # es)] = k # [Suc k..<Suc k + length es]"
    using upt_conv_Cons [of k "k + length (en # es)"] by (simp del: upt_Suc)
  then show ?thesis using assms by (simp del: upt_Suc)
qed

text \<open>After a failure the rest is marked.\<close>

lemma waitall_pending:
  "list_all (entry_valid env) es \<Longrightarrow> middle dh ds es s \<Longrightarrow> errno s = Some ERR_IN_STATUS \<Longrightarrow>
   \<exists>s'. for_loop (waitall_request env) [length dh..<length dh + length es] s = Some (s', None) \<and> proc s' = proc s \<and>
     errno s' = errno s \<and> handles s' = dh @ map (fst \<circ> left_pending) es \<and> statuses s' = ds @ map (snd \<circ> left_pending) es"
proof (induction es arbitrary: dh ds s)
  case (Cons en es)
  obtain x h st where en: "en = (x, h, st)" by (cases en) auto
  define s1 where "s1 = s\<lparr>statuses := (statuses s)[length dh := snd (left_pending (x, h, st))]\<rparr>"
  note m = middle_first [OF Cons.prems(2) [unfolded en]]
  have run: "waitall_request env (length dh) s = Some (s1, None)"
    using Cons.prems(1,3) m(1,2) by (auto simp: waitall_request_def Let_def entry_valid_def en s1_def split: if_splits)
  have "\<exists>s'. for_loop (waitall_request env) [length (dh @ [h])..<length (dh @ [h]) + length es] s1 = Some (s', None) \<and>
      proc s' = proc s1 \<and> errno s' = errno s1 \<and> handles s' = (dh @ [h]) @ map (fst \<circ> left_pending) es \<and>
      statuses s' = (ds @ [snd (left_pending (x, h, st))]) @ map (snd \<circ> left_pending) es"
    using Cons.prems m(6) by (intro Cons.IH) (simp_all add: s1_def)
  moreover have "fst (left_pending (x, h, st)) = h" by (cases x) simp_all
  ultimately show ?case
    unfolding for_loop_first [where body = "waitall_request env", OF run] by (simp add: en s1_def comp_def del: upt_Suc)
qed (auto simp: middle_def)

lemma waitall_one:
  assumes prog: "progresses env \<mu>" and s: "middle dh ds ((Some a, h, st) # es) s" "errno s = None"
    and v: "entry_valid env (Some a, h, st)" and plain: "plain_requests A (proc s)" "a \<in> A"
  obtains p1 r p2 where "waits_for env a (proc s) p1" "handed_over a r p1 p2" "plain_requests (A - {a}) p2"
    "waitall_request env (length dh) s = Some
       (s\<lparr>proc := p2, handles := (handles s)[length dh := MPI_REQUEST_NULL],
          statuses := (statuses s)[length dh := MPIR_Status_set_error (st_error (rq_status r)) (shown_status r st)],
          errno := if st_error (rq_status r) = None then None else Some ERR_IN_STATUS\<rparr>, None)"
proof -
  note m = middle_first [OF s(1)]
  have h: "h \<noteq> MPI_REQUEST_NULL" "MpiaRequestValidate env h = Inr a" using v by (auto simp: entry_valid_def split: if_splits)
  obtain r0 where r0: "reqs (recv (proc s)) a = Some r0" "simple_request r0" using plain by (auto simp: plain_requests_def)
  obtain p1 where p1: "MPIR_Wait env a (proc s) = Some (p1, None)" "plain_requests A p1" "waits_for env a (proc s) p1"
    using wait_ends [OF prog plain(2,1)] by blast
  have same: "p1 = proc s" if "complete_now r0"
    using p1(1) that simple_test_complete [OF r0, of env] by (simp add: MPIR_Wait.simps)
  obtain r where r: "reqs (recv p1) a = Some r" "simple_request r" using p1(2) plain(2) by (auto simp: plain_requests_def)
  obtain p2 where p2: "MPIR_Request_complete env h a st p1 =
      Some (p2, MPI_REQUEST_NULL, shown_status r st, True, st_error (rq_status r))"
    "umem p2 = umem p1" "reqs (recv p2) = (reqs (recv p1))(a := dropped r)"
    using simple_complete [OF r] by blast
  have over: "handed_over a r p1 p2" using r(1) p2(2,3) by (simp add: handed_over_def)
  have keep: "plain_requests (A - {a}) p2" using p1(2) p2(3) by (auto simp: plain_requests_def)
  have ready: "\<not> IsRmaRequest r0" using r0(2) by (auto simp: IsRmaRequest_def simple_request_def)
  let ?s1 = "s\<lparr>proc := p1\<rparr>"
  have "waitall_request env (length dh) s = do {
      (t, active, rc) \<leftarrow> complete_at env (length dh) a (length dh) ?s1;
      let t = t\<lparr>statuses := (statuses t)[length dh := MPIR_Status_set_error rc (statuses t ! length dh)]\<rparr>;
      Some (if rc \<noteq> None then t\<lparr>errno := Some ERR_IN_STATUS\<rparr> else t, None) }"
    using s(2) h m(1) r0 ready p1(1) same simple_test_complete [OF r0, of env]
    by (cases "complete_now r0") (simp_all add: waitall_request_def Let_def)
  also have "complete_at env (length dh) a (length dh) ?s1 = Some (s\<lparr>proc := p2, handles := (handles s)[length dh := MPI_REQUEST_NULL],
      statuses := (statuses s)[length dh := shown_status r st]\<rparr>, True, st_error (rq_status r))"
    using m(1,2) p2(1) by (simp add: complete_at_def)
  finally have run: "waitall_request env (length dh) s = Some
       (s\<lparr>proc := p2, handles := (handles s)[length dh := MPI_REQUEST_NULL],
          statuses := (statuses s)[length dh := MPIR_Status_set_error (st_error (rq_status r)) (shown_status r st)],
          errno := if st_error (rq_status r) = None then None else Some ERR_IN_STATUS\<rparr>, None)"
    using m(4) s(2) by (auto simp: Let_def intro!: call.equality)
  show thesis by (rule that [OF p1(3) over keep run])
qed

lemma waitall_loop_in_order:
  assumes prog: "progresses env \<mu>"
  shows "list_all (entry_valid env) es \<Longrightarrow> middle dh ds es s \<Longrightarrow> errno s = None \<Longrightarrow>
    distinct (filter (\<lambda>x. x \<noteq> None) (map fst es)) \<Longrightarrow> plain_requests {a. Some a \<in> fst ` set es} (proc s) \<Longrightarrow>
    \<exists>s' rs. for_loop (waitall_request env) [length dh..<length dh + length es] s = Some (s', None) \<and>
      waits_in_order env es (proc s) (proc s') rs (errno s') \<and> handles s' = dh @ map fst rs \<and> statuses s' = ds @ map snd rs"
proof (induction es arbitrary: dh ds s)
  case Nil
  then show ?case by (auto simp: middle_def intro: waits_in_order.no_more)
next
  case (Cons en es)
  obtain x h st where en: "en = (x, h, st)" by (cases en) auto
  note m = middle_first [OF Cons.prems(2) [unfolded en]]
  show ?case
  proof (cases x)
    case None
    define s1 where "s1 = s\<lparr>statuses := (statuses s)[length dh := MPIR_Status_set_empty st]\<rparr>"
    have run: "waitall_request env (length dh) s = Some (s1, None)"
      using Cons.prems(1) None m(1,2) by (auto simp: waitall_request_def Let_def entry_valid_def en s1_def split: if_splits)
    have "{a. Some a \<in> fst ` set (en # es)} = {a. Some a \<in> fst ` set es}" using en None by auto
    then have "\<exists>s' rs. for_loop (waitall_request env) [length (dh @ [h])..<length (dh @ [h]) + length es] s1 = Some (s', None) \<and>
        waits_in_order env es (proc s1) (proc s') rs (errno s') \<and>
        handles s' = (dh @ [h]) @ map fst rs \<and> statuses s' = (ds @ [MPIR_Status_set_empty st]) @ map snd rs"
      using Cons.prems m(6) None en by (intro Cons.IH) (simp_all add: s1_def)
    then obtain s' rs where s': "for_loop (waitall_request env) [Suc (length dh)..<Suc (length dh) + length es] s1 = Some (s', None)"
      "waits_in_order env es (proc s) (proc s') rs (errno s')"
      "handles s' = (dh @ [h]) @ map fst rs" "statuses s' = (ds @ [MPIR_Status_set_empty st]) @ map snd rs"
      by (auto simp: s1_def simp del: upt_Suc)
    then show ?thesis unfolding for_loop_first [where body = "waitall_request env", OF run] using en None
      by (intro exI [of _ s'] exI [of _ "(h, MPIR_Status_set_empty st) # rs"])
        (simp add: waits_in_order.no_request del: upt_Suc)
  next
    case (Some a)
    let ?A = "{b. Some b \<in> fst ` set (en # es)}"
    obtain p1 r p2 where one: "waits_for env a (proc s) p1" "handed_over a r p1 p2" "plain_requests (?A - {a}) p2"
      "waitall_request env (length dh) s = Some
         (s\<lparr>proc := p2, handles := (handles s)[length dh := MPI_REQUEST_NULL],
            statuses := (statuses s)[length dh := MPIR_Status_set_error (st_error (rq_status r)) (shown_status r st)],
            errno := if st_error (rq_status r) = None then None else Some ERR_IN_STATUS\<rparr>, None)"
      by (rule waitall_one [OF prog, of dh ds a h st es s ?A]) (use Cons.prems en Some in auto)
    define s1 where "s1 = s\<lparr>proc := p2, handles := (handles s)[length dh := MPI_REQUEST_NULL],
            statuses := (statuses s)[length dh := MPIR_Status_set_error (st_error (rq_status r)) (shown_status r st)],
            errno := if st_error (rq_status r) = None then None else Some ERR_IN_STATUS\<rparr>"
    let ?st = "MPIR_Status_set_error (st_error (rq_status r)) (shown_status r st)"
    have run: "waitall_request env (length dh) s = Some (s1, None)" using one(4) by (simp add: s1_def)
    have mid: "middle (dh @ [MPI_REQUEST_NULL]) (ds @ [?st]) es s1"
      using m(5) [of MPI_REQUEST_NULL ?st] by (simp add: middle_def s1_def)
    have valid: "list_all (entry_valid env) es" using Cons.prems(1) by simp
    show ?thesis
    proof (cases "st_error (rq_status r)")
      case None
      have "a \<notin> {b. Some b \<in> fst ` set es}" using Cons.prems(4) en Some by (auto simp: image_iff)
      then have "?A - {a} = {b. Some b \<in> fst ` set es}" using en Some by auto
      then have "\<exists>s' rs. for_loop (waitall_request env)
            [length (dh @ [MPI_REQUEST_NULL])..<length (dh @ [MPI_REQUEST_NULL]) + length es] s1 = Some (s', None) \<and>
          waits_in_order env es (proc s1) (proc s') rs (errno s') \<and>
          handles s' = (dh @ [MPI_REQUEST_NULL]) @ map fst rs \<and> statuses s' = (ds @ [?st]) @ map snd rs"
        using valid mid Cons.prems(4) one(3) en Some None by (intro Cons.IH) (simp_all add: s1_def)
      then obtain s' rs where s': "for_loop (waitall_request env) [Suc (length dh)..<Suc (length dh) + length es] s1 = Some (s', None)"
        "waits_in_order env es p2 (proc s') rs (errno s')"
        "handles s' = (dh @ [MPI_REQUEST_NULL]) @ map fst rs" "statuses s' = (ds @ [?st]) @ map snd rs"
        by (auto simp: s1_def simp del: upt_Suc)
      have "waits_in_order env (en # es) (proc s) (proc s') ((MPI_REQUEST_NULL, ?st) # rs) (errno s')"
        using waits_in_order.succeeded [OF one(1,2) None s'(2)] en Some None by simp
      then show ?thesis unfolding for_loop_first [where body = "waitall_request env", OF run] using s'
        by (intro exI [of _ s'] exI [of _ "(MPI_REQUEST_NULL, ?st) # rs"]) (simp del: upt_Suc)
    next
      case err: (Some e)
      obtain s' where s': "for_loop (waitall_request env)
            [length (dh @ [MPI_REQUEST_NULL])..<length (dh @ [MPI_REQUEST_NULL]) + length es] s1 = Some (s', None)"
          "proc s' = proc s1" "errno s' = errno s1"
          "handles s' = (dh @ [MPI_REQUEST_NULL]) @ map (fst \<circ> left_pending) es" "statuses s' = (ds @ [?st]) @ map (snd \<circ> left_pending) es"
        using waitall_pending [OF valid mid] err by (auto simp: s1_def)
      have "waits_in_order env (en # es) (proc s) (proc s') ((MPI_REQUEST_NULL, ?st) # map left_pending es) (errno s')"
        using waits_in_order.failed [OF one(1,2) err, of h st es] en Some err s'(2,3) by (simp add: s1_def)
      then show ?thesis unfolding for_loop_first [where body = "waitall_request env", OF run] using s'(1,4,5)
        by (intro exI [of _ s'] exI [of _ "(MPI_REQUEST_NULL, ?st) # map left_pending es"]) (simp del: upt_Suc)
    qed
  qed
qed

text \<open>C10: \<open>MPI_Waitall\<close> on valid handles of distinct sends, buffered sends, receives and completed
requests (null handles among them; not persistent, generalised or one-sided requests nor nonblocking
collectives), with the arrays present or the statuses ignored, returns when every wait for progress with
one of the requests incomplete succeeds and brings the process closer to completion. It waits for the
requests in the order of the array, for each exactly until it is complete; it then drops the caller's
reference, sets the handle to null and the status to that of the request. The first request that
completed with an error ends the waiting: it is completed with its error in the status, the entries after it keep
their handles and are marked pending, and the result is \<open>MPI_ERR_IN_STATUS\<close>; without such a request the
result is success and all handles are null.\<close>

theorem MPI_Waitall_returns:
  assumes prog: "progresses env \<mu>" and v: "validate_all env hs = Inr os" and ok: "objects_ok (reqs (recv p)) os"
    and arrays: "count = int (length hs)" "sta \<noteq> NullStatus" "length (status_list (length hs) sta) = length hs"
  shows "\<exists>q rs e. MPI_Waitall env count (Some hs) sta p = Some (q, map fst rs, map snd rs, e) \<and>
    waits_in_order env (zip os (zip hs (status_list (length hs) sta))) p q rs e \<and>
    (e = None \<longrightarrow> map fst rs = replicate (length hs) MPI_REQUEST_NULL)"
proof -
  let ?sts = "status_list (length hs) sta"
  let ?es = "zip os (zip hs ?sts)" and ?s0 = "start_call p hs [] ?sts []"
  have n: "length os = length hs" by (rule validate_all_length [OF v])
  have proj: "map fst ?es = os" "map (fst \<circ> snd) ?es = hs" "map (snd \<circ> snd) ?es = ?sts"
    using n arrays(3) by (simp_all flip: map_map)
  have valid: "list_all (entry_valid env) ?es" by (rule validate_all_entries [OF v arrays(3)])
  have "fst ` set ?es = set os" using proj(1) by (metis set_map)
  then have "plain_requests {a. Some a \<in> fst ` set ?es} (proc ?s0)"
    using ok by (simp add: plain_requests_def objects_ok_def start_call_def)
  moreover have "middle [] [] ?es ?s0" "errno ?s0 = None" "distinct (filter (\<lambda>x. x \<noteq> None) (map fst ?es))"
    unfolding middle_def proj using ok by (simp_all add: start_call_def objects_ok_def)
  ultimately obtain s' rs where s': "for_loop (waitall_request env) [0..<length ?es] ?s0 = Some (s', None)"
    "waits_in_order env ?es p (proc s') rs (errno s')" "handles s' = map fst rs" "statuses s' = map snd rs"
    using waitall_loop_in_order [OF prog valid, of "[]" "[]" ?s0] by (auto simp: start_call_def)
  have "MPI_Waitall env count (Some hs) sta p = Some (proc s', map fst rs, map snd rs, errno s')"
    using arrays s' n by (simp add: MPI_Waitall_def)
  moreover have "map fst rs = replicate (length hs) MPI_REQUEST_NULL" if "errno s' = None"
  proof -
    have "\<forall>(x, h, st)\<in>set ?es. x = None \<longrightarrow> h = MPI_REQUEST_NULL"
      using valid by (auto simp: list_all_iff entry_valid_def split: if_splits dest!: bspec)
    then show ?thesis using waits_in_order_nulls [OF s'(2) _ that] n arrays(3) by simp
  qed
  ultimately show ?thesis using s'(2)
    by (intro exI [of _ "proc s'"] exI [of _ rs] exI [of _ "errno s'"]) simp
qed

text \<open>A progress engine that completes everything at once.\<close>

definition finish_all :: "process \<Rightarrow> process" where
  "finish_all p = p\<lparr>recv := (recv p)\<lparr>reqs := \<lambda>a. map_option (\<lambda>r. r\<lparr>rq_cc := 0\<rparr>) (reqs (recv p) a)\<rparr>\<rparr>"

definition demo_waiting :: completion_env where
  "demo_waiting = demo_cenv\<lparr>c_mpid := demo_env\<lparr>MPID_Progress_wait := \<lambda>p. Some (finish_all p, None)\<rparr>\<rparr>"

lemma demo_progresses:
  "progresses demo_waiting (\<lambda>p. if \<exists>a r. reqs (recv p) a = Some r \<and> \<not> complete_now r then 1 else 0)"
  unfolding progresses_def
proof (intro allI impI)
  fix A p
  assume "plain_requests A p \<and> (\<exists>a\<in>A. \<not> complete_now (the (reqs (recv p) a)))"
  then obtain a r where plain: "plain_requests A p" and r: "reqs (recv p) a = Some r" "\<not> complete_now r"
    by (fastforce simp: plain_requests_def)
  have "plain_requests A (finish_all p)"
    using plain by (fastforce simp: plain_requests_def finish_all_def simple_request_def)
  moreover have "\<not> (\<exists>a r. reqs (recv (finish_all p)) a = Some r \<and> \<not> complete_now r)"
    by (auto simp: finish_all_def complete_now_def)
  moreover have "\<exists>a r. reqs (recv p) a = Some r \<and> \<not> complete_now r" using r by blast
  moreover have "progress_wait demo_waiting p = Some (finish_all p, None)" by (simp add: demo_waiting_def)
  ultimately show "\<exists>q. progress_wait demo_waiting p = Some (q, None) \<and> plain_requests A q \<and>
      (if \<exists>a r. reqs (recv q) a = Some r \<and> \<not> complete_now r then 1 else 0)
        < (if \<exists>a r. reqs (recv p) a = Some r \<and> \<not> complete_now r then 1 else (0::nat))"
    by (intro exI [of _ "finish_all p"]) simp
qed

inductive_cases waits_in_order_requestE: "waits_in_order env ((Some a, h, st) # es) p q rs e"

text \<open>The send is waited for, then the receive that failed is completed with its error.\<close>

lemma MPI_Waitall_returns_witness:
  "\<exists>q. MPI_Waitall demo_waiting 2 (Some [- 0x53ffffff, - 0x54000000]) IgnoreStatus demo_requests =
    Some (q, [MPI_REQUEST_NULL, MPI_REQUEST_NULL], [None, None], Some ERR_IN_STATUS)"
proof -
  let ?hs = "[- 0x53ffffff, - 0x54000000] :: int list"
  have kinds: "HANDLE_GET_MPI_KIND (word_of_int (- 0x54000000)) = kind_code MPID_REQUEST"
    "HANDLE_GET_TYPE (word_of_int (- 0x54000000)) \<noteq> HANDLE_TYPE_INVALID"
    "HANDLE_GET_MPI_KIND (word_of_int (- 0x53ffffff)) = kind_code MPID_REQUEST"
    "HANDLE_GET_TYPE (word_of_int (- 0x53ffffff)) \<noteq> HANDLE_TYPE_INVALID"
    by code_simp+
  have v: "validate_all demo_waiting ?hs = Inr [Some 1, Some 0]"
    using kinds by (simp add: MpiaRequestValidate_def demo_waiting_def demo_cenv_def MPI_REQUEST_NULL_def)
  have ok: "objects_ok (reqs (recv demo_requests)) [Some 1, Some 0]"
    by (auto simp: objects_ok_def simple_request_def demo_requests_def)
  have n: "(2::int) = int (length ?hs)" "length (status_list (length ?hs) IgnoreStatus) = length ?hs"
    "(IgnoreStatus :: MPIR_Status list status_arg) \<noteq> NullStatus" by simp_all
  obtain q rs e where call: "MPI_Waitall demo_waiting 2 (Some ?hs) IgnoreStatus demo_requests = Some (q, map fst rs, map snd rs, e)"
    and ord: "waits_in_order demo_waiting [(Some 1, - 0x53ffffff, None), (Some 0, - 0x54000000, None)] demo_requests q rs e"
    using MPI_Waitall_returns [OF demo_progresses v ok n(1,3,2)] by (auto simp: numeral_2_eq_2)
  let ?p1 = "finish_all demo_requests"
  have r1: "reqs (recv demo_requests) 1 = Some (demo_request\<lparr>rq_kind := MPID_REQUEST_SEND, rq_cc := 1\<rparr>)"
    by (simp add: demo_requests_def)
  have "progress_wait demo_waiting demo_requests = Some (?p1, None)" by (simp add: demo_waiting_def)
  moreover have r1': "reqs (recv ?p1) 1 = Some (demo_request\<lparr>rq_kind := MPID_REQUEST_SEND, rq_cc := 0\<rparr>)"
    using r1 by (simp add: finish_all_def)
  ultimately have fin: "p1 = ?p1" if "waits_for demo_waiting 1 demo_requests p1" for p1
    using waits_for_now [OF waits_for_later [OF that r1]] by (simp add: complete_now_def)
  have r0: "reqs (recv ?p1) 0 = Some (demo_request\<lparr>rq_kind := MPID_REQUEST_RECV, rq_cc := 0,
      rq_status := \<lparr>st_count = 4, st_cancelled = False, st_source = 2, st_tag = 7, st_error = Some demo_truncated\<rparr>\<rparr>)"
    by (simp add: finish_all_def demo_requests_def)
  have "e = Some ERR_IN_STATUS \<and> rs = [(MPI_REQUEST_NULL, None), (MPI_REQUEST_NULL, None)]"
  proof (rule waits_in_order_requestE [OF ord], goal_cases)
    case (1 p1 r p2 rs2)
    then have p2: "reqs (recv p2) 0 = reqs (recv ?p1) 0"
      using fin by (auto simp: handed_over_def)
    have stay: "p3 = p2" if "waits_for demo_waiting 0 p2 p3" for p3
      using waits_for_now [OF that p2 [unfolded r0]] by (simp add: complete_now_def)
    have st: "shown_status r None = None" for r
      by (simp add: shown_status_def MPIR_Request_extract_status_def MPIR_Status_set_cancelled_def)
    note rs = 1(1)
    show ?case
    proof (rule waits_in_order_requestE [OF 1(5)], goal_cases)
      case (1 p3 r3)
      from stay [OF 1(2)] 1(3,4) p2 r0 show ?case by (auto simp: handed_over_def)
    next
      case (2 p3 r3 err)
      then show ?case using rs st by (simp add: MPIR_Status_set_error_def)
    qed
  next
    case (2 p1 r err)
    then show ?case using fin r1' by (auto simp: handed_over_def demo_request_def)
  qed
  with call show ?thesis by auto
qed

subsection \<open>Two defects\<close>

text \<open>
  \<open>MPIR_Request_get_error\<close> has no case for the requests of nonblocking collectives: \<open>MPI_Testall\<close>
  on one that completed without an error completes it, and returns \<open>MPI_ERR_IN_STATUS\<close>. \<open>MPI_Wait\<close>
  on the same request succeeds.
\<close>

theorem MPI_Testall_fails_for_collectives:
  assumes r: "reqs (recv q) a = Some r" "rq_kind r = MPID_REQUEST_NBC" "st_error (rq_status r) = None"
    and nbc: "nbcreq_test_complete env a q = Some (q, True)"
    and v: "h \<noteq> MPI_REQUEST_NULL" "MpiaRequestValidate env h = Inr a" and pump: "progress_pump env p = Some (q, None)"
  shows "\<exists>q'. MPI_Testall env True 1 (Some [h]) True IgnoreStatus p = Some (q', [MPI_REQUEST_NULL], Some True, [None], Some ERR_IN_STATUS) \<and>
    MPI_Wait env (Some h) IgnoreStatus q = Some (q', Some MPI_REQUEST_NULL, None, None)"
proof -
  obtain s' where s': "Release a (recv q) = Some s'" using Release_reqs [OF r(1)] by blast
  have t: "test_complete env a q = Some (q, True)" using r nbc by (simp add: test_complete.simps)
  have g: "MPIR_Request_get_error env a q = Some (q, Some (MPIU_ERR_CREATE MPI_ERR_INTERN ''**badcase %d''))"
    using r by (simp add: MPIR_Request_get_error_def)
  have c: "MPIR_Request_complete env h a None q = Some (q\<lparr>recv := s'\<rparr>, MPI_REQUEST_NULL, None, True, None)"
    using r s' by (simp add: MPIR_Request_complete_def finish_request_def on_recv_def MPIR_Request_extract_status_def)
  have up: "[0..<Suc 0] = [0]" by simp
  have "MPI_Testall env True 1 (Some [h]) True IgnoreStatus p = Some (q\<lparr>recv := s'\<rparr>, [MPI_REQUEST_NULL], Some True, [None], Some ERR_IN_STATUS)"
    using v pump t g c
    by (simp add: MPI_Testall_def MPID_REQUEST_PTR_ARRAY_SIZE_def nulls_def up testall_count_def check_ready_def start_call_def
        testall_complete_def complete_at_def Let_def MPIR_Status_set_error_def)
  moreover have "MPI_Wait env (Some h) IgnoreStatus q = Some (q\<lparr>recv := s'\<rparr>, Some MPI_REQUEST_NULL, None, None)"
    using v t c by (simp add: MPI_Wait_def Let_def)
  ultimately show ?thesis by blast
qed

text \<open>
  The receive request of an unexpected message to oneself keeps the address of the send request
  without a reference. When the sender frees its request, as it may once the send is started, the
  receive accesses a request that is gone.
\<close>

lemma Recv_from_freed:
  assumes lists: "recv_lists (recv p) ps (us @ [ra])" and alloc: "ample (e_alloc env)" and rnk: "rnk \<noteq> MPI_PROC_NULL"
    and f: "f = filter_of rnk tag (ci_recvcontext_id (e_comm env comm))"
    and R: "reqs (recv p) ra = Some R" "waiting_self m sa R" "matching m f"
    and none: "\<forall>b\<in>set us. \<not> matching (envelope_of (reqs (recv p)) b) f"
    and S: "reqs (recv p) sa = None"
  shows "MPID_Recv env buf rnk tag comm p = None"
proof -
  have fresh: "fresh_alloc (e_alloc env)" using alloc by (simp add: ample_def)
  show ?thesis
    using lists fresh
  proof (cases rule: post_unsafe_cases [where src = rnk and tag = tag and ctx = "ci_recvcontext_id (e_comm env comm)"])
    case (Found xs a ys s1)
    have env: "envelope_of (reqs (recv p)) ra = m" using R(1,2) by (simp add: envelope_of_def waiting_self_def)
    have "a \<in> set (us @ [ra])" using Found(1) by simp
    then have a: "a = ra" using none Found(2) f by auto
    have "sa \<noteq> ra" using R(1) S by auto
    have sa1: "reqs s1 sa = None" using relinked_dom [OF Found(6)] S by (metis domIff)
    obtain v where ra1: "reqs s1 ra = Some (R\<lparr>rq_next := v\<rparr>)" using relinked_fields [OF Found(6) R(1)] by blast
    define R2 where "R2 = R\<lparr>rq_next := v, rq_comm := Some comm, rq_user_buf := b_addr buf, rq_user_count := b_count buf, rq_datatype := b_type buf\<rparr>"
    define s2 where "s2 = type_add_ref (b_type buf) (comm_add_ref comm s1)\<lparr>reqs := (reqs s1)(ra \<mapsto> R2)\<rparr>"
    have init: "recv_init buf comm ra True s1 = Some (s2, None)"
      using ra1 by (cases "b_type buf") (simp_all add: recv_init_def on_req_def upd_def R2_def s2_def type_add_ref_def comm_add_ref_def)
    have at2: "reqs s2 ra = Some R2" "reqs s2 sa = None" using sa1 \<open>sa \<noteq> ra\<close> by (simp_all add: s2_def)
    have cc: "rq_partner_request R2 = Some sa" "rq_msg_type R2 = MPIDI_REQUEST_SELF_MSG"
      using R(2) by (simp_all add: R2_def waiting_self_def)
    have "MPIDI_CH3_HandleRecvMsgType env buf ra (p\<lparr>recv := s2\<rparr>) = None"
      using at2 cc by (simp add: MPIDI_CH3_HandleRecvMsgType_def MPIDI_CH3_RecvFromSelf_def copy_self_def)
    then show ?thesis
      using rnk Found(4) init a by (simp add: MPID_Recv_def MPID_Recvq_dq_unexpected_or_new_posted_def)
  qed (use R f in \<open>auto simp: envelope_of_def waiting_self_def\<close>)
qed

theorem MPI_Request_free_of_self_send:
  assumes pend: "pending (recv p) P U" "finite (dom (reqs (recv p)))" and alloc: "ample (e_alloc env)"
    and me: "me = ci_rank (e_comm env comm)" "0 \<le> me" "\<not> ci_intercomm (e_comm env comm)"
    and m: "m = \<lparr>m_tag = stag, m_rank = me, m_context_id = ci_context_id (e_comm env comm)\<rparr>"
    and f: "f = filter_of rnk rtag (ci_recvcontext_id (e_comm env comm))" "matching m f"
    and none: "\<forall>u\<in>set U. \<not> matching (snd u) f" "\<forall>x\<in>set P. \<not> matching m (snd x)"
  shows "\<exists>p1 sa S. MPID_Send env sbuf me stag comm p = Some (p1, Inr sa) \<and> reqs (recv p1) sa = Some S \<and>
    (\<forall>cenv. c_mpid cenv = env \<and> MpiaRequestValidate cenv (rq_handle S) = Inr sa \<and> progress_pump cenv p1 = Some (p1, None) \<longrightarrow>
      (\<exists>p2. MPI_Request_free cenv (Some (rq_handle S)) p1 = Some (p2, Some MPI_REQUEST_NULL, None) \<and>
        MPID_Recv env rbuf rnk rtag comm p2 = None))"
proof -
  obtain ps us where l: "recv_lists (recv p) ps us" and PU: "P = entries (reqs (recv p)) ps" "U = entries (reqs (recv p)) us"
    using pend(1) by (rule pendingE)
  have none': "\<forall>b\<in>set us. \<not> matching (envelope_of (reqs (recv p)) b) f" "\<forall>b\<in>set ps. \<not> matching m (envelope_of (reqs (recv p)) b)"
    using none PU by (simp_all add: entries_def)
  have rnk: "rnk \<noteq> MPI_PROC_NULL" using f m me(2) by (auto simp: matching_def MPI_PROC_NULL_def MPI_ANY_SOURCE_def split: if_splits)
  obtain s1 sa S where S: "MPIDI_Request_create_sreq env MPIDI_REQUEST_TYPE_SEND sbuf me stag comm (recv p) = (s1, Some sa)"
    "sa \<notin> set ps \<union> set us" "recv_lists s1 ps us" "same_envelopes (set ps \<union> set us) (reqs (recv p)) (reqs s1)"
    "reqs s1 sa = Some S" "new_sreq env MPIDI_REQUEST_TYPE_SEND sbuf me stag comm S" "finite (dom (reqs s1))"
    by (rule create_sreq [OF l alloc pend(2), of MPIDI_REQUEST_TYPE_SEND sbuf me stag comm]) blast
  have sm: "m = self_match env comm (rq_match S)" using S(6) m me by (simp add: new_sreq_def)
  obtain p1 ra R where p1: "MPIDI_Isend_self env sa (p\<lparr>recv := s1\<rparr>) = Some (p1, None)" "recv_lists (recv p1) ps (us @ [ra])"
    "same_envelopes (set ps \<union> set us) (reqs s1) (reqs (recv p1))" "umem p1 = umem p" "ra \<noteq> sa"
    "reqs (recv p1) sa = Some (S\<lparr>rq_msg_type := MPIDI_REQUEST_SELF_MSG\<rparr>)" "reqs (recv p1) ra = Some R" "waiting_self m sa R"
    using Isend_self_unexpected [of "p\<lparr>recv := s1\<rparr>" ps us env sa S comm m] S sm alloc
      same_envelopes_match' [OF S(4) _ none'(2)] by (auto simp: new_sreq_def)
  note env1 = same_envelopes_trans [OF S(4) p1(3)]
  let ?S = "S\<lparr>rq_msg_type := MPIDI_REQUEST_SELF_MSG\<rparr>"
  have send: "MPID_Send env sbuf me stag comm p = Some (p1, Inr sa)"
    using MPID_Send_to_self [of env sbuf comm stag p s1 sa S p1] S p1(1) me by simp
  have freed: "\<exists>p2. MPI_Request_free cenv (Some (rq_handle ?S)) p1 = Some (p2, Some MPI_REQUEST_NULL, None) \<and>
        MPID_Recv env rbuf rnk rtag comm p2 = None"
    if "MpiaRequestValidate cenv (rq_handle ?S) = Inr sa" "progress_pump cenv p1 = Some (p1, None)" for cenv
  proof -
    obtain s2 where s2: "Release sa (recv p1) = Some s2" "reqs s2 = (reqs (recv p1))(sa := dropped ?S)"
      using Release_reqs [OF p1(6)] by blast
    have gone: "reqs s2 sa = None" using s2(2) S(6) by (simp add: dropped_def new_sreq_def i32_def)
    have free: "MPI_Request_free cenv (Some (rq_handle ?S)) p1 = Some (p1\<lparr>recv := s2\<rparr>, Some MPI_REQUEST_NULL, None)"
      using that p1(6) S(6) s2(1) by (simp add: MPI_Request_free_def new_sreq_def on_recv_def)
    have und: "undisturbed (set ps \<union> set (us @ [ra])) (recv p1) s2"
      by (rule Release_undisturbed [OF s2(1)]) (use S(2) p1(5) in auto)
    have lists2: "recv_lists s2 ps (us @ [ra])" by (rule undisturbed_lists [OF p1(2) und])
    have "same_envelopes (set ps \<union> set us) (reqs (recv p1)) (reqs s2)"
      using und by (simp add: undisturbed_def same_envelopes_def)
    then have "\<forall>b\<in>set us. \<not> matching (envelope_of (reqs s2) b) f"
      using same_envelopes_match [OF same_envelopes_trans [OF env1] _ none'(1)] by blast
    moreover have "reqs s2 ra = Some R" using s2(2) p1(5,7) by simp
    ultimately have "MPID_Recv env rbuf rnk rtag comm (p1\<lparr>recv := s2\<rparr>) = None"
      using Recv_from_freed [of "p1\<lparr>recv := s2\<rparr>" ps us ra env rnk f rtag comm R m sa rbuf] lists2 alloc rnk f p1(8) gone by simp
    then show ?thesis using free by blast
  qed
  show ?thesis
    by (rule exI [of _ p1], rule exI [of _ sa], rule exI [of _ ?S]) (use send p1(6) freed in auto)
qed

end
