(* ===== verification/Spec2Isabelle.thy ===== *)
theory Spec2Isabelle
  imports Object_Pool Info_Properties Group_Subset Group_Demo Dims Cart_Comms Graph_Topology Barrier_Run Allreduce_Result
    Completion_Wait
begin

text \<open>
  MS-MPI: a verification library for Microsoft's implementation of MPI (\<open>src/mpi/msmpi\<close>).

  \<^bold>\<open>The program.\<close> An MPI program is linked with \<open>msmpi.dll\<close>. Its entry points (\<open>api/mpi_*.cpp\<close>) check
  their arguments, turn handles into objects and call the device (\<open>mpid/*.cpp\<close>). Handles are 32-bit words that
  name an entry of an object table: a C allocator (\<open>util/handlemem.cpp\<close>) for requests, groups, windows and info
  objects, a C++ one (\<open>include/objpool.h\<close>) for communicators, datatypes and operations. Groups are lists of
  process ids; communicators carry a group, a context id and perhaps a topology. A receive is a request
  that waits in a queue until a message that matches comes in, and a message that nobody waits for waits in a
  second queue; requests are completed by the progress engine, and the calls that test and wait for them hand
  the results to the program. Collective operations are built on blocking point-to-point calls.

  \<^bold>\<open>Conventions.\<close> Definitions keep the names of the source. A structure is a record, an enumeration a
  datatype, a handle a \<open>32 word\<close>; C's \<open>int\<close> is an integer whose arithmetic wraps by \<open>i32\<close> where the code can
  leave the range, and \<open>c_div\<close>, \<open>c_mod\<close> truncate. An outcome is \<open>None\<close> where C leaves the behaviour undefined
  (an access outside an array or to an object that is gone, a division by zero) or the code does not return,
  \<open>Some (Inl e)\<close> for an MPI error and \<open>Some (Inr v)\<close> otherwise. An error is its class and the key of its message.
  A null pointer is \<open>None\<close>, or \<open>False\<close> for an output argument. Loops are recursive functions;
  those that need not end are partial functions in the option monad, and the theorems say where they return.
  There is no fuel. Allocations that may fail take their outcome from a list in the state or a boolean
  argument. Code outside \<open>src/\<close> and the parts not modelled are arguments of the definitions that use them,
  with what is assumed of them as hypotheses of the theorems.

  \<^bold>\<open>The theories.\<close>

  \<^item> \<open>Prelude\<close>: error classes (\<open>include/mpi.h\<close>), outcomes, arrays with checked access, 32-bit arithmetic.
  \<^item> \<open>Handles\<close>: the macros of \<open>common/mpihandlemem.h\<close> that build and take apart handles, and that they are inverse.
  \<^item> \<open>Pool_Spec\<close>: the locale \<open>handle_pool\<close>, what a client of an object table relies on. \<open>Handle_Mem\<close>
    (\<open>util/handlemem.cpp\<close>) and \<open>Object_Pool\<close> (\<open>include/objpool.h\<close>) model the two tables, interpret the locale and
    show that a handle leads to its object until the object is freed.
  \<^item> \<open>Info_Objects\<close>, \<open>Info_Lists\<close>, \<open>Info_Refine\<close>, \<open>Info_Calls\<close>, \<open>Info_Spec\<close>, \<open>Info_Properties\<close>: info objects
    (\<open>mpid/info.cpp\<close>, \<open>api/mpi_info.cpp\<close>), linked lists of pairs of strings in the C object table. The calls
    refine lists of pairs, with allocations that fail and objects that share no node, and a key that was set is found.
  \<^item> \<open>Lpid_Sort\<close>, \<open>Group_Objects\<close>, \<open>Group_Build\<close>, \<open>Group_Select\<close>, \<open>Group_Ranges\<close>, \<open>Group_Sets\<close>, \<open>Group_Subset\<close>:
    groups (\<open>mpid/group.cpp\<close>, \<open>api/mpi_group.cpp\<close>). State: the object table with the member arrays, the
    cached ranks sorted by process id (a linked merge sort) and reference counts. Every operation is shown
    to make the list of members that the MPI standard describes, or to report the first fault.
    \<open>Group_Demo\<close> has the concrete groups of the witnesses.
  \<^item> \<open>Dims\<close>: \<open>MPI_Dims_create\<close> with its factoring (\<open>mpid/topo.cpp\<close>).
  \<^item> \<open>Topology\<close>, \<open>Cart_Grid\<close>, \<open>Cart_Comms\<close>, \<open>Graph_Topology\<close>: Cartesian and graph topologies (\<open>mpid/topo.cpp\<close>,
    \<open>api/mpi_topo.cpp\<close>) against coordinates in mixed radix and neighbour lists.
  \<^item> \<open>Bit_Scan\<close>, \<open>Message_Passing\<close>, \<open>Coll_Comm\<close>: powers of two, and the setting of the collective
    operations: processes as lists of point-to-point operations, every interleaving, eager and rendezvous
    delivery, failures. The locales \<open>contract\<close> and \<open>schedule\<close> (with \<open>staged\<close> as a special case) are the rules for
    what the processes compute and for freedom from deadlock.
  \<^item> \<open>Barrier\<close>, \<open>Node_Comms\<close>, \<open>Barrier_Net\<close>, \<open>Barrier_Run\<close>: \<open>MPI_Barrier\<close> (\<open>mpid/barrier.cpp\<close>) on flat and
    node-aware communicators (\<open>mpid/comm.cpp\<close>, \<open>util/local_proc.cpp\<close>): nobody leaves before all have come, and it ends.
  \<^item> \<open>Rounds\<close>, \<open>Rank_Rounds\<close>: collectives in rounds, where in each round a rank sends to at most one rank and
    receives from at most one. The locales \<open>rounds\<close> and \<open>rank_rounds\<close> (over \<open>numbered\<close>, a proof rule that counts the messages of
    a channel) show that such a collective ends and that every process ends with the data of the rounds done in step.
  \<^item> \<open>Allreduce\<close>, \<open>Allreduce_Code\<close>, \<open>Allreduce_Data\<close>, \<open>Allreduce_Result\<close>: \<open>MPIR_Allreduce_intra_flat\<close>
    (\<open>mpid/reduce.cpp\<close>) by recursive doubling or by reduce-scatter and allgather, with its code in closed form as rounds:
    every process ends with the contributions of all, combined in the order of the ranks.
  \<^item> \<open>Buffer_Copy\<close>: the copy between two typed buffers of one process (\<open>mpid/pt2pt.cpp\<close>) on a byte memory.
  \<^item> \<open>Recv_Queue\<close>, \<open>Recv_Matching\<close>, \<open>Recv_Queues\<close>, \<open>Recv_Order\<close>, \<open>Recv_Demo\<close>: the receive queues
    (\<open>mpid/packethandling.cpp\<close>) as linked requests in a heap. They refine lists, and the locale
    \<open>recv_matching\<close>, interpreted on them, gives that messages do not overtake each other.
  \<^item> \<open>Self_Messages\<close>, \<open>Self_Delivery\<close>: sending, receiving, probing and cancelling (\<open>mpid/pt2pt.cpp\<close>,
    \<open>include/request.inl\<close>, \<open>mpid/probe.cpp\<close>), and that a message to oneself is delivered once.
  \<^item> \<open>Queue_Lock\<close>: the queue lock of \<open>api/mpi_completion.cpp\<close>, one memory access per step; the locale \<open>fifo_lock\<close>.
  \<^item> \<open>Request_Completion\<close>, \<open>Completion_Calls\<close>, \<open>Completion_Proofs\<close>, \<open>Completion_Wait\<close>: the life of a request
    (\<open>mpid/request.cpp\<close>) and the calls that test, wait for, start, free and cancel requests
    (\<open>api/mpi_completion.cpp\<close>, \<open>api/mpi_request.cpp\<close>): \<open>MPI_Testall\<close> is all or nothing, \<open>MPI_Waitall\<close> returns.

  \<^bold>\<open>Bounds.\<close> Communicators have at most \<open>2 ^ 30\<close> processes where a collective operation doubles a distance in
  \<open>int\<close>; beyond that \<open>MPIR_Barrier_intra_flat\<close> does not return. An allreduce works for all sizes of an \<open>int\<close>. Object tables have at most 1023 blocks of
  256 entries besides the direct ones, as in the code.

  \<^bold>\<open>Not modelled.\<close> Tracing, the error handlers and the formatted text of messages, the check that the library is
  initialised, and thread safety by the global lock (each call is one step; the queue lock is the
  exception). Left out as components: the channels (sockets, shared memory, Network Direct) and their
  progress engine, which are input and output on handles of the operating system; one-sided communication,
  datatype construction and packing, the collective operations other than those above, file access, dynamic
  processes, the Fortran bindings and the process managers (\<open>mpiexec\<close>, \<open>smpd\<close>). The list of components
  in the manifest gives the reason for each.
\<close>

end
